(* ===== verification/Prelude.thy ===== *)
theory Prelude
  imports Main "HOL-Library.Word"
begin

text \<open>
  Shared vocabulary of the development: Go outcomes (value, error, panic), the 64-bit
  two's-complement reading of Go's \<open>int64\<close>/\<open>int\<close>, checked slicing and big-endian reads
  (\<open>encoding/binary\<close>), the contract of a first-in first-out grant loop, and the invariant
  principle for state machines. The component theories import this one.
\<close>

named_theorems go_simps \<open>rewrite rules for Go outcomes, slices and integer reads\<close>

section \<open>Outcomes of Go code\<close>

text \<open>
  A Go function returns a value, returns an error, or panics (an out-of-range index or slice).
  Each source error is a constructor of the component's own error type.
\<close>

type_synonym byte = "8 word"

datatype ('e, 'a) outcome = Ok 'a | Err 'e | Panic

fun bnd :: "('e, 'a) outcome \<Rightarrow> ('a \<Rightarrow> ('e, 'b) outcome) \<Rightarrow> ('e, 'b) outcome" where
  "bnd (Ok x) f = f x"
| "bnd (Err e) f = Err e"
| "bnd Panic f = Panic"

lemma bnd_cong [fundef_cong]:
  assumes "m = m'" and "\<And>x. m' = Ok x \<Longrightarrow> f x = f' x"
  shows "bnd m f = bnd m' f'"
  using assms by (cases m') auto

lemma bnd_eq_Ok [go_simps]: "bnd m f = Ok y \<longleftrightarrow> (\<exists>x. m = Ok x \<and> f x = Ok y)"
  by (cases m) auto

lemma bnd_eq_Panic [go_simps]: "bnd m f = Panic \<longleftrightarrow> m = Panic \<or> (\<exists>x. m = Ok x \<and> f x = Panic)"
  by (cases m) auto

lemma bnd_eq_Err [go_simps]: "bnd m f = Err e \<longleftrightarrow> m = Err e \<or> (\<exists>x. m = Ok x \<and> f x = Err e)"
  by (cases m) auto

lemma bnd_no_panic: "m \<noteq> Panic \<Longrightarrow> (\<And>x. m = Ok x \<Longrightarrow> f x \<noteq> Panic) \<Longrightarrow> bnd m f \<noteq> Panic"
  by (cases m) auto

lemma bnd_assoc: "bnd (bnd m f) g = bnd m (\<lambda>x. bnd (f x) g)"
  by (cases m) auto

section \<open>Machine integers\<close>

text \<open>Go's \<open>int64\<close> (and \<open>int\<close> on the 64-bit targets) wraps around silently.\<close>

definition i64 :: "int \<Rightarrow> int" where
  "i64 x = (x + 2 ^ 63) mod 2 ^ 64 - 2 ^ 63"

definition i32 :: "int \<Rightarrow> int" where
  "i32 x = (x + 2 ^ 31) mod 2 ^ 32 - 2 ^ 31"

lemma i64_id [simp]: "- (2 ^ 63) \<le> x \<Longrightarrow> x < 2 ^ 63 \<Longrightarrow> i64 x = x"
  by (simp add: i64_def)

lemma i64_range: "- (2 ^ 63) \<le> i64 x \<and> i64 x < 2 ^ 63"
proof -
  have "0 \<le> (x + 2 ^ 63) mod 2 ^ 64" and "(x + 2 ^ 63) mod 2 ^ 64 < (2::int) ^ 64"
    by simp_all
  then show ?thesis by (simp add: i64_def)
qed

lemma i32_range: "- (2 ^ 31) \<le> i32 x \<and> i32 x < 2 ^ 31"
proof -
  have "0 \<le> (x + 2 ^ 31) mod 2 ^ 32" and "(x + 2 ^ 31) mod 2 ^ 32 < (2::int) ^ 32"
    by simp_all
  then show ?thesis by (simp add: i32_def)
qed

section \<open>Checked slices and big-endian reads\<close>

text \<open>
  \<open>p[lo:hi]\<close> panics unless \<open>0 <= lo <= hi <= cap(p)\<close>; the slices the models take satisfy
  \<open>hi <= len(p)\<close> or panic, so the bound here is the length.
\<close>

definition slice :: "'a list \<Rightarrow> int \<Rightarrow> int \<Rightarrow> ('e, 'a list) outcome" where
  "slice xs lo hi =
     (if 0 \<le> lo \<and> lo \<le> hi \<and> hi \<le> int (length xs)
      then Ok (take (nat (hi - lo)) (drop (nat lo) xs)) else Panic)"

text \<open>The same for non-negative bounds, where lengths and offsets are naturals.\<close>

definition sliceN :: "'a list \<Rightarrow> nat \<Rightarrow> nat \<Rightarrow> ('e, 'a list) outcome" where
  "sliceN xs lo hi = (if lo \<le> hi \<and> hi \<le> length xs then Ok (take (hi - lo) (drop lo xs)) else Panic)"

lemma sliceN_ok [simp]: "lo \<le> hi \<Longrightarrow> hi \<le> length xs \<Longrightarrow> sliceN xs lo hi = Ok (take (hi - lo) (drop lo xs))"
  by (simp add: sliceN_def)

definition idx :: "'a list \<Rightarrow> nat \<Rightarrow> ('e, 'a) outcome" where
  "idx xs i = (if i < length xs then Ok (xs ! i) else Panic)"

lemma idx_ok [simp]: "i < length xs \<Longrightarrow> idx xs i = Ok (xs ! i)"
  by (simp add: idx_def)

fun be_nat :: "byte list \<Rightarrow> nat" where
  "be_nat bs = foldl (\<lambda>acc b. acc * 256 + unat b) 0 bs"

definition be_read :: "nat \<Rightarrow> byte list \<Rightarrow> nat \<Rightarrow> ('e, nat) outcome" where
  "be_read k p off = (if off + k \<le> length p then Ok (be_nat (take k (drop off p))) else Panic)"

abbreviation be16 :: "byte list \<Rightarrow> nat \<Rightarrow> ('e, nat) outcome" where "be16 \<equiv> be_read 2"
abbreviation be32 :: "byte list \<Rightarrow> nat \<Rightarrow> ('e, nat) outcome" where "be32 \<equiv> be_read 4"
abbreviation be64 :: "byte list \<Rightarrow> nat \<Rightarrow> ('e, nat) outcome" where "be64 \<equiv> be_read 8"

lemma be_read_ok [simp]:
  "off + k \<le> length p \<Longrightarrow> be_read k p off = Ok (be_nat (take k (drop off p)))"
  by (simp add: be_read_def)

lemma be_nat_snoc: "be_nat (bs @ [b]) = be_nat bs * 256 + unat b"
  by simp

declare be_nat.simps [simp del]

lemma be_nat_less: "be_nat bs < 256 ^ length bs"
proof (induction bs rule: rev_induct)
  case Nil
  then show ?case by (simp add: be_nat.simps)
next
  case (snoc b bs)
  have "unat b < 256"
    using unsigned_less [of b, where 'a = nat] by simp
  moreover have "be_nat bs * 256 + 256 \<le> 256 ^ length bs * 256"
    using snoc.IH by linarith
  ultimately show ?case
    by (simp add: be_nat_snoc)
qed

text \<open>Big-endian encoding, the inverse of the reads.\<close>

fun be_bytes :: "nat \<Rightarrow> nat \<Rightarrow> byte list" where
  "be_bytes 0 n = []"
| "be_bytes (Suc k) n = be_bytes k (n div 256) @ [of_nat (n mod 256)]"

lemma length_be_bytes [simp]: "length (be_bytes k n) = k"
  by (induction k arbitrary: n) simp_all

lemma be_nat_bytes [simp]: "n < 256 ^ k \<Longrightarrow> be_nat (be_bytes k n) = n"
proof (induction k arbitrary: n)
  case 0
  then show ?case by (simp add: be_nat.simps)
next
  case (Suc k)
  have "n div 256 < 256 ^ k" using Suc.prems by (simp add: less_mult_imp_div_less mult.commute)
  moreover have "unat (of_nat (n mod 256) :: byte) = n mod 256"
    by (simp add: unat_of_nat)
  ultimately show ?case using Suc.IH by (simp add: be_nat_snoc)
qed

lemma be_read_append:
  "be_read k (pre @ be_bytes k n @ post) (length pre) = Ok n" if "n < 256 ^ k"
  using that by (simp add: be_read_def)

section \<open>Decimal numbers\<close>

text \<open>\<open>strconv.Itoa\<close> of a non-negative number.\<close>

function itoa :: "nat \<Rightarrow> string" where
  "itoa n = (if n < 10 then [char_of (48 + n)] else itoa (n div 10) @ [char_of (48 + n mod 10)])"
  by pat_completeness auto
termination by (relation "measure (\<lambda>n. n)") auto

declare itoa.simps [simp del]

section \<open>Sums over finitely many callers\<close>

text \<open>Accounting invariants say that a counter is a sum over callers or entries; an operation
  changes one summand.\<close>

lemma sum_change_one:
  fixes f g :: "'a \<Rightarrow> int"
  assumes "finite A" "i \<in> A" "g i = f i + d" "\<And>j. j \<in> A \<Longrightarrow> j \<noteq> i \<Longrightarrow> g j = f j"
  shows "sum g A = sum f A + d"
proof -
  have "sum g A = g i + sum g (A - {i})"
    using assms(1,2) by (rule sum.remove)
  also have "sum g (A - {i}) = sum f (A - {i})"
    using assms(4) by (intro sum.cong) auto
  finally show ?thesis
    using assms(3) sum.remove [OF assms(1,2), of f] by simp
qed

section \<open>Invariants of state machines\<close>

inductive reach :: "('s \<Rightarrow> bool) \<Rightarrow> ('s \<Rightarrow> 's \<Rightarrow> bool) \<Rightarrow> 's \<Rightarrow> bool"
  for start :: "'s \<Rightarrow> bool" and step :: "'s \<Rightarrow> 's \<Rightarrow> bool" where
  reach_start: "start s \<Longrightarrow> reach start step s"
| reach_step: "reach start step s \<Longrightarrow> step s t \<Longrightarrow> reach start step t"

text \<open>The contract of a component seen as a state machine: its start states satisfy the
  invariant and every step keeps it.\<close>

locale inv_system =
  fixes start :: "'s \<Rightarrow> bool"
    and step :: "'s \<Rightarrow> 's \<Rightarrow> bool"
    and inv :: "'s \<Rightarrow> bool"
  assumes inv_start: "start s \<Longrightarrow> inv s"
    and inv_step: "inv s \<Longrightarrow> step s t \<Longrightarrow> inv t"
begin

lemma reach_inv: "reach start step s \<Longrightarrow> inv s"
  by (induction rule: reach.induct) (auto intro: inv_start inv_step)

lemma run_inv: "rtranclp step s t \<Longrightarrow> inv s \<Longrightarrow> inv t"
  by (induction rule: rtranclp_induct) (auto intro: inv_step)

end

section \<open>First-in first-out grant loops\<close>

text \<open>
  Two semaphores of the program (the stream proxy's byte budget and the transcoder's slot
  semaphore) hand capacity to a queue of waiters with the same loop: look at the front, stop if
  it does not fit, otherwise grant it and continue.
\<close>

locale fifo_grant =
  fixes queue :: "'s \<Rightarrow> 'w list"
    and fits :: "'s \<Rightarrow> 'w \<Rightarrow> bool"
    and give :: "'w \<Rightarrow> 's \<Rightarrow> 's"
    and loop :: "'s \<Rightarrow> 's"
  assumes loop_unfold:
      "loop s = (case queue s of [] \<Rightarrow> s | w # ws \<Rightarrow> if fits s w then loop (give w s) else s)"
    and queue_give: "queue s = w # ws \<Longrightarrow> queue (give w s) = ws"
begin

lemma loop_nil: "queue s = [] \<Longrightarrow> loop s = s"
  by (subst loop_unfold) simp

lemma loop_fit: "queue s = w # ws \<Longrightarrow> fits s w \<Longrightarrow> loop s = loop (give w s)"
  by (subst loop_unfold) simp

lemma loop_stop: "queue s = w # ws \<Longrightarrow> \<not> fits s w \<Longrightarrow> loop s = s"
  by (subst loop_unfold) simp

text \<open>Induction along the loop: the queue is empty, or its front is refused, or the front is
  granted and the loop goes on.\<close>

lemma loop_induct [case_names stop grant]:
  assumes stop: "\<And>s. loop s = s \<Longrightarrow> queue s = [] \<or> \<not> fits s (hd (queue s)) \<Longrightarrow> P s"
    and grant: "\<And>s w. queue s = w # queue (give w s) \<Longrightarrow> fits s w \<Longrightarrow>
      loop s = loop (give w s) \<Longrightarrow> P (give w s) \<Longrightarrow> P s"
  shows "P s"
proof (induction "length (queue s)" arbitrary: s)
  case 0
  then show ?case by (intro stop) (simp_all add: loop_nil)
next
  case (Suc n)
  then obtain w ws where q: "queue s = w # ws"
    by (cases "queue s") auto
  show ?case
  proof (cases "fits s w")
    case True
    have "P (give w s)"
      using Suc q by (intro Suc.hyps(1)) (simp add: queue_give)
    with True q show ?thesis
      by (intro grant [of s w]) (simp_all add: queue_give loop_fit)
  next
    case False
    with q show ?thesis by (intro stop) (simp_all add: loop_stop)
  qed
qed

text \<open>The loop grants a prefix of the queue, in order, and stops only when the queue is empty or
  its front no longer fits.\<close>

lemma loop_prefix: "\<exists>gs. queue s = gs @ queue (loop s) \<and> loop s = fold give gs s"
proof (induction s rule: loop_induct)
  case (stop s)
  then show ?case by simp
next
  case (grant s w)
  then obtain gs where "queue (give w s) = gs @ queue (loop (give w s))"
    and "loop (give w s) = fold give gs (give w s)"
    by blast
  with grant.hyps show ?case
    by (intro exI [of _ "w # gs"]) (metis append_Cons fold_simps(2))
qed

lemma loop_stops: "queue (loop s) = [] \<or> \<not> fits (loop s) (hd (queue (loop s)))"
  by (induction s rule: loop_induct) simp_all

text \<open>A property that granting a fitting front keeps holds after the loop.\<close>

lemma loop_inv:
  assumes "P s" and "\<And>s w ws. P s \<Longrightarrow> queue s = w # ws \<Longrightarrow> fits s w \<Longrightarrow> P (give w s)"
  shows "P (loop s)"
  using assms(1)
proof (induction s rule: loop_induct)
  case (grant s w)
  have "P (give w s)"
    using assms(2) [OF grant.prems grant.hyps(1) grant.hyps(2)] .
  then show ?case
    using grant.IH grant.hyps(3) by simp
qed simp

end

end
