(* ===== verification/Byte_Budget.thy ===== *)
theory Byte_Budget
  imports Prelude
begin

text \<open>
  \<open>internal/streamproxy/membudget.go\<close>: the FIFO weighted semaphore that bounds the segment bytes
  buffered in memory while upstream responses are read. One definition per operation on the
  locked state; \<open>acquire\<close> is split where it blocks (entering, and leaving because the context is
  done). The concurrent callers are a step relation over the budget and the grants outstanding.
\<close>

section \<open>State and operations\<close>

record budgetWaiter =
  wid :: nat  \<comment> \<open>identity of the waiter (the pointer and its \<open>ready\<close> channel)\<close>
  wn :: int

record byteBudget =
  bmax :: int
  used :: int
  peak :: int
  waiters :: "budgetWaiter list"
  closed :: "nat set"  \<comment> \<open>waiters whose \<open>ready\<close> channel has been closed\<close>

datatype budget_err = errInflightBusy | errBudgetTooBig | ctxErr

datatype acquire_result = Acquired | AcquireErr budget_err | Blocked nat

definition maxSegmentBytes :: int where
  "maxSegmentBytes = 50 * 1024 * 1024"

definition defaultInflightMaxBytes :: int where
  "defaultInflightMaxBytes = 2 * maxSegmentBytes"

definition newByteBudget :: "int \<Rightarrow> byteBudget" where
  "newByteBudget limit = \<lparr>bmax = limit, used = 0, peak = 0, waiters = [], closed = {}\<rparr>"

definition grant :: "byteBudget \<Rightarrow> int \<Rightarrow> byteBudget" where
  "grant b n =
     (let b' = b\<lparr>used := i64 (used b + n)\<rparr>
      in if used b' > peak b' then b'\<lparr>peak := used b'\<rparr> else b')"

definition tryAcquire :: "byteBudget \<Rightarrow> int \<Rightarrow> bool \<times> byteBudget" where
  "tryAcquire b n =
     (if n > bmax b \<or> i64 (used b + n) > bmax b \<or> length (waiters b) > 0 then (False, b)
      else (True, grant b n))"

function notifyLocked :: "byteBudget \<Rightarrow> byteBudget" where
  "notifyLocked b =
     (case waiters b of
        [] \<Rightarrow> b
      | w # ws \<Rightarrow>
          if i64 (used b + wn w) > bmax b then b
          else notifyLocked ((grant b (wn w))\<lparr>waiters := ws, closed := insert (wid w) (closed b)\<rparr>))"
  by pat_completeness auto
termination
  by (relation "measure (\<lambda>b. length (waiters b))") auto

declare notifyLocked.simps [simp del]

text \<open>\<open>acquire\<close> up to the point where it returns or blocks on \<open>w.ready\<close>; \<open>i\<close> names the waiter the
  call would create.\<close>

definition acquire :: "byteBudget \<Rightarrow> nat \<Rightarrow> int \<Rightarrow> acquire_result \<times> byteBudget" where
  "acquire b i n =
     (if n > bmax b then (AcquireErr errBudgetTooBig, b)
      else if i64 (used b + n) \<le> bmax b \<and> length (waiters b) = 0 then (Acquired, grant b n)
      else (Blocked i, b\<lparr>waiters := waiters b @ [\<lparr>wid = i, wn = n\<rparr>]\<rparr>))"

text \<open>The \<open>ctx.Done()\<close> branch of a blocked \<open>acquire\<close>.\<close>

definition acquireCancel :: "byteBudget \<Rightarrow> nat \<Rightarrow> int \<Rightarrow> acquire_result \<times> byteBudget" where
  "acquireCancel b i n =
     (let b' = (if i \<in> closed b then b\<lparr>used := i64 (used b - n)\<rparr>
                else b\<lparr>waiters := filter (\<lambda>w. wid w \<noteq> i) (waiters b)\<rparr>)
      in (AcquireErr ctxErr, notifyLocked b'))"

definition release :: "byteBudget \<Rightarrow> int \<Rightarrow> byteBudget" where
  "release b n = (if n \<le> 0 then b else notifyLocked (b\<lparr>used := i64 (used b - n)\<rparr>))"

text \<open>\<open>segmentReservation\<close> and \<open>reserveInflight\<close> of \<open>cache.go\<close>, the budget's client.\<close>

definition segmentReservation :: "int \<Rightarrow> int" where
  "segmentReservation contentLength = (if contentLength < 0 then maxSegmentBytes else contentLength)"

definition reserveInflight :: "byteBudget \<Rightarrow> nat \<Rightarrow> int \<Rightarrow> bool \<Rightarrow> acquire_result \<times> byteBudget" where
  "reserveInflight b i n wait =
     (if wait then acquire b i n
      else case tryAcquire b n of
        (False, b') \<Rightarrow> (AcquireErr errInflightBusy, b')
      | (True, b') \<Rightarrow> (Acquired, b'))"

section \<open>The grant loop is first-in first-out\<close>

definition give_budget :: "budgetWaiter \<Rightarrow> byteBudget \<Rightarrow> byteBudget" where
  "give_budget w b =
     (grant b (wn w))\<lparr>waiters := tl (waiters b), closed := insert (wid w) (closed b)\<rparr>"

interpretation budget_loop: fifo_grant waiters "\<lambda>b w. i64 (used b + wn w) \<le> bmax b"
  give_budget notifyLocked
proof unfold_locales
  fix s
  show "notifyLocked s =
      (case waiters s of [] \<Rightarrow> s
       | w # ws \<Rightarrow> if i64 (used s + wn w) \<le> bmax s then notifyLocked (give_budget w s) else s)"
    by (subst notifyLocked.simps) (auto simp: give_budget_def split: list.splits)
qed (simp add: give_budget_def)

lemma grant_sel [simp]:
  "bmax (grant b n) = bmax b" "waiters (grant b n) = waiters b" "closed (grant b n) = closed b"
  "used (grant b n) = i64 (used b + n)"
  by (simp_all add: grant_def Let_def)

lemma give_budget_sel [simp]:
  "bmax (give_budget w b) = bmax b" "waiters (give_budget w b) = tl (waiters b)"
  "closed (give_budget w b) = insert (wid w) (closed b)"
  "used (give_budget w b) = i64 (used b + wn w)"
  by (simp_all add: give_budget_def)

section \<open>The callers as a state machine\<close>

text \<open>
  \<open>holds\<close> records the bytes granted to a call that has not given them back: a call that returned
  nil, or a blocked call whose channel is closed. A call identifier is used once (\<open>fresh\<close>), as
  each \<open>acquire\<close> allocates its own waiter.
\<close>

record bsys =
  bud :: byteBudget
  holds :: "nat \<Rightarrow> int option"
  blocked :: "nat \<Rightarrow> int option"  \<comment> \<open>calls waiting in \<open>acquire\<close>'s select\<close>
  fresh :: nat

inductive budget_step :: "bsys \<Rightarrow> bsys \<Rightarrow> bool" where
  try_ok: "0 \<le> n \<Longrightarrow> tryAcquire (bud s) n = (True, b') \<Longrightarrow>
     budget_step s (s\<lparr>bud := b', holds := (holds s)(fresh s \<mapsto> n), fresh := Suc (fresh s)\<rparr>)"
| try_fail: "0 \<le> n \<Longrightarrow> tryAcquire (bud s) n = (False, b') \<Longrightarrow> budget_step s (s\<lparr>bud := b'\<rparr>)"
| acq_ok: "0 \<le> n \<Longrightarrow> acquire (bud s) (fresh s) n = (Acquired, b') \<Longrightarrow>
     budget_step s (s\<lparr>bud := b', holds := (holds s)(fresh s \<mapsto> n), fresh := Suc (fresh s)\<rparr>)"
| acq_err: "0 \<le> n \<Longrightarrow> acquire (bud s) (fresh s) n = (AcquireErr e, b') \<Longrightarrow>
     budget_step s (s\<lparr>bud := b'\<rparr>)"
| acq_block: "0 \<le> n \<Longrightarrow> acquire (bud s) (fresh s) n = (Blocked i, b') \<Longrightarrow>
     budget_step s (s\<lparr>bud := b', blocked := (blocked s)(i \<mapsto> n), fresh := Suc (fresh s)\<rparr>)"
| acq_wake: "blocked s i = Some n \<Longrightarrow> i \<in> closed (bud s) \<Longrightarrow>
     budget_step s (s\<lparr>holds := (holds s)(i \<mapsto> n), blocked := (blocked s)(i := None)\<rparr>)"
| acq_cancel: "blocked s i = Some n \<Longrightarrow> acquireCancel (bud s) i n = (r, b') \<Longrightarrow>
     budget_step s (s\<lparr>bud := b', blocked := (blocked s)(i := None)\<rparr>)"
| rel_part: "holds s i = Some n \<Longrightarrow> 0 \<le> k \<Longrightarrow> k \<le> n \<Longrightarrow>
     budget_step s (s\<lparr>bud := release (bud s) k, holds := (holds s)(i \<mapsto> n - k)\<rparr>)"
| rel: "holds s i = Some n \<Longrightarrow>
     budget_step s (s\<lparr>bud := release (bud s) n, holds := (holds s)(i := None)\<rparr>)"

section \<open>Invariant\<close>

fun opt0 :: "int option \<Rightarrow> int" where
  "opt0 None = 0"
| "opt0 (Some n) = n"

definition outst :: "bsys \<Rightarrow> nat \<Rightarrow> int" where
  "outst s i = (if holds s i \<noteq> None then opt0 (holds s i)
     else if i \<in> closed (bud s) then opt0 (blocked s i) else 0)"

lemma opt0_nonneg: "(\<And>n. x = Some n \<Longrightarrow> 0 \<le> n) \<Longrightarrow> 0 \<le> opt0 x"
  by (cases x) auto

text \<open>What holds between the two halves of an operation (before the grant loop has run).\<close>

definition budget_winv :: "bsys \<Rightarrow> bool" where
  "budget_winv s \<longleftrightarrow>
     bmax (bud s) < 2 ^ 62 \<and>
     used (bud s) = sum (outst s) {..<fresh s} \<and> used (bud s) \<le> bmax (bud s) \<and>
     used (bud s) \<le> peak (bud s) \<and> peak (bud s) \<le> bmax (bud s) \<and>
     (\<forall>i n. holds s i = Some n \<longrightarrow> 0 \<le> n \<and> i < fresh s \<and> blocked s i = None) \<and>
     (\<forall>i n. blocked s i = Some n \<longrightarrow> 0 \<le> n \<and> n \<le> bmax (bud s) \<and> i < fresh s) \<and>
     (\<forall>i \<in> closed (bud s). i < fresh s) \<and>
     distinct (map wid (waiters (bud s))) \<and>
     (\<forall>w \<in> set (waiters (bud s)). blocked s (wid w) = Some (wn w) \<and> wid w \<notin> closed (bud s)) \<and>
     (\<forall>i n. blocked s i = Some n \<longrightarrow> i \<notin> closed (bud s) \<longrightarrow> i \<in> wid ` set (waiters (bud s)))"

definition head_stuck :: "byteBudget \<Rightarrow> bool" where
  "head_stuck b \<longleftrightarrow> waiters b = [] \<or> used b + wn (hd (waiters b)) > bmax b"

definition budget_inv :: "bsys \<Rightarrow> bool" where
  "budget_inv s \<longleftrightarrow> budget_winv s \<and> head_stuck (bud s)"

lemma outst_nonneg: "budget_winv s \<Longrightarrow> 0 \<le> outst s i"
  by (auto simp: outst_def budget_winv_def intro!: opt0_nonneg)

lemma used_nonneg: "budget_winv s \<Longrightarrow> 0 \<le> used (bud s)"
  using outst_nonneg [of s] by (simp add: budget_winv_def sum_nonneg)

lemma budget_room: "budget_winv s \<Longrightarrow> n \<le> bmax (bud s) \<Longrightarrow> 0 \<le> n \<Longrightarrow>
    i64 (used (bud s) + n) = used (bud s) + n"
  using used_nonneg [of s] by (intro i64_id) (auto simp: budget_winv_def)

lemma grant_peak: "peak (grant b n) = max (peak b) (i64 (used b + n))"
  by (simp add: grant_def Let_def max_def)

lemma winv_give:
  assumes inv: "budget_winv s" and q: "waiters (bud s) = w # ws"
    and fit: "i64 (used (bud s) + wn w) \<le> bmax (bud s)"
  shows "budget_winv (s\<lparr>bud := give_budget w (bud s)\<rparr>)"
proof -
  let ?t = "s\<lparr>bud := give_budget w (bud s)\<rparr>"
  have w: "blocked s (wid w) = Some (wn w)" "wid w \<notin> closed (bud s)" "wid w < fresh s"
      "0 \<le> wn w" "wn w \<le> bmax (bud s)" "holds s (wid w) = None"
    using inv q by (auto simp: budget_winv_def)
  have u: "i64 (used (bud s) + wn w) = used (bud s) + wn w"
    using budget_room [OF inv] w by blast
  have "sum (outst ?t) {..<fresh s} = sum (outst s) {..<fresh s} + wn w"
    using w by (intro sum_change_one [where i = "wid w"]) (auto simp: outst_def)
  moreover have "peak (give_budget w (bud s)) = max (peak (bud s)) (used (bud s) + wn w)"
    by (simp add: give_budget_def grant_peak u)
  ultimately show ?thesis
    using inv q fit w u unfolding budget_winv_def by (auto simp: max_def image_iff)
qed

text \<open>The grant loop keeps the weak invariant and re-establishes that the front does not fit.\<close>

lemma notify_inv:
  assumes "budget_winv s"
  shows "budget_inv (s\<lparr>bud := notifyLocked (bud s)\<rparr>)"
proof -
  let ?b = "notifyLocked (bud s)"
  have "budget_winv (s\<lparr>bud := bud s\<rparr>)" using assms by simp
  then have w: "budget_winv (s\<lparr>bud := ?b\<rparr>)"
    by (rule budget_loop.loop_inv) (use winv_give in fastforce)
  have "head_stuck ?b"
  proof (cases "waiters ?b")
    case (Cons x xs)
    have "i64 (used ?b + wn x) = used ?b + wn x"
      using budget_room [OF w, of "wn x"] w Cons by (auto simp: budget_winv_def)
    then show ?thesis
      using budget_loop.loop_stops [of "bud s"] Cons by (auto simp: head_stuck_def)
  qed (simp add: head_stuck_def)
  with w show ?thesis by (simp add: budget_inv_def)
qed

text \<open>Updates of different fields commute; the grant loop runs last.\<close>

lemma bsys_comm:
  "s\<lparr>blocked := x, bud := b\<rparr> = s\<lparr>bud := b, blocked := x\<rparr>"
  "s\<lparr>holds := y, bud := b\<rparr> = s\<lparr>bud := b, holds := y\<rparr>"
  by simp_all

lemma winv_hold:
  assumes inv: "budget_winv s" and n: "0 \<le> n" "n \<le> bmax (bud s)"
    and fit: "i64 (used (bud s) + n) \<le> bmax (bud s)"
  shows "budget_winv (s\<lparr>bud := grant (bud s) n, holds := (holds s)(fresh s \<mapsto> n),
           fresh := Suc (fresh s)\<rparr>)" (is "budget_winv ?t")
proof -
  have u: "i64 (used (bud s) + n) = used (bud s) + n"
    using budget_room [OF inv] n by blast
  have "fresh s \<notin> closed (bud s)" "blocked s (fresh s) = None"
    using inv unfolding budget_winv_def by (auto, metis not_None_eq order_less_irrefl)
  moreover from this have "sum (outst ?t) {..<Suc (fresh s)} = sum (outst s) {..<fresh s} + n"
    by (auto simp: outst_def intro!: sum.cong)
  moreover have "\<forall>i m. blocked s i = Some m \<longrightarrow> i < Suc (fresh s)" "\<forall>i \<in> closed (bud s). i < Suc (fresh s)"
    using inv unfolding budget_winv_def by (auto simp: less_SucI)
  ultimately show ?thesis
    using inv n fit u unfolding budget_winv_def by (auto simp: grant_peak less_SucI)
qed

lemma head_stuck_grant_empty: "waiters b = [] \<Longrightarrow> head_stuck (grant b n)"
  by (simp add: head_stuck_def)

lemma inv_try: "budget_inv s \<Longrightarrow> 0 \<le> n \<Longrightarrow> tryAcquire (bud s) n = (True, b') \<Longrightarrow>
    budget_inv (s\<lparr>bud := b', holds := (holds s)(fresh s \<mapsto> n), fresh := Suc (fresh s)\<rparr>)"
  using winv_hold [of s n]
  by (auto simp: tryAcquire_def budget_inv_def head_stuck_grant_empty not_less split: if_splits)

lemma inv_acq: "budget_inv s \<Longrightarrow> 0 \<le> n \<Longrightarrow> acquire (bud s) (fresh s) n = (Acquired, b') \<Longrightarrow>
    budget_inv (s\<lparr>bud := b', holds := (holds s)(fresh s \<mapsto> n), fresh := Suc (fresh s)\<rparr>)"
  using winv_hold [of s n]
  by (auto simp: acquire_def budget_inv_def head_stuck_grant_empty split: if_splits)

lemma inv_block:
  assumes inv: "budget_inv s" and n: "0 \<le> n"
    and acq: "acquire (bud s) (fresh s) n = (Blocked i, b')"
  shows "budget_inv (s\<lparr>bud := b', blocked := (blocked s)(i \<mapsto> n), fresh := Suc (fresh s)\<rparr>)"
    (is "budget_inv ?t")
proof -
  have w: "budget_winv s" and h: "head_stuck (bud s)"
    using inv by (auto simp: budget_inv_def)
  have a: "n \<le> bmax (bud s)" "i = fresh s" "waiters (bud s) = [] \<longrightarrow> i64 (used (bud s) + n) > bmax (bud s)"
      "b' = (bud s)\<lparr>waiters := waiters (bud s) @ [\<lparr>wid = fresh s, wn = n\<rparr>]\<rparr>"
    using acq by (auto simp: acquire_def split: if_splits)
  have f: "fresh s \<notin> closed (bud s)" "blocked s (fresh s) = None" "holds s (fresh s) = None"
      "fresh s \<notin> wid ` set (waiters (bud s))"
    using w unfolding budget_winv_def by (auto, (metis not_None_eq order_less_irrefl)+)
  have "sum (outst ?t) {..<Suc (fresh s)} = sum (outst s) {..<fresh s}"
    using f a by (auto simp: outst_def intro!: sum.cong)
  moreover have "head_stuck b'"
    using h a budget_room [OF w a(1) n] by (cases "waiters (bud s)") (auto simp: head_stuck_def)
  ultimately show ?thesis
    using w n a f unfolding budget_winv_def budget_inv_def by (auto simp: less_SucI)
qed

lemma inv_wake:
  assumes inv: "budget_inv s" and b: "blocked s i = Some n" "i \<in> closed (bud s)"
  shows "budget_inv (s\<lparr>holds := (holds s)(i \<mapsto> n), blocked := (blocked s)(i := None)\<rparr>)"
    (is "budget_inv ?t")
proof -
  have w: "budget_winv s" using inv by (simp add: budget_inv_def)
  have "holds s i = None"
    using w b unfolding budget_winv_def by (metis not_None_eq)
  then have "outst ?t = outst s"
    using b by (auto simp: outst_def fun_eq_iff)
  moreover have "i \<notin> wid ` set (waiters (bud s))"
    using w b unfolding budget_winv_def by auto
  ultimately show ?thesis
    using inv b unfolding budget_winv_def budget_inv_def by (auto simp: image_iff)
qed

lemma inv_cancel:
  assumes inv: "budget_inv s" and b: "blocked s i = Some n"
    and c: "acquireCancel (bud s) i n = (r, b')"
  shows "budget_inv (s\<lparr>bud := b', blocked := (blocked s)(i := None)\<rparr>)"
proof -
  define b0 where "b0 = (if i \<in> closed (bud s) then (bud s)\<lparr>used := i64 (used (bud s) - n)\<rparr>
                else (bud s)\<lparr>waiters := filter (\<lambda>w. wid w \<noteq> i) (waiters (bud s))\<rparr>)"
  let ?t = "s\<lparr>bud := b0, blocked := (blocked s)(i := None)\<rparr>"
  have w: "budget_winv s" using inv by (simp add: budget_inv_def)
  have i: "holds s i = None" "i < fresh s" "0 \<le> n" "n \<le> bmax (bud s)"
    using w b unfolding budget_winv_def by (metis not_None_eq, blast+)
  have rng: "i64 (used (bud s) - n) = used (bud s) - n"
    using i used_nonneg [OF w] w by (intro i64_id) (auto simp: budget_winv_def)
  have "budget_winv ?t"
  proof (cases "i \<in> closed (bud s)")
    case True
    have "sum (outst ?t) {..<fresh s} = sum (outst s) {..<fresh s} + - n"
      using True b i by (intro sum_change_one [where i = i]) (auto simp: outst_def b0_def)
    moreover have "i \<notin> wid ` set (waiters (bud s))"
      using w True unfolding budget_winv_def by auto
    ultimately show ?thesis
      using w True rng i unfolding budget_winv_def by (auto simp: b0_def image_iff)
  next
    case False
    have "outst ?t = outst s"
      using False b i by (auto simp: outst_def b0_def fun_eq_iff)
    then show ?thesis
      using w False unfolding budget_winv_def by (auto simp: b0_def distinct_map_filter image_iff)
  qed
  from notify_inv [OF this] have "budget_inv (s\<lparr>bud := notifyLocked b0, blocked := (blocked s)(i := None)\<rparr>)"
    by (simp add: bsys_comm)
  then show ?thesis
    using c by (simp add: acquireCancel_def b0_def Let_def)
qed

lemma inv_rel:
  assumes inv: "budget_inv s" and h: "holds s i = Some n"
  shows "budget_inv (s\<lparr>bud := release (bud s) n, holds := (holds s)(i := None)\<rparr>)"
proof -
  let ?t = "s\<lparr>bud := (bud s)\<lparr>used := i64 (used (bud s) - n)\<rparr>, holds := (holds s)(i := None)\<rparr>"
  have w: "budget_winv s" using inv by (simp add: budget_inv_def)
  have i: "blocked s i = None" "i < fresh s" "0 \<le> n"
    using w h unfolding budget_winv_def by blast+
  have sum: "sum (outst ?t) {..<fresh s} = sum (outst s) {..<fresh s} + - n"
    using h i by (intro sum_change_one [where i = i]) (auto simp: outst_def)
  have "0 \<le> sum (outst ?t) {..<fresh s}"
    using w by (intro sum_nonneg) (auto simp: outst_def budget_winv_def intro!: opt0_nonneg)
  then have rng: "i64 (used (bud s) - n) = used (bud s) - n"
    using sum w i by (intro i64_id) (auto simp: budget_winv_def)
  have wt: "budget_winv ?t"
    using w sum rng i unfolding budget_winv_def by auto
  show ?thesis
  proof (cases "n \<le> 0")
    case True
    with i have "n = 0" by simp
    with wt rng inv show ?thesis
      by (simp add: release_def budget_inv_def)
  next
    case False
    with notify_inv [OF wt] show ?thesis by (simp add: release_def bsys_comm)
  qed
qed

lemma inv_rel_part:
  assumes inv: "budget_inv s" and h: "holds s i = Some n" and k: "0 \<le> k" "k \<le> n"
  shows "budget_inv (s\<lparr>bud := release (bud s) k, holds := (holds s)(i \<mapsto> n - k)\<rparr>)"
proof -
  let ?t = "s\<lparr>bud := (bud s)\<lparr>used := i64 (used (bud s) - k)\<rparr>, holds := (holds s)(i \<mapsto> n - k)\<rparr>"
  have w: "budget_winv s" using inv by (simp add: budget_inv_def)
  have i: "blocked s i = None" "i < fresh s" using w h unfolding budget_winv_def by blast+
  have sum: "sum (outst ?t) {..<fresh s} = sum (outst s) {..<fresh s} + - k"
    using h i by (intro sum_change_one [where i = i]) (auto simp: outst_def)
  have "0 \<le> sum (outst ?t) {..<fresh s}"
    using w k by (intro sum_nonneg) (auto simp: outst_def budget_winv_def intro!: opt0_nonneg)
  then have rng: "i64 (used (bud s) - k) = used (bud s) - k"
    using sum w k by (intro i64_id) (auto simp: budget_winv_def)
  have wt: "budget_winv ?t"
    using w sum rng i k unfolding budget_winv_def by auto
  show ?thesis
  proof (cases "k = 0")
    case True
    with wt rng inv show ?thesis by (simp add: release_def budget_inv_def)
  next
    case False
    with k notify_inv [OF wt] show ?thesis by (simp add: release_def bsys_comm)
  qed
qed

lemma budget_step_inv: "budget_step s t \<Longrightarrow> budget_inv s \<Longrightarrow> budget_inv t"
proof (induction rule: budget_step.induct)
  case (try_fail n s b')
  then show ?case by (auto simp: tryAcquire_def split: if_splits)
next
  case (acq_err n s e b')
  then show ?case by (auto simp: acquire_def split: if_splits)
qed (blast intro: inv_try inv_acq inv_block inv_wake inv_cancel inv_rel_part inv_rel)+

definition budget_start :: "bsys \<Rightarrow> bool" where
  "budget_start s \<longleftrightarrow> (\<exists>limit. 0 \<le> limit \<and> limit < 2 ^ 62 \<and>
     s = \<lparr>bud = newByteBudget limit, holds = Map.empty, blocked = Map.empty, fresh = 0\<rparr>)"

interpretation budget_sys: inv_system budget_start budget_step budget_inv
proof unfold_locales
  fix s
  assume "budget_start s"
  then show "budget_inv s"
    by (auto simp: budget_start_def newByteBudget_def budget_inv_def budget_winv_def head_stuck_def)
qed (rule budget_step_inv)

section \<open>Properties\<close>

text \<open>C1: In every reachable state of the in-flight byte budget (any interleaving of try-acquires,
  acquires, cancellations, wake-ups and releases, in parts or whole, by callers that release what they acquired), the
  used bytes are exactly the sum of the outstanding grants, they lie between 0 and the limit, and
  so does the recorded peak.\<close>

theorem budget_never_exceeded:
  assumes "reach budget_start budget_step s"
  shows "used (bud s) = sum (outst s) {..<fresh s} \<and> 0 \<le> used (bud s)
       \<and> used (bud s) \<le> peak (bud s) \<and> peak (bud s) \<le> bmax (bud s)"
  using budget_sys.reach_inv [OF assms] used_nonneg [of s]
  by (simp add: budget_inv_def budget_winv_def)

text \<open>C2: No wake-up of the byte budget is lost: in every reachable state each blocked acquire is
  either granted already or still queued, the front of the queue does not fit in what is free, and
  therefore nobody stays queued once every grant has been returned.\<close>

theorem budget_no_lost_wakeup:
  assumes "reach budget_start budget_step s"
  shows "(\<forall>i. blocked s i \<noteq> None \<and> i \<notin> closed (bud s) \<longrightarrow> i \<in> wid ` set (waiters (bud s)))
       \<and> (waiters (bud s) \<noteq> [] \<longrightarrow> used (bud s) + wn (hd (waiters (bud s))) > bmax (bud s))
       \<and> (used (bud s) = 0 \<longrightarrow> waiters (bud s) = [])"
proof -
  have inv: "budget_winv s" "head_stuck (bud s)"
    using budget_sys.reach_inv [OF assms] by (simp_all add: budget_inv_def)
  have "waiters (bud s) = []" if "used (bud s) = 0"
  proof (rule ccontr)
    assume "waiters (bud s) \<noteq> []"
    then obtain w ws where q: "waiters (bud s) = w # ws" by (cases "waiters (bud s)") auto
    then have "wn w \<le> bmax (bud s)"
      using inv(1) by (auto simp: budget_winv_def)
    with q inv(2) that show False by (simp add: head_stuck_def)
  qed
  with inv show ?thesis by (auto simp: budget_winv_def head_stuck_def)
qed

text \<open>The budget's grant loop serves waiters first-in first-out: it closes the channels of a
  prefix of the queue, in order, leaves the rest queued in order, and stops exactly when the queue
  is empty or its front does not fit.\<close>

theorem budget_fifo:
  "\<exists>gs. waiters b = gs @ waiters (notifyLocked b)
      \<and> closed (notifyLocked b) = closed b \<union> wid ` set gs
      \<and> (waiters (notifyLocked b) = []
          \<or> bmax b < i64 (used (notifyLocked b) + wn (hd (waiters (notifyLocked b)))))"
proof -
  obtain gs where gs: "waiters b = gs @ waiters (notifyLocked b)" "notifyLocked b = fold give_budget gs b"
    using budget_loop.loop_prefix by blast
  have "closed (fold give_budget gs b') = closed b' \<union> wid ` set gs \<and> bmax (fold give_budget gs b') = bmax b'"
    for b' by (induction gs arbitrary: b') auto
  with gs show ?thesis
    using budget_loop.loop_stops [of b] by (metis linorder_not_less)
qed

section \<open>Witnesses\<close>

text \<open>A run of a 100-byte budget: call 0 takes 60 bytes, call 1 asks for 70 and blocks.\<close>

abbreviation bst :: "int \<Rightarrow> int \<Rightarrow> budgetWaiter list \<Rightarrow> (nat \<Rightarrow> int option) \<Rightarrow> (nat \<Rightarrow> int option) \<Rightarrow> nat \<Rightarrow> bsys" where
  "bst u p q h w n \<equiv> \<lparr>bud = \<lparr>bmax = 100, used = u, peak = p, waiters = q, closed = {}\<rparr>,
     holds = h, blocked = w, fresh = n\<rparr>"

lemma budget_run2_reach:
  "reach budget_start budget_step (bst 60 60 [\<lparr>wid = 1, wn = 70\<rparr>] [0 \<mapsto> 60] [1 \<mapsto> 70] 2)"
proof -
  have r0: "reach budget_start budget_step (bst 0 0 [] Map.empty Map.empty 0)"
    by (rule reach_start) (auto simp: budget_start_def newByteBudget_def intro: exI [of _ 100])
  have "budget_step (bst 0 0 [] Map.empty Map.empty 0) (bst 60 60 [] [0 \<mapsto> 60] Map.empty 1)"
    using acq_ok [of 60 "bst 0 0 [] Map.empty Map.empty 0" "bud (bst 60 60 [] [0 \<mapsto> 60] Map.empty 1)"]
    by (simp add: acquire_def grant_def)
  with r0 have r1: "reach budget_start budget_step (bst 60 60 [] [0 \<mapsto> 60] Map.empty 1)"
    by (rule reach_step)
  have "budget_step (bst 60 60 [] [0 \<mapsto> 60] Map.empty 1)
      (bst 60 60 [\<lparr>wid = 1, wn = 70\<rparr>] [0 \<mapsto> 60] [1 \<mapsto> 70] 2)"
    using acq_block [of 70 "bst 60 60 [] [0 \<mapsto> 60] Map.empty 1" 1
        "bud (bst 60 60 [\<lparr>wid = 1, wn = 70\<rparr>] [0 \<mapsto> 60] [1 \<mapsto> 70] 2)"]
    by (simp add: acquire_def eval_nat_numeral)
  with r1 show ?thesis by (rule reach_step)
qed

theorem budget_never_exceeded_witness:
  "(60::int) = sum (outst (bst 60 60 [\<lparr>wid = 1, wn = 70\<rparr>] [0 \<mapsto> 60] [1 \<mapsto> 70] 2)) {..<2}"
  using budget_never_exceeded [OF budget_run2_reach] by simp

theorem budget_no_lost_wakeup_witness:
  "waiters (bud (bst 60 60 [\<lparr>wid = 1, wn = 70\<rparr>] [0 \<mapsto> 60] [1 \<mapsto> 70] 2)) \<noteq> []
   \<and> (60::int) + 70 > 100"
  using budget_no_lost_wakeup [OF budget_run2_reach] by simp

end
