(* ===== verification/Slot_Sem.thy ===== *)
theory Slot_Sem
  imports Prelude
begin

text \<open>
  \<open>internal/media/slotsem.go\<close>: the FIFO counting semaphore of the transcoder, whose limit is read
  again on every call. Operations on the locked state, the callers as a step relation whose steps
  are the critical sections of \<open>acquire\<close> and \<open>release\<close> (a release that sees waiters takes the lock
  twice), and the accounting and wake-up invariants.
\<close>

section \<open>State and operations\<close>

record slotSem =
  held :: int
  squeue :: "nat list"   \<comment> \<open>waiters, oldest first, by identity\<close>
  granted :: "nat set"   \<comment> \<open>waiters with \<open>granted\<close> set and \<open>ready\<close> closed\<close>

definition slotSem0 :: slotSem where
  "slotSem0 = \<lparr>held = 0, squeue = [], granted = {}\<rparr>"

function grantLocked :: "slotSem \<Rightarrow> int \<Rightarrow> slotSem" where
  "grantLocked s limit =
     (if held s < limit then
        (case squeue s of
           [] \<Rightarrow> s
         | w # ws \<Rightarrow>
             grantLocked (s\<lparr>squeue := ws, granted := insert w (granted s), held := held s + 1\<rparr>) limit)
      else s)"
  by pat_completeness auto
termination
  by (relation "measure (\<lambda>(s, limit). length (squeue s))") auto

declare grantLocked.simps [simp del]

text \<open>\<open>acquire\<close> up to its return (True) or its select (False); \<open>w\<close> is the waiter it would create.\<close>

definition slotAcquire :: "slotSem \<Rightarrow> nat \<Rightarrow> int \<Rightarrow> bool \<times> slotSem" where
  "slotAcquire s w limit =
     (let s = grantLocked s limit
      in if held s < limit \<and> length (squeue s) = 0 then (True, s\<lparr>held := held s + 1\<rparr>)
         else (False, s\<lparr>squeue := squeue s @ [w]\<rparr>))"

text \<open>The \<open>ctx.Done()\<close> branch.\<close>

definition slotCancel :: "slotSem \<Rightarrow> nat \<Rightarrow> int \<Rightarrow> slotSem" where
  "slotCancel s w limit =
     (if w \<in> granted s then grantLocked (s\<lparr>held := held s - 1\<rparr>) limit
      else s\<lparr>squeue := filter (\<lambda>x. x \<noteq> w) (squeue s)\<rparr>)"

text \<open>The \<open>tick.C\<close> branch, and the second critical section of \<open>release\<close>.\<close>

definition slotRegrant :: "slotSem \<Rightarrow> int \<Rightarrow> slotSem" where
  "slotRegrant s limit = grantLocked s limit"

text \<open>The first critical section of \<open>release\<close>: the new state and whether waiters were queued.\<close>

definition slotRelease :: "slotSem \<Rightarrow> bool \<times> slotSem" where
  "slotRelease s =
     (let s = (if held s > 0 then s\<lparr>held := held s - 1\<rparr> else s)
      in (length (squeue s) > 0, s))"

section \<open>The grant loop\<close>

definition give_slot :: "nat \<Rightarrow> slotSem \<Rightarrow> slotSem" where
  "give_slot w s = s\<lparr>squeue := tl (squeue s), granted := insert w (granted s), held := held s + 1\<rparr>"

interpretation slot_loop: fifo_grant squeue "\<lambda>s w. held s < limit" give_slot "\<lambda>s. grantLocked s limit"
  for limit
proof unfold_locales
  fix s :: slotSem
  show "grantLocked s limit =
      (case squeue s of [] \<Rightarrow> s
       | w # ws \<Rightarrow> if held s < limit then grantLocked (give_slot w s) limit else s)"
    by (subst grantLocked.simps) (auto simp: give_slot_def split: list.splits)
qed (simp add: give_slot_def)

lemma give_slot_sel [simp]:
  "squeue (give_slot w s) = tl (squeue s)" "granted (give_slot w s) = insert w (granted s)"
  "held (give_slot w s) = held s + 1"
  by (simp_all add: give_slot_def)

lemma grantLocked_held: "held (grantLocked s limit) \<le> max (held s) limit"
  by (rule slot_loop.loop_inv [where P = "\<lambda>t. held t \<le> max (held s) limit"]) auto

lemma grantLocked_done:
  "squeue (grantLocked s limit) = [] \<or> limit \<le> held (grantLocked s limit)"
  using slot_loop.loop_stops [of s limit] by auto

section \<open>The callers as a state machine\<close>

record ssys =
  sem :: slotSem
  running :: "nat set"    \<comment> \<open>calls that returned nil and have not released\<close>
  waiting :: "nat set"    \<comment> \<open>calls in \<open>acquire\<close>'s select loop\<close>
  regrants :: nat          \<comment> \<open>releases between their two critical sections\<close>
  nextId :: nat

text \<open>\<open>limits\<close> is the set of values \<open>limitFn\<close> may return.\<close>

inductive slot_step :: "int set \<Rightarrow> ssys \<Rightarrow> ssys \<Rightarrow> bool" for limits where
  s_acquire: "l \<in> limits \<Longrightarrow> slotAcquire (sem s) (nextId s) l = (True, m) \<Longrightarrow>
     slot_step limits s (s\<lparr>sem := m, running := insert (nextId s) (running s), nextId := Suc (nextId s)\<rparr>)"
| s_block: "l \<in> limits \<Longrightarrow> slotAcquire (sem s) (nextId s) l = (False, m) \<Longrightarrow>
     slot_step limits s (s\<lparr>sem := m, waiting := insert (nextId s) (waiting s), nextId := Suc (nextId s)\<rparr>)"
| s_wake: "w \<in> waiting s \<Longrightarrow> w \<in> granted (sem s) \<Longrightarrow>
     slot_step limits s (s\<lparr>running := insert w (running s), waiting := waiting s - {w}\<rparr>)"
| s_cancel: "l \<in> limits \<Longrightarrow> w \<in> waiting s \<Longrightarrow>
     slot_step limits s (s\<lparr>sem := slotCancel (sem s) w l, waiting := waiting s - {w}\<rparr>)"
| s_tick: "l \<in> limits \<Longrightarrow> w \<in> waiting s \<Longrightarrow>
     slot_step limits s (s\<lparr>sem := slotRegrant (sem s) l\<rparr>)"
| s_release: "w \<in> running s \<Longrightarrow> slotRelease (sem s) = (q, m) \<Longrightarrow>
     slot_step limits s (s\<lparr>sem := m, running := running s - {w},
       regrants := (if q then Suc (regrants s) else regrants s)\<rparr>)"
| s_release2: "l \<in> limits \<Longrightarrow> regrants s > 0 \<Longrightarrow>
     slot_step limits s (s\<lparr>sem := slotRegrant (sem s) l, regrants := regrants s - 1\<rparr>)"

definition slot_start :: "ssys \<Rightarrow> bool" where
  "slot_start s \<longleftrightarrow> s = \<lparr>sem = slotSem0, running = {}, waiting = {}, regrants = 0, nextId = 0\<rparr>"

definition slot_inv :: "ssys \<Rightarrow> bool" where
  "slot_inv s \<longleftrightarrow>
     (\<forall>i \<in> running s \<union> waiting s \<union> granted (sem s). i < nextId s) \<and>
     running s \<inter> waiting s = {} \<and>
     distinct (squeue (sem s)) \<and> set (squeue (sem s)) = waiting s - granted (sem s) \<and>
     held (sem s) = int (card (running s \<union> waiting s \<inter> granted (sem s)))"

lemma slot_fin: "slot_inv s \<Longrightarrow> finite (running s \<union> waiting s \<inter> granted (sem s))"
  by (rule finite_subset [of _ "{..<nextId s}"]) (auto simp: slot_inv_def)

lemma inv_give_slot:
  assumes inv: "slot_inv s" and q: "squeue (sem s) = w # ws"
  shows "slot_inv (s\<lparr>sem := give_slot w (sem s)\<rparr>)"
proof -
  have w: "w \<in> waiting s" "w \<notin> granted (sem s)" "w \<notin> running s"
    using inv q by (auto simp: slot_inv_def)
  have "running s \<union> waiting s \<inter> insert w (granted (sem s)) =
      insert w (running s \<union> waiting s \<inter> granted (sem s))"
    using w by auto
  then have "int (card (running s \<union> waiting s \<inter> insert w (granted (sem s)))) =
      held (sem s) + 1"
    using w slot_fin [OF inv] inv by (simp add: slot_inv_def)
  then show ?thesis
    using inv q w unfolding slot_inv_def by auto
qed

lemma inv_grantLocked:
  assumes "slot_inv s"
  shows "slot_inv (s\<lparr>sem := grantLocked (sem s) l\<rparr>)"
proof -
  have "slot_inv (s\<lparr>sem := sem s\<rparr>)" using assms by simp
  then show ?thesis
    by (rule slot_loop.loop_inv) (use inv_give_slot in fastforce)
qed

lemma inv_slot_acquire:
  assumes "slot_inv s" and "slotAcquire (sem s) (nextId s) l = (True, m)"
  shows "slot_inv (s\<lparr>sem := m, running := insert (nextId s) (running s), nextId := Suc (nextId s)\<rparr>)"
proof -
  let ?t = "s\<lparr>sem := grantLocked (sem s) l\<rparr>"
  have inv: "slot_inv ?t" using assms(1) by (rule inv_grantLocked)
  have new: "nextId s \<notin> running s \<union> waiting s \<union> granted (grantLocked (sem s) l)"
    using inv by (auto simp: slot_inv_def)
  have "card (insert (nextId s) (running s \<union> waiting s \<inter> granted (grantLocked (sem s) l))) =
      Suc (card (running s \<union> waiting s \<inter> granted (grantLocked (sem s) l)))"
    using new slot_fin [OF inv] by simp
  then show ?thesis
    using assms(2) inv new
    unfolding slot_inv_def slotAcquire_def Let_def by (auto split: if_splits simp: less_SucI)
qed

lemma inv_slot_block:
  assumes "slot_inv s" and "slotAcquire (sem s) (nextId s) l = (False, m)"
  shows "slot_inv (s\<lparr>sem := m, waiting := insert (nextId s) (waiting s), nextId := Suc (nextId s)\<rparr>)"
proof -
  let ?g = "grantLocked (sem s) l"
  have inv: "slot_inv (s\<lparr>sem := ?g\<rparr>)" using assms(1) by (rule inv_grantLocked)
  have new: "nextId s \<notin> running s" "nextId s \<notin> waiting s" "nextId s \<notin> granted ?g"
    using inv by (auto simp: slot_inv_def)
  then have eq: "running s \<union> insert (nextId s) (waiting s) \<inter> granted ?g =
      running s \<union> waiting s \<inter> granted ?g"
    by auto
  have m: "m = ?g\<lparr>squeue := squeue ?g @ [nextId s]\<rparr>"
    using assms(2) by (auto simp: slotAcquire_def Let_def split: if_splits)
  show ?thesis
    using inv new unfolding slot_inv_def m by (auto simp: eq less_SucI)
qed

lemma inv_slot_wake:
  assumes "slot_inv s" "w \<in> waiting s" "w \<in> granted (sem s)"
  shows "slot_inv (s\<lparr>running := insert w (running s), waiting := waiting s - {w}\<rparr>)"
proof -
  have "insert w (running s) \<union> (waiting s - {w}) \<inter> granted (sem s) =
      running s \<union> waiting s \<inter> granted (sem s)"
    using assms by auto
  then show ?thesis
    using assms unfolding slot_inv_def by auto
qed

lemma ssys_comm:
  "s\<lparr>waiting := x, sem := m\<rparr> = s\<lparr>sem := m, waiting := x\<rparr>"
  "s\<lparr>regrants := k, sem := m\<rparr> = s\<lparr>sem := m, regrants := k\<rparr>"
  by simp_all

lemma inv_slot_cancel:
  assumes inv: "slot_inv s" and w: "w \<in> waiting s"
  shows "slot_inv (s\<lparr>sem := slotCancel (sem s) w l, waiting := waiting s - {w}\<rparr>)"
proof (cases "w \<in> granted (sem s)")
  case True
  let ?t = "s\<lparr>sem := (sem s)\<lparr>held := held (sem s) - 1\<rparr>, waiting := waiting s - {w}\<rparr>"
  have nr: "w \<notin> running s" using inv w by (auto simp: slot_inv_def)
  have "running s \<union> waiting s \<inter> granted (sem s) =
      insert w (running s \<union> (waiting s - {w}) \<inter> granted (sem s))"
    using True w by auto
  then have "card (running s \<union> waiting s \<inter> granted (sem s)) =
      Suc (card (running s \<union> (waiting s - {w}) \<inter> granted (sem s)))"
    using slot_fin [OF inv] nr by simp
  then have "slot_inv ?t"
    using inv w True unfolding slot_inv_def by auto
  from inv_grantLocked [OF this, of l] show ?thesis
    using True by (simp add: slotCancel_def ssys_comm)
next
  case False
  then have "running s \<union> (waiting s - {w}) \<inter> granted (sem s) =
      running s \<union> waiting s \<inter> granted (sem s)"
    by auto
  then show ?thesis
    using inv w False unfolding slot_inv_def slotCancel_def by auto
qed

lemma inv_slot_release:
  assumes inv: "slot_inv s" and w: "w \<in> running s" and r: "slotRelease (sem s) = (q, m)"
  shows "slot_inv (s\<lparr>sem := m, running := running s - {w}, regrants := k\<rparr>)"
proof -
  have nw: "w \<notin> waiting s" using inv w by (auto simp: slot_inv_def)
  have "running s \<union> waiting s \<inter> granted (sem s) =
      insert w (running s - {w} \<union> waiting s \<inter> granted (sem s))"
    using w by auto
  then have c: "card (running s \<union> waiting s \<inter> granted (sem s)) =
      Suc (card (running s - {w} \<union> waiting s \<inter> granted (sem s)))"
    using slot_fin [OF inv] nw by simp
  then have "m = (sem s)\<lparr>held := held (sem s) - 1\<rparr>"
    using r inv by (auto simp: slotRelease_def slot_inv_def Let_def split: if_splits)
  then show ?thesis
    using inv w c unfolding slot_inv_def by auto
qed

lemma slot_step_inv: "slot_step limits s t \<Longrightarrow> slot_inv s \<Longrightarrow> slot_inv t"
proof (induction rule: slot_step.induct)
  case (s_release2 l s)
  from inv_grantLocked [OF this(3), of l] show ?case
    by (simp add: slot_inv_def slotRegrant_def)
qed (simp_all add: inv_slot_acquire inv_slot_block inv_slot_wake inv_slot_cancel
      inv_slot_release inv_grantLocked slotRegrant_def)

interpretation slot_sys: inv_system slot_start "slot_step limits" slot_inv for limits
proof unfold_locales
  fix s
  assume "slot_start s"
  then show "slot_inv s" by (simp add: slot_start_def slot_inv_def slotSem0_def)
qed (rule slot_step_inv)

section \<open>Bounded limits\<close>

lemma held_step:
  assumes "slot_step limits s t" and "\<forall>l \<in> limits. l \<le> M" and "held (sem s) \<le> M"
  shows "held (sem t) \<le> M"
  using assms
proof (induction rule: slot_step.induct)
  case (s_acquire l s m)
  with grantLocked_held [of "sem s" l] show ?case
    by (auto simp: slotAcquire_def Let_def split: if_splits)
next
  case (s_block l s m)
  with grantLocked_held [of "sem s" l] show ?case
    by (force simp: slotAcquire_def Let_def split: if_splits)
next
  case (s_cancel l w s)
  with grantLocked_held [of "(sem s)\<lparr>held := held (sem s) - 1\<rparr>" l] show ?case
    by (force simp: slotCancel_def)
next
  case (s_tick l w s)
  with grantLocked_held [of "sem s" l] show ?case by (force simp: slotRegrant_def)
next
  case (s_release w s q m)
  then show ?case by (auto simp: slotRelease_def Let_def split: if_splits)
next
  case (s_release2 l s)
  with grantLocked_held [of "sem s" l] show ?case by (force simp: slotRegrant_def)
qed simp

text \<open>With a constant limit, a queued waiter is only ever left behind while every slot is busy or
  a releasing call is on its way to its second critical section.\<close>

definition slot_busy :: "int \<Rightarrow> ssys \<Rightarrow> bool" where
  "slot_busy L s \<longleftrightarrow> squeue (sem s) = [] \<or> L \<le> held (sem s) \<or> regrants s > 0"

lemma busy_step: "slot_step {L} s t \<Longrightarrow> slot_busy L s \<Longrightarrow> slot_busy L t"
proof (induction rule: slot_step.induct)
  case (s_acquire l s m)
  then show ?case
    by (auto simp: slotAcquire_def slot_busy_def Let_def split: if_splits)
next
  case (s_block l s m)
  with grantLocked_done [of "sem s" L] show ?case
    by (auto simp: slotAcquire_def slot_busy_def Let_def split: if_splits)
next
  case (s_cancel l w s)
  with grantLocked_done [of "(sem s)\<lparr>held := held (sem s) - 1\<rparr>" L] show ?case
    by (auto simp: slotCancel_def slot_busy_def)
next
  case (s_tick l w s)
  with grantLocked_done [of "sem s" L] show ?case by (auto simp: slotRegrant_def slot_busy_def)
next
  case (s_release w s q m)
  then show ?case by (auto simp: slotRelease_def slot_busy_def Let_def split: if_splits)
next
  case (s_release2 l s)
  with grantLocked_done [of "sem s" L] show ?case by (auto simp: slotRegrant_def slot_busy_def)
qed (simp add: slot_busy_def)

interpretation slot_busy_sys: inv_system slot_start "slot_step {L}" "slot_busy L" for L
proof unfold_locales
  fix s
  assume "slot_start s"
  then show "slot_busy L s" by (simp add: slot_start_def slot_busy_def slotSem0_def)
qed (rule busy_step)

interpretation slot_bound_sys: inv_system slot_start "slot_step {l. l \<le> M}" "\<lambda>s. held (sem s) \<le> max M 0" for M
proof unfold_locales
  fix s t
  assume "held (sem s) \<le> max M 0" "slot_step {l. l \<le> M} s t"
  then show "held (sem t) \<le> max M 0" using held_step [of "{l. l \<le> M}" s t "max M 0"] by (simp add: le_max_iff_disj)
qed (simp add: slot_start_def slotSem0_def)

section \<open>Properties\<close>

text \<open>In every reachable state of the slot semaphore, whatever limits up to \<open>M\<close> the calls read,
  the counter \<open>held\<close> equals the number of slots actually owned (calls that returned nil plus
  waiters already granted), it never exceeds \<open>M\<close>, and the queue holds exactly the waiting calls
  that have not been granted, each once.\<close>

theorem slot_accounting:
  assumes "reach slot_start (slot_step {l. l \<le> M}) s" and "0 \<le> M"
  shows "held (sem s) = int (card (running s \<union> waiting s \<inter> granted (sem s)))
       \<and> held (sem s) \<le> M
       \<and> distinct (squeue (sem s)) \<and> set (squeue (sem s)) = waiting s - granted (sem s)"
  using slot_sys.reach_inv [OF assms(1)] slot_bound_sys.reach_inv [OF assms(1)] assms(2)
  by (simp add: slot_inv_def)

text \<open>C3: With a constant limit, no wake-up is lost: a call that waits without having been granted
  a slot implies that all slots are in use or that a release is about to hand one over; so once
  all releases have finished and a slot is free, nobody waits ungranted.\<close>

theorem slot_no_stranded_waiter:
  assumes "reach slot_start (slot_step {L}) s" and "regrants s = 0" and "held (sem s) < L"
  shows "waiting s \<subseteq> granted (sem s)"
proof -
  have "squeue (sem s) = []"
    using slot_busy_sys.reach_inv [OF assms(1)] assms(2,3) by (auto simp: slot_busy_def)
  with slot_sys.reach_inv [OF assms(1)] show ?thesis by (auto simp: slot_inv_def)
qed

section \<open>Witnesses\<close>

text \<open>A run with limit 2: calls 0 and 1 take the slots, call 2 queues, call 0 releases and hands
  its slot to call 2, call 1 releases.\<close>

abbreviation sst :: "int \<Rightarrow> nat list \<Rightarrow> nat set \<Rightarrow> nat set \<Rightarrow> nat set \<Rightarrow> nat \<Rightarrow> nat \<Rightarrow> ssys" where
  "sst h q g r w k n \<equiv> \<lparr>sem = \<lparr>held = h, squeue = q, granted = g\<rparr>, running = r, waiting = w,
     regrants = k, nextId = n\<rparr>"

lemma slot_run3_reach:
  assumes "2 \<in> limits"
  shows "reach slot_start (slot_step limits) (sst 2 [2] {} {0, 1} {2} 0 3)"
proof -
  have r0: "reach slot_start (slot_step limits) (sst 0 [] {} {} {} 0 0)"
    by (rule reach_start) (simp add: slot_start_def slotSem0_def)
  have "slot_step limits (sst 0 [] {} {} {} 0 0) (sst 1 [] {} {0} {} 0 1)"
    using s_acquire [OF assms, of "sst 0 [] {} {} {} 0 0" "\<lparr>held = 1, squeue = [], granted = {}\<rparr>"]
    by (simp add: slotAcquire_def grantLocked.simps)
  with r0 have r1: "reach slot_start (slot_step limits) (sst 1 [] {} {0} {} 0 1)"
    by (rule reach_step)
  have "slot_step limits (sst 1 [] {} {0} {} 0 1) (sst 2 [] {} {0, 1} {} 0 2)"
    using s_acquire [OF assms, of "sst 1 [] {} {0} {} 0 1" "\<lparr>held = 2, squeue = [], granted = {}\<rparr>"]
    by (simp add: slotAcquire_def grantLocked.simps eval_nat_numeral insert_commute)
  with r1 have r2: "reach slot_start (slot_step limits) (sst 2 [] {} {0, 1} {} 0 2)"
    by (rule reach_step)
  have "slot_step limits (sst 2 [] {} {0, 1} {} 0 2) (sst 2 [2] {} {0, 1} {2} 0 3)"
    using s_block [OF assms, of "sst 2 [] {} {0, 1} {} 0 2" "\<lparr>held = 2, squeue = [2], granted = {}\<rparr>"]
    by (simp add: slotAcquire_def grantLocked.simps eval_nat_numeral)
  with r2 show ?thesis by (rule reach_step)
qed

lemma slot_run6_reach:
  assumes "2 \<in> limits"
  shows "reach slot_start (slot_step limits) (sst 1 [] {2} {} {2} 0 3)"
proof -
  have "slot_step limits (sst 2 [2] {} {0, 1} {2} 0 3) (sst 1 [2] {} {1} {2} 1 3)"
    using s_release [of 0 "sst 2 [2] {} {0, 1} {2} 0 3" True "\<lparr>held = 1, squeue = [2], granted = {}\<rparr>" limits]
    by (simp add: slotRelease_def)
  with slot_run3_reach [OF assms] have r4: "reach slot_start (slot_step limits) (sst 1 [2] {} {1} {2} 1 3)"
    by (rule reach_step)
  have "slot_step limits (sst 1 [2] {} {1} {2} 1 3) (sst 2 [] {2} {1} {2} 0 3)"
    using s_release2 [OF assms, of "sst 1 [2] {} {1} {2} 1 3"]
    by (simp add: slotRegrant_def grantLocked.simps)
  with r4 have r5: "reach slot_start (slot_step limits) (sst 2 [] {2} {1} {2} 0 3)"
    by (rule reach_step)
  have "slot_step limits (sst 2 [] {2} {1} {2} 0 3) (sst 1 [] {2} {} {2} 0 3)"
    using s_release [of 1 "sst 2 [] {2} {1} {2} 0 3" False "\<lparr>held = 1, squeue = [], granted = {2}\<rparr>" limits]
    by (simp add: slotRelease_def)
  with r5 show ?thesis by (rule reach_step)
qed

theorem slot_accounting_witness:
  "held (sem (sst 2 [2] {} {0, 1} {2} 0 3)) = int (card ({0, 1::nat} \<union> {2} \<inter> {}))
   \<and> held (sem (sst 2 [2] {} {0, 1} {2} 0 3)) \<le> 2"
  using slot_accounting [OF slot_run3_reach, of 2] by simp

theorem slot_no_stranded_waiter_witness:
  "waiting (sst 1 [] {2} {} {2} 0 3) \<subseteq> granted (sem (sst 1 [] {2} {} {2} 0 3))"
  by (rule slot_no_stranded_waiter [OF slot_run6_reach, of 2]) simp_all

end
