(* ===== verification/Go_Heap.thy ===== *)
theory Go_Heap
  imports Prelude "HOL-Library.Multiset"
begin

text \<open>
  Go's \<open>container/heap\<close>: the sifting loops \<open>up\<close> and \<open>down\<close> and the operations \<open>Push\<close>, \<open>Pop\<close>,
  \<open>Remove\<close> and \<open>Fix\<close>, as functions of the methods of \<open>heap.Interface\<close> (\<open>Less\<close>, \<open>Swap\<close> and the
  container's own \<open>Push\<close>/\<open>Pop\<close>). The locale \<open>heap_interface\<close> states what those methods promise; the
  heap laws are proved once inside it. \<open>internal/engine/memstorage.go\<close> is the client.
\<close>

section \<open>The algorithms\<close>

function heap_up :: "('s \<Rightarrow> nat \<Rightarrow> nat \<Rightarrow> bool) \<Rightarrow> ('s \<Rightarrow> nat \<Rightarrow> nat \<Rightarrow> 's) \<Rightarrow> 's \<Rightarrow> nat \<Rightarrow> 's" where
  "heap_up lss swap h j =
     (let i = (j - 1) div 2
      in if i = j \<or> \<not> lss h j i then h else heap_up lss swap (swap h i j) i)"
  by pat_completeness auto
termination
  by (relation "measure (\<lambda>(lss, swap, h, j). j)") (auto simp: div_less_dividend)

function heap_down :: "('s \<Rightarrow> nat \<Rightarrow> nat \<Rightarrow> bool) \<Rightarrow> ('s \<Rightarrow> nat \<Rightarrow> nat \<Rightarrow> 's) \<Rightarrow> 's \<Rightarrow> nat \<Rightarrow> nat \<Rightarrow> 's \<times> nat" where
  "heap_down lss swap h i n =
     (let j1 = 2 * i + 1
      in if j1 \<ge> n then (h, i)
         else let j = (if j1 + 1 < n \<and> lss h (j1 + 1) j1 then j1 + 1 else j1)
              in if \<not> lss h j i then (h, i) else heap_down lss swap (swap h i j) j n)"
  by pat_completeness auto
termination
  by (relation "measure (\<lambda>(lss, swap, h, i, n). n - i)") (auto simp: Let_def)

declare heap_up.simps [simp del] heap_down.simps [simp del]

definition heap_push where
  "heap_push len lss swap push h x = (let h = push h x in heap_up lss swap h (len h - 1))"

definition heap_pop where
  "heap_pop len lss swap pop h =
     (let n = len h - 1; h = swap h 0 n in pop (fst (heap_down lss swap h 0 n)))"

definition heap_fix where
  "heap_fix len lss swap h i =
     (let (h', i') = heap_down lss swap h i (len h)
      in if i' > i then h' else heap_up lss swap h' i)"

definition heap_remove where
  "heap_remove len lss swap pop h i =
     (let n = len h - 1
      in pop (if n \<noteq> i then
                (let h = swap h i n; (h', i') = heap_down lss swap h i n
                 in if i' > i then h' else heap_up lss swap h' i)
              else h))"

section \<open>Heap order on an array of keys\<close>

definition swapl :: "'a list \<Rightarrow> nat \<Rightarrow> nat \<Rightarrow> 'a list" where
  "swapl xs i j = xs[i := xs ! j, j := xs ! i]"

lemma length_swapl [simp]: "length (swapl xs i j) = length xs"
  by (simp add: swapl_def)

lemma nth_swapl: "i < length xs \<Longrightarrow> j < length xs \<Longrightarrow> k < length xs \<Longrightarrow>
    swapl xs i j ! k = (if k = i then xs ! j else if k = j then xs ! i else xs ! k)"
  by (auto simp: swapl_def nth_list_update)

lemma mset_swapl: "i < length xs \<Longrightarrow> j < length xs \<Longrightarrow> mset (swapl xs i j) = mset xs"
  by (simp add: swapl_def mset_swap)

lemma map_swapl: "i < length xs \<Longrightarrow> j < length xs \<Longrightarrow> map f (swapl xs i j) = swapl (map f xs) i j"
  by (simp add: swapl_def map_update)

definition parent :: "nat \<Rightarrow> nat" where
  "parent j = (j - 1) div 2"

lemma parent_less [simp]: "0 < j \<Longrightarrow> parent j < j"
  by (simp add: parent_def div_less_dividend)

lemma parent_0 [simp]: "parent 0 = 0"
  by (simp add: parent_def)

lemma parent_less_n [simp]: "j < n \<Longrightarrow> parent j < n"
  by (simp add: parent_def)

lemma parent_eq_iff: "0 < c \<Longrightarrow> parent c = i \<longleftrightarrow> c = 2 * i + 1 \<or> c = 2 * i + 2"
  unfolding parent_def by presburger

text \<open>\<open>heapn vs n\<close>: the first \<open>n\<close> keys are in heap order. \<open>heap_ex vs i n\<close>: the same except for the
  edges at \<open>i\<close>, where only the grandparent bound is kept; \<open>heap_ex_up\<close> excepts only the edge from
  \<open>i\<close> to its parent.\<close>

definition heapn :: "int list \<Rightarrow> nat \<Rightarrow> bool" where
  "heapn vs n \<longleftrightarrow> (\<forall>c < n. 0 < c \<longrightarrow> vs ! parent c \<le> vs ! c)"

definition heap_ex :: "int list \<Rightarrow> nat \<Rightarrow> nat \<Rightarrow> bool" where
  "heap_ex vs i n \<longleftrightarrow>
     (\<forall>c < n. 0 < c \<longrightarrow> c \<noteq> i \<longrightarrow> parent c \<noteq> i \<longrightarrow> vs ! parent c \<le> vs ! c) \<and>
     (\<forall>c < n. 0 < c \<longrightarrow> parent c = i \<longrightarrow> 0 < i \<longrightarrow> vs ! parent i \<le> vs ! c)"

definition heap_ex_up :: "int list \<Rightarrow> nat \<Rightarrow> nat \<Rightarrow> bool" where
  "heap_ex_up vs i n \<longleftrightarrow>
     (\<forall>c < n. 0 < c \<longrightarrow> c \<noteq> i \<longrightarrow> vs ! parent c \<le> vs ! c) \<and>
     (\<forall>c < n. 0 < c \<longrightarrow> parent c = i \<longrightarrow> 0 < i \<longrightarrow> vs ! parent i \<le> vs ! c)"

lemma heapn_root_min:
  assumes "heapn vs n" "c < n"
  shows "vs ! 0 \<le> vs ! c"
  using assms(2)
proof (induction c rule: less_induct)
  case (less c)
  show ?case
  proof (cases "c = 0")
    case False
    then have p: "parent c < c" by simp
    with less have "vs ! 0 \<le> vs ! parent c" by simp
    also have "\<dots> \<le> vs ! c" using assms(1) less.prems False by (simp add: heapn_def)
    finally show ?thesis .
  qed simp
qed

lemma heapn_ex: "heapn vs n \<Longrightarrow> n \<le> length vs \<Longrightarrow> i < n \<Longrightarrow> heap_ex (vs[i := v]) i n"
  unfolding heap_ex_def heapn_def
proof (intro conjI allI impI)
  fix c
  assume h: "\<forall>c<n. 0 < c \<longrightarrow> vs ! parent c \<le> vs ! c" and n: "n \<le> length vs" and i: "i < n"
    and c: "c < n" "0 < c"
  { assume "c \<noteq> i" "parent c \<noteq> i"
    then show "vs[i := v] ! parent c \<le> vs[i := v] ! c"
      using h c by (simp add: nth_list_update_neq)
  next
    assume p: "parent c = i" "0 < i"
    then have "i < c" "parent i < i" using c parent_less [of c] by auto
    moreover have "vs ! parent i \<le> vs ! i" "vs ! i \<le> vs ! c"
      using h c p i by auto
    ultimately show "vs[i := v] ! parent i \<le> vs[i := v] ! c"
      by (simp add: nth_list_update_neq) }
qed

lemma heap_ex_cong:
  assumes "heap_ex vs i n" "i < n" "\<And>k. k < n \<Longrightarrow> ws ! k = vs ! k"
  shows "heap_ex ws i n"
  using assms(1) unfolding heap_ex_def
  by (simp add: assms(2,3))

lemma mset_butlast_last: "xs \<noteq> [] \<Longrightarrow> add_mset (last xs) (mset (butlast xs)) = mset xs"
  by (induction xs rule: rev_induct) auto

lemma heapn_mono: "heapn vs n \<Longrightarrow> m \<le> n \<Longrightarrow> heapn vs m"
  by (auto simp: heapn_def)

lemma heapn_snoc_ex_up:
  assumes "heapn vs n" "n = length vs"
  shows "heap_ex_up (vs @ [v]) n (Suc n)"
proof -
  have "parent c \<noteq> n" if "c < Suc n" "0 < c" for c
    using that parent_less [of c] by linarith
  with assms show ?thesis
    unfolding heap_ex_up_def heapn_def by (auto simp: nth_append less_Suc_eq)
qed

lemma heap_ex_noswap:
  assumes "heap_ex vs i n" "\<forall>c < n. 0 < c \<longrightarrow> parent c = i \<longrightarrow> vs ! i \<le> vs ! c"
  shows "heap_ex_up vs i n"
  using assms unfolding heap_ex_def heap_ex_up_def by blast

text \<open>One step of \<open>up\<close>.\<close>

lemma ex_up_stop: "heap_ex_up vs j n \<Longrightarrow> j = 0 \<or> vs ! parent j \<le> vs ! j \<Longrightarrow> heapn vs n"
  unfolding heap_ex_up_def heapn_def by auto

lemma ex_up_step:
  assumes ex: "heap_ex_up vs j n" and j: "0 < j" "j < n" "n \<le> length vs" and lt: "vs ! j < vs ! parent j"
  shows "heap_ex_up (swapl vs (parent j) j) (parent j) n"
  unfolding heap_ex_up_def
proof (intro conjI allI impI)
  let ?i = "parent j"
  have i: "?i < j" using j by simp
  have e1: "\<And>c. c < n \<Longrightarrow> 0 < c \<Longrightarrow> c \<noteq> j \<Longrightarrow> vs ! parent c \<le> vs ! c"
    and e2: "\<And>c. c < n \<Longrightarrow> 0 < c \<Longrightarrow> parent c = j \<Longrightarrow> vs ! ?i \<le> vs ! c"
    using ex j by (auto simp: heap_ex_up_def)
  have nth: "\<And>k. k < n \<Longrightarrow> swapl vs ?i j ! k = (if k = ?i then vs ! j else if k = j then vs ! ?i else vs ! k)"
    using i j by (intro nth_swapl) auto
  { fix c
    assume c: "c < n" "0 < c" "c \<noteq> ?i"
    then have "parent c < n" by auto
    with c show "swapl vs ?i j ! parent c \<le> swapl vs ?i j ! c"
      using e1 [of c] e2 [of c] lt by (auto simp: nth) }
  { fix c
    assume c: "c < n" "0 < c" "parent c = ?i" "0 < ?i"
    then have p: "parent ?i < ?i" "c \<noteq> ?i" using parent_less [of c] by auto
    have "vs ! parent ?i \<le> vs ! ?i" using e1 [of ?i] c i j by auto
    moreover have "vs ! ?i \<le> vs ! c" if "c \<noteq> j" using e1 [of c] c that by simp
    ultimately show "swapl vs ?i j ! parent ?i \<le> swapl vs ?i j ! c"
      using c p i j by (auto simp: nth) }
qed

text \<open>One step of \<open>down\<close>.\<close>

lemma ex_down_step:
  assumes ex: "heap_ex vs i n" and n: "n \<le> length vs" and j: "j < n" "0 < j" "parent j = i"
    and minj: "\<forall>c < n. 0 < c \<longrightarrow> parent c = i \<longrightarrow> vs ! j \<le> vs ! c" and lt: "vs ! j < vs ! i"
  shows "heap_ex (swapl vs i j) j n \<and> swapl vs i j ! i \<le> swapl vs i j ! j"
proof -
  have i: "i < j" using j parent_less [of j] by simp
  have e1: "\<And>c. c < n \<Longrightarrow> 0 < c \<Longrightarrow> c \<noteq> i \<Longrightarrow> parent c \<noteq> i \<Longrightarrow> vs ! parent c \<le> vs ! c"
    and e2: "\<And>c. c < n \<Longrightarrow> 0 < c \<Longrightarrow> parent c = i \<Longrightarrow> 0 < i \<Longrightarrow> vs ! parent i \<le> vs ! c"
    using ex by (auto simp: heap_ex_def)
  have nth: "\<And>k. k < n \<Longrightarrow> swapl vs i j ! k = (if k = i then vs ! j else if k = j then vs ! i else vs ! k)"
    using i j n by (intro nth_swapl) auto
  have "heap_ex (swapl vs i j) j n"
    unfolding heap_ex_def
  proof (intro conjI allI impI)
    fix c
    assume c: "c < n" "0 < c"
    then have pc: "parent c < n" by auto
    { assume "c \<noteq> j" "parent c \<noteq> j"
      then show "swapl vs i j ! parent c \<le> swapl vs i j ! c"
        using c pc e1 [of c] e2 [OF j(1,2,3)] minj by (auto simp: nth)
    next
      assume p: "parent c = j" "0 < j"
      then have "j < c" using c parent_less [of c] by simp
      with p show "swapl vs i j ! parent j \<le> swapl vs i j ! c"
        using c e1 [of c] i j by (auto simp: nth) }
  qed
  moreover have "swapl vs i j ! i \<le> swapl vs i j ! j"
    using i j lt by (simp add: nth)
  ultimately show ?thesis ..
qed

section \<open>The contract of heap.Interface\<close>

locale heap_interface =
  fixes elems :: "'s \<Rightarrow> 'a list"
    and hkey :: "'s \<Rightarrow> 'a \<Rightarrow> int"
    and rest :: "'s \<Rightarrow> 'r"
    and ok :: "'s \<Rightarrow> bool"
    and len :: "'s \<Rightarrow> nat"
    and lss :: "'s \<Rightarrow> nat \<Rightarrow> nat \<Rightarrow> bool"
    and swap :: "'s \<Rightarrow> nat \<Rightarrow> nat \<Rightarrow> 's"
    and push :: "'s \<Rightarrow> 'a \<Rightarrow> 's"
    and pop :: "'s \<Rightarrow> 'a \<times> 's"
  assumes len_elems: "len h = length (elems h)"
    and lss_key: "i < length (elems h) \<Longrightarrow> j < length (elems h) \<Longrightarrow>
      lss h i j \<longleftrightarrow> hkey h (elems h ! i) < hkey h (elems h ! j)"
    and swap_elems: "i < length (elems h) \<Longrightarrow> j < length (elems h) \<Longrightarrow>
      elems (swap h i j) = swapl (elems h) i j"
    and swap_frame: "hkey (swap h i j) = hkey h" "rest (swap h i j) = rest h"
    and swap_ok: "ok h \<Longrightarrow> i < length (elems h) \<Longrightarrow> j < length (elems h) \<Longrightarrow> ok (swap h i j)"
    and push_elems: "elems (push h x) = elems h @ [x]"
    and push_frame: "hkey (push h x) = hkey h" "rest (push h x) = rest h"
    and push_ok: "ok h \<Longrightarrow> x \<notin> set (elems h) \<Longrightarrow> ok (push h x)"
    and pop_elems: "elems h \<noteq> [] \<Longrightarrow> fst (pop h) = last (elems h)"
      "elems h \<noteq> [] \<Longrightarrow> elems (snd (pop h)) = butlast (elems h)"
    and pop_frame: "elems h \<noteq> [] \<Longrightarrow> hkey (snd (pop h)) = hkey h"
      "elems h \<noteq> [] \<Longrightarrow> rest (snd (pop h)) = rest h"
    and pop_ok: "ok h \<Longrightarrow> elems h \<noteq> [] \<Longrightarrow> ok (snd (pop h))"
begin

definition vals :: "'s \<Rightarrow> int list" where
  "vals h = map (hkey h) (elems h)"

text \<open>A sift rearranges the first \<open>n\<close> elements and changes nothing else.\<close>

definition sifted :: "nat \<Rightarrow> 's \<Rightarrow> 's \<Rightarrow> bool" where
  "sifted n h h' \<longleftrightarrow> mset (elems h') = mset (elems h) \<and> hkey h' = hkey h \<and> rest h' = rest h \<and>
     (ok h \<longrightarrow> ok h') \<and> (\<forall>k. n \<le> k \<longrightarrow> k < length (elems h) \<longrightarrow> elems h' ! k = elems h ! k)"

lemma sifted_refl [simp]: "sifted n h h"
  by (simp add: sifted_def)

lemma sifted_trans: "sifted n h h' \<Longrightarrow> sifted n h' h'' \<Longrightarrow> sifted n h h''"
  unfolding sifted_def by (metis mset_eq_length)

lemma sifted_length: "sifted n h h' \<Longrightarrow> length (elems h') = length (elems h)"
  unfolding sifted_def by (metis mset_eq_length)

lemma sifted_swap: "i < n \<Longrightarrow> j < n \<Longrightarrow> n \<le> length (elems h) \<Longrightarrow> sifted n h (swap h i j)"
  by (auto simp: sifted_def swap_elems swap_frame mset_swapl swap_ok nth_swapl)

lemma length_vals [simp]: "length (vals h) = length (elems h)"
  by (simp add: vals_def)

lemma vals_swap: "i < length (elems h) \<Longrightarrow> j < length (elems h) \<Longrightarrow> vals (swap h i j) = swapl (vals h) i j"
  by (simp add: vals_def swap_elems swap_frame map_swapl)

lemma lss_vals: "i < length (elems h) \<Longrightarrow> j < length (elems h) \<Longrightarrow> lss h i j \<longleftrightarrow> vals h ! i < vals h ! j"
  by (simp add: lss_key vals_def)

lemma up_sifted: "j < n \<Longrightarrow> n \<le> length (elems h) \<Longrightarrow> sifted n h (heap_up lss swap h j)"
proof (induction j arbitrary: h rule: less_induct)
  case (less j)
  let ?i = "(j - 1) div 2"
  show ?case
  proof (cases "?i = j \<or> \<not> lss h j ?i")
    case True
    then show ?thesis by (subst heap_up.simps) (simp add: Let_def)
  next
    case False
    then have i: "?i < j" by auto
    have s: "sifted n h (swap h ?i j)"
      using less.prems i by (intro sifted_swap) auto
    have "sifted n (swap h ?i j) (heap_up lss swap (swap h ?i j) ?i)"
      using less.prems i sifted_length [OF s] by (intro less.IH) auto
    with s False show ?thesis
      by (subst heap_up.simps) (auto simp: Let_def intro: sifted_trans)
  qed
qed

lemma up_heap:
  "j < n \<Longrightarrow> n \<le> length (elems h) \<Longrightarrow> heap_ex_up (vals h) j n \<Longrightarrow>
     heapn (vals (heap_up lss swap h j)) n"
proof (induction j arbitrary: h rule: less_induct)
  case (less j)
  have p: "(j - 1) div 2 = parent j" by (simp add: parent_def)
  have l: "lss h j (parent j) \<longleftrightarrow> vals h ! j < vals h ! parent j"
    using less.prems by (intro lss_vals) (auto intro: order_le_less_trans [OF _ less.prems(1)])
  show ?case
  proof (cases "parent j = j \<or> \<not> lss h j (parent j)")
    case True
    then have "j = 0 \<or> vals h ! parent j \<le> vals h ! j"
      using l parent_less [of j] by (cases "j = 0") auto
    with less.prems(3) have "heapn (vals h) n" by (rule ex_up_stop)
    with True show ?thesis by (subst heap_up.simps) (simp only: p Let_def if_True)
  next
    case False
    then have j: "0 < j" "parent j < j" by (cases "j = 0"; auto)+
    have "heap_ex_up (swapl (vals h) (parent j) j) (parent j) n"
      using less.prems j False l by (intro ex_up_step) auto
    then have "heapn (vals (heap_up lss swap (swap h (parent j) j) (parent j))) n"
      using less.prems j by (intro less.IH) (auto simp: vals_swap swap_elems)
    with False show ?thesis by (subst heap_up.simps) (simp only: p Let_def if_False)
  qed
qed

text \<open>The child \<open>down\<close> looks at: the smaller one.\<close>

definition pick :: "'s \<Rightarrow> nat \<Rightarrow> nat \<Rightarrow> nat" where
  "pick h i n = (if 2 * i + 2 < n \<and> lss h (2 * i + 2) (2 * i + 1) then 2 * i + 2 else 2 * i + 1)"

lemma down_unfold:
  "heap_down lss swap h i n =
     (if 2 * i + 1 \<ge> n \<or> \<not> lss h (pick h i n) i then (h, i)
      else heap_down lss swap (swap h i (pick h i n)) (pick h i n) n)"
  by (subst heap_down.simps) (simp add: Let_def pick_def)

lemma pick_child:
  assumes "2 * i + 1 < n" "n \<le> length (elems h)"
  shows "pick h i n < n" "i < pick h i n" "parent (pick h i n) = i"
    "\<forall>c < n. 0 < c \<longrightarrow> parent c = i \<longrightarrow> vals h ! pick h i n \<le> vals h ! c"
proof -
  show "pick h i n < n" "i < pick h i n" using assms by (auto simp: pick_def)
  show "parent (pick h i n) = i" by (auto simp: pick_def parent_def)
  show "\<forall>c < n. 0 < c \<longrightarrow> parent c = i \<longrightarrow> vals h ! pick h i n \<le> vals h ! c"
  proof (intro allI impI)
    fix c
    assume "c < n" "0 < c" "parent c = i"
    moreover from this have "c = 2 * i + 1 \<or> c = 2 * i + 2" by (simp add: parent_eq_iff)
    moreover have "lss h (2 * i + 2) (2 * i + 1) \<longleftrightarrow> vals h ! (2 * i + 2) < vals h ! (2 * i + 1)"
      if "2 * i + 2 < n" using that assms by (intro lss_vals) auto
    ultimately show "vals h ! pick h i n \<le> vals h ! c" by (auto simp: pick_def)
  qed
qed

lemma down_sifted:
  "i < n \<Longrightarrow> n \<le> length (elems h) \<Longrightarrow> sifted n h (fst (heap_down lss swap h i n)) \<and>
     i \<le> snd (heap_down lss swap h i n)"
proof (induction "n - i" arbitrary: h i rule: less_induct)
  case less
  let ?j = "pick h i n"
  show ?case
  proof (cases "2 * i + 1 \<ge> n \<or> \<not> lss h ?j i")
    case True
    then show ?thesis by (subst (1 2) down_unfold) simp
  next
    case False
    then have j: "?j < n" "i < ?j" using pick_child [of i n h] less.prems by auto
    have s: "sifted n h (swap h i ?j)" using j less.prems by (intro sifted_swap) auto
    have "sifted n (swap h i ?j) (fst (heap_down lss swap (swap h i ?j) ?j n)) \<and>
        ?j \<le> snd (heap_down lss swap (swap h i ?j) ?j n)"
      using less.prems j sifted_length [OF s] by (intro less.hyps) auto
    with s j False show ?thesis
      by (subst (1 2) down_unfold) (auto intro: sifted_trans)
  qed
qed

text \<open>When the edge above \<open>i\<close> is in order, sifting down gives a heap.\<close>

lemma down_heap:
  "i < n \<Longrightarrow> n \<le> length (elems h) \<Longrightarrow> heap_ex (vals h) i n \<Longrightarrow>
     0 < i \<longrightarrow> vals h ! parent i \<le> vals h ! i \<Longrightarrow>
     heapn (vals (fst (heap_down lss swap h i n))) n"
proof (induction "n - i" arbitrary: h i rule: less_induct)
  case less
  let ?j = "pick h i n"
  show ?case
  proof (cases "2 * i + 1 \<ge> n \<or> \<not> lss h ?j i")
    case True
    have "\<forall>c < n. 0 < c \<longrightarrow> parent c = i \<longrightarrow> vals h ! i \<le> vals h ! c"
    proof (intro allI impI)
      fix c assume c: "c < n" "0 < c" "parent c = i"
      then have n: "2 * i + 1 < n" using parent_eq_iff [of c i] by auto
      then have "vals h ! i \<le> vals h ! ?j"
        using True pick_child [of i n h] less.prems by (auto simp: lss_vals)
      also have "\<dots> \<le> vals h ! c" using pick_child(4) [of i n h] n less.prems c by blast
      finally show "vals h ! i \<le> vals h ! c" .
    qed
    with less.prems(3) have "heap_ex_up (vals h) i n" by (rule heap_ex_noswap)
    then have "heapn (vals h) n" using less.prems(4) by (intro ex_up_stop) auto
    with True show ?thesis by (subst down_unfold) simp
  next
    case False
    then have n: "2 * i + 1 < n" by simp
    note j = pick_child [OF n less.prems(2)]
    have lt: "vals h ! ?j < vals h ! i" using False j less.prems by (simp add: lss_vals)
    have st: "heap_ex (swapl (vals h) i ?j) ?j n \<and> swapl (vals h) i ?j ! i \<le> swapl (vals h) i ?j ! ?j"
      using less.prems j lt by (intro ex_down_step) auto
    have "heapn (vals (fst (heap_down lss swap (swap h i ?j) ?j n))) n"
      using less.prems j st by (intro less.hyps) (auto simp: vals_swap swap_elems)
    with False show ?thesis by (subst down_unfold) simp
  qed
qed

text \<open>\<open>down\<close> followed by \<open>up\<close> when nothing moved, the body shared by \<open>Fix\<close> and \<open>Remove\<close>.\<close>

definition resift :: "'s \<Rightarrow> nat \<Rightarrow> nat \<Rightarrow> 's" where
  "resift h i n = (let (h', i') = heap_down lss swap h i n
     in if i' > i then h' else heap_up lss swap h' i)"

lemma down_stay: "i < n \<Longrightarrow> n \<le> length (elems h) \<Longrightarrow> \<not> snd (heap_down lss swap h i n) > i \<Longrightarrow>
    2 * i + 1 \<ge> n \<or> \<not> lss h (pick h i n) i"
proof (rule ccontr)
  assume a: "i < n" "n \<le> length (elems h)" "\<not> snd (heap_down lss swap h i n) > i"
    "\<not> (2 * i + 1 \<ge> n \<or> \<not> lss h (pick h i n) i)"
  then have j: "pick h i n < n" "i < pick h i n" using pick_child [of i n h] by auto
  have "pick h i n \<le> snd (heap_down lss swap (swap h i (pick h i n)) (pick h i n) n)"
    using a j by (intro conjunct2 [OF down_sifted]) (auto simp: swap_elems)
  with a j show False by (simp add: down_unfold [of h i n])
qed

lemma resift_sifted: "i < n \<Longrightarrow> n \<le> length (elems h) \<Longrightarrow> sifted n h (resift h i n)"
proof -
  assume a: "i < n" "n \<le> length (elems h)"
  obtain h' i' where d: "heap_down lss swap h i n = (h', i')" by fastforce
  have s: "sifted n h h'" using down_sifted [OF a] d by simp
  have "sifted n h' (heap_up lss swap h' i)"
    using a sifted_length [OF s] by (intro up_sifted) auto
  with s d show ?thesis by (auto simp: resift_def intro: sifted_trans)
qed

lemma resift_heap:
  assumes "i < n" "n \<le> length (elems h)" "heap_ex (vals h) i n"
  shows "heapn (vals (resift h i n)) n"
proof (cases "2 * i + 1 \<ge> n \<or> \<not> lss h (pick h i n) i")
  case True
  have ch: "vals h ! i \<le> vals h ! c" if c: "c < n" "0 < c" "parent c = i" for c
  proof -
    have n: "2 * i + 1 < n" using c parent_eq_iff [of c i] by auto
    have "vals h ! i \<le> vals h ! pick h i n"
      using True n pick_child [OF n assms(2)] assms by (auto simp: lss_vals)
    also have "\<dots> \<le> vals h ! c" using pick_child(4) [OF n assms(2)] c by blast
    finally show ?thesis .
  qed
  then have "heap_ex_up (vals h) i n" using assms(3) by (intro heap_ex_noswap) auto
  then have "heapn (vals (heap_up lss swap h i)) n" using assms by (intro up_heap)
  with True show ?thesis by (simp add: resift_def down_unfold [of h i n])
next
  case False
  let ?j = "pick h i n"
  have n: "2 * i + 1 < n" using False by simp
  note j = pick_child [OF n assms(2)]
  have lt: "vals h ! ?j < vals h ! i" using False j assms by (simp add: lss_vals)
  have st: "heap_ex (swapl (vals h) i ?j) ?j n \<and> swapl (vals h) i ?j ! i \<le> swapl (vals h) i ?j ! ?j"
    using assms j lt by (intro ex_down_step) auto
  have "heapn (vals (fst (heap_down lss swap (swap h i ?j) ?j n))) n"
    using assms j st by (intro down_heap) (auto simp: vals_swap swap_elems)
  moreover have "snd (heap_down lss swap h i n) > i"
    using down_stay [OF assms(1,2)] False by blast
  ultimately show ?thesis
    using False by (auto simp: resift_def down_unfold [of h i n] split: prod.splits)
qed

text \<open>The laws a client sees: the container is well-formed and in heap order before and after, the
  elements change by exactly the one pushed or removed, and everything else is untouched.\<close>

definition good :: "'s \<Rightarrow> bool" where
  "good h \<longleftrightarrow> ok h \<and> heapn (vals h) (length (elems h))"

lemma good_root: "good h \<Longrightarrow> x \<in> set (elems h) \<Longrightarrow> hkey h (elems h ! 0) \<le> hkey h x"
proof -
  assume g: "good h" and "x \<in> set (elems h)"
  then obtain c where c: "c < length (elems h)" "elems h ! c = x" by (auto simp: in_set_conv_nth)
  then have "vals h ! 0 \<le> vals h ! c" using g by (intro heapn_root_min) (auto simp: good_def)
  moreover have "0 < length (elems h)" using c by linarith
  ultimately show "hkey h (elems h ! 0) \<le> hkey h x" using c by (simp add: vals_def)
qed

lemma fix_resift: "heap_fix len lss swap h i = resift h i (length (elems h))"
  by (simp add: heap_fix_def resift_def len_elems)

lemma fix_sifted:
  "i < length (elems h) \<Longrightarrow> sifted (length (elems h)) h (heap_fix len lss swap h i)"
  unfolding fix_resift by (rule resift_sifted) auto

lemma fix_law:
  assumes "ok h" "i < length (elems h)" "heap_ex (vals h) i (length (elems h))"
  shows "good (heap_fix len lss swap h i)"
  using resift_heap [OF assms(2) order_refl assms(3)] fix_sifted [OF assms(2)]
    sifted_length [OF fix_sifted [OF assms(2)]] assms(1)
  by (simp add: good_def fix_resift) (simp add: sifted_def)

text \<open>Raising or lowering the key of one element of a heap leaves only its edges in doubt.\<close>

lemma rekey_ex:
  assumes "good h" "i < length (elems h)" "elems h' = elems h" "distinct (elems h)"
    and "\<And>x. x \<noteq> elems h ! i \<Longrightarrow> hkey h' x = hkey h x"
  shows "heap_ex (vals h') i (length (elems h))"
proof -
  have "vals h' = (vals h)[i := hkey h' (elems h ! i)]"
    using assms(2-5)
    by (intro nth_equalityI) (auto simp: vals_def nth_list_update nth_eq_iff_index_eq)
  then show ?thesis
    using assms(1,2) by (simp add: good_def heapn_ex)
qed

lemma push_law:
  assumes "good h" "x \<notin> set (elems h)"
  shows "good (heap_push len lss swap push h x)"
    and "mset (elems (heap_push len lss swap push h x)) = add_mset x (mset (elems h))"
    and "hkey (heap_push len lss swap push h x) = hkey h"
    and "rest (heap_push len lss swap push h x) = rest h"
proof -
  let ?n = "length (elems h)" and ?p = "push h x"
  have eq: "heap_push len lss swap push h x = heap_up lss swap ?p ?n"
    by (simp add: heap_push_def len_elems push_elems)
  have v: "vals ?p = vals h @ [hkey h x]" by (simp add: vals_def push_elems push_frame)
  have "heap_ex_up (vals ?p) ?n (Suc ?n)"
    unfolding v using assms(1) by (intro heapn_snoc_ex_up) (auto simp: good_def)
  then have hp: "heapn (vals (heap_up lss swap ?p ?n)) (Suc ?n)"
    by (intro up_heap) (simp_all add: push_elems)
  have s: "sifted (Suc ?n) ?p (heap_up lss swap ?p ?n)"
    by (intro up_sifted) (simp_all add: push_elems)
  show "mset (elems (heap_push len lss swap push h x)) = add_mset x (mset (elems h))"
    "hkey (heap_push len lss swap push h x) = hkey h" "rest (heap_push len lss swap push h x) = rest h"
    using s by (simp_all add: eq sifted_def push_elems push_frame)
  have "ok ?p" using assms by (intro push_ok) (auto simp: good_def)
  then show "good (heap_push len lss swap push h x)"
    using hp s sifted_length [OF s] by (simp add: eq good_def push_elems sifted_def)
qed

text \<open>Removing: after the element to go has been moved to the end and the others sifted.\<close>

lemma pop_last:
  assumes "ok h" "elems h \<noteq> []" "heapn (vals h) (length (elems h) - 1)"
  shows "good (snd (pop h))"
    and "add_mset (fst (pop h)) (mset (elems (snd (pop h)))) = mset (elems h)"
proof -
  have "vals (snd (pop h)) = butlast (vals h)"
    using assms(2) by (simp add: vals_def pop_elems pop_frame map_butlast)
  moreover have "heapn (butlast (vals h)) (length (elems h) - 1)"
    using assms(3) by (auto simp: heapn_def nth_butlast)
  ultimately show "good (snd (pop h))"
    using assms(1,2) by (simp add: good_def pop_ok pop_elems)
  show "add_mset (fst (pop h)) (mset (elems (snd (pop h)))) = mset (elems h)"
    using assms(2) by (simp add: pop_elems mset_butlast_last)
qed

lemma swap_to_end:
  assumes "heapn (vals h) (length (elems h))" "i < length (elems h) - 1"
  shows "heap_ex (vals (swap h i (length (elems h) - 1))) i (length (elems h) - 1)"
proof -
  let ?n = "length (elems h) - 1"
  have "vals (swap h i ?n) = (vals h)[i := vals h ! ?n, ?n := vals h ! i]"
    using assms(2) by (subst vals_swap) (simp_all add: swapl_def)
  moreover have "heap_ex ((vals h)[i := vals h ! ?n]) i ?n"
    using assms by (intro heapn_ex heapn_mono [OF assms(1)]) auto
  ultimately show ?thesis
    using assms(2) by (elim heap_ex_cong) (auto simp: nth_list_update_neq)
qed

lemma remove_law:
  assumes "good h" "i < length (elems h)"
  defines "r \<equiv> heap_remove len lss swap pop h i"
  shows "fst r = elems h ! i" and "good (snd r)"
    and "add_mset (elems h ! i) (mset (elems (snd r))) = mset (elems h)"
    and "hkey (snd r) = hkey h" and "rest (snd r) = rest h"
proof -
  let ?n = "length (elems h) - 1" and ?g = "swap h i (length (elems h) - 1)"
  define h1 where "h1 = (if ?n \<noteq> i then resift ?g i ?n else h)"
  have r: "r = pop h1"
    by (simp add: r_def heap_remove_def h1_def resift_def len_elems Let_def)
  have ne: "elems h \<noteq> []" using assms(2) by auto
  have g: "length (elems ?g) = length (elems h)" "?n < length (elems h)"
    using assms(2) by (auto simp: swap_elems)
  have s: "sifted ?n ?g (resift ?g i ?n)" if "?n \<noteq> i"
    using that assms(2) g by (intro resift_sifted) auto
  have h1: "mset (elems h1) = mset (elems h) \<and> hkey h1 = hkey h \<and> rest h1 = rest h \<and> ok h1 \<and>
      elems h1 ! ?n = elems h ! i \<and> heapn (vals h1) ?n \<and> length (elems h1) = length (elems h)"
  proof (cases "?n = i")
    case True
    then show ?thesis
      using assms(1) by (auto simp: h1_def good_def intro: heapn_mono)
  next
    case False
    then have i: "i < ?n" using assms(2) by linarith
    have "heapn (vals (resift ?g i ?n)) ?n"
      using i g assms(1) by (intro resift_heap swap_to_end) (auto simp: good_def)
    moreover have "elems (resift ?g i ?n) ! ?n = elems h ! i"
      using s [OF False] g i by (simp add: sifted_def swap_elems nth_swapl)
    moreover have "ok ?g" using assms g by (intro swap_ok) (auto simp: good_def)
    moreover have "mset (elems ?g) = mset (elems h)" using assms g by (simp add: swap_elems mset_swapl)
    ultimately show ?thesis
      using False s [OF False] sifted_length [OF s [OF False]] g
      by (simp add: h1_def sifted_def swap_frame)
  qed
  have ne1: "elems h1 \<noteq> []" using h1 ne by auto
  have "last (elems h1) = elems h ! i"
    using h1 ne1 by (simp add: last_conv_nth)
  then show f: "fst r = elems h ! i" using ne1 by (simp add: r pop_elems)
  show "good (snd r)" using pop_last(1) [of h1] h1 ne1 by (simp add: r)
  show "add_mset (elems h ! i) (mset (elems (snd r))) = mset (elems h)"
    using pop_last(2) [of h1] h1 ne1 f by (simp add: r)
  show "hkey (snd r) = hkey h" "rest (snd r) = rest h"
    using ne1 h1 by (simp_all add: r pop_frame)
qed

text \<open>\<open>Pop\<close> is the removal of the root; it never needs the upward sift.\<close>

lemma pop_law:
  assumes "good h" "elems h \<noteq> []"
  defines "r \<equiv> heap_pop len lss swap pop h"
  shows "fst r = elems h ! 0" and "good (snd r)"
    and "add_mset (elems h ! 0) (mset (elems (snd r))) = mset (elems h)"
    and "hkey (snd r) = hkey h" and "rest (snd r) = rest h"
proof -
  let ?n = "length (elems h) - 1" and ?g = "swap h 0 (length (elems h) - 1)"
  define h1 where "h1 = fst (heap_down lss swap ?g 0 ?n)"
  have r: "r = pop h1" by (simp add: r_def heap_pop_def h1_def len_elems Let_def)
  have g: "length (elems ?g) = length (elems h)" "?n < length (elems h)"
    "mset (elems ?g) = mset (elems h)" "elems ?g ! ?n = elems h ! 0" "ok ?g"
    using assms by (auto simp: swap_elems mset_swapl nth_swapl swap_ok good_def)
  have s: "sifted ?n ?g h1 \<and> heapn (vals h1) ?n"
  proof (cases "?n = 0")
    case True
    then show ?thesis by (simp add: h1_def down_unfold [of _ 0] heapn_def)
  next
    case False
    then show ?thesis
      using g assms(1) unfolding h1_def
      by (intro conjI conjunct1 [OF down_sifted] down_heap swap_to_end) (auto simp: good_def)
  qed
  have h1: "mset (elems h1) = mset (elems h) \<and> hkey h1 = hkey h \<and> rest h1 = rest h \<and> ok h1 \<and>
      elems h1 ! ?n = elems h ! 0 \<and> length (elems h1) = length (elems h)"
    using s g sifted_length [of ?n ?g h1] by (auto simp: sifted_def swap_frame)
  have ne1: "elems h1 \<noteq> []" using h1 assms(2) by auto
  have "last (elems h1) = elems h ! 0" using h1 ne1 by (simp add: last_conv_nth)
  then show f: "fst r = elems h ! 0" using ne1 by (simp add: r pop_elems)
  show "good (snd r)" using pop_last(1) [of h1] h1 ne1 s by (simp add: r)
  show "add_mset (elems h ! 0) (mset (elems (snd r))) = mset (elems h)"
    using pop_last(2) [of h1] h1 ne1 f s by (simp add: r)
  show "hkey (snd r) = hkey h" "rest (snd r) = rest h" using ne1 h1 by (simp_all add: r pop_frame)
qed

lemma pop_length:
  assumes "elems h \<noteq> []"
  shows "length (elems (snd (heap_pop len lss swap pop h))) = length (elems h) - 1"
proof -
  let ?n = "length (elems h) - 1" and ?g = "swap h 0 (length (elems h) - 1)"
  have g: "length (elems ?g) = length (elems h)" using assms by (simp add: swap_elems)
  have "length (elems (fst (heap_down lss swap ?g 0 ?n))) = length (elems h)"
  proof (cases "?n = 0")
    case True
    then show ?thesis using g by (simp add: down_unfold [of _ 0])
  next
    case False
    then have "sifted ?n ?g (fst (heap_down lss swap ?g 0 ?n))"
      using g by (intro conjunct1 [OF down_sifted]) auto
    then show ?thesis using g by (simp add: sifted_length)
  qed
  moreover from this have "elems (fst (heap_down lss swap ?g 0 ?n)) \<noteq> []" using assms by auto
  ultimately show ?thesis by (simp add: heap_pop_def len_elems Let_def pop_elems)
qed

end

end
