(* ===== verification/Mem_Storage.thy ===== *)
theory Mem_Storage
  imports Go_Heap
begin

text \<open>
  \<open>internal/engine/memstorage.go\<close>: the in-RAM torrent storage, a byte budget shared by all torrents
  with eviction of the least recently read complete pieces. The store, its torrents and its pieces
  are one state; pieces are addressed by identity. The LRU is the \<open>container/heap\<close> of
  \<open>Go_Heap\<close> over \<open>lruHeap\<close>'s methods. Buffers come from a pool, so their initial content is an
  argument. Byte counts are integers: they count bytes actually resident in memory, far below
  \<open>2^63\<close>.
\<close>

section \<open>State\<close>

record memPiece =
  mt :: nat
  pindex :: nat
  plength :: int
  pdata :: "byte list option"
  complete :: bool
  lastUsed :: int
  key :: int
  lruIdx :: int
  evictedReads :: int
  evictedAt :: int

record memTorrent =
  infoHash :: string
  slots :: "nat option list"

record memStorage =
  capacity :: int
  usedB :: int
  lru :: "nat list"
  tick :: int
  refetchSet :: bool
  refetchBackoff :: int
  piece :: "nat \<Rightarrow> memPiece"
  npiece :: nat
  torrent :: "nat \<Rightarrow> memTorrent"
  ntorrent :: nat

datatype mem_err = errPieceEvicted | errNegativeOffset | EOF | ErrShortWrite | ErrWrite

definition no_piece :: memPiece where
  "no_piece = \<lparr>mt = 0, pindex = 0, plength = 0, pdata = None, complete = False, lastUsed = 0,
     key = 0, lruIdx = -1, evictedReads = 0, evictedAt = 0\<rparr>"

definition newMemStorage :: "int \<Rightarrow> memStorage" where
  "newMemStorage cap = \<lparr>capacity = cap, usedB = 0, lru = [], tick = 0, refetchSet = False,
     refetchBackoff = 100000000, piece = (\<lambda>_. no_piece), npiece = 0,
     torrent = (\<lambda>_. \<lparr>infoHash = [], slots = []\<rparr>), ntorrent = 0\<rparr>"

definition updp :: "memStorage \<Rightarrow> nat \<Rightarrow> (memPiece \<Rightarrow> memPiece) \<Rightarrow> memStorage" where
  "updp s p f = s\<lparr>piece := (piece s)(p := f (piece s p))\<rparr>"

section \<open>The LRU heap\<close>

definition lru_len :: "memStorage \<Rightarrow> nat" where
  "lru_len s = length (lru s)"

definition lru_less :: "memStorage \<Rightarrow> nat \<Rightarrow> nat \<Rightarrow> bool" where
  "lru_less s i j \<longleftrightarrow> key (piece s (lru s ! i)) < key (piece s (lru s ! j))"

definition lru_swap :: "memStorage \<Rightarrow> nat \<Rightarrow> nat \<Rightarrow> memStorage" where
  "lru_swap s i j =
     (let h = swapl (lru s) i j;
          s = s\<lparr>lru := h\<rparr>;
          s = updp s (h ! i) (\<lambda>mp. mp\<lparr>lruIdx := int i\<rparr>)
      in updp s (h ! j) (\<lambda>mp. mp\<lparr>lruIdx := int j\<rparr>))"

definition lru_push :: "memStorage \<Rightarrow> nat \<Rightarrow> memStorage" where
  "lru_push s p =
     (let s = updp s p (\<lambda>mp. mp\<lparr>lruIdx := int (length (lru s))\<rparr>) in s\<lparr>lru := lru s @ [p]\<rparr>)"

definition lru_pop :: "memStorage \<Rightarrow> nat \<times> memStorage" where
  "lru_pop s =
     (let p = last (lru s) in (p, updp (s\<lparr>lru := butlast (lru s)\<rparr>) p (\<lambda>mp. mp\<lparr>lruIdx := -1\<rparr>)))"

abbreviation heapPush :: "memStorage \<Rightarrow> nat \<Rightarrow> memStorage" where
  "heapPush \<equiv> heap_push lru_len lru_less lru_swap lru_push"
abbreviation heapPop :: "memStorage \<Rightarrow> nat \<times> memStorage" where
  "heapPop \<equiv> heap_pop lru_len lru_less lru_swap lru_pop"
abbreviation heapFix :: "memStorage \<Rightarrow> nat \<Rightarrow> memStorage" where
  "heapFix \<equiv> heap_fix lru_len lru_less lru_swap"
abbreviation heapRemove :: "memStorage \<Rightarrow> nat \<Rightarrow> nat \<times> memStorage" where
  "heapRemove \<equiv> heap_remove lru_len lru_less lru_swap lru_pop"

text \<open>The store without what the heap operations write.\<close>

definition lru_rest :: "memStorage \<Rightarrow> memStorage" where
  "lru_rest s = s\<lparr>lru := [], piece := (\<lambda>p. (piece s p)\<lparr>lruIdx := 0\<rparr>)\<rparr>"

definition lru_sync :: "memStorage \<Rightarrow> bool" where
  "lru_sync s \<longleftrightarrow> distinct (lru s) \<and> (\<forall>i < length (lru s). lruIdx (piece s (lru s ! i)) = int i) \<and>
     (\<forall>p. p \<notin> set (lru s) \<longrightarrow> lruIdx (piece s p) = -1)"

lemma updp_sel [simp]:
  "capacity (updp s p f) = capacity s" "usedB (updp s p f) = usedB s" "lru (updp s p f) = lru s"
  "tick (updp s p f) = tick s" "npiece (updp s p f) = npiece s" "torrent (updp s p f) = torrent s"
  "piece (updp s p f) q = (if q = p then f (piece s p) else piece s q)"
  by (simp_all add: updp_def)

lemma swapl_set: "i < length xs \<Longrightarrow> j < length xs \<Longrightarrow> set (swapl xs i j) = set xs"
  by (metis mset_swapl set_mset_mset)

lemma swapl_distinct: "i < length xs \<Longrightarrow> j < length xs \<Longrightarrow> distinct (swapl xs i j) = distinct xs"
  by (metis mset_eq_imp_distinct_iff mset_swapl)

lemma swap_sync:
  assumes "lru_sync s" "i < length (lru s)" "j < length (lru s)"
  shows "lru_sync (lru_swap s i j)"
proof -
  let ?h = "swapl (lru s) i j"
  have d: "distinct ?h" and st: "set ?h = set (lru s)"
    using assms by (auto simp: lru_sync_def swapl_distinct swapl_set)
  have "lruIdx (piece (lru_swap s i j) (?h ! k)) = int k" if k: "k < length (lru s)" for k
  proof (cases "k = i \<or> k = j")
    case True
    then show ?thesis
      using d assms k by (auto simp: lru_swap_def Let_def nth_eq_iff_index_eq)
  next
    case False
    then have "?h ! k \<noteq> ?h ! i" "?h ! k \<noteq> ?h ! j" "?h ! k = lru s ! k"
      using d assms k by (simp_all add: nth_eq_iff_index_eq) (simp add: nth_swapl)
    then show ?thesis
      using assms k by (simp add: lru_swap_def Let_def lru_sync_def)
  qed
  moreover have "lruIdx (piece (lru_swap s i j) p) = -1" if "p \<notin> set ?h" for p
  proof -
    have "p \<noteq> ?h ! i" "p \<noteq> ?h ! j" using that assms by (auto simp: in_set_conv_nth)
    then show ?thesis using that assms st by (simp add: lru_swap_def Let_def lru_sync_def)
  qed
  ultimately show ?thesis
    using d by (simp add: lru_sync_def) (simp add: lru_swap_def Let_def)
qed

lemma pop_sync:
  assumes "lru_sync s" "lru s \<noteq> []"
  shows "lru_sync (snd (lru_pop s))"
proof -
  have ne: "last (lru s) \<notin> set (butlast (lru s))"
    using assms by (metis append_butlast_last_id distinct_append lru_sync_def disjoint_iff list.set_intros(1))
  have "set (lru s) = insert (last (lru s)) (set (butlast (lru s)))"
    using assms(2) by (metis append_butlast_last_id rotate1.simps(2) set_rotate1 list.simps(15))
  moreover have "lru s ! i \<noteq> last (lru s)" if "i < length (lru s) - 1" for i
    using ne that by (metis length_butlast nth_butlast nth_mem)
  ultimately show ?thesis
    using assms ne by (auto simp: lru_sync_def lru_pop_def Let_def distinct_butlast nth_butlast)
qed

lemma lru_rest_frame [simp]:
  "lru_rest (updp s p (lruIdx_update g)) = lru_rest s" "lru_rest (s\<lparr>lru := l\<rparr>) = lru_rest s"
  by (auto simp: lru_rest_def updp_def fun_eq_iff)

interpretation lruh: heap_interface lru "\<lambda>s p. key (piece s p)" lru_rest lru_sync
  lru_len lru_less lru_swap lru_push lru_pop
proof unfold_locales
  fix s x
  assume "lru_sync s" "x \<notin> set (lru s)"
  then show "lru_sync (lru_push s x)"
    by (auto simp: lru_sync_def lru_push_def Let_def nth_append less_Suc_eq split: if_splits)
next
  fix s i j
  assume "lru_sync s" "i < length (lru s)" "j < length (lru s)"
  then show "lru_sync (lru_swap s i j)" by (rule swap_sync)
next
  fix s
  assume "lru_sync s" "lru s \<noteq> []"
  then show "lru_sync (snd (lru_pop s))" by (rule pop_sync)
qed (auto simp: lru_len_def lru_less_def lru_swap_def lru_push_def lru_pop_def Let_def fun_eq_iff)

section \<open>Eviction\<close>

definition freeLocked :: "memStorage \<Rightarrow> nat \<Rightarrow> memStorage" where
  "freeLocked s p =
     (let s = (case pdata (piece s p) of
                 None \<Rightarrow> s
               | Some d \<Rightarrow> updp (s\<lparr>usedB := usedB s - plength (piece s p)\<rparr>) p (\<lambda>mp. mp\<lparr>pdata := None\<rparr>))
      in updp s p (\<lambda>mp. mp\<lparr>complete := False\<rparr>))"

definition dropLocked :: "memStorage \<Rightarrow> nat \<Rightarrow> memStorage" where
  "dropLocked s p =
     (let s = (if lruIdx (piece s p) \<ge> 0 then snd (heapRemove s (nat (lruIdx (piece s p)))) else s)
      in freeLocked s p)"

lemma fix_root_mset: "lru s \<noteq> [] \<Longrightarrow> mset (lru (heapFix s 0)) = mset (lru s)"
  using lruh.fix_sifted [of 0 s] by (simp add: lruh.sifted_def)

text \<open>\<open>core\<close> forgets the LRU list, positions and heap keys; \<open>core s = core t\<close> says that nothing
  else changed.\<close>

definition core :: "memStorage \<Rightarrow> memStorage" where
  "core s = s\<lparr>lru := [], piece := (\<lambda>p. (piece s p)\<lparr>lruIdx := 0, key := 0\<rparr>)\<rparr>"

lemma core_eqD:
  assumes "core s = core t"
  shows "capacity s = capacity t" "usedB s = usedB t" "tick s = tick t" "npiece s = npiece t"
    "torrent s = torrent t" "ntorrent s = ntorrent t"
    "pdata (piece s p) = pdata (piece t p)" "complete (piece s p) = complete (piece t p)"
    "lastUsed (piece s p) = lastUsed (piece t p)" "plength (piece s p) = plength (piece t p)"
proof -
  have "(piece s p)\<lparr>lruIdx := 0, key := 0\<rparr> = (piece t p)\<lparr>lruIdx := 0, key := 0\<rparr>"
    using arg_cong [OF assms, of "\<lambda>u. piece u p"] by (simp add: core_def)
  then show "pdata (piece s p) = pdata (piece t p)" "complete (piece s p) = complete (piece t p)"
    "lastUsed (piece s p) = lastUsed (piece t p)" "plength (piece s p) = plength (piece t p)"
    by (auto dest: arg_cong [of _ _ pdata] arg_cong [of _ _ complete] arg_cong [of _ _ lastUsed]
        arg_cong [of _ _ plength])
  show "capacity s = capacity t" "usedB s = usedB t" "tick s = tick t" "npiece s = npiece t"
    "torrent s = torrent t" "ntorrent s = ntorrent t"
    using arg_cong [OF assms, of capacity] arg_cong [OF assms, of usedB] arg_cong [OF assms, of tick]
      arg_cong [OF assms, of npiece] arg_cong [OF assms, of torrent] arg_cong [OF assms, of ntorrent]
    by (simp_all add: core_def)
qed

lemma rest_core: "lru_rest s = lru_rest t \<Longrightarrow> core s = core t"
proof -
  have "core u = core (lru_rest u)" for u by (simp add: core_def lru_rest_def)
  then show "lru_rest s = lru_rest t \<Longrightarrow> core s = core t" by metis
qed

lemma core_rekey [simp]: "core (updp s p (key_update f)) = core s"
  by (auto simp: core_def updp_def fun_eq_iff)

lemma fix_root_key: "lru s \<noteq> [] \<Longrightarrow> lru_rest (heapFix s 0) = lru_rest s"
  using lruh.fix_sifted [of 0 s] by (simp add: lruh.sifted_def)

text \<open>The number of LRU entries whose heap key is stale bounds the re-keying loop.\<close>

definition stale :: "memStorage \<Rightarrow> nat" where
  "stale s = size (filter_mset (\<lambda>p. key (piece s p) < lastUsed (piece s p)) (mset (lru s)))"

lemma rekey_stale:
  assumes "lru s \<noteq> []" "lastUsed (piece s (lru s ! 0)) > key (piece s (lru s ! 0))"
  shows "stale (heapFix (updp s (lru s ! 0) (\<lambda>mp. mp\<lparr>key := lastUsed (piece s (lru s ! 0))\<rparr>)) 0) < stale s"
proof -
  let ?t = "updp s (lru s ! 0) (\<lambda>mp. mp\<lparr>key := lastUsed (piece s (lru s ! 0))\<rparr>)"
  let ?P = "\<lambda>s p. key (piece s p) < lastUsed (piece s p)"
  have ne: "lru ?t \<noteq> []" using assms(1) by simp
  have "key (piece (heapFix ?t 0) p) = key (piece ?t p)" for p
    using lruh.fix_sifted [of 0 ?t] ne by (simp add: lruh.sifted_def fun_eq_iff)
  then have eq: "?P (heapFix ?t 0) = ?P ?t"
    using core_eqD [OF rest_core [OF fix_root_key [OF ne]]] by (auto simp: fun_eq_iff)
  have "stale (heapFix ?t 0) = size (filter_mset (?P ?t) (mset (lru s)))"
    using fix_root_mset [OF ne] by (simp add: stale_def eq)
  also have "filter_mset (?P ?t) (mset (lru s)) \<subset># filter_mset (?P s) (mset (lru s))"
  proof (rule subset_mset.le_neq_trans)
    show "filter_mset (?P ?t) (mset (lru s)) \<subseteq># filter_mset (?P s) (mset (lru s))"
      by (rule filter_mset_mono_strong) (auto split: if_splits)
    have "lru s ! 0 \<in># filter_mset (?P s) (mset (lru s))"
      using assms by simp
    moreover have "lru s ! 0 \<notin># filter_mset (?P ?t) (mset (lru s))" by simp
    ultimately show "filter_mset (?P ?t) (mset (lru s)) \<noteq> filter_mset (?P s) (mset (lru s))"
      by metis
  qed
  then have "size (filter_mset (?P ?t) (mset (lru s))) < size (filter_mset (?P s) (mset (lru s)))"
    by (rule mset_subset_size)
  finally show ?thesis by (simp add: stale_def)
qed

function popOldestLocked :: "memStorage \<Rightarrow> nat option \<times> memStorage" where
  "popOldestLocked s =
     (if length (lru s) > 0 then
        (let top = lru s ! 0; lu = lastUsed (piece s top)
         in if lu > key (piece s top)
            then popOldestLocked (heapFix (updp s top (\<lambda>mp. mp\<lparr>key := lu\<rparr>)) 0)
            else (case heapPop s of (p, s') \<Rightarrow> (Some p, s')))
      else (None, s))"
  by pat_completeness auto
termination
  by (relation "measure stale") (auto intro: rekey_stale)

declare popOldestLocked.simps [simp del]

lemma sync_rekey [simp]: "lru_sync (updp s p (key_update f)) = lru_sync s"
proof -
  have "lruIdx (piece (updp s p (key_update f)) q) = lruIdx (piece s q)" for q
    by simp
  then show ?thesis unfolding lru_sync_def updp_sel(3) by presburger
qed

text \<open>What a victim search does: it finds the least recently used entry by the real recency stamp,
  removes exactly that entry, and changes nothing but heap bookkeeping.\<close>

definition lru_lower :: "memStorage \<Rightarrow> bool" where
  "lru_lower s \<longleftrightarrow> (\<forall>p \<in> set (lru s). key (piece s p) \<le> lastUsed (piece s p))"

definition pop_post :: "memStorage \<Rightarrow> nat option \<times> memStorage \<Rightarrow> bool" where
  "pop_post s r \<longleftrightarrow> core (snd r) = core s \<and> lruh.good (snd r) \<and> lru_lower (snd r) \<and>
     (\<forall>p. p \<notin> set (lru s) \<longrightarrow> key (piece (snd r) p) = key (piece s p)) \<and>
     (case fst r of
        None \<Rightarrow> lru s = [] \<and> lru (snd r) = []
      | Some v \<Rightarrow> add_mset v (mset (lru (snd r))) = mset (lru s) \<and>
          (\<forall>q \<in> set (lru s). lastUsed (piece s v) \<le> lastUsed (piece s q)))"

lemma rekey_step:
  assumes "lruh.good s" "lru_lower s" "lru s \<noteq> []"
  defines "t \<equiv> heapFix (updp s (lru s ! 0) (\<lambda>mp. mp\<lparr>key := lastUsed (piece s (lru s ! 0))\<rparr>)) 0"
  shows "lruh.good t" "lru_lower t" "core t = core s" "mset (lru t) = mset (lru s)"
    "p \<notin> set (lru s) \<Longrightarrow> key (piece t p) = key (piece s p)"
proof -
  let ?u = "updp s (lru s ! 0) (\<lambda>mp. mp\<lparr>key := lastUsed (piece s (lru s ! 0))\<rparr>)"
  have d: "distinct (lru s)" "lru_sync ?u"
    using assms(1) by (simp_all add: lruh.good_def) (simp add: lru_sync_def)
  have "heap_ex (lruh.vals ?u) 0 (length (lru s))"
    using assms(1,3) d by (intro lruh.rekey_ex [of s]) auto
  then show "lruh.good t"
    unfolding t_def using assms(3) d by (intro lruh.fix_law) auto
  have s: "lruh.sifted (length (lru s)) ?u t"
    unfolding t_def using lruh.fix_sifted [of 0 ?u] assms(3) by simp
  show m: "mset (lru t) = mset (lru s)" using s by (simp add: lruh.sifted_def)
  have c: "core t = core ?u" using s by (intro rest_core) (simp add: lruh.sifted_def)
  then show "core t = core s" by simp
  have "(\<lambda>p. key (piece t p)) = (\<lambda>p. key (piece ?u p))"
    using s by (simp add: lruh.sifted_def)
  then have k: "key (piece t p) = key (piece ?u p)" for p by (rule fun_cong)
  have "lru s ! 0 \<in> set (lru s)" using assms(3) by simp
  then show "key (piece t p) = key (piece s p)" if "p \<notin> set (lru s)" for p
    unfolding k using that by auto
  have "key (piece t p) \<le> lastUsed (piece t p)" if "p \<in> set (lru s)" for p
    unfolding k core_eqD(9) [OF c] using assms(2) that by (simp add: lru_lower_def)
  then show "lru_lower t"
    using mset_eq_setD [OF m] by (simp add: lru_lower_def)
qed

lemma popOldest_post: "lruh.good s \<Longrightarrow> lru_lower s \<Longrightarrow> pop_post s (popOldestLocked s)"
proof (induction s rule: popOldestLocked.induct)
  case (1 s)
  show ?case
  proof (cases "lru s = []")
    case True
    with "1.prems" show ?thesis by (subst popOldestLocked.simps) (simp add: pop_post_def)
  next
    case ne: False
    let ?top = "lru s ! 0"
    show ?thesis
    proof (cases "lastUsed (piece s ?top) > key (piece s ?top)")
      case True
      let ?t = "heapFix (updp s ?top (\<lambda>mp. mp\<lparr>key := lastUsed (piece s ?top)\<rparr>)) 0"
      note t = rekey_step [OF "1.prems" ne]
      have "pop_post ?t (popOldestLocked ?t)"
        using ne True t by (intro "1.IH") auto
      moreover have "set (lru ?t) = set (lru s)" using t(4) by (rule mset_eq_setD)
      ultimately have "pop_post s (popOldestLocked ?t)"
        using t(3,4,5) core_eqD(9) [OF t(3)] mset_eq_length [OF t(4)]
        by (auto simp: pop_post_def split: option.splits)
      with ne True show ?thesis by (subst popOldestLocked.simps) (simp add: Let_def)
    next
      case False
      obtain v s' where r: "heapPop s = (v, s')" by fastforce
      note p = lruh.pop_law [OF "1.prems"(1) ne, unfolded r fst_conv snd_conv]
      have sub: "set (lru s') \<subseteq> set (lru s)" using p(3) by (metis set_mset_add_mset_insert set_mset_mset subset_insertI)
      have c: "core s' = core s" using p(5) by (rule rest_core)
      have kk: "key (piece s' q) = key (piece s q)" for q using p(4) by (simp add: fun_eq_iff)
      have "lru_lower s'"
        using "1.prems"(2) sub core_eqD(9) [OF c] kk by (auto simp: lru_lower_def)
      moreover have "lastUsed (piece s v) \<le> lastUsed (piece s q)" if q: "q \<in> set (lru s)" for q
      proof -
        have "lastUsed (piece s v) \<le> key (piece s v)" using False p(1) by simp
        also have "\<dots> \<le> key (piece s q)" using lruh.good_root [OF "1.prems"(1) q] p(1) by simp
        also have "\<dots> \<le> lastUsed (piece s q)" using "1.prems"(2) q by (simp add: lru_lower_def)
        finally show ?thesis .
      qed
      ultimately have "pop_post s (Some v, s')"
        using p c kk by (auto simp: pop_post_def)
      with ne False r show ?thesis by (subst popOldestLocked.simps) (simp add: Let_def)
    qed
  qed
qed

lemma popOldest_length: "popOldestLocked s = (Some v, s') \<Longrightarrow> length (lru s') < length (lru s)"
proof (induction s rule: popOldestLocked.induct)
  case (1 s)
  let ?top = "lru s ! 0"
  let ?u = "updp s ?top (\<lambda>mp. mp\<lparr>key := lastUsed (piece s ?top)\<rparr>)"
  have ne: "lru s \<noteq> []"
    using "1.prems" by (subst (asm) popOldestLocked.simps) (auto split: if_splits)
  show ?case
  proof (cases "lastUsed (piece s ?top) > key (piece s ?top)")
    case True
    then have "popOldestLocked (heapFix ?u 0) = (Some v, s')"
      using "1.prems" ne by (subst (asm) popOldestLocked.simps) (simp add: Let_def)
    then have "length (lru s') < length (lru (heapFix ?u 0))"
      using ne True by (intro "1.IH") auto
    moreover have "length (lru (heapFix ?u 0)) = length (lru s)"
      using fix_root_mset [of ?u] ne mset_eq_length [of "lru (heapFix ?u 0)" "lru s"] by simp
    ultimately show ?thesis by simp
  next
    case False
    then have "snd (heapPop s) = s'"
      using "1.prems" ne by (subst (asm) popOldestLocked.simps) (auto simp: Let_def split: prod.splits)
    with ne lruh.pop_length [OF ne] show ?thesis by (cases "lru s") auto
  qed
qed

function evictLoop :: "memStorage \<Rightarrow> int \<Rightarrow> memStorage" where
  "evictLoop s need =
     (if usedB s + need > capacity s then
        (case popOldestLocked s of
           (None, s') \<Rightarrow> s'
         | (Some victim, s') \<Rightarrow> evictLoop (freeLocked s' victim) need)
      else s)"
  by pat_completeness auto
termination
proof (relation "measure (\<lambda>(s, need). length (lru s))", goal_cases)
  case (2 s need x s' victim)
  then have "length (lru s') < length (lru s)" using popOldest_length [of s victim s'] by simp
  then show ?case by (auto simp: freeLocked_def Let_def split: option.splits)
qed simp

declare evictLoop.simps [simp del]

definition evictLocked :: "memStorage \<Rightarrow> int \<Rightarrow> nat option \<Rightarrow> memStorage" where
  "evictLocked s need keep =
     (if usedB s + need \<le> capacity s then s
      else case keep of
        None \<Rightarrow> evictLoop s need
      | Some k \<Rightarrow>
          if lruIdx (piece s k) \<ge> 0
          then heapPush (evictLoop (snd (heapRemove s (nat (lruIdx (piece s k))))) need) k
          else evictLoop s need)"

definition reserve :: "memStorage \<Rightarrow> int \<Rightarrow> memStorage" where
  "reserve s need = (let s = evictLocked s need None in s\<lparr>usedB := usedB s + need\<rparr>)"

section \<open>The store invariant\<close>

definition resident :: "memStorage \<Rightarrow> nat \<Rightarrow> int" where
  "resident s p = (if pdata (piece s p) = None then 0 else plength (piece s p))"

text \<open>\<open>A\<close>: pieces whose first writer has reserved budget and not yet installed the buffer (it holds
  \<open>allocMu\<close>). \<open>K\<close>: the piece parked outside the heap during an eviction pass.\<close>

definition minvK :: "nat set \<Rightarrow> nat set \<Rightarrow> memStorage \<Rightarrow> bool" where
  "minvK A K s \<longleftrightarrow>
     lruh.good s \<and> lru_lower s \<and>
     (\<forall>p. complete (piece s p) \<longleftrightarrow> p \<in> set (lru s) \<union> K) \<and> K \<inter> set (lru s) = {} \<and>
     (\<forall>p \<in> K. key (piece s p) \<le> lastUsed (piece s p)) \<and>
     (\<forall>p \<in> set (lru s) \<union> K. pdata (piece s p) \<noteq> None) \<and>
     (\<forall>p. lastUsed (piece s p) \<le> tick s) \<and>
     (\<forall>p d. pdata (piece s p) = Some d \<longrightarrow> int (length d) = plength (piece s p) \<and> p < npiece s) \<and>
     (\<forall>p \<in> A. p < npiece s \<and> pdata (piece s p) = None) \<and>
     (\<forall>p. 0 \<le> plength (piece s p)) \<and>
     usedB s = sum (resident s) {..<npiece s} + sum (\<lambda>p. plength (piece s p)) A"

lemma good_cong:
  assumes "lru s = lru t" "\<And>p. key (piece s p) = key (piece t p)" "\<And>p. lruIdx (piece s p) = lruIdx (piece t p)"
  shows "lruh.good s = lruh.good t"
  using assms by (simp add: lruh.good_def lruh.vals_def lru_sync_def)

lemma free_sel [simp]:
  "lru (freeLocked s p) = lru s" "capacity (freeLocked s p) = capacity s" "tick (freeLocked s p) = tick s"
  "npiece (freeLocked s p) = npiece s" "torrent (freeLocked s p) = torrent s"
  "key (piece (freeLocked s p) q) = key (piece s q)"
  "lruIdx (piece (freeLocked s p) q) = lruIdx (piece s q)"
  "lastUsed (piece (freeLocked s p) q) = lastUsed (piece s q)"
  "plength (piece (freeLocked s p) q) = plength (piece s q)"
  "pdata (piece (freeLocked s p) q) = (if q = p then None else pdata (piece s q))"
  "complete (piece (freeLocked s p) q) = (if q = p then False else complete (piece s q))"
  "usedB (freeLocked s p) = usedB s - resident s p"
  by (auto simp: freeLocked_def Let_def resident_def split: option.splits)

lemma good_free [simp]: "lruh.good (freeLocked s p) = lruh.good s"
  by (rule good_cong) auto

lemma lower_free [simp]: "lru_lower (freeLocked s p) = lru_lower s"
  by (simp add: lru_lower_def)

text \<open>Freeing a piece that has just left the LRU (by the victim search or by a drop), or one that was
  never in it.\<close>

lemma free_inv:
  assumes inv: "minvK A K s" and core: "core t = core s" and good: "lruh.good t" "lru_lower t"
    and lru: "set (lru t) = set (lru s) - {v}" and v: "v \<notin> A" "v \<notin> K"
    and keyK: "\<forall>p \<in> K. key (piece t p) \<le> lastUsed (piece t p)"
  shows "minvK A K (freeLocked t v)"
proof -
  note c = core_eqD [OF core]
  have r: "resident t = resident s" by (simp add: fun_eq_iff resident_def c)
  have "sum (resident (freeLocked t v)) {..<npiece s} = sum (resident s) {..<npiece s} - resident s v"
  proof (cases "v < npiece s")
    case True
    have "sum (resident (freeLocked t v)) {..<npiece s} = sum (resident s) {..<npiece s} + - resident s v"
      using True by (intro sum_change_one [where i = v]) (auto simp: resident_def c)
    then show ?thesis by simp
  next
    case False
    then have "pdata (piece s v) = None" using inv by (auto simp: minvK_def)
    moreover from this have "resident (freeLocked t v) = resident s"
      by (auto simp: fun_eq_iff resident_def c)
    ultimately show ?thesis by (simp add: resident_def [of s v])
  qed
  moreover have "sum (\<lambda>p. plength (piece (freeLocked t v) p)) A = sum (\<lambda>p. plength (piece s p)) A"
    by (simp add: c)
  ultimately show ?thesis
    using inv good lru v keyK unfolding minvK_def by (auto simp: c r)
qed

lemma mset_remove_set: "distinct xs \<Longrightarrow> add_mset v (mset ys) = mset xs \<Longrightarrow> set ys = set xs - {v} \<and> v \<in> set xs"
proof -
  assume d: "distinct xs" and m: "add_mset v (mset ys) = mset xs"
  then have "distinct (v # ys)" using mset_eq_imp_distinct_iff [of "v # ys" xs] by simp
  moreover have "set xs = insert v (set ys)" using arg_cong [OF m, of set_mset] by simp
  ultimately show ?thesis by auto
qed

lemma inv_distinct: "minvK A K s \<Longrightarrow> distinct (lru s)"
  by (simp add: minvK_def lruh.good_def lru_sync_def)

lemma core_resident:
  assumes "core s = core t"
  shows "resident s = resident t"
  by (simp add: fun_eq_iff resident_def core_eqD [OF assms])

text \<open>Moving pieces between the LRU and the parked set.\<close>

lemma repark_inv:
  assumes inv: "minvK A K s" and core: "core t = core s" and good: "lruh.good t" "lru_lower t"
    and lru: "set (lru t) \<union> L = set (lru s) \<union> K" "L \<inter> set (lru t) = {}"
    and keyL: "\<forall>p \<in> L. key (piece t p) \<le> lastUsed (piece t p)"
  shows "minvK A L t"
proof -
  note c = core_eqD [OF core]
  have "\<forall>p \<in> set (lru t) \<union> L. pdata (piece s p) \<noteq> None"
    using inv unfolding lru(1) minvK_def by blast
  with inv good lru keyL show ?thesis
    unfolding minvK_def lru(1) by (simp add: c core_resident [OF core])
qed

lemma inv_A_lru: "minvK A K s \<Longrightarrow> A \<inter> set (lru s) = {}"
  unfolding minvK_def by (metis UnI1 disjoint_iff)

text \<open>The outcome of an eviction pass: the invariant holds, only LRU entries may have gone, every other
  piece is untouched, the victims were read no later than the survivors, and the request fits unless
  no complete piece was left.\<close>

definition evict_post :: "memStorage \<Rightarrow> int \<Rightarrow> memStorage \<Rightarrow> bool" where
  "evict_post s need t \<longleftrightarrow>
     set (lru t) \<subseteq> set (lru s) \<and>
     capacity t = capacity s \<and> tick t = tick s \<and> npiece t = npiece s \<and> torrent t = torrent s \<and>
     (\<forall>p. p \<notin> set (lru s) \<or> p \<in> set (lru t) \<longrightarrow>
        pdata (piece t p) = pdata (piece s p) \<and> complete (piece t p) = complete (piece s p)) \<and>
     (\<forall>p. lastUsed (piece t p) = lastUsed (piece s p) \<and> plength (piece t p) = plength (piece s p)) \<and>
     (\<forall>v \<in> set (lru s) - set (lru t). \<forall>q \<in> set (lru t). lastUsed (piece s v) \<le> lastUsed (piece s q)) \<and>
     (usedB t + need \<le> capacity t \<or> lru t = [])"

lemma evictLoop_post:
  "minvK A K s \<Longrightarrow> A \<inter> set (lru s) = {} \<Longrightarrow>
     minvK A K (evictLoop s need) \<and> evict_post s need (evictLoop s need)"
proof (induction s need rule: evictLoop.induct)
  case (1 s need)
  have inv: "minvK A K s" by fact
  have pp: "pop_post s (popOldestLocked s)"
    using inv by (intro popOldest_post) (auto simp: minvK_def)
  show ?case
  proof (cases "usedB s + need > capacity s")
    case False
    with inv show ?thesis by (subst (1 2) evictLoop.simps) (simp add: evict_post_def)
  next
    case over: True
    obtain r s' where r: "popOldestLocked s = (r, s')" by fastforce
    show ?thesis
    proof (cases r)
      case None
      then have e: "evictLoop s need = s'" using over r by (subst evictLoop.simps) simp
      have p: "core s' = core s" "lru s = []" "lru s' = []" "lruh.good s'" "lru_lower s'"
          "\<forall>p. key (piece s' p) = key (piece s p)"
        using pp r None by (auto simp: pop_post_def)
      note c = core_eqD [OF p(1)]
      have "minvK A K s'"
        using inv p by (intro repark_inv [OF inv p(1,4,5)]) (auto simp: minvK_def c)
      moreover have "evict_post s need s'"
        using p by (simp add: evict_post_def c)
      ultimately show ?thesis by (simp add: e)
    next
      case (Some v)
      have p: "core s' = core s" "lruh.good s'" "lru_lower s'"
          "add_mset v (mset (lru s')) = mset (lru s)"
          "\<forall>p. p \<notin> set (lru s) \<longrightarrow> key (piece s' p) = key (piece s p)"
          "\<forall>q \<in> set (lru s). lastUsed (piece s v) \<le> lastUsed (piece s q)"
        using pp r Some by (auto simp: pop_post_def)
      note c = core_eqD [OF p(1)]
      have l: "set (lru s') = set (lru s) - {v}" "v \<in> set (lru s)"
        using mset_remove_set [OF inv_distinct [OF inv] p(4)] by auto
      have vA: "v \<notin> A" "v \<notin> K" using l inv "1.prems" by (auto simp: minvK_def)
      have kK: "\<forall>p \<in> K. key (piece s' p) \<le> lastUsed (piece s' p)"
        using inv p(5) unfolding minvK_def c(9) by (metis Int_iff empty_iff)
      have inv': "minvK A K (freeLocked s' v)"
        by (rule free_inv [OF inv p(1,2,3) l(1) vA kK])
      let ?t = "evictLoop (freeLocked s' v) need"
      have IH: "minvK A K ?t \<and> evict_post (freeLocked s' v) need ?t"
        using inv' l "1.prems" over r Some by (intro "1.IH") auto
      have e: "evictLoop s need = ?t" using over r Some by (subst evictLoop.simps) simp
      have "evict_post s need ?t"
        unfolding evict_post_def
      proof (intro conjI ballI)
        fix w q
        assume w: "w \<in> set (lru s) - set (lru ?t)" and q: "q \<in> set (lru ?t)"
        have "q \<in> set (lru s')" using IH q by (auto simp: evict_post_def)
        then show "lastUsed (piece s w) \<le> lastUsed (piece s q)"
          using IH w q l p(6) by (cases "w = v") (auto simp: evict_post_def c)
      qed (use IH l in \<open>auto simp: evict_post_def c split: if_splits\<close>)
      with IH e show ?thesis by simp
    qed
  qed
qed

lemma sync_idx: "lru_sync s \<Longrightarrow> lruIdx (piece s k) \<ge> 0 \<Longrightarrow>
    nat (lruIdx (piece s k)) < length (lru s) \<and> lru s ! nat (lruIdx (piece s k)) = k"
proof -
  assume s: "lru_sync s" and i: "lruIdx (piece s k) \<ge> 0"
  then have "k \<in> set (lru s)" by (auto simp: lru_sync_def)
  then obtain j where "j < length (lru s)" "lru s ! j = k" by (auto simp: in_set_conv_nth)
  with s show ?thesis by (auto simp: lru_sync_def)
qed

lemma sync_mem: "lru_sync s \<Longrightarrow> lruIdx (piece s k) \<ge> 0 \<longleftrightarrow> k \<in> set (lru s)"
  by (auto simp: lru_sync_def in_set_conv_nth)

text \<open>Taking a known piece out of the heap.\<close>

lemma remove_known:
  assumes inv: "minvK A {} s" and k: "lruIdx (piece s k) \<ge> 0"
  defines "t \<equiv> snd (heapRemove s (nat (lruIdx (piece s k))))"
  shows "core t = core s" "lruh.good t" "lru_lower t" "set (lru t) = set (lru s) - {k}" "k \<in> set (lru s)"
    "key (piece t p) = key (piece s p)"
proof -
  have g: "lruh.good s" "lru_sync s" using inv by (auto simp: minvK_def lruh.good_def)
  note i = sync_idx [OF g(2) k]
  note r = lruh.remove_law [OF g(1) conjunct1 [OF i], folded t_def]
  show c: "core t = core s" using r(5) by (rule rest_core)
  show "lruh.good t" by (rule r(2))
  show l: "set (lru t) = set (lru s) - {k}" "k \<in> set (lru s)"
    using mset_remove_set [OF inv_distinct [OF inv], of k "lru t"] r(3) i by auto
  show kk: "key (piece t p) = key (piece s p)" for p using fun_cong [OF r(4)] .
  show "lru_lower t"
    using inv l by (auto simp: lru_lower_def minvK_def kk core_eqD(9) [OF c])
qed

lemma evictLocked_post:
  fixes s :: memStorage and need :: int and keep :: "nat option"
  assumes inv: "minvK A {} s"
  defines "t \<equiv> evictLocked s need keep"
  shows "minvK A {} t"
    and "set (lru t) \<subseteq> set (lru s)" "capacity t = capacity s" "tick t = tick s" "npiece t = npiece s"
      "torrent t = torrent s"
    and "p \<notin> set (lru s) \<or> p \<in> set (lru t) \<Longrightarrow>
        pdata (piece t p) = pdata (piece s p) \<and> complete (piece t p) = complete (piece s p)"
    and "lastUsed (piece t p) = lastUsed (piece s p)" "plength (piece t p) = plength (piece s p)"
    and "v \<in> set (lru s) - set (lru t) \<Longrightarrow> q \<in> set (lru t) - set_option keep \<Longrightarrow>
        lastUsed (piece s v) \<le> lastUsed (piece s q)"
    and "usedB t + need \<le> capacity t \<or> set (lru t) \<subseteq> set_option keep"
    and "keep = Some k \<Longrightarrow> k \<in> set (lru s) \<Longrightarrow> k \<in> set (lru t)"
proof -
  have loop: "minvK A {} (evictLoop s need)" "evict_post s need (evictLoop s need)"
    using evictLoop_post [OF inv inv_A_lru [OF inv], of need] by auto
  have sync: "lru_sync s" using inv by (simp add: minvK_def lruh.good_def)
  consider (fits) "usedB s + need \<le> capacity s"
    | (plain) "t = evictLoop s need" "\<forall>k. keep = Some k \<longrightarrow> k \<notin> set (lru s)"
    | (park) k where "keep = Some k" "lruIdx (piece s k) \<ge> 0"
        "t = heapPush (evictLoop (snd (heapRemove s (nat (lruIdx (piece s k))))) need) k"
    by (cases keep; cases "usedB s + need \<le> capacity s")
       (auto simp: t_def evictLocked_def sync_mem [OF sync] split: if_splits)
  then have "minvK A {} t \<and> set (lru t) \<subseteq> set (lru s) \<and> capacity t = capacity s \<and> tick t = tick s \<and>
      npiece t = npiece s \<and> torrent t = torrent s \<and>
      (\<forall>p. p \<notin> set (lru s) \<or> p \<in> set (lru t) \<longrightarrow>
         pdata (piece t p) = pdata (piece s p) \<and> complete (piece t p) = complete (piece s p)) \<and>
      (\<forall>p. lastUsed (piece t p) = lastUsed (piece s p) \<and> plength (piece t p) = plength (piece s p)) \<and>
      (\<forall>v \<in> set (lru s) - set (lru t). \<forall>q \<in> set (lru t) - set_option keep.
         lastUsed (piece s v) \<le> lastUsed (piece s q)) \<and>
      (usedB t + need \<le> capacity t \<or> set (lru t) \<subseteq> set_option keep) \<and>
      (\<forall>k. keep = Some k \<longrightarrow> k \<in> set (lru s) \<longrightarrow> k \<in> set (lru t))"
  proof cases
    case fits
    then have "t = s" by (simp add: t_def evictLocked_def)
    with fits inv show ?thesis by simp
  next
    case plain
    with loop show ?thesis by (auto simp: evict_post_def)
  next
    case (park k)
    let ?r = "snd (heapRemove s (nat (lruIdx (piece s k))))"
    let ?e = "evictLoop ?r need"
    note r = remove_known [OF inv park(2)]
    note cr = core_eqD [OF r(1)]
    have ir: "minvK A {k} ?r"
      using inv r by (intro repark_inv [OF inv r(1,2,3)]) (auto simp: minvK_def lru_lower_def cr)
    have e: "minvK A {k} ?e" "evict_post ?r need ?e"
      using evictLoop_post [OF ir inv_A_lru [OF ir], of need] by auto
    have kn: "k \<notin> set (lru ?e)" using e(1) by (auto simp: minvK_def)
    have ge: "lruh.good ?e" using e(1) by (simp add: minvK_def)
    note p = lruh.push_law [OF ge kn, folded park(3)]
    have c: "core t = core ?e" using p(4) by (rule rest_core)
    note ct = core_eqD [OF c]
    have l: "set (lru t) = insert k (set (lru ?e))"
      using p(2) by (metis set_mset_add_mset_insert set_mset_mset)
    have kk: "key (piece t q) = key (piece ?e q)" for q using fun_cong [OF p(3)] .
    have "lru_lower t"
      using e(1) by (auto simp: lru_lower_def l kk ct minvK_def)
    then have "minvK A {} t"
      using l by (intro repark_inv [OF e(1) c p(1)]) auto
    then show ?thesis
      using e(2) r(4,5) l kn park(1) by (auto simp: evict_post_def ct cr)
  qed
  then show "minvK A {} t"
    and "set (lru t) \<subseteq> set (lru s)" "capacity t = capacity s" "tick t = tick s" "npiece t = npiece s"
      "torrent t = torrent s"
    and "p \<notin> set (lru s) \<or> p \<in> set (lru t) \<Longrightarrow>
        pdata (piece t p) = pdata (piece s p) \<and> complete (piece t p) = complete (piece s p)"
    and "lastUsed (piece t p) = lastUsed (piece s p)" "plength (piece t p) = plength (piece s p)"
    and "v \<in> set (lru s) - set (lru t) \<Longrightarrow> q \<in> set (lru t) - set_option keep \<Longrightarrow>
        lastUsed (piece s v) \<le> lastUsed (piece s q)"
    and "usedB t + need \<le> capacity t \<or> set (lru t) \<subseteq> set_option keep"
    and "keep = Some k \<Longrightarrow> k \<in> set (lru s) \<Longrightarrow> k \<in> set (lru t)"
    by blast+
qed

end
