(* ===== verification/Mem_Piece.thy ===== *)
theory Mem_Piece
  imports Mem_Storage
begin

text \<open>
  \<open>internal/engine/memstorage.go\<close>, second half: the operations the torrent client calls on a piece
  (\<open>ReadAt\<close>, \<open>WriteAt\<close>, \<open>WriteTo\<close>, \<open>MarkComplete\<close>, \<open>MarkNotComplete\<close>, \<open>Completion\<close>), the torrent view
  and the store's \<open>Close\<close>, composed into a step relation. The first write into a piece releases every
  lock between reserving the budget and installing the buffer, so it is two steps; the set
  \<open>allocating\<close> holds the pieces whose \<open>allocMu\<close> is held in between.
\<close>

section \<open>Torrents and pieces\<close>

definition OpenTorrent :: "memStorage \<Rightarrow> string \<Rightarrow> nat \<Rightarrow> nat \<times> memStorage" where
  "OpenTorrent s ih numPieces =
     (ntorrent s, s\<lparr>torrent := (torrent s)(ntorrent s := \<lparr>infoHash = ih, slots = replicate numPieces None\<rparr>),
        ntorrent := ntorrent s + 1\<rparr>)"

text \<open>The lazily created piece of a slot; an index outside the torrent panics.\<close>

definition getPiece :: "memStorage \<Rightarrow> nat \<Rightarrow> nat \<Rightarrow> int \<Rightarrow> (mem_err, nat \<times> memStorage) outcome" where
  "getPiece s t i len =
     (if i < length (slots (torrent s t)) then
        (case slots (torrent s t) ! i of
           Some p \<Rightarrow> Ok (p, s)
         | None \<Rightarrow>
             (let p = npiece s;
                  mp = \<lparr>mt = t, pindex = i, plength = len, pdata = None, complete = False, lastUsed = 0,
                        key = 0, lruIdx = -1, evictedReads = 0, evictedAt = 0\<rparr>
              in Ok (p, s\<lparr>piece := (piece s)(p := mp), npiece := p + 1,
                   torrent := (torrent s)(t := (torrent s t)\<lparr>slots := (slots (torrent s t))[i := Some p]\<rparr>)\<rparr>)))
      else Panic)"

definition closeTorrent :: "memStorage \<Rightarrow> nat \<Rightarrow> memStorage" where
  "closeTorrent s t =
     fold (\<lambda>slot s. case slot of None \<Rightarrow> s | Some p \<Rightarrow> dropLocked s p) (slots (torrent s t)) s"

text \<open>\<open>memStorage.Close\<close>: drops what is in the LRU and resets the accounting.\<close>

definition closeStorage :: "memStorage \<Rightarrow> memStorage" where
  "closeStorage s =
     (let s' = fold (\<lambda>p s. updp s p (\<lambda>mp. mp\<lparr>lruIdx := -1, pdata := None, complete := False\<rparr>)) (lru s) s
      in s'\<lparr>lru := [], usedB := 0\<rparr>)"

section \<open>Writing\<close>

text \<open>\<open>lockResident\<close> up to the buffer allocation, and from there to the copy of \<open>WriteAt\<close>. \<open>buf\<close> is the
  pooled buffer.\<close>

definition write_check :: "memStorage \<Rightarrow> nat \<Rightarrow> int \<Rightarrow> mem_err option" where
  "write_check s p off =
     (if off < 0 then Some errNegativeOffset
      else if off \<ge> plength (piece s p) then Some EOF else None)"

definition copy_at :: "byte list \<Rightarrow> nat \<Rightarrow> byte list \<Rightarrow> byte list" where
  "copy_at d off b = take off d @ take (length d - off) b @ drop (off + length b) d"

definition store_bytes :: "memStorage \<Rightarrow> nat \<Rightarrow> byte list \<Rightarrow> int \<Rightarrow> nat \<times> memStorage" where
  "store_bytes s p b off =
     (case pdata (piece s p) of
        None \<Rightarrow> (0, s)
      | Some d \<Rightarrow> (min (length b) (length d - nat off),
                   updp s p (\<lambda>mp. mp\<lparr>pdata := Some (copy_at d (nat off) b)\<rparr>)))"

definition lockResident_reserve :: "memStorage \<Rightarrow> nat \<Rightarrow> memStorage" where
  "lockResident_reserve s p = reserve s (plength (piece s p))"

definition lockResident_install :: "memStorage \<Rightarrow> nat \<Rightarrow> byte list \<Rightarrow> memStorage" where
  "lockResident_install s p buf = updp s p (\<lambda>mp. mp\<lparr>pdata := Some buf, evictedReads := 0\<rparr>)"

definition lockResident :: "memStorage \<Rightarrow> nat \<Rightarrow> byte list \<Rightarrow> memStorage" where
  "lockResident s p buf =
     (if pdata (piece s p) \<noteq> None then s
      else lockResident_install (lockResident_reserve s p) p buf)"

definition WriteAt :: "memStorage \<Rightarrow> nat \<Rightarrow> byte list \<Rightarrow> byte list \<Rightarrow> int \<Rightarrow> (mem_err, nat) outcome \<times> memStorage" where
  "WriteAt s p buf b off =
     (case write_check s p off of
        Some e \<Rightarrow> (Err e, s)
      | None \<Rightarrow> (case store_bytes (lockResident s p buf) p b off of (n, s') \<Rightarrow> (Ok n, s')))"

section \<open>Reading\<close>

definition stamp :: "memStorage \<Rightarrow> nat \<Rightarrow> memStorage" where
  "stamp s p =
     (if lastUsed (piece s p) \<noteq> tick s
      then updp (s\<lparr>tick := tick s + 1\<rparr>) p (\<lambda>mp. mp\<lparr>lastUsed := tick s + 1\<rparr>) else s)"

text \<open>What the environment gives an evicted read: the channel of the refetch hook (\<open>None\<close> for nil, otherwise
  the delay after which it closes, if it ever does) and the two clock readings, in nanoseconds.\<close>

record wait_env =
  doneCh :: "int option option"
  nowStart :: int
  nowEnd :: int

definition refetchSettle :: int where "refetchSettle = 1000000"

text \<open>\<open>waitRefetch\<close>: the updated piece and the time the call slept.\<close>

definition wait_floor :: "int \<Rightarrow> int \<Rightarrow> int" where
  "wait_floor reads backoff =
     (if reads > 1 then
        (let shift = i32 (reads - 2)
         in if shift < 31 then min backoff (refetchSettle * 2 ^ nat shift) else backoff)
      else 0)"

definition waitRefetch :: "memPiece \<Rightarrow> wait_env \<Rightarrow> int \<Rightarrow> memPiece \<times> int" where
  "waitRefetch mp e backoff =
     (if backoff \<le> 0 then (mp, 0)
      else
        (let last = evictedAt mp;
             mp = (if last \<noteq> 0 \<and> nowStart e - last > backoff then mp\<lparr>evictedReads := 0\<rparr> else mp);
             reads = i32 (evictedReads mp + 1);
             mp = mp\<lparr>evictedReads := reads, evictedAt := nowEnd e\<rparr>
         in case doneCh e of
              None \<Rightarrow> (mp, backoff)
            | Some d \<Rightarrow>
                (mp, (case d of None \<Rightarrow> backoff | Some t \<Rightarrow> min (max 0 t) backoff) + wait_floor reads backoff)))"

text \<open>\<open>ReadAt\<close> into a buffer of length \<open>n\<close>: the bytes copied, the error, and the new store.\<close>

definition ReadAt :: "memStorage \<Rightarrow> nat \<Rightarrow> nat \<Rightarrow> int \<Rightarrow> wait_env \<Rightarrow>
    (byte list \<times> mem_err option) \<times> memStorage" where
  "ReadAt s p n off e =
     (case pdata (piece s p) of
        Some d \<Rightarrow>
          if 0 \<le> off \<and> off < plength (piece s p) then
            (let bs = take n (take (nat (plength (piece s p) - off)) (drop (nat off) d))
             in ((bs, if length bs < n then Some EOF else None), stamp s p))
          else (([], Some (if off < 0 then errNegativeOffset else EOF)), s)
      | None \<Rightarrow>
          if off < 0 then (([], Some errNegativeOffset), s)
          else
            (([], Some errPieceEvicted),
             if refetchSet s then updp s p (\<lambda>mp. fst (waitRefetch mp e (refetchBackoff s))) else s))"

text \<open>\<open>WriteTo\<close>. The piece lock is released between chunks, so the \<open>i\<close>-th iteration sees its own snapshot
  \<open>obs i\<close> of the buffer. The writer is a parameter: what it accepts of the \<open>i\<close>-th chunk and whether it
  fails. The result is the count, what was handed to the writer and accepted, and the error.\<close>

definition writeToChunk :: nat where "writeToChunk = 65536"

function writeToLoop :: "int \<Rightarrow> (nat \<Rightarrow> byte list option) \<Rightarrow> (nat \<Rightarrow> byte list \<Rightarrow> nat \<times> bool) \<Rightarrow>
    nat \<Rightarrow> int \<Rightarrow> byte list \<Rightarrow> (mem_err, int \<times> byte list \<times> mem_err option) outcome" where
  "writeToLoop len obs w i tot out =
     (if tot < len then
        (case obs i of
           None \<Rightarrow> Ok (tot, out, Some errPieceEvicted)
         | Some d \<Rightarrow>
             bnd (slice d tot len) (\<lambda>rest.
               let chunk = take writeToChunk rest;
                   (wn, fails) = w i chunk;
                   tot' = tot + int wn;
                   out' = out @ take wn chunk
               in if fails then Ok (tot', out', Some ErrWrite)
                  else if wn < length chunk then Ok (tot', out', Some ErrShortWrite)
                  else writeToLoop len obs w (i + 1) tot' out'))
      else Ok (tot, out, None))"
  by pat_completeness auto
termination
  by (relation "measure (\<lambda>(len, obs, w, i, tot, out). nat (len - tot))")
     (auto simp: slice_def writeToChunk_def split: if_splits)

declare writeToLoop.simps [simp del]

definition WriteTo :: "int \<Rightarrow> (nat \<Rightarrow> byte list option) \<Rightarrow> (nat \<Rightarrow> byte list \<Rightarrow> nat \<times> bool) \<Rightarrow>
    (mem_err, int \<times> byte list \<times> mem_err option) outcome" where
  "WriteTo len obs w = writeToLoop len obs w 0 0 []"

section \<open>Completion\<close>

definition markStamp :: "memStorage \<Rightarrow> nat \<Rightarrow> memStorage" where
  "markStamp s p =
     updp (s\<lparr>tick := tick s + 1\<rparr>) p
       (\<lambda>mp. mp\<lparr>complete := True, lastUsed := tick s + 1, key := tick s + 1\<rparr>)"

definition MarkComplete :: "memStorage \<Rightarrow> nat \<Rightarrow> mem_err option \<times> memStorage" where
  "MarkComplete s p =
     (if pdata (piece s p) = None then (Some errPieceEvicted, s)
      else
        (let s = markStamp s p;
             s = (if lruIdx (piece s p) \<ge> 0 then heapFix s (nat (lruIdx (piece s p))) else heapPush s p);
             s = updp s p (\<lambda>mp. mp\<lparr>evictedReads := 0\<rparr>)
         in (None, evictLocked s 0 (Some p))))"

definition MarkNotComplete :: "memStorage \<Rightarrow> nat \<Rightarrow> memStorage" where
  "MarkNotComplete s p =
     (let s = updp s p (\<lambda>mp. mp\<lparr>complete := False\<rparr>)
      in if lruIdx (piece s p) \<ge> 0 then snd (heapRemove s (nat (lruIdx (piece s p)))) else s)"

definition Completion :: "memStorage \<Rightarrow> nat \<Rightarrow> bool \<times> bool" where
  "Completion s p = (True, complete (piece s p) \<and> pdata (piece s p) \<noteq> None)"

section \<open>Every operation keeps the store invariant\<close>

definition minv :: "nat set \<Rightarrow> memStorage \<Rightarrow> bool" where
  "minv A s \<longleftrightarrow> minvK A {} s \<and> 0 \<le> tick s"

text \<open>Operations that leave the LRU and the accounting alone.\<close>

lemma inv_frame:
  assumes inv: "minvK A K s"
    and same: "lru t = lru s" "npiece t = npiece s" "usedB t = usedB s"
      "\<And>p. key (piece t p) = key (piece s p)" "\<And>p. lruIdx (piece t p) = lruIdx (piece s p)"
      "\<And>p. complete (piece t p) = complete (piece s p)" "\<And>p. plength (piece t p) = plength (piece s p)"
      "\<And>p. map_option length (pdata (piece t p)) = map_option length (pdata (piece s p))"
    and lu: "\<And>p. lastUsed (piece s p) \<le> lastUsed (piece t p)" "\<And>p. lastUsed (piece t p) \<le> tick t"
  shows "minvK A K t"
proof -
  have d: "pdata (piece t p) = None \<longleftrightarrow> pdata (piece s p) = None" for p
    using same(8) [of p] by (cases "pdata (piece t p)"; cases "pdata (piece s p)") auto
  have len: "int (length d) = plength (piece s p) \<and> p < npiece s" if td: "pdata (piece t p) = Some d" for p d
  proof -
    obtain d' where "pdata (piece s p) = Some d'" "length d' = length d"
      using td same(8) [of p] by (cases "pdata (piece s p)") auto
    with inv show ?thesis unfolding minvK_def by metis
  qed
  have r: "resident t = resident s" by (simp add: fun_eq_iff resident_def d same)
  have g: "lruh.good t" using inv same by (subst good_cong [of t s]) (auto simp: minvK_def)
  have k: "key (piece t p) \<le> lastUsed (piece t p)" if "key (piece s p) \<le> lastUsed (piece s p)" for p
    using order_trans [OF that lu(1)] by (simp add: same)
  have "lru_lower t" "\<forall>p \<in> K. key (piece t p) \<le> lastUsed (piece t p)"
    using inv k unfolding minvK_def lru_lower_def same by blast+
  with inv g r len lu(2) show ?thesis unfolding minvK_def same d by presburger
qed

lemma copy_at_length: "off \<le> length d \<Longrightarrow> length (copy_at d off b) = length d"
  by (auto simp: copy_at_def)

lemma store_inv:
  assumes "minvK A K s" "0 \<le> off" "off < plength (piece s p)"
  shows "minvK A K (snd (store_bytes s p b off))"
proof (cases "pdata (piece s p)")
  case None
  with assms show ?thesis by (simp add: store_bytes_def)
next
  case (Some d)
  then have "int (length d) = plength (piece s p)" using assms(1) by (auto simp: minvK_def)
  then have "nat off \<le> length d" using assms by linarith
  with Some assms(1) show ?thesis
    by (intro inv_frame [OF assms(1)]) (auto simp: store_bytes_def copy_at_length minvK_def)
qed

lemma stamp_inv: "minvK A K s \<Longrightarrow> minvK A K (stamp s p)"
  by (rule inv_frame [of A K s]) (auto simp: stamp_def minvK_def intro: order_trans add_increasing2)

lemma waitRefetch_frame:
  "key (fst (waitRefetch mp e b)) = key mp" "lruIdx (fst (waitRefetch mp e b)) = lruIdx mp"
  "complete (fst (waitRefetch mp e b)) = complete mp" "plength (fst (waitRefetch mp e b)) = plength mp"
  "pdata (fst (waitRefetch mp e b)) = pdata mp" "lastUsed (fst (waitRefetch mp e b)) = lastUsed mp"
  by (auto simp: waitRefetch_def Let_def split: option.splits)

lemma inv_tick: "minvK A K s \<Longrightarrow> lastUsed (piece s p) \<le> tick s"
  by (simp add: minvK_def)

lemma read_inv:
  assumes "minvK A K s"
  shows "minvK A K (snd (ReadAt s p n off e))"
proof -
  have "minvK A K (updp s p (\<lambda>mp. fst (waitRefetch mp e (refetchBackoff s))))"
    by (rule inv_frame [OF assms]) (auto simp: waitRefetch_frame inv_tick [OF assms])
  with assms show ?thesis
    by (auto simp: ReadAt_def Let_def stamp_inv split: option.splits)
qed

lemma reserve_inv:
  assumes inv: "minvK A {} s" and p: "p < npiece s" "pdata (piece s p) = None" "p \<notin> A"
  shows "minvK (insert p A) {} (lockResident_reserve s p)"
proof -
  let ?t = "evictLocked s (plength (piece s p)) None"
  note e = evictLocked_post [OF inv, where need = "plength (piece s p)" and keep = None]
  have np: "p \<notin> set (lru s)" using inv p(2) unfolding minvK_def by blast
  have "finite A" using inv by (intro finite_subset [of A "{..<npiece s}"]) (auto simp: minvK_def)
  moreover have "pdata (piece ?t p) = None" using e(7) np p(2) by simp
  moreover have "lruh.good (?t\<lparr>usedB := u\<rparr>) = lruh.good ?t" for u by (rule good_cong) simp_all
  moreover have "resident (?t\<lparr>usedB := u\<rparr>) = resident ?t" for u by (simp add: fun_eq_iff resident_def)
  ultimately show ?thesis
    using e(1) p e(5) unfolding minvK_def lockResident_reserve_def reserve_def Let_def
    by (simp add: lru_lower_def e(9))
qed

lemma install_inv:
  assumes inv: "minvK A {} s" and p: "p \<in> A" "int (length buf) = plength (piece s p)"
  shows "minvK (A - {p}) {} (lockResident_install s p buf)"
proof -
  let ?t = "lockResident_install s p buf"
  have np: "pdata (piece s p) = None" "p < npiece s" using inv p by (auto simp: minvK_def)
  have fin: "finite A" using inv by (intro finite_subset [of A "{..<npiece s}"]) (auto simp: minvK_def)
  have sel: "lru ?t = lru s" "npiece ?t = npiece s" "usedB ?t = usedB s" "tick ?t = tick s"
    "key (piece ?t q) = key (piece s q)" "lruIdx (piece ?t q) = lruIdx (piece s q)"
    "complete (piece ?t q) = complete (piece s q)" "plength (piece ?t q) = plength (piece s q)"
    "pdata (piece ?t q) = (if q = p then Some buf else pdata (piece s q))"
    "lastUsed (piece ?t q) = lastUsed (piece s q)" for q
    by (simp_all add: lockResident_install_def)
  have g: "lruh.good ?t" using inv by (subst good_cong [of ?t s]) (auto simp: minvK_def sel)
  have "sum (resident ?t) {..<npiece s} = sum (resident s) {..<npiece s} + plength (piece s p)"
    using np by (intro sum_change_one [where i = p]) (auto simp: resident_def sel)
  moreover have "sum (\<lambda>p. plength (piece s p)) A = plength (piece s p) + sum (\<lambda>p. plength (piece s p)) (A - {p})"
    using fin p(1) by (rule sum.remove)
  ultimately have u: "usedB s = sum (resident ?t) {..<npiece s} + sum (\<lambda>p. plength (piece s p)) (A - {p})"
    using inv by (simp add: minvK_def)
  show ?thesis
    using inv g u p(2) np(2) unfolding minvK_def lru_lower_def by (auto simp: sel)
qed

text \<open>Pushing a complete piece into the LRU, or refreshing its key there.\<close>

lemma mark_good:
  fixes p :: nat
  assumes inv: "minvK A {} s"
  defines "u \<equiv> markStamp s p"
  defines "t \<equiv> (if lruIdx (piece u p) \<ge> 0 then heapFix u (nat (lruIdx (piece u p))) else heapPush u p)"
  shows "lruh.good t" "core t = core u" "\<And>q. key (piece t q) = key (piece u q)"
    "set (lru t) = insert p (set (lru s))"
proof -
  have g: "lruh.good s" "lru_sync s" using inv by (auto simp: minvK_def lruh.good_def)
  have ul: "lru u = lru s" "\<And>q. lruIdx (piece u q) = lruIdx (piece s q)"
    "\<And>q. q \<noteq> p \<Longrightarrow> key (piece u q) = key (piece s q)"
    by (auto simp: u_def markStamp_def)
  have su: "lru_sync u" using g(2) by (simp add: lru_sync_def ul)
  have "lruh.good t \<and> lru_rest t = lru_rest u \<and> (\<lambda>q. key (piece t q)) = (\<lambda>q. key (piece u q)) \<and>
      set (lru t) = insert p (set (lru s))"
  proof (cases "lruIdx (piece s p) \<ge> 0")
    case True
    let ?i = "nat (lruIdx (piece s p))"
    note i = sync_idx [OF g(2) True]
    have t: "t = heapFix u ?i" using True by (simp add: t_def ul)
    have "heap_ex (lruh.vals u) ?i (length (lru s))"
      using i g inv_distinct [OF inv] ul by (intro lruh.rekey_ex [of s]) auto
    then have "lruh.good t" unfolding t using i su by (intro lruh.fix_law) (auto simp: ul)
    moreover have sf: "lruh.sifted (length (lru u)) u t"
      unfolding t by (rule lruh.fix_sifted) (use i ul in simp)
    moreover have "insert p (set (lru s)) = set (lru s)" using i nth_mem by fastforce
    moreover have "set (lru t) = set (lru s)"
      using ul(1) sf by (auto simp: lruh.sifted_def dest: mset_eq_setD)
    ultimately show ?thesis by (simp add: lruh.sifted_def)
  next
    case False
    then have np: "p \<notin> set (lru s)" using sync_mem [OF g(2)] by simp
    have t: "t = heapPush u p" using False by (simp add: t_def ul)
    have "key (piece u q) = key (piece s q)" if "q \<in> set (lru s)" for q using np ul that by metis
    then have "lruh.vals u = lruh.vals s" by (simp add: lruh.vals_def ul)
    then have gu: "lruh.good u" using g su by (simp add: lruh.good_def ul)
    have "p \<notin> set (lru u)" using np ul by simp
    note pl = lruh.push_law [OF gu this, folded t]
    have "set (lru t) = insert p (set (lru u))"
      using arg_cong [OF pl(2), of set_mset] by simp
    with pl show ?thesis by (simp add: ul)
  qed
  then show "lruh.good t" "core t = core u" "\<And>q. key (piece t q) = key (piece u q)"
    "set (lru t) = insert p (set (lru s))"
    by (auto intro: rest_core dest: fun_cong)
qed

lemma mark_inv:
  assumes inv: "minvK A {} s" and d: "pdata (piece s p) \<noteq> None"
  defines "u \<equiv> markStamp s p"
  defines "t \<equiv> (if lruIdx (piece u p) \<ge> 0 then heapFix u (nat (lruIdx (piece u p))) else heapPush u p)"
  defines "w \<equiv> updp t p (\<lambda>mp. mp\<lparr>evictedReads := 0\<rparr>)"
  shows "minvK A {} w" "set (lru w) = insert p (set (lru s))" "capacity w = capacity s"
    "npiece w = npiece s" "tick w = tick s + 1" "torrent w = torrent s"
    "\<And>q. pdata (piece w q) = pdata (piece s q)"
    "\<And>q. lastUsed (piece w q) = (if q = p then tick s + 1 else lastUsed (piece s q))"
proof -
  note m = mark_good [OF inv, of p, folded u_def, folded t_def]
  note c = core_eqD [OF m(2)]
  have w: "lru w = lru t" "capacity w = capacity s" "npiece w = npiece s" "tick w = tick s + 1"
    "torrent w = torrent s" "usedB w = usedB s"
    "key (piece w q) = (if q = p then tick s + 1 else key (piece s q))"
    "lruIdx (piece w q) = lruIdx (piece t q)" "pdata (piece w q) = pdata (piece s q)"
    "complete (piece w q) = (q = p \<or> complete (piece s q))" "plength (piece w q) = plength (piece s q)"
    "lastUsed (piece w q) = (if q = p then tick s + 1 else lastUsed (piece s q))" for q
    by (auto simp: w_def c m(3)) (auto simp: u_def markStamp_def)
  have gw: "lruh.good w" using m(1) by (subst good_cong [of w t]) (auto simp: w_def)
  have "resident w = resident s" by (simp add: fun_eq_iff resident_def w)
  moreover have "lru_lower w"
    using inv by (auto simp: lru_lower_def minvK_def w m(4))
  moreover have "lastUsed (piece s q) \<le> tick s + 1" for q using inv_tick [OF inv, of q] by simp
  ultimately show "minvK A {} w"
    using inv gw d unfolding minvK_def by (simp add: w m(4))
  show "set (lru w) = insert p (set (lru s))" "capacity w = capacity s" "npiece w = npiece s"
    "tick w = tick s + 1" "torrent w = torrent s" "\<And>q. pdata (piece w q) = pdata (piece s q)"
    "\<And>q. lastUsed (piece w q) = (if q = p then tick s + 1 else lastUsed (piece s q))"
    by (simp_all add: w m(4))
qed

lemma markComplete_inv:
  assumes "minvK A {} s"
  shows "minvK A {} (snd (MarkComplete s p))"
proof (cases "pdata (piece s p) = None")
  case False
  show ?thesis
    unfolding MarkComplete_def Let_def if_not_P [OF False] snd_conv
    by (rule evictLocked_post(1), rule mark_inv(1) [OF assms False])
qed (use assms in \<open>simp add: MarkComplete_def\<close>)

lemma markNotComplete_inv:
  assumes inv: "minvK A {} s"
  shows "minvK A {} (MarkNotComplete s p)"
proof -
  let ?u = "updp s p (\<lambda>mp. mp\<lparr>complete := False\<rparr>)"
  let ?t = "MarkNotComplete s p"
  have g: "lruh.good s" "lru_sync s" using inv by (auto simp: minvK_def lruh.good_def)
  have gu: "lruh.good ?u" using g by (subst good_cong [of ?u s]) auto
  have ul: "lru ?u = lru s" "\<And>q. lruIdx (piece ?u q) = lruIdx (piece s q)"
    "\<And>q. key (piece ?u q) = key (piece s q)" by auto
  have t: "lruh.good ?t \<and> core ?t = core ?u \<and> (\<forall>q. key (piece ?t q) = key (piece s q)) \<and>
      set (lru ?t) = set (lru s) - {p}"
  proof (cases "lruIdx (piece s p) \<ge> 0")
    case True
    let ?i = "nat (lruIdx (piece s p))"
    note i = sync_idx [OF g(2) True]
    have "?i < length (lru ?u)" using i by simp
    note r = lruh.remove_law [OF gu this]
    have tt: "?t = snd (heapRemove ?u ?i)" using True by (simp add: MarkNotComplete_def Let_def)
    have "set (lru ?t) = set (lru s) - {p}"
      using mset_remove_set [OF inv_distinct [OF inv], of p "lru ?t"] r(3) i by (simp add: tt)
    moreover have "key (piece ?t q) = key (piece s q)" for q
      using fun_cong [OF r(4), of q] unfolding tt ul(3) .
    moreover have "core ?t = core ?u" unfolding tt by (rule rest_core [OF r(5)])
    ultimately show ?thesis using r(2) by (simp add: tt)
  next
    case False
    then have "p \<notin> set (lru s)" "?t = ?u" using sync_mem [OF g(2)] by (auto simp: MarkNotComplete_def)
    with gu show ?thesis by simp
  qed
  then have gt: "lruh.good ?t" and c: "core ?t = core ?u" and k: "\<And>q. key (piece ?t q) = key (piece s q)"
    and l: "set (lru ?t) = set (lru s) - {p}" by auto
  have w: "npiece ?t = npiece s" "usedB ?t = usedB s" "tick ?t = tick s"
    "pdata (piece ?t q) = pdata (piece s q)" "plength (piece ?t q) = plength (piece s q)"
    "lastUsed (piece ?t q) = lastUsed (piece s q)" "complete (piece ?t q) = (q \<noteq> p \<and> complete (piece s q))" for q
    by (auto simp: core_eqD [OF c])
  have "resident ?t = resident s" by (simp add: fun_eq_iff resident_def w)
  moreover have "lru_lower ?t" using inv by (auto simp: minvK_def lru_lower_def l k w)
  ultimately show ?thesis using inv gt unfolding minvK_def by (simp add: w l) blast
qed

lemma drop_inv:
  assumes inv: "minvK A {} s"
  shows "minvK A {} (dropLocked s p)"
proof (cases "p \<in> A")
  case True
  then have n: "pdata (piece s p) = None" "p \<notin> set (lru s)" using inv inv_A_lru [OF inv] by (auto simp: minvK_def)
  moreover have "lru_sync s" "\<not> complete (piece s p)" using inv n by (auto simp: minvK_def lruh.good_def)
  ultimately have "dropLocked s p = freeLocked s p" using sync_mem by (auto simp: dropLocked_def)
  with \<open>\<not> complete (piece s p)\<close> n show ?thesis
    by (intro inv_frame [OF inv]) (auto simp: resident_def inv_tick [OF inv])
next
  case False
  have g: "lru_sync s" using inv by (simp add: minvK_def lruh.good_def)
  show ?thesis
  proof (cases "lruIdx (piece s p) \<ge> 0")
    case True
    note r = remove_known [OF inv True]
    from True have e: "dropLocked s p = freeLocked (snd (heapRemove s (nat (lruIdx (piece s p))))) p"
      by (simp add: dropLocked_def Let_def)
    show ?thesis unfolding e by (rule free_inv [OF inv r(1-4)]) (use \<open>p \<notin> A\<close> in auto)
  next
    case no: False
    then have "p \<notin> set (lru s)" using sync_mem [OF g] by simp
    moreover have "dropLocked s p = freeLocked s p" using no by (simp add: dropLocked_def)
    moreover have "minvK A {} (freeLocked s p)"
      by (rule free_inv [OF inv refl]) (use inv \<open>p \<notin> A\<close> \<open>p \<notin> set (lru s)\<close> in \<open>auto simp: minvK_def\<close>)
    ultimately show ?thesis by simp
  qed
qed

lemma closeTorrent_inv:
  assumes "minvK A {} s"
  shows "minvK A {} (closeTorrent s t)"
proof -
  have "minvK A {} (fold (\<lambda>slot s. case slot of None \<Rightarrow> s | Some p \<Rightarrow> dropLocked s p) sl s)" for sl
    using assms by (induction sl arbitrary: s) (auto simp: drop_inv split: option.splits)
  then show ?thesis by (simp add: closeTorrent_def)
qed

text \<open>\<open>Close\<close> relies on its callers: every torrent was closed before, so only LRU pieces are resident and
  no writer is between its two steps.\<close>

lemma close_fold:
  fixes ps :: "nat list"
  defines "f \<equiv> fold (\<lambda>p s. updp s p (\<lambda>mp. mp\<lparr>lruIdx := -1, pdata := None, complete := False\<rparr>)) ps"
  shows "npiece (f s) = npiece s" "tick (f s) = tick s" "capacity (f s) = capacity s"
    "torrent (f s) = torrent s"
    "piece (f s) q = (if q \<in> set ps then (piece s q)\<lparr>lruIdx := -1, pdata := None, complete := False\<rparr> else piece s q)"
  unfolding f_def by (induction ps arbitrary: s) auto

lemma closeStorage_inv:
  assumes inv: "minvK {} {} s" and closed: "\<forall>p. pdata (piece s p) \<noteq> None \<longrightarrow> p \<in> set (lru s)"
  shows "minvK {} {} (closeStorage s)" "usedB (closeStorage s) = 0"
    "\<forall>p. pdata (piece (closeStorage s) p) = None"
proof -
  let ?t = "closeStorage s"
  have sync: "lru_sync s" using inv by (simp add: minvK_def lruh.good_def)
  have p: "piece ?t q = (if q \<in> set (lru s) then (piece s q)\<lparr>lruIdx := -1, pdata := None, complete := False\<rparr>
      else piece s q)" for q by (simp add: closeStorage_def Let_def close_fold)
  show n: "\<forall>p. pdata (piece ?t p) = None" using closed by (auto simp: p)
  have l: "lru ?t = []" "npiece ?t = npiece s" "tick ?t = tick s"
    by (simp_all add: closeStorage_def Let_def close_fold)
  show u: "usedB ?t = 0" by (simp add: closeStorage_def Let_def)
  have "lruh.good ?t" using sync
    by (auto simp: lruh.good_def lru_sync_def l p lruh.vals_def heapn_def)
  moreover have "sum (resident ?t) {..<npiece s} = 0" using n by (simp add: resident_def)
  ultimately show "minvK {} {} ?t"
    using inv n u unfolding minvK_def by (simp add: l lru_lower_def p)
qed

lemma getPiece_inv:
  assumes inv: "minv A s" and len: "0 \<le> len" and r: "getPiece s t i len = Ok (p, s')"
  shows "minv A s'"
proof (cases "slots (torrent s t) ! i")
  case (Some q)
  with r inv show ?thesis by (simp add: getPiece_def split: if_splits)
next
  case None
  have i: "minvK A {} s" "0 \<le> tick s" using inv by (auto simp: minv_def)
  have nn: "pdata (piece s (npiece s)) = None" "npiece s \<notin> set (lru s)" "npiece s \<notin> A"
    using i(1) unfolding minvK_def by (metis less_irrefl not_Some_eq, metis UnI1 less_irrefl not_Some_eq, blast)
  have x: "lruIdx (piece s (npiece s)) = -1" using i nn(2) by (auto simp: minvK_def lruh.good_def lru_sync_def)
  have s': "lru s' = lru s" "npiece s' = npiece s + 1" "tick s' = tick s" "usedB s' = usedB s"
    "q \<noteq> npiece s \<Longrightarrow> piece s' q = piece s q"
    "piece s' (npiece s) = \<lparr>mt = t, pindex = i, plength = len, pdata = None, complete = False, lastUsed = 0,
       key = 0, lruIdx = -1, evictedReads = 0, evictedAt = 0\<rparr>" for q
    using r None by (auto simp: getPiece_def Let_def split: if_splits)
  have k: "key (piece s' q) = key (piece s q)" if "q \<in> set (lru s)" for q using that nn(2) s'(5) by metis
  have ix: "lruIdx (piece s' q) = lruIdx (piece s q)" for q by (cases "q = npiece s") (auto simp: s' x)
  have np: "piece s' q = (if q = npiece s then piece s' (npiece s) else piece s q)" for q
    by (simp add: s'(5))
  have g: "lruh.good s'"
    using i(1) by (simp add: minvK_def lruh.good_def lru_sync_def lruh.vals_def ix s'(1) k cong: map_cong)
  have "resident s' q = resident s q" for q by (cases "q = npiece s") (auto simp: resident_def s' nn)
  then have "sum (resident s') {..<npiece s'} = sum (resident s) {..<npiece s}"
    by (simp add: s'(2) resident_def nn)
  moreover have "sum (\<lambda>p. plength (piece s' p)) A = sum (\<lambda>p. plength (piece s p)) A"
    using nn(3) s'(5) by (intro sum.cong) metis+
  moreover have "lru_lower s'" using i(1) k s'(1,5) nn(2) unfolding minvK_def lru_lower_def by metis
  moreover have "complete (piece s' q) \<longleftrightarrow> q \<in> set (lru s')" for q
    using i(1) nn(2) by (subst np) (simp add: s'(1,6) minvK_def)
  moreover have "pdata (piece s' q) \<noteq> None" if "q \<in> set (lru s')" for q
    using i(1) nn(2) that by (subst np) (auto simp: s'(1,6) minvK_def)
  moreover have "lastUsed (piece s' q) \<le> tick s'" "0 \<le> plength (piece s' q)" for q
    using i len by (subst np, simp add: s'(3,6) minvK_def)+
  moreover have "int (length d) = plength (piece s' q) \<and> q < npiece s'" if "pdata (piece s' q) = Some d" for q d
    using i(1) that np [of q] by (auto simp: s'(2,6) minvK_def less_Suc_eq split: if_splits)
  moreover have "q < npiece s' \<and> pdata (piece s' q) = None" if "q \<in> A" for q
    using i(1) that np [of q] by (auto simp: s'(2,6) minvK_def)
  ultimately show ?thesis
    using g i s'(3,4) unfolding minv_def minvK_def by simp
qed

section \<open>The store as a state machine\<close>

record msys =
  store :: memStorage
  allocating :: "nat set"

text \<open>Piece lengths come from the torrent metainfo and are not negative; \<open>getPieceBuf\<close> returns a buffer of
  exactly the piece's length.\<close>

inductive mem_step :: "msys \<Rightarrow> msys \<Rightarrow> bool" where
  m_open: "mem_step m (m\<lparr>store := snd (OpenTorrent (store m) ih n)\<rparr>)"
| m_piece: "getPiece (store m) t i len = Ok (p, s') \<Longrightarrow> 0 \<le> len \<Longrightarrow> mem_step m (m\<lparr>store := s'\<rparr>)"
| m_read: "mem_step m (m\<lparr>store := snd (ReadAt (store m) p n off e)\<rparr>)"
| m_write: "write_check (store m) p off = None \<Longrightarrow> pdata (piece (store m) p) \<noteq> None \<Longrightarrow>
    mem_step m (m\<lparr>store := snd (store_bytes (store m) p b off)\<rparr>)"
| m_reserve: "write_check (store m) p off = None \<Longrightarrow> pdata (piece (store m) p) = None \<Longrightarrow>
    p < npiece (store m) \<Longrightarrow> p \<notin> allocating m \<Longrightarrow>
    mem_step m (m\<lparr>store := lockResident_reserve (store m) p, allocating := insert p (allocating m)\<rparr>)"
| m_install: "p \<in> allocating m \<Longrightarrow> write_check (store m) p off = None \<Longrightarrow>
    int (length buf) = plength (piece (store m) p) \<Longrightarrow>
    mem_step m (m\<lparr>store := snd (store_bytes (lockResident_install (store m) p buf) p b off),
      allocating := allocating m - {p}\<rparr>)"
| m_complete: "mem_step m (m\<lparr>store := snd (MarkComplete (store m) p)\<rparr>)"
| m_notComplete: "mem_step m (m\<lparr>store := MarkNotComplete (store m) p\<rparr>)"
| m_closeTorrent: "mem_step m (m\<lparr>store := closeTorrent (store m) t\<rparr>)"
| m_close: "allocating m = {} \<Longrightarrow> \<forall>p. pdata (piece (store m) p) \<noteq> None \<longrightarrow> p \<in> set (lru (store m)) \<Longrightarrow>
    mem_step m (m\<lparr>store := closeStorage (store m)\<rparr>)"

definition mem_start :: "msys \<Rightarrow> bool" where
  "mem_start m \<longleftrightarrow> allocating m = {} \<and> (\<exists>cap hook. store m = (newMemStorage cap)\<lparr>refetchSet := hook\<rparr>)"

lemma stamp_tick: "tick s \<le> tick (stamp s p)"
  by (simp add: stamp_def)

lemma drop_tick:
  assumes "minvK A {} s"
  shows "tick (dropLocked s p) = tick s"
proof (cases "lruIdx (piece s p) \<ge> 0")
  case True
  with core_eqD(3) [OF remove_known(1) [OF assms True]] show ?thesis by (simp add: dropLocked_def Let_def)
qed (simp add: dropLocked_def)

lemma closeTorrent_tick: "minvK A {} s \<Longrightarrow> tick (closeTorrent s t) = tick s"
proof -
  have "tick (fold (\<lambda>slot s. case slot of None \<Rightarrow> s | Some p \<Rightarrow> dropLocked s p) sl s) = tick s"
    if "minvK A {} s" for sl s
    using that by (induction sl arbitrary: s) (auto simp: drop_inv drop_tick split: option.splits)
  then show "minvK A {} s \<Longrightarrow> tick (closeTorrent s t) = tick s" by (simp add: closeTorrent_def)
qed

lemma markComplete_tick: "minvK A {} s \<Longrightarrow> tick s \<le> tick (snd (MarkComplete s p))"
proof (cases "pdata (piece s p) = None")
  case False
  assume inv: "minvK A {} s"
  show ?thesis
    unfolding MarkComplete_def Let_def if_not_P [OF False] snd_conv
    using evictLocked_post(4) [OF mark_inv(1) [OF inv False], of 0 "Some p"] mark_inv(5) [OF inv False]
    by simp
qed (simp add: MarkComplete_def)

lemma markNotComplete_tick: "minvK A {} s \<Longrightarrow> tick (MarkNotComplete s p) = tick s"
proof -
  assume inv: "minvK A {} s"
  let ?u = "updp s p (\<lambda>mp. mp\<lparr>complete := False\<rparr>)"
  have gu: "lruh.good ?u" using inv by (subst good_cong [of ?u s]) (auto simp: minvK_def)
  have "tick (MarkNotComplete s p) = tick ?u"
  proof (cases "lruIdx (piece s p) \<ge> 0")
    case True
    have "nat (lruIdx (piece s p)) < length (lru ?u)"
      using sync_idx [OF _ True] inv by (simp add: minvK_def lruh.good_def)
    note r = lruh.remove_law(5) [OF gu this]
    show ?thesis using core_eqD(3) [OF rest_core [OF r]] True by (simp add: MarkNotComplete_def Let_def)
  qed (simp add: MarkNotComplete_def)
  then show ?thesis by simp
qed

lemma step_ticks [simp]:
  "tick (snd (store_bytes s p b off)) = tick s" "tick (closeStorage s) = tick s"
  by (simp_all add: store_bytes_def closeStorage_def Let_def close_fold split: option.splits)

lemma start_inv: "minv {} ((newMemStorage cap)\<lparr>refetchSet := hook\<rparr>)"
  by (auto simp: minv_def minvK_def newMemStorage_def no_piece_def lruh.good_def lru_sync_def lruh.vals_def
      heapn_def lru_lower_def resident_def)

lemma write_check_None: "write_check s p off = None \<longleftrightarrow> 0 \<le> off \<and> off < plength (piece s p)"
  by (auto simp: write_check_def)

lemma open_inv: "minv A s \<Longrightarrow> minv A (snd (OpenTorrent s ih n))"
proof -
  assume "minv A s"
  then have i: "minvK A {} s" "0 \<le> tick s" by (auto simp: minv_def)
  have "minvK A {} (snd (OpenTorrent s ih n))"
    by (rule inv_frame [OF i(1)]) (auto simp: OpenTorrent_def inv_tick [OF i(1)])
  with i show ?thesis by (simp add: minv_def OpenTorrent_def)
qed

lemma mem_step_inv:
  assumes "mem_step m m'" "minv (allocating m) (store m)"
  shows "minv (allocating m') (store m')"
  using assms
proof (cases rule: mem_step.cases)
  case (m_piece t i len p s')
  with assms(2) show ?thesis by (simp add: getPiece_inv)
next
  case (m_read p n off e)
  have "tick (store m) \<le> tick (snd (ReadAt (store m) p n off e))"
    by (auto simp: ReadAt_def Let_def stamp_tick split: option.splits)
  with assms(2) m_read show ?thesis by (simp add: minv_def read_inv)
next
  case (m_reserve p off)
  have "minvK (allocating m) {} (store m)" using assms(2) by (simp add: minv_def)
  note tk = evictLocked_post(4) [OF this, of "plength (piece (store m) p)" None]
  have "tick (store m') = tick (store m)"
    using m_reserve by (simp add: lockResident_reserve_def reserve_def Let_def tk)
  with assms(2) m_reserve show ?thesis by (simp add: minv_def reserve_inv)
next
  case (m_install p off buf b)
  let ?i = "lockResident_install (store m) p buf"
  have "plength (piece ?i p) = plength (piece (store m) p)" "tick ?i = tick (store m)"
    by (simp_all add: lockResident_install_def)
  moreover have "minvK (allocating m - {p}) {} ?i"
    using assms(2) m_install by (intro install_inv) (auto simp: minv_def)
  ultimately show ?thesis
    using assms(2) m_install store_inv [of "allocating m - {p}" "{}" ?i off p b]
    by (auto simp: minv_def write_check_None)
qed (auto simp: minv_def store_inv write_check_None markComplete_inv markNotComplete_inv closeTorrent_inv
    closeStorage_inv markNotComplete_tick closeTorrent_tick open_inv [unfolded minv_def]
    intro: order_trans markComplete_tick)

interpretation mem_sys: inv_system mem_start mem_step "\<lambda>m. minv (allocating m) (store m)"
proof unfold_locales
  fix m assume "mem_start m"
  then show "minv (allocating m) (store m)" using start_inv by (force simp: mem_start_def)
qed (rule mem_step_inv)

abbreviation mem_reach :: "msys \<Rightarrow> bool" where
  "mem_reach \<equiv> reach mem_start mem_step"

lemma reach_minvK: "mem_reach m \<Longrightarrow> minvK (allocating m) {} (store m)"
  using mem_sys.reach_inv by (simp add: minv_def)

section \<open>Properties\<close>

text \<open>C4: In every reachable state of the in-RAM store the budget counter is exactly the bytes of the resident
  pieces plus the bytes reserved by first writers that have not yet installed their buffer; a piece is
  complete exactly when it is in the LRU; every complete piece is resident with a buffer of its full
  length; and the recorded LRU positions are the real ones.\<close>

theorem mem_accounting:
  assumes "mem_reach m"
  shows "usedB (store m) = (\<Sum>p<npiece (store m). resident (store m) p) +
           (\<Sum>p\<in>allocating m. plength (piece (store m) p)) \<and>
         (\<forall>p. complete (piece (store m) p) \<longleftrightarrow> p \<in> set (lru (store m))) \<and>
         (\<forall>p. complete (piece (store m) p) \<longrightarrow>
            (\<exists>d. pdata (piece (store m) p) = Some d \<and> int (length d) = plength (piece (store m) p))) \<and>
         distinct (lru (store m)) \<and>
         (\<forall>i<length (lru (store m)). lruIdx (piece (store m) (lru (store m) ! i)) = int i)"
proof -
  have inv: "minvK (allocating m) {} (store m)" by (rule reach_minvK [OF assms])
  then have "lru_sync (store m)" by (simp add: minvK_def lruh.good_def)
  with inv show ?thesis unfolding minvK_def lru_sync_def by force
qed

text \<open>C5: Making room for a first write (\<open>reserve\<close>, \<open>evictLocked\<close>, \<open>popOldestLocked\<close>): afterwards the budget holds
  unless no complete piece is left; pieces that are not complete keep their bytes; every evicted piece was
  complete and was used no later than any piece that stays in the LRU.\<close>

theorem mem_reserve_evicts_lru:
  assumes "mem_reach m"
  shows "let t = reserve (store m) need in
         (usedB t \<le> capacity t \<or> (\<forall>p. \<not> complete (piece t p))) \<and>
         (\<forall>p. \<not> complete (piece (store m) p) \<longrightarrow> pdata (piece t p) = pdata (piece (store m) p)) \<and>
         (\<forall>v q. complete (piece (store m) v) \<and> \<not> complete (piece t v) \<and> complete (piece t q) \<longrightarrow>
            lastUsed (piece (store m) v) \<le> lastUsed (piece (store m) q) \<and> pdata (piece t q) = pdata (piece (store m) q))"
proof -
  let ?s = "store m" and ?e = "evictLocked (store m) need None"
  have inv: "minvK (allocating m) {} ?s" by (rule reach_minvK [OF assms(1)])
  note e = evictLocked_post [OF inv, where need = need and keep = None]
  have c: "complete (piece ?s p) \<longleftrightarrow> p \<in> set (lru ?s)" "complete (piece ?e p) \<longleftrightarrow> p \<in> set (lru ?e)" for p
    using inv e(1) by (auto simp: minvK_def)
  let ?t = "reserve (store m) need"
  have t: "piece ?t = piece ?e" "capacity ?t = capacity ?s" "usedB ?t = usedB ?e + need"
    by (simp_all add: reserve_def Let_def e(3))
  show ?thesis
    unfolding Let_def t c using e(3,7,10,11) by auto
qed

text \<open>Marking a resident piece complete succeeds, keeps that piece resident with its bytes and complete, and
  trims the store: afterwards it fits its budget unless the piece just completed is the only complete one.\<close>

theorem mem_markComplete_trims:
  assumes "mem_reach m" "pdata (piece (store m) p) = Some d"
  shows "let t = snd (MarkComplete (store m) p) in
         fst (MarkComplete (store m) p) = None \<and> Completion t p = (True, True) \<and>
         pdata (piece t p) = Some d \<and>
         (usedB t \<le> capacity t \<or> (\<forall>q. complete (piece t q) \<longleftrightarrow> q = p))"
proof -
  let ?s = "store m"
  define t where "t = snd (MarkComplete ?s p)"
  have inv: "minvK (allocating m) {} ?s" by (rule reach_minvK [OF assms(1)])
  have d: "pdata (piece ?s p) \<noteq> None" using assms(2) by simp
  note w = mark_inv [OF inv d]
  note e = evictLocked_post [OF w(1), where need = 0 and keep = "Some p"]
  have t: "MarkComplete ?s p = (None, t)"
    unfolding t_def MarkComplete_def Let_def if_not_P [OF d] by simp
  note e' = e [folded t_def [unfolded MarkComplete_def Let_def if_not_P [OF d] snd_conv]]
  have pin: "p \<in> set (lru t)" using e'(12) w(2) by blast
  have c: "complete (piece t q) \<longleftrightarrow> q \<in> set (lru t)" for q using e'(1) by (simp add: minvK_def)
  have "pdata (piece t p) = Some d" using e'(7) [of p] pin w(7) [of p] assms(2) by simp
  moreover have "usedB t \<le> capacity t \<or> set (lru t) = {p}" using e'(11) pin by auto
  ultimately show ?thesis using pin c by (auto simp: t Completion_def)
qed

text \<open>C6: \<open>ReadAt\<close> is exact on every branch: of a resident piece it returns the bytes stored at the offset, as many as the
  buffer takes and the piece has, with no error exactly when the buffer is filled from an offset inside the piece, and the end
  of the file otherwise; a negative offset and a piece that is not resident give their own errors and no byte.\<close>

theorem mem_read_correct:
  assumes "mem_reach m"
  shows "fst (ReadAt (store m) p n off e) =
    (if off < 0 then ([], Some errNegativeOffset)
     else case pdata (piece (store m) p) of
       None \<Rightarrow> ([], Some errPieceEvicted)
     | Some d \<Rightarrow> (take n (drop (nat off) d), if nat off < length d \<and> nat off + n \<le> length d then None else Some EOF))"
proof (cases "pdata (piece (store m) p)")
  case (Some d)
  then have pl: "plength (piece (store m) p) = int (length d)"
    using reach_minvK [OF assms(1)] by (auto simp: minvK_def)
  then have len: "nat (plength (piece (store m) p) - off) = length d - nat off" if "0 \<le> off"
    using that by linarith
  show ?thesis
    using Some by (auto simp: ReadAt_def Let_def len pl)
qed (auto simp: ReadAt_def)

text \<open>Round trip: bytes written by \<open>WriteAt\<close> (first write into the piece or not, whatever the pooled buffer
  held) are returned by a \<open>ReadAt\<close> of the same range; the count is the part of the chunk that fits the
  piece.\<close>

theorem mem_write_read:
  assumes "mem_reach m" "p < npiece (store m)" "p \<notin> allocating m" "int (length buf) = plength (piece (store m) p)"
    and "WriteAt (store m) p buf b off = (Ok n, s')"
  shows "n = min (length b) (nat (plength (piece (store m) p) - off)) \<and>
         fst (ReadAt s' p n off e) = (take n b, None)"
proof -
  let ?s = "store m" and ?r = "lockResident (store m) p buf"
  have inv: "minvK (allocating m) {} ?s" by (rule reach_minvK [OF assms(1)])
  have off: "0 \<le> off" "off < plength (piece ?s p)" "store_bytes ?r p b off = (n, s')"
    using assms(5) by (auto simp: WriteAt_def write_check_def split: if_splits prod.splits)
  have pl: "plength (piece ?r p) = plength (piece ?s p)"
    by (simp add: lockResident_def lockResident_install_def lockResident_reserve_def reserve_def Let_def
        evictLocked_post(9) [OF inv])
  obtain d where d: "pdata (piece ?r p) = Some d" "int (length d) = plength (piece ?s p)"
    using inv assms(4) by (cases "pdata (piece ?s p)")
      (auto simp: lockResident_def lockResident_install_def minvK_def)
  have n: "n = min (length b) (length d - nat off)" and s': "pdata (piece s' p) = Some (copy_at d (nat off) b)"
    "plength (piece s' p) = plength (piece ?s p)"
    using off(3) d pl by (auto simp: store_bytes_def)
  have "nat (plength (piece ?s p) - off) = length d - nat off" "nat off \<le> length d"
    using d(2) off by linarith+
  moreover have "take n (take (length d - nat off) (drop (nat off) (copy_at d (nat off) b))) = take n b"
    using n \<open>nat off \<le> length d\<close> by (simp add: copy_at_def)
  ultimately show ?thesis
    using off n s' by (simp add: ReadAt_def Let_def) linarith
qed

text \<open>The wait of an evicted read is bounded: at most twice the backoff, whatever the refetch channel does
  and however often the piece was read before; with no refetch channel it is exactly the backoff.\<close>

theorem mem_wait_bounded:
  "snd (waitRefetch mp e backoff) \<le> 2 * max 0 backoff \<and> 0 \<le> snd (waitRefetch mp e backoff) \<and>
   (doneCh e = None \<longrightarrow> snd (waitRefetch mp e backoff) = max 0 backoff)"
proof -
  have fl: "0 \<le> wait_floor r b \<and> wait_floor r b \<le> b" if "0 \<le> b" for r b
    using that by (auto simp: wait_floor_def Let_def refetchSettle_def)
  show ?thesis
  proof (cases "backoff \<le> 0")
    case False
    let ?r = "if evictedAt mp \<noteq> 0 \<and> nowStart e - evictedAt mp > backoff then i32 1 else i32 (evictedReads mp + 1)"
    show ?thesis
      using False fl [of backoff ?r]
      by (cases "doneCh e"; cases "the (doneCh e)")
         (auto simp: waitRefetch_def Let_def split: if_splits option.splits)
  qed (simp add: waitRefetch_def)
qed

theorem mem_wait_bounded_witness:
  "snd (waitRefetch no_piece \<lparr>doneCh = Some (Some 5), nowStart = 1, nowEnd = 2\<rparr> 100) \<le> 2 * max 0 100"
  using mem_wait_bounded [of no_piece "\<lparr>doneCh = Some (Some 5), nowStart = 1, nowEnd = 2\<rparr>" 100] by blast

lemma writeToLoop_prefix:
  assumes "\<And>i d'. obs i = Some d' \<Longrightarrow> d' = d" "int (length d) = len" "\<And>i c. w i c = (length c, False)"
    and "0 \<le> tot" "tot \<le> len" "out = take (nat tot) d"
  shows "\<exists>k err. writeToLoop len obs w i tot out = Ok (k, take (nat k) d, err) \<and> k \<le> len \<and>
      (err = None \<longleftrightarrow> k = len) \<and> (err \<noteq> None \<longrightarrow> err = Some errPieceEvicted \<and> (\<exists>j. obs j = None))"
  using assms
proof (induction len obs w i tot out rule: writeToLoop.induct)
  case (1 len obs w i tot out)
  show ?case
  proof (cases "tot < len")
    case False
    then have "tot = len" using "1.prems"(5) by simp
    then show ?thesis using "1.prems"(6) by (subst writeToLoop.simps) simp
  next
    case lt: True
    show ?thesis
    proof (cases "obs i")
      case None
      with lt have "writeToLoop len obs w i tot out = Ok (tot, out, Some errPieceEvicted)"
        by (subst writeToLoop.simps) simp
      then have e: "writeToLoop len obs w i tot out = Ok (tot, take (nat tot) d, Some errPieceEvicted)"
        unfolding "1.prems"(6) .
      show ?thesis
        by (rule exI [of _ tot], rule exI [of _ "Some errPieceEvicted"]) (use lt None e in auto)
    next
      case (Some d')
      then have [simp]: "d' = d" using "1.prems"(1) by blast
      let ?c = "take writeToChunk (drop (nat tot) d)"
      have len: "nat tot < length d" "nat (len - tot) = length d - nat tot" using lt "1.prems" by linarith+
      then have sl: "slice d tot len = (Ok (drop (nat tot) d) :: (mem_err, byte list) outcome)"
        using lt "1.prems" by (simp add: slice_def)
      have c: "nat (tot + int (length ?c)) = nat tot + length ?c" using "1.prems" by linarith
      have step: "writeToLoop len obs w i tot out = writeToLoop len obs w (i + 1) (tot + int (length ?c)) (out @ ?c)"
        using lt Some "1.prems"(3) sl by (subst writeToLoop.simps) simp
      show ?thesis
        unfolding step
      proof (rule "1.IH" [OF lt Some, of "drop (nat tot) d" ?c "(length ?c, False)" "length ?c" False])
        show "tot + int (length ?c) \<le> len" using "1.prems"(2,4) len by simp
        show "out @ ?c = take (nat (tot + int (length ?c))) d"
          unfolding c "1.prems"(6) by (simp add: take_add min_def)
      qed (use "1.prems" sl in \<open>auto simp: min_def\<close>)
    qed
  qed
qed

text \<open>\<open>WriteTo\<close> streams the whole piece to a writer that accepts every chunk while the piece stays resident;
  once the bytes are evicted it stops with \<open>errPieceEvicted\<close> after a prefix of the piece.\<close>

theorem mem_writeTo_streams:
  assumes "\<forall>i d'. obs i = Some d' \<longrightarrow> d' = d" "int (length d) = len" "\<forall>i c. w i c = (length c, False)"
  shows "\<exists>k err. WriteTo len obs w = Ok (k, take (nat k) d, err) \<and> (err = None \<longleftrightarrow> k = len) \<and>
      (err \<noteq> None \<longrightarrow> err = Some errPieceEvicted) \<and> ((\<forall>j. obs j \<noteq> None) \<longrightarrow> err = None)"
  using writeToLoop_prefix [of obs d len w 0 "[]" 0] assms by (auto simp: WriteTo_def)

theorem mem_writeTo_streams_witness:
  "WriteTo 3 (\<lambda>i. Some [7, 8, 9]) (\<lambda>i c. (length c, False)) = Ok (3, [7, 8, 9], None)"
  using mem_writeTo_streams [of "\<lambda>i. Some [7, 8, 9]" "[7, 8, 9]" 3 "\<lambda>i c. (length c, False)"] by auto

section \<open>A run of the store\<close>

text \<open>A concrete run for the witnesses: one torrent, one piece of three bytes, written and resident.\<close>

definition wm0 :: msys where "wm0 = \<lparr>store = newMemStorage 10, allocating = {}\<rparr>"
definition wm1 :: msys where "wm1 = wm0\<lparr>store := snd (OpenTorrent (store wm0) ''h'' 1)\<rparr>"
definition wm2 :: msys where
  "wm2 = wm1\<lparr>store := (case getPiece (store wm1) 0 0 3 of Ok (p, s) \<Rightarrow> s | _ \<Rightarrow> store wm1)\<rparr>"
definition wm3 :: msys where
  "wm3 = wm2\<lparr>store := lockResident_reserve (store wm2) 0, allocating := insert 0 (allocating wm2)\<rparr>"
definition wm4 :: msys where
  "wm4 = wm3\<lparr>store := snd (store_bytes (lockResident_install (store wm3) 0 [0, 0, 0]) 0 [7, 8, 9] 0),
      allocating := allocating wm3 - {0}\<rparr>"

lemmas wm_defs = wm0_def wm1_def wm2_def newMemStorage_def OpenTorrent_def getPiece_def

lemma wm2_facts: "\<exists>s. getPiece (store wm1) 0 0 3 = Ok (0, s) \<and> store wm2 = s"
  "npiece (store wm2) = 1" "pdata (piece (store wm2) 0) = None" "plength (piece (store wm2) 0) = 3"
  "allocating wm2 = {}" "usedB (store wm2) = 0" "capacity (store wm2) = 10"
  by (simp_all add: wm_defs Let_def)

lemma wm3_facts: "allocating wm3 = {0}" "plength (piece (store wm3) 0) = 3"
  by (simp_all add: wm3_def wm2_facts lockResident_reserve_def reserve_def evictLocked_def)

lemma wm2_reach: "mem_reach wm2"
proof -
  have "mem_reach wm0" by (rule reach_start) (auto simp: mem_start_def wm0_def newMemStorage_def)
  then have "mem_reach wm1" unfolding wm1_def by (rule reach_step) (rule m_open)
  moreover have "mem_step wm1 wm2"
    using wm2_facts(1) unfolding wm2_def by (auto intro!: m_piece)
  ultimately show ?thesis by (rule reach_step)
qed

lemma wm4_reach: "mem_reach wm4"
proof -
  have "mem_reach wm3" unfolding wm3_def
    by (rule reach_step [OF wm2_reach], rule m_reserve [where off = 0]) (simp_all add: wm2_facts write_check_def)
  moreover have "mem_step wm3 wm4" unfolding wm4_def
    by (rule m_install) (simp_all add: wm3_facts write_check_def)
  ultimately show ?thesis by (rule reach_step)
qed

lemma wm4_data: "pdata (piece (store wm4) 0) = Some [7, 8, 9]"
  by (simp add: wm4_def store_bytes_def lockResident_install_def copy_at_def)

theorem mem_accounting_witness: "usedB (store wm4) = (\<Sum>p<npiece (store wm4). resident (store wm4) p) +
    (\<Sum>p\<in>allocating wm4. plength (piece (store wm4) p))"
  using mem_accounting [OF wm4_reach] by blast

theorem mem_reserve_evicts_lru_witness:
  "let t = reserve (store wm4) 12 in usedB t \<le> capacity t \<or> (\<forall>p. \<not> complete (piece t p))"
  using mem_reserve_evicts_lru [OF wm4_reach, of 12] by (simp add: Let_def)

theorem mem_markComplete_trims_witness:
  "let t = snd (MarkComplete (store wm4) 0) in Completion t 0 = (True, True) \<and> pdata (piece t 0) = Some [7, 8, 9]"
  using mem_markComplete_trims [OF wm4_reach wm4_data] by (simp add: Let_def)

lemma wm4_length: "plength (piece (store wm4) 0) = 3"
  by (simp add: wm4_def store_bytes_def lockResident_install_def wm3_facts)

theorem mem_read_correct_witness:
  "fst (ReadAt (store wm4) 0 2 1 \<lparr>doneCh = None, nowStart = 0, nowEnd = 0\<rparr>) = ([8, 9], None)"
  unfolding mem_read_correct [OF wm4_reach] by (simp add: wm4_data)

theorem mem_write_read_witness:
  "\<exists>s' n. WriteAt (store wm2) 0 [1, 1, 1] [7, 8] 2 = (Ok n, s') \<and>
     fst (ReadAt s' 0 n 2 \<lparr>doneCh = None, nowStart = 0, nowEnd = 0\<rparr>) = (take n [7, 8], None)"
proof -
  obtain n s' where w: "WriteAt (store wm2) 0 [1, 1, 1] [7, 8] 2 = (Ok n, s')"
    by (cases "store_bytes (lockResident (store wm2) 0 [1, 1, 1]) 0 [7, 8] 2")
       (simp add: WriteAt_def write_check_def wm2_facts)
  show ?thesis
    using mem_write_read [OF wm2_reach _ _ _ w, where e = "\<lparr>doneCh = None, nowStart = 0, nowEnd = 0\<rparr>"] w
    by (auto simp: wm2_facts)
qed

end
