(* ===== verification/Drm_Box.thy ===== *)
theory Drm_Box
  imports Prelude
begin

unbundle bit_operations_syntax

text \<open>
  \<open>internal/streamproxy/drm.go\<close>, parsing: ISO BMFF boxes and the boxes that drive CENC decryption
  (\<open>tenc\<close>, \<open>tfhd\<close>, \<open>trun\<close>, \<open>senc\<close>). A parsed box does not hold its payload but the payload's place in the
  segment buffer: decryption rewrites the buffer in place and Go slices alias it. All reads are checked
  (\<open>be_read\<close>, \<open>idx\<close>, \<open>slice\<close>), so a missing bounds check would show as \<open>Panic\<close>. Sizes are naturals: they are
  lengths of, or offsets into, one buffer; the 32-bit conversions of the source are written out.
\<close>

section \<open>Data\<close>

text \<open>Errors as the source builds them: a message, a message with an index, a wrapped error.\<close>

datatype drm_err = E string | EI string nat | EW string drm_err

record drmSubsample =
  Clear :: nat
  Encrypted :: nat

record drmBox =
  Type :: "byte list"
  Start :: nat
  HdrSize :: nat
  Size :: nat
  pOff :: nat
  pLen :: nat

definition tag :: "string \<Rightarrow> byte list" where
  "tag s = map of_char s"

text \<open>Evaluated tags, for evaluation of concrete segments.\<close>

lemma tags [code_unfold]:
  "tag ''moof'' = [109, 111, 111, 102]"
  "tag ''traf'' = [116, 114, 97, 102]"
  "tag ''moov'' = [109, 111, 111, 118]"
  "tag ''trak'' = [116, 114, 97, 107]"
  "tag ''mdia'' = [109, 100, 105, 97]"
  "tag ''minf'' = [109, 105, 110, 102]"
  "tag ''stbl'' = [115, 116, 98, 108]"
  "tag ''edts'' = [101, 100, 116, 115]"
  "tag ''dinf'' = [100, 105, 110, 102]"
  "tag ''udta'' = [117, 100, 116, 97]"
  "tag ''schi'' = [115, 99, 104, 105]"
  "tag ''uuid'' = [117, 117, 105, 100]"
  "tag ''tenc'' = [116, 101, 110, 99]"
  "tag ''sinf'' = [115, 105, 110, 102]"
  "tag ''frma'' = [102, 114, 109, 97]"
  "tag ''stsd'' = [115, 116, 115, 100]"
  "tag ''tfhd'' = [116, 102, 104, 100]"
  "tag ''trun'' = [116, 114, 117, 110]"
  "tag ''senc'' = [115, 101, 110, 99]"
  "tag ''mdat'' = [109, 100, 97, 116]"
  by code_simp+

definition view :: "byte list \<Rightarrow> nat \<Rightarrow> nat \<Rightarrow> byte list" where
  "view buf off n = take n (drop off buf)"

definition payload :: "byte list \<Rightarrow> drmBox \<Rightarrow> byte list" where
  "payload buf x = view buf (pOff x) (pLen x)"

section \<open>Boxes\<close>

definition maxBoxDepth :: nat where "maxBoxDepth = 32"

definition drmContainerTypes :: "byte list list" where
  "drmContainerTypes = map tag [''moof'', ''traf'', ''moov'', ''trak'', ''mdia'', ''minf'', ''stbl'', ''edts'',
     ''dinf'', ''udta'', ''schi'']"

lemma drmContainerTypes_code [code]: "drmContainerTypes =
   [[109, 111, 111, 102],
    [116, 114, 97, 102],
    [109, 111, 111, 118],
    [116, 114, 97, 107],
    [109, 100, 105, 97],
    [109, 105, 110, 102],
    [115, 116, 98, 108],
    [101, 100, 116, 115],
    [100, 105, 110, 102],
    [117, 100, 116, 97],
    [115, 99, 104, 105]]"
  by code_simp

text \<open>The header of the box at \<open>boxStart\<close>: type, header size, total size.\<close>

definition boxSizeOf :: "byte list \<Rightarrow> nat \<Rightarrow> nat \<Rightarrow> (drm_err, nat \<times> nat) outcome" where
  "boxSizeOf b boxStart size32 =
     (if size32 = 0 then Ok (8, length b - boxStart)
      else if size32 = 1 then
        (if length b < boxStart + 16 then Err (E ''size==1 but no largesize'')
         else bnd (be64 b (boxStart + 8)) (\<lambda>large.
           if large > length b - boxStart then Err (E ''largesize exceeds buffer'') else Ok (16, large)))
      else if size32 < 8 then Err (E ''size < 8'')
      else if boxStart + size32 > length b then Err (E ''size exceeds buffer len'')
      else Ok (8, size32))"

definition boxHeader :: "byte list \<Rightarrow> nat \<Rightarrow> (drm_err, byte list \<times> nat \<times> nat) outcome" where
  "boxHeader b boxStart =
     bnd (be32 b boxStart) (\<lambda>size32.
     bnd (sliceN b (boxStart + 4) (boxStart + 8)) (\<lambda>boxType.
     bnd (boxSizeOf b boxStart size32) (\<lambda>(hdrSize, boxSize).
     bnd (if boxType = tag ''uuid'' then
            (if length b < boxStart + hdrSize + 16 then Err (E ''too short for usertype'') else Ok (hdrSize + 16))
          else Ok hdrSize) (\<lambda>hdrSize.
     if boxSize < hdrSize then Err (E ''size smaller than header size'') else Ok (boxType, hdrSize, boxSize)))))"

lemma boxHeader_Ok:
  assumes "boxHeader b pos = Ok (t, h, n)" "length b - pos \<ge> 8"
  shows "8 \<le> h" "h \<le> n" "pos + n \<le> length b"
  using assms
  by (auto simp: boxHeader_def boxSizeOf_def go_simps split: if_splits)

text \<open>\<open>base\<close> is the place of \<open>b\<close> in the segment buffer; \<open>startOffset\<close> is the source's own offset, which
  restarts at 0 for the payload of a box.\<close>

definition mkBox :: "byte list \<Rightarrow> nat \<Rightarrow> nat \<Rightarrow> nat \<Rightarrow> nat \<Rightarrow> nat \<Rightarrow> nat \<Rightarrow> drmBox" where
  "mkBox boxType base startOffset pos hdrSize boxSize n =
     \<lparr>Type = boxType, Start = startOffset + pos, HdrSize = hdrSize, Size = boxSize,
      pOff = base + pos + hdrSize, pLen = n\<rparr>"

fun childErr :: "(drm_err, 'a) outcome \<Rightarrow> (drm_err, 'a) outcome" where
  "childErr (Err e) = Err (EW ''child parse error'' e)"
| "childErr r = r"

function drmParseBoxesAt :: "byte list \<Rightarrow> nat \<Rightarrow> nat \<Rightarrow> nat \<Rightarrow> nat \<Rightarrow> (drm_err, drmBox list) outcome" where
  "drmParseBoxesAt b base startOffset depth pos =
     (if depth > maxBoxDepth then Err (E ''BMFF box nesting exceeds maximum depth'')
      else if \<not> pos < length b \<or> length b - pos < 8 then Ok []
      else
        bnd (boxHeader b pos) (\<lambda>(boxType, hdrSize, boxSize).
        bnd (sliceN b (pos + hdrSize) (min (pos + boxSize) (length b))) (\<lambda>pl.
        bnd (if boxType \<in> set drmContainerTypes
             then childErr (drmParseBoxesAt pl (base + pos + hdrSize) (startOffset + pos + hdrSize) (depth + 1) 0)
             else Ok []) (\<lambda>children.
        bnd (if boxSize = 0 then Ok []
             else drmParseBoxesAt b base startOffset depth (pos + boxSize)) (\<lambda>rest.
        Ok (mkBox boxType base startOffset pos hdrSize boxSize (length pl) # children @ rest))))))"
  by pat_completeness auto
termination
proof (relation "measures [\<lambda>(b, base, so, d, pos). length b, \<lambda>(b, base, so, d, pos). length b - pos]", goal_cases)
  case 1
  show ?case by simp
next
  case (2 b base so d pos x t y h n pl)
  have "8 \<le> h" using 2(2) boxHeader_Ok [of b pos t h n] 2(3,4,5) by auto
  moreover have "sliceN b (pos + h) (min (pos + n) (length b)) = (Ok pl :: (drm_err, _) outcome)"
    using 2 by simp
  ultimately have "length pl < length b" by (auto simp: sliceN_def split: if_splits)
  then show ?case by simp
next
  case (3 b base so d pos x t y h n pl ch)
  then have "8 \<le> h" "h \<le> n" "pos + n \<le> length b" using boxHeader_Ok [of b pos t h n] by auto
  then have "length b - (pos + n) < length b - pos" by linarith
  then show ?case by simp
qed

declare drmParseBoxesAt.simps [simp del]

definition drmParseBoxes :: "byte list \<Rightarrow> nat \<Rightarrow> nat \<Rightarrow> (drm_err, drmBox list) outcome" where
  "drmParseBoxes buf off n = drmParseBoxesAt (view buf off n) off 0 0 0"

section \<open>Track encryption box\<close>

record drmTenc =
  tfound :: bool
  hasPattern :: bool
  crypt :: nat
  skip :: nat
  perSampleIVSize :: nat
  constIV :: "byte list"

definition noTenc :: drmTenc where
  "noTenc = \<lparr>tfound = False, hasPattern = False, crypt = 0, skip = 0, perSampleIVSize = 0, constIV = []\<rparr>"

definition ivFallback :: "drmTenc \<Rightarrow> byte list \<Rightarrow> byte list" where
  "ivFallback t iv = (if tfound t \<and> length (constIV t) > 0 then constIV t else iv)"

definition ivSizeHint :: "drmTenc \<Rightarrow> int" where
  "ivSizeHint t = (if \<not> tfound t then -1 else int (perSampleIVSize t))"

definition pattern :: "drmTenc \<Rightarrow> bool \<Rightarrow> nat \<times> nat" where
  "pattern t hasSubsamples =
     (if tfound t \<and> hasPattern t then (crypt t, skip t)
      else if hasSubsamples then (1, 9) else (0, 0))"

definition drmParseTenc :: "byte list \<Rightarrow> (drm_err, drmTenc) outcome" where
  "drmParseTenc p =
     (if length p < 24 then Err (E ''tenc too short'')
      else
        bnd (idx p 0) (\<lambda>version.
        bnd (idx p 5) (\<lambda>pat.
        let t = noTenc\<lparr>tfound := True\<rparr>;
            t = (if version \<ge> 1 then t\<lparr>hasPattern := True, crypt := unat (drop_bit 4 pat),
                   skip := unat (pat AND 15)\<rparr> else t) in
        bnd (idx p 6) (\<lambda>isProtected.
        bnd (idx p 7) (\<lambda>ivs.
        let t = t\<lparr>perSampleIVSize := unat ivs\<rparr> in
        if isProtected = 1 \<and> perSampleIVSize t = 0 then
          (if length p < 25 then Err (E ''tenc: missing constant IV size'')
           else bnd (idx p 24) (\<lambda>nb.
             let n = unat nb in
             if n \<noteq> 8 \<and> n \<noteq> 16 \<or> length p < 25 + n then Err (E ''tenc: invalid constant IV size'')
             else bnd (sliceN p 25 (25 + n)) (\<lambda>iv. Ok (t\<lparr>constIV := iv\<rparr>))))
        else Ok t)))))"

text \<open>The scan of one \<open>stsd\<close> payload for a \<open>sinf\<close> box whose \<open>tenc\<close> parses. A parse error only ends that
  candidate.\<close>

fun firstTenc :: "byte list \<Rightarrow> drmBox list \<Rightarrow> drmTenc option" where
  "firstTenc pl [] = None"
| "firstTenc pl (c # cs) =
     (if Type c = tag ''tenc'' then
        (case drmParseTenc (payload pl c) of Ok t \<Rightarrow> Some t | _ \<Rightarrow> firstTenc pl cs)
      else firstTenc pl cs)"

definition sinfAt :: "byte list \<Rightarrow> nat \<Rightarrow> drmTenc option" where
  "sinfAt pl i =
     (if view pl i 4 \<noteq> tag ''sinf'' then None
      else
        (let start = i - 4; size = be_nat (view pl start 4)
         in if size < 16 \<or> start + size > length pl \<or> view pl (start + 12) 4 \<noteq> tag ''frma'' then None
            else case drmParseBoxes pl (start + 8) (size - 8) of
                   Ok children \<Rightarrow> firstTenc pl children
                 | _ \<Rightarrow> None))"

function scanSinf :: "byte list \<Rightarrow> nat \<Rightarrow> drmTenc option" where
  "scanSinf pl i =
     (if i + 4 \<le> length pl then
        (case sinfAt pl i of Some t \<Rightarrow> Some t | None \<Rightarrow> scanSinf pl (i + 1))
      else None)"
  by pat_completeness auto
termination by (relation "measure (\<lambda>(pl, i). length pl - i)") auto

declare scanSinf.simps [simp del]

fun drmFindTenc :: "byte list \<Rightarrow> drmBox list \<Rightarrow> drmTenc" where
  "drmFindTenc buf [] = noTenc"
| "drmFindTenc buf (b # bs) =
     (if Type b = tag ''stsd'' then
        (case scanSinf (payload buf b) 4 of Some t \<Rightarrow> t | None \<Rightarrow> drmFindTenc buf bs)
      else drmFindTenc buf bs)"

section \<open>Well-formed boxes\<close>

text \<open>A parsed box lies inside the bytes it was parsed from, its header is at least eight bytes and fits, its
  payload is exactly what follows the header, and its type is the tag stored there.\<close>

definition box_wf :: "byte list \<Rightarrow> nat \<Rightarrow> nat \<Rightarrow> drmBox \<Rightarrow> bool" where
  "box_wf b base so x \<longleftrightarrow>
     so \<le> Start x \<and> 8 \<le> HdrSize x \<and> HdrSize x \<le> Size x \<and> Start x - so + Size x \<le> length b \<and>
     pOff x = base + (Start x - so) + HdrSize x \<and> pLen x = Size x - HdrSize x \<and>
     Type x = view b (Start x - so + 4) 4"

lemma boxHeader_type: "boxHeader b pos = Ok (t, h, n) \<Longrightarrow> t = view b (pos + 4) 4"
  by (auto simp: boxHeader_def bnd_eq_Ok sliceN_def view_def split: if_splits)

lemma boxHeader_no_panic:
  assumes "length b - pos \<ge> 8"
  shows "boxHeader b pos \<noteq> Panic"
proof -
  have "boxSizeOf b pos n \<noteq> Panic" for n
    by (simp add: boxSizeOf_def bnd_eq_Panic)
  moreover have "be32 b pos = (Ok (be_nat (take 4 (drop pos b))) :: (drm_err, nat) outcome)"
    using assms by simp
  moreover have "sliceN b (pos + 4) (pos + 8) = (Ok (take 4 (drop (pos + 4) b)) :: (drm_err, byte list) outcome)"
    using assms by (simp add: sliceN_def)
  ultimately show ?thesis
    unfolding boxHeader_def by (auto simp: bnd_eq_Panic)
qed

lemma view_view: "k + m \<le> n \<Longrightarrow> view (view b o1 n) k m = view b (o1 + k) m"
  by (simp add: view_def take_drop min_def add.commute add.left_commute)

lemma box_wf_child:
  assumes "box_wf (view b o1 n) (base + o1) (so + o1) x" "o1 + n \<le> length b"
  shows "box_wf b base so x"
proof -
  define k where "k = Start x - (so + o1)"
  have s: "Start x = so + o1 + k" using assms(1) by (simp add: box_wf_def k_def)
  have "length (view b o1 n) = n" using assms(2) by (simp add: view_def)
  then have w: "8 \<le> HdrSize x" "HdrSize x \<le> Size x" "k + Size x \<le> n"
    "pOff x = base + o1 + k + HdrSize x" "pLen x = Size x - HdrSize x" "Type x = view (view b o1 n) (k + 4) 4"
    using assms(1) by (simp_all add: box_wf_def s)
  then have "Type x = view b (o1 + (k + 4)) 4" by (simp add: view_view)
  then show ?thesis using w assms(2) by (simp add: box_wf_def s add.assoc)
qed

lemma box_wf_mk:
  assumes "boxHeader b pos = Ok (t, h, n)" "length b - pos \<ge> 8"
  shows "box_wf b base so (mkBox t base so pos h n (n - h))"
  using boxHeader_Ok [OF assms] boxHeader_type [OF assms(1)] by (simp add: box_wf_def mkBox_def)

lemma childErr_eq [simp]: "childErr r = Ok x \<longleftrightarrow> r = Ok x" "childErr r = Panic \<longleftrightarrow> r = Panic"
  by (cases r; simp)+

lemma parseBoxesAt_safe:
  "drmParseBoxesAt b base so d pos \<noteq> Panic \<and>
   (\<forall>bs. drmParseBoxesAt b base so d pos = Ok bs \<longrightarrow> (\<forall>x \<in> set bs. box_wf b base so x))"
proof (induction b base so d pos rule: drmParseBoxesAt.induct)
  case (1 b base so d pos)
  show ?case
  proof (cases "d > maxBoxDepth \<or> \<not> pos < length b \<or> length b - pos < 8")
    case True
    then show ?thesis by (subst (1 2) drmParseBoxesAt.simps) auto
  next
    case False
    then have go: "\<not> d > maxBoxDepth" "\<not> (\<not> pos < length b \<or> length b - pos < 8)" and len: "length b - pos \<ge> 8" by auto
    show ?thesis
    proof (cases "boxHeader b pos")
      case (Ok thn)
      then obtain t h n where ok: "boxHeader b pos = Ok (t, h, n)" by (cases thn) auto
      note hd = boxHeader_Ok [OF ok len]
      let ?pl = "view b (pos + h) (n - h)"
      let ?ch = "if t \<in> set drmContainerTypes
        then childErr (drmParseBoxesAt ?pl (base + pos + h) (so + pos + h) (d + 1) 0) else Ok []"
      let ?rest = "drmParseBoxesAt b base so d (pos + n)"
      have sl: "sliceN b (pos + h) (min (pos + n) (length b)) = (Ok ?pl :: (drm_err, byte list) outcome)"
        using hd by (simp add: view_def min_absorb1)
      have lpl: "length ?pl = n - h" using hd by (simp add: view_def)
      have e: "drmParseBoxesAt b base so d pos =
          bnd ?ch (\<lambda>cs. bnd ?rest (\<lambda>rs. Ok (mkBox t base so pos h n (n - h) # cs @ rs)))"
        using go hd by (subst drmParseBoxesAt.simps) (simp add: ok lpl flip: view_def)
      have c: "?ch \<noteq> Panic \<and> (\<forall>cs. ?ch = Ok cs \<longrightarrow> (\<forall>x \<in> set cs. box_wf b base so x))"
      proof (cases "t \<in> set drmContainerTypes")
        case True
        have "o1 + (n - h) \<le> length b" if "o1 = pos + h" for o1 using that hd by simp
        with "1.IH"(1) [OF go ok refl refl sl True] show ?thesis
          using True box_wf_child [of b "pos + h" "n - h" base so] by (auto simp: add.assoc)
      qed simp
      show ?thesis
      proof (cases ?ch)
        case (Ok cs)
        have "n \<noteq> 0" using hd by simp
        from "1.IH"(2) [OF go ok refl refl sl Ok this] c Ok box_wf_mk [OF ok len]
        show ?thesis unfolding e by (auto simp: bnd_eq_Ok bnd_eq_Panic)
      qed (use c e in auto)
    next
      case (Err e)
      with go show ?thesis by (subst (1 2) drmParseBoxesAt.simps) simp
    next
      case Panic
      with boxHeader_no_panic [OF len] show ?thesis by simp
    qed
  qed
qed

section \<open>Properties\<close>

text \<open>Parsing the boxes of a segment never panics, however its size fields are forged, and every box returned
  (children included) lies inside the segment: its header is at least eight bytes and within its size, its
  payload is the rest of the box, and its type is the four bytes stored there.\<close>

theorem drm_parse_boxes_safe:
  "drmParseBoxes seg 0 (length seg) \<noteq> Panic \<and>
   (\<forall>bs x. drmParseBoxes seg 0 (length seg) = Ok bs \<and> x \<in> set bs \<longrightarrow>
      8 \<le> HdrSize x \<and> HdrSize x \<le> Size x \<and> Start x + Size x \<le> length seg \<and>
      pOff x = Start x + HdrSize x \<and> pLen x = Size x - HdrSize x \<and> Type x = view seg (Start x + 4) 4)"
  using parseBoxesAt_safe [of seg 0 0 0 0] by (auto simp: drmParseBoxes_def box_wf_def view_def)

definition demo_seg :: "byte list" where
  "demo_seg = [0, 0, 0, 16] @ tag ''moof'' @ [0, 0, 0, 8] @ tag ''tfhd''"

lemma demo_parse: "drmParseBoxes demo_seg 0 (length demo_seg) =
    Ok [mkBox (tag ''moof'') 0 0 0 8 16 8, mkBox (tag ''tfhd'') 8 8 0 8 8 0]"
  by code_simp

theorem drm_parse_boxes_safe_witness:
  "\<exists>bs x. drmParseBoxes demo_seg 0 (length demo_seg) = Ok bs \<and> x \<in> set bs \<and> Type x = tag ''tfhd'' \<and>
     Type x = view demo_seg (Start x + 4) 4"
proof -
  let ?x = "mkBox (tag ''tfhd'') 8 8 0 8 8 0"
  have "?x \<in> set [mkBox (tag ''moof'') 0 0 0 8 16 8, ?x]" "Type ?x = tag ''tfhd''" by (simp_all add: mkBox_def)
  then show ?thesis using drm_parse_boxes_safe [of demo_seg] demo_parse by blast
qed

end
