(* ===== verification/Drm_Frag.thy ===== *)
theory Drm_Frag
  imports Drm_Box
begin

text \<open>
  \<open>internal/streamproxy/drm.go\<close>, the boxes of a track fragment: \<open>tfhd\<close> (defaults), \<open>trun\<close> (sample sizes) and
  \<open>senc\<close> (per-sample IVs and subsample tables), with the probe that finds the IV size \<open>senc\<close> does not carry.
\<close>

text \<open>An optional field: present, bounds-checked, read, offset advanced.\<close>

definition field :: "bool \<Rightarrow> byte list \<Rightarrow> nat \<Rightarrow> nat \<Rightarrow> drm_err \<Rightarrow> (drm_err, nat \<times> nat) outcome" where
  "field present p off k e =
     (if present then
        (if length p < off + k then Err e else bnd (be_read k p off) (\<lambda>v. Ok (v, off + k)))
      else Ok (0, off))"

section \<open>tfhd\<close>

record drmTfhd =
  baseDataOffsetPresent :: bool
  defaultBaseIsMoof :: bool
  defaultSampleSizePresent :: bool
  defaultSampleDurationPresent :: bool
  defaultSampleFlagsPresent :: bool
  baseDataOffset :: nat
  defaultSampleSize :: nat
  defaultSampleDuration :: nat

definition drmParseTfhd :: "byte list \<Rightarrow> (drm_err, drmTfhd) outcome" where
  "drmParseTfhd p =
     (if length p < 8 then Err (E ''tfhd too short'')
      else
        bnd (be_read 3 p 1) (\<lambda>flags.
        if length p < 4 + 4 then Err (E ''tfhd: missing track_ID'')
        else
        bnd (field (bit flags 0) p 8 8 (E ''tfhd: missing base_data_offset'')) (\<lambda>(bdo, off).
        bnd (field (bit flags 1) p off 4 (E ''tfhd: missing sample_description_index'')) (\<lambda>(_, off).
        bnd (field (bit flags 3) p off 4 (E ''tfhd: missing default_sample_duration'')) (\<lambda>(dur, off).
        bnd (field (bit flags 4) p off 4 (E ''tfhd: missing default_sample_size'')) (\<lambda>(sz, off).
        bnd (field (bit flags 5) p off 4 (E ''tfhd: missing default_sample_flags'')) (\<lambda>(_, off).
        Ok \<lparr>baseDataOffsetPresent = bit flags 0, defaultBaseIsMoof = bit flags 17,
            defaultSampleSizePresent = bit flags 4, defaultSampleDurationPresent = bit flags 3,
            defaultSampleFlagsPresent = bit flags 5, baseDataOffset = bdo, defaultSampleSize = sz,
            defaultSampleDuration = dur\<rparr>)))))))"

section \<open>trun\<close>

record drmTrunSample =
  Duration :: nat
  SSize :: nat
  Flags :: nat
  CTSOffset :: int

text \<open>One sample record, then the loop over \<open>n\<close> samples from index \<open>i\<close>.\<close>

definition trunSample :: "byte list \<Rightarrow> nat \<Rightarrow> nat \<Rightarrow> nat \<Rightarrow> (drm_err, drmTrunSample \<times> nat) outcome" where
  "trunSample p flags i off =
     bnd (field (bit flags 8) p off 4 (EI ''trun: sample missing duration'' i)) (\<lambda>(d, off).
     bnd (field (bit flags 9) p off 4 (EI ''trun: sample missing size'' i)) (\<lambda>(s, off).
     bnd (field (bit flags 10) p off 4 (EI ''trun: sample missing flags'' i)) (\<lambda>(f, off).
     bnd (field (bit flags 11) p off 4 (EI ''trun: sample missing CTS offset'' i)) (\<lambda>(c, off).
     Ok (\<lparr>Duration = d, SSize = s, Flags = f, CTSOffset = i32 (int c)\<rparr>, off)))))"

fun trunLoop :: "byte list \<Rightarrow> nat \<Rightarrow> nat \<Rightarrow> nat \<Rightarrow> nat \<Rightarrow> (drm_err, drmTrunSample list) outcome" where
  "trunLoop p flags i off 0 = Ok []"
| "trunLoop p flags i off (Suc n) =
     bnd (trunSample p flags i off) (\<lambda>(s, off).
     bnd (trunLoop p flags (i + 1) off n) (\<lambda>ss. Ok (s # ss)))"

definition perSampleBytes :: "nat \<Rightarrow> nat" where
  "perSampleBytes flags =
     (if bit flags 8 then 4 else 0) + (if bit flags 9 then 4 else 0) +
     (if bit flags 10 then 4 else 0) + (if bit flags 11 then 4 else 0)"

definition drmParseTrun :: "byte list \<Rightarrow> (drm_err, drmTrunSample list \<times> int) outcome" where
  "drmParseTrun p =
     (if length p < 8 then Err (E ''trun too short'')
      else
        bnd (be_read 3 p 1) (\<lambda>flags.
        bnd (be32 p 4) (\<lambda>sampleCount.
        bnd (field (bit flags 0) p 8 4 (E ''trun: missing data_offset'')) (\<lambda>(d, off).
        bnd (field (bit flags 2) p off 4 (E ''trun: missing first_sample_flags'')) (\<lambda>(_, off).
        if perSampleBytes flags > 0 \<and>
           sampleCount > ((length p - off) div perSampleBytes flags) mod 2 ^ 32
        then Err (E ''trun: sample_count exceeds box bounds'')
        else if perSampleBytes flags = 0 \<and> sampleCount > length p mod 2 ^ 32
        then Err (E ''trun: sample_count exceeds box size'')
        else bnd (trunLoop p flags 0 off sampleCount) (\<lambda>ss. Ok (ss, i32 (int d))))))))"

section \<open>senc\<close>

record drmSencEntry =
  IV :: "byte list"
  Subsamples :: "drmSubsample list"

definition sencMin :: "nat \<Rightarrow> bool \<Rightarrow> nat" where
  "sencMin ivSize hasSubs = ivSize + (if hasSubs then 2 else 0)"

text \<open>The allocating parse: subsamples, one entry, all entries.\<close>

fun sencSubs :: "byte list \<Rightarrow> nat \<Rightarrow> nat \<Rightarrow> nat \<Rightarrow> (drm_err, drmSubsample list \<times> nat) outcome" where
  "sencSubs p i off 0 = Ok ([], off)"
| "sencSubs p i off (Suc n) =
     (if length p < off + 6 then Err (EI ''senc: sub too short'' i)
      else bnd (be16 p off) (\<lambda>c. bnd (be32 p (off + 2)) (\<lambda>e.
           bnd (sencSubs p i (off + 6) n) (\<lambda>(ss, off').
           Ok (\<lparr>Clear = c, Encrypted = e\<rparr> # ss, off')))))"

definition sencEntry :: "byte list \<Rightarrow> nat \<Rightarrow> nat \<Rightarrow> nat \<Rightarrow> bool \<Rightarrow> (drm_err, drmSencEntry \<times> nat) outcome" where
  "sencEntry p i off ivSize hasSubs =
     (if length p < off + ivSize then Err (EI ''senc: need IV bytes'' i)
      else
        bnd (sliceN p off (off + ivSize)) (\<lambda>iv.
        let off = off + ivSize in
        if hasSubs then
          (if length p < off + 2 then Err (EI ''senc: missing subsample_count'' i)
           else bnd (be16 p off) (\<lambda>subCount.
             let off = off + 2 in
             if subCount > (length p - off) div 6 then Err (EI ''senc: subsample_count exceeds'' i)
             else bnd (sencSubs p i off subCount) (\<lambda>(ss, off). Ok (\<lparr>IV = iv, Subsamples = ss\<rparr>, off))))
        else Ok (\<lparr>IV = iv, Subsamples = []\<rparr>, off)))"

fun sencLoop :: "byte list \<Rightarrow> nat \<Rightarrow> nat \<Rightarrow> nat \<Rightarrow> bool \<Rightarrow> nat \<Rightarrow> (drm_err, drmSencEntry list \<times> nat) outcome" where
  "sencLoop p i off ivSize hasSubs 0 = Ok ([], off)"
| "sencLoop p i off ivSize hasSubs (Suc n) =
     bnd (sencEntry p i off ivSize hasSubs) (\<lambda>(e, off).
     bnd (sencLoop p (i + 1) off ivSize hasSubs n) (\<lambda>(es, off). Ok (e # es, off)))"

definition drmParseSencWithIVSize :: "byte list \<Rightarrow> nat \<Rightarrow> nat \<Rightarrow> bool \<Rightarrow>
    (drm_err, drmSencEntry list \<times> nat) outcome" where
  "drmParseSencWithIVSize p count ivSize hasSubs =
     (if sencMin ivSize hasSubs > 0 \<and> count > length p div sencMin ivSize hasSubs
      then Err (E ''senc: sample_count exceeds box bounds'')
      else sencLoop p 0 0 ivSize hasSubs count)"

text \<open>The counting probe.\<close>

fun consumedLoop :: "byte list \<Rightarrow> nat \<Rightarrow> nat \<Rightarrow> nat \<Rightarrow> bool \<Rightarrow> nat \<Rightarrow> (drm_err, nat) outcome" where
  "consumedLoop p i off ivSize hasSubs 0 = Ok off"
| "consumedLoop p i off ivSize hasSubs (Suc n) =
     (if length p < off + ivSize then Err (EI ''senc: need IV bytes'' i)
      else
        (let off = off + ivSize in
         if hasSubs then
           (if length p < off + 2 then Err (EI ''senc: missing subsample_count'' i)
            else bnd (be16 p off) (\<lambda>subCount.
              let off = off + 2 in
              if subCount > (length p - off) div 6 then Err (EI ''senc: subsample_count exceeds'' i)
              else consumedLoop p (i + 1) (off + subCount * 6) ivSize hasSubs n))
         else consumedLoop p (i + 1) off ivSize hasSubs n))"

definition drmParseSencConsumed :: "byte list \<Rightarrow> nat \<Rightarrow> nat \<Rightarrow> bool \<Rightarrow> (drm_err, nat) outcome" where
  "drmParseSencConsumed p count ivSize hasSubs =
     (if sencMin ivSize hasSubs > 0 \<and> count > length p div sencMin ivSize hasSubs
      then Err (E ''senc: sample_count exceeds box bounds'')
      else consumedLoop p 0 0 ivSize hasSubs count)"

definition sencFits :: "byte list \<Rightarrow> nat \<Rightarrow> bool \<Rightarrow> nat \<Rightarrow> (drm_err, bool) outcome" where
  "sencFits pl count hasSubs ivSize =
     (case drmParseSencConsumed pl count ivSize hasSubs of
        Ok n \<Rightarrow> Ok (n = length pl) | Err _ \<Rightarrow> Ok False | Panic \<Rightarrow> Panic)"

definition padIV :: "byte list \<Rightarrow> drmSencEntry \<Rightarrow> drmSencEntry" where
  "padIV fallbackIV e =
     (let e = (if length (IV e) = 8 then e\<lparr>IV := IV e @ replicate 8 0\<rparr> else e)
      in if length (IV e) = 0 \<and> length fallbackIV > 0 then e\<lparr>IV := fallbackIV\<rparr> else e)"

text \<open>The sizes that fit, in the order the source tries them; a panic of a probe is a panic of the parse.\<close>

fun sencMatches :: "byte list \<Rightarrow> nat \<Rightarrow> bool \<Rightarrow> nat list \<Rightarrow> (drm_err, nat list) outcome" where
  "sencMatches pl count hasSubs [] = Ok []"
| "sencMatches pl count hasSubs (c # cs) =
     bnd (sencFits pl count hasSubs c) (\<lambda>ok.
     bnd (sencMatches pl count hasSubs cs) (\<lambda>ms. Ok (if ok then c # ms else ms)))"

text \<open>The IV size to parse with; \<open>None\<close> when several fit an empty table.\<close>

definition sencIVSize :: "byte list \<Rightarrow> nat \<Rightarrow> bool \<Rightarrow> int \<Rightarrow> (drm_err, nat option) outcome" where
  "sencIVSize pl count hasSubs hint =
     bnd (if hint = 0 \<and> hasSubs \<or> hint = 8 \<or> hint = 16
          then sencFits pl count hasSubs (nat hint) else Ok False) (\<lambda>hinted.
     if hinted then Ok (Some (nat hint))
     else
       bnd (sencMatches pl count hasSubs (if hasSubs then [0, 8, 16] else [8, 16])) (\<lambda>matches.
       if length matches = 1 then Ok (Some (hd matches))
       else if length matches > 1 then
         (if count > 0 then Err (E ''senc: IV size ambiguous'') else Ok None)
       else Err (E ''senc: IV size ambiguous or corrupt'')))"

definition drmParseSenc :: "byte list \<Rightarrow> byte list \<Rightarrow> int \<Rightarrow> (drm_err, drmSencEntry list) outcome" where
  "drmParseSenc p fallbackIV hint =
     (if length p < 8 then Err (E ''senc too short'')
      else
        bnd (be_read 3 p 1) (\<lambda>flags.
        bnd (be32 p 4) (\<lambda>sampleCount.
        if sampleCount > (length p - 8) mod 2 ^ 32 then Err (E ''senc: sample_count exceeds remaining box bytes'')
        else
          bnd (sencIVSize (drop 8 p) sampleCount (bit flags 1) hint) (\<lambda>r.
          case r of
            None \<Rightarrow> Ok []
          | Some ivSize \<Rightarrow>
              bnd (drmParseSencWithIVSize (drop 8 p) sampleCount ivSize (bit flags 1)) (\<lambda>(es, _).
              Ok (map (padIV fallbackIV) es))))))"

section \<open>No parser panics\<close>

lemma field_cases:
  "field pr p off k e \<noteq> Panic"
  "field pr p off k e = Ok (v, off') \<Longrightarrow> off' = off + (if pr then k else 0) \<and> (pr \<longrightarrow> off' \<le> length p) \<and> v < 256 ^ k"
proof -
  assume f: "field pr p off k e = Ok (v, off')"
  have "be_nat (take k (drop off p)) < 256 ^ k" if "off + k \<le> length p"
    using be_nat_less [of "take k (drop off p)"] that by simp
  with f show "off' = off + (if pr then k else 0) \<and> (pr \<longrightarrow> off' \<le> length p) \<and> v < 256 ^ k"
    by (auto simp: field_def be_read_def split: if_splits)
qed (auto simp: field_def be_read_def)

lemma field_less: "field pr p off k e = Ok (v, off') \<Longrightarrow> v < 256 ^ k"
  using field_cases(2) by blast

lemma tfhd_no_panic: "drmParseTfhd p \<noteq> Panic"
  by (auto simp: drmParseTfhd_def go_simps be_read_def field_cases(1) split: if_splits)

lemma tfhd_bounds:
  assumes "drmParseTfhd p = Ok t"
  shows "baseDataOffset t < 2 ^ 64" "defaultSampleSize t < 2 ^ 32"
  using assms by (cases "length p < 8"; auto simp: drmParseTfhd_def bnd_eq_Ok dest!: field_less)+

lemma trunSample_no_panic: "trunSample p flags i off \<noteq> Panic"
  by (auto simp: trunSample_def go_simps field_cases(1))

lemma trunLoop_no_panic: "trunLoop p flags i off n \<noteq> Panic"
  by (induction n arbitrary: i off) (auto simp: go_simps trunSample_no_panic)

lemma trun_no_panic: "drmParseTrun p \<noteq> Panic"
  by (auto simp: drmParseTrun_def go_simps be_read_def field_cases(1) trunLoop_no_panic split: if_splits)

lemma trunLoop_ok:
  "trunLoop p flags i off n = Ok ss \<Longrightarrow> length ss = n \<and> (\<forall>s \<in> set ss. SSize s < 2 ^ 32)"
  by (induction n arbitrary: i off ss) (auto simp: bnd_eq_Ok trunSample_def dest!: field_less)

lemma sencSubs_spec:
  "off + n * 6 \<le> length p \<Longrightarrow> \<exists>ss. sencSubs p i off n = Ok (ss, off + n * 6) \<and> length ss = n"
proof (induction n arbitrary: off)
  case (Suc n)
  have "off + 6 + n * 6 \<le> length p" using Suc.prems by simp
  from Suc.IH [OF this] obtain ss where "sencSubs p i (off + 6) n = Ok (ss, off + 6 + n * 6)" "length ss = n"
    by blast
  with Suc.prems show ?case by (simp add: be_read_def)
qed simp

lemma div6: "n \<le> m div 6 \<longleftrightarrow> n * 6 \<le> (m::nat)"
  by (simp add: less_eq_div_iff_mult_less_eq)

text \<open>The probe and the parse agree step by step.\<close>

definition consumed_of :: "(drm_err, drmSencEntry list \<times> nat) outcome \<Rightarrow> (drm_err, nat) outcome" where
  "consumed_of r = bnd r (\<lambda>(es, n). Ok n)"

lemma consumed_entry:
  "consumedLoop p i off ivSize hasSubs (Suc n) =
     bnd (sencEntry p i off ivSize hasSubs) (\<lambda>(e, off). consumedLoop p (i + 1) off ivSize hasSubs n)"
proof (cases "length p < off + ivSize \<or> hasSubs \<and> length p < off + ivSize + 2")
  case True
  then show ?thesis by (auto simp: sencEntry_def sliceN_def Let_def)
next
  case False
  show ?thesis
  proof (cases hasSubs)
    case True
    let ?o = "off + ivSize + 2" and ?c = "be_nat (take 2 (drop (off + ivSize) p))"
    show ?thesis
    proof (cases "?c > (length p - ?o) div 6")
      case True
      with False \<open>hasSubs\<close> show ?thesis by (simp add: sencEntry_def sliceN_def Let_def be_read_def)
    next
      case fit: False
      then have "?c * 6 \<le> length p - ?o" by (simp only: not_less div6)
      then have "?o + ?c * 6 \<le> length p" using False \<open>hasSubs\<close> by linarith
      then obtain ss where "sencSubs p i ?o ?c = Ok (ss, ?o + ?c * 6)" using sencSubs_spec by blast
      with False fit \<open>hasSubs\<close> show ?thesis by (simp add: sencEntry_def sliceN_def Let_def be_read_def)
    qed
  qed (use False in \<open>simp add: sencEntry_def sliceN_def Let_def\<close>)
qed

lemma consumedLoop_eq:
  "consumedLoop p i off ivSize hasSubs n = consumed_of (sencLoop p i off ivSize hasSubs n)"
proof (induction n arbitrary: i off)
  case (Suc n)
  show ?case
    unfolding consumed_entry sencLoop.simps consumed_of_def bnd_assoc
    by (rule bnd_cong [OF refl]) (auto simp: Suc.IH consumed_of_def bnd_assoc split: prod.splits intro!: bnd_cong)
qed (simp add: consumed_of_def)

lemma sencEntry_no_panic: "sencEntry p i off ivSize hasSubs \<noteq> Panic"
proof -
  have "consumedLoop p i off ivSize hasSubs (Suc 0) \<noteq> Panic"
    by (auto simp: be_read_def Let_def go_simps split: if_splits)
  then show ?thesis unfolding consumed_entry by (auto simp: go_simps)
qed

lemma sencLoop_no_panic: "sencLoop p i off ivSize hasSubs n \<noteq> Panic"
  by (induction n arbitrary: i off) (auto simp: go_simps sencEntry_no_panic)

lemma sencFits_no_panic: "sencFits pl c hs iv \<noteq> Panic"
  using sencLoop_no_panic
  by (auto simp: sencFits_def drmParseSencConsumed_def consumedLoop_eq consumed_of_def go_simps
      split: outcome.splits if_splits)

lemma sencMatches_no_panic: "sencMatches pl c hs cs \<noteq> Panic"
  by (induction cs) (auto simp: go_simps sencFits_no_panic)

lemma sencParse_no_panic: "drmParseSencWithIVSize p c iv hs \<noteq> Panic"
  by (simp add: drmParseSencWithIVSize_def sencLoop_no_panic)

lemma sencIVSize_no_panic: "sencIVSize pl c hs hint \<noteq> Panic"
  unfolding sencIVSize_def
  by (rule bnd_no_panic, simp add: sencFits_no_panic)
     (simp add: bnd_eq_Panic sencMatches_no_panic del: sencMatches.simps)

lemma senc_no_panic: "drmParseSenc p fb hint \<noteq> Panic"
  by (cases "length p < 8")
     (simp_all add: drmParseSenc_def bnd_eq_Panic sencIVSize_no_panic sencParse_no_panic split: option.split)

section \<open>Encoding of the senc table\<close>

definition sub_bytes :: "drmSubsample \<Rightarrow> byte list" where
  "sub_bytes s = be_bytes 2 (Clear s) @ be_bytes 4 (Encrypted s)"

definition entry_bytes :: "bool \<Rightarrow> drmSencEntry \<Rightarrow> byte list" where
  "entry_bytes hasSubs e =
     IV e @ (if hasSubs then be_bytes 2 (length (Subsamples e)) @ concat (map sub_bytes (Subsamples e)) else [])"

definition entry_ok :: "nat \<Rightarrow> bool \<Rightarrow> drmSencEntry \<Rightarrow> bool" where
  "entry_ok ivSize hasSubs e \<longleftrightarrow> length (IV e) = ivSize \<and>
     (if hasSubs then length (Subsamples e) < 2 ^ 16 \<and>
        (\<forall>s \<in> set (Subsamples e). Clear s < 2 ^ 16 \<and> Encrypted s < 2 ^ 32)
      else Subsamples e = [])"

lemma length_subs_bytes [simp]: "length (concat (map sub_bytes ss)) = 6 * length ss"
  by (induction ss) (simp_all add: sub_bytes_def)

lemma sencSubs_encode:
  assumes "\<forall>s \<in> set ss. Clear s < 2 ^ 16 \<and> Encrypted s < 2 ^ 32"
  shows "sencSubs (pre @ concat (map sub_bytes ss) @ post) i (length pre) (length ss) =
    Ok (ss, length pre + 6 * length ss)"
  using assms
proof (induction ss arbitrary: pre)
  case (Cons s ss)
  let ?p = "pre @ concat (map sub_bytes (s # ss)) @ post"
  have "be16 ?p (length pre) = Ok (Clear s)"
    using be_read_append [of "Clear s" 2 pre] Cons.prems by (simp add: sub_bytes_def)
  moreover have "be32 ?p (length pre + 2) = Ok (Encrypted s)"
    using be_read_append [of "Encrypted s" 4 "pre @ be_bytes 2 (Clear s)"] Cons.prems by (simp add: sub_bytes_def)
  moreover have "sencSubs ?p i (length pre + 6) (length ss) = Ok (ss, length pre + 6 + 6 * length ss)"
    using Cons.IH [of "pre @ sub_bytes s"] Cons.prems by (simp add: sub_bytes_def [of s])
  ultimately show ?case using Cons.prems by (simp add: sub_bytes_def [of s])
qed simp

lemma sencEntry_encode:
  assumes "entry_ok ivSize hasSubs e"
  shows "sencEntry (pre @ entry_bytes hasSubs e @ post) i (length pre) ivSize hasSubs =
    Ok (e, length pre + length (entry_bytes hasSubs e))"
proof (cases hasSubs)
  case False
  with assms show ?thesis
    by (simp add: sencEntry_def entry_bytes_def entry_ok_def sliceN_def Let_def)
next
  case True
  let ?ss = "Subsamples e"
  let ?p = "pre @ entry_bytes hasSubs e @ post" and ?pre = "pre @ IV e @ be_bytes 2 (length ?ss)"
  have p: "?p = (pre @ IV e) @ be_bytes 2 (length ?ss) @ concat (map sub_bytes ?ss) @ post"
    "?p = ?pre @ concat (map sub_bytes ?ss) @ post"
    using True by (simp_all add: entry_bytes_def)
  have iv: "length (IV e) = ivSize" using assms by (simp add: entry_ok_def)
  have c: "be16 ?p (length pre + ivSize) = (Ok (length ?ss) :: (drm_err, nat) outcome)"
    unfolding p(1) using be_read_append [of "length ?ss" 2 "pre @ IV e"] assms True
    by (simp add: entry_ok_def iv)
  have "sencSubs ?p i (length ?pre) (length ?ss) = Ok (?ss, length ?pre + 6 * length ?ss)"
    unfolding p(2) using assms True by (intro sencSubs_encode) (simp add: entry_ok_def)
  then have s: "sencSubs ?p i (length pre + ivSize + 2) (length ?ss) =
      Ok (?ss, length pre + ivSize + 2 + 6 * length ?ss)"
    by (simp add: iv add.assoc)
  have len: "length ?p = length pre + ivSize + 2 + 6 * length ?ss + length post"
    unfolding p(1) by (simp add: iv)
  have sl: "sliceN ?p (length pre) (length pre + ivSize) = (Ok (IV e) :: (drm_err, byte list) outcome)"
    using True by (simp add: sliceN_def entry_bytes_def iv)
  have fit: "\<not> length ?ss > (length ?p - (length pre + ivSize + 2)) div 6"
    unfolding len not_less div6 by simp
  show ?thesis
    unfolding sencEntry_def using True c s sl fit len
    by (simp add: Let_def entry_bytes_def iv)
qed

lemma sencLoop_encode:
  "\<forall>e \<in> set es. entry_ok ivSize hasSubs e \<Longrightarrow>
   sencLoop (pre @ concat (map (entry_bytes hasSubs) es) @ post) i (length pre) ivSize hasSubs (length es) =
     Ok (es, length pre + length (concat (map (entry_bytes hasSubs) es)))"
proof (induction es arbitrary: pre i)
  case (Cons e es)
  let ?p = "pre @ concat (map (entry_bytes hasSubs) (e # es)) @ post"
  have "sencEntry ?p i (length pre) ivSize hasSubs = Ok (e, length pre + length (entry_bytes hasSubs e))"
    using sencEntry_encode [of ivSize hasSubs e pre "concat (map (entry_bytes hasSubs) es) @ post"] Cons.prems
    by simp
  moreover have "sencLoop ?p (i + 1) (length pre + length (entry_bytes hasSubs e)) ivSize hasSubs (length es) =
      Ok (es, length pre + length (entry_bytes hasSubs e) + length (concat (map (entry_bytes hasSubs) es)))"
    using Cons.IH [of "pre @ entry_bytes hasSubs e" "i + 1"] Cons.prems by simp
  ultimately show ?case by simp
qed simp

section \<open>Properties\<close>

text \<open>The counting probe \<open>drmParseSencConsumed\<close> agrees with the allocating parse: on every input it reports
  the number of bytes the parse consumes, or the same error.\<close>

theorem senc_consumed_agrees:
  "drmParseSencConsumed p count ivSize hasSubs =
     (case drmParseSencWithIVSize p count ivSize hasSubs of
        Ok (es, n) \<Rightarrow> Ok n | Err e \<Rightarrow> Err e | Panic \<Rightarrow> Panic)"
  by (auto simp: drmParseSencConsumed_def drmParseSencWithIVSize_def consumedLoop_eq consumed_of_def
      split: outcome.split)

text \<open>Parsing the encoding of a table of per-sample IVs and subsamples gives the table back and consumes every
  byte.\<close>

theorem senc_roundtrip:
  assumes "\<forall>e \<in> set es. entry_ok ivSize hasSubs e"
  shows "drmParseSencWithIVSize (concat (map (entry_bytes hasSubs) es)) (length es) ivSize hasSubs =
    Ok (es, length (concat (map (entry_bytes hasSubs) es)))"
proof -
  have "length es * sencMin ivSize hasSubs \<le> length (concat (map (entry_bytes hasSubs) es))"
    using assms by (induction es) (auto simp: entry_bytes_def entry_ok_def sencMin_def)
  then have "\<not> (0 < sencMin ivSize hasSubs \<and>
      length es > length (concat (map (entry_bytes hasSubs) es)) div sencMin ivSize hasSubs)"
    by (cases "sencMin ivSize hasSubs = 0") (auto simp: not_less less_eq_div_iff_mult_less_eq)
  then show ?thesis
    using sencLoop_encode [OF assms, of "[]" "[]" 0] by (auto simp: drmParseSencWithIVSize_def)
qed

theorem senc_roundtrip_witness:
  "drmParseSencWithIVSize (concat (map (entry_bytes True) [\<lparr>IV = [1, 2, 3, 4, 5, 6, 7, 8],
     Subsamples = [\<lparr>Clear = 5, Encrypted = 300\<rparr>]\<rparr>])) 1 8 True =
   Ok ([\<lparr>IV = [1, 2, 3, 4, 5, 6, 7, 8], Subsamples = [\<lparr>Clear = 5, Encrypted = 300\<rparr>]\<rparr>], 16)"
  using senc_roundtrip [of "[\<lparr>IV = [1, 2, 3, 4, 5, 6, 7, 8], Subsamples = [\<lparr>Clear = 5, Encrypted = 300\<rparr>]\<rparr>]" 8 True]
  by (simp add: entry_ok_def entry_bytes_def sub_bytes_def)

text \<open>No fragment parser panics: \<open>tfhd\<close>, \<open>trun\<close>, \<open>senc\<close> and \<open>tenc\<close> return a value or an error on every
  input, whatever counts and sizes it declares.\<close>

theorem fragment_parsers_no_panic:
  "drmParseTfhd p \<noteq> Panic \<and> drmParseTrun p \<noteq> Panic \<and> drmParseSenc p iv hint \<noteq> Panic \<and> drmParseTenc p \<noteq> Panic"
proof -
  have "drmParseTenc p \<noteq> Panic"
  proof (cases "length p < 24")
    case False
    then have p: "p \<noteq> []" by auto
    with False p show ?thesis by (auto simp: drmParseTenc_def Let_def bnd_eq_Panic)
  qed (simp add: drmParseTenc_def)
  then show ?thesis using tfhd_no_panic trun_no_panic senc_no_panic by blast
qed

end
