(* ===== verification/Drm_Cipher.thy ===== *)
theory Drm_Cipher
  imports Drm_Frag
begin

text \<open>
  \<open>internal/streamproxy/drm.go\<close>, ciphers: the bounded cache of AES key schedules, AES-128-CBC with PKCS7
  padding, AES-CTR over subsamples and the AES-CBC pattern mode of \<open>cbcs\<close>. The block cipher itself
  (\<open>crypto/aes\<close>) is a parameter, so every theorem holds for any pair of 16-byte block functions; the modes of
  \<open>crypto/cipher\<close> the code calls (CBC decryption, CTR) are defined here.
\<close>

record aesBlock =
  Encrypt :: "byte list \<Rightarrow> byte list"
  Decrypt :: "byte list \<Rightarrow> byte list"

section \<open>The block cache\<close>

definition aesBlockMaxEntries :: nat where "aesBlockMaxEntries = 256"

type_synonym block_cache = "(byte list \<times> aesBlock) list"

text \<open>The second critical section of \<open>cachedAESBlock\<close>; between the two another caller may have stored the key.\<close>

definition cacheStore :: "block_cache \<Rightarrow> byte list \<Rightarrow> aesBlock \<Rightarrow> aesBlock \<times> block_cache" where
  "cacheStore c key b =
     (case map_of c key of
        Some existing \<Rightarrow> (existing, c)
      | None \<Rightarrow> (b, (key, b) # (if length c \<ge> aesBlockMaxEntries then [] else c)))"

definition cachedAESBlock :: "(byte list \<Rightarrow> aesBlock option) \<Rightarrow> block_cache \<Rightarrow> byte list \<Rightarrow>
    (drm_err, aesBlock) outcome \<times> block_cache" where
  "cachedAESBlock newCipher c key =
     (case map_of c key of
        Some b \<Rightarrow> (Ok b, c)
      | None \<Rightarrow>
          (case newCipher key of
             None \<Rightarrow> (Err (E ''aes: invalid key size''), c)
           | Some b \<Rightarrow> (case cacheStore c key b of (b', c') \<Rightarrow> (Ok b', c'))))"

section \<open>CBC and PKCS7\<close>

definition xorb :: "byte list \<Rightarrow> byte list \<Rightarrow> byte list" where
  "xorb a b = map2 (XOR) a b"

text \<open>\<open>cipher.NewCBCDecrypter(...).CryptBlocks\<close>: the plaintext and the chaining block it leaves behind.\<close>

function cbcDec :: "(byte list \<Rightarrow> byte list) \<Rightarrow> byte list \<Rightarrow> byte list \<Rightarrow> byte list \<times> byte list" where
  "cbcDec D iv xs =
     (if length xs < 16 then ([], iv)
      else
        (let c = take 16 xs; (r, iv') = cbcDec D c (drop 16 xs)
         in (xorb (D c) iv @ r, iv')))"
  by pat_completeness auto
termination by (relation "measure (\<lambda>(D, iv, xs). length xs)") auto

declare cbcDec.simps [simp del]

fun padFrom :: "nat \<Rightarrow> byte \<Rightarrow> byte list \<Rightarrow> nat option" where
  "padFrom i p [] = None"
| "padFrom i p (x # xs) = (if x \<noteq> p then Some i else padFrom (i + 1) p xs)"

definition drmStripPKCS7 :: "byte list \<Rightarrow> (drm_err, byte list) outcome" where
  "drmStripPKCS7 b =
     (if length b = 0 then Err (E ''CBC: empty plaintext after decrypt'')
      else
        bnd (idx b (length b - 1)) (\<lambda>last.
        let pad = unat last in
        if pad = 0 \<or> pad > 16 then Err (E ''CBC: invalid PKCS7 padding byte'')
        else if pad > length b then Err (E ''CBC: padding length exceeds data length'')
        else
          (case padFrom (length b - pad) (of_nat pad) (drop (length b - pad) b) of
             Some i \<Rightarrow> Err (EI ''CBC: invalid PKCS7 padding'' i)
           | None \<Rightarrow> sliceN b 0 (length b - pad))))"

text \<open>\<open>drmCBC\<close>: the result and what is left in the caller's buffer.\<close>

definition drmCBC :: "(byte list \<Rightarrow> aesBlock option) \<Rightarrow> byte list \<Rightarrow> byte list \<Rightarrow> byte list \<Rightarrow> bool \<Rightarrow>
    (drm_err, byte list) outcome \<times> byte list" where
  "drmCBC newCipher key iv data inPlace =
     (if length key \<noteq> 16 then (Err (E ''CBC: key must be 16 bytes''), data)
      else if length iv \<noteq> 16 then (Err (E ''CBC: IV must be 16 bytes''), data)
      else if length data = 0 then (Err (E ''CBC: empty segment''), data)
      else if length data mod 16 \<noteq> 0 then (Err (E ''CBC: segment length is not a multiple of 16''), data)
      else
        (case newCipher key of
           None \<Rightarrow> (Err (E ''CBC''), data)
         | Some block \<Rightarrow>
             (let out = fst (cbcDec (Decrypt block) iv data)
              in (drmStripPKCS7 out, if inPlace then out else data))))"

section \<open>CTR over subsamples\<close>

text \<open>Increment of the bytes \<open>lo..i-1\<close> of a counter block as one big-endian number: \<open>lo = 8\<close> is the source's
  \<open>incCounter\<close>, \<open>lo = 0\<close> is the increment of \<open>cipher.NewCTR\<close>.\<close>

fun incFrom :: "nat \<Rightarrow> nat \<Rightarrow> byte list \<Rightarrow> byte list" where
  "incFrom lo 0 cb = cb"
| "incFrom lo (Suc i) cb =
     (if i < lo then cb
      else (let cb' = cb[i := cb ! i + 1] in if cb' ! i \<noteq> 0 then cb' else incFrom lo i cb'))"

definition incCounter :: "byte list \<Rightarrow> byte list" where
  "incCounter cb = incFrom 8 16 cb"

definition ctrBlockOf :: "byte list \<Rightarrow> byte list" where
  "ctrBlockOf iv =
     (if length iv \<ge> 16 then take 16 iv
      else iv @ replicate (16 - length iv) 0)"

text \<open>\<open>cipher.NewCTR(...).XORKeyStream\<close>: a 128-bit counter.\<close>

function ctrStream :: "(byte list \<Rightarrow> byte list) \<Rightarrow> byte list \<Rightarrow> byte list \<Rightarrow> byte list" where
  "ctrStream En ctr xs =
     (if xs = [] then []
      else xorb (take 16 xs) (En ctr) @ ctrStream En (incFrom 0 16 ctr) (drop 16 xs))"
  by pat_completeness auto
termination by (relation "measure (\<lambda>(En, ctr, xs). length xs)") auto

declare ctrStream.simps [simp del]

record ctrState =
  cdata :: "byte list"
  dataOff :: nat
  ksPos :: nat
  ksBlock :: "byte list"
  ctrBlock :: "byte list"

text \<open>\<open>data[off+i] ^= ks[kp+i]\<close> for \<open>i < n\<close>.\<close>

definition xorAt :: "byte list \<Rightarrow> nat \<Rightarrow> byte list \<Rightarrow> nat \<Rightarrow> nat \<Rightarrow> byte list" where
  "xorAt d off ks kp n = take off d @ xorb (take n (drop off d)) (take n (drop kp ks)) @ drop (off + n) d"

definition encTake :: "ctrState \<Rightarrow> nat \<Rightarrow> nat" where
  "encTake s enc = min (min enc (16 - ksPos s)) (length (cdata s) - dataOff s)"

definition encStep :: "(byte list \<Rightarrow> byte list) \<Rightarrow> ctrState \<Rightarrow> nat \<Rightarrow> ctrState" where
  "encStep En s n =
     (let s = s\<lparr>cdata := xorAt (cdata s) (dataOff s) (ksBlock s) (ksPos s) n,
                dataOff := dataOff s + n, ksPos := ksPos s + n\<rparr>
      in if ksPos s = 16 then
           (let cb = incCounter (ctrBlock s)
            in s\<lparr>ctrBlock := cb, ksBlock := En cb, ksPos := 0\<rparr>)
         else s)"

text \<open>The \<open>for enc > 0\<close> loop. The position in the keystream block is below 16 whenever the loop runs
  (\<open>ctr_inv\<close>), so the test \<open>encTake s enc = 0\<close> only stops it at the end of the data.\<close>

function encLoop :: "(byte list \<Rightarrow> byte list) \<Rightarrow> ctrState \<Rightarrow> nat \<Rightarrow> ctrState" where
  "encLoop En s enc =
     (if enc > 0 \<and> dataOff s < length (cdata s) \<and> encTake s enc > 0
      then encLoop En (encStep En s (encTake s enc)) (enc - encTake s enc) else s)"
  by pat_completeness auto
termination by (relation "measure (\<lambda>(En, s, enc). enc)") auto

declare encLoop.simps [simp del]

definition subStep :: "(byte list \<Rightarrow> byte list) \<Rightarrow> drmSubsample \<Rightarrow> ctrState \<Rightarrow> ctrState" where
  "subStep En sub s =
     encLoop En (if Clear sub > 0 then s\<lparr>dataOff := min (dataOff s + Clear sub) (length (cdata s))\<rparr> else s)
       (Encrypted sub)"

definition drmDecryptCTRSubsamples :: "(byte list \<Rightarrow> aesBlock option) \<Rightarrow> byte list \<Rightarrow> byte list \<Rightarrow> byte list \<Rightarrow>
    drmSubsample list \<Rightarrow> (drm_err, byte list) outcome" where
  "drmDecryptCTRSubsamples newCipher key iv data subs =
     (if length key \<noteq> 16 then Err (E ''CTR: key must be 16 bytes'')
      else
        (case newCipher key of
           None \<Rightarrow> Err (E ''CTR'')
         | Some block \<Rightarrow>
             (let ctr = ctrBlockOf iv
              in if subs = [] then Ok (ctrStream (Encrypt block) ctr data)
                 else Ok (cdata (fold (subStep (Encrypt block)) subs
                        \<lparr>cdata = data, dataOff = 0, ksPos = 0, ksBlock = Encrypt block ctr, ctrBlock = ctr\<rparr>)))))"

section \<open>CBC pattern mode\<close>

text \<open>The loop of \<open>drmCBCSPattern\<close> from block \<open>blk\<close> on: the rest of the span after decryption.\<close>

function cbcsLoop :: "(byte list \<Rightarrow> byte list) \<Rightarrow> byte list \<Rightarrow> nat \<Rightarrow> nat \<Rightarrow> nat \<Rightarrow> byte list \<Rightarrow> byte list" where
  "cbcsLoop D iv full cryptB skipB span =
     (if full = 0 \<or> cryptB = 0 then span
      else
        (let n = min cryptB full;
             (run, iv') = cbcDec D iv (take (n * 16) span);
             m = min (cryptB + skipB) full
         in run @ take ((m - n) * 16) (drop (n * 16) span) @
            cbcsLoop D iv' (full - m) cryptB skipB (drop (m * 16) span)))"
  by pat_completeness auto
termination by (relation "measure (\<lambda>(D, iv, full, c, k, span). full)") auto

declare cbcsLoop.simps [simp del]

definition drmCBCSPattern :: "aesBlock \<Rightarrow> byte list \<Rightarrow> byte list \<Rightarrow> nat \<Rightarrow> nat \<Rightarrow> byte list" where
  "drmCBCSPattern block iv span cryptB skipB =
     (let full = length span div 16
      in if full = 0 then span
         else if cryptB = 0 then
           fst (cbcDec (Decrypt block) iv (take (full * 16) span)) @ drop (full * 16) span
         else cbcsLoop (Decrypt block) iv full cryptB skipB span)"

text \<open>\<open>drmDecryptCBCSubsamples\<close>: an error leaves the spans before it decrypted, so the buffer is returned with the
  error.\<close>

fun cbcsSubs :: "aesBlock \<Rightarrow> byte list \<Rightarrow> nat \<Rightarrow> nat \<Rightarrow> byte list \<Rightarrow> nat \<Rightarrow> drmSubsample list \<Rightarrow>
    byte list \<times> drm_err option" where
  "cbcsSubs block iv c k data off [] = (data, None)"
| "cbcsSubs block iv c k data off (sub # subs) =
     (let off = off + Clear sub
      in if off > length data then (data, Some (E ''CBC subsample: clear span exceeds data len''))
         else if Encrypted sub = 0 then cbcsSubs block iv c k data off subs
         else
           (let e = off + Encrypted sub
            in if e > length data then (data, Some (E ''CBC subsample: encrypted span exceeds data len''))
               else cbcsSubs block iv c k
                 (take off data @ drmCBCSPattern block iv (view data off (Encrypted sub)) c k @ drop e data) e subs))"

definition drmDecryptCBCSubsamples :: "(byte list \<Rightarrow> aesBlock option) \<Rightarrow> byte list \<Rightarrow> byte list \<Rightarrow> byte list \<Rightarrow>
    drmSubsample list \<Rightarrow> nat \<Rightarrow> nat \<Rightarrow> byte list \<times> drm_err option" where
  "drmDecryptCBCSubsamples newCipher key iv data subs cryptB skipB =
     (if length key \<noteq> 16 then (data, Some (E ''CBC subsample: key must be 16 bytes''))
      else
        (let iv = (if length iv < 16 then iv @ replicate (16 - length iv) 0 else take 16 iv)
         in case newCipher key of
              None \<Rightarrow> (data, Some (E ''CBC subsample''))
            | Some block \<Rightarrow>
                if subs = [] then (drmCBCSPattern block iv data cryptB skipB, None)
                else cbcsSubs block iv cryptB skipB data 0 subs))"

end
