(* ===== verification/Drm_Modes.thy ===== *)
theory Drm_Modes
  imports Drm_Cipher
begin

text \<open>
  The cipher modes of \<open>drm.go\<close> against their specifications: the block cache is transparent and bounded;
  PKCS7 and CBC undo encryption; the chunked CTR loop is the bytewise XOR with one keystream over the
  encrypted spans; the pattern loop of \<open>cbcs\<close> undoes pattern encryption.
\<close>

section \<open>XOR of blocks\<close>

lemma length_xorb [simp]: "length (xorb a b) = min (length a) (length b)"
  by (simp add: xorb_def)

lemma xorb_nth [simp]: "i < length a \<Longrightarrow> i < length b \<Longrightarrow> xorb a b ! i = a ! i XOR b ! i"
  by (simp add: xorb_def)

lemma xorb_cancel: "length a \<le> length b \<Longrightarrow> xorb (xorb a b) b = a"
  by (rule nth_equalityI) (simp_all add: xor.assoc)

lemma xorb_append: "length a = length c \<Longrightarrow> xorb (a @ b) (c @ d) = xorb a c @ xorb b d"
  by (simp add: xorb_def)

section \<open>The block cache\<close>

definition cache_ok :: "(byte list \<Rightarrow> aesBlock option) \<Rightarrow> block_cache \<Rightarrow> bool" where
  "cache_ok nc c \<longleftrightarrow> length c \<le> aesBlockMaxEntries \<and> distinct (map fst c) \<and> (\<forall>(k, b) \<in> set c. nc k = Some b)"

lemma cacheStore_ok:
  assumes "cache_ok nc c" "nc key = Some b"
  shows "cache_ok nc (snd (cacheStore c key b)) \<and> fst (cacheStore c key b) = b"
proof (cases "map_of c key")
  case None
  then have "key \<notin> set (map fst c)" by (simp add: map_of_eq_None_iff)
  with assms None show ?thesis
    by (auto simp: cacheStore_def cache_ok_def aesBlockMaxEntries_def)
next
  case (Some b')
  then have "nc key = Some b'" using assms(1) map_of_SomeD [OF Some] by (auto simp: cache_ok_def)
  with Some assms show ?thesis by (simp add: cacheStore_def)
qed

text \<open>The cache as a state machine: each completed key schedule runs the storing section.\<close>

inductive cache_step :: "(byte list \<Rightarrow> aesBlock option) \<Rightarrow> block_cache \<Rightarrow> block_cache \<Rightarrow> bool"
  for nc :: "byte list \<Rightarrow> aesBlock option" where
  "nc key = Some b \<Longrightarrow> cache_step nc c (snd (cacheStore c key b))"

interpretation cache_sys: inv_system "\<lambda>c. c = []" "cache_step nc" "cache_ok nc" for nc
  by unfold_locales (auto simp: cache_ok_def [of _ "[]"] cacheStore_ok elim!: cache_step.cases)

text \<open>The cache of AES key schedules is transparent and bounded: after any sequence of stores it holds at most
  256 entries with distinct keys, and a lookup returns exactly what deriving the key anew would return.\<close>

theorem aes_cache_transparent:
  assumes "reach (\<lambda>c. c = []) (cache_step newCipher) c"
  shows "length c \<le> 256 \<and> distinct (map fst c) \<and>
    fst (cachedAESBlock newCipher c key) =
      (case newCipher key of Some b \<Rightarrow> Ok b | None \<Rightarrow> Err (E ''aes: invalid key size''))"
proof -
  have ok: "cache_ok newCipher c" using assms by (rule cache_sys.reach_inv)
  have "newCipher key = Some b" if "map_of c key = Some b" for b
    using ok map_of_SomeD [OF that] by (auto simp: cache_ok_def)
  with ok cacheStore_ok [OF ok, of key] show ?thesis
    by (auto simp: cachedAESBlock_def cache_ok_def aesBlockMaxEntries_def split: option.split prod.split)
qed

definition toy :: aesBlock where
  "toy = \<lparr>Encrypt = map (\<lambda>x. x XOR 90), Decrypt = map (\<lambda>x. x XOR 90)\<rparr>"

definition toyCipher :: "byte list \<Rightarrow> aesBlock option" where
  "toyCipher k = (if length k = 16 then Some toy else None)"

theorem aes_cache_transparent_witness:
  "fst (cachedAESBlock toyCipher (snd (cacheStore [] (replicate 16 1) toy)) (replicate 16 2)) = Ok toy"
proof -
  have "reach (\<lambda>c. c = []) (cache_step toyCipher) (snd (cacheStore [] (replicate 16 1) toy))"
    by (rule reach_step [OF reach_start [of _ "[]"]]) (auto intro!: cache_step.intros simp: toyCipher_def)
  from aes_cache_transparent [OF this, of "replicate 16 2"] show ?thesis
    by (simp add: toyCipher_def)
qed

section \<open>PKCS7 and CBC\<close>

definition pkcs7 :: "byte list \<Rightarrow> byte list" where
  "pkcs7 x = (let k = 16 - length x mod 16 in x @ replicate k (of_nat k))"

lemma padFrom_None: "padFrom i p xs = None \<longleftrightarrow> (\<forall>x \<in> set xs. x = p)"
  by (induction i p xs rule: padFrom.induct) auto

lemma strip_padded:
  assumes "1 \<le> k" "k \<le> 16"
  shows "drmStripPKCS7 (x @ replicate k (of_nat k)) = Ok x"
proof -
  have u: "unat (of_nat k :: byte) = k" using assms by (simp add: unat_of_nat)
  have "(x @ replicate k (of_nat k)) ! (length x + k - 1) = (of_nat k :: byte)"
    using assms by (subst nth_append_right) auto
  moreover have "padFrom (length x) (of_nat k) (replicate k (of_nat k)) = None"
    by (simp add: padFrom_None)
  ultimately show ?thesis
    using assms u by (simp add: drmStripPKCS7_def Let_def)
qed

function cbcEnc :: "(byte list \<Rightarrow> byte list) \<Rightarrow> byte list \<Rightarrow> byte list \<Rightarrow> byte list" where
  "cbcEnc En iv xs =
     (if length xs < 16 then []
      else (let c = En (xorb (take 16 xs) iv) in c @ cbcEnc En c (drop 16 xs)))"
  by pat_completeness auto
termination by (relation "measure (\<lambda>(En, iv, xs). length xs)") auto

declare cbcEnc.simps [simp del]

text \<open>What the modes need of the block cipher.\<close>

definition block_ok :: "aesBlock \<Rightarrow> bool" where
  "block_ok b \<longleftrightarrow> (\<forall>x. length x = 16 \<longrightarrow> length (Encrypt b x) = 16 \<and> Decrypt b (Encrypt b x) = x)"

lemma cbc_inverse:
  assumes "block_ok b"
  shows "length iv = 16 \<Longrightarrow> length xs mod 16 = 0 \<Longrightarrow>
    fst (cbcDec (Decrypt b) iv (cbcEnc (Encrypt b) iv xs)) = xs \<and> length (cbcEnc (Encrypt b) iv xs) = length xs"
proof (induction "Encrypt b" iv xs rule: cbcEnc.induct)
  case (1 iv xs)
  show ?case
  proof (cases "length xs < 16")
    case True
    then have "xs = []" using 1 by (metis length_0_conv mod_less)
    then show ?thesis by (simp add: cbcEnc.simps [of _ _ "[]"] cbcDec.simps [of _ _ "[]"])
  next
    case False
    let ?p = "take 16 xs" and ?c = "Encrypt b (xorb (take 16 xs) iv)"
    have lp: "length (xorb ?p iv) = 16" using False 1 by simp
    then have c: "length ?c = 16" "Decrypt b ?c = xorb ?p iv" using assms by (auto simp: block_ok_def)
    have IH: "fst (cbcDec (Decrypt b) ?c (cbcEnc (Encrypt b) ?c (drop 16 xs))) = drop 16 xs \<and>
        length (cbcEnc (Encrypt b) ?c (drop 16 xs)) = length (drop 16 xs)"
      using False 1 c by (intro "1.hyps") (auto simp: mod_if [of "length xs"])
    have e: "cbcEnc (Encrypt b) iv xs = ?c @ cbcEnc (Encrypt b) ?c (drop 16 xs)"
      using False by (subst cbcEnc.simps) (simp add: Let_def)
    have "fst (cbcDec (Decrypt b) iv (cbcEnc (Encrypt b) iv xs)) = xorb (xorb ?p iv) iv @ drop 16 xs"
      unfolding e using c IH by (subst cbcDec.simps) (simp add: Let_def case_prod_beta)
    also have "xorb (xorb ?p iv) iv = ?p" using 1 by (intro xorb_cancel) simp
    finally show ?thesis using e c IH False by simp
  qed
qed

text \<open>AES-128 segments: decrypting the CBC encryption of a PKCS7-padded plaintext returns the plaintext, for every
  plaintext, key and IV, in place or not; a decryption that is not in place leaves the segment as it was.\<close>

theorem drm_cbc_roundtrip:
  assumes "block_ok b" "newCipher key = Some b" "length key = 16" "length iv = 16"
  shows "fst (drmCBC newCipher key iv (cbcEnc (Encrypt b) iv (pkcs7 x)) inPlace) = Ok x \<and>
    snd (drmCBC newCipher key iv data False) = data"
proof -
  obtain q r where qr: "length x = q * 16 + r" "r < 16"
    by (metis div_mult_mod_eq mod_less_divisor zero_less_numeral)
  then have r: "length x mod 16 = r" by simp
  have k: "1 \<le> 16 - length x mod 16" "16 - length x mod 16 \<le> 16"
    unfolding r using qr(2) by simp_all
  have "length (pkcs7 x) = length x + (16 - r)" by (simp add: pkcs7_def Let_def r)
  also have "\<dots> = (q + 1) * 16" using qr by simp
  finally have len: "length (pkcs7 x) mod 16 = 0" "length (pkcs7 x) \<noteq> 0" by simp_all
  from cbc_inverse [OF assms(1,4) len(1)] len assms
  have "fst (drmCBC newCipher key iv (cbcEnc (Encrypt b) iv (pkcs7 x)) inPlace) = drmStripPKCS7 (pkcs7 x)"
    by (simp add: drmCBC_def Let_def)
  also have "\<dots> = Ok x" unfolding pkcs7_def Let_def using k by (rule strip_padded)
  finally show ?thesis by (simp add: drmCBC_def Let_def split: option.split)
qed

lemma toy_ok: "block_ok toy"
  by (simp add: block_ok_def toy_def xor.assoc comp_def)

theorem drm_cbc_roundtrip_witness:
  "fst (drmCBC toyCipher (replicate 16 7) (replicate 16 3)
     (cbcEnc (Encrypt toy) (replicate 16 3) (pkcs7 [1, 2, 3])) True) = Ok [1, 2, 3]"
  using drm_cbc_roundtrip [OF toy_ok, of toyCipher "replicate 16 7" "replicate 16 3" "[1, 2, 3]" True "[]"]
  by (simp add: toyCipher_def)

section \<open>CTR over subsamples\<close>

text \<open>The keystream of a counter block: byte \<open>n\<close> comes from the counter advanced \<open>n div 16\<close> times.\<close>

definition ks :: "(byte list \<Rightarrow> byte list) \<Rightarrow> byte list \<Rightarrow> nat \<Rightarrow> byte" where
  "ks En ctr n = En ((incCounter ^^ (n div 16)) ctr) ! (n mod 16)"

text \<open>Bytewise specification: the encrypted spans are XORed with consecutive keystream bytes.\<close>

definition xorKs :: "(nat \<Rightarrow> byte) \<Rightarrow> byte list \<Rightarrow> nat \<Rightarrow> nat \<Rightarrow> nat \<Rightarrow> byte list" where
  "xorKs f d off k n = take off d @ xorb (take n (drop off d)) (map f [k..<k + n]) @ drop (off + n) d"

fun ctrSpec :: "(nat \<Rightarrow> byte) \<Rightarrow> byte list \<Rightarrow> nat \<Rightarrow> nat \<Rightarrow> drmSubsample list \<Rightarrow> byte list" where
  "ctrSpec f d off k [] = d"
| "ctrSpec f d off k (s # ss) =
     (let off = min (off + Clear s) (length d); n = min (Encrypted s) (length d - off)
      in ctrSpec f (xorKs f d off k n) (off + n) (k + n) ss)"

lemma length_xorKs [simp]: "off + n \<le> length d \<Longrightarrow> length (xorKs f d off k n) = length d"
  by (simp add: xorKs_def)

lemma xorKs_0 [simp]: "xorKs f d off k 0 = d"
  by (simp add: xorKs_def xorb_def)

lemma xorKs_add:
  assumes "off + m + n \<le> length d"
  shows "xorKs f (xorKs f d off k m) (off + m) (k + m) n = xorKs f d off k (m + n)"
proof (rule nth_equalityI)
  fix i
  assume "i < length (xorKs f (xorKs f d off k m) (off + m) (k + m) n)"
  then have i: "i < length d" using assms by simp
  have nth: "xorKs f d off k n ! i = (if off \<le> i \<and> i < off + n then d ! i XOR f (k + (i - off)) else d ! i)"
    if "off + n \<le> length d" "i < length d" for d off k n
    using that by (auto simp: xorKs_def nth_append)
  show "xorKs f (xorKs f d off k m) (off + m) (k + m) n ! i = xorKs f d off k (m + n) ! i"
    using assms i by (auto simp: nth)
qed (use assms in simp)

definition ctr_inv :: "(byte list \<Rightarrow> byte list) \<Rightarrow> byte list \<Rightarrow> nat \<Rightarrow> ctrState \<Rightarrow> bool" where
  "ctr_inv En ctr k s \<longleftrightarrow> ksPos s = k mod 16 \<and> ctrBlock s = (incCounter ^^ (k div 16)) ctr \<and>
     ksBlock s = En (ctrBlock s) \<and> dataOff s \<le> length (cdata s)"

lemma div_mod_16: "r + i < 16 \<Longrightarrow> (j * 16 + r + i) div 16 = j \<and> (j * 16 + r + i) mod 16 = (r + i :: nat)"
  by (simp add: add.assoc)

lemma encStep_spec:
  assumes inv: "ctr_inv En ctr k s" and len: "\<forall>x. length x = 16 \<longrightarrow> length (En x) = 16"
    and ctr: "\<forall>j. length ((incCounter ^^ j) ctr) = 16"
    and n: "n \<le> 16 - ksPos s" "n \<le> length (cdata s) - dataOff s"
  shows "ctr_inv En ctr (k + n) (encStep En s n) \<and>
    cdata (encStep En s n) = xorKs (ks En ctr) (cdata s) (dataOff s) k n \<and> dataOff (encStep En s n) = dataOff s + n"
proof -
  obtain j r where k: "k = j * 16 + r" "r < 16"
    by (metis div_mult_mod_eq mod_less_divisor zero_less_numeral)
  then have jr: "k div 16 = j" "k mod 16 = r" by simp_all
  have n16: "r + n \<le> 16" using n(1) inv k(2) by (simp add: ctr_inv_def jr)
  have "take n (drop r (En ((incCounter ^^ j) ctr))) = map (ks En ctr) [k..<k + n]"
    using len ctr n16 by (intro nth_equalityI) (auto simp: ks_def k div_mod_16 simp del: funpow.simps)
  then have d: "xorAt (cdata s) (dataOff s) (ksBlock s) (ksPos s) n = xorKs (ks En ctr) (cdata s) (dataOff s) k n"
    using inv by (simp add: xorAt_def xorKs_def ctr_inv_def jr)
  have o: "dataOff s + n \<le> length (cdata s)" using n(2) inv by (auto simp: ctr_inv_def)
  show ?thesis
  proof (cases "r + n = 16")
    case True
    then have "k + n = (j + 1) * 16" using k by simp
    then have "(k + n) div 16 = Suc j \<and> (k + n) mod 16 = 0" by simp
    with True inv d o show ?thesis by (simp add: encStep_def ctr_inv_def Let_def jr)
  next
    case False
    then have "r + n < 16" using n16 by simp
    with div_mod_16 [OF this, of j] inv d o show ?thesis
      by (simp add: encStep_def ctr_inv_def Let_def jr k)
  qed
qed

lemma encLoop_spec:
  "\<forall>x. length x = 16 \<longrightarrow> length (En x) = 16 \<Longrightarrow> \<forall>j. length ((incCounter ^^ j) ctr) = 16 \<Longrightarrow> ctr_inv En ctr k s \<Longrightarrow>
    (let m = min enc (length (cdata s) - dataOff s); t = encLoop En s enc
     in ctr_inv En ctr (k + m) t \<and> cdata t = xorKs (ks En ctr) (cdata s) (dataOff s) k m \<and> dataOff t = dataOff s + m)"
proof (induction En s enc arbitrary: k rule: encLoop.induct)
  case (1 En s enc)
  let ?n = "encTake s enc" and ?m = "min enc (length (cdata s) - dataOff s)"
  have kp: "ksPos s < 16" and ol: "dataOff s \<le> length (cdata s)" using 1(4) by (auto simp: ctr_inv_def)
  show ?case
  proof (cases "enc > 0 \<and> dataOff s < length (cdata s) \<and> ?n > 0")
    case False
    then have "?m = 0" using kp by (auto simp: encTake_def)
    moreover have "encLoop En s enc = s" using False by (subst encLoop.simps) auto
    ultimately show ?thesis using 1(4) by (simp add: Let_def)
  next
    case True
    let ?s = "encStep En s ?n"
    have n: "?n \<le> 16 - ksPos s" "?n \<le> length (cdata s) - dataOff s" "?n \<le> enc" by (simp_all add: encTake_def)
    have st: "ctr_inv En ctr (k + ?n) ?s" "cdata ?s = xorKs (ks En ctr) (cdata s) (dataOff s) k ?n"
      "dataOff ?s = dataOff s + ?n"
      using encStep_spec [OF 1(4,2,3) n(1,2)] by auto
    have ls: "length (cdata ?s) = length (cdata s)" using st(2) n(2) ol by simp
    define m where "m = min (enc - ?n) (length (cdata ?s) - dataOff ?s)"
    have mm: "?m = ?n + m" using n ls st(3) by (simp add: m_def)
    have e: "encLoop En s enc = encLoop En ?s (enc - ?n)" using True by (subst encLoop.simps) simp
    have "xorKs (ks En ctr) (cdata ?s) (dataOff ?s) (k + ?n) m = xorKs (ks En ctr) (cdata s) (dataOff s) k (?n + m)"
      unfolding st(2,3) using mm ol by (intro xorKs_add) linarith
    with "1.IH" [OF True 1(2,3) st(1), unfolded Let_def, folded m_def] show ?thesis
      unfolding Let_def e mm by (simp add: st(3) add.assoc)
  qed
qed

lemma length_incFrom [simp]: "length (incFrom lo n cb) = length cb"
  by (induction lo n cb rule: incFrom.induct) (simp_all add: Let_def)

lemma length_incs: "length ctr = 16 \<Longrightarrow> length ((incCounter ^^ j) ctr) = 16"
  by (induction j) (simp_all add: incCounter_def)

lemma length_ctrBlockOf [simp]: "length (ctrBlockOf iv) = 16"
  by (simp add: ctrBlockOf_def)

lemma subs_spec:
  assumes len: "\<forall>x. length x = 16 \<longrightarrow> length (En x) = 16" and ctr: "\<forall>j. length ((incCounter ^^ j) ctr) = 16"
  shows "ctr_inv En ctr k s \<Longrightarrow> cdata (fold (subStep En) subs s) = ctrSpec (ks En ctr) (cdata s) (dataOff s) k subs"
proof (induction subs arbitrary: k s)
  case (Cons sub subs)
  let ?c = "if Clear sub > 0 then s\<lparr>dataOff := min (dataOff s + Clear sub) (length (cdata s))\<rparr> else s"
  have c: "ctr_inv En ctr k ?c" "cdata ?c = cdata s" "dataOff ?c = min (dataOff s + Clear sub) (length (cdata s))"
    using Cons.prems by (auto simp: ctr_inv_def)
  define n where "n = min (Encrypted sub) (length (cdata ?c) - dataOff ?c)"
  note e = encLoop_spec [OF len ctr c(1), of "Encrypted sub", unfolded Let_def, folded n_def subStep_def]
  have "cdata (fold (subStep En) subs (subStep En sub s)) =
      ctrSpec (ks En ctr) (cdata (subStep En sub s)) (dataOff (subStep En sub s)) (k + n) subs"
    using e by (intro Cons.IH) blast
  then show ?case
    using e by (simp add: c Let_def n_def)
qed simp

text \<open>Which keystream byte, if any, byte \<open>i\<close> is XORed with.\<close>

fun ctrMask :: "(nat \<Rightarrow> byte) \<Rightarrow> nat \<Rightarrow> nat \<Rightarrow> nat \<Rightarrow> drmSubsample list \<Rightarrow> nat \<Rightarrow> byte" where
  "ctrMask f len off k [] i = 0"
| "ctrMask f len off k (s # ss) i =
     (let off = min (off + Clear s) len; n = min (Encrypted s) (len - off)
      in if off \<le> i \<and> i < off + n then f (k + (i - off)) else ctrMask f len (off + n) (k + n) ss i)"

lemma ctrMask_before: "i < off \<Longrightarrow> off \<le> len \<Longrightarrow> ctrMask f len off k ss i = 0"
proof (induction ss arbitrary: off k)
  case (Cons s ss)
  define o1 where "o1 = min (off + Clear s) len"
  have "i < o1" "o1 \<le> len" using Cons.prems by (auto simp: o1_def)
  then show ?case using Cons.IH by (simp add: Let_def flip: o1_def)
qed simp

lemma ctrSpec_mask:
  "off \<le> length d \<Longrightarrow> length (ctrSpec f d off k ss) = length d \<and>
    (\<forall>i < length d. ctrSpec f d off k ss ! i = d ! i XOR ctrMask f (length d) off k ss i)"
proof (induction f d off k ss rule: ctrSpec.induct)
  case (2 f d off k s ss)
  define o1 where "o1 = min (off + Clear s) (length d)"
  define n where "n = min (Encrypted s) (length d - o1)"
  have b: "o1 + n \<le> length d" by (simp add: o1_def n_def)
  have nth: "xorKs f d o1 k n ! i = (if o1 \<le> i \<and> i < o1 + n then d ! i XOR f (k + (i - o1)) else d ! i)"
    if "i < length d" for i using that b by (auto simp: xorKs_def nth_append)
  have IH: "length (ctrSpec f (xorKs f d o1 k n) (o1 + n) (k + n) ss) = length d \<and>
      (\<forall>i < length d. ctrSpec f (xorKs f d o1 k n) (o1 + n) (k + n) ss ! i =
         xorKs f d o1 k n ! i XOR ctrMask f (length d) (o1 + n) (k + n) ss i)"
    using "2.IH" [OF o1_def n_def] b by simp
  have "ctrMask f (length d) (o1 + n) (k + n) ss i = 0" if "i < o1 + n" for i
    using ctrMask_before [OF that b] .
  with IH nth show ?case by (simp add: Let_def flip: o1_def n_def)
qed simp

lemma ctr_subs_eq:
  assumes "newCipher key = Some b" "length key = 16" "\<forall>x. length x = 16 \<longrightarrow> length (Encrypt b x) = 16" "subs \<noteq> []"
  shows "drmDecryptCTRSubsamples newCipher key iv d subs =
    Ok (ctrSpec (ks (Encrypt b) (ctrBlockOf iv)) d 0 0 subs)"
proof -
  have "\<forall>j. length ((incCounter ^^ j) (ctrBlockOf iv)) = 16" using length_incs by simp
  from subs_spec [OF assms(3) this, of 0
      "\<lparr>cdata = d, dataOff = 0, ksPos = 0, ksBlock = Encrypt b (ctrBlockOf iv), ctrBlock = ctrBlockOf iv\<rparr>" subs]
  show ?thesis using assms by (simp add: drmDecryptCTRSubsamples_def Let_def ctr_inv_def)
qed

text \<open>C8: AES-CTR over a subsample table: the chunked in-place loop computes the bytewise XOR of the encrypted spans
  with one keystream (clear bytes consume none, spans past the end are cut), and decrypting twice gives the
  sample back.\<close>

theorem drm_ctr_subsamples:
  assumes "newCipher key = Some b" "length key = 16" "\<forall>x. length x = 16 \<longrightarrow> length (Encrypt b x) = 16" "subs \<noteq> []"
  shows "drmDecryptCTRSubsamples newCipher key iv data subs =
           Ok (ctrSpec (ks (Encrypt b) (ctrBlockOf iv)) data 0 0 subs) \<and>
         bnd (drmDecryptCTRSubsamples newCipher key iv data subs)
           (\<lambda>d. drmDecryptCTRSubsamples newCipher key iv d subs) = Ok data"
proof -
  let ?f = "ks (Encrypt b) (ctrBlockOf iv)"
  note e = ctr_subs_eq [where newCipher = newCipher and key = key, OF assms]
  have "ctrSpec ?f (ctrSpec ?f data 0 0 subs) 0 0 subs = data"
    using ctrSpec_mask [of 0 data ?f 0 subs] ctrSpec_mask [of 0 "ctrSpec ?f data 0 0 subs" ?f 0 subs]
    by (intro nth_equalityI) (simp_all add: xor.assoc)
  then show ?thesis by (simp add: e)
qed

theorem drm_ctr_subsamples_witness:
  "bnd (drmDecryptCTRSubsamples toyCipher (replicate 16 7) [1, 2] [10, 20, 30, 40] [\<lparr>Clear = 1, Encrypted = 2\<rparr>])
     (\<lambda>d. drmDecryptCTRSubsamples toyCipher (replicate 16 7) [1, 2] d [\<lparr>Clear = 1, Encrypted = 2\<rparr>]) =
   Ok [10, 20, 30, 40]"
proof -
  have "toyCipher (replicate 16 7) = Some toy" "length (replicate 16 (7::byte)) = 16"
    "\<forall>x. length x = 16 \<longrightarrow> length (Encrypt toy x) = 16" "[\<lparr>Clear = 1, Encrypted = 2\<rparr>] \<noteq> []"
    by (simp_all add: toyCipher_def toy_def)
  note drm_ctr_subsamples [where newCipher = toyCipher and key = "replicate 16 7", OF this]
  then show ?thesis by blast
qed

text \<open>The two CTR paths use different counters. A whole encrypted sample goes through \<open>cipher.NewCTR\<close>, which
  carries into the upper eight bytes; the subsample path increments only the lower eight. When the IV's lower
  half overflows, the same sample declared as one subsample or as a whole decrypts differently, for every
  block cipher.\<close>

theorem drm_ctr_counter_divergence:
  assumes "newCipher key = Some b" "length key = 16" "\<forall>x. length x = 16 \<longrightarrow> length (Encrypt b x) = 16"
    and "inj_on (Encrypt b) {x. length x = 16}"
  shows "drmDecryptCTRSubsamples newCipher key (replicate 8 0 @ replicate 8 255) (replicate 32 0) [] \<noteq>
         drmDecryptCTRSubsamples newCipher key (replicate 8 0 @ replicate 8 255) (replicate 32 0)
           [\<lparr>Clear = 0, Encrypted = 32\<rparr>]"
proof -
  let ?iv = "replicate 8 0 @ replicate 8 255 :: byte list" and ?En = "Encrypt b"
  have iv: "ctrBlockOf ?iv = ?iv" by (simp add: ctrBlockOf_def)
  have inc: "incFrom 0 16 ?iv = replicate 7 0 @ [1] @ replicate 8 0" "incCounter ?iv = replicate 16 0"
    by code_simp+
  have w: "drmDecryptCTRSubsamples newCipher key ?iv (replicate 32 0) [] =
      Ok (ctrStream ?En ?iv (replicate 32 0))"
    using assms by (simp add: drmDecryptCTRSubsamples_def iv Let_def)
  have "ctrStream ?En ?iv (replicate 32 0) = xorb (replicate 16 0) (?En ?iv) @
      xorb (replicate 16 0) (?En (incFrom 0 16 ?iv)) @ ctrStream ?En (incFrom 0 16 (incFrom 0 16 ?iv)) []"
    by (subst ctrStream.simps, simp, subst ctrStream.simps) simp
  then have w16: "drop 16 (ctrStream ?En ?iv (replicate 32 0)) = ?En (incFrom 0 16 ?iv)"
    using assms(3) by (simp add: ctrStream.simps [of _ _ "[]"] inc) (intro nth_equalityI; simp)
  have sub: "drmDecryptCTRSubsamples newCipher key ?iv (replicate 32 0) [\<lparr>Clear = 0, Encrypted = 32\<rparr>] =
      Ok (xorKs (ks ?En ?iv) (replicate 32 0) 0 0 32)"
    using ctr_subs_eq [where newCipher = newCipher and key = key, OF assms(1-3), where subs = "[\<lparr>Clear = 0, Encrypted = 32\<rparr>]" and iv = ?iv] by (simp add: iv)
  have d1: "(16 + i) div 16 = Suc 0" if "i < 16" for i :: nat
    using that by simp
  have "drop 16 (xorKs (ks ?En ?iv) (replicate 32 0) 0 0 32) = ?En (incCounter ?iv)"
    using assms(3) d1 by (intro nth_equalityI) (simp_all add: xorKs_def ks_def inc)
  moreover have "?En (incFrom 0 16 ?iv) \<noteq> ?En (incCounter ?iv)"
  proof
    assume "?En (incFrom 0 16 ?iv) = ?En (incCounter ?iv)"
    from inj_onD [OF assms(4) this] have "incFrom 0 16 ?iv = incCounter ?iv" by (simp add: incCounter_def)
    then show False unfolding inc by code_simp
  qed
  ultimately show ?thesis unfolding w sub using w16 by auto
qed

theorem drm_ctr_counter_divergence_witness:
  "drmDecryptCTRSubsamples toyCipher (replicate 16 7) (replicate 8 0 @ replicate 8 255) (replicate 32 0) [] \<noteq>
   drmDecryptCTRSubsamples toyCipher (replicate 16 7) (replicate 8 0 @ replicate 8 255) (replicate 32 0)
     [\<lparr>Clear = 0, Encrypted = 32\<rparr>]"
proof -
  have "inj (\<lambda>x :: byte. x XOR 90)" by (rule inj_on_inverseI [of _ "\<lambda>x. x XOR 90"]) (simp add: xor.assoc)
  then have i: "inj_on (Encrypt toy) {x. length x = 16}"
    by (auto simp: toy_def intro!: inj_onI dest: map_injective)
  have "toyCipher (replicate 16 7) = Some toy" "length (replicate 16 (7::byte)) = 16"
    "\<forall>x. length x = 16 \<longrightarrow> length (Encrypt toy x) = 16"
    by (simp_all add: toyCipher_def toy_def)
  note drm_ctr_counter_divergence [where newCipher = toyCipher and key = "replicate 16 7", OF this i]
  then show ?thesis .
qed

section \<open>CBC pattern mode\<close>

text \<open>Pattern encryption and decryption block by block: block \<open>j\<close> takes part when \<open>j mod (c + k) < c\<close>; without a
  pattern (\<open>c = 0\<close>) every block does. The chain runs through the encrypted blocks only.\<close>

fun patEnc :: "(byte list \<Rightarrow> byte list) \<Rightarrow> byte list \<Rightarrow> nat \<Rightarrow> nat \<Rightarrow> nat \<Rightarrow> byte list list \<Rightarrow> byte list list" where
  "patEnc En iv j c k [] = []"
| "patEnc En iv j c k (b # bs) =
     (if c = 0 \<or> j mod (c + k) < c
      then (let x = En (xorb b iv) in x # patEnc En x (j + 1) c k bs)
      else b # patEnc En iv (j + 1) c k bs)"

fun patDec :: "(byte list \<Rightarrow> byte list) \<Rightarrow> byte list \<Rightarrow> nat \<Rightarrow> nat \<Rightarrow> nat \<Rightarrow> byte list list \<Rightarrow> byte list list" where
  "patDec D iv j c k [] = []"
| "patDec D iv j c k (b # bs) =
     (if c = 0 \<or> j mod (c + k) < c
      then xorb (D b) iv # patDec D b (j + 1) c k bs
      else b # patDec D iv (j + 1) c k bs)"

fun decAll :: "(byte list \<Rightarrow> byte list) \<Rightarrow> byte list \<Rightarrow> byte list list \<Rightarrow> byte list list" where
  "decAll D iv [] = []"
| "decAll D iv (b # bs) = xorb (D b) iv # decAll D b bs"

definition chain :: "byte list \<Rightarrow> byte list list \<Rightarrow> byte list" where
  "chain iv bs = (if bs = [] then iv else last bs)"

abbreviation all16 :: "byte list list \<Rightarrow> bool" where
  "all16 bs \<equiv> \<forall>b \<in> set bs. length b = 16"

lemma patDec_patEnc:
  assumes "block_ok b"
  shows "length iv = 16 \<Longrightarrow> all16 bs \<Longrightarrow>
    patDec (Decrypt b) iv j c k (patEnc (Encrypt b) iv j c k bs) = bs \<and> all16 (patEnc (Encrypt b) iv j c k bs) \<and>
    length (patEnc (Encrypt b) iv j c k bs) = length bs"
proof (induction bs arbitrary: iv j)
  case (Cons p bs)
  let ?x = "Encrypt b (xorb p iv)"
  have "length ?x = 16" "Decrypt b ?x = xorb p iv" "xorb (xorb p iv) iv = p"
    using assms Cons.prems by (auto simp: block_ok_def xorb_cancel)
  with Cons show ?case by (simp add: Let_def)
qed simp

lemma cbcDec_blocks:
  "all16 bs \<Longrightarrow> cbcDec D iv (concat bs) = (concat (decAll D iv bs), chain iv bs)"
proof (induction bs arbitrary: iv)
  case (Cons b bs)
  then have "cbcDec D iv (concat (b # bs)) = (xorb (D b) iv @ concat (decAll D b bs), chain b bs)"
    by (subst cbcDec.simps) (simp add: Let_def)
  then show ?case by (simp add: chain_def)
qed (simp add: cbcDec.simps chain_def)

lemma patDec_crypt:
  "j mod (c + k) + length xs \<le> c \<Longrightarrow> patDec D iv j c k (xs @ ys) = decAll D iv xs @ patDec D (chain iv xs) (j + length xs) c k ys"
proof (induction xs arbitrary: iv j)
  case (Cons x xs)
  then have lt: "j mod (c + k) < c" by simp
  have "xs \<noteq> [] \<Longrightarrow> Suc (j mod (c + k)) \<noteq> c + k" using Cons.prems by (cases xs) auto
  show ?case
  proof (cases "xs = []")
    case False
    then have "Suc j mod (c + k) = Suc (j mod (c + k))"
      using \<open>xs \<noteq> [] \<Longrightarrow> _\<close> by (simp add: mod_Suc)
    with Cons lt False show ?thesis by (simp add: chain_def)
  qed (use lt in \<open>simp add: chain_def\<close>)
qed (simp add: chain_def)

lemma patDec_skip:
  "c > 0 \<Longrightarrow> xs = [] \<or> c \<le> j mod (c + k) \<and> j mod (c + k) + length xs \<le> c + k \<Longrightarrow>
    patDec D iv j c k (xs @ ys) = xs @ patDec D iv (j + length xs) c k ys"
proof (induction xs arbitrary: j)
  case (Cons x xs)
  have "xs = [] \<or> c \<le> Suc j mod (c + k) \<and> Suc j mod (c + k) + length xs \<le> c + k"
    using Cons.prems by (cases xs) (auto simp: mod_Suc)
  with Cons show ?case by simp
qed simp

lemma take_blocks:
  "all16 bs \<Longrightarrow> n \<le> length bs \<Longrightarrow> take (n * 16) (concat bs @ t) = concat (take n bs) \<and>
     drop (n * 16) (concat bs @ t) = concat (drop n bs) @ t"
proof (induction bs arbitrary: n)
  case (Cons b bs)
  then show ?case by (cases n) (auto simp: take_Cons' add.commute)
qed simp

lemma cbcsLoop_blocks:
  "0 < c \<Longrightarrow> j mod (c + k) = 0 \<Longrightarrow> all16 bs \<Longrightarrow>
    cbcsLoop D iv (length bs) c k (concat bs @ t) = concat (patDec D iv j c k bs) @ t"
proof (induction "length bs" arbitrary: bs iv j rule: less_induct)
  case less
  show ?case
  proof (cases "bs = []")
    case True
    then show ?thesis by (simp add: cbcsLoop.simps)
  next
    case False
    define n m where "n = min c (length bs)" and "m = min (c + k) (length bs)"
    have nm: "n \<le> m" "m \<le> length bs" "n \<le> length bs" "0 < m" "n \<le> c" using False less.prems by (auto simp: n_def m_def)
    define xs ys zs where "xs = take n bs" and "ys = take (m - n) (drop n bs)" and "zs = drop m bs"
    have "drop n bs = ys @ zs" using nm by (simp add: ys_def zs_def) (metis append_take_drop_id drop_drop le_add_diff_inverse2)
    then have bs: "bs = xs @ ys @ zs" by (metis append_take_drop_id xs_def)
    have lx: "length xs = n" "length ys = m - n" "length zs = length bs - m"
      using nm by (simp_all add: xs_def ys_def zs_def)
    have a: "all16 xs" "all16 ys" "all16 zs" using less.prems(3) bs by auto
    have tb: "take (n * 16) (concat bs @ t) = concat xs" "drop (n * 16) (concat bs @ t) = concat (ys @ zs) @ t"
      "drop (m * 16) (concat bs @ t) = concat zs @ t"
      using take_blocks [OF less.prems(3), of n t] take_blocks [OF less.prems(3), of m t] nm \<open>drop n bs = _\<close>
      by (simp_all add: xs_def zs_def)
    have ty: "take ((m - n) * 16) (concat (ys @ zs) @ t) = concat ys"
      using take_blocks [of "ys @ zs" "m - n" t] a lx by auto
    define sp where "sp = concat bs @ t"
    define rst where "rst = concat (ys @ zs) @ t"
    note tb' = tb [folded sp_def, folded rst_def] ty [folded rst_def]
    have "cbcsLoop D iv (length bs) c k sp =
        concat (decAll D iv xs) @ concat ys @ cbcsLoop D (chain iv xs) (length zs) c k (concat zs @ t)"
      using False less.prems(1)
      by (subst cbcsLoop.simps) (simp add: Let_def tb' cbcDec_blocks [OF a(1)] lx flip: n_def m_def)
    also have "cbcsLoop D (chain iv xs) (length zs) c k (concat zs @ t) =
        concat (patDec D (chain iv xs) (j + m) c k zs) @ t"
    proof (cases "zs = []")
      case True
      then show ?thesis by (simp add: cbcsLoop.simps)
    next
      case False
      then have "length zs > 0" by simp
      then have "m = c + k" using lx(3) by (simp add: m_def)
      with less.prems nm lx a show ?thesis by (intro less.hyps) auto
    qed
    also have "concat (decAll D iv xs) @ concat ys @ concat (patDec D (chain iv xs) (j + m) c k zs) @ t =
        concat (patDec D iv j c k bs) @ t"
    proof -
      have "patDec D iv j c k (xs @ ys @ zs) = decAll D iv xs @ patDec D (chain iv xs) (j + n) c k (ys @ zs)"
        using patDec_crypt [of j c k xs D iv] less.prems nm lx by simp
      moreover have "patDec D (chain iv xs) (j + n) c k (ys @ zs) = ys @ patDec D (chain iv xs) (j + m) c k zs"
      proof -
        have "ys = [] \<or> c \<le> (j + n) mod (c + k) \<and> (j + n) mod (c + k) + length ys \<le> c + k"
        proof (cases "ys = []")
          case False
          then have "n = c" "m - n \<le> k" "0 < k" using lx nm by (auto simp: n_def m_def min_def split: if_splits)
          moreover from this have "(j + n) mod (c + k) = c"
            using less.prems(2) by (metis add.commute add_cancel_right_left less_add_same_cancel1 mod_add_right_eq mod_less)
          ultimately show ?thesis using lx by simp
        qed simp
        from patDec_skip [OF less.prems(1) this] show ?thesis using lx nm by simp
      qed
      ultimately show ?thesis unfolding bs by simp
    qed
    finally show ?thesis unfolding sp_def .
  qed
qed

lemma patDec_all: "patDec D iv j 0 k bs = decAll D iv bs"
  by (induction bs arbitrary: iv j) simp_all

lemma concat16_length: "all16 bs \<Longrightarrow> length (concat bs) = length bs * 16"
  by (induction bs) simp_all

text \<open>\<open>cbcs\<close> pattern mode: decrypting a protected span undoes pattern encryption. The crypt/skip pattern selects the
  blocks, the CBC chain skips the clear ones, and a trailing partial block stays clear.\<close>

theorem drm_cbcs_pattern_roundtrip:
  assumes "block_ok b" "length iv = 16" "all16 bs" "length t < 16"
  shows "drmCBCSPattern b iv (concat (patEnc (Encrypt b) iv 0 c k bs) @ t) c k = concat bs @ t"
proof -
  let ?es = "patEnc (Encrypt b) iv 0 c k bs"
  note e = patDec_patEnc [OF assms(1,2,3), of 0 c k]
  have len: "length (concat ?es @ t) = length bs * 16 + length t" using e by (simp add: concat16_length)
  then have full: "length (concat ?es @ t) div 16 = length bs" using assms(4) by simp
  have tb: "take (length bs * 16) (concat ?es @ t) = concat ?es" "drop (length bs * 16) (concat ?es @ t) = t"
    using take_blocks [of ?es "length bs" t] e by auto
  show ?thesis
  proof (cases "c = 0 \<or> bs = []")
    case True
    then show ?thesis
      using e full tb cbcDec_blocks [of ?es "Decrypt b" iv] unfolding drmCBCSPattern_def Let_def full
      by (auto simp: patDec_all)
  next
    case False
    then have "drmCBCSPattern b iv (concat ?es @ t) c k = cbcsLoop (Decrypt b) iv (length ?es) c k (concat ?es @ t)"
      using e unfolding drmCBCSPattern_def Let_def full by simp
    also have "\<dots> = concat (patDec (Decrypt b) iv 0 c k ?es) @ t"
      using False e by (intro cbcsLoop_blocks) auto
    finally show ?thesis using e by simp
  qed
qed

theorem drm_cbcs_pattern_roundtrip_witness:
  "drmCBCSPattern toy (replicate 16 1) (concat (patEnc (Encrypt toy) (replicate 16 1) 0 1 9 [replicate 16 5, replicate 16 6]) @ [9]) 1 9 =
   concat [replicate 16 5, replicate 16 6] @ [9]"
  by (rule drm_cbcs_pattern_roundtrip [OF toy_ok]) simp_all

end
