(* ===== verification/Drm_Decrypt.thy ===== *)
theory Drm_Decrypt
  imports Drm_Modes "HOL-Library.Code_Target_Nat"
begin

text \<open>
  \<open>internal/streamproxy/drm.go\<close>, the segment walk: \<open>drmDecryptTraf\<close>, \<open>drmDecryptMoof\<close>, \<open>drmDecryptCENC\<close> and the
  dispatch \<open>drmDecryptBuf\<close>. The segment buffer is the state; the \<open>mdat\<close> slice and all box payloads are places in
  it, so a later parse sees what an earlier decryption wrote. Sample positions are \<open>int64\<close> and wrap.
\<close>

type_synonym cipher_fn = "byte list \<Rightarrow> aesBlock option"

section \<open>Track fragments\<close>

record trafState =
  tTfhd :: "drmTfhd option"
  tTrun :: "(drmTrunSample list \<times> int) option"
  tSenc :: "drmSencEntry list option"

fun wrapErr :: "string \<Rightarrow> (drm_err, 'a) outcome \<Rightarrow> (drm_err, 'a) outcome" where
  "wrapErr m (Err e) = Err (EW m e)"
| "wrapErr m r = r"

fun trafScan :: "byte list \<Rightarrow> drmTenc \<Rightarrow> byte list \<Rightarrow> drmBox list \<Rightarrow> trafState \<Rightarrow> (drm_err, trafState) outcome" where
  "trafScan buf tenc iv [] st = Ok st"
| "trafScan buf tenc iv (b # bs) st =
     (if Type b = tag ''tfhd'' then
        bnd (wrapErr ''CENC: tfhd'' (drmParseTfhd (payload buf b))) (\<lambda>t. trafScan buf tenc iv bs (st\<lparr>tTfhd := Some t\<rparr>))
      else if Type b = tag ''trun'' then
        bnd (wrapErr ''CENC: trun'' (drmParseTrun (payload buf b))) (\<lambda>r. trafScan buf tenc iv bs (st\<lparr>tTrun := Some r\<rparr>))
      else if Type b = tag ''senc'' then
        bnd (wrapErr ''CENC: senc'' (drmParseSenc (payload buf b) (ivFallback tenc iv) (ivSizeHint tenc)))
          (\<lambda>es. trafScan buf tenc iv bs (st\<lparr>tSenc := Some es\<rparr>))
      else trafScan buf tenc iv bs st)"

text \<open>Decryption of one sample: the new bytes and the error, if any.\<close>

definition decryptSample :: "cipher_fn \<Rightarrow> string \<Rightarrow> byte list \<Rightarrow> drmTenc \<Rightarrow> drmSencEntry \<Rightarrow> byte list \<Rightarrow>
    byte list \<times> drm_err option" where
  "decryptSample nc meth key tenc entry d =
     (if meth = ''CBCS'' then
        (case pattern tenc (length (Subsamples entry) > 0) of
           (c, k) \<Rightarrow> drmDecryptCBCSubsamples nc key (IV entry) d (Subsamples entry) c k)
      else
        (case drmDecryptCTRSubsamples nc key (IV entry) d (Subsamples entry) of
           Ok d' \<Rightarrow> (d', None) | Err e \<Rightarrow> (d, Some e) | Panic \<Rightarrow> (d, None)))"

definition putAt :: "byte list \<Rightarrow> nat \<Rightarrow> byte list \<Rightarrow> byte list" where
  "putAt buf off d = take off buf @ d @ drop (off + length d) buf"

definition sampleSize :: "drmTfhd \<Rightarrow> drmTrunSample \<Rightarrow> nat" where
  "sampleSize tf s = (if SSize s = 0 \<and> defaultSampleSizePresent tf then defaultSampleSize tf else SSize s)"

text \<open>The loop over samples from index \<open>i\<close> at position \<open>pos\<close> of the \<open>mdat\<close> body, which is the \<open>mLen\<close> bytes at
  \<open>mStart\<close> of the buffer. The slice that holds the body has the rest of the buffer as its capacity, so a slice expression
  on it reaches up to the end of the buffer; only the comparison with \<open>mLen\<close> keeps a sample inside the body. The
  result is the buffer and the outcome.\<close>

fun sampleLoop :: "cipher_fn \<Rightarrow> string \<Rightarrow> byte list \<Rightarrow> drmTenc \<Rightarrow> drmTfhd \<Rightarrow> nat \<Rightarrow> nat \<Rightarrow> byte list \<Rightarrow> nat \<Rightarrow> int \<Rightarrow>
    (drmTrunSample \<times> drmSencEntry) list \<Rightarrow> byte list \<times> (drm_err, unit) outcome" where
  "sampleLoop nc meth key tenc tf mStart mLen buf i pos [] = (buf, Ok ())"
| "sampleLoop nc meth key tenc tf mStart mLen buf i pos ((samp, entry) # rest) =
     (let size = int (sampleSize tf samp)
      in if size = 0 then sampleLoop nc meth key tenc tf mStart mLen buf (i + 1) pos rest
         else if i64 (pos + size) > int mLen then (buf, Err (EI ''CENC: sample exceeds mdat length'' i))
         else if length (IV entry) = 0 then (buf, Err (EI ''CENC: sample has no IV'' i))
         else
           (case slice (drop mStart buf) pos (i64 (pos + size)) :: (drm_err, byte list) outcome of
              Ok d \<Rightarrow>
                (case decryptSample nc meth key tenc entry d of
                   (d', err) \<Rightarrow>
                     (let buf' = putAt buf (mStart + nat pos) d'
                      in case err of
                           Some e \<Rightarrow> (buf', Err (EW ''CENC: sample decrypt'' e))
                         | None \<Rightarrow> sampleLoop nc meth key tenc tf mStart mLen buf' (i + 1) (i64 (pos + size)) rest))
            | _ \<Rightarrow> (buf, Panic)))"

definition sampleStart :: "drmTfhd \<Rightarrow> nat \<Rightarrow> int \<Rightarrow> nat \<Rightarrow> int" where
  "sampleStart tf moofStart dataOffset mStart =
     (let base = (if baseDataOffsetPresent tf then i64 (int (baseDataOffset tf)) else int moofStart)
      in i64 (i64 (base + dataOffset) - int mStart))"

definition drmDecryptTraf :: "cipher_fn \<Rightarrow> string \<Rightarrow> byte list \<Rightarrow> byte list \<Rightarrow> drmTenc \<Rightarrow> drmBox list \<Rightarrow> nat \<Rightarrow> nat \<Rightarrow> nat \<Rightarrow>
    byte list \<Rightarrow> byte list \<times> (drm_err, unit) outcome" where
  "drmDecryptTraf nc meth key iv tenc trafBoxes moofStart mStart mLen buf =
     (case trafScan buf tenc iv trafBoxes \<lparr>tTfhd = None, tTrun = None, tSenc = None\<rparr> of
        Err e \<Rightarrow> (buf, Err e)
      | Panic \<Rightarrow> (buf, Panic)
      | Ok st \<Rightarrow>
          (case (tTfhd st, tTrun st) of
             (Some tf, Some (samples, dataOffset)) \<Rightarrow>
               (case tSenc st of
                  None \<Rightarrow> (buf, Err (E ''unsupported CENC layout: senc box absent, saiz/saio not supported''))
                | Some entries \<Rightarrow>
                    (let start = sampleStart tf moofStart dataOffset mStart
                     in if start < 0 then (buf, Err (E ''CENC: computed sample start is before mdat body''))
                        else if length entries \<noteq> length samples
                        then (buf, Err (E ''CENC: senc entry count != trun sample count''))
                        else sampleLoop nc meth key tenc tf mStart mLen buf 0 start (zip samples entries)))
           | _ \<Rightarrow> (buf, Ok ())))"

section \<open>Movie fragments and segments\<close>

fun moofLoop :: "cipher_fn \<Rightarrow> string \<Rightarrow> byte list \<Rightarrow> byte list \<Rightarrow> drmTenc \<Rightarrow> nat \<Rightarrow> nat \<Rightarrow> nat \<Rightarrow> byte list \<Rightarrow>
    drmBox list \<Rightarrow> byte list \<times> (drm_err, unit) outcome" where
  "moofLoop nc meth key iv tenc moofStart mStart mLen buf [] = (buf, Ok ())"
| "moofLoop nc meth key iv tenc moofStart mStart mLen buf (c # cs) =
     (if Type c \<noteq> tag ''traf'' then moofLoop nc meth key iv tenc moofStart mStart mLen buf cs
      else
        (case drmParseBoxes buf (pOff c) (pLen c) of
           Err e \<Rightarrow> (buf, Err (EW ''CENC: traf children'' e))
         | Panic \<Rightarrow> (buf, Panic)
         | Ok trafBoxes \<Rightarrow>
             (case drmDecryptTraf nc meth key iv tenc trafBoxes moofStart mStart mLen buf of
                (buf', Ok _) \<Rightarrow> moofLoop nc meth key iv tenc moofStart mStart mLen buf' cs
              | r \<Rightarrow> r)))"

definition drmDecryptMoof :: "cipher_fn \<Rightarrow> string \<Rightarrow> byte list \<Rightarrow> byte list \<Rightarrow> drmTenc \<Rightarrow> drmBox \<Rightarrow> nat \<Rightarrow> nat \<Rightarrow>
    byte list \<Rightarrow> byte list \<times> (drm_err, unit) outcome" where
  "drmDecryptMoof nc meth key iv tenc moof mStart mLen buf =
     (case drmParseBoxes buf (pOff moof) (pLen moof) of
        Err e \<Rightarrow> (buf, Err (EW ''CENC: moof children'' e))
      | Panic \<Rightarrow> (buf, Panic)
      | Ok children \<Rightarrow> moofLoop nc meth key iv tenc (Start moof) mStart mLen buf children)"

fun cencLoop :: "cipher_fn \<Rightarrow> string \<Rightarrow> byte list \<Rightarrow> byte list \<Rightarrow> drmTenc \<Rightarrow> byte list \<Rightarrow> drmBox list \<Rightarrow>
    byte list \<times> (drm_err, unit) outcome" where
  "cencLoop nc meth key iv tenc buf [] = (buf, Ok ())"
| "cencLoop nc meth key iv tenc buf (b # bs) =
     (if Type b \<noteq> tag ''moof'' then cencLoop nc meth key iv tenc buf bs
      else
        (case find (\<lambda>x. Type x = tag ''mdat'') bs of
           None \<Rightarrow> (buf, Err (E ''CENC: moof without following mdat''))
         | Some mdat \<Rightarrow>
             (let mStart = Start mdat + HdrSize mdat
              in case sliceN buf mStart (Start mdat + Size mdat) :: (drm_err, byte list) outcome of
                   Ok mdatData \<Rightarrow>
                     (case drmDecryptMoof nc meth key iv tenc b mStart (length mdatData) buf of
                        (buf', Ok _) \<Rightarrow> cencLoop nc meth key iv tenc buf' bs
                      | r \<Rightarrow> r)
                 | _ \<Rightarrow> (buf, Panic))))"

text \<open>The result and what is left in the caller's segment.\<close>

definition drmDecryptCENC :: "cipher_fn \<Rightarrow> string \<Rightarrow> byte list \<Rightarrow> byte list \<Rightarrow> byte list \<Rightarrow> bool \<Rightarrow>
    (drm_err, byte list) outcome \<times> byte list" where
  "drmDecryptCENC nc meth key iv segment inPlace =
     (case drmParseBoxes segment 0 (length segment) of
        Err e \<Rightarrow> (Err (EW ''CENC: box parse'' e), segment)
      | Panic \<Rightarrow> (Panic, segment)
      | Ok boxes \<Rightarrow>
          (case cencLoop nc meth key iv (drmFindTenc segment boxes) segment boxes of
             (out, r) \<Rightarrow> (bnd r (\<lambda>_. Ok out), if inPlace then out else segment)))"

record DecryptParams =
  Method :: string
  Key :: "byte list"
  PIV :: "byte list"

text \<open>\<open>strings.ToUpper\<close> and \<open>strings.TrimSpace\<close> on the ASCII meth names.\<close>

definition upperc :: "char \<Rightarrow> char" where
  "upperc c = (if 97 \<le> (of_char c :: nat) \<and> (of_char c :: nat) \<le> 122 then char_of (of_char c - 32 :: nat) else c)"

definition isSpace :: "char \<Rightarrow> bool" where
  "isSpace c \<longleftrightarrow> (of_char c :: nat) \<in> {9, 10, 11, 12, 13, 32}"

definition trimSpace :: "string \<Rightarrow> string" where
  "trimSpace s = rev (dropWhile isSpace (rev (dropWhile isSpace s)))"

definition drmDecryptBuf :: "cipher_fn \<Rightarrow> DecryptParams \<Rightarrow> byte list \<Rightarrow> bool \<Rightarrow>
    (drm_err, byte list) outcome \<times> byte list" where
  "drmDecryptBuf nc p segment inPlace =
     (let meth = trimSpace (map upperc (Method p))
      in if meth = [] then (Ok segment, segment)
         else if meth = ''AES-128'' then
           (if length (Key p) \<noteq> 16 then (Err (E ''AES-128: key must be 16 bytes''), segment)
            else if length (PIV p) \<noteq> 16 then (Err (E ''AES-128: IV must be 16 bytes''), segment)
            else drmCBC nc (Key p) (PIV p) segment inPlace)
         else if meth = ''SAMPLE-AES'' then (Err (E ''SAMPLE-AES decryption is not supported''), segment)
         else if meth = ''CENC'' \<or> meth = ''CBCS'' then
           (if length (Key p) \<noteq> 16 then (Err (E ''key must be 16 bytes''), segment)
            else drmDecryptCENC nc meth (Key p) (PIV p) segment inPlace)
         else (Err (E ''unsupported decryption meth''), segment))"

definition drmDecrypt :: "cipher_fn \<Rightarrow> DecryptParams \<Rightarrow> byte list \<Rightarrow> (drm_err, byte list) outcome \<times> byte list" where
  "drmDecrypt nc p segment = drmDecryptBuf nc p segment False"

definition drmDecryptInPlace :: "cipher_fn \<Rightarrow> DecryptParams \<Rightarrow> byte list \<Rightarrow> (drm_err, byte list) outcome \<times> byte list" where
  "drmDecryptInPlace nc p segment = drmDecryptBuf nc p segment True"

section \<open>Lengths\<close>

text \<open>The block functions map 16-byte blocks to 16-byte blocks.\<close>

definition cipher_ok :: "cipher_fn \<Rightarrow> bool" where
  "cipher_ok nc \<longleftrightarrow> (\<forall>key b x. nc key = Some b \<longrightarrow> length x = 16 \<longrightarrow>
     length (Encrypt b x) = 16 \<and> length (Decrypt b x) = 16)"

lemma length_ctrStream:
  "\<forall>x. length x = 16 \<longrightarrow> length (En x) = 16 \<Longrightarrow> length ctr = 16 \<Longrightarrow> length (ctrStream En ctr xs) = length xs"
proof (induction En ctr xs rule: ctrStream.induct)
  case (1 En ctr xs)
  then show ?case by (cases "xs = []") (subst ctrStream.simps, simp)+
qed

lemma length_cbcDec:
  assumes "\<forall>x. length x = 16 \<longrightarrow> length (D x) = 16"
  shows "length iv = 16 \<Longrightarrow> length (fst (cbcDec D iv xs)) = length xs div 16 * 16 \<and> length (snd (cbcDec D iv xs)) = 16"
proof (induction "length xs" arbitrary: iv xs rule: less_induct)
  case less
  show ?case
  proof (cases "length xs < 16")
    case True
    then show ?thesis using less.prems by (subst (1 2) cbcDec.simps) simp
  next
    case False
    have "length (fst (cbcDec D (take 16 xs) (drop 16 xs))) = length (drop 16 xs) div 16 * 16 \<and>
        length (snd (cbcDec D (take 16 xs) (drop 16 xs))) = 16"
      using False by (intro less.hyps) auto
    moreover have "length xs div 16 = Suc ((length xs - 16) div 16)"
      using False by (simp add: div_if [of "length xs"])
    ultimately show ?thesis
      using False less.prems assms by (subst (1 2) cbcDec.simps) (simp add: Let_def case_prod_beta)
  qed
qed

lemma length_cbcsLoop:
  assumes "\<forall>x. length x = 16 \<longrightarrow> length (D x) = 16"
  shows "length iv = 16 \<Longrightarrow> full * 16 \<le> length span \<Longrightarrow> length (cbcsLoop D iv full c k span) = length span"
proof (induction full arbitrary: iv span rule: less_induct)
  case (less full)
  show ?case
  proof (cases "full = 0 \<or> c = 0")
    case True
    then show ?thesis by (subst cbcsLoop.simps) auto
  next
    case False
    define n m where "n = min c full" and "m = min (c + k) full"
    have nm: "n \<le> m" "m \<le> full" "0 < m" using False by (auto simp: n_def m_def)
    then have mul: "n * 16 \<le> m * 16" "m * 16 \<le> full * 16" "(full - m) * 16 = full * 16 - m * 16"
      by (simp_all add: diff_mult_distrib)
    have nl: "n * 16 \<le> length span" "m * 16 \<le> length span" using less.prems(2) mul by linarith+
    note d = length_cbcDec [OF assms less.prems(1), of "take (n * 16) span"]
    have "length (cbcsLoop D (snd (cbcDec D iv (take (n * 16) span))) (full - m) c k (drop (m * 16) span)) =
        length (drop (m * 16) span)"
      using d nm mul less.prems(2) by (intro less.IH) auto
    then show ?thesis
      using False d nl mul
      by (subst cbcsLoop.simps) (simp add: Let_def case_prod_beta diff_mult_distrib flip: n_def m_def)
  qed
qed

lemma length_pattern:
  assumes "\<forall>x. length x = 16 \<longrightarrow> length (Decrypt b x) = 16" "length iv = 16"
  shows "length (drmCBCSPattern b iv span c k) = length span"
proof -
  have "length span div 16 * 16 \<le> length span" by simp
  then show ?thesis
    using length_cbcDec [OF assms, of "take (length span div 16 * 16) span"]
      length_cbcsLoop [OF assms, of "length span div 16" span c k]
    by (simp add: drmCBCSPattern_def Let_def)
qed

lemma length_cbcsSubs:
  assumes "\<forall>x. length x = 16 \<longrightarrow> length (Decrypt b x) = 16" "length iv = 16"
  shows "length (fst (cbcsSubs b iv c k data off subs)) = length data"
proof (induction subs arbitrary: data off)
  case (Cons s subs)
  have "length (take (off + Clear s) data @ drmCBCSPattern b iv (view data (off + Clear s) (Encrypted s)) c k @
      drop (off + Clear s + Encrypted s) data) = length data" if "off + Clear s + Encrypted s \<le> length data"
    using that by (simp add: length_pattern [OF assms] view_def)
  with Cons.IH show ?case by (auto simp: Let_def)
qed simp

lemma length_decryptSample:
  assumes "cipher_ok nc"
  shows "length (fst (decryptSample nc meth key tenc e d)) = length d"
proof (cases "meth = ''CBCS''")
  case True
  show ?thesis
  proof (cases "nc key")
    case (Some b)
    then have D: "\<forall>x. length x = 16 \<longrightarrow> length (Decrypt b x) = 16" using assms by (auto simp: cipher_ok_def)
    have "length (if length (IV e) < 16 then IV e @ replicate (16 - length (IV e)) 0 else take 16 (IV e)) = 16" by simp
    from length_pattern [OF D this] length_cbcsSubs [OF D this] show ?thesis
      using True Some by (auto simp: decryptSample_def drmDecryptCBCSubsamples_def Let_def split: prod.split)
  qed (use True in \<open>auto simp: decryptSample_def drmDecryptCBCSubsamples_def Let_def split: prod.split\<close>)
next
  case False
  show ?thesis
  proof (cases "nc key")
    case (Some b)
    then have En: "\<forall>x. length x = 16 \<longrightarrow> length (Encrypt b x) = 16" using assms by (auto simp: cipher_ok_def)
    show ?thesis
    proof (cases "length key = 16 \<and> Subsamples e \<noteq> []")
      case True
      then have "drmDecryptCTRSubsamples nc key (IV e) d (Subsamples e) =
          Ok (ctrSpec (ks (Encrypt b) (ctrBlockOf (IV e))) d 0 0 (Subsamples e))"
        using ctr_subs_eq [where newCipher = nc and key = key, OF Some _ En] by simp
      then show ?thesis using False ctrSpec_mask by (simp add: decryptSample_def)
    next
      case no: False
      show ?thesis
        using no False Some length_ctrStream [OF En]
        by (cases "length key = 16") (simp_all add: decryptSample_def drmDecryptCTRSubsamples_def Let_def)
    qed
  qed (use False in \<open>simp add: decryptSample_def drmDecryptCTRSubsamples_def\<close>)
qed

section \<open>What decryption may touch\<close>

text \<open>\<open>touches R buf buf'\<close>: same length, and only positions in \<open>R\<close> may differ.\<close>

definition touches :: "nat set \<Rightarrow> byte list \<Rightarrow> byte list \<Rightarrow> bool" where
  "touches R buf buf' \<longleftrightarrow> length buf' = length buf \<and> (\<forall>i < length buf. i \<notin> R \<longrightarrow> buf' ! i = buf ! i)"

lemma touches_refl [simp]: "touches R buf buf"
  by (simp add: touches_def)

lemma touches_trans: "touches R a b \<Longrightarrow> touches R b c \<Longrightarrow> touches R a c"
  by (simp add: touches_def)

lemma touches_mono: "touches R a b \<Longrightarrow> R \<subseteq> S \<Longrightarrow> touches S a b"
  by (auto simp: touches_def)

lemma touches_putAt:
  assumes "off + length d \<le> length buf" "{off..<off + length d} \<subseteq> R"
  shows "touches R buf (putAt buf off d)"
proof -
  have "putAt buf off d ! i = buf ! i" if "i < length buf" "i \<notin> R" for i
  proof (cases "i < off")
    case False
    then have "\<not> i < off + length d" using that(2) assms(2) by (meson atLeastLessThan_iff not_less subsetD)
    then have "\<not> i - off < length d" "off \<le> length buf" "off + length d + (i - (off + length d)) = i"
      using False assms(1) by linarith+
    then show ?thesis using False that assms(1) by (simp add: putAt_def nth_append)
  qed (use that assms(1) in \<open>simp add: putAt_def nth_append\<close>)
  then show ?thesis using assms(1) by (simp add: touches_def putAt_def)
qed

lemma slice_bounds:
  "slice xs lo hi = Ok d \<Longrightarrow> 0 \<le> lo \<and> lo \<le> hi \<and> hi \<le> int (length xs) \<and> int (length d) = hi - lo"
  by (auto simp: slice_def split: if_splits)

lemma sampleLoop_touches:
  assumes "cipher_ok nc"
  shows "mStart + mLen \<le> length buf \<Longrightarrow>
    touches {mStart..<mStart + mLen} buf (fst (sampleLoop nc meth key tenc tf mStart mLen buf i pos ses))"
proof (induction ses arbitrary: buf i pos)
  case (Cons se ses)
  obtain samp entry where se: "se = (samp, entry)" by (cases se)
  let ?R = "{mStart..<mStart + mLen}" and ?hi = "i64 (pos + int (sampleSize tf samp))"
  have step: "touches ?R buf (putAt buf (mStart + nat pos) (fst (decryptSample nc meth key tenc entry d)))"
    if "slice (drop mStart buf) pos ?hi = (Ok d :: (drm_err, byte list) outcome)" "\<not> ?hi > int mLen" for d
  proof -
    have "0 \<le> pos" "int (length d) = ?hi - pos" using slice_bounds [OF that(1)] by simp_all
    then have "nat pos + length d \<le> mLen" using that(2) by linarith
    then show ?thesis
      using Cons.prems by (intro touches_putAt) (auto simp: length_decryptSample [OF assms])
  qed
  show ?case
  proof (cases "slice (drop mStart buf) pos ?hi :: (drm_err, byte list) outcome")
    case (Ok d)
    show ?thesis
    proof (cases "?hi > int mLen")
      case False
      let ?b = "putAt buf (mStart + nat pos) (fst (decryptSample nc meth key tenc entry d))"
      have t: "touches ?R buf ?b" by (rule step [OF Ok False])
      then have "mStart + mLen \<le> length ?b" using Cons.prems by (simp add: touches_def)
      from touches_trans [OF t Cons.IH [OF this]] Cons.IH [OF Cons.prems] t Ok show ?thesis
        by (simp add: se Let_def case_prod_beta split: option.split)
    qed (use Cons in \<open>simp add: se Let_def\<close>)
  qed (use Cons in \<open>simp_all add: se Let_def\<close>)
qed simp

lemma traf_touches:
  assumes "cipher_ok nc" "mStart + mLen \<le> length buf"
  shows "touches {mStart..<mStart + mLen} buf (fst (drmDecryptTraf nc meth key iv tenc bs moofStart mStart mLen buf))"
  using sampleLoop_touches [OF assms]
  by (auto simp: drmDecryptTraf_def Let_def split: outcome.splits option.splits)

lemma moofLoop_touches:
  assumes "cipher_ok nc"
  shows "mStart + mLen \<le> length buf \<Longrightarrow>
    touches {mStart..<mStart + mLen} buf (fst (moofLoop nc meth key iv tenc moofStart mStart mLen buf cs))"
proof (induction cs arbitrary: buf)
  case (Cons c cs)
  show ?case
  proof (cases "drmParseBoxes buf (pOff c) (pLen c)")
    case (Ok bs)
    obtain buf' r where r: "drmDecryptTraf nc meth key iv tenc bs moofStart mStart mLen buf = (buf', r)" by fastforce
    have t: "touches {mStart..<mStart + mLen} buf buf'"
      using traf_touches [OF assms Cons.prems, of meth key iv tenc bs moofStart] r by simp
    then have "mStart + mLen \<le> length buf'" using Cons.prems by (simp add: touches_def)
    from touches_trans [OF t Cons.IH [OF this]] Cons.IH [OF Cons.prems] t Ok r show ?thesis
      by (auto split: outcome.splits)
  qed (use Cons in auto)
qed simp

lemma moof_touches:
  assumes "cipher_ok nc" "mStart + mLen \<le> length buf"
  shows "touches {mStart..<mStart + mLen} buf (fst (drmDecryptMoof nc meth key iv tenc moof mStart mLen buf))"
  using moofLoop_touches [OF assms] by (auto simp: drmDecryptMoof_def split: outcome.splits)

text \<open>The bodies of the \<open>mdat\<close> boxes of a box list.\<close>

definition mdat_bytes :: "drmBox list \<Rightarrow> nat set" where
  "mdat_bytes bs = (\<Union>x \<in> {x \<in> set bs. Type x = tag ''mdat''}. {Start x + HdrSize x..<Start x + Size x})"

lemma cencLoop_touches:
  assumes "cipher_ok nc"
  shows "touches (mdat_bytes bs) buf (fst (cencLoop nc meth key iv tenc buf bs))"
proof (induction bs arbitrary: buf)
  case (Cons b bs)
  have sub: "mdat_bytes bs \<subseteq> mdat_bytes (b # bs)" by (auto simp: mdat_bytes_def)
  have IH: "touches (mdat_bytes (b # bs)) buf' (fst (cencLoop nc meth key iv tenc buf' bs))" for buf'
    using touches_mono [OF Cons.IH sub] .
  show ?case
  proof (cases "find (\<lambda>x. Type x = tag ''mdat'') bs")
    case None
    with IH show ?thesis by simp
  next
    case (Some x)
    let ?s = "Start x + HdrSize x" and ?e = "Start x + Size x"
    have x: "x \<in> set bs" "Type x = tag ''mdat''" using Some by (auto simp: find_Some_iff)
    then have R: "{?s..<?e} \<subseteq> mdat_bytes (b # bs)" by (auto simp: mdat_bytes_def)
    show ?thesis
    proof (cases "sliceN buf ?s ?e :: (drm_err, byte list) outcome")
      case (Ok d)
      then have d: "?s + length d = ?e" "?e \<le> length buf" by (auto simp: sliceN_def split: if_splits)
      obtain buf' r where r: "drmDecryptMoof nc meth key iv tenc b ?s (length d) buf = (buf', r)" by fastforce
      have "touches {?s..<?s + length d} buf buf'"
        using moof_touches [OF assms d(2) [folded d(1)], of meth key iv tenc b] unfolding r fst_conv .
      then have t: "touches (mdat_bytes (b # bs)) buf buf'" using R unfolding d(1) by (rule touches_mono)
      from touches_trans [OF t IH] t IH [of buf] Some Ok r show ?thesis
        by (auto simp: Let_def split: outcome.splits)
    qed (use Some IH in \<open>auto simp: Let_def\<close>)
  qed
qed simp

text \<open>C7: CENC and CBCS decryption rewrites media data only: on success the output has the segment's length and
  differs from it, if at all, inside the bodies of the segment's \<open>mdat\<close> boxes; a decryption that is not in place
  leaves the segment as it was, and in place the segment becomes the output.\<close>

theorem drm_cenc_only_mdat:
  assumes "cipher_ok nc" "drmDecryptCENC nc meth key iv segment inPlace = (Ok out, seg')"
  shows "length out = length segment \<and> seg' = (if inPlace then out else segment) \<and>
    (\<exists>boxes. drmParseBoxes segment 0 (length segment) = Ok boxes \<and>
      (\<forall>i < length segment. out ! i \<noteq> segment ! i \<longrightarrow>
        (\<exists>x \<in> set boxes. Type x = tag ''mdat'' \<and> Start x + HdrSize x \<le> i \<and> i < Start x + Size x)))"
proof -
  obtain boxes where b: "drmParseBoxes segment 0 (length segment) = Ok boxes"
    using assms(2) by (auto simp: drmDecryptCENC_def split: outcome.splits)
  obtain o' r where o: "cencLoop nc meth key iv (drmFindTenc segment boxes) segment boxes = (o', r)" by fastforce
  have "o' = out" "seg' = (if inPlace then out else segment)"
    using assms(2) by (auto simp: drmDecryptCENC_def b o bnd_eq_Ok)
  moreover have "touches (mdat_bytes boxes) segment out"
    using cencLoop_touches [OF assms(1), of boxes segment meth key iv "drmFindTenc segment boxes"] o \<open>o' = out\<close> by simp
  ultimately show ?thesis using b by (auto simp: touches_def mdat_bytes_def)
qed

text \<open>Concrete segments for the witnesses.\<close>

definition box_bytes :: "string \<Rightarrow> byte list \<Rightarrow> byte list" where
  "box_bytes t p = be_bytes 4 (8 + length p) @ tag t @ p"

definition demo_fragment :: "byte list \<Rightarrow> nat \<Rightarrow> byte list" where
  "demo_fragment tf n =
     box_bytes ''moof'' (box_bytes ''traf'' (box_bytes ''tfhd'' tf @
       box_bytes ''trun'' ([0, 0, 2, 1, 0, 0, 0, 1, 0, 0, 0, 88] @ be_bytes 4 n) @
       box_bytes ''senc'' ([0, 0, 0, 0, 0, 0, 0, 1] @ replicate 8 1))) @ box_bytes ''mdat'' (replicate 16 0)"

lemma toyCipher_ok: "cipher_ok toyCipher"
  by (auto simp: cipher_ok_def toyCipher_def toy_def split: if_splits)

definition demo_plain :: "byte list" where
  "demo_plain = demo_fragment [0, 0, 0, 0, 0, 0, 0, 1] 16"

lemma demo_plain_out: "drmDecryptCENC toyCipher ''CENC'' (replicate 16 1) [] demo_plain True =
    (Ok (take 88 demo_plain @ replicate 8 91 @ replicate 8 90), take 88 demo_plain @ replicate 8 91 @ replicate 8 90)"
  by code_simp

theorem drm_cenc_only_mdat_witness:
  "\<exists>boxes. drmParseBoxes demo_plain 0 (length demo_plain) = Ok boxes \<and>
     length (take 88 demo_plain @ replicate 8 91 @ replicate 8 (90 :: byte)) = length demo_plain"
  using drm_cenc_only_mdat [OF toyCipher_ok demo_plain_out] by blast

section \<open>Sample positions\<close>

lemma sampleLoop_no_panic:
  assumes "mStart + mLen \<le> length buf" "cipher_ok nc" "int mLen < 2 ^ 62" "defaultSampleSize tf < 2 ^ 32"
    and "\<forall>(s, e) \<in> set ses. SSize s < 2 ^ 32" "0 \<le> pos" "pos < 2 ^ 62 + 2 ^ 32"
  shows "snd (sampleLoop nc meth key tenc tf mStart mLen buf i pos ses) \<noteq> Panic"
  using assms
proof (induction ses arbitrary: buf i pos)
  case (Cons se ses)
  obtain samp entry where se: "se = (samp, entry)" by (cases se)
  let ?size = "int (sampleSize tf samp)"
  have "sampleSize tf samp < 2 ^ 32" using Cons.prems by (auto simp: sampleSize_def se)
  then have sz: "?size < 2 ^ 32" by (metis of_nat_less_numeral_power_cancel_iff)
  then have hi: "i64 (pos + ?size) = pos + ?size" using Cons.prems by (intro i64_id) auto
  show ?case
  proof (cases "pos + ?size > int mLen")
    case False
    have "mLen \<le> length (drop mStart buf)" using Cons.prems by simp
    then obtain d where d: "slice (drop mStart buf) pos (pos + ?size) = (Ok d :: (drm_err, byte list) outcome)"
      using False Cons.prems by (simp add: slice_def)
    have "nat pos + length d \<le> mLen" using slice_bounds [OF d] False by linarith
    then have len: "length (putAt buf (mStart + nat pos) (fst (decryptSample nc meth key tenc entry d))) = length buf"
      using Cons.prems(1) by (simp add: putAt_def length_decryptSample [OF assms(2)])
    have IH: "snd (sampleLoop nc meth key tenc tf mStart mLen b j p ses) \<noteq> Panic"
      if "length b = length buf" "p = pos \<or> p = pos + ?size" for b j p
      using Cons.prems that False by (intro Cons.IH) auto
    show ?thesis
      using IH len d by (auto simp: se Let_def hi case_prod_beta split: option.split)
  next
    case True
    then show ?thesis using Cons.prems Cons.IH [OF Cons.prems(1-4) _ Cons.prems(6,7)] by (auto simp: se Let_def hi)
  qed
qed simp

lemma trun_ok:
  "drmParseTrun p = Ok (ss, d) \<Longrightarrow> (\<forall>x \<in> set ss. SSize x < 2 ^ 32) \<and> - (2 ^ 31) \<le> d \<and> d < 2 ^ 31"
proof (cases "length p < 8")
  case False
  assume "drmParseTrun p = Ok (ss, d)"
  with False obtain flags off c x where "trunLoop p flags 0 off c = Ok ss" "d = i32 x"
    unfolding drmParseTrun_def by (auto simp: bnd_eq_Ok simp del: be_read_ok split: if_split_asm)
  then show ?thesis using trunLoop_ok i32_range [of x] by blast
qed (simp add: drmParseTrun_def)

lemma wrapErr_eq [simp]: "wrapErr m r = Ok x \<longleftrightarrow> r = Ok x" "wrapErr m r = Panic \<longleftrightarrow> r = Panic"
  by (cases r; simp)+

lemma trafScan_ok:
  "(\<forall>s r. tTrun st = Some (r, s) \<longrightarrow> (\<forall>x \<in> set r. SSize x < 2 ^ 32) \<and> - (2 ^ 31) \<le> s \<and> s < 2 ^ 31) \<Longrightarrow>
   (\<forall>tf. tTfhd st = Some tf \<longrightarrow> P tf \<and> defaultSampleSize tf < 2 ^ 32) \<Longrightarrow>
   (\<forall>b \<in> set bs. \<forall>tf. Type b = tag ''tfhd'' \<and> drmParseTfhd (payload buf b) = Ok tf \<longrightarrow> P tf) \<Longrightarrow>
   trafScan buf tenc iv bs st \<noteq> Panic \<and>
   (\<forall>st'. trafScan buf tenc iv bs st = Ok st' \<longrightarrow>
      (\<forall>s r. tTrun st' = Some (r, s) \<longrightarrow> (\<forall>x \<in> set r. SSize x < 2 ^ 32) \<and> - (2 ^ 31) \<le> s \<and> s < 2 ^ 31) \<and>
      (\<forall>tf. tTfhd st' = Some tf \<longrightarrow> P tf \<and> defaultSampleSize tf < 2 ^ 32))"
proof (induction bs arbitrary: st)
  case (Cons b bs)
  show ?case
  proof (cases "Type b = tag ''tfhd''")
    case True
    have "trafScan buf tenc iv bs (st\<lparr>tTfhd := Some t\<rparr>) \<noteq> Panic \<and>
        (\<forall>st'. trafScan buf tenc iv bs (st\<lparr>tTfhd := Some t\<rparr>) = Ok st' \<longrightarrow>
           (\<forall>s r. tTrun st' = Some (r, s) \<longrightarrow> (\<forall>x \<in> set r. SSize x < 2 ^ 32) \<and> - (2 ^ 31) \<le> s \<and> s < 2 ^ 31) \<and>
           (\<forall>tf. tTfhd st' = Some tf \<longrightarrow> P tf \<and> defaultSampleSize tf < 2 ^ 32))"
      if "drmParseTfhd (payload buf b) = Ok t" for t
      using Cons.prems True that tfhd_bounds(2) [OF that] by (intro Cons.IH) auto
    with True tfhd_no_panic show ?thesis by (auto simp: bnd_eq_Ok bnd_eq_Panic)
  next
    case nt: False
    show ?thesis
    proof (cases "Type b = tag ''trun''")
      case True
      have "trafScan buf tenc iv bs (st\<lparr>tTrun := Some t\<rparr>) \<noteq> Panic \<and>
          (\<forall>st'. trafScan buf tenc iv bs (st\<lparr>tTrun := Some t\<rparr>) = Ok st' \<longrightarrow>
             (\<forall>s r. tTrun st' = Some (r, s) \<longrightarrow> (\<forall>x \<in> set r. SSize x < 2 ^ 32) \<and> - (2 ^ 31) \<le> s \<and> s < 2 ^ 31) \<and>
             (\<forall>tf. tTfhd st' = Some tf \<longrightarrow> P tf \<and> defaultSampleSize tf < 2 ^ 32))"
        if "drmParseTrun (payload buf b) = Ok t" for t
        using Cons.prems trun_ok [of "payload buf b" "fst t" "snd t"] that by (intro Cons.IH) auto
      with True nt trun_no_panic show ?thesis by (auto simp: bnd_eq_Ok bnd_eq_Panic)
    next
      case False
      have "trafScan buf tenc iv bs (if c then st\<lparr>tSenc := Some t\<rparr> else st) \<noteq> Panic \<and>
          (\<forall>st'. trafScan buf tenc iv bs (if c then st\<lparr>tSenc := Some t\<rparr> else st) = Ok st' \<longrightarrow>
             (\<forall>s r. tTrun st' = Some (r, s) \<longrightarrow> (\<forall>x \<in> set r. SSize x < 2 ^ 32) \<and> - (2 ^ 31) \<le> s \<and> s < 2 ^ 31) \<and>
             (\<forall>tf. tTfhd st' = Some tf \<longrightarrow> P tf \<and> defaultSampleSize tf < 2 ^ 32))" for c t
        using Cons.prems by (intro Cons.IH) auto
      from this [of True] this [of False] nt False senc_no_panic show ?thesis
        by (auto simp: bnd_eq_Ok bnd_eq_Panic)
    qed
  qed
qed simp

lemma traf_loop:
  assumes "cipher_ok nc" "mStart + mLen \<le> length buf"
    and lb: "int moofStart < 2 ^ 62" "int mStart < 2 ^ 62" "int mLen < 2 ^ 62"
    and tf: "baseDataOffsetPresent tf \<longrightarrow> baseDataOffset tf < 2 ^ 62" "defaultSampleSize tf < 2 ^ 32"
    and ss: "\<forall>x \<in> set ss. SSize x < 2 ^ 32" and d: "- (2 ^ 31) \<le> d" "d < 2 ^ 31"
    and pos: "0 \<le> pos" "pos = sampleStart tf moofStart d mStart"
  shows "snd (sampleLoop nc meth key tenc tf mStart mLen buf 0 pos (zip ss es)) \<noteq> Panic"
proof -
  define base where "base = (if baseDataOffsetPresent tf then int (baseDataOffset tf) else int moofStart)"
  have b: "0 \<le> base" "base < 2 ^ 62" using tf(1) lb(1) by (auto simp: base_def)
  have "i64 (int (baseDataOffset tf)) = int (baseDataOffset tf)" if "baseDataOffsetPresent tf"
    using tf(1) that by (intro i64_id) auto
  then have "pos = i64 (i64 (base + d) - int mStart)" using pos(2) by (simp add: base_def sampleStart_def)
  also have "i64 (base + d) = base + d" using b d by (intro i64_id) auto
  also have "i64 (base + d - int mStart) = base + d - int mStart" using b d lb(2) by (intro i64_id) auto
  finally have "pos < 2 ^ 62 + 2 ^ 32" using b d by simp
  moreover have "\<forall>(s, e) \<in> set (zip ss es). SSize s < 2 ^ 32" using ss by (auto dest: set_zip_leftD)
  ultimately show ?thesis using assms(1,2) lb(3) tf(2) pos(1) by (intro sampleLoop_no_panic) auto
qed

text \<open>Decrypting a track fragment never panics as long as its explicit base data offset, if any, is below
  \<open>2^62\<close>: every sample position is then computed without wrap-around and checked against the \<open>mdat\<close> body
  before it is sliced.\<close>

theorem drm_traf_no_panic:
  assumes "cipher_ok nc" "mStart + mLen \<le> length buf" "moofStart \<le> length buf" "length buf < 2 ^ 62"
    and "\<forall>b \<in> set trafBoxes. \<forall>tf. Type b = tag ''tfhd'' \<and> drmParseTfhd (payload buf b) = Ok tf \<longrightarrow>
      baseDataOffsetPresent tf \<longrightarrow> baseDataOffset tf < 2 ^ 62"
  shows "snd (drmDecryptTraf nc meth key iv tenc trafBoxes moofStart mStart mLen buf) \<noteq> Panic"
proof -
  let ?P = "\<lambda>tf. baseDataOffsetPresent tf \<longrightarrow> baseDataOffset tf < 2 ^ 62"
  let ?st0 = "\<lparr>tTfhd = None, tTrun = None, tSenc = None\<rparr>"
  have lb: "int moofStart < 2 ^ 62" "int mStart < 2 ^ 62" "int mLen < 2 ^ 62"
    using assms(2-4) by simp_all
  have sc: "trafScan buf tenc iv trafBoxes ?st0 \<noteq> Panic \<and>
      (\<forall>st'. trafScan buf tenc iv trafBoxes ?st0 = Ok st' \<longrightarrow>
        (\<forall>s r. tTrun st' = Some (r, s) \<longrightarrow> (\<forall>x \<in> set r. SSize x < 2 ^ 32) \<and> - (2 ^ 31) \<le> s \<and> s < 2 ^ 31) \<and>
        (\<forall>tf. tTfhd st' = Some tf \<longrightarrow> ?P tf \<and> defaultSampleSize tf < 2 ^ 32))"
    using assms(5) by (intro trafScan_ok) auto
  show ?thesis
  proof (cases "trafScan buf tenc iv trafBoxes ?st0")
    case (Ok st)
    show ?thesis
    proof (cases "tTfhd st = None \<or> tTrun st = None")
      case False
      then obtain tf ss d where st: "tTfhd st = Some tf" "tTrun st = Some (ss, d)" by auto
      have "?P tf" "defaultSampleSize tf < 2 ^ 32" "\<forall>x \<in> set ss. SSize x < 2 ^ 32" "- (2 ^ 31) \<le> d" "d < 2 ^ 31"
        using sc Ok st by blast+
      from traf_loop [OF assms(1,2) lb this _ refl] show ?thesis
        using Ok st by (simp add: drmDecryptTraf_def Let_def split: option.split)
    qed (use Ok in \<open>auto simp: drmDecryptTraf_def split: option.split\<close>)
  qed (use sc in \<open>simp_all add: drmDecryptTraf_def\<close>)
qed

theorem drm_traf_no_panic_witness:
  "snd (drmDecryptTraf toyCipher ''CENC'' (replicate 16 1) [] noTenc [] 0 8 2 (replicate 10 0)) \<noteq> Panic"
  by (rule drm_traf_no_panic [OF toyCipher_ok]) simp_all

text \<open>The bound is needed: in a segment whose track fragment declares a base data offset of \<open>2^63 - 1\<close> the
  \<open>int64\<close> sum of position and sample size wraps to a negative number, passes the check against the \<open>mdat\<close> length,
  and the slice expression panics.\<close>

theorem drm_offset_overflow_panics:
  "fst (drmDecryptBuf toyCipher \<lparr>Method = ''cenc'', Key = replicate 16 1, PIV = []\<rparr>
     (demo_fragment ([0, 0, 0, 1, 0, 0, 0, 1] @ be_bytes 8 (2 ^ 63 - 1)) 4096) True) = Panic"
  by code_simp

end
