(* ===== verification/Yenc.thy ===== *)
theory Yenc
  imports Prelude "HOL-Library.Code_Target_Nat"
begin

unbundle bit_operations_syntax

text \<open>
  \<open>internal/nzb/yenc.go\<close>: decoding of one yEnc article. The reader is the article's byte stream, split into lines
  as \<open>bufio.Scanner\<close> does (limit included); the destination is any writer, a state with a write function that
  accepts or refuses a chunk; the batching \<open>bufio.Writer\<close> in between is modelled, since it decides how much a
  failing article has delivered. Header lines are read as ASCII. CRC-32 is computed bitwise.
\<close>

section \<open>Text helpers\<close>

definition isSpaceB :: "byte \<Rightarrow> bool" where
  "isSpaceB b \<longleftrightarrow> b \<in> {9, 10, 11, 12, 13, 32}"

text \<open>\<open>strings.Fields\<close>\<close>

function wordsB :: "byte list \<Rightarrow> byte list list" where
  "wordsB s =
     (let s = dropWhile isSpaceB s
      in if s = [] then [] else takeWhile (\<lambda>b. \<not> isSpaceB b) s # wordsB (dropWhile (\<lambda>b. \<not> isSpaceB b) s))"
  by pat_completeness auto
termination
proof (relation "measure length", goal_cases)
  case (2 s x)
  from 2(2) obtain a l where x: "x = a # l" by (meson neq_Nil_conv)
  then have "\<not> isSpaceB a" using 2 hd_dropWhile [of isSpaceB s] by (metis list.sel(1))
  then have "length (dropWhile (\<lambda>b. \<not> isSpaceB b) x) < length x"
    using length_dropWhile_le [of "\<lambda>b. \<not> isSpaceB b" l] by (simp add: x)
  with 2(1) length_dropWhile_le [of isSpaceB s] show ?case by simp
qed simp

declare wordsB.simps [simp del]

text \<open>\<open>strings.Cut(f, "=")\<close>\<close>

definition cutEq :: "byte list \<Rightarrow> (byte list \<times> byte list) option" where
  "cutEq f =
     (case dropWhile (\<lambda>b. b \<noteq> 61) f of [] \<Rightarrow> None | _ # v \<Rightarrow> Some (takeWhile (\<lambda>b. b \<noteq> 61) f, v))"

definition lowerB :: "byte \<Rightarrow> byte" where
  "lowerB b = (if 65 \<le> b \<and> b \<le> 90 then b + 32 else b)"

definition lit :: "string \<Rightarrow> byte list" where
  "lit s = map of_char s"

text \<open>\<open>strconv.ParseInt(v, 10, 64)\<close> and \<open>strconv.ParseUint(v, 16, 32)\<close>.\<close>

definition digits :: "byte list \<Rightarrow> nat option" where
  "digits v = (if v \<noteq> [] \<and> (\<forall>b \<in> set v. 48 \<le> b \<and> b \<le> 57)
     then Some (foldl (\<lambda>n b. n * 10 + (unat b - 48)) 0 v) else None)"

definition parseInt :: "byte list \<Rightarrow> int option" where
  "parseInt v =
     (let (neg, ds) = (case v of b # r \<Rightarrow> if b = 45 then (True, r) else if b = 43 then (False, r) else (False, v)
                               | [] \<Rightarrow> (False, []))
      in case digits ds of
           None \<Rightarrow> None
         | Some n \<Rightarrow> if neg then (if n \<le> 2 ^ 63 then Some (- int n) else None)
                     else (if n < 2 ^ 63 then Some (int n) else None))"

definition hexval :: "byte \<Rightarrow> nat option" where
  "hexval b =
     (if 48 \<le> b \<and> b \<le> 57 then Some (unat b - 48)
      else if 97 \<le> lowerB b \<and> lowerB b \<le> 102 then Some (unat (lowerB b) - 87) else None)"

fun hexfold :: "nat \<Rightarrow> byte list \<Rightarrow> nat option" where
  "hexfold n [] = Some n"
| "hexfold n (b # bs) = (case hexval b of None \<Rightarrow> None | Some h \<Rightarrow> hexfold (n * 16 + h) bs)"

definition parseHex32 :: "byte list \<Rightarrow> nat option" where
  "parseHex32 v = (if v = [] then None else
     case hexfold 0 v of Some n \<Rightarrow> if n < 2 ^ 32 then Some n else None | None \<Rightarrow> None)"

section \<open>CRC-32\<close>

primrec crcShift :: "nat \<Rightarrow> 32 word \<Rightarrow> 32 word" where
  "crcShift 0 c = c"
| "crcShift (Suc k) c = crcShift k (if bit c 0 then drop_bit 1 c XOR 0xEDB88320 else drop_bit 1 c)"

definition crcByte :: "32 word \<Rightarrow> byte \<Rightarrow> 32 word" where
  "crcByte c v = crcShift 8 ((c XOR ucast v) AND 255) XOR drop_bit 8 c"

definition crcUpdate :: "32 word \<Rightarrow> byte list \<Rightarrow> 32 word" where
  "crcUpdate c p = NOT (foldl crcByte (NOT c) p)"

lemma crcUpdate_append: "crcUpdate (crcUpdate c p) q = crcUpdate c (p @ q)"
  by (simp add: crcUpdate_def)

lemma crcUpdate_Nil [simp]: "crcUpdate c [] = c"
  by (simp add: crcUpdate_def)

section \<open>Lines\<close>

definition yencMaxLine :: nat where "yencMaxLine = 262144"

definition dropCR :: "byte list \<Rightarrow> byte list" where
  "dropCR l = (if l \<noteq> [] \<and> last l = 13 then butlast l else l)"

text \<open>The tokens of \<open>bufio.Scanner\<close>: \<open>None\<close> marks the point where a line does not fit the buffer
  (\<open>bufio.ErrTooLong\<close>).\<close>

function scanLines :: "byte list \<Rightarrow> byte list option list" where
  "scanLines s =
     (if s = [] then []
      else
        (let l = takeWhile (\<lambda>b. b \<noteq> 10) s
         in if length l \<ge> yencMaxLine then [None]
            else Some (dropCR l) # scanLines (drop (length l + 1) s)))"
  by pat_completeness auto
termination by (relation "measure length") auto

declare scanLines.simps [simp del]

section \<open>Headers\<close>

record yencHeader =
  Size :: int
  Part :: int
  Begin :: int
  End :: int
  HasPart :: bool

definition noHeader :: yencHeader where
  "noHeader = \<lparr>Size = 0, Part = 0, Begin = 0, End = 0, HasPart = False\<rparr>"

definition ybeginTag :: "byte list" where "ybeginTag = [61, 121, 98, 101, 103, 105, 110]"
definition ypartTag :: "byte list" where "ypartTag = [61, 121, 112, 97, 114, 116]"
definition yendTag :: "byte list" where "yendTag = [61, 121, 101, 110, 100]"

definition hasPrefix :: "byte list \<Rightarrow> byte list \<Rightarrow> bool" where
  "hasPrefix s p \<longleftrightarrow> take (length p) s = p"

fun ybeginFields :: "byte list list \<Rightarrow> yencHeader \<Rightarrow> yencHeader" where
  "ybeginFields [] h = h"
| "ybeginFields (f # fs) h =
     (case cutEq f of
        None \<Rightarrow> ybeginFields fs h
      | Some (k, v) \<Rightarrow>
          (let k = map lowerB k
           in if k = lit ''size'' then
                ybeginFields fs (case parseInt v of Some n \<Rightarrow> h\<lparr>Size := n\<rparr> | None \<Rightarrow> h)
              else if k = lit ''part'' then
                ybeginFields fs (case parseInt v of Some n \<Rightarrow> h\<lparr>Part := n\<rparr> | None \<Rightarrow> h)
              else if k = lit ''name'' then h
              else ybeginFields fs h))"

definition parseYbegin :: "byte list \<Rightarrow> yencHeader \<Rightarrow> yencHeader" where
  "parseYbegin line h = ybeginFields (wordsB (drop (length ybeginTag) line)) h"

fun ypartFields :: "byte list list \<Rightarrow> yencHeader \<Rightarrow> yencHeader" where
  "ypartFields [] h = h"
| "ypartFields (f # fs) h =
     ypartFields fs
       (case cutEq f of
          None \<Rightarrow> h
        | Some (k, v) \<Rightarrow>
            (let k = map lowerB k
             in if k = lit ''begin'' then (case parseInt v of Some n \<Rightarrow> h\<lparr>Begin := n\<rparr> | None \<Rightarrow> h)
                else if k = lit ''end'' then (case parseInt v of Some n \<Rightarrow> h\<lparr>End := n\<rparr> | None \<Rightarrow> h)
                else h))"

definition parseYpart :: "byte list \<Rightarrow> yencHeader \<Rightarrow> yencHeader" where
  "parseYpart line h = ypartFields (wordsB (drop (length ypartTag) line)) h"

section \<open>Trailer\<close>

datatype yenc_err =
    YendWithoutYbegin | OpenErr | WriteErr | EscapeAtEnd | LineTooLong | NoYbegin | NoYend
  | SizeMismatch int int | CrcMismatch

fun yendFields :: "byte list list \<Rightarrow> int \<Rightarrow> bool \<Rightarrow> byte list \<Rightarrow> (yenc_err, byte list) outcome" where
  "yendFields [] written multipart crcStr = Ok crcStr"
| "yendFields (f # fs) written multipart crcStr =
     (case cutEq f of
        None \<Rightarrow> yendFields fs written multipart crcStr
      | Some (k, v) \<Rightarrow>
          (let k = map lowerB k
           in if k = lit ''size'' then
                (case parseInt v of
                   Some n \<Rightarrow> if n \<noteq> written then Err (SizeMismatch written n)
                             else yendFields fs written multipart crcStr
                 | None \<Rightarrow> yendFields fs written multipart crcStr)
              else if k = lit ''pcrc32'' then yendFields fs written multipart v
              else if k = lit ''crc32'' then
                yendFields fs written multipart (if \<not> multipart \<and> crcStr = [] then v else crcStr)
              else yendFields fs written multipart crcStr))"

text \<open>\<open>None\<close> is success.\<close>

definition verifyYencTrailer :: "byte list \<Rightarrow> int \<Rightarrow> 32 word \<Rightarrow> bool \<Rightarrow> yenc_err option" where
  "verifyYencTrailer line written crc multipart =
     (case yendFields (tl (wordsB line)) written multipart [] of
        Err e \<Rightarrow> Some e
      | Panic \<Rightarrow> None
      | Ok crcStr \<Rightarrow>
          if crcStr = [] then None
          else (case parseHex32 crcStr of
                  None \<Rightarrow> None
                | Some want \<Rightarrow> if of_nat want \<noteq> crc then Some CrcMismatch else None))"

section \<open>The batching writer\<close>

definition yencWriteBuf :: nat where "yencWriteBuf = 131072"

text \<open>\<open>bufio.Writer\<close> over a destination \<open>w\<close>: \<open>wr w p\<close> is the destination after being given \<open>p\<close> and whether it took
  it without error. The pair is the destination and the buffered bytes.\<close>

definition bflush :: "('w \<Rightarrow> byte list \<Rightarrow> 'w \<times> bool) \<Rightarrow> 'w \<times> byte list \<Rightarrow> ('w \<times> byte list) \<times> bool" where
  "bflush wr b = (if snd b = [] then (b, True)
     else (case wr (fst b) (snd b) of (w, ok) \<Rightarrow> ((w, []), ok)))"

function bwrite :: "('w \<Rightarrow> byte list \<Rightarrow> 'w \<times> bool) \<Rightarrow> 'w \<times> byte list \<Rightarrow> byte list \<Rightarrow> ('w \<times> byte list) \<times> bool" where
  "bwrite wr b p =
     (if length p > yencWriteBuf - length (snd b) then
        (if snd b = [] then (case wr (fst b) p of (w, ok) \<Rightarrow> ((w, []), ok))
         else
           (let n = yencWriteBuf - length (snd b)
            in case bflush wr (fst b, snd b @ take n p) of
                 (b', ok) \<Rightarrow> if ok \<and> snd b' = [] then bwrite wr b' (drop n p) else (b', False)))
      else ((fst b, snd b @ p), True))"
  by pat_completeness auto
termination
  by (relation "measure (\<lambda>(wr, b, p). length p * 2 + (if snd b = [] then 0 else 1))") auto

declare bwrite.simps [simp del]

section \<open>Decoding\<close>

fun decodeLine :: "byte list \<Rightarrow> byte list option" where
  "decodeLine [] = Some []"
| "decodeLine (b # r) =
     (if b = 61 then
        (case r of [] \<Rightarrow> None | e # r' \<Rightarrow> map_option ((#) (e - 64 - 42)) (decodeLine r'))
      else map_option ((#) (b - 42)) (decodeLine r))"

record 'w ydec =
  yhdr :: yencHeader
  inBody :: bool
  ydst :: "('w \<times> byte list) option"
  ywritten :: int
  ysum :: "32 word"

text \<open>\<open>bind\<close>: opens the destination once.\<close>

definition ybind :: "(yencHeader \<Rightarrow> 'w option) \<Rightarrow> 'w ydec \<Rightarrow> (yenc_err, 'w ydec) outcome" where
  "ybind open st =
     (case ydst st of
        Some _ \<Rightarrow> Ok st
      | None \<Rightarrow> (case open (yhdr st) of None \<Rightarrow> Err OpenErr | Some w \<Rightarrow> Ok (st\<lparr>ydst := Some (w, [])\<rparr>)))"

definition dataLine :: "('w \<Rightarrow> byte list \<Rightarrow> 'w \<times> bool) \<Rightarrow> byte list \<Rightarrow> 'w ydec \<Rightarrow> 'w ydec \<times> yenc_err option" where
  "dataLine wr raw st =
     (case decodeLine raw of
        None \<Rightarrow> (st, Some EscapeAtEnd)
      | Some out \<Rightarrow>
          (case bwrite wr (the (ydst st)) out of
             (b, ok) \<Rightarrow>
               if ok then (st\<lparr>ydst := Some b, ywritten := ywritten st + int (length out),
                              ysum := crcUpdate (ysum st) out\<rparr>, None)
               else (st\<lparr>ydst := Some b\<rparr>, Some WriteErr)))"

definition endLine :: "('w \<Rightarrow> byte list \<Rightarrow> 'w \<times> bool) \<Rightarrow> byte list \<Rightarrow> 'w ydec \<Rightarrow> 'w ydec \<times> yenc_err option" where
  "endLine wr raw st =
     (case bflush wr (the (ydst st)) of
        (b, ok) \<Rightarrow>
          (let st = st\<lparr>ydst := Some b\<rparr>
           in (st, if ok then verifyYencTrailer raw (ywritten st) (ysum st) (HasPart (yhdr st)) else Some WriteErr)))"

fun yloop :: "('w \<Rightarrow> byte list \<Rightarrow> 'w \<times> bool) \<Rightarrow> (yencHeader \<Rightarrow> 'w option) \<Rightarrow> byte list option list \<Rightarrow> 'w ydec \<Rightarrow>
    'w ydec \<times> yenc_err option" where
  "yloop wr open [] st =
     (let st = st\<lparr>ydst := map_option (\<lambda>b. fst (bflush wr b)) (ydst st)\<rparr>
      in (st, Some (if inBody st then NoYend else NoYbegin)))"
| "yloop wr open (None # ls) st = (st, Some LineTooLong)"
| "yloop wr open (Some raw # ls) st =
     (if hasPrefix raw ybeginTag then
        yloop wr open ls (st\<lparr>inBody := True, yhdr := parseYbegin raw (yhdr st)\<rparr>)
      else if hasPrefix raw ypartTag then
        yloop wr open ls (st\<lparr>yhdr := parseYpart raw ((yhdr st)\<lparr>HasPart := True\<rparr>)\<rparr>)
      else if hasPrefix raw yendTag then
        (if \<not> inBody st then (st, Some YendWithoutYbegin)
         else (case ybind open st of Ok st \<Rightarrow> endLine wr raw st | _ \<Rightarrow> (st, Some OpenErr)))
      else if \<not> inBody st then yloop wr open ls st
      else
        (case ybind open st of
           Ok st \<Rightarrow>
             (case dataLine wr raw st of
                (st, None) \<Rightarrow> yloop wr open ls st
              | (st, Some e) \<Rightarrow> (st, Some e))
         | _ \<Rightarrow> (st, Some OpenErr)))"

definition ystart :: "'w ydec" where
  "ystart = \<lparr>yhdr = noHeader, inBody = False, ydst = None, ywritten = 0, ysum = 0\<rparr>"

definition decodeYenc :: "('w \<Rightarrow> byte list \<Rightarrow> 'w \<times> bool) \<Rightarrow> (yencHeader \<Rightarrow> 'w option) \<Rightarrow> byte list \<Rightarrow>
    'w ydec \<times> yenc_err option" where
  "decodeYenc wr open r = yloop wr open (scanLines r) ystart"

definition DecodeYenc :: "('w \<Rightarrow> byte list \<Rightarrow> 'w \<times> bool) \<Rightarrow> byte list \<Rightarrow> 'w \<Rightarrow> 'w ydec \<times> yenc_err option" where
  "DecodeYenc wr r w = decodeYenc wr (\<lambda>_. Some w) r"

section \<open>Articles\<close>

text \<open>What the bytes of an article are, as a reference for the decoder: the lines up to the first begin line, that line, the lines
  up to the first end line, that line. Of the lines in between those without a tag are data; each is decoded by itself. The end line has
  to agree with the bytes. A part line anywhere before the end line makes it an article of several parts.\<close>

definition isData :: "byte list \<Rightarrow> bool" where
  "isData l \<longleftrightarrow> \<not> hasPrefix l ybeginTag \<and> \<not> hasPrefix l ypartTag \<and> \<not> hasPrefix l yendTag"

definition articleOf :: "byte list option list \<Rightarrow> byte list \<Rightarrow> bool" where
  "articleOf ls d \<longleftrightarrow> (\<exists>pre bl mid el post ds.
     ls = map Some (pre @ bl # mid @ [el]) @ post \<and>
     (\<forall>l \<in> set pre. \<not> hasPrefix l ybeginTag \<and> \<not> hasPrefix l yendTag) \<and> hasPrefix bl ybeginTag \<and>
     (\<forall>l \<in> set mid. \<not> hasPrefix l yendTag) \<and> hasPrefix el yendTag \<and>
     map decodeLine (filter isData mid) = map Some ds \<and> d = concat ds \<and>
     verifyYencTrailer el (int (length d)) (crcUpdate 0 d) (\<exists>l \<in> set (pre @ mid). hasPrefix l ypartTag) = None)"

lemma tags_apart:
  "hasPrefix l yendTag \<Longrightarrow> \<not> hasPrefix l ybeginTag \<and> \<not> hasPrefix l ypartTag" "hasPrefix l ypartTag \<Longrightarrow> \<not> hasPrefix l ybeginTag"
  by (cases l; cases "tl l"; cases "tl (tl l)"; simp add: hasPrefix_def yendTag_def ybeginTag_def ypartTag_def)+

lemma parse_hasPart: "HasPart (parseYbegin l h) = HasPart h" "HasPart (parseYpart l h) = HasPart h"
proof -
  have "HasPart (ybeginFields fs h) = HasPart h" for fs h
    by (induction fs h rule: ybeginFields.induct) (auto simp: Let_def split: option.splits)
  then show "HasPart (parseYbegin l h) = HasPart h" by (simp add: parseYbegin_def)
  have "HasPart (ypartFields fs h) = HasPart h" for fs h
    by (induction fs h rule: ypartFields.induct) (auto simp: Let_def split: option.splits)
  then show "HasPart (parseYpart l h) = HasPart h" by (simp add: parseYpart_def)
qed

section \<open>Writers\<close>

text \<open>The contract of a destination: what it accepts is appended to its content.\<close>

locale writer =
  fixes wr :: "'w \<Rightarrow> byte list \<Rightarrow> 'w \<times> bool"
    and content :: "'w \<Rightarrow> byte list"
  assumes accepted: "wr w p = (w', True) \<Longrightarrow> content w' = content w @ p"
begin

definition pending :: "'w \<times> byte list \<Rightarrow> byte list" where
  "pending b = content (fst b) @ snd b"

lemma flush_pending: "bflush wr b = (b', True) \<Longrightarrow> pending b' = pending b \<and> snd b' = []"
  by (auto simp: bflush_def pending_def accepted split: if_splits prod.splits)

lemma write_pending: "bwrite wr b p = (b', True) \<Longrightarrow> pending b' = pending b @ p"
proof (induction "length p * 2 + (if snd b = [] then 0 else 1)" arbitrary: b p rule: less_induct)
  case less
  let ?n = "yencWriteBuf - length (snd b)"
  show ?case
  proof (cases "length p > ?n \<and> snd b \<noteq> []")
    case True
    obtain b1 ok where f: "bflush wr (fst b, snd b @ take ?n p) = (b1, ok)" by fastforce
    from True f less.prems have ok: "ok" "snd b1 = []" and r: "bwrite wr b1 (drop ?n p) = (b', True)"
      by (subst (asm) bwrite.simps, simp add: Let_def split: if_splits)+
    have "pending b' = pending b1 @ drop ?n p"
      using True ok(2) by (intro less.hyps r) auto
    moreover have "pending b1 = pending b @ take ?n p"
      using f ok(1) flush_pending [of "(fst b, snd b @ take ?n p)" b1] by (simp add: pending_def [of b] pending_def [of "(_, _)"])
    ultimately show ?thesis by simp
  next
    case False
    with less.prems show ?thesis
      by (subst (asm) bwrite.simps) (auto simp: pending_def accepted split: if_splits prod.splits)
  qed
qed

text \<open>The bytes \<open>D\<close> were delivered so far: the destination and the buffer hold them after the destination's initial content,
  and length and CRC are theirs.\<close>

definition delivers :: "(yencHeader \<Rightarrow> 'w option) \<Rightarrow> 'w ydec \<Rightarrow> byte list \<Rightarrow> bool" where
  "delivers open st D \<longleftrightarrow> ywritten st = int (length D) \<and> ysum st = crcUpdate 0 D \<and>
     (case ydst st of
        None \<Rightarrow> D = []
      | Some b \<Rightarrow> \<exists>h w0. open h = Some w0 \<and> pending b = content w0 @ D)"

lemma delivers_hdr [simp]:
  "delivers open (st\<lparr>inBody := i\<rparr>) D = delivers open st D" "delivers open (st\<lparr>yhdr := h\<rparr>) D = delivers open st D"
  by (auto simp: delivers_def split: option.splits)

lemma delivers_bind: "ybind open st = Ok s \<Longrightarrow> delivers open st D \<Longrightarrow> delivers open s D \<and> ydst s \<noteq> None \<and> yhdr s = yhdr st \<and> inBody s = inBody st"
proof (cases "ydst st")
  case None
  assume "ybind open st = Ok s" "delivers open st D"
  with None obtain w where "open (yhdr st) = Some w" "s = st\<lparr>ydst := Some (w, [])\<rparr>" "D = []" "ywritten st = 0" "ysum st = 0"
    by (auto simp: ybind_def delivers_def split: option.splits)
  then show ?thesis by (auto simp: delivers_def pending_def)
qed (auto simp: ybind_def)

lemma delivers_data:
  assumes "dataLine wr raw st = (s, None)" "delivers open st D" "ydst st \<noteq> None"
  obtains out where "decodeLine raw = Some out" "delivers open s (D @ out)" "yhdr s = yhdr st" "inBody s = inBody st"
proof -
  obtain b where b: "ydst st = Some b" using assms(3) by auto
  then obtain h w0 where d: "open h = Some w0" "pending b = content w0 @ D" "ywritten st = int (length D)" "ysum st = crcUpdate 0 D"
    using assms(2) by (auto simp: delivers_def)
  obtain out b' where o: "decodeLine raw = Some out" "bwrite wr b out = (b', True)"
      "s = st\<lparr>ydst := Some b', ywritten := ywritten st + int (length out), ysum := crcUpdate (ysum st) out\<rparr>"
    using assms(1) b by (auto simp: dataLine_def split: option.splits prod.splits if_splits)
  have "delivers open s (D @ out)" using d write_pending [OF o(2)] o(3) by (auto simp: delivers_def crcUpdate_append)
  then show ?thesis using that o by simp
qed

text \<open>The end line: everything has reached the destination, and the check passed on it.\<close>

lemma delivers_end:
  assumes "endLine wr raw s = (st', None)" "delivers open s D" "ydst s \<noteq> None"
  shows "\<exists>h w0 w. open h = Some w0 \<and> ydst st' = Some (w, []) \<and> content w = content w0 @ D \<and> ywritten st' = int (length D) \<and>
    verifyYencTrailer raw (int (length D)) (crcUpdate 0 D) (HasPart (yhdr s)) = None"
proof -
  obtain b h w0 where b: "ydst s = Some b" "open h = Some w0" "pending b = content w0 @ D" "ywritten s = int (length D)" "ysum s = crcUpdate 0 D"
    using assms(2,3) by (auto simp: delivers_def)
  obtain b' where b': "bflush wr b = (b', True)" "st' = s\<lparr>ydst := Some b'\<rparr>" "verifyYencTrailer raw (ywritten s) (ysum s) (HasPart (yhdr s)) = None"
    using assms(1) b(1) by (auto simp: endLine_def Let_def split: prod.splits if_splits)
  from flush_pending [OF b'(1)] b b' show ?thesis
    by (intro exI [of _ h] exI [of _ w0] exI [of _ "fst b'"]) (auto simp: pending_def prod_eq_iff)
qed

lemma yloop_body:
  "yloop wr open ls st = (st', None) \<Longrightarrow> delivers open st D \<Longrightarrow> inBody st \<Longrightarrow>
   \<exists>mid el post ds h w0 w. ls = map Some (mid @ [el]) @ post \<and> (\<forall>l \<in> set mid. \<not> hasPrefix l yendTag) \<and> hasPrefix el yendTag \<and>
     map decodeLine (filter isData mid) = map Some ds \<and> open h = Some w0 \<and> ydst st' = Some (w, []) \<and> content w = content w0 @ D @ concat ds \<and>
     ywritten st' = int (length (D @ concat ds)) \<and>
     verifyYencTrailer el (int (length (D @ concat ds))) (crcUpdate 0 (D @ concat ds)) (HasPart (yhdr st) \<or> (\<exists>l \<in> set mid. hasPrefix l ypartTag)) = None"
proof (induction ls arbitrary: st D)
  case (Cons l ls)
  then obtain raw where l: "l = Some raw" by (cases l) auto
  consider (yend) "hasPrefix raw yendTag" | (other) "\<not> hasPrefix raw yendTag" "\<not> isData raw" | (data) "isData raw" by (auto simp: isData_def)
  then show ?case
  proof cases
    case yend
    then obtain s where s: "ybind open st = Ok s" "endLine wr raw s = (st', None)"
      using Cons.prems l tags_apart(1) [OF yend] by (auto split: outcome.splits)
    note b = delivers_bind [OF s(1) Cons.prems(2)]
    have "yhdr s = yhdr st" using b by blast
    with delivers_end [OF s(2), of "open" D] b obtain h w0 w where "open h = Some w0" "ydst st' = Some (w, [])" "content w = content w0 @ D"
      "ywritten st' = int (length D)" "verifyYencTrailer raw (int (length D)) (crcUpdate 0 D) (HasPart (yhdr st)) = None" by auto
    then show ?thesis using yend unfolding l
      by (intro exI [of _ "[]"] exI [of _ raw] exI [of _ ls] exI [of _ "[]"] exI [of _ h] exI [of _ w0] exI [of _ w]) simp
  next
    case other
    define s where "s = (if hasPrefix raw ybeginTag then st\<lparr>inBody := True, yhdr := parseYbegin raw (yhdr st)\<rparr>
      else st\<lparr>yhdr := parseYpart raw ((yhdr st)\<lparr>HasPart := True\<rparr>)\<rparr>)"
    have s: "yloop wr open ls s = (st', None)" "delivers open s D" "inBody s"
      using Cons.prems l other by (auto simp: s_def isData_def)
    have hp: "HasPart (yhdr s) \<longleftrightarrow> HasPart (yhdr st) \<or> hasPrefix raw ypartTag"
      using other tags_apart(2) [of raw] by (auto simp: s_def parse_hasPart isData_def)
    from Cons.IH [OF s] obtain mid el post ds h w0 w where r: "ls = map Some (mid @ [el]) @ post" "\<forall>l \<in> set mid. \<not> hasPrefix l yendTag" "hasPrefix el yendTag"
      "map decodeLine (filter isData mid) = map Some ds" "open h = Some w0" "ydst st' = Some (w, [])" "content w = content w0 @ D @ concat ds"
      "ywritten st' = int (length (D @ concat ds))"
      "verifyYencTrailer el (int (length (D @ concat ds))) (crcUpdate 0 (D @ concat ds)) (HasPart (yhdr s) \<or> (\<exists>l \<in> set mid. hasPrefix l ypartTag)) = None" by blast
    have e: "(HasPart (yhdr s) \<or> (\<exists>l \<in> set mid. hasPrefix l ypartTag)) = (HasPart (yhdr st) \<or> (\<exists>l \<in> set (raw # mid). hasPrefix l ypartTag))" using hp by auto
    show ?thesis using r(1-8) r(9) [unfolded e] other unfolding l
      by (intro exI [of _ "raw # mid"] exI [of _ el] exI [of _ post] exI [of _ ds] exI [of _ h] exI [of _ w0] exI [of _ w]) simp
  next
    case data
    then obtain s1 s where s: "ybind open st = Ok s1" "dataLine wr raw s1 = (s, None)" "yloop wr open ls s = (st', None)"
      using Cons.prems l by (auto simp: isData_def split: outcome.splits prod.splits option.splits)
    note b = delivers_bind [OF s(1) Cons.prems(2)]
    obtain out where o: "decodeLine raw = Some out" "delivers open s (D @ out)" "yhdr s = yhdr st" "inBody s"
      using delivers_data [OF s(2)] b Cons.prems(3) by metis
    from Cons.IH [OF s(3) o(2,4)] obtain mid el post ds h w0 w where r: "ls = map Some (mid @ [el]) @ post" "\<forall>l \<in> set mid. \<not> hasPrefix l yendTag" "hasPrefix el yendTag"
      "map decodeLine (filter isData mid) = map Some ds" "open h = Some w0" "ydst st' = Some (w, [])" "content w = content w0 @ (D @ out) @ concat ds"
      "ywritten st' = int (length ((D @ out) @ concat ds))"
      "verifyYencTrailer el (int (length ((D @ out) @ concat ds))) (crcUpdate 0 ((D @ out) @ concat ds)) (HasPart (yhdr s) \<or> (\<exists>l \<in> set mid. hasPrefix l ypartTag)) = None" by blast
    show ?thesis using r o data unfolding l
      by - (rule exI [of _ "raw # mid"], rule exI [of _ el], rule exI [of _ post], rule exI [of _ "out # ds"], rule exI [of _ h], rule exI [of _ w0], rule exI [of _ w], auto simp: isData_def [of raw])
  qed
qed (simp add: Let_def)

lemma yloop_sound:
  "yloop wr open ls st = (st', None) \<Longrightarrow> delivers open st [] \<Longrightarrow> \<not> inBody st \<Longrightarrow>
   \<exists>pre bl mid el post ds h w0 w. ls = map Some (pre @ bl # mid @ [el]) @ post \<and>
     (\<forall>l \<in> set pre. \<not> hasPrefix l ybeginTag \<and> \<not> hasPrefix l yendTag) \<and> hasPrefix bl ybeginTag \<and>
     (\<forall>l \<in> set mid. \<not> hasPrefix l yendTag) \<and> hasPrefix el yendTag \<and> map decodeLine (filter isData mid) = map Some ds \<and>
     open h = Some w0 \<and> ydst st' = Some (w, []) \<and> content w = content w0 @ concat ds \<and> ywritten st' = int (length (concat ds)) \<and>
     verifyYencTrailer el (int (length (concat ds))) (crcUpdate 0 (concat ds)) (HasPart (yhdr st) \<or> (\<exists>l \<in> set (pre @ mid). hasPrefix l ypartTag)) = None"
proof (induction ls arbitrary: st)
  case (Cons l ls)
  then obtain raw where l: "l = Some raw" by (cases l) auto
  show ?case
  proof (cases "hasPrefix raw ybeginTag")
    case True
    let ?s = "st\<lparr>inBody := True, yhdr := parseYbegin raw (yhdr st)\<rparr>"
    have s: "yloop wr open ls ?s = (st', None)" "delivers open ?s []" "inBody ?s" using Cons.prems l True by simp_all
    from yloop_body [OF s] obtain mid el post ds h w0 w where "ls = map Some (mid @ [el]) @ post" "\<forall>l \<in> set mid. \<not> hasPrefix l yendTag" "hasPrefix el yendTag"
      "map decodeLine (filter isData mid) = map Some ds" "open h = Some w0" "ydst st' = Some (w, [])" "content w = content w0 @ concat ds"
      "ywritten st' = int (length (concat ds))"
      "verifyYencTrailer el (int (length (concat ds))) (crcUpdate 0 (concat ds)) (HasPart (yhdr st) \<or> (\<exists>l \<in> set mid. hasPrefix l ypartTag)) = None"
      by (auto simp: parse_hasPart)
    then show ?thesis using True unfolding l
      by (intro exI [of _ "[]"] exI [of _ raw] exI [of _ mid] exI [of _ el] exI [of _ post] exI [of _ ds] exI [of _ h] exI [of _ w0] exI [of _ w]) simp
  next
    case False
    define s where "s = (if hasPrefix raw ypartTag then st\<lparr>yhdr := parseYpart raw ((yhdr st)\<lparr>HasPart := True\<rparr>)\<rparr> else st)"
    have ny: "\<not> hasPrefix raw yendTag" using Cons.prems l tags_apart(1) [of raw] by auto
    have s: "yloop wr open ls s = (st', None)" "delivers open s []" "\<not> inBody s" using Cons.prems l False ny by (auto simp: s_def)
    have hp: "HasPart (yhdr s) \<longleftrightarrow> HasPart (yhdr st) \<or> hasPrefix raw ypartTag" by (auto simp: s_def parse_hasPart)
    from Cons.IH [OF s] obtain pre bl mid el post ds h w0 w where r: "ls = map Some (pre @ bl # mid @ [el]) @ post"
      "\<forall>l \<in> set pre. \<not> hasPrefix l ybeginTag \<and> \<not> hasPrefix l yendTag" "hasPrefix bl ybeginTag" "\<forall>l \<in> set mid. \<not> hasPrefix l yendTag" "hasPrefix el yendTag"
      "map decodeLine (filter isData mid) = map Some ds" "open h = Some w0" "ydst st' = Some (w, [])" "content w = content w0 @ concat ds"
      "ywritten st' = int (length (concat ds))"
      "verifyYencTrailer el (int (length (concat ds))) (crcUpdate 0 (concat ds)) (HasPart (yhdr s) \<or> (\<exists>l \<in> set (pre @ mid). hasPrefix l ypartTag)) = None" by blast
    have e: "(HasPart (yhdr s) \<or> (\<exists>l \<in> set (pre @ mid). hasPrefix l ypartTag)) = (HasPart (yhdr st) \<or> (\<exists>l \<in> set ((raw # pre) @ mid). hasPrefix l ypartTag))" using hp by auto
    show ?thesis using r(1-10) r(11) [unfolded e] False ny unfolding l
      by (intro exI [of _ "raw # pre"] exI [of _ bl] exI [of _ mid] exI [of _ el] exI [of _ post] exI [of _ ds] exI [of _ h] exI [of _ w0] exI [of _ w]) simp
  qed
qed (simp add: Let_def)

text \<open>A decode that reports success has delivered the bytes of the article and nothing else.\<close>

lemma decode_article:
  assumes "yloop wr open ls ystart = (st', None)"
  shows "\<exists>h w0 w d. open h = Some w0 \<and> ydst st' = Some (w, []) \<and> content w = content w0 @ d \<and> ywritten st' = int (length d) \<and> articleOf ls d"
proof -
  have i: "delivers open ystart []" "\<not> inBody ystart" "HasPart (yhdr (ystart :: 'w ydec)) = False" by (simp_all add: delivers_def ystart_def noHeader_def)
  obtain pre bl mid el post ds h w0 w where r: "ls = map Some (pre @ bl # mid @ [el]) @ post"
    "\<forall>l \<in> set pre. \<not> hasPrefix l ybeginTag \<and> \<not> hasPrefix l yendTag" "hasPrefix bl ybeginTag" "\<forall>l \<in> set mid. \<not> hasPrefix l yendTag" "hasPrefix el yendTag"
    "map decodeLine (filter isData mid) = map Some ds"
    "verifyYencTrailer el (int (length (concat ds))) (crcUpdate 0 (concat ds)) (HasPart (yhdr (ystart :: 'w ydec)) \<or> (\<exists>l \<in> set (pre @ mid). hasPrefix l ypartTag)) = None"
    and w: "open h = Some w0" "ydst st' = Some (w, [])" "content w = content w0 @ concat ds" "ywritten st' = int (length (concat ds))"
    using yloop_sound [OF assms i(1,2)] by (elim exE conjE) (rule that, assumption+)
  have "articleOf ls (concat ds)" unfolding articleOf_def using r(1-6) r(7) [unfolded i(3) simp_thms] by blast
  with w show ?thesis by blast
qed

end

section \<open>Encoding\<close>

definition encByte :: "byte \<Rightarrow> byte list" where
  "encByte b = (let e = b + 42 in if e \<in> {0, 10, 13, 61} then [61, e + 64] else [e])"

definition encodeLine :: "byte list \<Rightarrow> byte list" where
  "encodeLine d = concat (map encByte d)"

definition crlf :: "byte list list \<Rightarrow> byte list" where
  "crlf ls = concat (map (\<lambda>l. l @ [13, 10]) ls)"

lemma decode_encode: "decodeLine (encodeLine d) = Some d"
  by (induction d) (auto simp: encodeLine_def encByte_def Let_def)

lemma encByte_clean: "10 \<notin> set (encByte b)" "encByte b \<noteq> []"
  "hd (encByte b) = 61 \<Longrightarrow> \<exists>e. encByte b = [61, e] \<and> e \<noteq> 121"
proof -
  define e where "e = b + 42"
  have eq: "encByte b = (if e \<in> {0, 10, 13, 61} then [61, e + 64] else [e])"
    unfolding e_def by (simp only: encByte_def Let_def)
  show "10 \<notin> set (encByte b)" "encByte b \<noteq> []"
    "hd (encByte b) = 61 \<Longrightarrow> \<exists>e. encByte b = [61, e] \<and> e \<noteq> 121"
    unfolding eq by (auto split: if_splits)
qed

lemma encodeLine_clean: "10 \<notin> set (encodeLine d)"
  using encByte_clean(1) by (auto simp: encodeLine_def)

lemma encodeLine_no_tag:
  "\<not> hasPrefix (encodeLine d) ybeginTag \<and> \<not> hasPrefix (encodeLine d) ypartTag \<and> \<not> hasPrefix (encodeLine d) yendTag"
proof -
  have "\<not> (\<exists>r. encodeLine d = 61 # 121 # r)"
  proof (cases d)
    case (Cons b bs)
    then have e: "encodeLine d = encByte b @ encodeLine bs" by (simp add: encodeLine_def)
    show ?thesis
    proof
      assume "\<exists>r. encodeLine d = 61 # 121 # r"
      then obtain r where r: "encByte b @ encodeLine bs = 61 # 121 # r" using e by auto
      then have "hd (encByte b) = 61" using encByte_clean(2) [of b] by (cases "encByte b") auto
      from encByte_clean(3) [OF this] r show False by auto
    qed
  qed (simp add: encodeLine_def)
  moreover have "\<exists>r. l = 61 # 121 # r" if "hasPrefix l t" "t = 61 # 121 # t'" for l t t'
    using that by (cases l; cases "tl l") (auto simp: hasPrefix_def)
  ultimately show ?thesis by (metis ybeginTag_def ypartTag_def yendTag_def)
qed

lemma scanLines_crlf:
  "\<forall>l \<in> set ls. 10 \<notin> set l \<and> length l + 1 < yencMaxLine \<Longrightarrow> scanLines (crlf ls) = map Some ls"
proof (induction ls)
  case (Cons l ls)
  have tw: "takeWhile (\<lambda>b. b \<noteq> 10) (l @ [13, 10] @ crlf ls) = l @ [13]"
    using Cons.prems by (induction l) auto
  have "crlf (l # ls) = l @ [13, 10] @ crlf ls" by (simp add: crlf_def)
  moreover have "scanLines (l @ [13, 10] @ crlf ls) = Some l # scanLines (crlf ls)"
    using Cons.prems tw by (subst scanLines.simps) (simp add: Let_def dropCR_def)
  ultimately show ?case using Cons by simp
qed (simp add: crlf_def scanLines.simps)

text \<open>A destination that accepts everything.\<close>

definition app :: "byte list \<Rightarrow> byte list \<Rightarrow> byte list \<times> bool" where
  "app w p = (w @ p, True)"

interpretation appw: writer app "\<lambda>w. w"
  by unfold_locales (simp add: app_def)

lemma bwrite_app: "snd (bwrite app b p)"
  by (induction app b p rule: bwrite.induct)
     (subst bwrite.simps, auto simp: app_def bflush_def Let_def)

lemma yloop_data:
  assumes "inBody st" "ydst st = Some b"
  shows "\<exists>b'. appw.pending b' = appw.pending b @ concat ds \<and>
    yloop app open (map (Some \<circ> encodeLine) ds @ ls) st =
    yloop app open ls (st\<lparr>ydst := Some b', ywritten := ywritten st + int (length (concat ds)),
      ysum := crcUpdate (ysum st) (concat ds)\<rparr>)"
  using assms
proof (induction ds arbitrary: st b)
  case (Cons d ds)
  obtain b1 where b1: "bwrite app b d = (b1, True)" using bwrite_app [of b d] by (metis prod.collapse)
  let ?s = "st\<lparr>ydst := Some b1, ywritten := ywritten st + int (length d), ysum := crcUpdate (ysum st) d\<rparr>"
  have e1: "yloop app open (map (Some \<circ> encodeLine) (d # ds) @ ls) st = yloop app open (map (Some \<circ> encodeLine) ds @ ls) ?s"
    using Cons.prems b1 encodeLine_no_tag [of d] by (simp add: ybind_def dataLine_def decode_encode)
  have "\<exists>b'. appw.pending b' = appw.pending b1 @ concat ds \<and>
    yloop app open (map (Some \<circ> encodeLine) ds @ ls) ?s =
     yloop app open ls (?s\<lparr>ydst := Some b', ywritten := ywritten ?s + int (length (concat ds)),
      ysum := crcUpdate (ysum ?s) (concat ds)\<rparr>)"
    by (rule Cons.IH) (use Cons.prems in simp_all)
  then obtain b' where pb: "appw.pending b' = appw.pending b1 @ concat ds"
    and e2: "yloop app open (map (Some \<circ> encodeLine) ds @ ls) ?s =
     yloop app open ls (?s\<lparr>ydst := Some b', ywritten := ywritten ?s + int (length (concat ds)),
      ysum := crcUpdate (ysum ?s) (concat ds)\<rparr>)" by blast
  have "appw.pending b1 = appw.pending b @ d" by (rule appw.write_pending [OF b1])
  then show ?case
    unfolding e1 e2 using pb by (intro exI [of _ b']) (simp add: crcUpdate_append add.assoc)
next
  case (Nil st b)
  then have "st\<lparr>ydst := Some b, ywritten := ywritten st + int (length (concat [])), ysum := crcUpdate (ysum st) (concat [])\<rparr> = st"
    by (cases st) simp
  then show ?case by (intro exI [of _ b]) simp
qed

lemma yenc_article:
  assumes "hasPrefix bl ybeginTag" "10 \<notin> set bl" "length bl + 1 < yencMaxLine"
    and "hasPrefix el yendTag" "10 \<notin> set el" "length el + 1 < yencMaxLine"
    and "ds \<noteq> []" "\<forall>d \<in> set ds. length (encodeLine d) + 1 < yencMaxLine"
  shows "\<exists>st. DecodeYenc app (crlf (bl # map encodeLine ds @ [el])) [] =
      (st, verifyYencTrailer el (int (length (concat ds))) (crcUpdate 0 (concat ds)) False) \<and>
    ydst st = Some (concat ds, []) \<and> ywritten st = int (length (concat ds))"
proof -
  have tags: "\<not> hasPrefix el ybeginTag" "\<not> hasPrefix el ypartTag"
    using assms(4) by (cases el; cases "tl el"; cases "tl (tl el)";
      simp add: hasPrefix_def yendTag_def ybeginTag_def ypartTag_def)+
  let ?h = "parseYbegin bl noHeader"
  let ?s1 = "\<lparr>yhdr = ?h, inBody = True, ydst = None, ywritten = 0, ysum = 0\<rparr> :: byte list ydec"
  let ?s2 = "?s1\<lparr>ydst := Some ([], [])\<rparr>"
  let ?ls = "map (Some \<circ> encodeLine) ds @ [Some el]"
  have sc: "scanLines (crlf (bl # map encodeLine ds @ [el])) = Some bl # ?ls"
    using assms encodeLine_clean by (subst scanLines_crlf) (auto simp: comp_def)
  obtain d ds' where d: "ds = d # ds'" using assms(7) by (meson neq_Nil_conv)
  have bind: "yloop app (\<lambda>_. Some []) ?ls ?s1 = yloop app (\<lambda>_. Some []) ?ls ?s2"
    using encodeLine_no_tag [of d] by (simp add: d ybind_def)
  obtain b' where b': "appw.pending b' = concat ds"
    "yloop app (\<lambda>_. Some []) ?ls ?s2 = yloop app (\<lambda>_. Some []) [Some el]
      (?s2\<lparr>ydst := Some b', ywritten := int (length (concat ds)), ysum := crcUpdate 0 (concat ds)\<rparr>)"
    using yloop_data [of ?s2 "([], [])" ds "\<lambda>_. Some []" "[Some el]"] by (auto simp: appw.pending_def)
  have hp: "HasPart (ybeginFields fs h) = HasPart h" for fs h
    by (induction fs h rule: ybeginFields.induct) (auto simp: Let_def split: option.splits)
  have fl: "bflush app b' = ((concat ds, []), True)"
    using b'(1) by (cases b') (auto simp: bflush_def app_def appw.pending_def)
  have "DecodeYenc app (crlf (bl # map encodeLine ds @ [el])) [] =
      yloop app (\<lambda>_. Some []) [Some el]
      (?s2\<lparr>ydst := Some b', ywritten := int (length (concat ds)), ysum := crcUpdate 0 (concat ds)\<rparr>)"
    using assms(1) bind b'(2) by (simp add: DecodeYenc_def decodeYenc_def sc ystart_def)
  then show ?thesis
    using assms(4) tags fl
    by (simp add: Let_def ybind_def endLine_def parseYbegin_def hp noHeader_def)
qed

section \<open>Properties\<close>

subsection \<open>End lines\<close>

text \<open>The end line an encoder writes: the size in decimal and the CRC-32 in eight hexadecimal digits.\<close>

fun decB :: "nat \<Rightarrow> byte list" where
  "decB n = (if n < 10 then [of_nat n + 48] else decB (n div 10) @ [of_nat (n mod 10) + 48])"

declare decB.simps [simp del]

definition hexDigit :: "nat \<Rightarrow> byte" where
  "hexDigit n = (if n < 10 then of_nat n + 48 else of_nat n + 87)"

primrec hexB :: "nat \<Rightarrow> nat \<Rightarrow> byte list" where
  "hexB 0 n = []"
| "hexB (Suc k) n = hexB k (n div 16) @ [hexDigit (n mod 16)]"

definition yendLine :: "nat \<Rightarrow> 32 word \<Rightarrow> byte list" where
  "yendLine n c = yendTag @ lit '' size='' @ decB n @ lit '' crc32='' @ hexB 8 (unat c)"

lemma digit_byte: "n < 10 \<Longrightarrow> 48 \<le> (of_nat n + 48 :: byte) \<and> (of_nat n + 48 :: byte) \<le> 57 \<and> unat (of_nat n + 48 :: byte) - 48 = n"
proof -
  assume "n < 10"
  moreover have "\<forall>n \<in> set [0..<10]. 48 \<le> (of_nat n + 48 :: byte) \<and> (of_nat n + 48 :: byte) \<le> 57 \<and> unat (of_nat n + 48 :: byte) - 48 = n" by code_simp
  ultimately show ?thesis by auto
qed

lemma decB_digits: "digits (decB n) = Some n"
proof (induction n rule: decB.induct)
  case (1 n)
  show ?case
  proof (cases "n < 10")
    case True
    then show ?thesis using digit_byte [OF True] by (subst decB.simps) (simp add: digits_def)
  next
    case False
    have d: "n mod 10 < 10" by simp
    have "decB n = decB (n div 10) @ [of_nat (n mod 10) + 48]" using False by (subst decB.simps) simp
    moreover have "n div 10 * 10 + n mod 10 = n" by simp
    ultimately show ?thesis using "1" [OF False] digit_byte [OF d] by (auto simp: digits_def split: if_splits)
  qed
qed

lemma decB_set: "b \<in> set (decB n) \<Longrightarrow> 48 \<le> b \<and> b \<le> 57" and decB_ne: "decB n \<noteq> []"
  using decB_digits [of n] by (auto simp: digits_def split: if_splits)

lemma decB_nospace: "b \<in> set (decB n) \<Longrightarrow> \<not> isSpaceB b \<and> b \<noteq> 10 \<and> b \<noteq> 61"
  using decB_set [of b n] by (auto simp: isSpaceB_def)

lemma parse_decB: "n < 2 ^ 63 \<Longrightarrow> parseInt (decB n) = Some (int n)"
proof -
  assume n: "n < 2 ^ 63"
  obtain b r where br: "decB n = b # r" using decB_ne [of n] by (meson neq_Nil_conv)
  then have "48 \<le> b" using decB_set [of b n] by simp
  then have "b \<noteq> 45" "b \<noteq> 43" by auto
  then show ?thesis using decB_digits [of n] n by (simp add: parseInt_def br)
qed

lemma hexDigit_facts:
  assumes "n < 16"
  shows "hexval (hexDigit n) = Some n" "\<not> isSpaceB (hexDigit n)" "hexDigit n \<noteq> 10" "hexDigit n \<noteq> 61"
proof -
  have "\<forall>n \<in> set [0..<16]. hexval (hexDigit n) = Some n \<and> \<not> isSpaceB (hexDigit n) \<and> hexDigit n \<noteq> 10 \<and> hexDigit n \<noteq> 61" by code_simp
  moreover have "n \<in> set [0..<16]" using assms by simp
  ultimately show "hexval (hexDigit n) = Some n" "\<not> isSpaceB (hexDigit n)" "hexDigit n \<noteq> 10" "hexDigit n \<noteq> 61" by blast+
qed

lemma hexfold_append: "hexfold m (xs @ ys) = (case hexfold m xs of None \<Rightarrow> None | Some k \<Rightarrow> hexfold k ys)"
  by (induction xs arbitrary: m) (auto split: option.splits)

lemma hexB_fold: "n < 16 ^ k \<Longrightarrow> hexfold 0 (hexB k n) = Some n"
proof (induction k arbitrary: n)
  case (Suc k)
  then have "n div 16 < 16 ^ k" by (simp add: less_mult_imp_div_less mult.commute)
  moreover have "n div 16 * 16 + n mod 16 = n" by simp
  ultimately show ?case using Suc.IH hexDigit_facts(1) [of "n mod 16"] by (simp add: hexfold_append)
qed simp

lemma hexB_set: "b \<in> set (hexB k n) \<Longrightarrow> \<not> isSpaceB b \<and> b \<noteq> 10 \<and> b \<noteq> 61"
  by (induction k arbitrary: n) (auto simp: hexDigit_facts)

lemma hexB_length: "length (hexB k n) = k"
  by (induction k arbitrary: n) simp_all

lemma hexB_ne: "hexB 8 n \<noteq> []"
  using hexB_length [of 8 n] by force

lemma parse_hexB: "parseHex32 (hexB 8 (unat (c :: 32 word))) = Some (unat c)"
proof -
  have "unat c < 2 ^ 32" using unsigned_less [of c] by simp
  then show ?thesis using hexB_fold [of "unat c" 8] hexB_ne [of "unat c"] by (simp add: parseHex32_def)
qed

text \<open>Splitting into words, given the words.\<close>

lemma words_word:
  assumes "w \<noteq> []" "\<forall>b \<in> set w. \<not> isSpaceB b" "rest = [] \<or> isSpaceB (hd rest)"
  shows "wordsB (w @ rest) = w # wordsB rest"
proof -
  have "dropWhile isSpaceB (w @ rest) = w @ rest" using assms(1,2) by (cases w) auto
  moreover have "takeWhile (\<lambda>b. \<not> isSpaceB b) (w @ rest) = w" using assms(2,3) by (cases rest) (auto simp: takeWhile_append)
  moreover have "dropWhile (\<lambda>b. \<not> isSpaceB b) (w @ rest) = rest" using assms(2,3) by (cases rest) (auto simp: dropWhile_append)
  ultimately show ?thesis using assms(1) by (subst wordsB.simps) (simp add: Let_def)
qed

lemma words_space: "isSpaceB b \<Longrightarrow> wordsB (b # rest) = wordsB rest"
  by (subst (1 2) wordsB.simps) (simp add: Let_def)

lemma lit_simps [simp]: "lit [] = []" "lit (c # cs) = of_char c # lit cs"
  by (simp_all add: lit_def)

lemma yend_words: "wordsB (yendLine n c) = [yendTag, lit ''size='' @ decB n, lit ''crc32='' @ hexB 8 (unat c)]"
proof -
  have sp: "isSpaceB 32" by (simp add: isSpaceB_def)
  have ns: "\<forall>b \<in> set (lit ''size='' @ decB n). \<not> isSpaceB b" "\<forall>b \<in> set (lit ''crc32='' @ hexB 8 (unat c)). \<not> isSpaceB b" "\<forall>b \<in> set yendTag. \<not> isSpaceB b"
    using decB_nospace hexB_set by (auto simp: isSpaceB_def [of "of_char _"] isSpaceB_def [of "numeral _"] yendTag_def)
  let ?a = "lit ''size='' @ decB n" and ?b = "lit ''crc32='' @ hexB 8 (unat c)"
  have y: "yendLine n c = yendTag @ 32 # ?a @ 32 # ?b @ []" by (simp add: yendLine_def)
  have 1: "wordsB (yendTag @ 32 # ?a @ 32 # ?b @ []) = yendTag # wordsB (32 # ?a @ 32 # ?b @ [])"
    by (rule words_word [OF _ ns(3)]) (simp_all add: yendTag_def sp)
  have 2: "wordsB (?a @ 32 # ?b @ []) = ?a # wordsB (32 # ?b @ [])" by (rule words_word [OF _ ns(1)]) (simp_all add: sp)
  have 3: "wordsB (?b @ []) = ?b # wordsB []" by (rule words_word [OF _ ns(2)]) simp_all
  have 4: "wordsB [] = []" by (simp add: wordsB.simps)
  show ?thesis unfolding y 1 words_space [OF sp] 2 3 4 ..
qed

lemma yend_verify:
  assumes "n < 2 ^ 63"
  shows "verifyYencTrailer (yendLine n c) w crc False = (if int n \<noteq> w then Some (SizeMismatch w (int n)) else if c \<noteq> crc then Some CrcMismatch else None)"
proof -
  have cut: "cutEq (lit ''size='' @ decB n) = Some (lit ''size'', decB n)" "cutEq (lit ''crc32='' @ hexB 8 (unat c)) = Some (lit ''crc32'', hexB 8 (unat c))"
    by (simp_all add: cutEq_def)
  have low: "map lowerB (lit ''size'') = lit ''size''" "map lowerB (lit ''crc32'') = lit ''crc32''" by (simp_all add: lowerB_def)
  have kinds: "lit ''crc32'' \<noteq> lit ''size''" "lit ''crc32'' \<noteq> lit ''pcrc32''" by simp_all
  have "yendFields (tl (wordsB (yendLine n c))) w False [] = (if int n \<noteq> w then Err (SizeMismatch w (int n)) else Ok (hexB 8 (unat c)))"
    unfolding yend_words by (simp only: list.sel yendFields.simps cut option.case prod.case low Let_def kinds if_True if_False parse_decB [OF assms]) simp
  then show ?thesis using hexB_ne [of "unat c"] parse_hexB [of c] by (auto simp: verifyYencTrailer_def)
qed

lemma yendLine_line: "hasPrefix (yendLine n c) yendTag" "10 \<notin> set (yendLine n c)"
  using decB_nospace [of 10 n] hexB_set [of 10 8 "unat c"] by (auto simp: yendLine_def hasPrefix_def yendTag_def)

lemma decB_length: "n < 10 ^ k \<Longrightarrow> 0 < k \<Longrightarrow> length (decB n) \<le> k"
proof (induction k arbitrary: n)
  case (Suc k)
  show ?case
  proof (cases "n < 10")
    case False
    then have "n div 10 < 10 ^ k" "0 < k" using Suc.prems by (auto simp: less_mult_imp_div_less mult.commute intro: Suc_leI gr0I)
    then show ?thesis using Suc.IH False by (subst decB.simps) simp
  qed (subst decB.simps, simp)
qed simp

lemma yendLine_short: "n < 2 ^ 63 \<Longrightarrow> length (yendLine n c) + 1 < yencMaxLine"
proof -
  assume "n < 2 ^ 63"
  then have "n < 10 ^ 19" by (rule less_le_trans) simp
  then have "length (decB n) \<le> 19" by (rule decB_length) simp
  then show ?thesis by (simp add: yendLine_def yendTag_def yencMaxLine_def hexB_length)
qed

text \<open>C9: Round trip: the article made of a begin line, the yEnc encoding of any bytes split into lines of any length up to the line
  limit, and an end line with a size and a CRC-32, all lines ended by CR LF. It decodes to exactly those bytes; it is accepted when the
  end line gives their number and their CRC, and is refused with the matching error when it gives another number or another CRC.\<close>

theorem yenc_roundtrip:
  assumes "hasPrefix bl ybeginTag" "10 \<notin> set bl" "length bl + 1 < yencMaxLine"
    and "ds \<noteq> []" "\<forall>d \<in> set ds. length (encodeLine d) + 1 < yencMaxLine" "n < 2 ^ 63"
  shows "let r = DecodeYenc app (crlf (bl # map encodeLine ds @ [yendLine n c])) [] in
    ydst (fst r) = Some (concat ds, []) \<and> ywritten (fst r) = int (length (concat ds)) \<and>
    snd r = (if n \<noteq> length (concat ds) then Some (SizeMismatch (int (length (concat ds))) (int n))
             else if c \<noteq> crcUpdate 0 (concat ds) then Some CrcMismatch else None)"
  using yenc_article [OF assms(1-3) yendLine_line yendLine_short [OF assms(6)] assms(4,5), of c] yend_verify [OF assms(6)]
  by (auto simp: Let_def)

text \<open>No bad article is treated as data: a decode that reports success has delivered exactly the decoded data lines between the
  first begin line and the first end line, and the size and CRC of that end line agree with them.\<close>

theorem yenc_sound:
  assumes "decodeYenc app open r = (st, None)"
  shows "\<exists>h w0 d. open h = Some w0 \<and> ydst st = Some (w0 @ d, []) \<and> ywritten st = int (length d) \<and> articleOf (scanLines r) d"
  using appw.decode_article [OF assms [unfolded decodeYenc_def]] by auto

definition demo_begin :: "byte list" where "demo_begin = lit ''=ybegin line=128 size=3 name=a.bin''"
definition demo_end :: "byte list" where "demo_end = lit ''=yend size=3''"

lemma demo_lines: "hasPrefix demo_begin ybeginTag" "10 \<notin> set demo_begin" "length demo_begin + 1 < yencMaxLine"
  "hasPrefix demo_end yendTag" "10 \<notin> set demo_end" "length demo_end + 1 < yencMaxLine"
  "\<forall>d \<in> set [[1, 2], [211]]. length (encodeLine d) + 1 < yencMaxLine"
  by code_simp+

lemma demo_trailer: "verifyYencTrailer demo_end 3 c False = None"
proof -
  have "yendFields (tl (wordsB demo_end)) 3 False [] = Ok []" by code_simp
  then show ?thesis by (simp add: verifyYencTrailer_def)
qed

theorem yenc_roundtrip_witness:
  "snd (DecodeYenc app (crlf (demo_begin # map encodeLine [[1, 2], [211]] @ [yendLine 3 (crcUpdate 0 [1, 2, 211])])) []) = None"
  using yenc_roundtrip [OF demo_lines(1-3) _ demo_lines(7), of 3 "crcUpdate 0 [1, 2, 211]"] by (simp add: Let_def)

theorem yenc_sound_witness:
  "articleOf (scanLines (crlf (demo_begin # map encodeLine [[1, 2], [211]] @ [demo_end]))) [1, 2, 211]"
proof -
  obtain st where st: "decodeYenc app (\<lambda>_. Some []) (crlf (demo_begin # map encodeLine [[1, 2], [211]] @ [demo_end])) = (st, None)"
      "ydst st = Some ([1, 2, 211], [])"
    using yenc_article [OF demo_lines(1-6) _ demo_lines(7)] demo_trailer by (auto simp: DecodeYenc_def)
  from yenc_sound [OF st(1)] st(2) show ?thesis by auto
qed

end
