(* ===== verification/Nzb_Assembly.thy ===== *)
theory Nzb_Assembly
  imports Yenc
begin

text \<open>
  \<open>internal/nzb/assembly.go\<close> (and the size cap of \<open>session.go\<close>): the parallel, progressive download of one NZB
  file. The mutex-protected state is one record; each critical section is a function on it; the workers are a
  step relation that interleaves those sections, with the segment each worker holds as part of the state. A
  closed \<open>changed\<close> channel is a bumped generation number. The byte positions of segments are integers: they never
  exceed the size cap, itself an \<open>int64\<close>. The end \<open>off + n\<close> that \<open>WaitRange\<close> computes from its caller's
  arguments wraps.
\<close>

section \<open>State\<close>

definition defaultConnections :: int where "defaultConnections = 4"
definition maxConnections :: int where "maxConnections = 16"

definition workerCount :: "int \<Rightarrow> int \<Rightarrow> int" where
  "workerCount configured segments =
     (let n = (if configured \<le> 0 then defaultConnections else configured);
          n = min n (min maxConnections segments)
      in max n 1)"

datatype segStatus = segPending | segInflight | segDone
datatype layoutMode = layoutUnknown | layoutParallel | layoutSequential

datatype asm_err =
    ErrCanceled | ErrTooBig | ErrSizeDiffers | ErrRange | errNoPartInfo | ErrShort | ErrNotTiled int int
  | ErrConn | ErrStopped | ErrSegment | ErrBeyond

type_synonym extent = "int \<times> int"

record Assembly =
  capBytes :: int
  state :: "segStatus list"
  pending :: int
  remaining :: int
  anext :: nat
  alive :: int
  layout :: layoutMode
  seqOwner :: nat
  seqOff :: int
  total :: int
  sizeKnown :: bool
  partSize :: int
  covered :: "extent list"
  complete :: bool
  aerr :: "asm_err option"
  cancelled :: bool
  gen :: nat

definition nzbDefaultMaxBytes :: int where "nzbDefaultMaxBytes = 53687091200"

definition sizeCap :: "int \<Rightarrow> int" where
  "sizeCap fileSize = (if fileSize \<le> 0 then nzbDefaultMaxBytes else fileSize)"

definition StartAssembly :: "int \<Rightarrow> nat \<Rightarrow> int \<Rightarrow> Assembly" where
  "StartAssembly fileSize n connections =
     (let a = \<lparr>capBytes = sizeCap fileSize, state = replicate n segPending, pending = int n, remaining = int n,
               anext = 0, alive = 0, layout = layoutUnknown, seqOwner = 0, seqOff = 0, total = 0,
               sizeKnown = False, partSize = 0, covered = [], complete = False, aerr = None,
               cancelled = False, gen = 0\<rparr>
      in if n = 0 then a\<lparr>layout := layoutParallel, sizeKnown := True, complete := True, cancelled := True\<rparr>
         else a\<lparr>alive := workerCount connections (int n)\<rparr>)"

section \<open>Written ranges\<close>

text \<open>\<open>sort.Search\<close>: the binary search of the standard library.\<close>

function sortSearch :: "(nat \<Rightarrow> bool) \<Rightarrow> nat \<Rightarrow> nat \<Rightarrow> nat" where
  "sortSearch f i j =
     (if i < j then
        (let h = (i + j) div 2 in if \<not> f h then sortSearch f (h + 1) j else sortSearch f i h)
      else i)"
  by pat_completeness auto
termination by (relation "measure (\<lambda>(f, i, j). j - i)") auto

declare sortSearch.simps [simp del]

definition runIndexLocked :: "Assembly \<Rightarrow> int \<Rightarrow> nat option" where
  "runIndexLocked a off =
     (let i = sortSearch (\<lambda>i. snd (covered a ! i) > off) 0 (length (covered a))
      in if i < length (covered a) \<and> fst (covered a ! i) \<le> off then Some i else None)"

text \<open>The merge loop from index \<open>j\<close>: the grown extent and the index it stops at.\<close>

function mergeLoop :: "extent list \<Rightarrow> nat \<Rightarrow> extent \<Rightarrow> nat \<times> extent" where
  "mergeLoop s j e =
     (if j < length s \<and> fst (s ! j) \<le> snd e
      then mergeLoop s (j + 1) (min (fst e) (fst (s ! j)), max (snd e) (snd (s ! j)))
      else (j, e))"
  by pat_completeness auto
termination by (relation "measure (\<lambda>(s, j, e). length s - j)") auto

declare mergeLoop.simps [simp del]

definition addCovered :: "extent list \<Rightarrow> extent \<Rightarrow> extent list" where
  "addCovered s e =
     (let i = sortSearch (\<lambda>i. snd (s ! i) \<ge> fst e) 0 (length s); (j, e') = mergeLoop s i e
      in take i s @ [e'] @ drop j s)"

definition addCoveredLocked :: "Assembly \<Rightarrow> extent \<Rightarrow> Assembly" where
  "addCoveredLocked a e = a\<lparr>covered := addCovered (covered a) e\<rparr>"

section \<open>Critical sections\<close>

definition notifyLocked :: "Assembly \<Rightarrow> Assembly" where
  "notifyLocked a = a\<lparr>gen := gen a + 1\<rparr>"

definition failLocked :: "Assembly \<Rightarrow> asm_err \<Rightarrow> Assembly" where
  "failLocked a e =
     (if aerr a \<noteq> None \<or> complete a then a
      else (notifyLocked (a\<lparr>aerr := Some e\<rparr>))\<lparr>cancelled := True\<rparr>)"

definition Cancel :: "Assembly \<Rightarrow> Assembly" where
  "Cancel a = failLocked a ErrCanceled"

definition fixSize :: "Assembly \<Rightarrow> Assembly" where
  "fixSize a = (if layout a = layoutSequential then a\<lparr>total := seqOff a, sizeKnown := True\<rparr> else a)"

definition tiled :: "Assembly \<Rightarrow> bool" where
  "tiled a \<longleftrightarrow> total a = 0 \<and> covered a = [] \<or>
     length (covered a) = 1 \<and> fst (covered a ! 0) = 0 \<and> snd (covered a ! 0) = total a"

definition finalizeLocked :: "Assembly \<Rightarrow> Assembly" where
  "finalizeLocked a =
     (let a = fixSize a; got = sum_list (map (\<lambda>(s, e). e - s) (covered a))
      in if \<not> tiled a then failLocked a (ErrNotTiled got (total a)) else a\<lparr>complete := True\<rparr>)"

definition requeue :: "Assembly \<Rightarrow> nat \<Rightarrow> Assembly" where
  "requeue a seg =
     notifyLocked (a\<lparr>state := (state a)[seg := segPending], pending := pending a + 1, anext := min (anext a) seg\<rparr>)"

text \<open>\<open>hintLocked\<close>: \<open>pos / partSize\<close> truncates toward zero; a negative index panics.\<close>

definition goDiv :: "int \<Rightarrow> int \<Rightarrow> int" where
  "goDiv a b = sgn a * sgn b * (\<bar>a\<bar> div \<bar>b\<bar>)"

definition firstPending :: "segStatus list \<Rightarrow> nat \<Rightarrow> nat option" where
  "firstPending st i = find (\<lambda>j. st ! j = segPending) [i..<length st]"

definition hintLocked :: "Assembly \<Rightarrow> int \<Rightarrow> (asm_err, Assembly) outcome" where
  "hintLocked a pos =
     (if layout a \<noteq> layoutParallel \<or> partSize a \<le> 0 \<or> pending a = 0 then Ok a
      else
        (let ix = min (goDiv pos (partSize a)) (int (length (state a)) - 1)
         in if ix < 0 then Panic
            else case firstPending (state a) (nat ix) of Some j \<Rightarrow> Ok (a\<lparr>anext := j\<rparr>) | None \<Rightarrow> Ok a))"

text \<open>\<open>pickLocked\<close>: the cyclic scan from the cursor.\<close>

definition cyclic :: "nat \<Rightarrow> nat \<Rightarrow> nat list" where
  "cyclic n from = map (\<lambda>i. if from + i \<ge> n then from + i - n else from + i) [0..<n]"

definition pickLocked :: "Assembly \<Rightarrow> nat option \<times> Assembly" where
  "pickLocked a =
     (case find (\<lambda>j. state a ! j = segPending) (cyclic (length (state a)) (anext a)) of
        None \<Rightarrow> (None, a)
      | Some j \<Rightarrow>
          (Some j, a\<lparr>state := (state a)[j := segInflight], pending := pending a - 1,
                     anext := (if j + 1 \<ge> length (state a) then 0 else j + 1)\<rparr>))"

text \<open>One pass of the loop of \<open>nextSegment\<close>: leave, take a segment, or wait for a change.\<close>

datatype pick = Leave | Take nat | Block

definition nextSegment :: "Assembly \<Rightarrow> nat \<Rightarrow> pick \<times> Assembly" where
  "nextSegment a wid =
     (if aerr a \<noteq> None \<or> complete a \<or> cancelled a \<or> (layout a = layoutSequential \<and> wid \<noteq> seqOwner a)
      then (Leave, a)
      else if layout a = layoutUnknown then
        (if state a ! 0 = segPending
         then (Take 0, a\<lparr>state := (state a)[0 := segInflight], pending := pending a - 1\<rparr>)
         else (Block, a))
      else if pending a > 0 then
        (case pickLocked a of (Some j, a') \<Rightarrow> (Take j, a') | (None, a') \<Rightarrow> (Block, a'))
      else (Block, a))"

definition workerExit :: "Assembly \<Rightarrow> bool \<Rightarrow> Assembly" where
  "workerExit a connErr =
     (let a = a\<lparr>alive := alive a - 1\<rparr>
      in if alive a > 0 \<or> complete a \<or> aerr a \<noteq> None then a
         else if connErr then failLocked a ErrConn
         else if cancelled a then failLocked a ErrCanceled
         else failLocked a ErrStopped)"

section \<open>Segments\<close>

definition selfDescribing :: "yencHeader \<Rightarrow> nat \<Rightarrow> bool" where
  "selfDescribing h nsegs =
     (if Size h \<le> 0 then False
      else if nsegs = 1 then \<not> HasPart h \<or> Begin h = 1 \<and> End h = Size h
      else HasPart h \<and> Begin h = 1 \<and> End h \<ge> Begin h \<and> End h < Size h)"

text \<open>\<open>segWriter\<close>: what it has written, the offset it started at, and the bytes it may still write.\<close>

record segWriter =
  sout :: "byte list"
  soff :: int
  sremain :: int

definition segWrite :: "segWriter \<Rightarrow> byte list \<Rightarrow> segWriter \<times> bool" where
  "segWrite s p =
     (if int (length p) > sremain s then (s, False)
      else (s\<lparr>sout := sout s @ p, sremain := sremain s - int (length p)\<rparr>, True))"

interpretation segw: writer segWrite sout
  by unfold_locales (auto simp: segWrite_def split: if_splits)

definition mkWriter :: "int \<Rightarrow> int \<Rightarrow> segWriter" where
  "mkWriter off rem = \<lparr>sout = [], soff = off, sremain = rem\<rparr>"

text \<open>The layout decision of \<open>openSegment\<close> on the first article.\<close>

definition openLayout :: "Assembly \<Rightarrow> nat \<Rightarrow> yencHeader \<Rightarrow> (asm_err, Assembly) outcome" where
  "openLayout a wid h =
     (if layout a = layoutUnknown then
        (if selfDescribing h (length (state a)) then
           (if Size h > capBytes a then Err ErrTooBig
            else Ok (notifyLocked (a\<lparr>layout := layoutParallel, total := Size h, sizeKnown := True,
                   partSize := (if HasPart h then End h - Begin h + 1 else Size h)\<rparr>)))
         else Ok (notifyLocked (a\<lparr>layout := layoutSequential, seqOwner := wid\<rparr>)))
      else Ok a)"

definition openExtent :: "Assembly \<Rightarrow> yencHeader \<Rightarrow> (asm_err, segWriter \<times> extent) outcome" where
  "openExtent a h =
     (if layout a = layoutSequential then Ok (mkWriter (seqOff a) (capBytes a - seqOff a), (seqOff a, 0))
      else if HasPart h then
        (if Size h \<noteq> total a then Err ErrSizeDiffers
         else if Begin h < 1 \<or> End h < Begin h \<or> End h > total a then Err ErrRange
         else Ok (mkWriter (Begin h - 1) (End h - (Begin h - 1)), (Begin h - 1, End h)))
      else if length (state a) = 1 \<and> Size h = total a then Ok (mkWriter 0 (total a), (0, total a))
      else Err errNoPartInfo)"

definition openSegment :: "Assembly \<Rightarrow> nat \<Rightarrow> yencHeader \<Rightarrow> Assembly \<times> (asm_err, segWriter \<times> extent) outcome" where
  "openSegment a wid h =
     (case openLayout a wid h of
        Ok a' \<Rightarrow> (a', openExtent a' h) | Err e \<Rightarrow> (a, Err e) | Panic \<Rightarrow> (a, Panic))"

text \<open>\<open>completeSegment\<close>: first the bookkeeping of the segment, then the end of the assembly.\<close>

definition markDone :: "Assembly \<Rightarrow> nat \<Rightarrow> extent \<Rightarrow> int \<Rightarrow> Assembly" where
  "markDone a seg ext n =
     (let ext = (if layout a = layoutParallel then ext else (fst ext, fst ext + n));
          a = (if layout a = layoutParallel then a else a\<lparr>seqOff := snd ext\<rparr>);
          a = a\<lparr>state := (state a)[seg := segDone], remaining := remaining a - 1\<rparr>
      in if n > 0 then addCoveredLocked a ext else a)"

definition completeSegment :: "Assembly \<Rightarrow> nat \<Rightarrow> extent \<Rightarrow> int \<Rightarrow> Assembly \<times> asm_err option" where
  "completeSegment a seg ext n =
     (if layout a = layoutParallel \<and> n \<noteq> snd ext - fst ext then (a, Some ErrShort)
      else
        (let a = markDone a seg ext n;
             a = (if remaining a = 0 then finalizeLocked a else a)
         in (notifyLocked a, None)))"

section \<open>Readers\<close>

datatype wait = Ready int | Failed asm_err | Wait

definition sizeStep :: "Assembly \<Rightarrow> wait" where
  "sizeStep a = (if sizeKnown a then Ready (total a)
     else case aerr a of Some e \<Rightarrow> Failed e | None \<Rightarrow> Wait)"

definition awaitRun :: "Assembly \<Rightarrow> int \<Rightarrow> (asm_err, wait \<times> Assembly) outcome" where
  "awaitRun a off =
     (case runIndexLocked a off of
        Some i \<Rightarrow> Ok (Ready (snd (covered a ! i)), a)
      | None \<Rightarrow>
          (case aerr a of
             Some e \<Rightarrow> Ok (Failed e, a)
           | None \<Rightarrow>
               if sizeKnown a \<and> off \<ge> total a then Ok (Failed ErrBeyond, a)
               else bnd (hintLocked a off) (\<lambda>a. Ok (Wait, a))))"

text \<open>\<open>WaitRange\<close>: the loop over runs. \<open>as\<close> are the assembly states in which its successive \<open>awaitRun\<close> calls
  returned; \<open>Some None\<close> is the nil result.\<close>

fun waitRuns :: "Assembly list \<Rightarrow> int \<Rightarrow> int \<Rightarrow> asm_err option option" where
  "waitRuns as off e =
     (if off < e then
        (case as of
           [] \<Rightarrow> None
         | a # as' \<Rightarrow>
             (case awaitRun a off of
                Ok (Ready r, _) \<Rightarrow> waitRuns as' r e
              | Ok (Failed er, _) \<Rightarrow> Some (Some er)
              | _ \<Rightarrow> None))
      else Some None)"

definition WaitRange :: "Assembly \<Rightarrow> Assembly list \<Rightarrow> int \<Rightarrow> int \<Rightarrow> asm_err option option" where
  "WaitRange a as off n =
     (if n \<le> 0 then Some None
      else (let e = i64 (off + n)
            in if sizeKnown a \<and> e > total a then Some (Some ErrBeyond) else waitRuns as off e))"

definition WaitAvailable :: "Assembly \<Rightarrow> int \<Rightarrow> int \<Rightarrow> (asm_err, wait \<times> Assembly) outcome" where
  "WaitAvailable a off limit =
     (if limit \<le> 0 then Ok (Ready 0, a)
      else bnd (awaitRun a off) (\<lambda>(w, a). Ok (case w of Ready e \<Rightarrow> Ready (min (e - off) limit) | x \<Rightarrow> x, a)))"


section \<open>The written ranges as a set of bytes\<close>

definition ranges_ok :: "extent list \<Rightarrow> bool" where
  "ranges_ok xs \<longleftrightarrow> sorted_wrt (\<lambda>x y. snd x < fst y) xs \<and> (\<forall>x\<in>set xs. fst x < snd x)"

definition bytes_of :: "extent list \<Rightarrow> int set" where
  "bytes_of xs = (\<Union>x\<in>set xs. {fst x..<snd x})"

lemma bytes_of_simps [simp]:
  "bytes_of [] = {}" "bytes_of (x # xs) = {fst x..<snd x} \<union> bytes_of xs"
  "bytes_of (xs @ ys) = bytes_of xs \<union> bytes_of ys"
  by (auto simp: bytes_of_def)

lemma sortSearch_spec:
  assumes "\<And>k l. i \<le> k \<Longrightarrow> k \<le> l \<Longrightarrow> l < j \<Longrightarrow> f k \<Longrightarrow> f l" and "i \<le> j"
  shows "i \<le> sortSearch f i j \<and> sortSearch f i j \<le> j \<and> (\<forall>k. i \<le> k \<and> k < sortSearch f i j \<longrightarrow> \<not> f k)
    \<and> (\<forall>k. sortSearch f i j \<le> k \<and> k < j \<longrightarrow> f k)"
  using assms
proof (induction f i j rule: sortSearch.induct)
  case (1 f i j)
  let ?h = "(i + j) div 2"
  show ?case
  proof (cases "i < j")
    case False
    with "1.prems"(2) show ?thesis by (subst (1 2 3 4) sortSearch.simps) auto
  next
    case True
    then have h: "i \<le> ?h" "?h < j" by simp_all
    show ?thesis
    proof (cases "f ?h")
      case fh: True
      have IH: "i \<le> sortSearch f i ?h \<and> sortSearch f i ?h \<le> ?h \<and>
          (\<forall>k. i \<le> k \<and> k < sortSearch f i ?h \<longrightarrow> \<not> f k) \<and> (\<forall>k. sortSearch f i ?h \<le> k \<and> k < ?h \<longrightarrow> f k)"
      proof (rule "1.IH"(2) [OF True refl])
        show "f l" if "i \<le> k" "k \<le> l" "l < ?h" "f k" for k l
          by (rule "1.prems"(1) [OF that(1,2) _ that(4)]) (use h that(3) in linarith)
      qed (use fh h in simp_all)
      have eq: "sortSearch f i j = sortSearch f i ?h"
        by (subst sortSearch.simps) (simp add: True fh)
      have "f k" if "sortSearch f i ?h \<le> k" "k < j" for k
        using IH that "1.prems"(1) [of ?h k] h fh by (cases "k < ?h") auto
      with IH h eq show ?thesis by auto
    next
      case fh: False
      have IH: "?h + 1 \<le> sortSearch f (?h + 1) j \<and> sortSearch f (?h + 1) j \<le> j \<and>
          (\<forall>k. ?h + 1 \<le> k \<and> k < sortSearch f (?h + 1) j \<longrightarrow> \<not> f k) \<and>
          (\<forall>k. sortSearch f (?h + 1) j \<le> k \<and> k < j \<longrightarrow> f k)"
      proof (rule "1.IH"(1) [OF True refl fh])
        show "f l" if "?h + 1 \<le> k" "k \<le> l" "l < j" "f k" for k l
          by (rule "1.prems"(1) [OF _ that(2,3,4)]) (use h that(1) in linarith)
      qed (use h in simp)
      have eq: "sortSearch f i j = sortSearch f (?h + 1) j"
        by (subst sortSearch.simps) (simp add: True fh)
      have "\<not> f k" if "i \<le> k" "k < sortSearch f (?h + 1) j" for k
        using IH that "1.prems"(1) [of k ?h] h fh by (cases "k \<le> ?h") auto
      with IH h eq show ?thesis by auto
    qed
  qed
qed

lemma sortSearch0:
  assumes "\<And>k l. k \<le> l \<Longrightarrow> l < n \<Longrightarrow> f k \<Longrightarrow> f l"
  shows "sortSearch f 0 n \<le> n" "k < sortSearch f 0 n \<Longrightarrow> \<not> f k" "sortSearch f 0 n \<le> k \<Longrightarrow> k < n \<Longrightarrow> f k"
  using sortSearch_spec [of 0 n f] assms by blast+

lemma extent_union:
  fixes a b c d :: int
  assumes "c \<le> b" "a \<le> d" "a < b" "c < d"
  shows "{min a c..<max b d} = {a..<b} \<union> {c..<d}"
  using assms by (auto simp: min_le_iff_disj less_max_iff_disj)

text \<open>The merge loop on the remaining list instead of an index.\<close>

fun mergeRest :: "extent list \<Rightarrow> extent \<Rightarrow> extent list" where
  "mergeRest [] e = [e]"
| "mergeRest (x # xs) e =
     (if fst x \<le> snd e then mergeRest xs (min (fst e) (fst x), max (snd e) (snd x)) else e # x # xs)"

lemma mergeLoop_rest:
  assumes "mergeLoop s j e = (j', e')" shows "e' # drop j' s = mergeRest (drop j s) e"
  using assms
proof (induction s j e rule: mergeLoop.induct)
  case (1 s j e)
  show ?case
  proof (cases "j < length s \<and> fst (s ! j) \<le> snd e")
    case True
    with 1 show ?thesis by (subst Cons_nth_drop_Suc [symmetric]) (auto simp: mergeLoop.simps [of s j])
  next
    case False
    with "1.prems" have "j' = j" "e' = e" by (subst (asm) mergeLoop.simps, auto)+
    with False show ?thesis
      by (cases "j < length s") (simp_all add: Cons_nth_drop_Suc [symmetric])
  qed
qed

lemma mergeRest_spec:
  assumes "ranges_ok xs" and "\<forall>x\<in>set xs. fst e \<le> snd x" and "fst e < snd e"
  shows "ranges_ok (mergeRest xs e) \<and> bytes_of (mergeRest xs e) = {fst e..<snd e} \<union> bytes_of xs
    \<and> (\<forall>b. b < fst e \<and> (\<forall>x\<in>set xs. b < fst x) \<longrightarrow> (\<forall>y\<in>set (mergeRest xs e). b < fst y))"
  using assms
proof (induction xs e rule: mergeRest.induct)
  case (1 e)
  then show ?case by (auto simp: ranges_ok_def)
next
  case (2 x xs e)
  let ?e = "(min (fst e) (fst x), max (snd e) (snd x))"
  have x: "fst x < snd x" "fst e \<le> snd x" "ranges_ok xs" "\<And>y. y \<in> set xs \<Longrightarrow> snd x < fst y \<and> fst y < snd y"
    using "2.prems" by (auto simp: ranges_ok_def)
  show ?case
  proof (cases "fst x \<le> snd e")
    case True
    have "fst ?e \<le> snd y" if "y \<in> set xs" for y using x(1) x(4) [OF that] by (simp add: min_le_iff_disj)
    then have A: "\<forall>y\<in>set xs. fst ?e \<le> snd y" by blast
    have B: "fst ?e < snd ?e" using "2.prems"(3) by simp
    note IH = "2.IH" [OF True x(3) A B]
    have "{fst ?e..<snd ?e} = {fst e..<snd e} \<union> {fst x..<snd x}"
      using extent_union [of "fst x" "snd e" "fst e" "snd x"] True x(1,2) "2.prems"(3) by simp
    with IH have "bytes_of (mergeRest xs ?e) = {fst e..<snd e} \<union> ({fst x..<snd x} \<union> bytes_of xs)"
      by (metis Un_assoc)
    then have "bytes_of (mergeRest (x # xs) e) = {fst e..<snd e} \<union> bytes_of (x # xs)"
      using True by simp
    moreover have "\<forall>y\<in>set (mergeRest (x # xs) e). b < fst y"
      if "b < fst e" "\<forall>y\<in>set (x # xs). b < fst y" for b
    proof -
      have "\<forall>y\<in>set (mergeRest xs ?e). b < fst y"
        by (rule IH [THEN conjunct2, THEN conjunct2, THEN spec, THEN mp]) (use that in auto)
      with True show ?thesis by simp
    qed
    moreover have "ranges_ok (mergeRest (x # xs) e)" using IH [THEN conjunct1] True by simp
    ultimately show ?thesis by blast
  next
    case False
    with "2.prems" show ?thesis by (auto simp: ranges_ok_def)
  qed
qed

lemma ranges_ok_nth:
  "ranges_ok s \<Longrightarrow> k < l \<Longrightarrow> l < length s \<Longrightarrow> snd (s ! k) < fst (s ! l)"
  by (simp add: ranges_ok_def sorted_wrt_iff_nth_less)

lemma ranges_ok_nonempty: "ranges_ok s \<Longrightarrow> k < length s \<Longrightarrow> fst (s ! k) < snd (s ! k)"
  by (simp add: ranges_ok_def)

lemma ranges_ok_ends: "ranges_ok s \<Longrightarrow> k \<le> l \<Longrightarrow> l < length s \<Longrightarrow> snd (s ! k) \<le> snd (s ! l)"
  using ranges_ok_nth [of s k l] ranges_ok_nonempty [of s l] by (cases "k = l") auto

lemma ranges_ok_append:
  "ranges_ok (xs @ ys) \<longleftrightarrow> ranges_ok xs \<and> ranges_ok ys \<and> (\<forall>x\<in>set xs. \<forall>y\<in>set ys. snd x < fst y)"
  by (auto simp: ranges_ok_def sorted_wrt_append)

lemma addCovered_ok:
  assumes "ranges_ok s" and "fst e < snd e"
  shows "ranges_ok (addCovered s e) \<and> bytes_of (addCovered s e) = bytes_of s \<union> {fst e..<snd e}"
proof -
  define i where "i = sortSearch (\<lambda>i. snd (s ! i) \<ge> fst e) 0 (length s)"
  have i: "i \<le> length s" "\<And>k. k < i \<Longrightarrow> snd (s ! k) < fst e" "\<And>k. i \<le> k \<Longrightarrow> k < length s \<Longrightarrow> fst e \<le> snd (s ! k)"
    unfolding i_def
    using sortSearch0 [of "length s" "\<lambda>i. snd (s ! i) \<ge> fst e"] ranges_ok_ends [OF assms(1)]
    by (meson not_le order.trans)+
  obtain j e' where m: "mergeLoop s i e = (j, e')" by (cases "mergeLoop s i e")
  have eq: "addCovered s e = take i s @ mergeRest (drop i s) e"
    using mergeLoop_rest [OF m] by (simp add: addCovered_def i_def [symmetric] m)
  have split: "ranges_ok (take i s)" "ranges_ok (drop i s)" "\<And>x y. x \<in> set (take i s) \<Longrightarrow> y \<in> set (drop i s) \<Longrightarrow> snd x < fst y"
    using assms(1) ranges_ok_append [of "take i s" "drop i s"] by auto
  have "\<forall>x\<in>set (drop i s). fst e \<le> snd x"
    unfolding all_set_conv_all_nth using i(1,3) by simp
  note R = mergeRest_spec [OF split(2) this assms(2)]
  have "snd x < fst e" if "x \<in> set (take i s)" for x
    using that i(1,2) by (auto simp: in_set_conv_nth)
  then have "\<forall>x\<in>set (take i s). \<forall>y\<in>set (mergeRest (drop i s) e). snd x < fst y"
    using R split(3) by blast
  then have "ranges_ok (addCovered s e)"
    unfolding eq ranges_ok_append using R split(1) by blast
  moreover have "bytes_of (addCovered s e) = bytes_of (take i s @ drop i s) \<union> {fst e..<snd e}"
    unfolding eq using R by (simp only: bytes_of_simps) blast
  ultimately show ?thesis by simp
qed

lemma runIndexLocked_Some:
  assumes "ranges_ok (covered a)" and "runIndexLocked a off = Some i"
  shows "i < length (covered a) \<and> off < snd (covered a ! i) \<and> {off..<snd (covered a ! i)} \<subseteq> bytes_of (covered a)"
proof -
  let ?f = "\<lambda>i. snd (covered a ! i) > off"
  have S: "?f k" if "sortSearch ?f 0 (length (covered a)) \<le> k" "k < length (covered a)" for k
    by (rule sortSearch0(3) [OF _ that]) (use ranges_ok_ends [OF assms(1)] in \<open>meson order.strict_trans2\<close>)
  have i: "i < length (covered a)" "fst (covered a ! i) \<le> off" "i = sortSearch ?f 0 (length (covered a))"
    using assms(2) by (auto simp: runIndexLocked_def Let_def split: if_splits)
  then have "{off..<snd (covered a ! i)} \<subseteq> bytes_of (covered a)"
    unfolding bytes_of_def by force
  with i S [of i] show ?thesis by blast
qed

lemma runIndexLocked_None:
  assumes "ranges_ok (covered a)" and "runIndexLocked a off = None"
  shows "off \<notin> bytes_of (covered a)"
proof
  let ?f = "\<lambda>i. snd (covered a ! i) > off"
  let ?i = "sortSearch ?f 0 (length (covered a))"
  assume "off \<in> bytes_of (covered a)"
  then obtain k where k: "k < length (covered a)" "fst (covered a ! k) \<le> off" "off < snd (covered a ! k)"
    by (auto simp: bytes_of_def in_set_conv_nth)
  have S: "?i \<le> k"
    using sortSearch0(2) [of "length (covered a)" ?f k] ranges_ok_ends [OF assms(1)] k(3)
    by (meson leI order.strict_trans2)
  have "fst (covered a ! ?i) \<le> off"
    using S k ranges_ok_nth [OF assms(1), of ?i k] ranges_ok_nonempty [OF assms(1), of ?i]
    by (cases "?i = k") auto
  with assms(2) S k show False
    by (simp add: runIndexLocked_def Let_def)
qed

end
