(* ===== verification/Nzb_Workers.thy ===== *)
theory Nzb_Workers
  imports Nzb_Assembly
begin

text \<open>
  The workers of \<open>internal/nzb/assembly.go\<close>: each worker is in a phase of the loop of \<open>worker\<close>, and every critical
  section of an assembly is one step. The invariant relates the counters, the segments the workers hold and the
  written ranges; the properties are what readers of the assembly rely on.
\<close>

section \<open>Workers\<close>

text \<open>The phases of \<open>worker\<close>: dialling, between segments, asleep in \<open>nextSegment\<close> on the \<open>changed\<close> channel of a
  generation, fetching a claimed segment before and after its headers were opened (the extent and the bytes its
  writer accepts), about to call \<open>workerExit\<close>, and gone.\<close>

datatype phase = Dialing | Idle | Sleeping nat | Holding nat | Opened nat extent int | Retiring bool | Gone

fun holds :: "phase \<Rightarrow> nat option" where
  "holds (Holding j) = Some j"
| "holds (Opened j _ _) = Some j"
| "holds _ = None"

record asm_sys =
  asm :: Assembly
  ws :: "phase list"

definition asm_start :: "asm_sys \<Rightarrow> bool" where
  "asm_start s \<longleftrightarrow> (\<exists>fileSize n conns. 0 < n \<and> asm s = StartAssembly fileSize n conns \<and>
     ws s = replicate (nat (alive (asm s))) Dialing)"

inductive asm_step :: "asm_sys \<Rightarrow> asm_sys \<Rightarrow> bool" where
  a_dialled: "w < length p \<Longrightarrow> p ! w = Dialing \<Longrightarrow> asm_step \<lparr>asm = a, ws = p\<rparr> \<lparr>asm = a, ws = p[w := Idle]\<rparr>"
| a_refused: "w < length p \<Longrightarrow> p ! w = Dialing \<Longrightarrow> asm_step \<lparr>asm = a, ws = p\<rparr> \<lparr>asm = a, ws = p[w := Retiring True]\<rparr>"
| a_pick: "w < length p \<Longrightarrow> p ! w = Idle \<Longrightarrow> nextSegment a w = (Take j, a') \<Longrightarrow>
    asm_step \<lparr>asm = a, ws = p\<rparr> \<lparr>asm = a', ws = p[w := Holding j]\<rparr>"
| a_leave: "w < length p \<Longrightarrow> p ! w = Idle \<Longrightarrow> nextSegment a w = (Leave, a') \<Longrightarrow>
    asm_step \<lparr>asm = a, ws = p\<rparr> \<lparr>asm = a', ws = p[w := Retiring False]\<rparr>"
| a_block: "w < length p \<Longrightarrow> p ! w = Idle \<Longrightarrow> nextSegment a w = (Block, a') \<Longrightarrow>
    asm_step \<lparr>asm = a, ws = p\<rparr> \<lparr>asm = a', ws = p[w := Sleeping (gen a)]\<rparr>"
| a_wake: "w < length p \<Longrightarrow> p ! w = Sleeping g \<Longrightarrow> g \<noteq> gen a \<Longrightarrow>
    asm_step \<lparr>asm = a, ws = p\<rparr> \<lparr>asm = a, ws = p[w := Idle]\<rparr>"
| a_wakeDone: "w < length p \<Longrightarrow> p ! w = Sleeping g \<Longrightarrow> cancelled a \<Longrightarrow>
    asm_step \<lparr>asm = a, ws = p\<rparr> \<lparr>asm = a, ws = p[w := Retiring False]\<rparr>"
| a_open: "w < length p \<Longrightarrow> holds (p ! w) = Some j \<Longrightarrow> openSegment a w h = (a', Ok (sw, ext)) \<Longrightarrow>
    asm_step \<lparr>asm = a, ws = p\<rparr> \<lparr>asm = a', ws = p[w := Opened j ext (sremain sw)]\<rparr>"
| a_openErr: "w < length p \<Longrightarrow> holds (p ! w) = Some j \<Longrightarrow> openSegment a w h = (a', Err e) \<Longrightarrow>
    asm_step \<lparr>asm = a, ws = p\<rparr> \<lparr>asm = a', ws = p[w := Holding j]\<rparr>"
| a_finish: "w < length p \<Longrightarrow> p ! w = Opened j ext lim \<Longrightarrow> 0 \<le> n \<Longrightarrow> n \<le> lim \<Longrightarrow>
    completeSegment a j ext n = (a', None) \<Longrightarrow> asm_step \<lparr>asm = a, ws = p\<rparr> \<lparr>asm = a', ws = p[w := Idle]\<rparr>"
| a_requeue: "w < length p \<Longrightarrow> holds (p ! w) = Some j \<Longrightarrow>
    asm_step \<lparr>asm = a, ws = p\<rparr> \<lparr>asm = requeue a j, ws = p[w := Retiring True]\<rparr>"
| a_abandon: "w < length p \<Longrightarrow> holds (p ! w) = Some j \<Longrightarrow> cancelled a \<Longrightarrow>
    asm_step \<lparr>asm = a, ws = p\<rparr> \<lparr>asm = a, ws = p[w := Retiring False]\<rparr>"
| a_failSeg: "w < length p \<Longrightarrow> holds (p ! w) = Some j \<Longrightarrow>
    asm_step \<lparr>asm = a, ws = p\<rparr> \<lparr>asm = failLocked a ErrSegment, ws = p[w := Retiring False]\<rparr>"
| a_exit: "w < length p \<Longrightarrow> p ! w = Retiring c \<Longrightarrow>
    asm_step \<lparr>asm = a, ws = p\<rparr> \<lparr>asm = workerExit a c, ws = p[w := Gone]\<rparr>"
| a_cancel: "asm_step \<lparr>asm = a, ws = p\<rparr> \<lparr>asm = Cancel a, ws = p\<rparr>"
| a_parentDone: "asm_step \<lparr>asm = a, ws = p\<rparr> \<lparr>asm = a\<lparr>cancelled := True\<rparr>, ws = p\<rparr>"
| a_afterFunc: "cancelled a \<Longrightarrow> asm_step \<lparr>asm = a, ws = p\<rparr> \<lparr>asm = failLocked a ErrCanceled, ws = p\<rparr>"
| a_hint: "hintLocked a pos = Ok a' \<Longrightarrow> asm_step \<lparr>asm = a, ws = p\<rparr> \<lparr>asm = a', ws = p\<rparr>"

section \<open>Frame facts of the critical sections\<close>

lemma failLocked_fields [simp]:
  "state (failLocked a e) = state a" "pending (failLocked a e) = pending a" "remaining (failLocked a e) = remaining a"
  "anext (failLocked a e) = anext a" "alive (failLocked a e) = alive a" "layout (failLocked a e) = layout a"
  "seqOwner (failLocked a e) = seqOwner a" "seqOff (failLocked a e) = seqOff a" "total (failLocked a e) = total a"
  "sizeKnown (failLocked a e) = sizeKnown a" "covered (failLocked a e) = covered a"
  "complete (failLocked a e) = complete a" "capBytes (failLocked a e) = capBytes a"
  by (auto simp: failLocked_def notifyLocked_def)

lemma failLocked_err: "aerr (failLocked a e) = (if aerr a \<noteq> None \<or> complete a then aerr a else Some e)"
  "cancelled (failLocked a e) = (cancelled a \<or> aerr a = None \<and> \<not> complete a)"
  by (auto simp: failLocked_def notifyLocked_def)

lemma workerExit_fields [simp]:
  "state (workerExit a c) = state a" "pending (workerExit a c) = pending a" "remaining (workerExit a c) = remaining a"
  "anext (workerExit a c) = anext a" "alive (workerExit a c) = alive a - 1" "layout (workerExit a c) = layout a"
  "seqOwner (workerExit a c) = seqOwner a" "seqOff (workerExit a c) = seqOff a" "total (workerExit a c) = total a"
  "sizeKnown (workerExit a c) = sizeKnown a" "covered (workerExit a c) = covered a"
  "complete (workerExit a c) = complete a" "capBytes (workerExit a c) = capBytes a"
  by (auto simp: workerExit_def Let_def)

lemma workerExit_err:
  "aerr (workerExit a c) = None \<longleftrightarrow> aerr a = None \<and> (alive a > 1 \<or> complete a)"
  "cancelled (workerExit a c) = (cancelled a \<or> aerr a = None \<and> \<not> complete a \<and> alive a \<le> 1)"
  by (auto simp: workerExit_def Let_def failLocked_err)

lemma notifyLocked_fields [simp]:
  "state (notifyLocked a) = state a" "pending (notifyLocked a) = pending a" "remaining (notifyLocked a) = remaining a"
  "anext (notifyLocked a) = anext a" "alive (notifyLocked a) = alive a" "layout (notifyLocked a) = layout a"
  "seqOwner (notifyLocked a) = seqOwner a" "seqOff (notifyLocked a) = seqOff a" "total (notifyLocked a) = total a"
  "sizeKnown (notifyLocked a) = sizeKnown a" "covered (notifyLocked a) = covered a"
  "complete (notifyLocked a) = complete a" "capBytes (notifyLocked a) = capBytes a"
  "aerr (notifyLocked a) = aerr a" "cancelled (notifyLocked a) = cancelled a"
  by (auto simp: notifyLocked_def)

lemma find_props:
  "find P xs = Some j \<Longrightarrow> P j \<and> j \<in> set xs"
  by (auto simp: find_Some_iff)

lemma hintLocked_Ok:
  assumes "hintLocked a pos = Ok a'"
  shows "\<exists>k. a' = a\<lparr>anext := k\<rparr> \<and> (k = anext a \<or> layout a = layoutParallel \<and> k < length (state a))"
  using assms
  by (auto simp: hintLocked_def firstPending_def Let_def dest!: find_props split: if_splits option.splits)
    (rule exI [of _ "anext a"], simp)+

lemma cyclic_eq: "from < n \<Longrightarrow> cyclic n from = [from..<n] @ [0..<from]"
  by (rule nth_equalityI) (auto simp: cyclic_def nth_append)

lemma cyclic_set: "from < n \<Longrightarrow> set (cyclic n from) = {..<n}"
  by (auto simp: cyclic_eq)

lemma pickLocked_Some:
  assumes "pickLocked a = (Some j, a')" and "anext a < length (state a)"
  shows "j < length (state a) \<and> state a ! j = segPending \<and>
    a' = a\<lparr>state := (state a)[j := segInflight], pending := pending a - 1,
           anext := (if j + 1 \<ge> length (state a) then 0 else j + 1)\<rparr>"
proof -
  obtain i where f: "find (\<lambda>j. state a ! j = segPending) (cyclic (length (state a)) (anext a)) = Some i"
    using assms(1) by (cases "find (\<lambda>j. state a ! j = segPending) (cyclic (length (state a)) (anext a))") (auto simp: pickLocked_def)
  have ij: "j < length (state a)" "state a ! j = segPending" "i = j"
    using find_props [OF f] cyclic_set [OF assms(2)] assms(1) f by (simp_all add: pickLocked_def)
  have "a' = snd (pickLocked a)" using assms(1) by simp
  then have "a' = a\<lparr>state := (state a)[j := segInflight], pending := pending a - 1,
           anext := (if j + 1 \<ge> length (state a) then 0 else j + 1)\<rparr>"
    by (simp only: pickLocked_def f ij option.case snd_conv)
  with ij show ?thesis by blast
qed

text \<open>When everything before the first pending segment is done and the cursor has not passed it, it is the one
  picked.\<close>

lemma find_cyclic_first:
  assumes "from \<le> k" "k < n" "P k" "\<And>i. i < k \<Longrightarrow> \<not> P i"
  shows "find P (cyclic n from) = Some k"
proof -
  have "cyclic n from ! (k - from) = k" "k - from < length (cyclic n from)"
    "\<And>j. j < k - from \<Longrightarrow> cyclic n from ! j < k"
    using assms(1,2) by (simp_all add: cyclic_def) linarith
  with assms(3,4) show ?thesis unfolding find_Some_iff by metis
qed

lemma pickLocked_None:
  assumes "fst (pickLocked a) = None" and "anext a < length (state a)" "j < length (state a)"
  shows "state a ! j \<noteq> segPending"
  using assms cyclic_set [OF assms(2)]
  by (auto simp: pickLocked_def find_None_iff split: option.splits)

lemma nextSegment_Leave: "nextSegment a w = (Leave, a') \<Longrightarrow> a' = a"
  by (auto simp: nextSegment_def split: if_splits prod.splits option.splits)

lemma nextSegment_Block: "nextSegment a w = (Block, a') \<Longrightarrow> a' = a"
  by (auto simp: nextSegment_def pickLocked_def split: if_splits prod.splits option.splits)

text \<open>What a claim does: the segment was pending and becomes in flight.\<close>

lemma nextSegment_Take:
  assumes "nextSegment a w = (Take j, a')" and "anext a < length (state a)"
  shows "j < length (state a) \<and> state a ! j = segPending \<and> aerr a = None \<and> \<not> complete a \<and> \<not> cancelled a \<and>
    (layout a = layoutSequential \<longrightarrow> w = seqOwner a) \<and> (layout a = layoutUnknown \<longrightarrow> j = 0) \<and>
    (\<exists>k < length (state a). a' = a\<lparr>state := (state a)[j := segInflight], pending := pending a - 1, anext := k\<rparr> \<and>
       (layout a = layoutUnknown \<longrightarrow> k = anext a))"
proof -
  have g: "aerr a = None" "\<not> complete a" "\<not> cancelled a" "layout a = layoutSequential \<longrightarrow> w = seqOwner a"
    using assms(1) by (auto simp: nextSegment_def split: if_splits)
  show ?thesis
  proof (cases "layout a = layoutUnknown")
    case True
    with assms g have "j = 0" "state a ! 0 = segPending"
      "a' = a\<lparr>state := (state a)[0 := segInflight], pending := pending a - 1\<rparr>"
      by (auto simp: nextSegment_def split: if_splits)
    with g True assms(2) show ?thesis by (auto intro!: exI [of _ "anext a"])
  next
    case False
    with assms g have "pickLocked a = (Some j, a')"
      by (auto simp: nextSegment_def split: if_splits prod.splits option.splits)
    from pickLocked_Some [OF this assms(2)] g False show ?thesis
      by (auto intro!: exI [of _ "if j + 1 \<ge> length (state a) then 0 else j + 1"])
  qed
qed

section \<open>Counters, claims and failure\<close>

abbreviation cnt :: "('a \<Rightarrow> bool) \<Rightarrow> 'a list \<Rightarrow> int" where "cnt P xs \<equiv> int (length (filter P xs))"

lemma cnt_update:
  assumes "j < length xs"
  shows "cnt P (xs[j := v]) = cnt P xs - (if P (xs ! j) then 1 else 0) + (if P v then 1 else 0)"
proof -
  have "cnt P xs = cnt P (take j xs @ xs ! j # drop (Suc j) xs)"
    using assms by (simp add: id_take_nth_drop [symmetric])
  then show ?thesis using assms by (simp add: upd_conv_take_nth_drop)
qed

lemma cnt_pos: "cnt P xs > 0 \<longleftrightarrow> (\<exists>i < length xs. P (xs ! i))"
  by (simp add: filter_empty_conv) (metis in_set_conv_nth)

definition cnt_inv :: "asm_sys \<Rightarrow> bool" where
  "cnt_inv s \<longleftrightarrow> (let a = asm s in
     pending a = cnt (\<lambda>x. x = segPending) (state a) \<and> remaining a = cnt (\<lambda>x. x \<noteq> segDone) (state a) \<and>
     anext a < length (state a) \<and> alive a = cnt (\<lambda>x. x \<noteq> Gone) (ws s) \<and>
     (aerr a \<noteq> None \<longrightarrow> cancelled a) \<and> (aerr a = None \<and> \<not> complete a \<longrightarrow> alive a > 0) \<and>
     (complete a \<longrightarrow> remaining a = 0) \<and> (remaining a = 0 \<longrightarrow> complete a \<or> aerr a \<noteq> None))"

definition claims_ok :: "segStatus list \<Rightarrow> bool \<Rightarrow> nat option list \<Rightarrow> bool" where
  "claims_ok st can hs \<longleftrightarrow>
     (\<forall>w < length hs. \<forall>j. hs ! w = Some j \<longrightarrow> j < length st \<and> st ! j = segInflight) \<and>
     (\<forall>w < length hs. \<forall>w' < length hs. \<forall>j. hs ! w = Some j \<longrightarrow> hs ! w' = Some j \<longrightarrow> w = w') \<and>
     (\<forall>j < length st. st ! j = segInflight \<longrightarrow> can \<or> Some j \<in> set hs)"

definition claim_inv :: "asm_sys \<Rightarrow> bool" where
  "claim_inv s \<longleftrightarrow> claims_ok (state (asm s)) (cancelled (asm s)) (map holds (ws s))"

lemma openSegment_fields:
  assumes "openSegment a w h = (a', r)"
  shows "state a' = state a" "pending a' = pending a" "remaining a' = remaining a" "anext a' = anext a"
    "alive a' = alive a" "aerr a' = aerr a" "complete a' = complete a" "cancelled a' = cancelled a"
    "covered a' = covered a" "seqOff a' = seqOff a" "capBytes a' = capBytes a"
  using assms by (auto simp: openSegment_def openLayout_def split: if_splits)

lemma fixSize_fields [simp]:
  "state (fixSize a) = state a" "pending (fixSize a) = pending a"
  "remaining (fixSize a) = remaining a" "anext (fixSize a) = anext a"
  "alive (fixSize a) = alive a" "layout (fixSize a) = layout a" "seqOwner (fixSize a) = seqOwner a"
  "seqOff (fixSize a) = seqOff a" "covered (fixSize a) = covered a" "capBytes (fixSize a) = capBytes a"
  "complete (fixSize a) = complete a" "aerr (fixSize a) = aerr a" "cancelled (fixSize a) = cancelled a"
  by (auto simp: fixSize_def)

lemma finalizeLocked_fields [simp]:
  "state (finalizeLocked a) = state a" "pending (finalizeLocked a) = pending a"
  "remaining (finalizeLocked a) = remaining a" "anext (finalizeLocked a) = anext a"
  "alive (finalizeLocked a) = alive a" "layout (finalizeLocked a) = layout a" "seqOwner (finalizeLocked a) = seqOwner a"
  "seqOff (finalizeLocked a) = seqOff a" "covered (finalizeLocked a) = covered a" "capBytes (finalizeLocked a) = capBytes a"
  by (auto simp: finalizeLocked_def Let_def)

lemma finalizeLocked_outcome:
  "complete (finalizeLocked a) \<or> aerr (finalizeLocked a) \<noteq> None"
  "\<not> complete a \<Longrightarrow> complete (finalizeLocked a) \<Longrightarrow> aerr (finalizeLocked a) = aerr a"
  "aerr (finalizeLocked a) \<noteq> aerr a \<Longrightarrow> cancelled (finalizeLocked a)"
  "cancelled a \<Longrightarrow> cancelled (finalizeLocked a)"
  by (auto simp: finalizeLocked_def Let_def failLocked_err split: if_splits)

lemma markDone_fields [simp]:
  "state (markDone a j ext n) = (state a)[j := segDone]" "pending (markDone a j ext n) = pending a"
  "remaining (markDone a j ext n) = remaining a - 1" "anext (markDone a j ext n) = anext a"
  "alive (markDone a j ext n) = alive a" "layout (markDone a j ext n) = layout a" "seqOwner (markDone a j ext n) = seqOwner a"
  "capBytes (markDone a j ext n) = capBytes a" "complete (markDone a j ext n) = complete a"
  "aerr (markDone a j ext n) = aerr a" "cancelled (markDone a j ext n) = cancelled a"
  "total (markDone a j ext n) = total a" "sizeKnown (markDone a j ext n) = sizeKnown a"
  by (auto simp: markDone_def addCoveredLocked_def Let_def)

lemma completeSegment_eq:
  assumes "completeSegment a j ext n = (a', None)"
  shows "a' = notifyLocked (if remaining a = 1 then finalizeLocked (markDone a j ext n) else markDone a j ext n)"
    "layout a = layoutParallel \<Longrightarrow> n = snd ext - fst ext"
  using assms by (auto simp: completeSegment_def Let_def split: if_splits)

lemma completeSegment_fields:
  assumes "completeSegment a j ext n = (a', None)"
  shows "state a' = (state a)[j := segDone]" "pending a' = pending a" "remaining a' = remaining a - 1"
    "anext a' = anext a" "alive a' = alive a" "layout a' = layout a" "seqOwner a' = seqOwner a" "capBytes a' = capBytes a"
    "cancelled a \<Longrightarrow> cancelled a'" "covered a' = covered (markDone a j ext n)" "seqOff a' = seqOff (markDone a j ext n)"
  unfolding completeSegment_eq(1) [OF assms] by (auto simp: finalizeLocked_outcome)

lemma completeSegment_end:
  assumes "completeSegment a j ext n = (a', None)" and "\<not> complete a"
  shows "remaining a' = 0 \<longrightarrow> complete a' \<or> aerr a' \<noteq> None" "complete a' \<longrightarrow> remaining a' = 0 \<and> aerr a' = aerr a"
    "aerr a' \<noteq> aerr a \<longrightarrow> cancelled a'"
  unfolding completeSegment_eq(1) [OF assms(1)]
  using finalizeLocked_outcome [of "markDone a j ext n"] assms(2) by (auto split: if_splits)

lemma not_done_remaining:
  assumes "cnt_inv \<lparr>asm = a, ws = p\<rparr>" and "j < length (state a)" "state a ! j \<noteq> segDone"
  shows "\<not> complete a" "remaining a > 0"
proof -
  have "cnt (\<lambda>x. x \<noteq> segDone) (state a) > 0" using assms(2,3) unfolding cnt_pos by blast
  with assms(1) show "\<not> complete a" "remaining a > 0" by (auto simp: cnt_inv_def Let_def)
qed

lemma holder_inflight:
  "claim_inv \<lparr>asm = a, ws = p\<rparr> \<Longrightarrow> w < length p \<Longrightarrow> holds (p ! w) = Some j \<Longrightarrow>
     j < length (state a) \<and> state a ! j = segInflight"
  by (auto simp: claim_inv_def claims_ok_def)

lemma workerCount_pos: "0 < workerCount c n" "0 \<le> workerCount c n"
  by (simp_all add: workerCount_def Let_def le_max_iff_disj)

lemma cnt_start: "asm_start s \<Longrightarrow> cnt_inv s"
  by (auto simp: asm_start_def cnt_inv_def StartAssembly_def workerCount_pos)

lemma cnt_step:
  assumes "asm_step s t" "cnt_inv s" "claim_inv s"
  shows "cnt_inv t"
  using assms
proof (induction rule: asm_step.induct)
  case (a_pick w p a j a')
  have n: "anext a < length (state a)" using a_pick.prems(1) by (auto simp: cnt_inv_def Let_def)
  from nextSegment_Take [OF a_pick.hyps(3) n] obtain k where k: "j < length (state a)" "state a ! j = segPending"
      "k < length (state a)" "a' = a\<lparr>state := (state a)[j := segInflight], pending := pending a - 1, anext := k\<rparr>"
    by blast
  have "cnt (\<lambda>x. x \<noteq> Gone) (p[w := Holding j]) = cnt (\<lambda>x. x \<noteq> Gone) p"
    using a_pick.hyps(1,2) by (simp add: cnt_update)
  with a_pick.prems(1) k show ?case by (auto simp: cnt_inv_def cnt_update)
next
  case (a_leave w p a a')
  with nextSegment_Leave [OF a_leave.hyps(3)] show ?case by (auto simp: cnt_inv_def Let_def cnt_update)
next
  case (a_block w p a a')
  with nextSegment_Block [OF a_block.hyps(3)] show ?case by (auto simp: cnt_inv_def Let_def cnt_update)
next
  case (a_open w p j a h a' sw ext)
  then have "p ! w \<noteq> Gone" by auto
  with a_open show ?case by (auto simp: openSegment_fields [OF a_open.hyps(3)] cnt_inv_def Let_def cnt_update)
next
  case (a_openErr w p j a h a' e)
  then have "p ! w \<noteq> Gone" by auto
  with a_openErr show ?case by (auto simp: openSegment_fields [OF a_openErr.hyps(3)] cnt_inv_def Let_def cnt_update)
next
  case (a_finish w p j ext lim n a a')
  have j: "j < length (state a)" "state a ! j = segInflight"
    using holder_inflight [OF a_finish.prems(2), of w j] a_finish.hyps by simp_all
  then have nc: "\<not> complete a" using not_done_remaining [OF a_finish.prems(1), of j] by simp
  note F = completeSegment_fields(1-8) [OF a_finish.hyps(5)]
  note E = completeSegment_end [OF a_finish.hyps(5) nc] completeSegment_fields(9) [OF a_finish.hyps(5)]
  note I = a_finish.prems(1) [unfolded cnt_inv_def Let_def asm_sys.simps]
  have "cnt (\<lambda>x. x \<noteq> Gone) p > 0" using a_finish.hyps(1,2) unfolding cnt_pos by auto
  then have "alive a' = cnt (\<lambda>x. x \<noteq> Gone) (p[w := Idle])" "alive a' > 0"
    using I a_finish.hyps(1,2) by (auto simp: F cnt_update)
  moreover have "pending a' = cnt (\<lambda>x. x = segPending) (state a')" "remaining a' = cnt (\<lambda>x. x \<noteq> segDone) (state a')"
    "anext a' < length (state a')"
    using I j by (auto simp: F cnt_update)
  moreover have "aerr a' \<noteq> None \<longrightarrow> cancelled a'" using E(3,4) I by metis
  ultimately show ?case using E(1,2) unfolding cnt_inv_def Let_def asm_sys.simps by blast
next
  case (a_requeue w p j a)
  have j: "j < length (state a)" "state a ! j = segInflight"
    using holder_inflight [OF a_requeue.prems(2), of w j] a_requeue.hyps by simp_all
  have "p ! w \<noteq> Gone" using a_requeue.hyps by auto
  with a_requeue.prems(1) a_requeue.hyps(1) j show ?case
    by (auto simp: requeue_def cnt_inv_def Let_def cnt_update)
next
  case (a_abandon w p j a)
  then have "p ! w \<noteq> Gone" by auto
  with a_abandon show ?case by (auto simp: cnt_inv_def Let_def cnt_update)
next
  case (a_failSeg w p j a)
  then have "p ! w \<noteq> Gone" by auto
  with a_failSeg show ?case by (auto simp: failLocked_err cnt_inv_def Let_def cnt_update)
next
  case (a_exit w p c a)
  note I = a_exit.prems(1) [unfolded cnt_inv_def Let_def asm_sys.simps]
  have "alive a - 1 = cnt (\<lambda>x. x \<noteq> Gone) (p[w := Gone])"
    using I a_exit.hyps by (simp add: cnt_update)
  moreover have "aerr (workerExit a c) \<noteq> None \<longrightarrow> cancelled (workerExit a c)"
    unfolding workerExit_err using I by linarith
  moreover have "aerr (workerExit a c) = None \<and> \<not> complete a \<longrightarrow> alive a - 1 > 0"
    unfolding workerExit_err using I by linarith
  moreover have "remaining a = 0 \<longrightarrow> complete a \<or> aerr (workerExit a c) \<noteq> None"
    unfolding workerExit_err using I by blast
  ultimately show ?case unfolding cnt_inv_def Let_def asm_sys.simps workerExit_fields using I by blast
next
  case (a_hint a pos a' p)
  from hintLocked_Ok [OF a_hint.hyps] a_hint.prems(1) show ?case by (auto simp: cnt_inv_def Let_def)
qed (auto simp: Cancel_def failLocked_err cnt_inv_def Let_def cnt_update)

lemma claim_start: "asm_start s \<Longrightarrow> claim_inv s"
  by (auto simp: asm_start_def claim_inv_def claims_ok_def Let_def StartAssembly_def)

lemma claims_mono: "claims_ok st can hs \<Longrightarrow> (can \<Longrightarrow> can') \<Longrightarrow> claims_ok st can' hs"
  unfolding claims_ok_def by blast

text \<open>A worker that holds nothing before and after, or the same segment.\<close>

lemma claim_same:
  assumes "claim_inv \<lparr>asm = a, ws = p\<rparr>" and "w < length p" "holds x = holds (p ! w)"
    and "state a' = state a" "cancelled a \<Longrightarrow> cancelled a'"
  shows "claim_inv \<lparr>asm = a', ws = p[w := x]\<rparr>"
proof -
  have "map holds (p[w := x]) = map holds p"
    using assms(2,3) by (metis list_update_id map_update nth_map length_map)
  with assms(1,4,5) show ?thesis by (auto simp: claim_inv_def intro: claims_mono)
qed

text \<open>A worker lets go of its segment \<open>j\<close>, which leaves the in-flight state or is abandoned after a cancellation.\<close>

lemma claims_drop:
  assumes "claims_ok st can hs" and "w < length hs" "hs ! w = Some j" and "v \<noteq> segInflight \<or> can'" "can \<longrightarrow> can'"
  shows "claims_ok (st[j := v]) can' (hs[w := None])"
proof -
  have U: "hs ! u = Some j \<Longrightarrow> u < length hs \<Longrightarrow> u = w" for u
    using assms(1-3) unfolding claims_ok_def by blast
  have "i < length st \<and> st[j := v] ! i = segInflight" if "u < length hs" "hs[w := None] ! u = Some i" for u i
  proof -
    from that have u: "u \<noteq> w" "hs ! u = Some i" using assms(2) by (auto simp: nth_list_update split: if_splits)
    then have "i \<noteq> j" using U that(1) by blast
    with u assms(1) that(1) show ?thesis unfolding claims_ok_def by auto
  qed
  moreover have "u = u'" if "u < length hs" "u' < length hs" "hs[w := None] ! u = Some i" "hs[w := None] ! u' = Some i" for u u' i
  proof -
    have "hs ! u = Some i" "hs ! u' = Some i" using that assms(2) by (auto simp: nth_list_update split: if_splits)
    with assms(1) that(1,2) show ?thesis unfolding claims_ok_def by blast
  qed
  moreover have "can' \<or> Some i \<in> set (hs[w := None])" if "i < length st" "st[j := v] ! i = segInflight" for i
  proof (cases "i = j")
    case True
    with that assms(4) show ?thesis by auto
  next
    case False
    with that have "st ! i = segInflight" by simp
    with that(1) assms(1,5) have "can' \<or> Some i \<in> set hs" unfolding claims_ok_def by blast
    moreover have "Some i \<in> set (hs[w := None])" if "Some i \<in> set hs"
    proof -
      from that obtain u where "u < length hs" "hs ! u = Some i" by (auto simp: in_set_conv_nth)
      with assms(3) False show ?thesis by (metis length_list_update nth_list_update_neq nth_mem option.inject)
    qed
    ultimately show ?thesis by blast
  qed
  ultimately show ?thesis unfolding claims_ok_def by simp
qed

lemma claim_drop:
  assumes "claim_inv \<lparr>asm = a, ws = p\<rparr>" and "w < length p" "holds (p ! w) = Some j" "holds x = None"
    and "state a' = (state a)[j := v]" "v \<noteq> segInflight \<or> cancelled a'" "cancelled a \<longrightarrow> cancelled a'"
  shows "claim_inv \<lparr>asm = a', ws = p[w := x]\<rparr>"
  using claims_drop [of "state a" "cancelled a" "map holds p" w j v "cancelled a'"] assms
  by (simp add: claim_inv_def map_update)

lemma claims_take:
  assumes "claims_ok st can hs" and "w < length hs" "hs ! w = None" and "j < length st" "st ! j = segPending"
  shows "claims_ok (st[j := segInflight]) can (hs[w := Some j])"
proof -
  have N: "hs ! u \<noteq> Some j" if "u < length hs" for u
    using assms(1,5) that unfolding claims_ok_def by (metis segStatus.distinct(1))
  have "i < length st \<and> st[j := segInflight] ! i = segInflight" if "u < length hs" "hs[w := Some j] ! u = Some i" for u i
    using that assms(1,2,4) unfolding claims_ok_def by (auto simp: nth_list_update split: if_splits)
  moreover have "u = u'" if "u < length hs" "u' < length hs" "hs[w := Some j] ! u = Some i" "hs[w := Some j] ! u' = Some i" for u u' i
  proof -
    have "u = w \<and> u' = w \<or> hs ! u = Some i \<and> hs ! u' = Some i"
      using that N assms(2) by (auto simp: nth_list_update split: if_splits)
    with assms(1) that(1,2) show ?thesis unfolding claims_ok_def by blast
  qed
  moreover have "can \<or> Some i \<in> set (hs[w := Some j])" if "i < length st" "st[j := segInflight] ! i = segInflight" for i
  proof (cases "i = j")
    case True
    then show ?thesis using assms(2) by (simp add: set_update_memI)
  next
    case False
    with that have "st ! i = segInflight" by simp
    with that(1) assms(1) have "can \<or> Some i \<in> set hs" unfolding claims_ok_def by blast
    moreover have "Some i \<in> set (hs[w := Some j])" if "Some i \<in> set hs"
      using that assms(3) by (metis in_set_conv_nth length_list_update nth_list_update_neq option.distinct(1))
    ultimately show ?thesis by blast
  qed
  ultimately show ?thesis unfolding claims_ok_def by simp
qed

lemma claim_take:
  assumes "claim_inv \<lparr>asm = a, ws = p\<rparr>" and "w < length p" "holds (p ! w) = None"
    and "j < length (state a)" "state a ! j = segPending" "state a' = (state a)[j := segInflight]" "cancelled a' = cancelled a"
  shows "claim_inv \<lparr>asm = a', ws = p[w := Holding j]\<rparr>"
  using claims_take [of "state a" "cancelled a" "map holds p" w j] assms by (simp add: claim_inv_def map_update)

lemma claim_step:
  assumes "asm_step s t" "cnt_inv s" "claim_inv s"
  shows "claim_inv t"
  using assms
proof (induction rule: asm_step.induct)
  case (a_pick w p a j a')
  have n: "anext a < length (state a)" using a_pick.prems(1) by (simp add: cnt_inv_def Let_def)
  from nextSegment_Take [OF a_pick.hyps(3) n] a_pick.hyps(2) show ?case
    by (intro claim_take [OF a_pick.prems(2) a_pick.hyps(1)]) auto
next
  case (a_leave w p a a')
  with nextSegment_Leave [OF a_leave.hyps(3)] show ?case by (intro claim_same) auto
next
  case (a_block w p a a')
  with nextSegment_Block [OF a_block.hyps(3)] show ?case by (intro claim_same) auto
next
  case (a_wake w p g a)
  then show ?case by (intro claim_same) auto
next
  case (a_wakeDone w p g a)
  then show ?case by (intro claim_same) auto
next
  case (a_open w p j a h a' sw ext)
  then show ?case by (intro claim_same [OF a_open.prems(2)]) (auto simp: openSegment_fields)
next
  case (a_openErr w p j a h a' e)
  then show ?case by (intro claim_same [OF a_openErr.prems(2)]) (auto simp: openSegment_fields)
next
  case (a_finish w p j ext lim n a a')
  then show ?case
    by (intro claim_drop [OF a_finish.prems(2) a_finish.hyps(1), where v = segDone])
      (auto simp: completeSegment_fields)
next
  case (a_requeue w p j a)
  then show ?case
    by (intro claim_drop [OF a_requeue.prems(2) a_requeue.hyps(1,2), where v = segPending]) (auto simp: requeue_def)
next
  case (a_abandon w p j a)
  then show ?case
    by (intro claim_drop [OF a_abandon.prems(2) a_abandon.hyps(1,2), where v = "state a ! j"]) auto
next
  case (a_failSeg w p j a)
  have j: "j < length (state a)" "state a ! j = segInflight"
    using holder_inflight [OF a_failSeg.prems(2)] a_failSeg.hyps by simp_all
  then have "\<not> complete a" using not_done_remaining [OF a_failSeg.prems(1)] by simp
  with a_failSeg.prems(1) show ?case
    by (intro claim_drop [OF a_failSeg.prems(2) a_failSeg.hyps(1,2), where v = "state a ! j"])
      (auto simp: failLocked_err cnt_inv_def)
next
  case (a_exit w p c a)
  then show ?case by (intro claim_same [OF a_exit.prems(2)]) (auto simp: workerExit_err)
next
  case (a_hint a pos a' p)
  from hintLocked_Ok [OF a_hint.hyps] a_hint.prems(2) show ?case by (auto simp: claim_inv_def Let_def)
next
  case (a_dialled w p a)
  then show ?case by (intro claim_same) auto
next
  case (a_refused w p a)
  then show ?case by (intro claim_same) auto
qed (auto simp: Cancel_def failLocked_err claim_inv_def intro: claims_mono)

section \<open>Layout and written ranges\<close>

text \<open>In a sequential assembly the done segments are a prefix, the next one is the only one that may be in flight, and
  the cursor has not passed the first pending one.\<close>

definition seq_order :: "Assembly \<Rightarrow> nat \<Rightarrow> bool" where
  "seq_order a k \<longleftrightarrow> k \<le> length (state a) \<and> (\<forall>i < k. state a ! i = segDone) \<and>
     (\<forall>i < length (state a). k < i \<longrightarrow> state a ! i = segPending) \<and>
     (k < length (state a) \<longrightarrow> state a ! k \<noteq> segDone) \<and>
     (k < length (state a) \<and> state a ! k = segPending \<longrightarrow> anext a \<le> k) \<and> anext a \<le> Suc k"

fun opened_ok :: "Assembly \<Rightarrow> nat \<Rightarrow> phase \<Rightarrow> bool" where
  "opened_ok a w (Opened j e lim) =
     (case layout a of
        layoutUnknown \<Rightarrow> False
      | layoutParallel \<Rightarrow> 0 \<le> fst e \<and> fst e < snd e \<and> snd e \<le> total a \<and> lim = snd e - fst e
      | layoutSequential \<Rightarrow> w = seqOwner a \<and> fst e = seqOff a \<and> lim = capBytes a - seqOff a)"
| "opened_ok a w (Holding j) = (layout a = layoutSequential \<longrightarrow> w = seqOwner a)"
| "opened_ok a w _ = True"

definition seq_cover :: "int \<Rightarrow> extent list" where
  "seq_cover off = (if off = 0 then [] else [(0, off)])"

definition lay_ok :: "Assembly \<Rightarrow> bool" where
  "lay_ok a \<longleftrightarrow> 0 < capBytes a \<and>
     (complete a \<longrightarrow> sizeKnown a \<and> tiled a) \<and>
     (layout a = layoutUnknown \<longrightarrow> covered a = [] \<and> seqOff a = 0 \<and> anext a = 0 \<and> \<not> sizeKnown a \<and> \<not> complete a \<and>
        (\<forall>i < length (state a). 0 < i \<longrightarrow> state a ! i = segPending) \<and> state a ! 0 \<noteq> segDone) \<and>
     (layout a = layoutParallel \<longrightarrow> sizeKnown a \<and> 0 < total a \<and> total a \<le> capBytes a \<and> ranges_ok (covered a) \<and>
        bytes_of (covered a) \<subseteq> {0..<total a}) \<and>
     (layout a = layoutSequential \<longrightarrow> covered a = seq_cover (seqOff a) \<and> 0 \<le> seqOff a \<and> seqOff a \<le> capBytes a \<and>
        (sizeKnown a \<longrightarrow> total a = seqOff a \<and> remaining a = 0) \<and> (\<exists>k. seq_order a k))"

definition lay_inv :: "asm_sys \<Rightarrow> bool" where
  "lay_inv s \<longleftrightarrow> lay_ok (asm s) \<and> (\<forall>w < length (ws s). opened_ok (asm s) w (ws s ! w))"

lemma sizeCap_pos: "0 < sizeCap n"
  by (simp add: sizeCap_def nzbDefaultMaxBytes_def)

lemma lay_start: "asm_start s \<Longrightarrow> lay_inv s"
  by (auto simp: asm_start_def lay_inv_def lay_ok_def StartAssembly_def sizeCap_pos)

text \<open>Steps that touch neither the segments nor the ranges.\<close>

lemma lay_same:
  assumes "lay_inv \<lparr>asm = a, ws = p\<rparr>"
    and "capBytes a' = capBytes a" "complete a' = complete a" "sizeKnown a' = sizeKnown a" "layout a' = layout a"
    "covered a' = covered a" "seqOff a' = seqOff a" "anext a' = anext a" "state a' = state a" "total a' = total a"
    "remaining a' = remaining a" "seqOwner a' = seqOwner a"
  shows "lay_inv \<lparr>asm = a', ws = p\<rparr>"
proof -
  have L: "lay_ok a' = lay_ok a" by (simp add: lay_ok_def tiled_def seq_order_def assms)
  have "opened_ok a' v y = opened_ok a v y" for v y
    by (cases y) (simp_all add: assms split: layoutMode.split)
  with L assms(1) show ?thesis by (simp add: lay_inv_def)
qed

lemma lay_put:
  assumes "lay_ok a" "\<And>v. v < length p \<Longrightarrow> v \<noteq> w \<Longrightarrow> opened_ok a v (p ! v)" "opened_ok a w x"
  shows "lay_inv \<lparr>asm = a, ws = p[w := x]\<rparr>"
proof -
  have "opened_ok a v (p[w := x] ! v)" if "v < length p" for v
    using assms(2,3) that by (cases "v = w") simp_all
  with assms(1) show ?thesis by (simp add: lay_inv_def)
qed

lemma lay_frame:
  assumes "lay_inv \<lparr>asm = a, ws = p\<rparr>" and "w < length p" "holds x = None"
    and "capBytes a' = capBytes a" "complete a' = complete a" "sizeKnown a' = sizeKnown a" "layout a' = layout a"
    "covered a' = covered a" "seqOff a' = seqOff a" "anext a' = anext a" "state a' = state a" "total a' = total a"
    "remaining a' = remaining a" "seqOwner a' = seqOwner a"
  shows "lay_inv \<lparr>asm = a', ws = p[w := x]\<rparr>"
proof -
  have "lay_inv \<lparr>asm = a', ws = p\<rparr>" using lay_same [OF assms(1,4-14)] .
  moreover have "opened_ok a' w x" using assms(3) by (cases x) auto
  ultimately show ?thesis by (intro lay_put) (simp_all add: lay_inv_def)
qed

lemma nextSegment_pick:
  "nextSegment a w = (Take j, a') \<Longrightarrow> layout a \<noteq> layoutUnknown \<Longrightarrow> pickLocked a = (Some j, a')"
  by (auto simp: nextSegment_def split: if_splits prod.splits option.splits)

text \<open>In a sequential assembly a segment in flight is held by the owner, so the owner's next claim is the first
  segment that is not done.\<close>

lemma seq_claim:
  assumes "claim_inv \<lparr>asm = a, ws = p\<rparr>" "lay_inv \<lparr>asm = a, ws = p\<rparr>" and "anext a < length (state a)"
    and "layout a = layoutSequential" "w < length p" "p ! w = Idle" and T: "nextSegment a w = (Take j, a')"
    and k: "seq_order a k"
  shows "j = k" "seq_order a' k"
proof -
  note N = nextSegment_Take [OF T assms(3)]
  have kl: "k < length (state a)"
  proof (rule ccontr)
    assume "\<not> k < length (state a)"
    with N have "j < k" by linarith
    with k N show False by (simp add: seq_order_def)
  qed
  have "state a ! k \<noteq> segInflight"
  proof
    assume "state a ! k = segInflight"
    with assms(1) kl N have "Some k \<in> holds ` set p" by (auto simp: claim_inv_def claims_ok_def)
    then obtain v where v: "v < length p" "holds (p ! v) = Some k" by (metis image_iff in_set_conv_nth)
    then have "opened_ok a v (p ! v)" using assms(2) by (simp add: lay_inv_def)
    with v(2) assms(4) have "v = seqOwner a" by (cases "p ! v") auto
    with N assms(4,6) v(2) show False by simp
  qed
  with k kl have kp: "state a ! k = segPending" "anext a \<le> k" "\<And>i. i < k \<Longrightarrow> state a ! i \<noteq> segPending"
    unfolding seq_order_def by (metis segStatus.exhaust segStatus.distinct(3))+
  note P = nextSegment_pick [OF T]
  have "find (\<lambda>j. state a ! j = segPending) (cyclic (length (state a)) (anext a)) = Some k"
    by (rule find_cyclic_first) (use kp kl in auto)
  with P assms(4) show j: "j = k" by (simp add: pickLocked_def)
  have "a' = a\<lparr>state := (state a)[k := segInflight], pending := pending a - 1,
           anext := (if k + 1 \<ge> length (state a) then 0 else k + 1)\<rparr>"
    using pickLocked_Some [OF P assms(3)] assms(4) j by simp
  with k kl show "seq_order a' k" by (auto simp: seq_order_def)
qed

lemma lay_pick:
  assumes "cnt_inv \<lparr>asm = a, ws = p\<rparr>" "claim_inv \<lparr>asm = a, ws = p\<rparr>" "lay_inv \<lparr>asm = a, ws = p\<rparr>"
    and "w < length p" "p ! w = Idle" and T: "nextSegment a w = (Take j, a')"
  shows "lay_inv \<lparr>asm = a', ws = p[w := Holding j]\<rparr>"
proof -
  have n: "anext a < length (state a)" using assms(1) by (simp add: cnt_inv_def)
  obtain k where a': "a' = a\<lparr>state := (state a)[j := segInflight], pending := pending a - 1, anext := k\<rparr>"
    and k: "layout a = layoutUnknown \<longrightarrow> k = anext a"
    using nextSegment_Take [OF T n] by blast
  note N = nextSegment_Take [OF T n]
  have O: "opened_ok a' v y = opened_ok a v y" for v y by (cases y) (simp_all add: a' split: layoutMode.split)
  have "opened_ok a' w (Holding j)" using N a' by simp
  moreover have "lay_ok a'"
  proof -
    have L: "lay_ok a" using assms(3) by (simp add: lay_inv_def)
    have "\<exists>k. seq_order a' k" if "layout a = layoutSequential"
      using L that seq_claim(2) [OF assms(2,3) n that assms(4,5) T] unfolding lay_ok_def by blast
    moreover have "layout a = layoutUnknown \<longrightarrow> j = 0 \<and> (state a)[j := segInflight] ! 0 \<noteq> segDone"
      using N by auto
    ultimately show ?thesis using L N k by (simp add: lay_ok_def a' tiled_def nth_list_update)
  qed
  ultimately show ?thesis using assms(3) by (intro lay_put) (simp_all add: O lay_inv_def)
qed

text \<open>Opening a segment: the layout decision keeps the invariant for the other workers, and an accepted extent lies
  inside the file.\<close>

lemma unknown_holder:
  assumes "claim_inv \<lparr>asm = a, ws = p\<rparr>" "lay_ok a" "layout a = layoutUnknown" "w < length p" "holds (p ! w) = Some j"
  shows "j = 0" "v < length p \<Longrightarrow> v \<noteq> w \<Longrightarrow> holds (p ! v) = None"
proof -
  have j: "i = 0" if "u < length p" "holds (p ! u) = Some i" for u i
    using holder_inflight [OF assms(1) that] assms(2,3) unfolding lay_ok_def by (metis gr0I segStatus.distinct(1))
  then show "j = 0" using assms(4,5) .
  assume v: "v < length p" "v \<noteq> w"
  show "holds (p ! v) = None"
  proof (rule ccontr)
    assume "holds (p ! v) \<noteq> None"
    with j v(1) have "holds (p ! v) = Some 0" by auto
    with assms(1,4,5) v \<open>j = 0\<close> show False by (simp add: claim_inv_def claims_ok_def)
  qed
qed

lemma openLayout_lay:
  assumes "claim_inv \<lparr>asm = a, ws = p\<rparr>" "lay_inv \<lparr>asm = a, ws = p\<rparr>"
    and "w < length p" "holds (p ! w) = Some j" "openLayout a w h = Ok a'"
  shows "lay_ok a'" "v < length p \<Longrightarrow> v \<noteq> w \<Longrightarrow> opened_ok a' v (p ! v)"
    "layout a' = layoutSequential \<longrightarrow> w = seqOwner a'" "layout a' \<noteq> layoutUnknown"
proof -
  have L: "lay_ok a" and O: "\<And>v. v < length p \<Longrightarrow> opened_ok a v (p ! v)" using assms(2) by (simp_all add: lay_inv_def)
  have W: "layout a = layoutSequential \<longrightarrow> w = seqOwner a"
    using O [OF assms(3)] assms(4) by (cases "p ! w") auto
  have U: "opened_ok b v (p ! v)" if "layout a = layoutUnknown" "v < length p" "v \<noteq> w" for v b
    using unknown_holder(2) [OF assms(1) L that(1) assms(3,4) that(2,3)] by (cases "p ! v") auto
  have S: "seq_order b 0" if "layout a = layoutUnknown" "state b = state a" "anext b = anext a" for b
    using L that by (simp add: lay_ok_def seq_order_def)
  have P: "0 < Size h" if "selfDescribing h n" for n using that by (auto simp: selfDescribing_def split: if_splits)
  show "lay_ok a'"
  proof (cases "layout a = layoutUnknown")
    case True
    have "\<exists>k. seq_order a' k" using S [OF True, of a'] assms(5) True
      by (auto simp: openLayout_def split: if_splits)
    with L True assms(5) P show ?thesis
      by (auto simp: openLayout_def lay_ok_def ranges_ok_def seq_cover_def split: if_splits)
  qed (use assms(5) L in \<open>simp add: openLayout_def\<close>)
  show "opened_ok a' v (p ! v)" if "v < length p" "v \<noteq> w"
    using U [OF _ that] O [OF that(1)] assms(5) by (cases "layout a = layoutUnknown") (auto simp: openLayout_def)
  show "layout a' = layoutSequential \<longrightarrow> w = seqOwner a'" "layout a' \<noteq> layoutUnknown"
    using assms(5) W by (auto simp: openLayout_def split: if_splits)
qed

lemma openExtent_ok:
  assumes "lay_ok a" "layout a \<noteq> layoutUnknown" "layout a = layoutSequential \<longrightarrow> w = seqOwner a"
    and "openExtent a h = Ok (sw, ext)"
  shows "opened_ok a w (Opened j ext (sremain sw))"
proof (cases "layout a")
  case layoutParallel
  with assms show ?thesis by (auto simp: openExtent_def mkWriter_def lay_ok_def split: if_splits)
qed (use assms in \<open>auto simp: openExtent_def mkWriter_def\<close>)

lemma openErr_layout:
  assumes "openSegment a w h = (a', Err e)"
  shows "a' = a \<or> openLayout a w h = Ok a'"
  using assms by (auto simp: openSegment_def split: outcome.splits)

lemma lay_open:
  assumes "claim_inv \<lparr>asm = a, ws = p\<rparr>" "lay_inv \<lparr>asm = a, ws = p\<rparr>"
    and "w < length p" "holds (p ! w) = Some j" "openSegment a w h = (a', Ok (sw, ext))"
  shows "lay_inv \<lparr>asm = a', ws = p[w := Opened j ext (sremain sw)]\<rparr>"
proof -
  have O: "openLayout a w h = Ok a'" "openExtent a' h = Ok (sw, ext)"
    using assms(5) by (auto simp: openSegment_def split: outcome.splits)
  note L = openLayout_lay [OF assms(1-4) O(1)]
  show ?thesis by (rule lay_put) (use L openExtent_ok [OF L(1,4,3) O(2)] in auto)
qed

lemma lay_openErr:
  assumes "claim_inv \<lparr>asm = a, ws = p\<rparr>" "lay_inv \<lparr>asm = a, ws = p\<rparr>"
    and "w < length p" "holds (p ! w) = Some j" "openSegment a w h = (a', Err e)"
  shows "lay_inv \<lparr>asm = a', ws = p[w := Holding j]\<rparr>"
  using openErr_layout [OF assms(5)]
proof
  assume a: "a' = a"
  have O: "lay_ok a" "\<And>v. v < length p \<Longrightarrow> opened_ok a v (p ! v)" using assms(2) by (simp_all add: lay_inv_def)
  have "opened_ok a w (Holding j)" using O(2) [OF assms(3)] assms(4) by (cases "p ! w") auto
  with O a show ?thesis by (auto intro: lay_put)
next
  assume o: "openLayout a w h = Ok a'"
  note L = openLayout_lay [OF assms(1-4) o]
  show ?thesis by (rule lay_put) (use L in auto)
qed

text \<open>Finishing a segment.\<close>

lemma seq_cover_add:
  assumes "0 \<le> off" "0 < n"
  shows "addCovered (seq_cover off) (off, off + n) = seq_cover (off + n)"
  using assms by (auto simp: seq_cover_def addCovered_def sortSearch.simps mergeLoop.simps)

lemma markDone_seq:
  assumes "layout a \<noteq> layoutParallel" "covered a = seq_cover (seqOff a)" "0 \<le> seqOff a" "fst ext = seqOff a" "0 \<le> n"
  shows "seqOff (markDone a j ext n) = seqOff a + n" "covered (markDone a j ext n) = seq_cover (seqOff a + n)"
  using assms seq_cover_add [of "seqOff a" n] by (auto simp: markDone_def addCoveredLocked_def Let_def)

lemma markDone_par:
  assumes "layout a = layoutParallel" "0 < n"
  shows "covered (markDone a j ext n) = addCovered (covered a) ext" "seqOff (markDone a j ext n) = seqOff a"
  using assms by (auto simp: markDone_def addCoveredLocked_def Let_def)

lemma finalizeLocked_complete:
  assumes "\<not> complete a" "complete (finalizeLocked a)" "layout a \<noteq> layoutUnknown" "layout a = layoutParallel \<longrightarrow> sizeKnown a"
  shows "sizeKnown (finalizeLocked a) \<and> tiled (finalizeLocked a)"
proof -
  have t: "tiled (fixSize a)" using assms(1,2) by (auto simp: finalizeLocked_def Let_def split: if_splits)
  then have "finalizeLocked a = (fixSize a)\<lparr>complete := True\<rparr>" by (simp add: finalizeLocked_def)
  moreover have "sizeKnown (fixSize a)" using assms(3,4) by (cases "layout a") (auto simp: fixSize_def)
  ultimately show ?thesis using t by (simp add: tiled_def)
qed

lemma finalizeLocked_size:
  "total (finalizeLocked a) = (if layout a = layoutSequential then seqOff a else total a)"
  "sizeKnown (finalizeLocked a) = (sizeKnown a \<or> layout a = layoutSequential)"
  by (auto simp: finalizeLocked_def fixSize_def Let_def)


lemma lay_finish_par:
  assumes "lay_ok a" "layout a = layoutParallel" and "0 \<le> fst ext" "fst ext < snd ext" "snd ext \<le> total a"
    and C: "completeSegment a j ext n = (a', None)" and "\<not> complete a"
  shows "lay_ok a'" "total a' = total a"
proof -
  note F = completeSegment_fields [OF C] and E = completeSegment_eq [OF C]
  have n: "0 < n" using E(2) assms(2,4) by simp
  note M = markDone_par [OF assms(2) n, of j ext]
  have t: "total a' = total a" "sizeKnown a' = sizeKnown a"
    unfolding E(1) by (simp_all add: finalizeLocked_size assms(2))
  have L: "sizeKnown a" "ranges_ok (covered a)" "bytes_of (covered a) \<subseteq> {0..<total a}" "0 < total a" "total a \<le> capBytes a"
      "0 < capBytes a"
    using assms(1,2) by (simp_all add: lay_ok_def)
  have "tiled a'" if "complete a'"
  proof -
    from that assms(7) have "remaining a = 1" unfolding E(1) by (auto split: if_splits)
    with that assms(2,7) L(1) finalizeLocked_complete [of "markDone a j ext n"] show ?thesis
      unfolding E(1) by (simp add: tiled_def)
  qed
  moreover have "ranges_ok (covered a')" "bytes_of (covered a') \<subseteq> {0..<total a}"
    using addCovered_ok [OF L(2) assms(4)] L(3) assms(3,5) by (auto simp: F M)
  ultimately show "lay_ok a'" using L t F(6,8) assms(2) by (simp add: lay_ok_def)
  show "total a' = total a" by (rule t(1))
qed

lemma lay_finish_seq:
  assumes "lay_ok a" "layout a = layoutSequential" and "fst ext = seqOff a" "0 \<le> n" "n \<le> capBytes a - seqOff a"
    and C: "completeSegment a j ext n = (a', None)" and "\<not> complete a"
    and "j < length (state a)" "state a ! j = segInflight" "remaining a \<noteq> 0"
  shows "lay_ok a'"
proof -
  note F = completeSegment_fields [OF C] and E = completeSegment_eq [OF C]
  obtain k where k: "seq_order a k" and L: "covered a = seq_cover (seqOff a)" "0 \<le> seqOff a" "seqOff a \<le> capBytes a"
      "\<not> sizeKnown a" "0 < capBytes a"
    using assms(1,2,10) by (auto simp: lay_ok_def)
  note M = markDone_seq [OF _ L(1,2) assms(3,4), of j] and par = assms(2)
  have "j = k"
  proof (rule ccontr)
    assume "j \<noteq> k"
    with k assms(8,9) show False by (cases "j < k") (auto simp: seq_order_def)
  qed
  with k assms(8,9) have "seq_order a' (Suc k)"
    by (auto simp: seq_order_def F nth_list_update less_Suc_eq)
  moreover have "sizeKnown a' \<longrightarrow> total a' = seqOff a' \<and> remaining a' = 0"
    unfolding E(1) using L(4) by (auto simp: finalizeLocked_size par)
  moreover have "sizeKnown a' \<and> tiled a'" if "complete a'"
  proof -
    from that assms(7) have "remaining a = 1" unfolding E(1) by (auto split: if_splits)
    with that assms(2,7) finalizeLocked_complete [of "markDone a j ext n"] show ?thesis
      unfolding E(1) by (simp add: tiled_def)
  qed
  ultimately show ?thesis using L M F assms(2,4,5) by (auto simp: lay_ok_def)
qed

lemma seq_alone:
  assumes "lay_inv \<lparr>asm = a, ws = p\<rparr>" "layout a = layoutSequential" "w < length p" "holds (p ! w) \<noteq> None"
    and "v < length p" "v \<noteq> w"
  shows "holds (p ! v) = None"
proof -
  have "u = seqOwner a" if "holds (p ! u) \<noteq> None" "u < length p" for u
  proof -
    have "opened_ok a u (p ! u)" using assms(1) that(2) by (simp add: lay_inv_def)
    with that(1) assms(2) show ?thesis by (cases "p ! u") auto
  qed
  with assms(3-6) show ?thesis by blast
qed

lemma lay_finish:
  assumes "cnt_inv \<lparr>asm = a, ws = p\<rparr>" "claim_inv \<lparr>asm = a, ws = p\<rparr>" and I: "lay_inv \<lparr>asm = a, ws = p\<rparr>"
    and "w < length p" "p ! w = Opened j ext lim" "0 \<le> n" "n \<le> lim"
    and C: "completeSegment a j ext n = (a', None)"
  shows "lay_inv \<lparr>asm = a', ws = p[w := Idle]\<rparr>"
proof -
  have j: "j < length (state a)" "state a ! j = segInflight"
    using holder_inflight [OF assms(2,4), of j] assms(5) by simp_all
  then have nc: "\<not> complete a" "remaining a \<noteq> 0"
    using not_done_remaining [OF assms(1), of j] by simp_all
  have L: "lay_ok a" and O: "\<And>v. v < length p \<Longrightarrow> opened_ok a v (p ! v)" using I by (simp_all add: lay_inv_def)
  note W = O [OF assms(4), unfolded assms(5)]
  note F = completeSegment_fields [OF C]
  show ?thesis
  proof (cases "layout a")
    case layoutUnknown
    with W show ?thesis by simp
  next
    case layoutParallel
    with W have e: "0 \<le> fst ext" "fst ext < snd ext" "snd ext \<le> total a" by simp_all
    note P = lay_finish_par [OF L layoutParallel e C nc(1)]
    have "opened_ok a' v y = opened_ok a v y" for v y
      by (cases y) (simp_all add: F layoutParallel P(2))
    with P(1) O show ?thesis by (intro lay_put) simp_all
  next
    case layoutSequential
    with W assms(7) have e: "fst ext = seqOff a" "n \<le> capBytes a - seqOff a" by simp_all
    have "opened_ok a' v (p ! v)" if "v < length p" "v \<noteq> w" for v
      using seq_alone [OF I layoutSequential assms(4) _ that] assms(5) by (cases "p ! v") auto
    with lay_finish_seq [OF L layoutSequential e(1) assms(6) e(2) C nc(1) j nc(2)] show ?thesis
      by (intro lay_put) simp_all
  qed
qed

lemma lay_requeue:
  assumes "claim_inv \<lparr>asm = a, ws = p\<rparr>" and I: "lay_inv \<lparr>asm = a, ws = p\<rparr>"
    and "w < length p" "holds (p ! w) = Some j"
  shows "lay_inv \<lparr>asm = requeue a j, ws = p[w := Retiring True]\<rparr>"
proof -
  have j: "j < length (state a)" "state a ! j = segInflight"
    using holder_inflight [OF assms(1,3,4)] by simp_all
  have L: "lay_ok a" and O: "\<And>v. v < length p \<Longrightarrow> opened_ok a v (p ! v)" using I by (simp_all add: lay_inv_def)
  have U: "layout a = layoutUnknown \<longrightarrow> j = 0" using unknown_holder(1) [OF assms(1) L _ assms(3,4)] by blast
  have S: "seq_order (requeue a j) k" if k: "seq_order a k" for k
  proof -
    have "j = k"
    proof (rule ccontr)
      assume "j \<noteq> k"
      with k j show False by (cases "j < k") (auto simp: seq_order_def)
    qed
    with k j show ?thesis by (auto simp: seq_order_def requeue_def)
  qed
  have "(state a)[j := segPending] ! 0 \<noteq> segDone" if "layout a = layoutUnknown"
    using U that j by simp
  with L U S have "lay_ok (requeue a j)"
    by (auto simp: lay_ok_def requeue_def tiled_def nth_list_update)
  moreover have "opened_ok (requeue a j) v y = opened_ok a v y" for v y
    by (cases y) (simp_all add: requeue_def split: layoutMode.split)
  ultimately show ?thesis using O by (intro lay_put) simp_all
qed

lemma lay_step:
  assumes "asm_step s t" "cnt_inv s" "claim_inv s" "lay_inv s"
  shows "lay_inv t"
  using assms
proof (induction rule: asm_step.induct)
  case (a_hint a pos a' p)
  from hintLocked_Ok [OF a_hint.hyps] obtain k where k: "a' = a\<lparr>anext := k\<rparr>"
    "k = anext a \<or> layout a = layoutParallel" by blast
  have "opened_ok a' v y = opened_ok a v y" for v y
    by (cases y) (simp_all add: k(1) split: layoutMode.split)
  moreover have "lay_ok a' = lay_ok a"
    using k by (elim disjE) (simp_all add: lay_ok_def tiled_def)
  ultimately show ?case using a_hint.prems(3) by (simp add: lay_inv_def)
next
  case (a_leave w p a a')
  with nextSegment_Leave [OF a_leave.hyps(3)] show ?case by (intro lay_frame(1) [OF a_leave.prems(3)]) simp_all
next
  case (a_block w p a a')
  with nextSegment_Block [OF a_block.hyps(3)] show ?case by (intro lay_frame(1) [OF a_block.prems(3)]) simp_all
next
  case (a_parentDone a p)
  then show ?case by (intro lay_same [OF a_parentDone.prems(3)]) simp_all
next
  case (a_cancel a p)
  then show ?case by (intro lay_same [OF a_cancel.prems(3)]) (simp_all add: Cancel_def)
next
  case (a_afterFunc a p)
  then show ?case by (intro lay_same [OF a_afterFunc.prems(3)]) simp_all
next
  case (a_exit w p c a)
  then show ?case by (intro lay_frame [OF a_exit.prems(3)]) simp_all
qed (auto intro: lay_pick lay_open lay_openErr lay_finish lay_requeue lay_frame)


section \<open>Sleeping workers\<close>

text \<open>A worker is asleep when the channel it waits on is still open and the context is not done. The invariant says
  that no wake-up is lost: whoever is asleep would be sent to sleep again.\<close>

fun asleep :: "Assembly \<Rightarrow> phase \<Rightarrow> bool" where
  "asleep a (Sleeping g) = (g = gen a \<and> \<not> cancelled a)"
| "asleep a _ = False"

definition sleep_inv :: "asm_sys \<Rightarrow> bool" where
  "sleep_inv s \<longleftrightarrow> (\<forall>w < length (ws s). (\<forall>g. ws s ! w = Sleeping g \<longrightarrow> g \<le> gen (asm s)) \<and>
     (asleep (asm s) (ws s ! w) \<longrightarrow> fst (nextSegment (asm s) w) = Block))"

definition blocked :: "Assembly \<Rightarrow> bool" where
  "blocked a \<longleftrightarrow> aerr a = None \<and> \<not> complete a \<and> \<not> cancelled a \<and>
     (if layout a = layoutUnknown then state a ! 0 \<noteq> segPending else pending a \<le> 0)"

lemma nextSegment_blocks:
  assumes "cnt_inv \<lparr>asm = a, ws = p\<rparr>"
  shows "fst (nextSegment a w) = Block \<longleftrightarrow> blocked a \<and> (layout a = layoutSequential \<longrightarrow> w = seqOwner a)"
proof -
  have "fst (pickLocked a) \<noteq> None" if "pending a > 0"
  proof -
    from that assms have "cnt (\<lambda>x. x = segPending) (state a) > 0" by (simp add: cnt_inv_def Let_def)
    then obtain i where "i < length (state a)" "state a ! i = segPending" unfolding cnt_pos by blast
    with pickLocked_None [of a i] assms show ?thesis by (auto simp: cnt_inv_def Let_def)
  qed
  then show ?thesis
    by (auto simp: nextSegment_def blocked_def split: prod.splits option.splits)
qed

text \<open>A critical section keeps every sleeper right when it closes the channel, or ends the context, or leaves what
  \<open>nextSegment\<close> blocks on as it was.\<close>

lemma sleep_frame:
  assumes "sleep_inv \<lparr>asm = a, ws = p\<rparr>" and "\<And>g. x \<noteq> Sleeping g" and "gen a \<le> gen a'"
    and "gen a < gen a' \<or> cancelled a' \<or>
      (cancelled a \<longrightarrow> cancelled a') \<and> (\<forall>v. fst (nextSegment a v) = Block \<longrightarrow> fst (nextSegment a' v) = Block)"
  shows "sleep_inv \<lparr>asm = a', ws = p[w := x]\<rparr>"
proof -
  have "(\<forall>g. p[w := x] ! v = Sleeping g \<longrightarrow> g \<le> gen a') \<and>
      (asleep a' (p[w := x] ! v) \<longrightarrow> fst (nextSegment a' v) = Block)" if v: "v < length p" for v
  proof (cases "v = w")
    case True
    with v assms(2) show ?thesis by (cases x) auto
  next
    case False
    have "asleep a (p ! v) \<longrightarrow> fst (nextSegment a v) = Block" "\<And>g. p ! v = Sleeping g \<Longrightarrow> g \<le> gen a"
      using assms(1) v by (auto simp: sleep_inv_def)
    moreover have "asleep a (p ! v) \<and> fst (nextSegment a' v) = Block"
      if "asleep a' (p ! v)" "fst (nextSegment a v) = Block \<or> \<not> asleep a (p ! v)" "\<And>g. p ! v = Sleeping g \<Longrightarrow> g \<le> gen a"
      using that assms(3,4) by (cases "p ! v") auto
    ultimately show ?thesis using False assms(3) by (auto intro: le_trans)
  qed
  then show ?thesis by (simp add: sleep_inv_def)
qed

lemma sleep_frame0:
  assumes "sleep_inv \<lparr>asm = a, ws = p\<rparr>" and "gen a \<le> gen a'"
    and "gen a < gen a' \<or> cancelled a' \<or>
      (cancelled a \<longrightarrow> cancelled a') \<and> (\<forall>v. fst (nextSegment a v) = Block \<longrightarrow> fst (nextSegment a' v) = Block)"
  shows "sleep_inv \<lparr>asm = a', ws = p\<rparr>"
  using sleep_frame [OF assms(1) _ assms(2,3), of Idle "length p"] by (simp add: list_update_beyond)

lemma finalizeLocked_gen: "gen a \<le> gen (finalizeLocked a)"
  by (simp add: finalizeLocked_def failLocked_def notifyLocked_def fixSize_def Let_def)

lemma completeSegment_gen: "completeSegment a j ext n = (a', None) \<Longrightarrow> gen a < gen a'"
  using finalizeLocked_gen [of "markDone a j ext n"]
  by (auto simp: completeSegment_def notifyLocked_def markDone_def addCoveredLocked_def Let_def split: if_splits)

lemma failLocked_gen: "gen a \<le> gen (failLocked a e)" "gen a < gen (failLocked a e) \<or> failLocked a e = a"
  by (auto simp: failLocked_def notifyLocked_def)

lemma workerExit_gen:
  "gen a \<le> gen (workerExit a c)" "gen a < gen (workerExit a c) \<or> workerExit a c = a\<lparr>alive := alive a - 1\<rparr>"
  by (auto simp: workerExit_def failLocked_def notifyLocked_def Let_def)

lemma openSegment_gen: "openSegment a w h = (a', r) \<Longrightarrow> gen a < gen a' \<or> a' = a"
  by (auto simp: openSegment_def openLayout_def notifyLocked_def split: if_splits)

lemma nextSegment_alive: "fst (nextSegment (a\<lparr>alive := k\<rparr>) v) = fst (nextSegment a v)"
  by (simp add: nextSegment_def pickLocked_def split: option.splits)

text \<open>The condition of the frame rule for the sections that may record a failure.\<close>

lemma failLocked_quiet:
  "gen a < gen (failLocked a e) \<or> cancelled (failLocked a e) \<or> (cancelled a \<longrightarrow> cancelled (failLocked a e)) \<and>
     (\<forall>v. fst (nextSegment a v) = Block \<longrightarrow> fst (nextSegment (failLocked a e) v) = Block)"
  using failLocked_gen(2) [of a e] by (elim disjE) simp_all

lemma workerExit_quiet:
  "gen a < gen (workerExit a c) \<or> cancelled (workerExit a c) \<or> (cancelled a \<longrightarrow> cancelled (workerExit a c)) \<and>
     (\<forall>v. fst (nextSegment a v) = Block \<longrightarrow> fst (nextSegment (workerExit a c) v) = Block)"
  using workerExit_gen(2) [of a c] by (elim disjE) (simp_all add: nextSegment_alive)

text \<open>Whoever finds a segment proves that nobody was rightly asleep.\<close>

lemma sleep_pick:
  assumes "sleep_inv \<lparr>asm = a, ws = p\<rparr>" "cnt_inv \<lparr>asm = a, ws = p\<rparr>" "nextSegment a w = (Take j, a')"
  shows "sleep_inv \<lparr>asm = a', ws = p[w := Holding j]\<rparr>"
proof -
  have n: "anext a < length (state a)" using assms(2) by (simp add: cnt_inv_def Let_def)
  note T = nextSegment_Take [OF assms(3) n]
  have "cnt (\<lambda>x. x = segPending) (state a) > 0" using T unfolding cnt_pos by blast
  then have "\<not> blocked a" using assms(2) T by (auto simp: blocked_def cnt_inv_def Let_def)
  then have "fst (nextSegment a v) \<noteq> Block" for v using nextSegment_blocks [OF assms(2)] by blast
  then show ?thesis using T by (intro sleep_frame [OF assms(1)]) auto
qed

lemma sleep_step:
  assumes "asm_step s t" "cnt_inv s" "claim_inv s" "sleep_inv s"
  shows "sleep_inv t"
  using assms
proof (induction rule: asm_step.induct)
  case (a_pick w p a j a')
  then show ?case by (intro sleep_pick)
next
  case (a_block w p a a')
  note B = nextSegment_Block [OF a_block.hyps(3)]
  have "(\<forall>g. p[w := Sleeping (gen a)] ! v = Sleeping g \<longrightarrow> g \<le> gen a) \<and>
      (asleep a (p[w := Sleeping (gen a)] ! v) \<longrightarrow> fst (nextSegment a v) = Block)" if "v < length p" for v
    using a_block.prems(3) a_block.hyps(3) that by (cases "v = w") (simp_all add: sleep_inv_def)
  then show ?case by (simp add: B sleep_inv_def)
next
  case (a_leave w p a a')
  with nextSegment_Leave [OF a_leave.hyps(3)] show ?case by (intro sleep_frame [OF a_leave.prems(3)]) auto
next
  case (a_open w p j a h a' sw ext)
  with openSegment_gen [OF a_open.hyps(3)] show ?case by (intro sleep_frame [OF a_open.prems(3)]) auto
next
  case (a_openErr w p j a h a' e)
  with openSegment_gen [OF a_openErr.hyps(3)] show ?case by (intro sleep_frame [OF a_openErr.prems(3)]) auto
next
  case (a_finish w p j ext lim n a a')
  with completeSegment_gen [OF a_finish.hyps(5)] show ?case by (intro sleep_frame [OF a_finish.prems(3)]) auto
next
  case (a_requeue w p j a)
  then show ?case by (intro sleep_frame [OF a_requeue.prems(3)]) (auto simp: requeue_def notifyLocked_def)
next
  case (a_failSeg w p j a)
  show ?case by (rule sleep_frame [OF a_failSeg.prems(3) _ failLocked_gen(1) failLocked_quiet]) simp
next
  case (a_exit w p c a)
  show ?case by (rule sleep_frame [OF a_exit.prems(3) _ workerExit_gen(1) workerExit_quiet]) simp
next
  case (a_cancel a p)
  show ?case unfolding Cancel_def by (rule sleep_frame0 [OF a_cancel.prems(3) failLocked_gen(1) failLocked_quiet])
next
  case (a_parentDone a p)
  then show ?case by (intro sleep_frame0 [OF a_parentDone.prems(3)]) auto
next
  case (a_afterFunc a p)
  show ?case by (rule sleep_frame0 [OF a_afterFunc.prems(3) failLocked_gen(1) failLocked_quiet])
next
  case (a_hint a pos a' p)
  obtain k where k: "a' = a\<lparr>anext := k\<rparr>" using hintLocked_Ok [OF a_hint.hyps] by blast
  have c: "cnt_inv \<lparr>asm = a', ws = p\<rparr>"
    by (rule cnt_step [OF asm_step.a_hint [OF a_hint.hyps] a_hint.prems(1,2)])
  have "fst (nextSegment a' v) = Block \<longleftrightarrow> fst (nextSegment a v) = Block" for v
    unfolding nextSegment_blocks [OF c] nextSegment_blocks [OF a_hint.prems(1)] by (simp add: blocked_def k)
  with k show ?case by (intro sleep_frame0 [OF a_hint.prems(3)]) simp_all
qed (auto intro!: sleep_frame)

definition asm_inv :: "asm_sys \<Rightarrow> bool" where
  "asm_inv s \<longleftrightarrow> cnt_inv s \<and> claim_inv s \<and> lay_inv s \<and> sleep_inv s"

lemma sleep_start: "asm_start s \<Longrightarrow> sleep_inv s"
  by (auto simp: asm_start_def sleep_inv_def)

interpretation asm_run: inv_system asm_start asm_step asm_inv
  by unfold_locales (auto simp: asm_inv_def intro: cnt_start claim_start lay_start sleep_start
    cnt_step claim_step lay_step sleep_step)

section \<open>Written bytes stay written\<close>

lemma finish_grows:
  assumes I: "asm_inv \<lparr>asm = a, ws = p\<rparr>" and "w < length p" "p ! w = Opened j ext lim" "0 \<le> n"
    and C: "completeSegment a j ext n = (a', None)"
  shows "bytes_of (covered a) \<subseteq> bytes_of (covered a')"
proof -
  have L: "lay_ok a" "opened_ok a w (Opened j ext lim)"
    using I assms(2,3) by (auto simp: asm_inv_def lay_inv_def dest!: spec [of _ w])
  note F = completeSegment_fields(10) [OF C] and E = completeSegment_eq(2) [OF C]
  show ?thesis
  proof (cases "layout a")
    case layoutUnknown
    with L show ?thesis by simp
  next
    case layoutParallel
    with L E have e: "fst ext < snd ext" "0 < n" "ranges_ok (covered a)" by (auto simp: lay_ok_def)
    from addCovered_ok [OF e(3,1)] show ?thesis
      unfolding F markDone_par(1) [OF layoutParallel e(2)] by blast
  next
    case layoutSequential
    with L have s: "covered a = seq_cover (seqOff a)" "0 \<le> seqOff a" "fst ext = seqOff a" by (auto simp: lay_ok_def)
    from markDone_seq(2) [OF _ s assms(4), of j] layoutSequential s assms(4) show ?thesis
      unfolding F by (auto simp: seq_cover_def)
  qed
qed

lemma covered_step:
  assumes "asm_step s t" "asm_inv s"
  shows "bytes_of (covered (asm s)) \<subseteq> bytes_of (covered (asm t))"
  using assms
proof (induction rule: asm_step.induct)
  case (a_pick w p a j a')
  have n: "anext a < length (state a)" using a_pick.prems by (simp add: asm_inv_def cnt_inv_def)
  from nextSegment_Take [OF a_pick.hyps(3) n] show ?case by auto
next
  case (a_leave w p a a')
  with nextSegment_Leave [OF a_leave.hyps(3)] show ?case by simp
next
  case (a_block w p a a')
  with nextSegment_Block [OF a_block.hyps(3)] show ?case by simp
next
  case (a_finish w p j ext lim n a a')
  from finish_grows [OF a_finish.prems a_finish.hyps(1,2,3,5)] show ?case by simp
next
  case (a_hint a pos a' p)
  from hintLocked_Ok [OF a_hint.hyps] show ?case by auto
qed (simp_all add: openSegment_fields requeue_def Cancel_def)

lemma covered_run:
  assumes "asm_step\<^sup>*\<^sup>* s t" "asm_inv s"
  shows "bytes_of (covered (asm s)) \<subseteq> bytes_of (covered (asm t))"
  using assms(1)
proof (induction rule: rtranclp_induct)
  case (step t u)
  from covered_step [OF step.hyps(2) asm_run.run_inv [OF step.hyps(1) assms(2)]] step.IH show ?case by blast
qed simp

lemma inv_ranges: "asm_inv s \<Longrightarrow> ranges_ok (covered (asm s))"
  by (cases "layout (asm s)") (auto simp: asm_inv_def lay_inv_def lay_ok_def ranges_ok_def seq_cover_def)

text \<open>The states in which the successive waits of a reader return: each is reached from the one before.\<close>

fun chained :: "asm_sys \<Rightarrow> asm_sys list \<Rightarrow> bool" where
  "chained s [] = True"
| "chained s (t # ts) = (asm_step\<^sup>*\<^sup>* s t \<and> chained t ts)"

lemma chained_last:
  "chained s ts \<Longrightarrow> asm_step\<^sup>*\<^sup>* s (last (s # ts))"
  by (induction ts arbitrary: s) (auto intro: rtranclp_trans)

lemma awaitRun_Ready:
  assumes "awaitRun a off = Ok (Ready r, a')" "ranges_ok (covered a)"
  shows "off < r \<and> {off..<r} \<subseteq> bytes_of (covered a)"
proof (cases "runIndexLocked a off")
  case None
  with assms(1) show ?thesis by (auto simp: awaitRun_def bnd_eq_Ok split: option.splits if_splits)
next
  case (Some i)
  with assms runIndexLocked_Some [OF assms(2) Some] show ?thesis by (auto simp: awaitRun_def)
qed

lemma waitRuns_covered:
  assumes "waitRuns (map asm ss) off e = Some None" "chained s ss" "asm_inv s"
  shows "{off..<e} \<subseteq> bytes_of (covered (asm (last (s # ss))))"
  using assms
proof (induction ss arbitrary: off s)
  case Nil
  then show ?case by (auto split: if_splits)
next
  case (Cons t ts)
  have t: "asm_inv t" using Cons.prems(2,3) asm_run.run_inv by auto
  show ?case
  proof (cases "off < e")
    case True
    with Cons.prems(1) obtain r a' where r: "awaitRun (asm t) off = Ok (Ready r, a')"
      and w: "waitRuns (map asm ts) r e = Some None"
      by (auto split: outcome.splits wait.splits)
    have "{r..<e} \<subseteq> bytes_of (covered (asm (last (t # ts))))"
      using Cons.IH [OF w _ t] Cons.prems(2) by simp
    moreover have "{off..<r} \<subseteq> bytes_of (covered (asm (last (t # ts))))"
      using awaitRun_Ready [OF r inv_ranges [OF t]] covered_run [OF chained_last [of t ts] t] Cons.prems(2) by auto
    ultimately show ?thesis by fastforce
  qed simp
qed

text \<open>When no worker holds a segment, whoever asks gets one or leaves.\<close>

lemma no_blocked_alone:
  assumes "cnt_inv s" "claim_inv s" "lay_inv s" and H: "\<And>v. v < length (ws s) \<Longrightarrow> holds (ws s ! v) = None"
  shows "fst (nextSegment (asm s) w) \<noteq> Block"
proof
  assume "fst (nextSegment (asm s) w) = Block"
  then have b: "blocked (asm s)"
    using nextSegment_blocks [of "asm s" "ws s" w] assms(1) by (cases s) simp
  have "Some j \<notin> holds ` set (ws s)" for j
  proof
    assume "Some j \<in> holds ` set (ws s)"
    then obtain v where "v < length (ws s)" "holds (ws s ! v) = Some j" by (metis image_iff in_set_conv_nth)
    with H [of v] show False by simp
  qed
  then have noinf: "state (asm s) ! j \<noteq> segInflight" if "j < length (state (asm s))" for j
    using assms(2) b that by (auto simp: claim_inv_def claims_ok_def blocked_def)
  have n: "anext (asm s) < length (state (asm s))" using assms(1) by (simp add: cnt_inv_def Let_def)
  have "cnt (\<lambda>x. x \<noteq> segDone) (state (asm s)) > 0" using assms(1) b by (auto simp: cnt_inv_def Let_def blocked_def)
  then obtain j where j: "j < length (state (asm s))" "state (asm s) ! j \<noteq> segDone" unfolding cnt_pos by blast
  with noinf have "state (asm s) ! j = segPending" by (metis segStatus.exhaust)
  then have "pending (asm s) > 0"
    using assms(1) j(1) cnt_pos [of "\<lambda>x. x = segPending" "state (asm s)"] by (auto simp: cnt_inv_def Let_def)
  moreover have "layout (asm s) = layoutUnknown \<longrightarrow> state (asm s) ! 0 = segPending"
    using assms(3) n noinf [of 0] unfolding lay_inv_def lay_ok_def
    by (metis (full_types) gr_implies_not0 not_gr_zero segStatus.exhaust)
  ultimately show False using b by (auto simp: blocked_def split: if_splits)
qed

section \<open>Properties\<close>

text \<open>C10: A complete assembly is complete: the written ranges are exactly the bytes of the file, whose size is known and
  within the declared cap, every segment is done, and a reader of any byte of the file gets the run up to its end
  without waiting.\<close>

theorem asm_complete_tiles:
  assumes "reach asm_start asm_step s" "complete (asm s)"
  shows "let a = asm s in sizeKnown a \<and> 0 \<le> total a \<and> total a \<le> capBytes a \<and> bytes_of (covered a) = {0..<total a} \<and>
    (\<forall>i < length (state a). state a ! i = segDone) \<and>
    (\<forall>off. 0 \<le> off \<and> off < total a \<longrightarrow> awaitRun a off = Ok (Ready (total a), a))"
proof -
  have I: "asm_inv s" by (rule asm_run.reach_inv [OF assms(1)])
  have L: "lay_ok (asm s)" "layout (asm s) \<noteq> layoutUnknown" using I assms(2) by (auto simp: asm_inv_def lay_inv_def lay_ok_def)
  have k: "sizeKnown (asm s)" "tiled (asm s)" "0 \<le> total (asm s)" "total (asm s) \<le> capBytes (asm s)"
    using L assms(2) by (cases "layout (asm s)"; auto simp: lay_ok_def)+
  have r: "remaining (asm s) = 0" "remaining (asm s) = cnt (\<lambda>x. x \<noteq> segDone) (state (asm s))"
    using I assms(2) by (auto simp: asm_inv_def cnt_inv_def Let_def)
  have d: "\<forall>i < length (state (asm s)). state (asm s) ! i = segDone"
    using r cnt_pos [of "\<lambda>x. x \<noteq> segDone" "state (asm s)"] by auto
  have c: "covered (asm s) = (if total (asm s) = 0 then [] else [(0, total (asm s))])"
  proof (cases "covered (asm s)")
    case Nil
    with k(2) show ?thesis by (simp add: tiled_def)
  next
    case (Cons e es)
    with k(2) inv_ranges [OF I] show ?thesis by (auto simp: tiled_def ranges_ok_def prod_eq_iff)
  qed
  have b: "bytes_of (covered (asm s)) = {0..<total (asm s)}" using c by simp
  have "awaitRun (asm s) off = Ok (Ready (total (asm s)), asm s)" if "0 \<le> off" "off < total (asm s)" for off
    using that c by (simp add: awaitRun_def runIndexLocked_def sortSearch.simps)
  with k b d show ?thesis by (simp add: Let_def)
qed

text \<open>C11: A reader never gets bytes that are not there: when \<open>WaitRange\<close> reports success for a range whose end fits in
  63 bits, however the workers, a cancellation and other readers ran between its waits, every byte of the range is
  written, then and forever after.\<close>

theorem asm_waitRange_sound:
  assumes "reach asm_start asm_step s" "chained s ss" "WaitRange (asm s) (map asm ss) off n = Some None"
    and "- (2 ^ 63) \<le> off" "off + n < 2 ^ 63" and "asm_step\<^sup>*\<^sup>* (last (s # ss)) t"
  shows "{off..<off + n} \<subseteq> bytes_of (covered (asm t))"
proof (cases "n \<le> 0")
  case False
  have I: "asm_inv s" by (rule asm_run.reach_inv [OF assms(1)])
  have "i64 (off + n) = off + n" using False assms(4,5) by (intro i64_id) simp_all
  with False assms(3) have "waitRuns (map asm ss) off (off + n) = Some None"
    by (auto simp: WaitRange_def Let_def split: if_splits)
  from waitRuns_covered [OF this assms(2) I]
  have "{off..<off + n} \<subseteq> bytes_of (covered (asm (last (s # ss))))" .
  also have "\<dots> \<subseteq> bytes_of (covered (asm t))"
    by (rule covered_run [OF assms(6) asm_run.run_inv [OF chained_last [OF assms(2)] I]])
  finally show ?thesis .
qed simp

text \<open>The bound on the end of the range is needed: \<open>off + n\<close> is computed in 64 bits, a range that ends beyond wraps to
  a negative end, and the call succeeds at once on an assembly that has nothing.\<close>

lemma waitRange_wraps: "covered a = [] \<Longrightarrow> 0 \<le> total a \<Longrightarrow> WaitRange a [] (2 ^ 63 - 1) 1 = Some None"
  by (simp add: WaitRange_def i64_def)

text \<open>C12: No deadlock and no lost wake-up: a worker that sleeps on a channel that was not closed would find nothing to
  do if it looked, as long as an assembly has neither completed nor failed some worker is alive, and as long as
  some worker is alive, in whatever state of the assembly, some worker alive is awake.\<close>

theorem asm_no_deadlock:
  assumes "reach asm_start asm_step s"
  shows "(\<forall>w < length (ws s). asleep (asm s) (ws s ! w) \<longrightarrow> fst (nextSegment (asm s) w) = Block) \<and>
    (\<not> complete (asm s) \<and> aerr (asm s) = None \<longrightarrow> (\<exists>w < length (ws s). ws s ! w \<noteq> Gone)) \<and>
    ((\<exists>w < length (ws s). ws s ! w \<noteq> Gone) \<longrightarrow>
       (\<exists>w < length (ws s). ws s ! w \<noteq> Gone \<and> \<not> asleep (asm s) (ws s ! w)))"
proof -
  have I: "cnt_inv s" "claim_inv s" "lay_inv s" "sleep_inv s"
    using asm_run.reach_inv [OF assms(1)] by (simp_all add: asm_inv_def)
  have S: "fst (nextSegment (asm s) w) = Block" if "w < length (ws s)" "asleep (asm s) (ws s ! w)" for w
    using I(4) that by (simp add: sleep_inv_def)
  have L: "\<exists>w < length (ws s). ws s ! w \<noteq> Gone" if "\<not> complete (asm s)" "aerr (asm s) = None"
  proof -
    have "cnt (\<lambda>x. x \<noteq> Gone) (ws s) > 0" using I(1) that by (auto simp: cnt_inv_def Let_def)
    then show ?thesis unfolding cnt_pos .
  qed
  have "\<exists>w < length (ws s). ws s ! w \<noteq> Gone \<and> \<not> asleep (asm s) (ws s ! w)" if w: "w < length (ws s)" "ws s ! w \<noteq> Gone" for w
  proof (rule ccontr)
    assume "\<not> ?thesis"
    then have B: "ws s ! v = Gone \<or> asleep (asm s) (ws s ! v)" if "v < length (ws s)" for v using that by blast
    then have "holds (ws s ! v) = None" if "v < length (ws s)" for v
      using B [OF that] by (cases "ws s ! v") auto
    with S [OF w(1)] B [OF w(1)] w(2) no_blocked_alone [OF I(1-3)] show False by blast
  qed
  with S L show ?thesis by blast
qed

text \<open>A file whose articles do not describe themselves is appended in order: while a segment is being written,
  every earlier segment is done, every later one is untouched, its bytes go to the end of what is written, and the
  written bytes are a prefix of the file.\<close>

theorem asm_sequential_in_order:
  assumes "reach asm_start asm_step s" "layout (asm s) = layoutSequential"
    and "w < length (ws s)" "ws s ! w = Opened j ext lim"
  shows "let a = asm s in (\<forall>i < j. state a ! i = segDone) \<and>
    (\<forall>i < length (state a). j < i \<longrightarrow> state a ! i = segPending) \<and> fst ext = seqOff a \<and> lim = capBytes a - seqOff a \<and>
    bytes_of (covered a) = {0..<seqOff a}"
proof -
  have I: "claim_inv s" "lay_inv s" using asm_run.reach_inv [OF assms(1)] by (simp_all add: asm_inv_def)
  have j: "j < length (state (asm s))" "state (asm s) ! j = segInflight"
    using I(1) assms(3,4) by (auto simp: claim_inv_def claims_ok_def)
  obtain k where k: "seq_order (asm s) k" using I(2) assms(2) by (auto simp: lay_inv_def lay_ok_def)
  have "j = k"
  proof (rule ccontr)
    assume "j \<noteq> k"
    with k j show False by (cases "j < k") (auto simp: seq_order_def)
  qed
  moreover have "opened_ok (asm s) w (Opened j ext lim)" "covered (asm s) = seq_cover (seqOff (asm s))"
    using I(2) assms(2-4) by (auto simp: lay_inv_def lay_ok_def)
  ultimately show ?thesis using k assms(2) by (auto simp: seq_order_def Let_def seq_cover_def)
qed

text \<open>\<open>addCoveredLocked\<close> is set union: it keeps the ranges sorted, disjoint, non-adjacent and non-empty, and the
  bytes they stand for become exactly the old bytes and the added extent.\<close>

theorem asm_addCovered_union:
  assumes "ranges_ok (covered a)" "fst e < snd e"
  shows "ranges_ok (covered (addCoveredLocked a e)) \<and>
    bytes_of (covered (addCoveredLocked a e)) = bytes_of (covered a) \<union> {fst e..<snd e}"
  using addCovered_ok [OF assms] by (simp add: addCoveredLocked_def)


section \<open>Witnesses\<close>

text \<open>One worker, a file of one article that describes itself: dial, claim, open, and the three bytes arrive.\<close>

definition demo0 :: Assembly where "demo0 = StartAssembly 3 1 1"
definition demo1 :: Assembly where "demo1 = snd (nextSegment demo0 0)"
definition demoHdr :: yencHeader where "demoHdr = noHeader\<lparr>Size := 3\<rparr>"
definition demo2 :: Assembly where "demo2 = fst (openSegment demo1 0 demoHdr)"
definition demo3 :: Assembly where "demo3 = fst (completeSegment demo2 0 (0, 3) 3)"
definition demo3c :: Assembly where "demo3c = fst (completeSegment (Cancel demo2) 0 (0, 3) 3)"
definition demoSeq :: Assembly where "demoSeq = fst (openSegment demo1 0 noHeader)"

lemmas demo_defs = demo0_def demo1_def demoHdr_def demo2_def demo3_def demo3c_def demoSeq_def StartAssembly_def sizeCap_def
  workerCount_def defaultConnections_def maxConnections_def nextSegment_def openSegment_def openLayout_def openExtent_def
  selfDescribing_def noHeader_def mkWriter_def completeSegment_def markDone_def addCoveredLocked_def
  finalizeLocked_def fixSize_def tiled_def notifyLocked_def Cancel_def failLocked_def Let_def

lemma addCovered_Nil: "addCovered [] e = [e]"
  by (simp add: addCovered_def sortSearch.simps mergeLoop.simps)

lemma demo_reach1: "reach asm_start asm_step \<lparr>asm = demo1, ws = [Holding 0]\<rparr>"
proof -
  have "asm_start \<lparr>asm = demo0, ws = [Dialing]\<rparr>"
    unfolding asm_start_def by (intro exI [of _ 3] exI [of _ 1] exI [of _ 1]) (simp add: demo_defs)
  then have "reach asm_start asm_step \<lparr>asm = demo0, ws = [Dialing]\<rparr>" by (rule reach_start)
  moreover have "asm_step \<lparr>asm = demo0, ws = [Dialing]\<rparr> \<lparr>asm = demo0, ws = [Idle]\<rparr>"
    using a_dialled [of 0 "[Dialing]" demo0] by simp
  ultimately have "reach asm_start asm_step \<lparr>asm = demo0, ws = [Idle]\<rparr>" by (rule reach_step)
  moreover have "asm_step \<lparr>asm = demo0, ws = [Idle]\<rparr> \<lparr>asm = demo1, ws = [Holding 0]\<rparr>"
    using a_pick [of 0 "[Idle]" demo0 0 demo1] by (simp add: demo_defs)
  ultimately show ?thesis by (rule reach_step)
qed

lemma demo_reach2: "reach asm_start asm_step \<lparr>asm = demo2, ws = [Opened 0 (0, 3) 3]\<rparr>"
proof -
  have "asm_step \<lparr>asm = demo1, ws = [Holding 0]\<rparr> \<lparr>asm = demo2, ws = [Opened 0 (0, 3) 3]\<rparr>"
    using a_open [of 0 "[Holding 0]" 0 demo1 demoHdr demo2 "mkWriter 0 3" "(0, 3)"] by (simp add: demo_defs)
  with demo_reach1 show ?thesis by (rule reach_step)
qed

lemma demo_reach_seq: "reach asm_start asm_step \<lparr>asm = demoSeq, ws = [Opened 0 (0, 0) 3]\<rparr>"
proof -
  have "asm_step \<lparr>asm = demo1, ws = [Holding 0]\<rparr> \<lparr>asm = demoSeq, ws = [Opened 0 (0, 0) 3]\<rparr>"
    using a_open [of 0 "[Holding 0]" 0 demo1 noHeader demoSeq "mkWriter 0 3" "(0, 0)"] by (simp add: demo_defs)
  with demo_reach1 show ?thesis by (rule reach_step)
qed

lemma demo_finish: "asm_step \<lparr>asm = demo2, ws = [Opened 0 (0, 3) 3]\<rparr> \<lparr>asm = demo3, ws = [Idle]\<rparr>"
  using a_finish [of 0 "[Opened 0 (0, 3) 3]" 0 "(0, 3)" 3 3 demo2 demo3]
  by (simp add: demo_defs addCovered_Nil)

lemma demo_reach3: "reach asm_start asm_step \<lparr>asm = demo3, ws = [Idle]\<rparr>"
  using demo_reach2 demo_finish by (rule reach_step)

lemma demo3_fields: "complete demo3" "sizeKnown demo3" "total demo3 = 3" "covered demo3 = [(0, 3)]"
  by (simp_all add: demo_defs addCovered_Nil)

theorem asm_complete_tiles_witness:
  "complete demo3 \<and> bytes_of (covered demo3) = {0..<3} \<and> awaitRun demo3 1 = Ok (Ready 3, demo3)"
  using asm_complete_tiles [OF demo_reach3] demo3_fields by (simp add: Let_def)

theorem asm_waitRange_sound_witness:
  "WaitRange demo2 [demo3] 1 2 = Some None \<and> {1..<3} \<subseteq> bytes_of (covered demo3)"
proof -
  have W: "WaitRange demo2 [demo3] 1 2 = Some None"
    using demo3_fields by (simp add: WaitRange_def awaitRun_def runIndexLocked_def sortSearch.simps)
      (simp add: demo_defs)
  show ?thesis
    using asm_waitRange_sound [OF demo_reach2, of "[\<lparr>asm = demo3, ws = [Idle]\<rparr>]" 1 2 "\<lparr>asm = demo3, ws = [Idle]\<rparr>"]
      r_into_rtranclp [of asm_step, OF demo_finish] W by simp
qed

text \<open>Two workers, two segments: while one fetches the first article the other one sleeps; when the first loses its
  connection and requeues the article, the sleeper's channel is closed.\<close>

definition pair0 :: Assembly where "pair0 = StartAssembly 3 2 2"
definition pair1 :: Assembly where "pair1 = snd (nextSegment pair0 0)"

lemmas pair_defs = pair0_def pair1_def StartAssembly_def sizeCap_def workerCount_def defaultConnections_def
  maxConnections_def nextSegment_def Let_def

lemma pair_reach: "reach asm_start asm_step \<lparr>asm = pair1, ws = [Holding 0, Sleeping 0]\<rparr>"
proof -
  have "asm_start \<lparr>asm = pair0, ws = [Dialing, Dialing]\<rparr>"
    unfolding asm_start_def by (intro exI [of _ 3] exI [of _ 2] exI [of _ 2]) (simp add: pair_defs numeral_2_eq_2)
  then have "reach asm_start asm_step \<lparr>asm = pair0, ws = [Dialing, Dialing]\<rparr>" by (rule reach_start)
  moreover have "asm_step \<lparr>asm = pair0, ws = [Dialing, Dialing]\<rparr> \<lparr>asm = pair0, ws = [Idle, Dialing]\<rparr>"
    using a_dialled [of 0 "[Dialing, Dialing]" pair0] by simp
  ultimately have "reach asm_start asm_step \<lparr>asm = pair0, ws = [Idle, Dialing]\<rparr>" by (rule reach_step)
  moreover have "asm_step \<lparr>asm = pair0, ws = [Idle, Dialing]\<rparr> \<lparr>asm = pair0, ws = [Idle, Idle]\<rparr>"
    using a_dialled [of 1 "[Idle, Dialing]" pair0] by simp
  ultimately have "reach asm_start asm_step \<lparr>asm = pair0, ws = [Idle, Idle]\<rparr>" by (rule reach_step)
  moreover have "asm_step \<lparr>asm = pair0, ws = [Idle, Idle]\<rparr> \<lparr>asm = pair1, ws = [Holding 0, Idle]\<rparr>"
    using a_pick [of 0 "[Idle, Idle]" pair0 0 pair1] by (simp add: pair_defs)
  ultimately have "reach asm_start asm_step \<lparr>asm = pair1, ws = [Holding 0, Idle]\<rparr>" by (rule reach_step)
  moreover have "asm_step \<lparr>asm = pair1, ws = [Holding 0, Idle]\<rparr> \<lparr>asm = pair1, ws = [Holding 0, Sleeping 0]\<rparr>"
    using a_block [of 1 "[Holding 0, Idle]" pair1 pair1] by (simp add: pair_defs numeral_2_eq_2)
  ultimately show ?thesis by (rule reach_step)
qed

lemma pair_requeue:
  "reach asm_start asm_step \<lparr>asm = requeue pair1 0, ws = [Retiring True, Sleeping 0]\<rparr>"
proof -
  have "asm_step \<lparr>asm = pair1, ws = [Holding 0, Sleeping 0]\<rparr>
      \<lparr>asm = requeue pair1 0, ws = [Retiring True, Sleeping 0]\<rparr>"
    using a_requeue [of 0 "[Holding 0, Sleeping 0]" 0 pair1] by simp
  with pair_reach show ?thesis by (rule reach_step)
qed

theorem asm_no_deadlock_witness:
  "asleep pair1 (Sleeping 0) \<and> fst (nextSegment pair1 1) = Block \<and>
   \<not> asleep (requeue pair1 0) (Sleeping 0) \<and>
   (\<exists>w < 2. [Retiring True, Sleeping 0] ! w \<noteq> Gone \<and> \<not> asleep (requeue pair1 0) ([Retiring True, Sleeping 0] ! w))"
proof -
  have a: "asleep pair1 (Sleeping 0)" by (simp add: pair_defs)
  have b: "\<not> asleep (requeue pair1 0) (Sleeping 0)" by (simp add: pair_defs requeue_def notifyLocked_def)
  have "fst (nextSegment pair1 1) = Block"
    using asm_no_deadlock [OF pair_reach] a by (auto dest: spec [of _ 1])
  moreover have "\<exists>w < 2. [Retiring True, Sleeping 0] ! w \<noteq> Gone \<and>
      \<not> asleep (requeue pair1 0) ([Retiring True, Sleeping 0] ! w)"
    using asm_no_deadlock [OF pair_requeue] by (simp add: numeral_2_eq_2) (metis nth_Cons_0 phase.distinct zero_less_Suc)
  ultimately show ?thesis using a b by blast
qed

theorem asm_sequential_in_order_witness:
  "layout demoSeq = layoutSequential \<and> seqOff demoSeq = 0 \<and> bytes_of (covered demoSeq) = {}"
proof -
  have "layout demoSeq = layoutSequential" by (simp add: demo_defs)
  with asm_sequential_in_order [OF demo_reach_seq, of 0 0 "(0, 0)" 3] show ?thesis by (simp add: Let_def)
qed

theorem asm_addCovered_union_witness:
  "bytes_of (covered (addCoveredLocked demo3 (5, 7))) = bytes_of (covered demo3) \<union> {5..<7}"
  using asm_addCovered_union [of demo3 "(5, 7)"] demo3_fields by (simp add: ranges_ok_def)

text \<open>A cancellation that arrives after the last article was decoded and before it is recorded leaves an assembly
  that is complete and nevertheless reports the cancellation as its error.\<close>

theorem asm_complete_with_error:
  "\<exists>s. reach asm_start asm_step s \<and> complete (asm s) \<and> aerr (asm s) = Some ErrCanceled"
proof -
  have "asm_step \<lparr>asm = demo2, ws = [Opened 0 (0, 3) 3]\<rparr> \<lparr>asm = Cancel demo2, ws = [Opened 0 (0, 3) 3]\<rparr>"
    by (rule a_cancel)
  with demo_reach2 have "reach asm_start asm_step \<lparr>asm = Cancel demo2, ws = [Opened 0 (0, 3) 3]\<rparr>" by (rule reach_step)
  moreover have "asm_step \<lparr>asm = Cancel demo2, ws = [Opened 0 (0, 3) 3]\<rparr> \<lparr>asm = demo3c, ws = [Idle]\<rparr>"
    using a_finish [of 0 "[Opened 0 (0, 3) 3]" 0 "(0, 3)" 3 3 "Cancel demo2" demo3c]
    by (simp add: demo_defs addCovered_Nil)
  ultimately have "reach asm_start asm_step \<lparr>asm = demo3c, ws = [Idle]\<rparr>" by (rule reach_step)
  moreover have "complete demo3c \<and> aerr demo3c = Some ErrCanceled"
    by (simp add: demo_defs addCovered_Nil)
  ultimately show ?thesis by force
qed

end
