(* ===== verification/Nzb_Session.thy ===== *)
theory Nzb_Session
  imports Nzb_Assembly "HOL-Library.Multiset"
begin

text \<open>
  \<open>internal/nzb/nzb.go\<close>, \<open>session.go\<close> and the article fetch of \<open>nntp.go\<close>: parsing an NZB into files, and the
  sequential download \<open>AssembleFile\<close> through a size-capped writer, with its one transparent reconnect per segment.
  The XML decoder, the subject regexp, \<open>sort.Slice\<close>, dialling and the connection are parameters.
\<close>

section \<open>Parsing an NZB\<close>

record nzbSegment =
  nsMessageID :: "byte list"
  nsBytes :: int
  nsNumber :: int

record nzbFile =
  nfSubject :: "byte list"
  nfSegments :: "nzbSegment list"

record Segment =
  MessageID :: "byte list"
  Bytes :: int
  Number :: int

record File =
  Subject :: "byte list"
  Name :: "byte list"
  Segments :: "Segment list"
  FSize :: int

text \<open>\<open>strings.TrimSpace\<close> on ASCII text.\<close>

definition trimSpace :: "byte list \<Rightarrow> byte list" where
  "trimSpace s = rev (dropWhile isSpaceB (rev (dropWhile isSpaceB s)))"

text \<open>\<open>unmarshal\<close> is \<open>xml.Unmarshal\<close> into \<open>nzbRoot\<close>, \<open>quoted\<close> the first submatch of \<open>quotedNameRE\<close>, and \<open>sortBy\<close> is
  \<open>sort.Slice\<close> with the comparison on \<open>Number\<close>.\<close>

definition parseSeg :: "nzbSegment \<Rightarrow> Segment" where
  "parseSeg seg = \<lparr>MessageID = trimSpace (nsMessageID seg), Bytes = nsBytes seg, Number = nsNumber seg\<rparr>"

definition parseFile :: "(byte list \<Rightarrow> byte list option) \<Rightarrow> (Segment list \<Rightarrow> Segment list) \<Rightarrow> nzbFile \<Rightarrow> File" where
  "parseFile quoted sortBy f =
     \<lparr>Subject = nfSubject f,
      Name = (case quoted (nfSubject f) of Some m \<Rightarrow> m | None \<Rightarrow> trimSpace (nfSubject f)),
      Segments = sortBy (map parseSeg (nfSegments f)),
      FSize = fold (\<lambda>seg n. i64 (n + nsBytes seg)) (nfSegments f) 0\<rparr>"

definition Parse :: "(byte list \<Rightarrow> nzbFile list option) \<Rightarrow> (byte list \<Rightarrow> byte list option) \<Rightarrow>
    (Segment list \<Rightarrow> Segment list) \<Rightarrow> byte list \<Rightarrow> File list option" where
  "Parse unmarshal quoted sortBy data = map_option (map (parseFile quoted sortBy)) (unmarshal data)"

section \<open>The capped writer\<close>

text \<open>\<open>limitedWriter\<close> over a destination that accepts everything; \<open>lwOut\<close> is what reached it.\<close>

record limitedWriter =
  limit :: int
  written :: int
  lwOut :: "byte list"

definition lwWrite :: "limitedWriter \<Rightarrow> byte list \<Rightarrow> limitedWriter \<times> bool" where
  "lwWrite lw p =
     (if limit lw > 0 \<and> written lw \<ge> limit lw then (lw, False)
      else if limit lw > 0 \<and> int (length p) > limit lw - written lw then
        (let q = take (nat (limit lw - written lw)) p
         in (lw\<lparr>lwOut := lwOut lw @ q, written := written lw + int (length q)\<rparr>, False))
      else (lw\<lparr>lwOut := lwOut lw @ p, written := written lw + int (length p)\<rparr>, True))"

definition lw_ok :: "limitedWriter \<Rightarrow> bool" where
  "lw_ok lw \<longleftrightarrow> written lw = int (length (lwOut lw)) \<and> (limit lw > 0 \<longrightarrow> written lw \<le> limit lw)"

interpretation lww: writer lwWrite lwOut
  by unfold_locales (auto simp: lwWrite_def Let_def split: if_splits)

section \<open>Fetching an article\<close>

text \<open>What a connection does with \<open>BODY <id>\<close>: the command or its response fails (\<open>True\<close> for a connection error), or an
  article arrives, possibly cut short by a connection error.\<close>

datatype reply = Refused bool | Article "byte list" bool

datatype body_err = BadMessageID | NetErr bool | DecodeErr yenc_err bool

fun isConnErr :: "body_err \<Rightarrow> bool" where
  "isConnErr BadMessageID = False"
| "isConnErr (NetErr c) = c"
| "isConnErr (DecodeErr _ c) = c"

definition containsCRLF :: "byte list \<Rightarrow> bool" where
  "containsCRLF s \<longleftrightarrow> 13 \<in> set s \<or> 10 \<in> set s"

definition bracket :: "byte list \<Rightarrow> byte list" where
  "bracket mid = (if mid = [] \<or> hd mid \<noteq> 60 then 60 # mid @ [62] else mid)"

text \<open>The scanner's tokens when the article is cut short: the lines read so far, then the read error.\<close>

definition articleLines :: "byte list \<Rightarrow> bool \<Rightarrow> byte list option list" where
  "articleLines d trunc = scanLines d @ (if trunc then [None] else [])"

definition body :: "('c \<Rightarrow> byte list \<Rightarrow> 'c \<times> reply) \<Rightarrow> ('w \<Rightarrow> byte list \<Rightarrow> 'w \<times> bool) \<Rightarrow> (yencHeader \<Rightarrow> 'w option) \<Rightarrow>
    'c \<Rightarrow> byte list \<Rightarrow> 'c \<times> 'w ydec \<times> body_err option" where
  "body net wr open c mid =
     (if containsCRLF mid then (c, ystart, Some BadMessageID)
      else
        (case net c (bracket mid) of
           (c', Refused conn) \<Rightarrow> (c', ystart, Some (NetErr conn))
         | (c', Article d trunc) \<Rightarrow>
             (case yloop wr open (articleLines d trunc) ystart of
                (st, None) \<Rightarrow> (c', st, None)
              | (st, Some e) \<Rightarrow> (c', st, Some (DecodeErr e (e = LineTooLong \<and> trunc \<and> None \<notin> set (scanLines d)))))))"

text \<open>\<open>Body\<close>: the destination is \<open>w\<close>; afterwards it is what the decoder's writer left, or \<open>w\<close> when nothing was opened.\<close>

definition Body :: "('c \<Rightarrow> byte list \<Rightarrow> 'c \<times> reply) \<Rightarrow> ('w \<Rightarrow> byte list \<Rightarrow> 'w \<times> bool) \<Rightarrow> 'c \<Rightarrow> byte list \<Rightarrow> 'w \<Rightarrow>
    'c \<times> 'w \<times> body_err option" where
  "Body net wr c mid w =
     (case body net wr (\<lambda>_. Some w) c mid of
        (c', st, e) \<Rightarrow> (c', (case ydst st of Some b \<Rightarrow> fst b | None \<Rightarrow> w), e))"

section \<open>Sequential assembly\<close>

datatype session_err = NotFound | DialErr | SegmentErr body_err | ReconnectErr

definition fileNamed :: "File list \<Rightarrow> byte list \<Rightarrow> File option" where
  "fileNamed files name = find (\<lambda>f. Name f = name) files"

text \<open>The loop over the segments: the client slot of the session, the writer, and the result.\<close>

fun assembleSegs :: "('d \<Rightarrow> 'd \<times> 'c option) \<Rightarrow> ('c \<Rightarrow> byte list \<Rightarrow> 'c \<times> reply) \<Rightarrow> Segment list \<Rightarrow> 'd \<Rightarrow> 'c \<Rightarrow> limitedWriter \<Rightarrow>
    'd \<times> 'c option \<times> limitedWriter \<times> session_err option" where
  "assembleSegs dial net [] d c lw = (d, Some c, lw, None)"
| "assembleSegs dial net (seg # segs) d c lw =
     (case Body net lwWrite c (MessageID seg) lw of
        (c', lw', None) \<Rightarrow> assembleSegs dial net segs d c' lw'
      | (c', lw', Some e) \<Rightarrow>
          if \<not> isConnErr e \<or> written lw' \<noteq> written lw then (d, Some c', lw', Some (SegmentErr e))
          else
            (case dial d of
               (d', None) \<Rightarrow> (d', None, lw', Some ReconnectErr)
             | (d', Some c2) \<Rightarrow>
                 (case Body net lwWrite c2 (MessageID seg) lw' of
                    (c3, lw2, None) \<Rightarrow> assembleSegs dial net segs d' c3 lw2
                  | (c3, lw2, Some e2) \<Rightarrow> (d', Some c3, lw2, Some (SegmentErr e2)))))"

definition AssembleFile :: "('d \<Rightarrow> 'd \<times> 'c option) \<Rightarrow> ('c \<Rightarrow> byte list \<Rightarrow> 'c \<times> reply) \<Rightarrow> File list \<Rightarrow> byte list \<Rightarrow> 'd \<Rightarrow>
    'c option \<Rightarrow> 'd \<times> 'c option \<times> byte list \<times> session_err option" where
  "AssembleFile dial net files name d client =
     (case fileNamed files name of
        None \<Rightarrow> (d, client, [], Some NotFound)
      | Some f \<Rightarrow>
          (let lw = \<lparr>limit = sizeCap (FSize f), written = 0, lwOut = []\<rparr>
           in case (case client of Some c \<Rightarrow> (d, Some c) | None \<Rightarrow> dial d) of
                (d', None) \<Rightarrow> (d', None, [], Some DialErr)
              | (d', Some c) \<Rightarrow>
                  (case assembleSegs dial net (Segments f) d' c lw of
                     (d2, cl, lw', e) \<Rightarrow> (d2, cl, lwOut lw', e))))"


section \<open>What reaches the destination\<close>

text \<open>A property of the destination that every write keeps holds after a decode.\<close>

locale writer_inv = writer +
  fixes P :: "'a \<Rightarrow> bool"
  assumes keeps: "wr w p = (w', ok) \<Longrightarrow> P w \<Longrightarrow> P w'"
begin

lemma bflush_inv: "bflush wr b = (b', ok) \<Longrightarrow> P (fst b) \<Longrightarrow> P (fst b')"
  by (auto simp: bflush_def keeps split: if_splits prod.splits)

lemma bwrite_inv: "bwrite wr b p = (b', ok) \<Longrightarrow> P (fst b) \<Longrightarrow> P (fst b')"
proof (induction "length p * 2 + (if snd b = [] then 0 else 1)" arbitrary: b p rule: less_induct)
  case less
  let ?n = "yencWriteBuf - length (snd b)"
  show ?case
  proof (cases "length p > ?n \<and> snd b \<noteq> []")
    case True
    obtain b1 k where f: "bflush wr (fst b, snd b @ take ?n p) = (b1, k)" by fastforce
    have b1: "P (fst b1)" using bflush_inv [OF f] less.prems(2) by simp
    show ?thesis
    proof (cases "k \<and> snd b1 = []")
      case ok: True
      with True f less.prems have "bwrite wr b1 (drop ?n p) = (b', ok)"
        by (subst (asm) bwrite.simps) (simp add: Let_def)
      with True ok b1 show ?thesis by (intro less.hyps [of "drop ?n p" b1]) auto
    next
      case False
      with True f less.prems have "b' = b1" by (subst (asm) bwrite.simps) (simp add: Let_def)
      with b1 show ?thesis by simp
    qed
  next
    case False
    with less.prems show ?thesis by (subst (asm) bwrite.simps) (auto simp: keeps split: if_splits prod.splits)
  qed
qed

lemmas write_invs = bflush_inv [of "(_, _)" "(_, _)", unfolded fst_conv] bwrite_inv [of "(_, _)" _ "(_, _)", unfolded fst_conv]

definition dst_ok :: "'a ydec \<Rightarrow> bool" where
  "dst_ok st \<longleftrightarrow> (\<forall>b. ydst st = Some b \<longrightarrow> P (fst b))"

lemma ybind_inv:
  "ybind open st = Ok st' \<Longrightarrow> dst_ok st \<Longrightarrow> (\<And>h w. open h = Some w \<Longrightarrow> P w) \<Longrightarrow> dst_ok st' \<and> ydst st' \<noteq> None"
  by (auto simp: ybind_def dst_ok_def split: option.splits)

lemma dataLine_inv: "dataLine wr raw st = (st', e) \<Longrightarrow> dst_ok st \<Longrightarrow> ydst st \<noteq> None \<Longrightarrow> dst_ok st'"
  by (auto simp: dataLine_def dst_ok_def dest: write_invs split: option.splits prod.splits if_splits)

lemma endLine_inv: "endLine wr raw st = (st', e) \<Longrightarrow> dst_ok st \<Longrightarrow> ydst st \<noteq> None \<Longrightarrow> dst_ok st'"
  by (auto simp: endLine_def dst_ok_def Let_def dest: write_invs split: prod.splits)

lemma yloop_inv:
  assumes "\<And>h w. open h = Some w \<Longrightarrow> P w"
  shows "yloop wr open ls st = (st', e) \<Longrightarrow> dst_ok st \<Longrightarrow> dst_ok st'"
proof (induction ls arbitrary: st)
  case Nil
  have "P (fst (fst (bflush wr b)))" if "ydst st = Some b" for b
    using Nil.prems(2) that bflush_inv [of b "fst (bflush wr b)" "snd (bflush wr b)"] by (simp add: dst_ok_def)
  with Nil.prems(1) show ?case by (auto simp: dst_ok_def Let_def)
next
  case (Cons l ls)
  show ?case
  proof (cases l)
    case None
    with Cons.prems show ?thesis by simp
  next
    case l: (Some raw)
    have H: "dst_ok (st\<lparr>inBody := i, yhdr := h\<rparr>)" "dst_ok (st\<lparr>yhdr := h\<rparr>)" for i h
      using Cons.prems(2) by (simp_all add: dst_ok_def)
    show ?thesis
    proof (cases "ybind open st")
      case (Ok s)
      have B: "dst_ok s" "ydst s \<noteq> None" using ybind_inv [OF Ok Cons.prems(2)] assms by blast+
      obtain s1 e1 where d: "dataLine wr raw s = (s1, e1)" by fastforce
      have "dst_ok s1" using dataLine_inv [OF d] B by blast
      with Cons.prems l Ok d H Cons.IH B show ?thesis
        by (auto split: if_splits option.splits intro: endLine_inv)
    qed (use Cons.prems l H Cons.IH in \<open>auto split: if_splits\<close>)
  qed
qed

end

definition lw_from :: "limitedWriter \<Rightarrow> limitedWriter \<Rightarrow> bool" where
  "lw_from lw0 lw \<longleftrightarrow> lw_ok lw \<and> limit lw = limit lw0 \<and> (\<exists>q. lwOut lw = lwOut lw0 @ q)"

interpretation lwi: writer_inv lwWrite lwOut "lw_from lw0" for lw0
  by unfold_locales (auto simp: lw_from_def lw_ok_def lwWrite_def Let_def split: if_splits)

lemma Body_from:
  assumes "Body net lwWrite c mid lw = (c', lw', e)" "lw_ok lw"
  shows "lw_from lw lw'"
proof -
  have lw: "lw_from lw lw" using assms(2) by (simp add: lw_from_def)
  obtain st e' where b: "body net lwWrite (\<lambda>_. Some lw) c mid = (c', st, e')"
      "lw' = (case ydst st of Some b \<Rightarrow> fst b | None \<Rightarrow> lw)"
    using assms(1) by (auto simp: Body_def split: prod.splits)
  have "lwi.dst_ok lw st"
  proof (cases "st = ystart")
    case True
    then show ?thesis by (simp add: lwi.dst_ok_def ystart_def)
  next
    case False
    then obtain d trunc e2 where "yloop lwWrite (\<lambda>_. Some lw) (articleLines d trunc) ystart = (st, e2)"
      using b(1) by (auto simp: body_def split: if_splits prod.splits reply.splits option.splits)
    then show ?thesis
      by (rule lwi.yloop_inv [rotated]) (use lw in \<open>simp_all add: lwi.dst_ok_def ystart_def\<close>)
  qed
  with b(2) lw show ?thesis by (auto simp: lwi.dst_ok_def split: option.splits)
qed

text \<open>The bytes \<open>d\<close> are those of an article the server sent for the message id: its decoded data lines, with which its end line
  agrees.\<close>

definition decoded_from :: "('c \<Rightarrow> byte list \<Rightarrow> 'c \<times> reply) \<Rightarrow> byte list \<Rightarrow> byte list \<Rightarrow> bool" where
  "decoded_from net mid d \<longleftrightarrow> (\<exists>c c' art trunc. net c (bracket mid) = (c', Article art trunc) \<and> articleOf (articleLines art trunc) d)"

lemma Body_decoded:
  assumes "Body net lwWrite c mid lw = (c', lw', None)"
  shows "\<exists>d. lwOut lw' = lwOut lw @ d \<and> decoded_from net mid d"
proof -
  obtain st art trunc where n: "net c (bracket mid) = (c', Article art trunc)"
    and y: "yloop lwWrite (\<lambda>_. Some lw) (articleLines art trunc) ystart = (st, None)"
    and l: "lw' = (case ydst st of Some b \<Rightarrow> fst b | None \<Rightarrow> lw)"
    using assms by (auto simp: Body_def body_def split: if_splits prod.splits reply.splits option.splits)
  from lww.decode_article [OF y] obtain w d where
    "ydst st = Some (w, [])" "lwOut w = lwOut lw @ d" "articleOf (articleLines art trunc) d" by auto
  with n l show ?thesis unfolding decoded_from_def by auto
qed

lemma lw_from_same: "lw_from lw lw' \<Longrightarrow> lw_ok lw \<Longrightarrow> written lw' = written lw \<Longrightarrow> lwOut lw' = lwOut lw"
  by (auto simp: lw_from_def lw_ok_def)

lemma lw_from_trans: "lw_from a b \<Longrightarrow> lw_from b c \<Longrightarrow> lw_from a c"
  by (auto simp: lw_from_def)

lemma assembleSegs_sound:
  assumes "assembleSegs dial net segs d c lw = (d', cl, lw', e)" "lw_ok lw"
  shows "lw_from lw lw' \<and> (e = None \<longrightarrow>
    (\<exists>ds. list_all2 (\<lambda>seg b. decoded_from net (MessageID seg) b) segs ds \<and> lwOut lw' = lwOut lw @ concat ds))"
  using assms
proof (induction segs arbitrary: d c lw)
  case Nil
  then show ?case by (auto simp: lw_from_def)
next
  case (Cons seg segs)
  let ?R = "\<lambda>seg b. decoded_from net (MessageID seg) b"
  have go: ?case if B: "Body net lwWrite c0 (MessageID seg) lw0 = (c1, lw1, None)" and l0: "lw_from lw lw0" "lwOut lw0 = lwOut lw"
    and A: "assembleSegs dial net segs d0 c1 lw1 = (d', cl, lw', e)" for c0 c1 lw0 lw1 d0
  proof -
    have o0: "lw_ok lw0" using l0 by (simp add: lw_from_def)
    have f1: "lw_from lw0 lw1" by (rule Body_from [OF B o0])
    then have IH: "lw_from lw1 lw'" "e = None \<longrightarrow> (\<exists>ds. list_all2 ?R segs ds \<and> lwOut lw' = lwOut lw1 @ concat ds)"
      using Cons.IH [OF A] by (auto simp: lw_from_def [of lw0])
    obtain b where b: "lwOut lw1 = lwOut lw0 @ b" "?R seg b" using Body_decoded [OF B] by blast
    have "\<exists>ds. list_all2 ?R (seg # segs) ds \<and> lwOut lw' = lwOut lw @ concat ds" if en: "e = None"
    proof -
      obtain ds where "list_all2 ?R segs ds" "lwOut lw' = lwOut lw1 @ concat ds" using IH(2) [rule_format, OF en] by blast
      with b l0(2) show ?thesis by (intro exI [of _ "b # ds"]) simp
    qed
    with lw_from_trans [OF lw_from_trans [OF l0(1) f1] IH(1)] show ?thesis by blast
  qed
  obtain c1 lw1 e1 where B: "Body net lwWrite c (MessageID seg) lw = (c1, lw1, e1)" by (metis prod_cases3)
  have self: "lw_from lw lw" using Cons.prems(2) by (simp add: lw_from_def)
  note f1 = Body_from [OF B Cons.prems(2)]
  show ?case
  proof (cases e1)
    case None
    with B Cons.prems(1) go [OF _ self refl] show ?thesis by auto
  next
    case (Some er)
    show ?thesis
    proof (cases "\<not> isConnErr er \<or> written lw1 \<noteq> written lw")
      case True
      with B Some Cons.prems(1) f1 show ?thesis by auto
    next
      case False
      have same: "lwOut lw1 = lwOut lw" using lw_from_same [OF f1 Cons.prems(2)] False by blast
      obtain d2 oc where di: "dial d = (d2, oc)" by fastforce
      show ?thesis
      proof (cases oc)
        case None
        with B Some False di Cons.prems(1) f1 show ?thesis by auto
      next
        case oc: (Some c2)
        obtain c3 lw2 e2 where B2: "Body net lwWrite c2 (MessageID seg) lw1 = (c3, lw2, e2)" by (metis prod_cases3)
        have f2: "lw_from lw lw2" using lw_from_trans [OF f1 Body_from [OF B2]] f1 by (simp add: lw_from_def)
        show ?thesis
        proof (cases e2)
          case None
          with B Some False di oc B2 Cons.prems(1) have "assembleSegs dial net segs d2 c3 lw2 = (d', cl, lw', e)" by simp
          from go [OF B2 [unfolded None] f1 same this] show ?thesis .
        next
          case e2: (Some x)
          with B Some False di oc B2 Cons.prems(1) f2 show ?thesis by auto
        qed
      qed
    qed
  qed
qed

section \<open>Properties\<close>

text \<open>C13: Whatever the server sends and however often the connection breaks, \<open>AssembleFile\<close> never writes more than the
  declared size of the file (the 50 GiB default when none is declared); and when it reports success the output is
  exactly the concatenation, in segment order and each once, of the bytes of an article sent for that segment's message
  id: its data lines between the begin and the end line, decoded, with the size and CRC of the end line agreeing. A
  reconnect never duplicates bytes.\<close>

theorem nzb_assembleFile_sound:
  assumes "AssembleFile dial net files name d client = (d', client', out, e)"
  shows "(\<forall>f. fileNamed files name = Some f \<longrightarrow> int (length out) \<le> sizeCap (FSize f)) \<and>
    (e = None \<longrightarrow> (\<exists>f ds. fileNamed files name = Some f \<and>
       list_all2 (\<lambda>seg b. decoded_from net (MessageID seg) b) (Segments f) ds \<and> out = concat ds))"
proof (cases "fileNamed files name")
  case None
  with assms show ?thesis by (auto simp: AssembleFile_def)
next
  case (Some f)
  let ?lw = "\<lparr>limit = sizeCap (FSize f), written = 0, lwOut = []\<rparr>"
  have cap: "0 < sizeCap (FSize f)" by (simp add: sizeCap_def nzbDefaultMaxBytes_def)
  then have ok: "lw_ok ?lw" by (simp add: lw_ok_def)
  obtain d1 oc where di: "(case client of Some c \<Rightarrow> (d, Some c) | None \<Rightarrow> dial d) = (d1, oc)" by fastforce
  show ?thesis
  proof (cases oc)
    case None
    with Some di assms cap show ?thesis by (auto simp: AssembleFile_def Let_def)
  next
    case oc: (Some c)
    obtain d2 cl lw' e' where a: "assembleSegs dial net (Segments f) d1 c ?lw = (d2, cl, lw', e')" by (metis prod_cases4)
    have r: "out = lwOut lw'" "e = e'" using Some di oc a assms by (simp_all add: AssembleFile_def Let_def)
    from assembleSegs_sound [OF a ok] have "int (length (lwOut lw')) \<le> sizeCap (FSize f)"
      using cap by (auto simp: lw_from_def lw_ok_def)
    with assembleSegs_sound [OF a ok] r Some show ?thesis by auto
  qed
qed


lemma i64_add: "i64 (i64 a + b) = i64 (a + b)"
  by (simp add: i64_def algebra_simps mod_simps)

lemma fold_i64: "fold (\<lambda>x n. i64 (n + f x)) xs (i64 a) = i64 (a + sum_list (map f xs))"
  by (induction xs arbitrary: a) (simp_all add: i64_add add.assoc)

text \<open>Parsing keeps what the document says: for a \<open>sort.Slice\<close> that permutes its input into the given order, every
  file has exactly the segments of its XML element, with trimmed message ids, ordered by number, and its size is
  their byte counts' sum in 64-bit arithmetic.\<close>

theorem nzb_parse_sorted:
  assumes "\<And>xs. mset (sortBy xs) = mset xs" and "\<And>xs. sorted (map Number (sortBy xs))"
    and "unmarshal data = Some xs"
  shows "\<exists>files. Parse unmarshal quoted sortBy data = Some files \<and>
    list_all2 (\<lambda>x f. mset (Segments f) = image_mset parseSeg (mset (nfSegments x)) \<and> sorted (map Number (Segments f)) \<and>
      FSize f = i64 (sum_list (map nsBytes (nfSegments x)))) xs files"
proof -
  have "FSize (parseFile quoted sortBy x) = i64 (sum_list (map nsBytes (nfSegments x)))" for x
    using fold_i64 [of nsBytes "nfSegments x" 0] by (simp add: parseFile_def)
  moreover have "mset (Segments (parseFile quoted sortBy x)) = image_mset parseSeg (mset (nfSegments x))"
      "sorted (map Number (Segments (parseFile quoted sortBy x)))" for x
    using assms(1,2) by (simp_all add: parseFile_def)
  ultimately show ?thesis
    using assms(3) by (simp add: Parse_def list_all2_conv_all_nth)
qed

section \<open>Witnesses\<close>

definition demoX :: nzbFile where
  "demoX = \<lparr>nfSubject = lit ''a.bin'', nfSegments =
     [\<lparr>nsMessageID = lit ''y@x '', nsBytes = 5, nsNumber = 2\<rparr>, \<lparr>nsMessageID = lit ''x@x'', nsBytes = 7, nsNumber = 1\<rparr>]\<rparr>"

theorem nzb_parse_sorted_witness:
  "\<exists>files. Parse (\<lambda>_. Some [demoX]) (\<lambda>_. None) (sort_key Number) [] = Some files \<and> map FSize files = [12] \<and>
     map (sorted \<circ> map Number \<circ> Segments) files = [True]"
  using nzb_parse_sorted [of "sort_key Number" "\<lambda>_. Some [demoX]" "[]" "[demoX]" "\<lambda>_. None"]
  by (auto simp: list_all2_Cons1 demoX_def i64_def)

definition demoArticle :: "byte list" where
  "demoArticle = crlf [lit ''=ybegin'', lit ''r'', lit ''=yend size=1'']"

definition demoNet :: "nat \<Rightarrow> byte list \<Rightarrow> nat \<times> reply" where
  "demoNet c m = (if c = 0 then (1, Refused True) else (c + 1, Article demoArticle False))"

definition demoFiles :: "File list" where
  "demoFiles = [\<lparr>Subject = [], Name = lit ''a.bin'', Segments = [\<lparr>MessageID = lit ''x@x'', Bytes = 9, Number = 1\<rparr>], FSize = 9\<rparr>]"

lemma demo_run:
  "AssembleFile (\<lambda>d. (d + 1, Some d)) demoNet demoFiles (lit ''a.bin'') (0 :: nat) None = (2, Some 2, [72], None)"
  by code_simp

theorem nzb_assembleFile_sound_witness:
  "\<exists>ds. [72] = concat ds \<and> map (decoded_from demoNet (lit ''x@x'')) (take 1 ds) = [True]"
proof -
  have f: "fileNamed demoFiles (lit ''a.bin'') = Some (hd demoFiles)" by code_simp
  have m: "map MessageID (Segments (hd demoFiles)) = [lit ''x@x'']" by code_simp
  from nzb_assembleFile_sound [OF demo_run] f obtain ds where
    ds: "list_all2 (\<lambda>seg b. decoded_from demoNet (MessageID seg) b) (Segments (hd demoFiles)) ds" "[72] = concat ds"
    by auto
  from ds(1) have "list_all2 (decoded_from demoNet) (map MessageID (Segments (hd demoFiles))) ds"
    by (simp add: list_all2_map1)
  with ds(2) show ?thesis unfolding m by (auto simp: list_all2_Cons1 intro!: exI [of _ ds])
qed

end
