(* ===== verification/Net_Addr.thy ===== *)
theory Net_Addr
  imports Prelude
begin

unbundle bit_operations_syntax

text \<open>
  The parts of Go's \<open>net\<close> and \<open>net/netip\<close> packages that the SSRF guard uses: addresses as byte slices (4 or 16 bytes, the
  empty list for nil), textual parsing of IPv4 and IPv6 addresses, CIDR blocks and their membership test, and the
  host/port split. The parsers follow the library's algorithms branch by branch.
\<close>

type_synonym IP = "byte list"

definition v4InV6Prefix :: "byte list" where
  "v4InV6Prefix = [0, 0, 0, 0, 0, 0, 0, 0, 0, 0, 255, 255]"

definition To4 :: "IP \<Rightarrow> IP option" where
  "To4 ip = (if length ip = 4 then Some ip
             else if length ip = 16 \<and> take 12 ip = v4InV6Prefix then Some (drop 12 ip) else None)"

definition ipEqual :: "IP \<Rightarrow> IP \<Rightarrow> bool" where
  "ipEqual a b =
     (if length a = length b then a = b
      else if length a = 4 \<and> length b = 16 then take 12 b = v4InV6Prefix \<and> a = drop 12 b
      else if length a = 16 \<and> length b = 4 then take 12 a = v4InV6Prefix \<and> drop 12 a = b
      else False)"

definition IPv4bcast :: IP where "IPv4bcast = v4InV6Prefix @ [255, 255, 255, 255]"
definition IPv4zero :: IP where "IPv4zero = v4InV6Prefix @ [0, 0, 0, 0]"
definition IPv6unspecified :: IP where "IPv6unspecified = replicate 16 0"

definition IsUnspecified :: "IP \<Rightarrow> bool" where
  "IsUnspecified ip = (ipEqual ip IPv4zero \<or> ipEqual ip IPv6unspecified)"

definition IsMulticast :: "IP \<Rightarrow> bool" where
  "IsMulticast ip =
     (case To4 ip of Some ip4 \<Rightarrow> (ip4 ! 0) AND 0xf0 = 0xe0 | None \<Rightarrow> length ip = 16 \<and> ip ! 0 = 0xff)"

section \<open>Networks\<close>

record IPNet =
  NIP :: IP
  NMask :: "byte list"

text \<open>\<open>CIDRMask(ones, bits)\<close> for \<open>ones <= bits\<close>.\<close>

definition maskByte :: "nat \<Rightarrow> byte" where
  "maskByte n = (if n \<ge> 8 then 0xff else NOT (drop_bit n 0xff))"

definition CIDRMask :: "nat \<Rightarrow> nat \<Rightarrow> byte list" where
  "CIDRMask ones bits = map (\<lambda>i. maskByte (ones - 8 * i)) [0..<bits div 8]"

definition ipMask :: "IP \<Rightarrow> byte list \<Rightarrow> IP" where
  "ipMask ip m =
     (let ip = (if length m = 4 \<and> length ip = 16 \<and> take 12 ip = v4InV6Prefix then drop 12 ip else ip)
      in if length ip = length m then map2 (AND) ip m else [])"

definition networkNumberAndMask :: "IPNet \<Rightarrow> (IP \<times> byte list) option" where
  "networkNumberAndMask n =
     (let ip = (case To4 (NIP n) of Some x \<Rightarrow> x | None \<Rightarrow> NIP n); m = NMask n
      in if To4 (NIP n) = None \<and> length ip \<noteq> 16 then None
         else if length m = 4 then (if length ip \<noteq> 4 then None else Some (ip, m))
         else if length m = 16 then Some (ip, if length ip = 4 then drop 12 m else m)
         else None)"

definition netContains :: "IPNet \<Rightarrow> IP \<Rightarrow> bool" where
  "netContains n ip =
     (case networkNumberAndMask n of
        None \<Rightarrow> ip = []
      | Some (nn, m) \<Rightarrow>
          (let x = (case To4 ip of Some y \<Rightarrow> y | None \<Rightarrow> ip)
           in length x = length nn \<and> (\<forall>i < length x. (nn ! i) AND (m ! i) = (x ! i) AND (m ! i))))"

section \<open>Parsing\<close>

abbreviation ch :: "char \<Rightarrow> nat" where "ch c \<equiv> of_char c"

fun splitOn :: "char \<Rightarrow> string \<Rightarrow> string list" where
  "splitOn c [] = [[]]"
| "splitOn c (x # xs) = (if x = c then [] # splitOn c xs else (case splitOn c xs of [] \<Rightarrow> [[x]] | w # ws \<Rightarrow> (x # w) # ws))"

definition isDigit :: "char \<Rightarrow> bool" where "isDigit c \<longleftrightarrow> 48 \<le> ch c \<and> ch c \<le> 57"

definition decVal :: "string \<Rightarrow> nat" where
  "decVal s = foldl (\<lambda>n c. n * 10 + (ch c - 48)) 0 s"

text \<open>One field of a dotted address: digits without a leading zero, at most 255.\<close>

definition v4Field :: "string \<Rightarrow> byte option" where
  "v4Field s = (if s \<noteq> [] \<and> list_all isDigit s \<and> (length s = 1 \<or> hd s \<noteq> CHR ''0'') \<and> decVal s \<le> 255
                then Some (of_nat (decVal s)) else None)"

definition parseIPv4 :: "string \<Rightarrow> byte list option" where
  "parseIPv4 s = (let fs = map v4Field (splitOn CHR ''.'' s)
                  in if length fs = 4 \<and> None \<notin> set fs then Some (map the fs) else None)"

definition hexDigit :: "char \<Rightarrow> nat option" where
  "hexDigit c = (if 48 \<le> ch c \<and> ch c \<le> 57 then Some (ch c - 48)
     else if 97 \<le> ch c \<and> ch c \<le> 102 then Some (ch c - 87)
     else if 65 \<le> ch c \<and> ch c \<le> 70 then Some (ch c - 55) else None)"

definition hexVal :: "string \<Rightarrow> nat" where
  "hexVal s = foldl (\<lambda>n c. n * 16 + the (hexDigit c)) 0 s"

definition isHex :: "char \<Rightarrow> bool" where "isHex c \<longleftrightarrow> hexDigit c \<noteq> None"

text \<open>One field of \<open>parseIPv6\<close>: the bytes so far and the position of the ellipsis; the loop ends, fails, or goes on with the
  rest of the text.\<close>

datatype v6r = V6Err | V6Done "byte list" "nat option" | V6More string "byte list" "nat option"

definition v6Field :: "string \<Rightarrow> byte list \<Rightarrow> nat option \<Rightarrow> v6r" where
  "v6Field s acc el =
     (let h = takeWhile isHex s; r = dropWhile isHex s; v = hexVal h
      in if length h > 4 \<or> h = [] then V6Err
         else if r \<noteq> [] \<and> hd r = CHR ''.'' then
           (if (el = None \<and> length acc \<noteq> 12) \<or> length acc + 4 > 16 then V6Err
            else (case parseIPv4 s of None \<Rightarrow> V6Err | Some q \<Rightarrow> V6Done (acc @ q) el))
         else
           (let acc = acc @ [of_nat (v div 256), of_nat (v mod 256)]
            in case r of
                 [] \<Rightarrow> V6Done acc el
               | c # r1 \<Rightarrow>
                   if c \<noteq> CHR '':'' \<or> r1 = [] then V6Err
                   else if hd r1 = CHR '':'' then
                     (if el \<noteq> None then V6Err
                      else if tl r1 = [] then V6Done acc (Some (length acc))
                      else V6More (tl r1) acc (Some (length acc)))
                   else V6More r1 acc el))"

lemma v6Field_More: "v6Field s acc el = V6More r acc' el' \<Longrightarrow> length acc' = length acc + 2"
  by (auto simp: v6Field_def Let_def split: if_splits list.splits option.splits)

function v6Fields :: "string \<Rightarrow> byte list \<Rightarrow> nat option \<Rightarrow> (string \<times> byte list \<times> nat option) option" where
  "v6Fields s acc el =
     (if length acc < 16 then
        (case v6Field s acc el of
           V6Err \<Rightarrow> None
         | V6Done acc' el' \<Rightarrow> Some ([], acc', el')
         | V6More r acc' el' \<Rightarrow> v6Fields r acc' el')
      else Some (s, acc, el))"
  by pat_completeness auto
termination
  by (relation "measure (\<lambda>(s, acc, el). 16 - length acc)") (auto dest!: v6Field_More)

declare v6Fields.simps [simp del]

text \<open>\<open>parseIPv6\<close> without a zone (a zone makes \<open>net.ParseIP\<close> and \<open>net.ParseCIDR\<close> fail).\<close>

definition parseIPv6 :: "string \<Rightarrow> byte list option" where
  "parseIPv6 s =
     (let lead = (take 2 s = [CHR '':'', CHR '':'']); t = (if lead then drop 2 s else s)
      in if lead \<and> t = [] then Some (replicate 16 0)
         else (case v6Fields t [] (if lead then Some 0 else None) of
                 None \<Rightarrow> None
               | Some (rest, acc, el) \<Rightarrow>
                   if rest \<noteq> [] then None
                   else if length acc < 16 then
                     (case el of
                        None \<Rightarrow> None
                      | Some k \<Rightarrow> Some (take k acc @ replicate (16 - length acc) 0 @ drop k acc))
                   else if el \<noteq> None then None else Some acc))"

text \<open>\<open>netip.ParseAddr\<close> as 16 bytes, with the bit length of the textual family.\<close>

definition parseAddr :: "string \<Rightarrow> (byte list \<times> nat) option" where
  "parseAddr s =
     (if CHR ''%'' \<in> set s then None
      else (case find (\<lambda>c. c = CHR ''.'' \<or> c = CHR '':'') s of
              None \<Rightarrow> None
            | Some c \<Rightarrow>
                if c = CHR ''.'' then map_option (\<lambda>q. (v4InV6Prefix @ q, 32)) (parseIPv4 s)
                else map_option (\<lambda>q. (q, 128)) (parseIPv6 s)))"

definition ParseIP :: "string \<Rightarrow> IP option" where
  "ParseIP s = map_option fst (parseAddr s)"

definition ParseCIDR :: "string \<Rightarrow> IPNet option" where
  "ParseCIDR s =
     (let a = takeWhile (\<lambda>c. c \<noteq> CHR ''/'') s; m = drop (length a + 1) s
      in if CHR ''/'' \<notin> set s then None
         else (case parseAddr a of
                 None \<Rightarrow> None
               | Some (ip, bits) \<Rightarrow>
                   if m = [] \<or> \<not> list_all isDigit m \<or> decVal m > bits then None
                   else Some \<lparr>NIP = ipMask ip (CIDRMask (decVal m) bits), NMask = CIDRMask (decVal m) bits\<rparr>))"

text \<open>\<open>SplitHostPort\<close>: the host, or \<open>None\<close> for an error.\<close>

definition lastColon :: "string \<Rightarrow> nat option" where
  "lastColon s = (if CHR '':'' \<in> set s then Some (length s - 1 - length (takeWhile (\<lambda>c. c \<noteq> CHR '':'') (rev s))) else None)"

definition SplitHostPort :: "string \<Rightarrow> (string \<times> string) option" where
  "SplitHostPort s =
     (case lastColon s of
        None \<Rightarrow> None
      | Some i \<Rightarrow>
          if hd s = CHR ''['' then
            (let e = length (takeWhile (\<lambda>c. c \<noteq> CHR '']'') s)
             in if e = length s \<or> e + 1 \<noteq> i then None
                else if CHR ''['' \<in> set (drop 1 s) \<or> CHR '']'' \<in> set (drop (e + 1) s) then None
                else Some (take (e - 1) (drop 1 s), drop (i + 1) s))
          else
            (let host = take i s
             in if CHR '':'' \<in> set host \<or> CHR ''['' \<in> set s \<or> CHR '']'' \<in> set s then None
                else Some (host, drop (i + 1) s)))"

section \<open>Shapes\<close>

lemma parseIPv4_length: "parseIPv4 s = Some q \<Longrightarrow> length q = 4"
  by (auto simp: parseIPv4_def Let_def split: if_splits)

definition v6_ok :: "byte list \<Rightarrow> nat option \<Rightarrow> bool" where
  "v6_ok acc el \<longleftrightarrow> length acc \<le> 16 \<and> even (length acc) \<and> (\<forall>k. el = Some k \<longrightarrow> k \<le> length acc)"

lemma v6Field_ok:
  assumes "v6_ok acc el" "length acc < 16"
  shows "v6Field s acc el = V6Done acc' el' \<Longrightarrow> v6_ok acc' el'" "v6Field s acc el = V6More r acc' el' \<Longrightarrow> v6_ok acc' el'"
proof -
  have "length acc \<le> 14" using assms by (auto simp: v6_ok_def elim!: evenE)
  then show "v6Field s acc el = V6Done acc' el' \<Longrightarrow> v6_ok acc' el'" "v6Field s acc el = V6More r acc' el' \<Longrightarrow> v6_ok acc' el'"
    using assms(1) by (auto simp: v6Field_def v6_ok_def Let_def dest!: parseIPv4_length split: if_splits list.splits option.splits)
qed

lemma v6Fields_ok: "v6Fields s acc el = Some (r, acc', el') \<Longrightarrow> v6_ok acc el \<Longrightarrow> v6_ok acc' el'"
proof (induction s acc el rule: v6Fields.induct)
  case (1 s acc el)
  show ?case
  proof (cases "length acc < 16")
    case True
    with 1 show ?thesis
      by (cases "v6Field s acc el") (auto simp: v6Fields.simps [of s acc el] dest: v6Field_ok [OF "1.prems"(2) True])
  qed (use 1 in \<open>auto simp: v6Fields.simps [of s acc el]\<close>)
qed

lemma ParseIP_length: "ParseIP s = Some ip \<Longrightarrow> length ip = 16"
proof -
  assume "ParseIP s = Some ip"
  then consider q where "parseIPv4 s = Some q" "ip = v4InV6Prefix @ q" | "parseIPv6 s = Some ip"
    by (auto simp: ParseIP_def parseAddr_def split: if_splits option.splits)
  then show ?thesis
  proof cases
    case 1
    then show ?thesis using parseIPv4_length by (simp add: v4InV6Prefix_def)
  next
    case 2
    show ?thesis
    proof (cases "ip = replicate 16 0")
      case False
      with 2 obtain t e0 acc el where "v6Fields t [] e0 = Some ([], acc, el)" "e0 = None \<or> e0 = Some 0"
        "ip = (case el of None \<Rightarrow> acc | Some k \<Rightarrow> take k acc @ replicate (16 - length acc) 0 @ drop k acc) \<and>
           (el = None \<longrightarrow> length acc \<ge> 16)"
        by (auto simp: parseIPv6_def Let_def split: if_splits option.splits)
      with v6Fields_ok [of t "[]" e0 "[]" acc el] show ?thesis
        by (auto simp: v6_ok_def min_def split: option.splits)
    qed simp
  qed
qed

end
