(* ===== verification/Go_Url.thy ===== *)
theory Go_Url
  imports Net_Addr "HOL-Library.Code_Target_Nat"
begin

text \<open>
  The parts of Go's \<open>net/url\<close>, \<open>encoding/base64\<close>, \<open>strings\<close> and \<open>net/http\<close> header maps that the stream proxy uses: percent
  escaping by component, URL parsing, reference resolution and printing, query strings, and unpadded URL-safe and
  padded standard base64. Strings are byte strings, one \<open>char\<close> per byte. The definitions follow the library's
  algorithms branch by branch; the lemmas are the round trips the proxy relies on.
\<close>

section \<open>Strings\<close>

definition hasPrefix :: "string \<Rightarrow> string \<Rightarrow> bool" where
  "hasPrefix p s \<longleftrightarrow> take (length p) s = p"

fun containsStr :: "string \<Rightarrow> string \<Rightarrow> bool" where
  "containsStr p [] = (p = [])"
| "containsStr p (c # s) = (hasPrefix p (c # s) \<or> containsStr p s)"

text \<open>\<open>strings.Cut\<close> at a byte: what stands before and after its first occurrence.\<close>

definition cutAt :: "char \<Rightarrow> string \<Rightarrow> string \<times> string" where
  "cutAt c s = (takeWhile (\<lambda>x. x \<noteq> c) s, drop 1 (dropWhile (\<lambda>x. x \<noteq> c) s))"

text \<open>The text before and after the last occurrence (\<open>strings.LastIndexByte\<close>).\<close>

definition cutLast :: "char \<Rightarrow> string \<Rightarrow> (string \<times> string) option" where
  "cutLast c s =
     (if c \<in> set s then Some (rev (drop 1 (dropWhile (\<lambda>x. x \<noteq> c) (rev s))), rev (takeWhile (\<lambda>x. x \<noteq> c) (rev s)))
      else None)"

definition lowerC :: "char \<Rightarrow> char" where
  "lowerC c = (if 65 \<le> ch c \<and> ch c \<le> 90 then char_of (ch c + 32) else c)"

definition upperC :: "char \<Rightarrow> char" where
  "upperC c = (if 97 \<le> ch c \<and> ch c \<le> 122 then char_of (ch c - 32) else c)"

definition isAlpha :: "char \<Rightarrow> bool" where
  "isAlpha c \<longleftrightarrow> (65 \<le> ch c \<and> ch c \<le> 90) \<or> (97 \<le> ch c \<and> ch c \<le> 122)"

definition isSpaceC :: "char \<Rightarrow> bool" where
  "isSpaceC c \<longleftrightarrow> c = CHR '' '' \<or> (9 \<le> ch c \<and> ch c \<le> 13)"

definition trimC :: "(char \<Rightarrow> bool) \<Rightarrow> string \<Rightarrow> string" where
  "trimC P s = rev (dropWhile P (rev (dropWhile P s)))"

section \<open>Percent escaping\<close>

datatype encoding = encodePath | encodeHost | encodeZone | encodeUserPassword | encodeQueryComponent | encodeFragment

definition shouldEscape :: "char \<Rightarrow> encoding \<Rightarrow> bool" where
  "shouldEscape c m =
     (if isAlpha c \<or> isDigit c then False
      else if (m = encodeHost \<or> m = encodeZone) \<and> c \<in> set ''!$&()*+,;=:[]<>\"'' \<union> {CHR 0x27} then False
      else if c \<in> set ''-_.~'' then False
      else if c \<in> set ''$&+,/:;=?@'' then
        (case m of
           encodePath \<Rightarrow> c = CHR ''?''
         | encodeUserPassword \<Rightarrow> c \<in> set ''@/?:''
         | encodeQueryComponent \<Rightarrow> True
         | encodeFragment \<Rightarrow> False
         | _ \<Rightarrow> True)
      else if m = encodeFragment \<and> c \<in> set ''!()*'' then False
      else True)"

definition upperHex :: "nat \<Rightarrow> char" where
  "upperHex n = (if n < 10 then char_of (48 + n) else char_of (55 + n))"

definition escapeC :: "encoding \<Rightarrow> char \<Rightarrow> string" where
  "escapeC m c =
     (if shouldEscape c m then
        (if c = CHR '' '' \<and> m = encodeQueryComponent then ''+''
         else [CHR ''%'', upperHex (ch c div 16), upperHex (ch c mod 16)])
      else [c])"

definition escape :: "string \<Rightarrow> encoding \<Rightarrow> string" where
  "escape s m = concat (map (escapeC m) s)"

fun unescape :: "string \<Rightarrow> encoding \<Rightarrow> string option" where
  "unescape [] m = Some []"
| "unescape (c # s) m =
     (if c = CHR ''%'' then
        (case s of
           a # b # r \<Rightarrow>
             (case (hexDigit a, hexDigit b) of
                (Some x, Some y) \<Rightarrow>
                  (if m = encodeHost \<and> x < 8 \<and> [a, b] \<noteq> ''25'' then None
                   else if m = encodeZone \<and> [a, b] \<noteq> ''25'' \<and> 16 * x + y \<noteq> 32 \<and> shouldEscape (char_of (16 * x + y)) encodeHost then None
                   else map_option ((#) (char_of (16 * x + y))) (unescape r m))
              | _ \<Rightarrow> None)
         | _ \<Rightarrow> None)
      else if (m = encodeHost \<or> m = encodeZone) \<and> ch c < 128 \<and> shouldEscape c m then None
      else map_option ((#) (if c = CHR ''+'' \<and> m = encodeQueryComponent then CHR '' '' else c)) (unescape s m))"

section \<open>URLs\<close>

record URL =
  Scheme :: string
  Opaque :: string
  User :: "(string \<times> string option) option"
  Host :: string
  Path :: string
  RawPath :: string
  OmitHost :: bool
  ForceQuery :: bool
  RawQuery :: string
  Fragment :: string
  RawFragment :: string

definition zeroURL :: URL where
  "zeroURL = \<lparr>Scheme = [], Opaque = [], User = None, Host = [], Path = [], RawPath = [], OmitHost = False, ForceQuery = False,
     RawQuery = [], Fragment = [], RawFragment = []\<rparr>"

text \<open>\<open>getScheme\<close>: \<open>None\<close> for a missing scheme name.\<close>

definition getScheme :: "string \<Rightarrow> (string \<times> string) option" where
  "getScheme s =
     (let t = takeWhile (\<lambda>c. isAlpha c \<or> isDigit c \<or> c \<in> set ''+-.'') s; r = drop (length t) s
      in if t \<noteq> [] \<and> \<not> isAlpha (hd t) then Some ([], s)
         else if r = [] \<or> hd r \<noteq> CHR '':'' then Some ([], s)
         else if t = [] then None
         else Some (t, tl r))"

definition validOptionalPort :: "string \<Rightarrow> bool" where
  "validOptionalPort s \<longleftrightarrow> s = [] \<or> (hd s = CHR '':'' \<and> list_all isDigit (tl s))"

fun splitStr :: "string \<Rightarrow> string \<Rightarrow> string \<Rightarrow> (string \<times> string) option" where
  "splitStr p acc [] = None"
| "splitStr p acc (c # s) =
     (if hasPrefix p (c # s) then Some (rev acc, c # s) else splitStr p (c # acc) s)"

definition bindO :: "'a option \<Rightarrow> ('a \<Rightarrow> 'b option) \<Rightarrow> 'b option" where
  "bindO x f = (case x of None \<Rightarrow> None | Some y \<Rightarrow> f y)"

definition parseHost :: "string \<Rightarrow> string option" where
  "parseHost h =
     (if hasPrefix ''['' h then
        (case cutLast (CHR '']'') h of
           None \<Rightarrow> None
         | Some (b, colonPort) \<Rightarrow>
             if \<not> validOptionalPort colonPort then None
             else (case splitStr ''%25'' [] b of
                     Some (h1, z) \<Rightarrow>
                       bindO (unescape h1 encodeHost) (\<lambda>x1. bindO (unescape z encodeZone) (\<lambda>x2.
                         bindO (unescape (CHR '']'' # colonPort) encodeHost) (\<lambda>x3. Some (x1 @ x2 @ x3))))
                   | None \<Rightarrow> unescape h encodeHost))
      else (case cutLast (CHR '':'') h of
              Some (_, p) \<Rightarrow> if validOptionalPort (CHR '':'' # p) then unescape h encodeHost else None
            | None \<Rightarrow> unescape h encodeHost))"

definition validUserinfo :: "string \<Rightarrow> bool" where
  "validUserinfo s = list_all (\<lambda>c. isAlpha c \<or> isDigit c \<or> c \<in> set ''-._:~!$&()*+,;=%@'' \<or> ch c = 39) s"

definition parseAuthority :: "string \<Rightarrow> ((string \<times> string option) option \<times> string) option" where
  "parseAuthority a =
     (case cutLast (CHR ''@'') a of
        None \<Rightarrow> map_option (Pair None) (parseHost a)
      | Some (ui, h) \<Rightarrow>
          bindO (parseHost h) (\<lambda>host.
            if \<not> validUserinfo ui then None
            else if CHR '':'' \<notin> set ui then map_option (\<lambda>u. (Some (u, None), host)) (unescape ui encodeUserPassword)
            else (case cutAt (CHR '':'') ui of
                    (u, p) \<Rightarrow> bindO (unescape u encodeUserPassword) (\<lambda>u'.
                      map_option (\<lambda>p'. (Some (u', Some p'), host)) (unescape p encodeUserPassword)))))"

definition setPath :: "URL \<Rightarrow> string \<Rightarrow> URL option" where
  "setPath u p = map_option (\<lambda>path. u\<lparr>Path := path, RawPath := if p = escape path encodePath then [] else p\<rparr>) (unescape p encodePath)"

definition setFragment :: "URL \<Rightarrow> string \<Rightarrow> URL option" where
  "setFragment u f =
     map_option (\<lambda>x. u\<lparr>Fragment := x, RawFragment := if f = escape x encodeFragment then [] else f\<rparr>) (unescape f encodeFragment)"

text \<open>The query split of \<open>parse\<close>: the rest before it, \<open>ForceQuery\<close>, \<open>RawQuery\<close>.\<close>

definition splitQuery :: "string \<Rightarrow> string \<times> bool \<times> string" where
  "splitQuery s =
     (if s \<noteq> [] \<and> last s = CHR ''?'' \<and> CHR ''?'' \<notin> set (butlast s) then (butlast s, True, [])
      else (fst (cutAt (CHR ''?'') s), False, snd (cutAt (CHR ''?'') s)))"

definition parseRest :: "URL \<Rightarrow> string \<Rightarrow> URL option" where
  "parseRest u rest =
     (if \<not> hasPrefix ''/'' rest \<and> Scheme u \<noteq> [] then Some (u\<lparr>Opaque := rest\<rparr>)
      else if \<not> hasPrefix ''/'' rest \<and> CHR '':'' \<in> set (fst (cutAt (CHR ''/'') rest)) then None
      else if (Scheme u \<noteq> [] \<or> \<not> hasPrefix ''///'' rest) \<and> hasPrefix ''//'' rest then
        (let a = drop 2 rest; auth = takeWhile (\<lambda>c. c \<noteq> CHR ''/'') a; p = dropWhile (\<lambda>c. c \<noteq> CHR ''/'') a
         in bindO (parseAuthority auth) (\<lambda>(us, h). setPath (u\<lparr>User := us, Host := h\<rparr>) p))
      else setPath (u\<lparr>OmitHost := (Scheme u \<noteq> [] \<and> hasPrefix ''/'' rest)\<rparr>) rest)"

definition parseNoFrag :: "string \<Rightarrow> URL option" where
  "parseNoFrag s =
     (if list_ex (\<lambda>c. ch c < 32 \<or> ch c = 127) s then None
      else if s = ''*'' then Some (zeroURL\<lparr>Path := ''*''\<rparr>)
      else bindO (getScheme s) (\<lambda>(sch, r0).
        case splitQuery r0 of
          (rest, fq, rq) \<Rightarrow> parseRest (zeroURL\<lparr>Scheme := map lowerC sch, ForceQuery := fq, RawQuery := rq\<rparr>) rest))"

definition urlParse :: "string \<Rightarrow> URL option" where
  "urlParse s =
     (case cutAt (CHR ''#'') s of
        (u, frag) \<Rightarrow> bindO (parseNoFrag u) (\<lambda>x. if frag = [] then Some x else setFragment x frag))"

definition validEncoded :: "string \<Rightarrow> encoding \<Rightarrow> bool" where
  "validEncoded s m = list_all (\<lambda>c. c \<in> set ''!$&()*+,;=:@[]%'' \<or> ch c = 39 \<or> \<not> shouldEscape c m) s"

definition EscapedPath :: "URL \<Rightarrow> string" where
  "EscapedPath u =
     (if RawPath u \<noteq> [] \<and> validEncoded (RawPath u) encodePath \<and> unescape (RawPath u) encodePath = Some (Path u) then RawPath u
      else if Path u = ''*'' then ''*''
      else escape (Path u) encodePath)"

definition EscapedFragment :: "URL \<Rightarrow> string" where
  "EscapedFragment u =
     (if RawFragment u \<noteq> [] \<and> validEncoded (RawFragment u) encodeFragment \<and> unescape (RawFragment u) encodeFragment = Some (Fragment u)
      then RawFragment u else escape (Fragment u) encodeFragment)"

text \<open>\<open>resolvePath\<close>: \<open>dst\<close> is the output after its leading slash.\<close>

fun dotSegments :: "string list \<Rightarrow> string \<Rightarrow> bool \<Rightarrow> string" where
  "dotSegments [] dst first = dst"
| "dotSegments (e # es) dst first =
     (if e = ''.'' then dotSegments es dst False
      else if e = ''..'' then
        (case cutLast (CHR ''/'') dst of
           None \<Rightarrow> dotSegments es [] True
         | Some (b, _) \<Rightarrow> dotSegments es b first)
      else dotSegments es (dst @ (if first then [] else ''/'') @ e) False)"

definition resolvePath :: "string \<Rightarrow> string \<Rightarrow> string" where
  "resolvePath base ref =
     (let full = (if ref = [] then base
                  else if hd ref \<noteq> CHR ''/'' then (case cutLast (CHR ''/'') base of None \<Rightarrow> ref | Some (b, _) \<Rightarrow> b @ ''/'' @ ref)
                  else ref)
      in if full = [] then []
         else (let es = splitOn (CHR ''/'') full;
                   r = ''/'' @ dotSegments es [] True @ (if last es = ''.'' \<or> last es = ''..'' then ''/'' else [])
               in if length r > 1 \<and> r ! 1 = CHR ''/'' then tl r else r))"

definition setPathOr :: "URL \<Rightarrow> string \<Rightarrow> URL" where
  "setPathOr u p = (case setPath u p of Some v \<Rightarrow> v | None \<Rightarrow> u)"

definition ResolveReference :: "URL \<Rightarrow> URL \<Rightarrow> URL" where
  "ResolveReference u ref =
     (let url = (if Scheme ref = [] then ref\<lparr>Scheme := Scheme u\<rparr> else ref)
      in if Scheme ref \<noteq> [] \<or> Host ref \<noteq> [] \<or> User ref \<noteq> None then setPathOr url (resolvePath (EscapedPath ref) [])
         else if Opaque ref \<noteq> [] then url\<lparr>User := None, Host := [], Path := []\<rparr>
         else
           (let url = (if Path ref = [] \<and> \<not> ForceQuery ref \<and> RawQuery ref = [] then
                         (let v = url\<lparr>RawQuery := RawQuery u\<rparr>
                          in if Fragment ref = [] then v\<lparr>Fragment := Fragment u, RawFragment := RawFragment u\<rparr> else v)
                       else url)
            in if Path ref = [] \<and> Opaque u \<noteq> [] then url\<lparr>Opaque := Opaque u, User := None, Host := [], Path := []\<rparr>
               else setPathOr (url\<lparr>Host := Host u, User := User u\<rparr>) (resolvePath (EscapedPath u) (EscapedPath ref))))"

definition userString :: "string \<times> string option \<Rightarrow> string" where
  "userString ui =
     escape (fst ui) encodeUserPassword @ (case snd ui of None \<Rightarrow> [] | Some p \<Rightarrow> '':'' @ escape p encodeUserPassword)"

definition urlString :: "URL \<Rightarrow> string" where
  "urlString u =
     (let scheme = (if Scheme u \<noteq> [] then Scheme u @ '':'' else []);
          body =
            (if Opaque u \<noteq> [] then scheme @ Opaque u
             else
               (let auth =
                      (if (Scheme u \<noteq> [] \<or> Host u \<noteq> [] \<or> User u \<noteq> None) \<and> \<not> (OmitHost u \<and> Host u = [] \<and> User u = None) then
                         (if Host u \<noteq> [] \<or> Path u \<noteq> [] \<or> User u \<noteq> None then ''//'' else [])
                         @ (case User u of None \<Rightarrow> [] | Some ui \<Rightarrow> userString ui @ ''@'') @ escape (Host u) encodeHost
                       else []);
                    path = EscapedPath u;
                    buf = scheme @ auth @ (if path \<noteq> [] \<and> hd path \<noteq> CHR ''/'' \<and> Host u \<noteq> [] then ''/'' else [])
                in buf @ (if buf = [] \<and> CHR '':'' \<in> set (fst (cutAt (CHR ''/'') path)) then ''./'' else []) @ path))
      in body @ (if ForceQuery u \<or> RawQuery u \<noteq> [] then ''?'' @ RawQuery u else [])
              @ (if Fragment u \<noteq> [] then ''#'' @ EscapedFragment u else []))"

text \<open>\<open>URL.Hostname\<close> and \<open>URL.Port\<close>.\<close>

definition splitPort :: "string \<Rightarrow> string \<times> string" where
  "splitPort h =
     (let (host, port) = (case cutLast (CHR '':'') h of
                            Some (b, p) \<Rightarrow> if validOptionalPort (CHR '':'' # p) then (b, p) else (h, [])
                          | None \<Rightarrow> (h, []))
      in (if hasPrefix ''['' host \<and> host \<noteq> [] \<and> last host = CHR '']'' then butlast (tl host) else host, port))"

definition Hostname :: "URL \<Rightarrow> string" where "Hostname u = fst (splitPort (Host u))"
definition Port :: "URL \<Rightarrow> string" where "Port u = snd (splitPort (Host u))"

section \<open>Query strings\<close>

text \<open>\<open>URL.Query\<close>: malformed pairs are skipped, the order of the values of a key is kept.\<close>

definition queryPair :: "string \<Rightarrow> (string \<times> string) list" where
  "queryPair kv =
     (if kv = [] \<or> CHR '';'' \<in> set kv then []
      else (case cutAt (CHR ''='') kv of
              (k, v) \<Rightarrow> (case (unescape k encodeQueryComponent, unescape v encodeQueryComponent) of
                          (Some k', Some v') \<Rightarrow> [(k', v')]
                        | _ \<Rightarrow> [])))"

definition parseQuery :: "string \<Rightarrow> (string \<times> string) list" where
  "parseQuery s = concat (map queryPair (splitOn (CHR ''&'') s))"

definition qVals :: "(string \<times> string) list \<Rightarrow> string \<Rightarrow> string list" where
  "qVals q k = map snd (filter (\<lambda>p. fst p = k) q)"

definition qGet :: "(string \<times> string) list \<Rightarrow> string \<Rightarrow> string" where
  "qGet q k = (case qVals q k of [] \<Rightarrow> [] | v # _ \<Rightarrow> v)"

abbreviation QueryEscape :: "string \<Rightarrow> string" where
  "QueryEscape s \<equiv> escape s encodeQueryComponent"

section \<open>Header maps\<close>

type_synonym Header = "(string \<times> string list) list"

definition tokenChar :: "char \<Rightarrow> bool" where
  "tokenChar c \<longleftrightarrow> isAlpha c \<or> isDigit c \<or> c \<in> set ''!#$%&*+-.^_`|~'' \<or> ch c = 39"

fun canonFrom :: "bool \<Rightarrow> string \<Rightarrow> string" where
  "canonFrom up [] = []"
| "canonFrom up (c # s) = (if up then upperC c else lowerC c) # canonFrom (c = CHR ''-'') s"

definition CanonicalHeaderKey :: "string \<Rightarrow> string" where
  "CanonicalHeaderKey s = (if list_all tokenChar s then canonFrom True s else s)"

definition hdrPut :: "Header \<Rightarrow> string \<Rightarrow> string list \<Rightarrow> Header" where
  "hdrPut h k vs = (if k \<in> fst ` set h then map (\<lambda>(a, xs). (a, if a = k then vs else xs)) h else h @ [(k, vs)])"

definition hdrVals :: "Header \<Rightarrow> string \<Rightarrow> string list" where
  "hdrVals h k = (case map_of h k of None \<Rightarrow> [] | Some vs \<Rightarrow> vs)"

definition hdrValues :: "Header \<Rightarrow> string \<Rightarrow> string list" where
  "hdrValues h k = hdrVals h (CanonicalHeaderKey k)"

definition hdrGet :: "Header \<Rightarrow> string \<Rightarrow> string" where
  "hdrGet h k = (case hdrValues h k of [] \<Rightarrow> [] | v # _ \<Rightarrow> v)"

definition hdrSet :: "Header \<Rightarrow> string \<Rightarrow> string \<Rightarrow> Header" where
  "hdrSet h k v = hdrPut h (CanonicalHeaderKey k) [v]"

definition hdrAdd :: "Header \<Rightarrow> string \<Rightarrow> string \<Rightarrow> Header" where
  "hdrAdd h k v = hdrPut h (CanonicalHeaderKey k) (hdrValues h k @ [v])"

section \<open>Base64\<close>

text \<open>An alphabet is given by its last two characters.\<close>

definition b64char :: "char \<Rightarrow> char \<Rightarrow> nat \<Rightarrow> char" where
  "b64char c62 c63 n =
     (if n < 26 then char_of (65 + n) else if n < 52 then char_of (71 + n) else if n < 62 then char_of (n - 4)
      else if n = 62 then c62 else c63)"

definition b64digit :: "char \<Rightarrow> char \<Rightarrow> char \<Rightarrow> nat option" where
  "b64digit c62 c63 c =
     (if 65 \<le> ch c \<and> ch c \<le> 90 then Some (ch c - 65)
      else if 97 \<le> ch c \<and> ch c \<le> 122 then Some (ch c - 71)
      else if 48 \<le> ch c \<and> ch c \<le> 57 then Some (ch c + 4)
      else if c = c62 then Some 62 else if c = c63 then Some 63 else None)"

fun encDigits :: "nat list \<Rightarrow> nat list" where
  "encDigits (a # b # c # r) =
     [a div 4, a mod 4 * 16 + b div 16, b mod 16 * 4 + c div 64, c mod 64] @ encDigits r"
| "encDigits [a, b] = [a div 4, a mod 4 * 16 + b div 16, b mod 16 * 4]"
| "encDigits [a] = [a div 4, a mod 4 * 16]"
| "encDigits [] = []"

fun decDigits :: "nat list \<Rightarrow> nat list option" where
  "decDigits (p # q # r # s # t) =
     map_option ((@) [p * 4 + q div 16, q mod 16 * 16 + r div 4, r mod 4 * 64 + s]) (decDigits t)"
| "decDigits [p, q, r] = Some [p * 4 + q div 16, q mod 16 * 16 + r div 4]"
| "decDigits [p, q] = Some [p * 4 + q div 16]"
| "decDigits [p] = None"
| "decDigits [] = Some []"

definition RawURLEncode :: "nat list \<Rightarrow> string" where
  "RawURLEncode bs = map (b64char (CHR ''-'') (CHR ''_'')) (encDigits bs)"

definition noCRLF :: "string \<Rightarrow> string" where
  "noCRLF s = filter (\<lambda>c. ch c \<noteq> 10 \<and> ch c \<noteq> 13) s"

definition digitsOf :: "char \<Rightarrow> char \<Rightarrow> string \<Rightarrow> nat list option" where
  "digitsOf c62 c63 s = (let ds = map (b64digit c62 c63) s in if None \<in> set ds then None else Some (map the ds))"

definition RawURLDecode :: "string \<Rightarrow> nat list option" where
  "RawURLDecode s = bindO (digitsOf (CHR ''-'') (CHR ''_'') (noCRLF s)) decDigits"

definition StdDecode :: "string \<Rightarrow> nat list option" where
  "StdDecode s =
     (let t = noCRLF s; body = takeWhile (\<lambda>c. c \<noteq> CHR ''='') t; k = length t - length body
      in if drop (length body) t \<noteq> replicate k (CHR ''='') \<or> (length body + k) mod 4 \<noteq> 0 \<or> k > 2 then None
         else bindO (digitsOf (CHR ''+'') (CHR ''/'') body) decDigits)"

abbreviation bytesOf :: "string \<Rightarrow> nat list" where "bytesOf s \<equiv> map ch s"
abbreviation strOf :: "nat list \<Rightarrow> string" where "strOf bs \<equiv> map char_of bs"

section \<open>Round trips\<close>

lemma ch_less [simp]: "ch c < 256"
  by (metis UNIV_I atLeastLessThan_iff imageI range_nat_of_char)

lemma ch_div [simp]: "ch c div 16 < 16"
  using ch_less [of c] by linarith

lemma ch_char_of [simp]: "n < 256 \<Longrightarrow> ch (char_of n) = n"
  by (simp add: of_char_of)

lemma hexDigit_upperHex [simp]: "n < 16 \<Longrightarrow> hexDigit (upperHex n) = Some n"
  by (auto simp: hexDigit_def upperHex_def)

lemma shouldEscape_percent [simp]: "shouldEscape (CHR ''%'') m"
  by (simp add: shouldEscape_def isAlpha_def isDigit_def)

lemma hexChars_same [simp]: "char_of (16 * (ch c div 16) + ch c mod 16) = c"
  by (metis char_of_char mult_div_mod_eq)

lemma unescape_escape_query: "unescape (QueryEscape s) encodeQueryComponent = Some s"
proof (induction s)
  case (Cons c s)
  have plus: "shouldEscape (CHR ''+'') encodeQueryComponent"
    by (simp add: shouldEscape_def isAlpha_def isDigit_def)
  show ?case
  proof (cases "shouldEscape c encodeQueryComponent")
    case True
    with Cons show ?thesis by (simp add: escape_def escapeC_def)
  next
    case False
    with plus have "c \<noteq> CHR ''+''" "c \<noteq> CHR ''%''" by auto
    with False Cons show ?thesis by (simp add: escape_def escapeC_def)
  qed
qed (simp add: escape_def)

lemma unescape_plain:
  assumes "CHR ''%'' \<notin> set s" "m \<noteq> encodeQueryComponent" "m \<noteq> encodeHost" "m \<noteq> encodeZone"
  shows "unescape s m = Some s"
  using assms by (induction s) auto

lemma encDigits_bound: "\<forall>x \<in> set bs. x < 256 \<Longrightarrow> \<forall>d \<in> set (encDigits bs). d < 64"
  by (induction bs rule: encDigits.induct) (auto simp: less_mult_imp_div_less intro!: mod_less_divisor)

lemma dec_encDigits: "\<forall>x \<in> set bs. x < 256 \<Longrightarrow> decDigits (encDigits bs) = Some bs"
proof (induction bs rule: encDigits.induct)
  case (1 a b c r)
  have "b div 16 < 16" "c div 64 < 4" using 1 by auto
  with 1 show ?case by simp
next
  case (2 a b)
  have "b div 16 < 16" using 2 by auto
  then show ?case by simp
qed simp_all

lemma b64digit_char:
  assumes "n < 64"
  shows "b64digit (CHR ''-'') (CHR ''_'') (b64char (CHR ''-'') (CHR ''_'') n) = Some n"
  using assms by (auto simp: b64digit_def b64char_def)

definition urlSafe :: "char \<Rightarrow> bool" where
  "urlSafe c \<longleftrightarrow> isAlpha c \<or> isDigit c \<or> c = CHR ''-'' \<or> c = CHR ''_''"

lemma b64char_safe: "n < 64 \<Longrightarrow> urlSafe (b64char (CHR ''-'') (CHR ''_'') n)"
  by (auto simp: b64char_def urlSafe_def isAlpha_def isDigit_def)

lemma urlSafe_noCRLF: "urlSafe c \<Longrightarrow> ch c \<noteq> 10 \<and> ch c \<noteq> 13"
  by (auto simp: urlSafe_def isAlpha_def isDigit_def)

lemma urlSafe_query: "urlSafe c \<Longrightarrow> \<not> shouldEscape c encodeQueryComponent"
  by (auto simp: urlSafe_def shouldEscape_def)

lemma RawURLEncode_safe: "\<forall>x \<in> set bs. x < 256 \<Longrightarrow> list_all urlSafe (RawURLEncode bs)"
  using encDigits_bound [of bs] by (auto simp: RawURLEncode_def list_all_iff intro: b64char_safe)

lemma RawURLDecode_Encode: "\<forall>x \<in> set bs. x < 256 \<Longrightarrow> RawURLDecode (RawURLEncode bs) = Some bs"
proof -
  assume b: "\<forall>x \<in> set bs. x < 256"
  have "noCRLF (RawURLEncode bs) = RawURLEncode bs"
    using RawURLEncode_safe [OF b] urlSafe_noCRLF by (auto simp: noCRLF_def list_all_iff intro!: filter_True)
  moreover have "map (b64digit (CHR ''-'') (CHR ''_'')) (RawURLEncode bs) = map Some (encDigits bs)"
    using encDigits_bound [OF b] by (auto simp: RawURLEncode_def intro!: b64digit_char)
  ultimately show ?thesis
    using dec_encDigits [OF b] by (auto simp: RawURLDecode_def digitsOf_def bindO_def Let_def)
qed

lemma encDigits_append: "length xs mod 3 = 0 \<Longrightarrow> encDigits (xs @ ys) = encDigits xs @ encDigits ys"
proof (induction xs rule: encDigits.induct)
  case (1 a b c r)
  have "length r mod 3 = 0" using "1.prems" by (simp add: mod_Suc split: if_splits)
  then show ?case using "1.IH" by simp
qed auto

lemma QueryEscape_safe: "list_all urlSafe s \<Longrightarrow> QueryEscape s = s"
  by (induction s) (auto simp: escape_def escapeC_def urlSafe_query)

text \<open>An escaped component holds none of the separators of a query string.\<close>

lemma upperHex_alnum: "n < 16 \<Longrightarrow> isAlpha (upperHex n) \<or> isDigit (upperHex n)"
  by (auto simp: upperHex_def isAlpha_def isDigit_def)

lemma escapeC_chars:
  assumes "x \<in> set (escapeC encodeQueryComponent c)"
  shows "isAlpha x \<or> isDigit x \<or> x \<in> set ''-_.~+%''"
proof (cases "shouldEscape c encodeQueryComponent")
  case True
  then show ?thesis using assms upperHex_alnum [of "ch c div 16"] upperHex_alnum [of "ch c mod 16"]
    by (auto simp: escapeC_def split: if_splits)
next
  case False
  then show ?thesis using assms by (auto simp: escapeC_def shouldEscape_def split: if_splits)
qed

lemma QueryEscape_chars: "x \<in> set (QueryEscape s) \<Longrightarrow> isAlpha x \<or> isDigit x \<or> x \<in> set ''-_.~+%''"
  using escapeC_chars by (auto simp: escape_def)

lemma QueryEscape_seps:
  "CHR ''&'' \<notin> set (QueryEscape s)" "CHR ''='' \<notin> set (QueryEscape s)" "CHR '';'' \<notin> set (QueryEscape s)"
  "CHR ''#'' \<notin> set (QueryEscape s)" "CHR ''?'' \<notin> set (QueryEscape s)"
  by (auto dest!: QueryEscape_chars simp: isAlpha_def isDigit_def)

lemma cutAt_append: "c \<notin> set a \<Longrightarrow> cutAt c (a @ c # b) = (a, b)"
  by (induction a) (auto simp: cutAt_def)

lemma queryPair_escaped: "queryPair (QueryEscape k @ CHR ''='' # QueryEscape v) = [(k, v)]"
  using QueryEscape_seps by (simp add: queryPair_def cutAt_append unescape_escape_query)

lemma splitOn_ne [simp]: "splitOn c s \<noteq> []"
  by (induction s) (auto split: list.splits)

lemma splitOn_append: "c \<notin> set a \<Longrightarrow> splitOn c (a @ c # b) = a # splitOn c b"
  by (induction a) auto

lemma splitOn_single: "c \<notin> set a \<Longrightarrow> splitOn c a = [a]"
  by (induction a) auto

lemma parseQuery_cons: "CHR ''&'' \<notin> set a \<Longrightarrow> parseQuery (a @ CHR ''&'' # b) = queryPair a @ parseQuery b"
  by (simp add: parseQuery_def splitOn_append)

lemma parseQuery_single: "CHR ''&'' \<notin> set a \<Longrightarrow> parseQuery a = queryPair a"
  by (simp add: parseQuery_def splitOn_single)

text \<open>A query string written pair by pair reads back as the same pairs.\<close>

abbreviation ampPair :: "string \<times> string \<Rightarrow> string" where
  "ampPair p \<equiv> ''&'' @ QueryEscape (fst p) @ ''='' @ QueryEscape (snd p)"

lemma parseQuery_pairs:
  "parseQuery (QueryEscape k @ CHR ''='' # QueryEscape v @ concat (map ampPair ps)) = (k, v) # ps"
proof (induction ps arbitrary: k v)
  case Nil
  have "CHR ''&'' \<notin> set (QueryEscape k @ CHR ''='' # QueryEscape v)" using QueryEscape_seps by simp
  from parseQuery_single [OF this] show ?case by (simp add: queryPair_escaped)
next
  case (Cons p ps)
  have "CHR ''&'' \<notin> set (QueryEscape k @ CHR ''='' # QueryEscape v)" using QueryEscape_seps by simp
  from parseQuery_cons [OF this, of "QueryEscape (fst p) @ CHR ''='' # QueryEscape (snd p) @ concat (map ampPair ps)"]
  show ?case using Cons [of "fst p" "snd p"] by (simp add: queryPair_escaped)
qed

section \<open>Canonical header names\<close>

lemma lower_upper: "lowerC (upperC c) = lowerC c"
proof (cases "97 \<le> ch c \<and> ch c \<le> 122")
  case True
  then have "ch (upperC c) = (ch c - 32) mod 256" by (simp add: upperC_def)
  also have "\<dots> = ch c - 32" using True by (intro mod_less) linarith
  finally have u: "ch (upperC c) = ch c - 32" .
  have r: "65 \<le> ch c - 32 \<and> ch c - 32 \<le> 90" "ch c - 32 + 32 = ch c" using True by linarith+
  have "lowerC (upperC c) = c" unfolding lowerC_def u if_P [OF r(1)] r(2) by simp
  moreover have "lowerC c = c" using True by (simp add: lowerC_def)
  ultimately show ?thesis by simp
next
  case False
  then have "upperC c = c" by (auto simp: upperC_def)
  then show ?thesis by simp
qed

lemma lower_lower: "lowerC (lowerC c) = lowerC c"
proof (cases "65 \<le> ch c \<and> ch c \<le> 90")
  case True
  then have "ch (lowerC c) = ch c + 32" by (simp add: lowerC_def)
  with True show ?thesis by (simp add: lowerC_def [of "lowerC c"])
next
  case False
  then have "lowerC c = c" by (auto simp: lowerC_def)
  then show ?thesis by simp
qed

lemma lower_canon: "map lowerC (canonFrom up s) = map lowerC s"
  by (induction s arbitrary: up) (simp_all add: lower_upper lower_lower)

lemma upper_alpha: "tokenChar c \<Longrightarrow> tokenChar (upperC c) \<and> tokenChar (lowerC c)"
  by (auto simp: tokenChar_def upperC_def lowerC_def isAlpha_def isDigit_def)

lemma canon_tokens: "list_all tokenChar s \<Longrightarrow> list_all tokenChar (canonFrom up s)"
  by (induction s arbitrary: up) (simp_all add: upper_alpha)

lemma canon_notin: "\<not> tokenChar c \<Longrightarrow> c \<notin> set s \<Longrightarrow> c \<notin> set (CanonicalHeaderKey s)"
  using canon_tokens [of s True] by (auto simp: CanonicalHeaderKey_def list_all_iff)

end
