(* ===== verification/Netguard.thy ===== *)
theory Netguard
  imports Go_Url
begin

unbundle bit_operations_syntax

text \<open>
  \<open>internal/netguard\<close>: the SSRF guard of every outbound fetch. The pre-flight and dial-time checks, the blocked ranges
  (parsed from their CIDR texts as the code does), and the operator's allowlist with its cached host lookups. DNS
  resolution is a parameter; time is an integer (nanoseconds).
\<close>

section \<open>Blocked addresses\<close>

definition privateCIDRs :: "string list" where
  "privateCIDRs = [''0.0.0.0/8'', ''10.0.0.0/8'', ''100.64.0.0/10'', ''127.0.0.0/8'', ''169.254.0.0/16'', ''172.16.0.0/12'',
     ''192.168.0.0/16'', ''::1/128'', ''fc00::/7'', ''fe80::/10'', ''::/128'']"

definition privateRanges :: "IPNet list" where
  "privateRanges = List.map_filter ParseCIDR privateCIDRs"

definition IsPrivate :: "IP \<Rightarrow> bool" where
  "IsPrivate ip =
     (if ip = [] then False
      else (let ip = (case To4 ip of Some ip4 \<Rightarrow> ip4 | None \<Rightarrow> ip) in \<exists>r \<in> set privateRanges. netContains r ip))"

definition metadataIPs :: "IP option list" where
  "metadataIPs = map ParseIP [''169.254.169.254'', ''169.254.170.2'', ''100.100.100.200'', ''fd00:ec2::254'']"

definition IsCloudMetadata :: "IP \<Rightarrow> bool" where
  "IsCloudMetadata ip =
     (if ip = [] then False
      else \<exists>m \<in> set metadataIPs. ipEqual (case m of Some x \<Rightarrow> x | None \<Rightarrow> []) ip)"

definition isNonUnicast :: "IP \<Rightarrow> bool" where
  "isNonUnicast ip =
     (if IsUnspecified ip \<or> IsMulticast ip then True
      else (case To4 ip of Some ip4 \<Rightarrow> ipEqual ip4 IPv4bcast | None \<Rightarrow> False))"

datatype guard_err = BlockedMetadata | BlockedPrivate | BadDialAddress | NotResolvedIP

text \<open>\<open>None\<close> is acceptance.\<close>

definition ValidateIP :: "IP \<Rightarrow> bool \<Rightarrow> guard_err option" where
  "ValidateIP ip blockPrivate =
     (if IsCloudMetadata ip then Some BlockedMetadata
      else if blockPrivate \<and> (IsPrivate ip \<or> (ip \<noteq> [] \<and> isNonUnicast ip)) then Some BlockedPrivate
      else None)"

definition DialControl :: "bool \<Rightarrow> string \<Rightarrow> guard_err option" where
  "DialControl blockPrivate address =
     (case SplitHostPort address of
        None \<Rightarrow> Some BadDialAddress
      | Some (host, _) \<Rightarrow>
          (case ParseIP host of None \<Rightarrow> Some NotResolvedIP | Some ip \<Rightarrow> ValidateIP ip blockPrivate))"

section \<open>The allowlist\<close>

definition allowHostRefresh :: int where "allowHostRefresh = 5 * 60 * 1000000000"

record Allow =
  nets :: "IPNet list"
  hosts :: "string list"
  hostIPs :: "IP list option"
  resolved :: "int option"  \<comment> \<open>\<open>None\<close> is the zero time\<close>

definition trimDot :: "string \<Rightarrow> string" where
  "trimDot s = (if s \<noteq> [] \<and> last s = CHR ''.'' then butlast s else s)"

definition hostChar :: "char \<Rightarrow> bool" where
  "hostChar c \<longleftrightarrow> c = CHR ''-'' \<or> isDigit c \<or> (97 \<le> ch c \<and> ch c \<le> 122) \<or> (65 \<le> ch c \<and> ch c \<le> 90)"

definition validHostname :: "string \<Rightarrow> bool" where
  "validHostname s =
     (if s = [] \<or> length s > 253 then False
      else list_all (\<lambda>l. l \<noteq> [] \<and> length l \<le> 63 \<and> hd l \<noteq> CHR ''-'' \<and> last l \<noteq> CHR ''-'' \<and> list_all hostChar l)
             (splitOn CHR ''.'' (trimDot s)))"

fun allowEntries :: "string list \<Rightarrow> Allow \<Rightarrow> string list \<Rightarrow> Allow \<times> string list" where
  "allowEntries [] al bad = (al, bad)"
| "allowEntries (e0 # es) al bad =
     (let e = trimC isSpaceC e0
      in if e = [] then allowEntries es al bad
         else (case ParseCIDR e of
                 Some n \<Rightarrow> allowEntries es (al\<lparr>nets := nets al @ [n]\<rparr>) bad
               | None \<Rightarrow>
                   (case ParseIP (trimC (\<lambda>c. c = CHR ''['' \<or> c = CHR '']'') e) of
                      Some ip \<Rightarrow>
                        (let bits = (if To4 ip = None then 128 else 32)
                         in allowEntries es (al\<lparr>nets := nets al @ [\<lparr>NIP = ip, NMask = CIDRMask bits bits\<rparr>]\<rparr>) bad)
                    | None \<Rightarrow>
                        if validHostname e then allowEntries es (al\<lparr>hosts := hosts al @ [map lowerC (trimDot e)]\<rparr>) bad
                        else allowEntries es al (bad @ [e]))))"

definition ParseAllow :: "string \<Rightarrow> Allow option \<times> string list" where
  "ParseAllow spec =
     (case allowEntries (splitOn CHR '','' spec) \<lparr>nets = [], hosts = [], hostIPs = None, resolved = None\<rparr> [] of
        (al, bad) \<Rightarrow> (if nets al = [] \<and> hosts al = [] then None else Some al, bad))"

text \<open>\<open>hostAddrs\<close>: \<open>lookup\<close> is the resolver, \<open>None\<close> a failed lookup. A failed round keeps the previous set.\<close>

definition refreshHosts :: "(string \<Rightarrow> IP list option) \<Rightarrow> int \<Rightarrow> Allow \<Rightarrow> IP list \<times> Allow" where
  "refreshHosts lookup now a =
     (let rs = List.map_filter lookup (hosts a);
          ips = (case hostIPs a of Some old \<Rightarrow> if rs \<noteq> [] then concat rs else old | None \<Rightarrow> concat rs)
      in (ips, a\<lparr>hostIPs := Some ips, resolved := Some now\<rparr>))"

definition hostAddrs :: "(string \<Rightarrow> IP list option) \<Rightarrow> int \<Rightarrow> Allow \<Rightarrow> IP list \<times> Allow" where
  "hostAddrs lookup now a =
     (case hostIPs a of
        Some ips \<Rightarrow>
          (case resolved a of
             Some t \<Rightarrow> if now - t < allowHostRefresh then (ips, a) else refreshHosts lookup now a
           | None \<Rightarrow> refreshHosts lookup now a)
      | None \<Rightarrow> refreshHosts lookup now a)"

text \<open>\<open>Contains\<close> on a possibly nil allowlist; the second component is the allowlist with its refreshed cache.\<close>

definition Contains :: "(string \<Rightarrow> IP list option) \<Rightarrow> int \<Rightarrow> Allow option \<Rightarrow> IP \<Rightarrow> bool \<times> Allow option" where
  "Contains lookup now oa ip =
     (case oa of
        None \<Rightarrow> (False, None)
      | Some a \<Rightarrow>
          if ip = [] \<or> IsCloudMetadata ip then (False, oa)
          else if \<exists>n \<in> set (nets a). netContains n ip then (True, oa)
          else if hosts a = [] then (False, oa)
          else (case hostAddrs lookup now a of (ips, a') \<Rightarrow> (\<exists>h \<in> set ips. ipEqual h ip, Some a')))"

definition ValidateIPAllow :: "(string \<Rightarrow> IP list option) \<Rightarrow> int \<Rightarrow> IP \<Rightarrow> bool \<Rightarrow> Allow option \<Rightarrow> guard_err option \<times> Allow option" where
  "ValidateIPAllow lookup now ip blockPrivate oa =
     (if blockPrivate then
        (case Contains lookup now oa ip of
           (True, oa') \<Rightarrow> (None, oa')
         | (False, oa') \<Rightarrow> (ValidateIP ip blockPrivate, oa'))
      else (ValidateIP ip blockPrivate, oa))"

definition DialControlAllow :: "(string \<Rightarrow> IP list option) \<Rightarrow> int \<Rightarrow> bool \<Rightarrow> Allow option \<Rightarrow> string \<Rightarrow> guard_err option \<times> Allow option" where
  "DialControlAllow lookup now blockPrivate oa address =
     (case oa of
        None \<Rightarrow> (DialControl blockPrivate address, None)
      | Some a \<Rightarrow>
          (case SplitHostPort address of
             None \<Rightarrow> (Some BadDialAddress, oa)
           | Some (host, _) \<Rightarrow>
               (case ParseIP host of
                  None \<Rightarrow> (Some NotResolvedIP, oa)
                | Some ip \<Rightarrow> ValidateIPAllow lookup now ip blockPrivate oa)))"

section \<open>The ranges in plain numbers\<close>

definition v4_private :: "byte list \<Rightarrow> bool" where
  "v4_private q \<longleftrightarrow> q ! 0 = 0 \<or> q ! 0 = 10 \<or> q ! 0 = 127 \<or> (q ! 0 = 169 \<and> q ! 1 = 254) \<or> (q ! 0 = 192 \<and> q ! 1 = 168) \<or>
     (q ! 0 = 172 \<and> 16 \<le> q ! 1 \<and> q ! 1 \<le> 31) \<or> (q ! 0 = 100 \<and> 64 \<le> q ! 1 \<and> q ! 1 \<le> 127)"

definition v6_private :: "byte list \<Rightarrow> bool" where
  "v6_private x \<longleftrightarrow> x = replicate 16 0 \<or> x = replicate 15 0 @ [1] \<or> x ! 0 = 0xfc \<or> x ! 0 = 0xfd \<or>
     (x ! 0 = 0xfe \<and> 0x80 \<le> x ! 1 \<and> x ! 1 \<le> 0xbf)"

lemma privateRanges_eq:
  "privateRanges =
    [\<lparr>NIP = [0, 0, 0, 0], NMask = [255, 0, 0, 0]\<rparr>, \<lparr>NIP = [10, 0, 0, 0], NMask = [255, 0, 0, 0]\<rparr>,
     \<lparr>NIP = [100, 64, 0, 0], NMask = [255, 192, 0, 0]\<rparr>, \<lparr>NIP = [127, 0, 0, 0], NMask = [255, 0, 0, 0]\<rparr>,
     \<lparr>NIP = [169, 254, 0, 0], NMask = [255, 255, 0, 0]\<rparr>, \<lparr>NIP = [172, 16, 0, 0], NMask = [255, 240, 0, 0]\<rparr>,
     \<lparr>NIP = [192, 168, 0, 0], NMask = [255, 255, 0, 0]\<rparr>,
     \<lparr>NIP = replicate 15 0 @ [1], NMask = replicate 16 255\<rparr>,
     \<lparr>NIP = 252 # replicate 15 0, NMask = 254 # replicate 15 0\<rparr>,
     \<lparr>NIP = [254, 128] @ replicate 14 0, NMask = [255, 192] @ replicate 14 0\<rparr>,
     \<lparr>NIP = replicate 16 0, NMask = replicate 16 255\<rparr>]"
  by code_simp


text \<open>Masking with a run of ones keeps a range of bits.\<close>

lemma and_run: "(x :: int) AND push_bit k (mask j) = x div 2 ^ k mod 2 ^ j * 2 ^ k"
proof -
  have "x AND push_bit k (mask j) = push_bit k (take_bit j (drop_bit k x))"
    by (rule bit_eqI) (auto simp: bit_and_iff bit_push_bit_iff bit_mask_iff bit_take_bit_iff bit_drop_bit_eq)
  then show ?thesis by (simp add: push_bit_eq_mult take_bit_eq_mod drop_bit_eq_div)
qed

lemma int_masks:
  "(x :: int) AND 192 = x div 64 mod 4 * 64" "x AND 240 = x div 16 mod 16 * 16" "x AND 254 = x div 2 mod 128 * 2"
  "x AND 255 = x mod 256"
proof -
  have p: "push_bit 6 (mask 2) = (192 :: int)" "push_bit 4 (mask 4) = (240 :: int)" "push_bit 1 (mask 7) = (254 :: int)"
    "push_bit 0 (mask 8) = (255 :: int)"
    by (simp_all add: push_bit_eq_mult mask_eq_exp_minus_1)
  show "x AND 192 = x div 64 mod 4 * 64" using and_run [of x 6 2] unfolding p by simp
  show "x AND 240 = x div 16 mod 16 * 16" using and_run [of x 4 4] unfolding p by simp
  show "x AND 254 = x div 2 mod 128 * 2" using and_run [of x 1 7] unfolding p by simp
  show "x AND 255 = x mod 256" using and_run [of x 0 8] unfolding p by simp
qed

lemma byte_uint: "(a :: byte) = b \<longleftrightarrow> uint a = uint b" "(a :: byte) \<le> b \<longleftrightarrow> uint a \<le> uint b" "0 \<le> uint (b :: byte)" "uint (b :: byte) < 256"
  using unsigned_less [of b, where 'a = int] by (simp_all add: word_uint_eq_iff word_le_def)

lemma int_ranges:
  fixes x :: int
  assumes "0 \<le> x" "x < 256"
  shows "(64 = x div 64 mod 4 * 64) = (64 \<le> x \<and> x \<le> 127)" "(16 = x div 16 mod 16 * 16) = (16 \<le> x \<and> x \<le> 31)"
    "(252 = x div 2 mod 128 * 2) = (x = 252 \<or> x = 253)" "(128 = x div 64 mod 4 * 64) = (128 \<le> x \<and> x \<le> 191)"
    "(224 = x div 16 mod 16 * 16) = (224 \<le> x \<and> x \<le> 239)"
proof -
  have m: "x div 64 mod 4 = x div 64" "x div 16 mod 16 = x div 16" "x div 2 mod 128 = x div 2" using assms by simp_all
  have d: "(64 = y * 64) = (y = 1)" "(16 = y * 16) = (y = 1)" "(252 = y * 2) = (y = 126)" "(128 = y * 64) = (y = 2)"
    "(224 = y * 16) = (y = 14)" for y :: int by auto
  show "(64 = x div 64 mod 4 * 64) = (64 \<le> x \<and> x \<le> 127)" unfolding m d by (rule iffI; linarith)
  show "(16 = x div 16 mod 16 * 16) = (16 \<le> x \<and> x \<le> 31)" unfolding m d by (rule iffI; linarith)
  show "(252 = x div 2 mod 128 * 2) = (x = 252 \<or> x = 253)" unfolding m d by (rule iffI; linarith)
  show "(128 = x div 64 mod 4 * 64) = (128 \<le> x \<and> x \<le> 191)" unfolding m d by (rule iffI; linarith)
  show "(224 = x div 16 mod 16 * 16) = (224 \<le> x \<and> x \<le> 239)" unfolding m d by (rule iffI; linarith)
qed

lemma byte_masks:
  fixes b :: byte
  shows "64 = b AND 192 \<longleftrightarrow> 64 \<le> b \<and> b \<le> 127" "16 = b AND 240 \<longleftrightarrow> 16 \<le> b \<and> b \<le> 31"
    "252 = b AND 254 \<longleftrightarrow> b = 252 \<or> b = 253" "128 = b AND 192 \<longleftrightarrow> 128 \<le> b \<and> b \<le> 191"
    "224 = b AND 240 \<longleftrightarrow> 224 \<le> b \<and> b \<le> 239" "b AND 255 = b"
proof -
  note R = int_ranges [OF byte_uint(3,4), of b]
  have n: "uint (64 :: byte) = 64" "uint (127 :: byte) = 127" "uint (16 :: byte) = 16" "uint (31 :: byte) = 31"
    "uint (252 :: byte) = 252" "uint (253 :: byte) = 253" "uint (128 :: byte) = 128" "uint (191 :: byte) = 191"
    "uint (224 :: byte) = 224" "uint (239 :: byte) = 239"
    by simp_all
  have a: "uint (b AND 192) = uint b div 64 mod 4 * 64" "uint (b AND 240) = uint b div 16 mod 16 * 16"
    "uint (b AND 254) = uint b div 2 mod 128 * 2"
    by (simp_all add: unsigned_and_eq int_masks)
  show "64 = b AND 192 \<longleftrightarrow> 64 \<le> b \<and> b \<le> 127" "16 = b AND 240 \<longleftrightarrow> 16 \<le> b \<and> b \<le> 31"
    "252 = b AND 254 \<longleftrightarrow> b = 252 \<or> b = 253" "128 = b AND 192 \<longleftrightarrow> 128 \<le> b \<and> b \<le> 191"
    "224 = b AND 240 \<longleftrightarrow> 224 \<le> b \<and> b \<le> 239"
    unfolding byte_uint(1,2) a n by (rule R)+
  show "b AND 255 = b" by (simp add: byte_uint(1) unsigned_and_eq int_masks byte_uint(3,4))
qed

lemma list4: "length q = 4 \<Longrightarrow> q = [q ! 0, q ! 1, q ! 2, q ! 3]"
  by (cases q rule: list.exhaust; simp) (auto simp: length_Suc_conv eval_nat_numeral)

lemma To4_length: "To4 ip = Some q \<Longrightarrow> length q = 4"
  by (auto simp: To4_def split: if_splits)

lemma To4_4 [simp]: "length q = 4 \<Longrightarrow> To4 q = Some q"
  by (simp add: To4_def)

lemma contains4:
  assumes "length q = 4"
  shows "netContains \<lparr>NIP = [a, b, c, d], NMask = [m0, m1, 0, 0]\<rparr> q \<longleftrightarrow>
    a AND m0 = q ! 0 AND m0 \<and> b AND m1 = q ! 1 AND m1"
proof -
  have "(\<forall>i < 4. P i) \<longleftrightarrow> P 0 \<and> P 1 \<and> P 2 \<and> P (3 :: nat)" for P
    by (auto simp: eval_nat_numeral less_Suc_eq)
  then show ?thesis
    using assms by (simp add: netContains_def networkNumberAndMask_def Let_def)
qed

lemma contains_v6_v4: "length q = 4 \<Longrightarrow> To4 n = None \<Longrightarrow> length n = 16 \<Longrightarrow> \<not> netContains \<lparr>NIP = n, NMask = m\<rparr> q"
  by (auto simp: netContains_def networkNumberAndMask_def Let_def)

lemma contains_v4_v6:
  "To4 x = None \<Longrightarrow> length n = 4 \<Longrightarrow> length m = 4 \<Longrightarrow> x \<noteq> [] \<Longrightarrow> \<not> netContains \<lparr>NIP = n, NMask = m\<rparr> x"
  by (auto simp: netContains_def networkNumberAndMask_def Let_def To4_def)

lemma private_v4:
  assumes "length q = 4"
  shows "(\<exists>r \<in> set privateRanges. netContains r q) = v4_private q"
proof -
  have n: "To4 (replicate 15 0 @ [1] :: byte list) = None" "To4 (252 # replicate 15 0 :: byte list) = None"
    "To4 ([254, 128] @ replicate 14 0 :: byte list) = None" "To4 (replicate 16 0 :: byte list) = None"
    by code_simp+
  have v6: "\<not> netContains \<lparr>NIP = replicate 15 0 @ [1], NMask = replicate 16 255\<rparr> q"
    "\<not> netContains \<lparr>NIP = 252 # replicate 15 0, NMask = 254 # replicate 15 0\<rparr> q"
    "\<not> netContains \<lparr>NIP = [254, 128] @ replicate 14 0, NMask = [255, 192] @ replicate 14 0\<rparr> q"
    "\<not> netContains \<lparr>NIP = replicate 16 0, NMask = replicate 16 255\<rparr> q"
    by (rule contains_v6_v4 [OF assms], use n in simp_all)+
  have ands: "(100::byte) AND 255 = 100" "(64::byte) AND 192 = 64" "(16::byte) AND 240 = 16" by code_simp+
  show ?thesis
    unfolding privateRanges_eq list.set ball_simps bex_simps
    using v6 by (simp add: contains4 [OF assms] ands byte_masks v4_private_def) (metis)
qed

lemma contains16:
  assumes "length n = 16" "length m = 16" "length x = 16" "To4 n = None" "To4 x = None"
  shows "netContains \<lparr>NIP = n, NMask = m\<rparr> x \<longleftrightarrow> (\<forall>i < 16. n ! i AND m ! i = x ! i AND m ! i)"
  using assms by (simp add: netContains_def networkNumberAndMask_def Let_def)

lemma contains_full:
  assumes "length n = 16" "length x = 16" "To4 n = None" "To4 x = None"
  shows "netContains \<lparr>NIP = n, NMask = replicate 16 255\<rparr> x \<longleftrightarrow> x = n"
proof -
  have "netContains \<lparr>NIP = n, NMask = replicate 16 255\<rparr> x \<longleftrightarrow> (\<forall>i < 16. n ! i = x ! i)"
    using assms by (subst contains16) (auto simp: byte_masks)
  also have "\<dots> \<longleftrightarrow> x = n" using assms(1,2) by (auto simp: list_eq_iff_nth_eq)
  finally show ?thesis .
qed

lemma contains_head:
  assumes "length x = 16" "To4 x = None" "To4 ([a, b] @ replicate 14 0) = None"
  shows "netContains \<lparr>NIP = [a, b] @ replicate 14 0, NMask = [m0, m1] @ replicate 14 0\<rparr> x \<longleftrightarrow>
    a AND m0 = x ! 0 AND m0 \<and> b AND m1 = x ! 1 AND m1"
proof -
  have "netContains \<lparr>NIP = [a, b] @ replicate 14 0, NMask = [m0, m1] @ replicate 14 0\<rparr> x \<longleftrightarrow>
      (\<forall>i < 16. ([a, b] @ replicate 14 0) ! i AND ([m0, m1] @ replicate 14 0) ! i = x ! i AND ([m0, m1] @ replicate 14 0) ! i)"
    using assms by (subst contains16) simp_all
  also have "\<dots> \<longleftrightarrow> a AND m0 = x ! 0 AND m0 \<and> b AND m1 = x ! 1 AND m1"
  proof
    assume h: "a AND m0 = x ! 0 AND m0 \<and> b AND m1 = x ! 1 AND m1"
    show "\<forall>i < 16. ([a, b] @ replicate 14 0) ! i AND ([m0, m1] @ replicate 14 0) ! i = x ! i AND ([m0, m1] @ replicate 14 0) ! i"
    proof (intro allI impI)
      fix i :: nat
      assume "i < 16"
      then have "i = 0 \<or> i = 1 \<or> i = (i - 2) + 2 \<and> i - 2 < 14" by arith
      then consider "i = 0" | "i = 1" | j where "i = j + 2" "j < 14" by blast
      then show "([a, b] @ replicate 14 0) ! i AND ([m0, m1] @ replicate 14 0) ! i = x ! i AND ([m0, m1] @ replicate 14 0) ! i"
        using h by cases simp_all
    qed
  next
    assume h: "\<forall>i < 16. ([a, b] @ replicate 14 0) ! i AND ([m0, m1] @ replicate 14 0) ! i = x ! i AND ([m0, m1] @ replicate 14 0) ! i"
    from h [rule_format, of 0] h [rule_format, of 1] show "a AND m0 = x ! 0 AND m0 \<and> b AND m1 = x ! 1 AND m1" by simp
  qed
  finally show ?thesis .
qed


lemma private_v6:
  assumes "length x = 16" "To4 x = None"
  shows "(\<exists>r \<in> set privateRanges. netContains r x) = v6_private x"
proof -
  have n: "To4 (replicate 15 0 @ [1] :: byte list) = None" "To4 ([252, 0] @ replicate 14 0 :: byte list) = None"
    "To4 ([254, 128] @ replicate 14 0 :: byte list) = None" "To4 (replicate 16 0 :: byte list) = None"
    by code_simp+
  have v4: "\<not> netContains \<lparr>NIP = [a, b, c, d], NMask = [m0, m1, m2, m3]\<rparr> x" for a b c d m0 m1 m2 m3
    by (rule contains_v4_v6) (use assms in auto)
  have f: "netContains \<lparr>NIP = replicate 15 0 @ [1], NMask = replicate 16 255\<rparr> x \<longleftrightarrow> x = replicate 15 0 @ [1]"
    "netContains \<lparr>NIP = replicate 16 0, NMask = replicate 16 255\<rparr> x \<longleftrightarrow> x = replicate 16 0"
    by (rule contains_full, use assms n in simp_all)+
  have e: "(252 # replicate 15 0 :: byte list) = [252, 0] @ replicate 14 0" "(254 # replicate 15 0 :: byte list) = [254, 0] @ replicate 14 0"
    by code_simp+
  have ands: "(252::byte) AND 254 = 252" "(128::byte) AND 192 = 128" "(254::byte) AND 255 = 254" by code_simp+
  have h: "netContains \<lparr>NIP = 252 # replicate 15 0, NMask = 254 # replicate 15 0\<rparr> x \<longleftrightarrow> x ! 0 = 252 \<or> x ! 0 = 253"
    unfolding e contains_head [OF assms n(2)] ands by (simp add: byte_masks)
  have k: "netContains \<lparr>NIP = [254, 128] @ replicate 14 0, NMask = [255, 192] @ replicate 14 0\<rparr> x \<longleftrightarrow>
      x ! 0 = 254 \<and> 128 \<le> x ! 1 \<and> x ! 1 \<le> 191"
    unfolding contains_head [OF assms n(3)] ands byte_masks by auto
  show ?thesis
    unfolding privateRanges_eq by (simp only: list.set bex_simps v4 f h k v6_private_def) blast
qed

text \<open>What an accepted dial may reach when private addresses are blocked: an address of the public unicast space.\<close>

definition public_unicast :: "IP \<Rightarrow> bool" where
  "public_unicast ip =
     (case To4 ip of
        Some q \<Rightarrow> \<not> v4_private q \<and> \<not> (224 \<le> q ! 0 \<and> q ! 0 \<le> 239) \<and> q \<noteq> [255, 255, 255, 255]
      | None \<Rightarrow> \<not> v6_private ip \<and> ip ! 0 \<noteq> 255)"

definition metadata_address :: "IP \<Rightarrow> bool" where
  "metadata_address ip =
     (case To4 ip of
        Some q \<Rightarrow> q \<in> {[169, 254, 169, 254], [169, 254, 170, 2], [100, 100, 100, 200]}
      | None \<Rightarrow> ip = [253, 0, 14, 194, 0, 0, 0, 0, 0, 0, 0, 0, 0, 0, 2, 84])"

lemma metadataIPs_eq:
  "metadataIPs = [Some (v4InV6Prefix @ [169, 254, 169, 254]), Some (v4InV6Prefix @ [169, 254, 170, 2]),
     Some (v4InV6Prefix @ [100, 100, 100, 200]), Some [253, 0, 14, 194, 0, 0, 0, 0, 0, 0, 0, 0, 0, 0, 2, 84]]"
  by code_simp

lemma mapped_eq:
  assumes "length ip = 16" "length q = 4"
  shows "v4InV6Prefix @ q = ip \<longleftrightarrow> To4 ip = Some q"
proof -
  have l: "length v4InV6Prefix = 12" by (simp add: v4InV6Prefix_def)
  have "ip = v4InV6Prefix @ q \<longleftrightarrow> take 12 ip = v4InV6Prefix \<and> drop 12 ip = q"
    using assms l by (metis append_eq_conv_conj append_take_drop_id)
  then show ?thesis using assms by (auto simp: To4_def)
qed

lemma metadata_spec:
  assumes "length ip = 16"
  shows "IsCloudMetadata ip = metadata_address ip"
proof -
  have ne: "ip \<noteq> []" using assms by auto
  have eq: "ipEqual (v4InV6Prefix @ [a, b, c, d]) ip \<longleftrightarrow> To4 ip = Some [a, b, c, d]" for a b c d
    using mapped_eq [OF assms, of "[a, b, c, d]"] assms by (simp add: ipEqual_def v4InV6Prefix_def)
  have six: "To4 [253, 0, 14, 194, 0, 0, 0, 0, 0, 0, 0, 0, 0, 0, 2, 84 :: byte] = None" by code_simp
  have "ipEqual [253, 0, 14, 194, 0, 0, 0, 0, 0, 0, 0, 0, 0, 0, 2, 84] ip \<longleftrightarrow>
      [253, 0, 14, 194, 0, 0, 0, 0, 0, 0, 0, 0, 0, 0, 2, 84] = ip"
    using assms by (simp add: ipEqual_def)
  then have "IsCloudMetadata ip \<longleftrightarrow> To4 ip = Some [169, 254, 169, 254] \<or> To4 ip = Some [169, 254, 170, 2] \<or>
      To4 ip = Some [100, 100, 100, 200] \<or> [253, 0, 14, 194, 0, 0, 0, 0, 0, 0, 0, 0, 0, 0, 2, 84] = ip"
    using ne by (simp add: IsCloudMetadata_def metadataIPs_eq eq)
  then show ?thesis
    using six by (auto simp: metadata_address_def split: option.splits)
qed

lemma private_spec:
  assumes "length ip = 16"
  shows "IsPrivate ip = (case To4 ip of Some q \<Rightarrow> v4_private q | None \<Rightarrow> v6_private ip)"
  using assms private_v4 private_v6 [OF assms] To4_length [of ip]
  by (auto simp: IsPrivate_def Let_def split: option.splits)

lemma nonUnicast_spec:
  assumes "length ip = 16" "\<not> IsPrivate ip"
  shows "isNonUnicast ip = (case To4 ip of Some q \<Rightarrow> (224 \<le> q ! 0 \<and> q ! 0 \<le> 239) \<or> q = [255, 255, 255, 255] | None \<Rightarrow> ip ! 0 = 255)"
proof -
  have z: "\<not> IsUnspecified ip"
  proof
    assume "IsUnspecified ip"
    then have "ip = v4InV6Prefix @ [0, 0, 0, 0] \<or> ip = replicate 16 0"
      using assms(1) by (auto simp: IsUnspecified_def ipEqual_def IPv4zero_def IPv6unspecified_def v4InV6Prefix_def split: if_splits)
    then show False
    proof
      assume a: "ip = v4InV6Prefix @ [0, 0, 0, 0]"
      then have "To4 ip = Some [0, 0, 0, 0]" using mapped_eq [OF assms(1), of "[0, 0, 0, 0]"] by simp
      then show False using assms private_spec [OF assms(1)] by (simp add: v4_private_def)
    next
      assume a: "ip = replicate 16 0"
      have "To4 (replicate 16 0 :: byte list) = None" by code_simp
      then show False using assms private_spec [OF assms(1)] a by (simp add: v6_private_def)
    qed
  qed
  have b: "ipEqual q IPv4bcast \<longleftrightarrow> q = [255, 255, 255, 255]" if "length q = 4" for q
    using that by (auto simp: ipEqual_def IPv4bcast_def v4InV6Prefix_def)
  have m: "(y AND 240 = 224) \<longleftrightarrow> 224 \<le> y \<and> y \<le> 239" for y :: byte using byte_masks(5) [of y] by auto
  show ?thesis
    using z assms(1) To4_length [of ip] by (auto simp: isNonUnicast_def IsMulticast_def m b split: option.splits)
qed

lemma ValidateIP_spec:
  assumes "length ip = 16"
  shows "ValidateIP ip bp = None \<longleftrightarrow> \<not> metadata_address ip \<and> (bp \<longrightarrow> public_unicast ip)"
proof -
  have ne: "ip \<noteq> []" using assms by auto
  have "\<not> (IsPrivate ip \<or> isNonUnicast ip) \<longleftrightarrow> public_unicast ip"
  proof (cases "IsPrivate ip")
    case True
    then show ?thesis using private_spec [OF assms] by (auto simp: public_unicast_def split: option.splits)
  next
    case False
    then show ?thesis using private_spec [OF assms] nonUnicast_spec [OF assms False]
      by (auto simp: public_unicast_def split: option.splits)
  qed
  then show ?thesis using ne metadata_spec [OF assms] by (auto simp: ValidateIP_def)
qed

section \<open>Properties\<close>

text \<open>C15: The dial-time guard decides exactly by the numeric address: a dial is accepted iff its address splits into host
  and port, the host is an IP literal that is not a cloud-metadata endpoint (in IPv4, IPv4-mapped or IPv6 form) and,
  when private addresses are blocked, the address lies outside every private, loopback, CGNAT, link-local,
  unspecified, multicast and broadcast range. A host name is never accepted.\<close>

theorem netguard_dial_exact:
  "DialControl bp address = None \<longleftrightarrow>
     (\<exists>host port ip. SplitHostPort address = Some (host, port) \<and> ParseIP host = Some ip \<and> length ip = 16 \<and>
        \<not> metadata_address ip \<and> (bp \<longrightarrow> public_unicast ip))"
  using ParseIP_length ValidateIP_spec
  by (auto simp: DialControl_def split: option.splits prod.splits)

text \<open>The allowlist only ever opens what the operator listed, and never the metadata endpoints: a dial accepted with
  an allowlist goes to a resolved IP that is not a metadata endpoint and is public, or private addresses are not
  blocked, or the IP is in a listed network or among the resolved addresses of the listed hosts.\<close>

theorem netguard_allow_safe:
  assumes "DialControlAllow lookup now bp oa address = (None, oa')"
  shows "\<exists>host port ip. SplitHostPort address = Some (host, port) \<and> ParseIP host = Some ip \<and> \<not> metadata_address ip \<and>
    (\<not> bp \<or> public_unicast ip \<or> (\<exists>a. oa = Some a \<and>
       ((\<exists>n \<in> set (nets a). netContains n ip) \<or> (\<exists>h \<in> set (fst (hostAddrs lookup now a)). ipEqual h ip))))"
proof (cases oa)
  case None
  then have "DialControl bp address = None" using assms by (simp add: DialControlAllow_def)
  then obtain host port ip where h: "SplitHostPort address = Some (host, port)" "ParseIP host = Some ip" "ValidateIP ip bp = None"
    by (auto simp: DialControl_def split: option.splits)
  with ValidateIP_spec [OF ParseIP_length [OF h(2)], of bp] show ?thesis by blast
next
  case (Some a)
  with assms obtain host port ip where h: "SplitHostPort address = Some (host, port)" "ParseIP host = Some ip"
      "ValidateIPAllow lookup now ip bp oa = (None, oa')"
    by (auto simp: DialControlAllow_def split: option.splits)
  have l: "length ip = 16" by (rule ParseIP_length [OF h(2)])
  have "\<not> metadata_address ip \<and> (\<not> bp \<or> public_unicast ip \<or> (\<exists>n \<in> set (nets a). netContains n ip) \<or>
      (\<exists>h \<in> set (fst (hostAddrs lookup now a)). ipEqual h ip))"
  proof (cases "bp \<and> fst (Contains lookup now oa ip)")
    case True
    then have c: "fst (Contains lookup now (Some a) ip)" using Some by simp
    then have "\<not> IsCloudMetadata ip" by (auto simp: Contains_def split: if_splits)
    moreover from c have "(\<exists>n \<in> set (nets a). netContains n ip) \<or> (\<exists>h \<in> set (fst (hostAddrs lookup now a)). ipEqual h ip)"
      by (auto simp: Contains_def split: if_splits prod.splits)
    ultimately show ?thesis using metadata_spec [OF l] by blast
  next
    case False
    then have "ValidateIP ip bp = None" using h(3) by (auto simp: ValidateIPAllow_def split: if_splits prod.splits bool.splits)
    with ValidateIP_spec [OF l, of bp] show ?thesis by blast
  qed
  with h Some show ?thesis by blast
qed

lemma demo_guard:
  "fst (ParseAllow ''192.168.1.0/24'') = Some \<lparr>nets = [\<lparr>NIP = [192, 168, 1, 0], NMask = [255, 255, 255, 0]\<rparr>], hosts = [],
     hostIPs = None, resolved = None\<rparr>"
  "SplitHostPort ''192.168.1.5:80'' = Some (''192.168.1.5'', ''80'')"
  "ParseIP ''192.168.1.5'' = Some (v4InV6Prefix @ [192, 168, 1, 5])"
  "IsCloudMetadata (v4InV6Prefix @ [192, 168, 1, 5]) = False"
  "netContains \<lparr>NIP = [192, 168, 1, 0], NMask = [255, 255, 255, 0]\<rparr> (v4InV6Prefix @ [192, 168, 1, 5])"
  "To4 (v4InV6Prefix @ [192, 168, 1, 5]) = Some [192, 168, 1, 5]"
  by code_simp+

theorem netguard_allow_safe_witness:
  "\<exists>ip. ParseIP ''192.168.1.5'' = Some ip \<and> \<not> metadata_address ip \<and> DialControl True ''192.168.1.5:80'' = Some BlockedPrivate \<and>
     fst (DialControlAllow (\<lambda>_. None) 0 True (fst (ParseAllow ''192.168.1.0/24'')) ''192.168.1.5:80'') = None"
proof -
  have "IsPrivate (v4InV6Prefix @ [192, 168, 1, 5])"
    using private_spec [of "v4InV6Prefix @ [192, 168, 1, 5]"] demo_guard(6) by (simp add: v4InV6Prefix_def v4_private_def)
  then have b: "DialControl True ''192.168.1.5:80'' = Some BlockedPrivate"
    using demo_guard(2-4) by (simp add: DialControl_def ValidateIP_def)
  have a: "DialControlAllow (\<lambda>_. None) 0 True (fst (ParseAllow ''192.168.1.0/24'')) ''192.168.1.5:80'' =
     (None, fst (ParseAllow ''192.168.1.0/24''))"
    using demo_guard by (simp add: DialControlAllow_def ValidateIPAllow_def Contains_def)
  from netguard_allow_safe [OF a] b a show ?thesis using demo_guard(2) by auto
qed

lemma demo_public:
  "SplitHostPort ''8.8.8.8:53'' = Some (''8.8.8.8'', ''53'')"
  "ParseIP ''8.8.8.8'' = Some (v4InV6Prefix @ [8, 8, 8, 8])"
  "length (v4InV6Prefix @ [8, 8, 8, 8 :: byte]) = 16"
  "\<not> metadata_address (v4InV6Prefix @ [8, 8, 8, 8])"
  "public_unicast (v4InV6Prefix @ [8, 8, 8, 8])"
  "\<not> public_unicast (v4InV6Prefix @ [192, 168, 1, 5])"
  by code_simp+

theorem netguard_dial_exact_witness:
  "DialControl True ''8.8.8.8:53'' = None \<and> DialControl True ''192.168.1.5:80'' \<noteq> None"
proof (rule conjI)
  show "DialControl True ''8.8.8.8:53'' = None"
    unfolding netguard_dial_exact using demo_public(1-5) by blast
  show "DialControl True ''192.168.1.5:80'' \<noteq> None"
    unfolding netguard_dial_exact using demo_guard(2,3) demo_public(6) by simp
qed

end
