(* ===== verification/Proxy_Auth.thy ===== *)
theory Proxy_Auth
  imports Netguard
begin

text \<open>
  Who may use the stream proxy: \<open>streamproxy/auth.go\<close> and the request helpers of \<open>streamproxy/streamproxy.go\<close> it rests on.
  The effective client address behind trusted reverse proxies, the IP access list, signed tokens bound to an endpoint,
  its parameters, an expiry and an address, the password, and the proxy URLs (with sub-tokens) that rewritten playlists
  carry. AES-GCM, JSON and the source of random nonces are parameters; the clock is an argument (Unix seconds).
\<close>

section \<open>Requests and configuration\<close>

record Request =
  reqVerb :: string
  urlPath :: string
  rawQuery :: string
  RemoteAddr :: string
  reqHost :: string
  reqTLS :: bool
  reqHeader :: Header

record Config =
  Password :: string
  Secret :: "byte list"
  IPACL :: "IPNet list"
  Prebuffer :: int
  SegCacheTTL :: int
  PublicURL :: string
  UpstreamProxy :: string
  BlockPrivate :: bool
  PrivateAllow :: "Allow option"

abbreviation query :: "Request \<Rightarrow> (string \<times> string) list" where "query r \<equiv> parseQuery (rawQuery r)"

text \<open>\<open>New\<close> drops a secret that is no AES key, which turns signing off.\<close>

definition newConfig :: "Config \<Rightarrow> Config" where
  "newConfig c = (if length (Secret c) \<in> {16, 24, 32} then c else c\<lparr>Secret := []\<rparr>)"

section \<open>The effective client address\<close>

definition IPv6loopback :: IP where "IPv6loopback = replicate 15 0 @ [1]"

definition IsLoopback :: "IP \<Rightarrow> bool" where
  "IsLoopback ip = (case To4 ip of Some ip4 \<Rightarrow> ip4 ! 0 = 127 | None \<Rightarrow> ipEqual ip IPv6loopback)"

text \<open>\<open>None\<close> is a nil address; \<open>tp\<close> is the global list of trusted proxies (\<open>None\<close> before it is set).\<close>

definition peerIP :: "Request \<Rightarrow> IP option" where
  "peerIP r = ParseIP (case SplitHostPort (RemoteAddr r) of Some (host, _) \<Rightarrow> host | None \<Rightarrow> RemoteAddr r)"

definition isTrustedProxy :: "IPNet list option \<Rightarrow> IP option \<Rightarrow> bool" where
  "isTrustedProxy tp oip =
     (case oip of
        None \<Rightarrow> False
      | Some ip \<Rightarrow> if IsLoopback ip then True
                  else (case tp of None \<Rightarrow> False | Some ns \<Rightarrow> \<exists>n \<in> set ns. netContains n ip))"

definition trimSpace :: "string \<Rightarrow> string" where "trimSpace s = trimC isSpaceC s"

fun joinWith :: "string \<Rightarrow> string list \<Rightarrow> string" where
  "joinWith sep [] = []"
| "joinWith sep [x] = x"
| "joinWith sep (x # y # ys) = x @ sep @ joinWith sep (y # ys)"

text \<open>The walk over the forwarded hops, nearest first.\<close>

fun hopWalk :: "IPNet list option \<Rightarrow> IP option \<Rightarrow> string list \<Rightarrow> IP option \<Rightarrow> IP option" where
  "hopWalk tp peer [] leftmost = (if leftmost \<noteq> None then leftmost else peer)"
| "hopWalk tp peer (h # hs) leftmost =
     (case ParseIP (trimSpace h) of
        None \<Rightarrow> peer
      | Some ip \<Rightarrow> if \<not> isTrustedProxy tp (Some ip) then Some ip else hopWalk tp peer hs (Some ip))"

definition clientIP :: "IPNet list option \<Rightarrow> Request \<Rightarrow> IP option" where
  "clientIP tp r =
     (let peer = peerIP r; vals = hdrValues (reqHeader r) ''X-Forwarded-For''
      in if \<not> isTrustedProxy tp peer then peer
         else if vals = [] then peer
         else hopWalk tp peer (rev (splitOn (CHR '','') (joinWith '','' vals))) None)"

section \<open>Addresses as text\<close>

text \<open>\<open>net.IP.String\<close>.\<close>

function hexLower :: "nat \<Rightarrow> string" where
  "hexLower n = (if n < 16 then [if n < 10 then char_of (48 + n) else char_of (87 + n)]
                 else hexLower (n div 16) @ hexLower (n mod 16))"
  by pat_completeness auto
termination by (relation "measure (\<lambda>n. n)") (auto intro: less_trans [OF mod_less_divisor])

declare hexLower.simps [simp del]

definition v6Groups :: "IP \<Rightarrow> nat list" where
  "v6Groups ip = map (\<lambda>i. unat (ip ! (2 * i)) * 256 + unat (ip ! (2 * i + 1))) [0..<8]"

definition zeroRun :: "nat list \<Rightarrow> nat \<times> nat" where
  "zeroRun g = fold (\<lambda>i best. let l = length (takeWhile (\<lambda>x. x = 0) (drop i g)) in if l \<ge> 2 \<and> l > snd best then (i, l) else best)
                 [0..<8] (0, 0)"

definition ipString :: "IP \<Rightarrow> string" where
  "ipString ip =
     (case To4 ip of
        Some q \<Rightarrow> joinWith ''.'' (map (\<lambda>b. itoa (unat b)) q)
      | None \<Rightarrow>
          if length ip \<noteq> 16 then ''<nil>''
          else (let g = v6Groups ip; z = zeroRun g; hx = (\<lambda>xs. joinWith '':'' (map hexLower xs))
                in if snd z = 0 then hx g else hx (take (fst z) g) @ ''::'' @ hx (drop (fst z + snd z) g)))"

section \<open>Tokens\<close>

record token =
  Endpoint :: string
  Params :: "(string \<times> string) list"
  Exp :: int
  tokIP :: string

text \<open>The handler's AEAD (its nonce is 12 bytes) and the JSON codec of the payload.\<close>

record signer =
  gcmSeal :: "byte list \<Rightarrow> byte list \<Rightarrow> byte list"
  gcmOpen :: "byte list \<Rightarrow> byte list \<Rightarrow> byte list option"
  jsonMarshal :: "token \<Rightarrow> byte list"
  jsonUnmarshal :: "byte list \<Rightarrow> token option"

datatype token_err = NoSecret | NoEntropy | BadEncoding | TooShort | DecryptFailed | BadPayload | TokenExpired | IPMismatch

datatype auth_err = errUnauthorized | errForbidden

definition tokenDestPrefixParam :: string where "tokenDestPrefixParam = ''d_prefix''"

text \<open>\<open>rnd\<close> is what the random source delivers for the nonce.\<close>

definition signToken :: "Config \<Rightarrow> signer \<Rightarrow> byte list option \<Rightarrow> token \<Rightarrow> token_err + string" where
  "signToken cfg sg rnd t =
     (if Secret cfg = [] then Inl NoSecret
      else (case rnd of
              None \<Rightarrow> Inl NoEntropy
            | Some nonce \<Rightarrow> Inr (RawURLEncode (map unat (nonce @ gcmSeal sg nonce (jsonMarshal sg t))))))"

definition verifyToken :: "Config \<Rightarrow> signer \<Rightarrow> int \<Rightarrow> string \<Rightarrow> IP option \<Rightarrow> token_err + token" where
  "verifyToken cfg sg now s client =
     (if Secret cfg = [] then Inl NoSecret
      else (case RawURLDecode s of
              None \<Rightarrow> Inl BadEncoding
            | Some bs \<Rightarrow>
                (let ct = map of_nat bs
                 in if length ct < 12 then Inl TooShort
                    else (case gcmOpen sg (take 12 ct) (drop 12 ct) of
                            None \<Rightarrow> Inl DecryptFailed
                          | Some plain \<Rightarrow>
                              (case jsonUnmarshal sg plain of
                                 None \<Rightarrow> Inl BadPayload
                               | Some t \<Rightarrow>
                                   if Exp t < now then Inl TokenExpired
                                   else if tokIP t \<noteq> [] \<and> (case client of None \<Rightarrow> [] | Some ip \<Rightarrow> ipString ip) \<noteq> tokIP t then Inl IPMismatch
                                   else Inr t)))))"

section \<open>Destinations\<close>

definition tryBase64Decode :: "string \<Rightarrow> string option" where
  "tryBase64Decode s = (case RawURLDecode s of Some b \<Rightarrow> Some (strOf b) | None \<Rightarrow> map_option strOf (StdDecode s))"

definition decodeDest :: "string \<Rightarrow> string" where
  "decodeDest raw =
     (if hasPrefix ''http://'' raw \<or> hasPrefix ''https://'' raw then raw
      else if raw = [] then []
      else (case RawURLDecode raw of
              Some b \<Rightarrow> strOf b
            | None \<Rightarrow>
                (case StdDecode (map (\<lambda>c. if c = CHR '' '' then CHR ''+'' else c) raw) of
                   Some b \<Rightarrow> strOf b
                 | None \<Rightarrow> raw)))"

section \<open>Authorization\<close>

definition aclAllows :: "Config \<Rightarrow> IP option \<Rightarrow> bool" where
  "aclAllows cfg ip = (\<exists>n \<in> set (IPACL cfg). netContains n (case ip of None \<Rightarrow> [] | Some x \<Rightarrow> x))"

definition paramOk :: "(string \<times> string) list \<Rightarrow> string \<times> string \<Rightarrow> bool" where
  "paramOk q kv =
     (if fst kv = tokenDestPrefixParam then hasPrefix (snd kv) (decodeDest (qGet q ''d''))
      else (case qVals q (fst kv) of
              [] \<Rightarrow> snd kv = []
            | vals \<Rightarrow> length vals = 1 \<and> hd vals = snd kv))"

definition authorize :: "Config \<Rightarrow> IPNet list option \<Rightarrow> signer \<Rightarrow> int \<Rightarrow> Request \<Rightarrow> auth_err option" where
  "authorize cfg tp sg now r =
     (if IPACL cfg \<noteq> [] \<and> \<not> aclAllows cfg (clientIP tp r) then Some errForbidden
      else
        (let tok = qGet (query r) ''token''
         in if tok \<noteq> [] \<and> Secret cfg \<noteq> [] then
              (case verifyToken cfg sg now tok (clientIP tp r) of
                 Inl _ \<Rightarrow> Some errUnauthorized
               | Inr t \<Rightarrow>
                   if Endpoint t \<noteq> [] \<and> Endpoint t \<noteq> urlPath r then Some errUnauthorized
                   else if Params t \<noteq> [] \<and> \<not> list_all (paramOk (query r)) (Params t) then Some errUnauthorized
                   else None)
            else if Password cfg \<noteq> [] \<and> qGet (query r) ''api_password'' \<noteq> Password cfg then Some errUnauthorized
            else None))"

section \<open>Proxy URLs\<close>

record Options =
  Dest :: string
  ReqHeaders :: Header
  RespHeaders :: Header
  APIPassword :: string
  Proxy :: string
  subTokenExp :: int
  subTokenIP :: string

definition proxySchemes :: "string set" where "proxySchemes = {''socks5'', ''socks5h'', ''http'', ''https''}"

text \<open>\<open>ks\<close> is the order in which the runtime iterates over the keys of the query map.\<close>

definition addHeaders :: "string \<Rightarrow> (string \<times> string) list \<Rightarrow> string list \<Rightarrow> Header" where
  "addHeaders pre q ks =
     fold (\<lambda>k h. if hasPrefix pre k then fold (\<lambda>v h. hdrAdd h (drop (length pre) k) v) (qVals q k) h else h) ks []"

definition parseOptions :: "Config \<Rightarrow> IPNet list option \<Rightarrow> signer \<Rightarrow> int \<Rightarrow> string list \<Rightarrow> Request \<Rightarrow> Options" where
  "parseOptions cfg tp sg now ks r =
     (let q = query r; raw = qGet q ''proxy'';
          opts = \<lparr>Dest = decodeDest (qGet q ''d''),
                  ReqHeaders = addHeaders ''h_'' q ks, RespHeaders = addHeaders ''r_'' q ks,
                  APIPassword = qGet q ''api_password'',
                  Proxy = (if raw \<noteq> [] then (case urlParse raw of None \<Rightarrow> [] | Some u \<Rightarrow> if Scheme u \<in> proxySchemes then raw else []) else []),
                  subTokenExp = 0, subTokenIP = []\<rparr>;
          tok = qGet q ''token''
      in if APIPassword opts = [] \<and> Password cfg \<noteq> [] \<and> Secret cfg \<noteq> [] \<and> tok \<noteq> [] then
           (case verifyToken cfg sg now tok (clientIP tp r) of
              Inr t \<Rightarrow> opts\<lparr>subTokenExp := Exp t, subTokenIP := tokIP t\<rparr>
            | Inl _ \<Rightarrow> opts)
         else opts)"

definition subToken :: "Config \<Rightarrow> signer \<Rightarrow> byte list option \<Rightarrow> Options option \<Rightarrow> string \<Rightarrow> (string \<times> string) list \<Rightarrow> string" where
  "subToken cfg sg rnd oo ep ps =
     (case oo of
        None \<Rightarrow> []
      | Some opts \<Rightarrow>
          if subTokenExp opts = 0 \<or> Secret cfg = [] then []
          else (case signToken cfg sg rnd \<lparr>Endpoint = ep, Params = ps, Exp = subTokenExp opts, tokIP = subTokenIP opts\<rparr> of
                  Inl _ \<Rightarrow> []
                | Inr tok \<Rightarrow> tok))"

record proxyURLBuilder =
  pbOpts :: "Options option"
  pbHeaders :: string
  pbCred :: string
  pbTokens :: bool
  pbTail :: string

definition headerParts :: "string \<Rightarrow> Header \<Rightarrow> string" where
  "headerParts pre h = concat (map (\<lambda>(k, vs). concat (map (\<lambda>v. pre @ QueryEscape k @ ''='' @ QueryEscape v) vs)) h)"

text \<open>The header maps are listed in the order the runtime iterates over them.\<close>

definition newProxyURLBuilder :: "Config \<Rightarrow> Options option \<Rightarrow> proxyURLBuilder" where
  "newProxyURLBuilder cfg oo =
     (case oo of
        None \<Rightarrow> \<lparr>pbOpts = None, pbHeaders = [], pbCred = [], pbTokens = False, pbTail = []\<rparr>
      | Some opts \<Rightarrow>
          \<lparr>pbOpts = oo, pbHeaders = headerParts ''&h_'' (ReqHeaders opts) @ headerParts ''&r_'' (RespHeaders opts),
           pbCred = (if APIPassword opts \<noteq> [] then ''&api_password='' @ QueryEscape (APIPassword opts) else []),
           pbTokens = (APIPassword opts = [] \<and> subTokenExp opts \<noteq> 0 \<and> Secret cfg \<noteq> []),
           pbTail = (if Proxy opts \<noteq> [] then ''&proxy='' @ QueryEscape (Proxy opts) else [])\<rparr>)"

function encChunks :: "string \<Rightarrow> string" where
  "encChunks d = (if d = [] then [] else RawURLEncode (bytesOf (take 30 d)) @ encChunks (drop 30 d))"
  by pat_completeness auto
termination by (relation "measure length") auto

declare encChunks.simps [simp del]

definition build :: "Config \<Rightarrow> signer \<Rightarrow> byte list option \<Rightarrow> proxyURLBuilder \<Rightarrow> string \<Rightarrow> string \<Rightarrow> string \<Rightarrow> string" where
  "build cfg sg rnd pb extBase ep dest =
     (let t = (if pbTokens pb then subToken cfg sg rnd (pbOpts pb) ep [(''d'', RawURLEncode (bytesOf dest))] else []);
          tok = (if t \<noteq> [] then ''&token='' @ QueryEscape t else [])
      in extBase @ ep @ ''?d='' @ encChunks dest @ pbHeaders pb @ pbCred pb @ tok @ pbTail pb)"

definition buildProxyURL :: "Config \<Rightarrow> signer \<Rightarrow> byte list option \<Rightarrow> string \<Rightarrow> string \<Rightarrow> string \<Rightarrow> Options option \<Rightarrow> string" where
  "buildProxyURL cfg sg rnd extBase ep dest oo = build cfg sg rnd (newProxyURLBuilder cfg oo) extBase ep dest"

section \<open>Signing and verifying\<close>

text \<open>The laws of the parameters: an AEAD opens what it sealed, and the JSON codec reads back payloads of ASCII text.\<close>

definition asciiTok :: "token \<Rightarrow> bool" where
  "asciiTok t \<longleftrightarrow> list_all (\<lambda>c. ch c < 128) (Endpoint t @ tokIP t @ concat (map (\<lambda>(k, v). k @ v) (Params t)))"

definition aead_ok :: "signer \<Rightarrow> bool" where
  "aead_ok sg \<longleftrightarrow> (\<forall>n p. length n = 12 \<longrightarrow> gcmOpen sg n (gcmSeal sg n p) = Some p)"

definition json_ok :: "signer \<Rightarrow> bool" where
  "json_ok sg \<longleftrightarrow> (\<forall>t. asciiTok t \<longrightarrow> jsonUnmarshal sg (jsonMarshal sg t) = Some t)"

text \<open>What \<open>verifyToken\<close> still checks once a token has decoded to \<open>t\<close>.\<close>

definition tokLive :: "int \<Rightarrow> IP option \<Rightarrow> token \<Rightarrow> bool" where
  "tokLive now client t \<longleftrightarrow> now \<le> Exp t \<and> (tokIP t = [] \<or> (case client of None \<Rightarrow> [] | Some ip \<Rightarrow> ipString ip) = tokIP t)"

lemma unat_byte: "unat (b :: byte) < 256"
  using unsigned_less [where 'a = nat, of b] by simp

lemma verify_sign:
  assumes "aead_ok sg" "json_ok sg" "asciiTok t" "length nonce = 12" "Secret cfg \<noteq> []"
    and s: "signToken cfg sg (Some nonce) t = Inr s"
  shows "verifyToken cfg sg now s client = (if tokLive now client t then Inr t
    else if Exp t < now then Inl TokenExpired else Inl IPMismatch)"
proof -
  let ?c = "nonce @ gcmSeal sg nonce (jsonMarshal sg t)"
  have se: "s = RawURLEncode (map unat ?c)" using s assms(5) by (simp add: signToken_def)
  have d: "RawURLDecode s = Some (map unat ?c)"
    unfolding se by (rule RawURLDecode_Encode) (auto simp only: set_map unat_byte)
  have m: "map of_nat (map unat xs) = xs" for xs :: "byte list" by (simp add: o_def)
  have o: "gcmOpen sg (take 12 ?c) (drop 12 ?c) = Some (jsonMarshal sg t)"
    using assms(1,4) by (simp add: aead_ok_def)
  have j: "jsonUnmarshal sg (jsonMarshal sg t) = Some t" using assms(2,3) by (simp add: json_ok_def)
  show ?thesis using assms(4,5)
    by (simp add: verifyToken_def d m o j Let_def tokLive_def del: map_append map_map take_append drop_append)
qed

text \<open>The 30-byte chunks encode like the whole destination.\<close>

lemma encChunks_eq: "encChunks d = RawURLEncode (bytesOf d)"
proof (induction d rule: encChunks.induct)
  case (1 d)
  show ?case
  proof (cases "length d \<le> 30")
    case True
    then show ?thesis using 1 by (cases "d = []") (auto simp: encChunks.simps [of d] encChunks.simps [of "[]"] RawURLEncode_def)
  next
    case False
    have "encDigits (bytesOf (take 30 d) @ bytesOf (drop 30 d)) = encDigits (bytesOf (take 30 d)) @ encDigits (bytesOf (drop 30 d))"
      using False by (intro encDigits_append) simp
    then have "RawURLEncode (bytesOf d) = RawURLEncode (bytesOf (take 30 d)) @ RawURLEncode (bytesOf (drop 30 d))"
      by (simp add: RawURLEncode_def flip: map_append)
    then show ?thesis using 1 False by (auto simp: encChunks.simps [of d])
  qed
qed

abbreviation encDest :: "string \<Rightarrow> string" where "encDest d \<equiv> RawURLEncode (bytesOf d)"

lemma encDest_safe: "list_all urlSafe (encDest d)"
  by (rule RawURLEncode_safe) simp

lemma decodeDest_enc: "decodeDest (encDest d) = d"
proof -
  have "\<not> urlSafe (CHR '':'')" by (simp add: urlSafe_def isAlpha_def isDigit_def)
  moreover have "hasPrefix p (encDest d) \<Longrightarrow> set p \<subseteq> set (encDest d)" for p
    by (metis hasPrefix_def set_take_subset)
  ultimately have "\<not> hasPrefix ''http://'' (encDest d)" "\<not> hasPrefix ''https://'' (encDest d)"
    using encDest_safe [of d] by (fastforce simp: list_all_iff)+
  moreover have "RawURLDecode (encDest d) = Some (bytesOf d)" by (rule RawURLDecode_Encode) simp
  moreover have "strOf (bytesOf d) = d" by (simp add: o_def)
  ultimately show ?thesis
    by (cases "encDest d = []") (auto simp: decodeDest_def RawURLDecode_def digitsOf_def noCRLF_def bindO_def)
qed

section \<open>The query of a proxy URL\<close>

definition headerPairs :: "string \<Rightarrow> Header \<Rightarrow> (string \<times> string) list" where
  "headerPairs pre h = concat (map (\<lambda>(k, vs). map (\<lambda>v. (pre @ k, v)) vs) h)"

lemma QueryEscape_append: "QueryEscape (a @ b) = QueryEscape a @ QueryEscape b"
  by (simp add: escape_def)

lemma headerParts_pairs:
  "headerParts ''&h_'' h = concat (map ampPair (headerPairs ''h_'' h))"
  "headerParts ''&r_'' h = concat (map ampPair (headerPairs ''r_'' h))"
proof -
  have "QueryEscape ''h_'' = ''h_''" "QueryEscape ''r_'' = ''r_''" by code_simp+
  then have e: "QueryEscape (''h_'' @ k) = ''h_'' @ QueryEscape k" "QueryEscape (''r_'' @ k) = ''r_'' @ QueryEscape k" for k
    by (simp_all only: QueryEscape_append)
  show "headerParts ''&h_'' h = concat (map ampPair (headerPairs ''h_'' h))"
    "headerParts ''&r_'' h = concat (map ampPair (headerPairs ''r_'' h))"
    using e by (induction h) (auto simp: headerParts_def headerPairs_def o_def)
qed

text \<open>The pairs a proxy URL's query reads back as.\<close>

definition urlPairs :: "Options \<Rightarrow> string \<Rightarrow> string \<Rightarrow> (string \<times> string) list" where
  "urlPairs opts tok dest =
     (''d'', encDest dest) # headerPairs ''h_'' (ReqHeaders opts) @ headerPairs ''r_'' (RespHeaders opts)
     @ (if APIPassword opts \<noteq> [] then [(''api_password'', APIPassword opts)] else [])
     @ (if tok \<noteq> [] then [(''token'', tok)] else [])
     @ (if Proxy opts \<noteq> [] then [(''proxy'', Proxy opts)] else [])"

lemma build_query:
  assumes "tok = (if pbTokens (newProxyURLBuilder cfg (Some opts)) then subToken cfg sg rnd (Some opts) ep [(''d'', encDest dest)] else [])"
  shows "\<exists>q. build cfg sg rnd (newProxyURLBuilder cfg (Some opts)) ext ep dest = ext @ ep @ ''?'' @ q \<and> parseQuery q = urlPairs opts tok dest"
proof -
  have k: "QueryEscape ''d'' = ''d''" "QueryEscape ''api_password'' = ''api_password''" "QueryEscape ''token'' = ''token''"
    "QueryEscape ''proxy'' = ''proxy''" by code_simp+
  obtain ps where ps: "urlPairs opts tok dest = (''d'', encDest dest) # ps" by (simp add: urlPairs_def)
  let ?q = "QueryEscape ''d'' @ CHR ''='' # QueryEscape (encDest dest) @ concat (map ampPair ps)"
  have "build cfg sg rnd (newProxyURLBuilder cfg (Some opts)) ext ep dest = ext @ ep @ ''?'' @ ?q"
    using ps unfolding urlPairs_def build_def Let_def assms [symmetric, simplified]
    using assms
    by (auto simp: newProxyURLBuilder_def encChunks_eq headerParts_pairs k QueryEscape_safe [OF encDest_safe])
  moreover have "parseQuery ?q = urlPairs opts tok dest" using parseQuery_pairs ps by metis
  ultimately show ?thesis by blast
qed

lemma headerPairs_key: "(k, v) \<in> set (headerPairs pre h) \<Longrightarrow> hasPrefix pre k"
  by (auto simp: headerPairs_def hasPrefix_def)

lemma qVals_headers:
  assumes "\<not> hasPrefix pre k"
  shows "qVals (headerPairs pre h) k = []"
  using assms headerPairs_key by (fastforce simp: qVals_def filter_empty_conv)

lemma qVals_append [simp]: "qVals (a @ b) k = qVals a k @ qVals b k"
  by (simp add: qVals_def)

lemma urlPairs_vals:
  "qVals (urlPairs opts tok dest) ''d'' = [encDest dest]"
  "qVals (urlPairs opts tok dest) ''token'' = (if tok \<noteq> [] then [tok] else [])"
  "qVals (urlPairs opts tok dest) ''api_password'' = (if APIPassword opts \<noteq> [] then [APIPassword opts] else [])"
  "qVals (urlPairs opts tok dest) ''proxy'' = (if Proxy opts \<noteq> [] then [Proxy opts] else [])"
  unfolding urlPairs_def using qVals_headers [of "''h_''"] qVals_headers [of "''r_''"]
  by (simp_all add: hasPrefix_def qVals_def)

lemma RawURLEncode_ne: "bs \<noteq> [] \<Longrightarrow> RawURLEncode bs \<noteq> []"
  by (cases bs rule: encDigits.cases) (auto simp: RawURLEncode_def)

lemma signToken_ne: "signToken cfg sg (Some nonce) t = Inr s \<Longrightarrow> length nonce = 12 \<Longrightarrow> s \<noteq> []"
proof -
  assume s: "signToken cfg sg (Some nonce) t = Inr s" and n: "length nonce = 12"
  have "map unat (nonce @ gcmSeal sg nonce (jsonMarshal sg t)) \<noteq> []" using n by auto
  from RawURLEncode_ne [OF this] show "s \<noteq> []" using s by (simp add: signToken_def split: if_splits)
qed

lemma authorize_signed:
  assumes laws: "aead_ok sg" "json_ok sg" "asciiTok t" "length nonce = 12" "Secret cfg \<noteq> []"
    and s: "signToken cfg sg (Some nonce) t = Inr s"
    and q: "qGet (query r) ''token'' = s"
  shows "authorize cfg tp sg now r = None \<longleftrightarrow>
    (IPACL cfg = [] \<or> aclAllows cfg (clientIP tp r)) \<and> tokLive now (clientIP tp r) t \<and>
    (Endpoint t = [] \<or> Endpoint t = urlPath r) \<and> list_all (paramOk (query r)) (Params t)"
proof -
  have ne: "s \<noteq> []" by (rule signToken_ne [OF s laws(4)])
  show ?thesis
    using verify_sign [OF laws s, of now "clientIP tp r"] laws(5) q ne
    by (auto simp: authorize_def Let_def split: if_splits)
qed

lemma parseOptions_sub:
  assumes "Password cfg \<noteq> []" "Secret cfg \<noteq> []" "qGet (query r) ''api_password'' = []"
    and v: "verifyToken cfg sg now (qGet (query r) ''token'') (clientIP tp r) = Inr t"
  shows "APIPassword (parseOptions cfg tp sg now ks r) = []" "subTokenExp (parseOptions cfg tp sg now ks r) = Exp t"
    "subTokenIP (parseOptions cfg tp sg now ks r) = tokIP t" "now \<le> Exp t"
proof -
  have "qGet (query r) ''token'' \<noteq> []"
    using v by (auto simp: verifyToken_def RawURLDecode_def digitsOf_def noCRLF_def bindO_def split: if_splits)
  then show "APIPassword (parseOptions cfg tp sg now ks r) = []" "subTokenExp (parseOptions cfg tp sg now ks r) = Exp t"
    "subTokenIP (parseOptions cfg tp sg now ks r) = tokIP t"
    using assms by (simp_all add: parseOptions_def Let_def)
  show "now \<le> Exp t"
    using v by (auto simp: verifyToken_def Let_def split: if_splits option.splits)
qed

lemma encDest_ne: "d \<noteq> [] \<Longrightarrow> encDest d \<noteq> []"
  by (rule RawURLEncode_ne) simp

lemma paramOk_d: "v \<noteq> [] \<Longrightarrow> paramOk q (''d'', v) \<longleftrightarrow> qVals q ''d'' = [v]"
  by (cases "qVals q ''d''") (auto simp: paramOk_def tokenDestPrefixParam_def)

section \<open>Properties\<close>

text \<open>C16: Rewritten sub-URLs of a token-authorised manifest carry a grant of their own that is exactly as strong as the
  parent's: the request for such a URL is authorised if and only if the parent token's expiry and address binding
  still hold, it names the destination it was written for, and its token authorises no other path or destination and
  never outlives the parent token.\<close>

theorem subtoken_url_grant:
  assumes laws: "aead_ok sg" "json_ok sg" "length nonce = 12"
    and cfg: "Password cfg \<noteq> []" "Secret cfg \<noteq> []" "0 < now"
    and parent: "qGet (query r) ''api_password'' = []"
      "verifyToken cfg sg now (qGet (query r) ''token'') (clientIP tp r) = Inr t"
    and ascii: "list_all (\<lambda>c. ch c < 128) (ep @ tokIP t)" "ep \<noteq> []" "dest \<noteq> []"
    and opts: "opts = parseOptions cfg tp sg now ks r"
  shows "\<exists>q tok. buildProxyURL cfg sg (Some nonce) ext ep dest (Some opts) = ext @ ep @ ''?'' @ q \<and>
    (\<forall>r' now'. urlPath r' = ep \<and> rawQuery r' = q \<and> (IPACL cfg = [] \<or> aclAllows cfg (clientIP tp r')) \<longrightarrow>
       (authorize cfg tp sg now' r' = None \<longleftrightarrow> tokLive now' (clientIP tp r') t)) \<and>
    decodeDest (qGet (parseQuery q) ''d'') = dest \<and> qGet (parseQuery q) ''token'' = tok \<and>
    (\<forall>r' now'. qGet (query r') ''token'' = tok \<and> authorize cfg tp sg now' r' = None \<longrightarrow>
       urlPath r' = ep \<and> qVals (query r') ''d'' = [encDest dest] \<and> now' \<le> Exp t)"
proof -
  note po = parseOptions_sub(1-3) [OF cfg(1,2) parent, where ks = ks, folded opts] parseOptions_sub(4) [OF cfg(1,2) parent]
  let ?t = "\<lparr>Endpoint = ep, Params = [(''d'', encDest dest)], Exp = Exp t, tokIP = tokIP t\<rparr>"
  obtain tok where tok: "signToken cfg sg (Some nonce) ?t = Inr tok" using cfg(2) by (simp add: signToken_def)
  have a: "asciiTok ?t"
    using ascii(1) encDest_safe [of dest]
    by (auto simp: asciiTok_def list_all_iff urlSafe_def isAlpha_def isDigit_def)
  note auth = authorize_signed [OF laws(1,2) a laws(3) cfg(2) tok]
  have st: "pbTokens (newProxyURLBuilder cfg (Some opts))"
    "subToken cfg sg (Some nonce) (Some opts) ep [(''d'', encDest dest)] = tok"
    using po cfg tok by (simp_all add: newProxyURLBuilder_def subToken_def)
  obtain q where q: "build cfg sg (Some nonce) (newProxyURLBuilder cfg (Some opts)) ext ep dest = ext @ ep @ ''?'' @ q"
    "parseQuery q = urlPairs opts tok dest"
    using build_query [of tok cfg opts sg "Some nonce" ep dest ext] st by auto
  have ne: "tok \<noteq> []" by (rule signToken_ne [OF tok laws(3)])
  have g: "qGet (parseQuery q) ''token'' = tok" "qGet (parseQuery q) ''d'' = encDest dest" "qVals (parseQuery q) ''d'' = [encDest dest]"
    using ne by (simp_all add: q(2) qGet_def urlPairs_vals)
  have l: "tokLive n c ?t = tokLive n c t" for n c by (simp add: tokLive_def)
  note pd = paramOk_d [OF encDest_ne [OF ascii(3)]]
  show ?thesis
    using q(1) auth g ascii(2) pd l
    by (intro exI [of _ q] exI [of _ tok]) (auto simp: buildProxyURL_def decodeDest_enc tokLive_def)
qed

text \<open>The chain of addresses a request presents: the TCP peer, then the forwarded hops from the nearest outwards.\<close>

definition hopChain :: "Request \<Rightarrow> IP option list" where
  "hopChain r = peerIP r # map (\<lambda>h. ParseIP (trimSpace h))
     (case hdrValues (reqHeader r) ''X-Forwarded-For'' of [] \<Rightarrow> [] | vals \<Rightarrow> rev (splitOn (CHR '','') (joinWith '','' vals)))"

text \<open>An address is vouched for when everything nearer to the server in the chain is a trusted proxy.\<close>

definition vouched :: "IPNet list option \<Rightarrow> IP option list \<Rightarrow> IP \<Rightarrow> bool" where
  "vouched tp chain ip \<longleftrightarrow> (\<exists>k < length chain. chain ! k = Some ip \<and> (\<forall>j < k. isTrustedProxy tp (chain ! j)))"

lemma vouched_hd: "vouched tp (Some ip # c) ip"
  by (auto simp: vouched_def)

lemma vouched_tl: "isTrustedProxy tp a \<Longrightarrow> vouched tp c ip \<Longrightarrow> vouched tp (a # c) ip"
proof -
  assume a: "isTrustedProxy tp a" and "vouched tp c ip"
  then obtain k where "k < length c" "c ! k = Some ip" "\<forall>j < k. isTrustedProxy tp (c ! j)" by (auto simp: vouched_def)
  with a show "vouched tp (a # c) ip"
    unfolding vouched_def by (intro exI [of _ "Suc k"]) (auto simp: nth_Cons split: nat.split)
qed

lemma hopWalk_vouched:
  "hopWalk tp peer hs left = Some ip \<Longrightarrow> Some ip \<noteq> left \<Longrightarrow> Some ip \<noteq> peer \<Longrightarrow> vouched tp (map (\<lambda>h. ParseIP (trimSpace h)) hs) ip"
proof (induction hs arbitrary: left)
  case (Cons h hs)
  show ?case
  proof (cases "ParseIP (trimSpace h)")
    case (Some a)
    then show ?thesis
      using Cons.prems Cons.IH [of "Some a"] vouched_hd
      by (cases "ip = a") (auto intro: vouched_tl split: if_splits)
  qed (use Cons.prems in simp)
qed (auto split: if_splits)

text \<open>C17: The client address that the access list and the token binding use cannot be forged: it is the TCP peer unless
  the peer is a trusted proxy, and otherwise an address reported through a chain of trusted proxies only. What a
  client writes in front of the entry of its nearest trusted proxy has no influence.\<close>

theorem clientIP_unforgeable:
  assumes "clientIP tp r = Some ip"
  shows "vouched tp (hopChain r) ip \<and> (isTrustedProxy tp (peerIP r) \<or> peerIP r = Some ip) \<and>
    (\<forall>r' pre h post. peerIP r' = peerIP r \<and> isTrustedProxy tp (peerIP r) \<and>
       hdrValues (reqHeader r') ''X-Forwarded-For'' \<noteq> [] \<and>
       splitOn (CHR '','') (joinWith '','' (hdrValues (reqHeader r') ''X-Forwarded-For'')) = pre @ h # post \<and>
       ParseIP (trimSpace h) = Some ip \<and> \<not> isTrustedProxy tp (Some ip) \<and>
       (\<forall>p \<in> set post. isTrustedProxy tp (ParseIP (trimSpace p))) \<longrightarrow> clientIP tp r' = Some ip)"
proof -
  have walk: "hopWalk tp peer (ps @ h # rest) left = Some ip"
    if "\<forall>p \<in> set ps. isTrustedProxy tp (ParseIP (trimSpace p))" "ParseIP (trimSpace h) = Some ip" "\<not> isTrustedProxy tp (Some ip)"
    for peer ps h rest left
    using that
  proof (induction ps arbitrary: left)
    case (Cons p ps)
    then show ?case by (cases "ParseIP (trimSpace p)") (auto simp: isTrustedProxy_def split: if_splits)
  qed simp
  have v: "vouched tp (hopChain r) ip"
  proof (cases "isTrustedProxy tp (peerIP r) \<and> peerIP r \<noteq> Some ip")
    case False
    then show ?thesis using assms vouched_hd by (auto simp: clientIP_def Let_def hopChain_def split: if_splits)
  next
    case True
    then show ?thesis
      using assms hopWalk_vouched [of tp "peerIP r" _ None ip]
      by (auto simp: clientIP_def Let_def hopChain_def split: if_splits list.splits intro: vouched_tl)
  qed
  have "clientIP tp r' = Some ip"
    if "peerIP r' = peerIP r" "isTrustedProxy tp (peerIP r)" "hdrValues (reqHeader r') ''X-Forwarded-For'' \<noteq> []"
      "splitOn (CHR '','') (joinWith '','' (hdrValues (reqHeader r') ''X-Forwarded-For'')) = pre @ h # post"
      "ParseIP (trimSpace h) = Some ip" "\<not> isTrustedProxy tp (Some ip)"
      "\<forall>p \<in> set post. isTrustedProxy tp (ParseIP (trimSpace p))" for r' pre h post
    using that walk [of "rev post" h "peerIP r" "rev pre" None] by (simp add: clientIP_def Let_def)
  then show ?thesis using v assms by (auto simp: clientIP_def Let_def split: if_splits)
qed

section \<open>Witnesses\<close>

text \<open>A sealing scheme and a payload codec that satisfy the laws: plaintext sealing, and fields ended by the byte 255.\<close>

definition tokFields :: "token \<Rightarrow> string list" where
  "tokFields t = [Endpoint t, tokIP t, (if Exp t < 0 then ''-'' else []) @ replicate (nat (abs (Exp t))) (CHR ''x'')]
     @ concat (map (\<lambda>(k, v). [k, v]) (Params t))"

fun pairsOf :: "string list \<Rightarrow> (string \<times> string) list" where
  "pairsOf (k # v # r) = (k, v) # pairsOf r"
| "pairsOf _ = []"

fun fieldsOf :: "byte list \<Rightarrow> string \<Rightarrow> string list" where
  "fieldsOf [] acc = []"
| "fieldsOf (b # bs) acc = (if b = 255 then rev acc # fieldsOf bs [] else fieldsOf bs (char_of (unat b) # acc))"

definition demoSigner :: signer where
  "demoSigner = \<lparr>gcmSeal = \<lambda>n p. p, gcmOpen = \<lambda>n c. Some c,
     jsonMarshal = \<lambda>t. concat (map (\<lambda>f. map (\<lambda>c. of_nat (ch c)) f @ [255]) (tokFields t)),
     jsonUnmarshal = \<lambda>bs. (case fieldsOf bs [] of
        e # i # x # r \<Rightarrow> Some \<lparr>Endpoint = e, Params = pairsOf r,
          Exp = (if x \<noteq> [] \<and> hd x = CHR ''-'' then - int (length x - 1) else int (length x)), tokIP = i\<rparr>
      | _ \<Rightarrow> None)\<rparr>"

lemma fieldsOf_field:
  "list_all (\<lambda>c. ch c < 128) f \<Longrightarrow> fieldsOf (map (\<lambda>c. of_nat (ch c)) f @ 255 # bs) acc = (rev acc @ f) # fieldsOf bs []"
proof (induction f arbitrary: acc)
  case (Cons c f)
  have u: "unat (of_nat (ch c) :: byte) = ch c" using Cons.prems by (simp add: unat_of_nat)
  have "(of_nat (ch c) :: byte) \<noteq> 255"
  proof
    assume "(of_nat (ch c) :: byte) = 255"
    then have "unat (of_nat (ch c) :: byte) = 255" by simp
    with u Cons.prems show False by simp
  qed
  with Cons u show ?case by simp
qed simp

lemma fieldsOf_fields:
  "list_all (list_all (\<lambda>c. ch c < 128)) fs \<Longrightarrow> fieldsOf (concat (map (\<lambda>f. map (\<lambda>c. of_nat (ch c)) f @ [255]) fs)) [] = fs"
  by (induction fs) (simp_all add: fieldsOf_field)

lemma pairsOf_concat: "pairsOf (concat (map (\<lambda>(k, v). [k, v]) ps)) = ps"
  by (induction ps) auto

lemma demo_laws: "aead_ok demoSigner" "json_ok demoSigner"
proof -
  show "aead_ok demoSigner" by (simp add: aead_ok_def demoSigner_def)
  have "jsonUnmarshal demoSigner (jsonMarshal demoSigner t) = Some t" if "asciiTok t" for t
  proof -
    have "list_all (list_all (\<lambda>c. ch c < 128)) (tokFields t)"
      using that by (auto simp: asciiTok_def tokFields_def list_all_iff)
    from fieldsOf_fields [OF this] show ?thesis
      by (cases t) (auto simp: demoSigner_def tokFields_def pairsOf_concat hd_append)
  qed
  then show "json_ok demoSigner" by (simp add: json_ok_def)
qed

definition demoCfg :: Config where
  "demoCfg = \<lparr>Password = ''pw'', Secret = replicate 16 7, IPACL = [], Prebuffer = 0, SegCacheTTL = 0, PublicURL = [], UpstreamProxy = [],
     BlockPrivate = True, PrivateAllow = None\<rparr>"

definition demoReq :: "string \<Rightarrow> string \<Rightarrow> Request" where
  "demoReq p q = \<lparr>reqVerb = ''GET'', urlPath = p, rawQuery = q, RemoteAddr = ''8.8.8.8:1000'', reqHost = ''ext'', reqTLS = False, reqHeader = []\<rparr>"

theorem subtoken_url_grant_witness:
  "\<exists>q. authorize demoCfg None demoSigner 5 (demoReq ''/proxy/stream'' q) = None \<and>
     authorize demoCfg None demoSigner 11 (demoReq ''/proxy/stream'' q) \<noteq> None \<and>
     authorize demoCfg None demoSigner 5 (demoReq ''/proxy/ip'' q) \<noteq> None"
proof -
  let ?t = "\<lparr>Endpoint = ''/proxy/hls/manifest.m3u8'', Params = [], Exp = 10, tokIP = []\<rparr>"
  have c: "Password demoCfg \<noteq> []" "Secret demoCfg \<noteq> []" "IPACL demoCfg = []" by (simp_all add: demoCfg_def)
  obtain s where s: "signToken demoCfg demoSigner (Some (replicate 12 0)) ?t = Inr s" using c by (simp add: signToken_def)
  let ?r = "demoReq ''/proxy/hls/manifest.m3u8'' (QueryEscape ''token'' @ CHR ''='' # QueryEscape s @ concat (map ampPair []))"
  have q: "query ?r = [(''token'', s)]"
    using parseQuery_pairs [of "''token''" s "[]"] by (simp only: demoReq_def Request.simps)
  have v: "verifyToken demoCfg demoSigner 5 (qGet (query ?r) ''token'') (clientIP None ?r) = Inr ?t"
    using verify_sign [OF demo_laws _ _ c(2) s, of 5 "clientIP None ?r"]
    unfolding q by (simp add: qGet_def qVals_def asciiTok_def tokLive_def)
  have a: "qGet (query ?r) ''api_password'' = []" unfolding q by (simp add: qGet_def qVals_def)
  have as: "list_all (\<lambda>c. ch c < 128) (''/proxy/stream'' @ tokIP ?t)" by simp
  from subtoken_url_grant [OF demo_laws _ c(1,2) _ a v as _ _ refl, of "replicate 12 0" "''http://h/a.ts''" "''http://ext''" "[]"]
  obtain q tok where
    g: "\<forall>r' now'. urlPath r' = ''/proxy/stream'' \<and> rawQuery r' = q \<and> (IPACL demoCfg = [] \<or> aclAllows demoCfg (clientIP None r')) \<longrightarrow>
       (authorize demoCfg None demoSigner now' r' = None \<longleftrightarrow> tokLive now' (clientIP None r') ?t)"
    and t: "qGet (parseQuery q) ''token'' = tok"
    and h: "\<forall>r' now'. qGet (query r') ''token'' = tok \<and> authorize demoCfg None demoSigner now' r' = None \<longrightarrow>
       urlPath r' = ''/proxy/stream'' \<and> qVals (query r') ''d'' = [encDest ''http://h/a.ts''] \<and> now' \<le> Exp ?t"
    by auto
  have "authorize demoCfg None demoSigner 5 (demoReq ''/proxy/stream'' q) = None"
    "authorize demoCfg None demoSigner 11 (demoReq ''/proxy/stream'' q) \<noteq> None"
    using g c(3) by (simp_all add: demoReq_def tokLive_def)
  moreover have "authorize demoCfg None demoSigner 5 (demoReq ''/proxy/ip'' q) \<noteq> None"
    using h [THEN spec, of "demoReq ''/proxy/ip'' q"] t by (auto simp: demoReq_def)
  ultimately show ?thesis by blast
qed

definition xffReq :: Request where
  "xffReq = (demoReq ''/'' [])\<lparr>RemoteAddr := ''127.0.0.1:9'', reqHeader := [(''X-Forwarded-For'', [''6.6.6.6, 8.8.8.8''])]\<rparr>"

lemma xff_ip: "clientIP None xffReq = Some (v4InV6Prefix @ [8, 8, 8, 8])" "isTrustedProxy None (peerIP xffReq)"
  by code_simp+

theorem clientIP_unforgeable_witness:
  "vouched None (hopChain xffReq) (v4InV6Prefix @ [8, 8, 8, 8])"
  using clientIP_unforgeable [OF xff_ip(1)] by blast

end
