(* ===== verification/Proxy_Guard.thy ===== *)
theory Proxy_Guard
  imports Proxy_Auth
begin

text \<open>
  The guards every proxied request passes, from \<open>streamproxy/streamproxy.go\<close>: the destination and the client-supplied
  upstream proxy are resolved and checked against the private and metadata ranges, injected headers are filtered in both
  directions, responses are hardened, and the external base URL honours forwarded headers of trusted peers only. The
  resolver is a parameter; the allowlist is state, because a check may refresh its host addresses.
\<close>

section \<open>Destinations and upstream proxies\<close>

definition proxyBlockPrivate :: "Config \<Rightarrow> bool" where
  "proxyBlockPrivate cfg \<longleftrightarrow> BlockPrivate cfg \<or> Password cfg \<noteq> [] \<or> IPACL cfg \<noteq> []"

definition Protected :: "Config \<Rightarrow> bool" where
  "Protected cfg \<longleftrightarrow> Password cfg \<noteq> [] \<or> IPACL cfg \<noteq> [] \<or> Secret cfg \<noteq> []"

datatype dest_err = InvalidURL | DisallowedScheme | CannotResolve | DestMetadata | DestPrivate | NoHost | NoUsableIP
  | ProxyIPBlocked guard_err

text \<open>The addresses of a host: itself when numeric, else what \<open>net.LookupHost\<close> returns and parses.\<close>

definition hostAddresses :: "(string \<Rightarrow> string list option) \<Rightarrow> string \<Rightarrow> IP list option" where
  "hostAddresses lookupHost host =
     (case ParseIP host of Some ip \<Rightarrow> Some [ip] | None \<Rightarrow> map_option (List.map_filter ParseIP) (lookupHost host))"

fun checkDest :: "(string \<Rightarrow> IP list option) \<Rightarrow> int \<Rightarrow> bool \<Rightarrow> Allow option \<Rightarrow> IP list \<Rightarrow> dest_err option \<times> Allow option" where
  "checkDest lookup now guarded oa [] = (None, oa)"
| "checkDest lookup now guarded oa (ip # ips) =
     (if IsCloudMetadata ip then (Some DestMetadata, oa)
      else if guarded \<and> IsPrivate ip then
        (case Contains lookup now oa ip of
           (True, oa') \<Rightarrow> checkDest lookup now guarded oa' ips
         | (False, oa') \<Rightarrow> (Some DestPrivate, oa'))
      else checkDest lookup now guarded oa ips)"

definition ValidateDest :: "(string \<Rightarrow> string list option) \<Rightarrow> (string \<Rightarrow> IP list option) \<Rightarrow> int \<Rightarrow> Config \<Rightarrow> string \<Rightarrow>
    dest_err option \<times> Allow option" where
  "ValidateDest lookupHost lookup now cfg rawurl =
     (case urlParse rawurl of
        None \<Rightarrow> (Some InvalidURL, PrivateAllow cfg)
      | Some u \<Rightarrow>
          if Scheme u \<noteq> ''http'' \<and> Scheme u \<noteq> ''https'' then (Some DisallowedScheme, PrivateAllow cfg)
          else
            (case hostAddresses lookupHost (Hostname u) of
               None \<Rightarrow> (Some CannotResolve, PrivateAllow cfg)
             | Some ips \<Rightarrow> checkDest lookup now (proxyBlockPrivate cfg) (PrivateAllow cfg) ips))"

fun checkProxyIPs :: "(string \<Rightarrow> IP list option) \<Rightarrow> int \<Rightarrow> bool \<Rightarrow> Allow option \<Rightarrow> IP list \<Rightarrow> dest_err option \<times> Allow option" where
  "checkProxyIPs lookup now bp oa [] = (None, oa)"
| "checkProxyIPs lookup now bp oa (ip # ips) =
     (case ValidateIPAllow lookup now ip bp oa of
        (Some e, oa') \<Rightarrow> (Some (ProxyIPBlocked e), oa')
      | (None, oa') \<Rightarrow> checkProxyIPs lookup now bp oa' ips)"

definition validateProxyHost :: "(string \<Rightarrow> string list option) \<Rightarrow> (string \<Rightarrow> IP list option) \<Rightarrow> int \<Rightarrow> Config \<Rightarrow> string \<Rightarrow>
    dest_err option \<times> Allow option" where
  "validateProxyHost lookupHost lookup now cfg rawurl =
     (case urlParse rawurl of
        None \<Rightarrow> (Some InvalidURL, PrivateAllow cfg)
      | Some u \<Rightarrow>
          if Hostname u = [] then (Some NoHost, PrivateAllow cfg)
          else
            (case hostAddresses lookupHost (Hostname u) of
               None \<Rightarrow> (Some CannotResolve, PrivateAllow cfg)
             | Some ips \<Rightarrow>
                 if ips = [] then (Some NoUsableIP, PrivateAllow cfg)
                 else checkProxyIPs lookup now (proxyBlockPrivate cfg) (PrivateAllow cfg) ips))"

text \<open>The dialer control of the hop to the operator's upstream proxy.\<close>

definition upstreamWantPort :: "string \<Rightarrow> string" where
  "upstreamWantPort proxyURL =
     (case urlParse proxyURL of
        None \<Rightarrow> []
      | Some u \<Rightarrow>
          if Port u \<noteq> [] then Port u
          else if Scheme u = ''socks5'' \<or> Scheme u = ''socks5h'' then ''1080''
          else if Scheme u = ''https'' then ''443'' else ''80'')"

definition upstreamHopControl :: "string \<Rightarrow> string \<Rightarrow> guard_err option" where
  "upstreamHopControl proxyURL address =
     (case SplitHostPort address of
        Some (_, port) \<Rightarrow> DialControl (port \<noteq> upstreamWantPort proxyURL) address
      | None \<Rightarrow> DialControl True address)"

section \<open>Headers\<close>

definition BlockedRespHeader :: "string \<Rightarrow> bool" where
  "BlockedRespHeader name =
     (let k = map lowerC (trimSpace name)
      in k \<in> {''set-cookie'', ''set-cookie2'', ''refresh'', ''location'', ''content-security-policy'',
              ''content-security-policy-report-only'', ''x-content-type-options''} \<or> hasPrefix ''access-control-'' k)"

definition BlockedReqHeader :: "string \<Rightarrow> bool" where
  "BlockedReqHeader name =
     (let k = map lowerC (trimSpace name)
      in k \<in> {''host'', ''connection'', ''keep-alive'', ''proxy-authorization'', ''proxy-authenticate'', ''proxy-connection'',
              ''te'', ''trailer'', ''transfer-encoding'', ''upgrade'', ''content-length'', ''forwarded'', ''x-real-ip''} \<or>
         hasPrefix ''x-rivulet-'' k \<or> hasPrefix ''x-forwarded-'' k)"

definition allowedUpstreamHeaders :: "string list" where
  "allowedUpstreamHeaders =
     [''Content-Type'', ''Content-Length'', ''Content-Range'', ''Accept-Ranges'', ''Last-Modified'', ''ETag'']"

text \<open>A response writer: its header map, the status once written, and the body bytes.\<close>

record ResponseWriter =
  wHeader :: Header
  wStatus :: "int option"
  wBody :: "byte list"

definition freshWriter :: ResponseWriter where
  "freshWriter = \<lparr>wHeader = [], wStatus = None, wBody = []\<rparr>"

definition copyAllowedHeaders :: "Header \<Rightarrow> Header \<Rightarrow> Header" where
  "copyAllowedHeaders up h = fold (\<lambda>k h. if hdrGet up k \<noteq> [] then hdrSet h k (hdrGet up k) else h) allowedUpstreamHeaders h"

definition applyRespHeaders :: "Header \<Rightarrow> Header \<Rightarrow> Header" where
  "applyRespHeaders rh h =
     fold (\<lambda>(k, vs) h. if BlockedRespHeader k then h else fold (\<lambda>v h. hdrSet h k v) vs h) rh h"

definition setProxySecurityHeaders :: "Header \<Rightarrow> Header" where
  "setProxySecurityHeaders h =
     hdrSet (hdrSet h ''X-Content-Type-Options'' ''nosniff'') ''Content-Security-Policy'' ''sandbox''"

text \<open>\<open>http.Error\<close>.\<close>

definition hdrDel :: "Header \<Rightarrow> string \<Rightarrow> Header" where
  "hdrDel h k = filter (\<lambda>(a, _). a \<noteq> CanonicalHeaderKey k) h"

definition httpError :: "string \<Rightarrow> int \<Rightarrow> ResponseWriter \<Rightarrow> ResponseWriter" where
  "httpError msg code w =
     w\<lparr>wHeader := hdrSet (hdrSet (hdrDel (wHeader w) ''Content-Length'') ''Content-Type'' ''text/plain; charset=utf-8'')
                    ''X-Content-Type-Options'' ''nosniff'',
       wStatus := Some code, wBody := wBody w @ map (of_nat \<circ> ch) (msg @ [CHR 0x0A])\<rparr>"

definition writeAuthError :: "auth_err \<Rightarrow> ResponseWriter \<Rightarrow> ResponseWriter" where
  "writeAuthError e w = (if e = errForbidden then httpError ''forbidden'' 403 w else httpError ''unauthorized'' 401 w)"

text \<open>The headers forwarded upstream by the stream endpoint.\<close>

definition upstreamHeaders :: "Options \<Rightarrow> Header" where
  "upstreamHeaders opts = filter (\<lambda>(k, vs). \<not> BlockedReqHeader k) (ReqHeaders opts)"

section \<open>The external base URL\<close>

definition firstForwardedValue :: "string \<Rightarrow> string" where
  "firstForwardedValue v = trimSpace (fst (cutAt (CHR '','') v))"

text \<open>\<open>strconv.Atoi\<close>: an optional sign and decimal digits within \<open>int64\<close>.\<close>

definition decimal :: "string \<Rightarrow> nat" where
  "decimal s = foldl (\<lambda>n c. 10 * n + (ch c - 48)) 0 s"

definition Atoi :: "string \<Rightarrow> int option" where
  "Atoi s =
     (let neg = hasPrefix ''-'' s; d = (if neg \<or> hasPrefix ''+'' s then tl s else s);
          n = (if neg then - int (decimal d) else int (decimal d))
      in if d = [] \<or> \<not> list_all isDigit d \<or> n < - (2 ^ 63) \<or> n \<ge> 2 ^ 63 then None else Some n)"

definition fwdHostChar :: "char \<Rightarrow> bool" where
  "fwdHostChar c \<longleftrightarrow> isAlpha c \<or> isDigit c \<or> c = CHR ''.'' \<or> c = CHR ''-'' \<or> c = CHR ''_''"

definition validPort :: "string \<Rightarrow> bool" where
  "validPort port =
     (case Atoi port of
        None \<Rightarrow> False
      | Some n \<Rightarrow> 1 \<le> n \<and> n \<le> 65535 \<and> length port \<le> 5 \<and> list_all isDigit port)"

definition validForwardedHost :: "string \<Rightarrow> bool" where
  "validForwardedHost s =
     (if s = [] \<or> length s > 255 then False
      else if hasPrefix ''['' s then
        (if CHR '']'' \<notin> set s then False
         else (case cutAt (CHR '']'') (tl s) of
                 (addr, rest) \<Rightarrow>
                   ParseIP addr \<noteq> None \<and>
                   (rest = [] \<or> (hd rest = CHR '':'' \<and> tl rest \<noteq> [] \<and> validPort (tl rest)))))
      else
        (case cutLast (CHR '':'') s of
           Some (host, port) \<Rightarrow> port \<noteq> [] \<and> host \<noteq> [] \<and> list_all fwdHostChar host \<and> validPort port
         | None \<Rightarrow> list_all fwdHostChar s))"

definition ExternalBase :: "IPNet list option \<Rightarrow> Request \<Rightarrow> string" where
  "ExternalBase tp r =
     (let scheme = (if reqTLS r then ''https'' else ''http'')
      in if isTrustedProxy tp (peerIP r) then
           (let p = map lowerC (firstForwardedValue (hdrGet (reqHeader r) ''X-Forwarded-Proto''));
                fh = firstForwardedValue (hdrGet (reqHeader r) ''X-Forwarded-Host'')
            in (if p = ''http'' \<or> p = ''https'' then p else scheme) @ ''://'' @ (if validForwardedHost fh then fh else reqHost r))
         else scheme @ ''://'' @ reqHost r)"

definition externalBase :: "Config \<Rightarrow> IPNet list option \<Rightarrow> Request \<Rightarrow> string" where
  "externalBase cfg tp r =
     (if PublicURL cfg \<noteq> [] then rev (dropWhile (\<lambda>c. c = CHR ''/'') (rev (PublicURL cfg))) else ExternalBase tp r)"

section \<open>Facts\<close>

lemma hostAddrs_again:
  assumes "hostAddrs lookup now a = (ips, a')"
  shows "hostAddrs lookup now a' = (ips, a') \<and> nets a' = nets a \<and> hosts a' = hosts a"
proof (cases "hostAddrs lookup now a = (ips, a) \<and> a' = a")
  case True
  then show ?thesis by simp
next
  case False
  then have "refreshHosts lookup now a = (ips, a')"
    using assms by (auto simp: hostAddrs_def split: option.splits if_splits)
  then show ?thesis by (auto simp: refreshHosts_def Let_def hostAddrs_def allowHostRefresh_def)
qed

text \<open>A check may refresh the allowlist's host addresses; it does not change what the allowlist contains.\<close>

lemma Contains_again:
  assumes "Contains lookup now oa ip = (b, oa')"
  shows "fst (Contains lookup now oa' x) = fst (Contains lookup now oa x)"
proof (cases "oa' = oa")
  case False
  then obtain a ips a' where "oa = Some a" "oa' = Some a'" "hostAddrs lookup now a = (ips, a')"
    using assms by (auto simp: Contains_def split: option.splits if_splits prod.splits)
  then show ?thesis using hostAddrs_again [of lookup now a ips a'] by (auto simp: Contains_def)
qed simp

definition private_address :: "IP \<Rightarrow> bool" where
  "private_address ip = (case To4 ip of Some q \<Rightarrow> v4_private q | None \<Rightarrow> v6_private ip)"

lemma hostAddresses_length: "hostAddresses lookupHost host = Some ips \<Longrightarrow> ip \<in> set ips \<Longrightarrow> length ip = 16"
  by (auto simp: hostAddresses_def map_filter_def ParseIP_length split: option.splits)

text \<open>The specification: the addresses a host name stands for (its own when it is numeric, else those of its records that
  are addresses), and the allowlist as a set of addresses.\<close>

inductive stands_for :: "(string \<Rightarrow> string list option) \<Rightarrow> string \<Rightarrow> IP \<Rightarrow> bool" for lookupHost host where
  "ParseIP host = Some ip \<Longrightarrow> stands_for lookupHost host ip"
| "ParseIP host = None \<Longrightarrow> lookupHost host = Some addrs \<Longrightarrow> a \<in> set addrs \<Longrightarrow> ParseIP a = Some ip \<Longrightarrow>
     stands_for lookupHost host ip"

definition allowlisted :: "(string \<Rightarrow> IP list option) \<Rightarrow> int \<Rightarrow> Allow option \<Rightarrow> IP \<Rightarrow> bool" where
  "allowlisted lookup now oa ip \<longleftrightarrow> (\<exists>a. oa = Some a \<and> ((\<exists>n \<in> set (nets a). netContains n ip) \<or>
     hosts a \<noteq> [] \<and> (\<exists>h \<in> set (fst (hostAddrs lookup now a)). ipEqual h ip)))"

lemma stands_for_set:
  assumes "hostAddresses lookupHost host = Some ips"
  shows "stands_for lookupHost host ip \<longleftrightarrow> ip \<in> set ips"
proof (cases "ParseIP host")
  case None
  with assms obtain addrs where a: "lookupHost host = Some addrs" "ips = List.map_filter ParseIP addrs"
    by (auto simp: hostAddresses_def)
  have "stands_for lookupHost host ip \<longleftrightarrow> (\<exists>a \<in> set addrs. ParseIP a = Some ip)"
    unfolding stands_for.simps using None a(1) by auto
  then show ?thesis unfolding a(2) by (force simp: map_filter_def)
next
  case (Some x)
  with assms have "ips = [x]" by (simp add: hostAddresses_def)
  then show ?thesis unfolding stands_for.simps using Some by auto
qed

lemma Contains_allowlisted:
  assumes "length ip = 16" "\<not> metadata_address ip"
  shows "fst (Contains lookup now oa ip) \<longleftrightarrow> allowlisted lookup now oa ip"
proof -
  have "ip \<noteq> []" "\<not> IsCloudMetadata ip" using assms metadata_spec by auto
  then show ?thesis by (auto simp: Contains_def allowlisted_def split: option.splits prod.splits)
qed

lemma checkDest_exact:
  assumes "\<forall>ip \<in> set ips. length ip = 16"
  shows "fst (checkDest lookup now g oa ips) = None \<longleftrightarrow>
    (\<forall>ip \<in> set ips. \<not> metadata_address ip \<and> (g \<longrightarrow> \<not> private_address ip \<or> fst (Contains lookup now oa ip)))"
  using assms
proof (induction ips arbitrary: oa)
  case (Cons ip ips)
  have ip: "IsCloudMetadata ip = metadata_address ip" "IsPrivate ip = private_address ip"
    using Cons.prems metadata_spec private_spec by (simp_all add: private_address_def)
  obtain b oa' where c: "Contains lookup now oa ip = (b, oa')" by (cases "Contains lookup now oa ip") auto
  have IH: "fst (checkDest lookup now g x ips) = None \<longleftrightarrow>
      (\<forall>ip \<in> set ips. \<not> metadata_address ip \<and> (g \<longrightarrow> \<not> private_address ip \<or> fst (Contains lookup now x ip)))" for x
    using Cons by simp
  show ?case using c IH [of oa] IH [of oa'] ip by (cases g; cases b) (simp_all add: Contains_again [OF c])
qed simp

lemma checkProxyIPs_safe:
  assumes "\<forall>ip \<in> set ips. length ip = 16" "fst (checkProxyIPs lookup now bp oa ips) = None" "ip \<in> set ips"
  shows "\<not> metadata_address ip \<and> (bp \<longrightarrow> public_unicast ip \<or> fst (Contains lookup now oa ip))"
  using assms
proof (induction ips arbitrary: oa)
  case (Cons x ips)
  have l: "length x = 16" using Cons.prems(1) by simp
  obtain e oa' where v: "ValidateIPAllow lookup now x bp oa = (e, oa')" by (cases "ValidateIPAllow lookup now x bp oa") auto
  have e: "e = None" using Cons.prems(2) v by (cases e) simp_all
  obtain b oc where c: "Contains lookup now oa x = (b, oc)" by (cases "Contains lookup now oa x") auto
  have same: "fst (Contains lookup now oa' y) = fst (Contains lookup now oa y)" for y
    using v c Contains_again [OF c, of y] by (auto simp: ValidateIPAllow_def split: if_splits bool.splits)
  have meta: "fst (Contains lookup now oa x) \<Longrightarrow> \<not> IsCloudMetadata x"
    by (auto simp: Contains_def split: option.splits if_splits)
  show ?case
  proof (cases "ip = x")
    case True
    then show ?thesis using v c e meta ValidateIP_spec [OF l, of bp] metadata_spec [OF l]
      by (cases b) (auto simp: ValidateIPAllow_def split: if_splits)
  next
    case False
    then have "fst (checkProxyIPs lookup now bp oa' ips) = None" "ip \<in> set ips" "\<forall>ip \<in> set ips. length ip = 16"
      using Cons.prems v e by simp_all
    from Cons.IH [OF this(3,1,2)] show ?thesis unfolding same .
  qed
qed simp

lemma DialControl_None:
  "DialControl bp address = None \<Longrightarrow>
     \<exists>host port ip. SplitHostPort address = Some (host, port) \<and> ParseIP host = Some ip \<and> \<not> metadata_address ip \<and> (bp \<longrightarrow> public_unicast ip)"
  using ParseIP_length ValidateIP_spec by (auto simp: DialControl_def split: option.splits prod.splits)

subsection \<open>Header maps\<close>

lemma hdrPut_set: "(a, xs) \<in> set (hdrPut h k vs) \<Longrightarrow> (a = k \<and> xs = vs) \<or> (a \<noteq> k \<and> (a, xs) \<in> set h)"
proof (cases "k \<in> fst ` set h")
  case True
  assume "(a, xs) \<in> set (hdrPut h k vs)"
  with True show ?thesis by (auto simp: hdrPut_def split: if_splits)
next
  case False
  assume "(a, xs) \<in> set (hdrPut h k vs)"
  with False show ?thesis by (auto simp: hdrPut_def image_iff)
qed

lemma hdrVals_put: "hdrVals (hdrPut h k vs) a = (if a = k then vs else hdrVals h a)"
proof (cases "k \<in> fst ` set h")
  case True
  then obtain ys where "map_of h k = Some ys" by (cases "map_of h k") (auto simp: map_of_eq_None_iff)
  moreover have "map_of (map (\<lambda>(x, xs). (x, if x = k then vs else xs)) h) a =
      (if a = k then map_option (\<lambda>_. vs) (map_of h k) else map_of h a)"
    by (induction h) auto
  ultimately show ?thesis using True by (simp add: hdrPut_def hdrVals_def)
next
  case False
  then have "map_of h k = None" by (simp add: map_of_eq_None_iff)
  then show ?thesis using False by (auto simp: hdrPut_def hdrVals_def map_add_def split: option.splits)
qed

lemma trim_tokens:
  assumes "list_all tokenChar s"
  shows "trimSpace s = s"
proof -
  have "\<not> isSpaceC c" if "tokenChar c" for c
    using that by (auto simp: tokenChar_def isSpaceC_def isAlpha_def isDigit_def)
  then have "\<forall>c \<in> set s. \<not> isSpaceC c" using assms by (auto simp: list_all_iff)
  then have "dropWhile isSpaceC s = s" "dropWhile isSpaceC (rev s) = rev s" by (auto simp: dropWhile_eq_self_iff hd_rev)
  then show ?thesis by (simp add: trimSpace_def trimC_def)
qed

text \<open>Spelling a header name differently does not get it past the filters.\<close>

lemma lower_trim_canon: "map lowerC (trimSpace (CanonicalHeaderKey k)) = map lowerC (trimSpace k)"
  by (simp add: CanonicalHeaderKey_def trim_tokens canon_tokens lower_canon)

lemma Blocked_canon [simp]:
  "BlockedRespHeader (CanonicalHeaderKey k) = BlockedRespHeader k" "BlockedReqHeader (CanonicalHeaderKey k) = BlockedReqHeader k"
  by (simp_all add: BlockedRespHeader_def BlockedReqHeader_def lower_trim_canon)

subsection \<open>Response headers\<close>

definition unblocked :: "Header \<Rightarrow> bool" where
  "unblocked h \<longleftrightarrow> (\<forall>(k, vs) \<in> set h. \<not> BlockedRespHeader k)"

lemma unblocked_set: "unblocked h \<Longrightarrow> \<not> BlockedRespHeader k \<Longrightarrow> unblocked (hdrSet h k v)"
  unfolding unblocked_def hdrSet_def using hdrPut_set [of _ _ h "CanonicalHeaderKey k" "[v]"] by fastforce

lemma unblocked_fold:
  assumes "\<And>x h. x \<in> set xs \<Longrightarrow> unblocked h \<Longrightarrow> unblocked (f x h)" "unblocked h"
  shows "unblocked (fold f xs h)"
  using assms by (induction xs arbitrary: h) simp_all

lemma allowed_unblocked: "k \<in> set allowedUpstreamHeaders \<Longrightarrow> \<not> BlockedRespHeader k"
proof -
  have "list_all (\<lambda>k. \<not> BlockedRespHeader k) allowedUpstreamHeaders" by code_simp
  then show "k \<in> set allowedUpstreamHeaders \<Longrightarrow> \<not> BlockedRespHeader k" by (simp add: list_all_iff)
qed

lemma copyAllowed_unblocked: "unblocked h \<Longrightarrow> unblocked (copyAllowedHeaders up h)"
  unfolding copyAllowedHeaders_def by (rule unblocked_fold) (auto simp: unblocked_set allowed_unblocked)

lemma applyResp_unblocked: "unblocked h \<Longrightarrow> unblocked (applyRespHeaders rh h)"
  unfolding applyRespHeaders_def
  by (rule unblocked_fold) (auto intro!: unblocked_fold unblocked_set split: prod.splits)

section \<open>Properties\<close>

text \<open>C20: The destination guard accepts a URL exactly when it is an http or https URL whose host is numeric or resolves (a
  failed lookup refuses), and of the addresses it stands for none is a metadata endpoint and, if the operator blocks
  private destinations or the proxy has a password or an IP access list, each is outside the private ranges or on the
  allowlist, in a listed network or among the addresses of a listed host. Refreshing the allowlist while several
  addresses are checked makes no difference.\<close>

theorem validate_dest_exact:
  "fst (ValidateDest lookupHost lookup now cfg rawurl) = None \<longleftrightarrow>
     (\<exists>u. urlParse rawurl = Some u \<and> Scheme u \<in> {''http'', ''https''} \<and>
        (ParseIP (Hostname u) = None \<longrightarrow> lookupHost (Hostname u) \<noteq> None) \<and>
        (\<forall>ip. stands_for lookupHost (Hostname u) ip \<longrightarrow> \<not> metadata_address ip \<and>
           (BlockPrivate cfg \<or> Password cfg \<noteq> [] \<or> IPACL cfg \<noteq> [] \<longrightarrow>
              \<not> private_address ip \<or> allowlisted lookup now (PrivateAllow cfg) ip)))"
proof (cases "urlParse rawurl")
  case (Some u)
  have n: "hostAddresses lookupHost (Hostname u) = None \<longleftrightarrow> ParseIP (Hostname u) = None \<and> lookupHost (Hostname u) = None"
    by (simp add: hostAddresses_def split: option.split)
  show ?thesis
  proof (cases "hostAddresses lookupHost (Hostname u)")
    case ips: (Some ips)
    have l: "\<forall>ip \<in> set ips. length ip = 16" using hostAddresses_length [OF ips] by blast
    have "fst (checkDest lookup now g oa ips) = None \<longleftrightarrow>
        (\<forall>ip \<in> set ips. \<not> metadata_address ip \<and> (g \<longrightarrow> \<not> private_address ip \<or> allowlisted lookup now oa ip))" for g oa
      using checkDest_exact [OF l] Contains_allowlisted l by blast
    then show ?thesis using Some ips n stands_for_set [OF ips]
      by (auto simp: ValidateDest_def proxyBlockPrivate_def)
  qed (use Some n in \<open>auto simp: ValidateDest_def\<close>)
qed (simp add: ValidateDest_def)

text \<open>The upstream-proxy guard: a client-supplied proxy is accepted only if it has a host that resolves to at least one
  address, none of them a metadata endpoint, and on a guarded proxy all of them public unicast or allowlisted. The hop
  to the operator's own proxy is exempt from the private ranges on that proxy's port only, and never reaches a metadata
  endpoint.\<close>

theorem proxy_hop_guard:
  "(fst (validateProxyHost lookupHost lookup now cfg rawurl) = None \<longrightarrow>
     (\<exists>u ips. urlParse rawurl = Some u \<and> Hostname u \<noteq> [] \<and> hostAddresses lookupHost (Hostname u) = Some ips \<and> ips \<noteq> [] \<and>
        (\<forall>ip \<in> set ips. \<not> metadata_address ip \<and>
           (proxyBlockPrivate cfg \<longrightarrow> public_unicast ip \<or> fst (Contains lookup now (PrivateAllow cfg) ip))))) \<and>
   (upstreamHopControl proxyURL address = None \<longrightarrow>
     (\<exists>host port ip. SplitHostPort address = Some (host, port) \<and> ParseIP host = Some ip \<and> \<not> metadata_address ip \<and>
        (port = upstreamWantPort proxyURL \<or> public_unicast ip)))"
proof (intro conjI impI)
  assume a: "fst (validateProxyHost lookupHost lookup now cfg rawurl) = None"
  then obtain u ips where u: "urlParse rawurl = Some u" "Hostname u \<noteq> []" "hostAddresses lookupHost (Hostname u) = Some ips" "ips \<noteq> []"
    by (auto simp: validateProxyHost_def split: option.splits if_splits)
  then have c: "fst (checkProxyIPs lookup now (proxyBlockPrivate cfg) (PrivateAllow cfg) ips) = None"
    using a by (simp add: validateProxyHost_def)
  have l: "\<forall>ip \<in> set ips. length ip = 16" using hostAddresses_length [OF u(3)] by blast
  show "\<exists>u ips. urlParse rawurl = Some u \<and> Hostname u \<noteq> [] \<and> hostAddresses lookupHost (Hostname u) = Some ips \<and> ips \<noteq> [] \<and>
        (\<forall>ip \<in> set ips. \<not> metadata_address ip \<and>
           (proxyBlockPrivate cfg \<longrightarrow> public_unicast ip \<or> fst (Contains lookup now (PrivateAllow cfg) ip)))"
    using u checkProxyIPs_safe [OF l c] by blast
next
  assume a: "upstreamHopControl proxyURL address = None"
  then show "\<exists>host port ip. SplitHostPort address = Some (host, port) \<and> ParseIP host = Some ip \<and> \<not> metadata_address ip \<and>
        (port = upstreamWantPort proxyURL \<or> public_unicast ip)"
  proof (cases "SplitHostPort address")
    case None
    with a show ?thesis using DialControl_None [of True address] by (simp add: upstreamHopControl_def)
  next
    case (Some hp)
    with a have "DialControl (snd hp \<noteq> upstreamWantPort proxyURL) address = None"
      by (simp add: upstreamHopControl_def split: prod.splits)
    from DialControl_None [OF this] Some show ?thesis by (cases hp) fastforce
  qed
qed

text \<open>Proxied responses are hardened whatever the upstream sends and whatever headers the client injects: they carry
  exactly the sandboxing policy and \<open>nosniff\<close>, and no cookie, redirect, refresh or CORS header under any spelling.\<close>

theorem resp_headers_hardened:
  assumes "h = setProxySecurityHeaders (applyRespHeaders rh (copyAllowedHeaders up []))"
  shows "hdrValues h ''x-content-type-options'' = [''nosniff''] \<and> hdrValues h ''content-security-policy'' = [''sandbox''] \<and>
    (\<forall>(k, vs) \<in> set h. BlockedRespHeader k \<longrightarrow>
       (k, vs) \<in> {(''X-Content-Type-Options'', [''nosniff'']), (''Content-Security-Policy'', [''sandbox''])})"
proof -
  have ck: "CanonicalHeaderKey ''X-Content-Type-Options'' = ''X-Content-Type-Options''"
      "CanonicalHeaderKey ''Content-Security-Policy'' = ''Content-Security-Policy''"
      "CanonicalHeaderKey ''x-content-type-options'' = ''X-Content-Type-Options''"
      "CanonicalHeaderKey ''content-security-policy'' = ''Content-Security-Policy''" by code_simp+
  let ?g = "applyRespHeaders rh (copyAllowedHeaders up [])"
  have u: "unblocked ?g" by (rule applyResp_unblocked [OF copyAllowed_unblocked]) (simp add: unblocked_def)
  have h: "h = hdrPut (hdrPut ?g ''X-Content-Type-Options'' [''nosniff'']) ''Content-Security-Policy'' [''sandbox'']"
    by (simp add: assms setProxySecurityHeaders_def hdrSet_def ck)
  have "(k, vs) \<in> {(''X-Content-Type-Options'', [''nosniff'']), (''Content-Security-Policy'', [''sandbox''])}"
    if m: "(k, vs) \<in> set h" and b: "BlockedRespHeader k" for k vs
    using hdrPut_set [OF m [unfolded h]] hdrPut_set [of k vs ?g "''X-Content-Type-Options''"] u b
    by (auto simp: unblocked_def)
  then show ?thesis by (auto simp: hdrValues_def ck h hdrVals_put)
qed

section \<open>Witnesses\<close>

definition demoResolver :: "string \<Rightarrow> string list option" where
  "demoResolver host = (if host = ''lan.example'' then Some [''192.168.1.5''] else None)"

definition demoGuardCfg :: Config where
  "demoGuardCfg = \<lparr>Password = [], Secret = [], IPACL = [], Prebuffer = 0, SegCacheTTL = 0, PublicURL = [], UpstreamProxy = [],
     BlockPrivate = True, PrivateAllow = None\<rparr>"

lemma demo_urls:
  "hostAddresses demoResolver ''lan.example'' = Some [v4InV6Prefix @ [192, 168, 1, 5]]"
  "map_option (\<lambda>u. (Scheme u, Hostname u)) (urlParse ''http://lan.example/a'') = Some (''http'', ''lan.example'')"
  "private_address (v4InV6Prefix @ [192, 168, 1, 5])"
  by code_simp+

theorem validate_dest_exact_witness:
  "fst (ValidateDest demoResolver (\<lambda>_. None) 0 demoGuardCfg ''http://lan.example/a'') \<noteq> None \<and>
   fst (ValidateDest demoResolver (\<lambda>_. None) 0 (demoGuardCfg\<lparr>BlockPrivate := False\<rparr>) ''http://lan.example/a'') = None \<and>
   fst (ValidateDest demoResolver (\<lambda>_. None) 0 (demoGuardCfg\<lparr>BlockPrivate := False, Password := ''pw''\<rparr>) ''http://lan.example/a'') \<noteq> None \<and>
   fst (ValidateDest (\<lambda>_. None) (\<lambda>_. None) 0 (demoGuardCfg\<lparr>BlockPrivate := False\<rparr>) ''http://lan.example/a'') \<noteq> None"
proof -
  obtain u where u: "urlParse ''http://lan.example/a'' = Some u" "Scheme u = ''http''" "Hostname u = ''lan.example''"
    using demo_urls(2) by (cases "urlParse ''http://lan.example/a''") auto
  have m: "\<not> metadata_address (v4InV6Prefix @ [192, 168, 1, 5])" by code_simp
  have h: "ParseIP ''lan.example'' = None" by code_simp
  have s: "stands_for demoResolver ''lan.example'' ip \<longleftrightarrow> ip = v4InV6Prefix @ [192, 168, 1, 5]" for ip
    using stands_for_set [OF demo_urls(1)] by simp
  show ?thesis
    unfolding validate_dest_exact using u s h demo_urls(3) m
    by (simp add: demoGuardCfg_def allowlisted_def demoResolver_def)
qed

theorem proxy_hop_guard_witness:
  "fst (validateProxyHost demoResolver (\<lambda>_. None) 0 demoGuardCfg ''http://lan.example/a'') \<noteq> None \<and>
   upstreamHopControl ''socks5://127.0.0.1:9050'' ''127.0.0.1:22'' \<noteq> None"
proof
  obtain u where u: "urlParse ''http://lan.example/a'' = Some u" "Hostname u = ''lan.example''"
    using demo_urls(2) by (cases "urlParse ''http://lan.example/a''") auto
  have p: "\<not> public_unicast (v4InV6Prefix @ [192, 168, 1, 5])" by code_simp
  show "fst (validateProxyHost demoResolver (\<lambda>_. None) 0 demoGuardCfg ''http://lan.example/a'') \<noteq> None"
    using proxy_hop_guard [of demoResolver "\<lambda>_. None" 0 demoGuardCfg "''http://lan.example/a''" "[]" "[]"] u demo_urls(1) p
    by (auto simp: demoGuardCfg_def proxyBlockPrivate_def Contains_def)
  have c: "SplitHostPort ''127.0.0.1:22'' = Some (''127.0.0.1'', ''22'')" "upstreamWantPort ''socks5://127.0.0.1:9050'' = ''9050''"
      "map_option public_unicast (ParseIP ''127.0.0.1'') = Some False" by code_simp+
  show "upstreamHopControl ''socks5://127.0.0.1:9050'' ''127.0.0.1:22'' \<noteq> None"
    using proxy_hop_guard [of demoResolver "\<lambda>_. None" 0 demoGuardCfg "[]" "''socks5://127.0.0.1:9050''" "''127.0.0.1:22''"] c
    by auto
qed

theorem resp_headers_hardened_witness:
  "hdrValues (setProxySecurityHeaders (applyRespHeaders [(''Set-Cookie'', [''a'']), (''X-Content-Type-Options'', [''x'']), (''Server'', [''s''])]
     (copyAllowedHeaders [(''Content-Type'', [''video/mp2t''])] []))) ''x-content-type-options'' = [''nosniff'']"
  using resp_headers_hardened [OF refl] by blast

end
