(* ===== verification/Proxy_Clients.thy ===== *)
theory Proxy_Clients
  imports Proxy_Guard "HOL-Library.AList" "HOL-Library.Multiset"
begin

text \<open>
  The small caches of the stream proxy that hold one entry per client-supplied value and must not grow without bound:
  upstream proxy clients and egress addresses (\<open>clientFor\<close>, \<open>serveIP\<close> and their sweeps in \<open>streamproxy/streamproxy.go\<close>) and
  embed resolutions (\<open>streamproxy/embed.go\<close>). A Go map is an association list; \<open>ord\<close> is the order in which the runtime
  iterates over it. The contract the three share is the locale \<open>capped_map\<close>.
\<close>

section \<open>Bounded maps\<close>

text \<open>Iterating over a map visits its entries in some order.\<close>

definition rangeOver :: "(('k \<times> 'v) list \<Rightarrow> ('k \<times> 'v) list) \<Rightarrow> ('k \<times> 'v) list \<Rightarrow> ('k \<times> 'v) list" where
  "rangeOver ord m = (if mset (ord m) = mset m then ord m else m)"

lemma rangeOver_mset [simp]: "mset (rangeOver ord m) = mset m"
  by (simp add: rangeOver_def)

lemma rangeOver_set [simp]: "set (rangeOver ord m) = set m"
  by (metis rangeOver_mset set_mset_mset)

fun soonest :: "('v \<Rightarrow> int) \<Rightarrow> ('k \<times> 'v) list \<Rightarrow> ('k \<times> 'v) option \<Rightarrow> ('k \<times> 'v) option" where
  "soonest ex [] best = best"
| "soonest ex (x # m) best =
     soonest ex m (case best of None \<Rightarrow> Some x | Some b \<Rightarrow> if ex (snd x) < ex (snd b) then Some x else best)"

lemma soonest_Some:
  "\<exists>x. soonest ex m (Some b) = Some x \<and> (x = b \<or> x \<in> set m) \<and> ex (snd x) \<le> ex (snd b) \<and> (\<forall>y \<in> set m. ex (snd x) \<le> ex (snd y))"
proof (induction m arbitrary: b)
  case (Cons y m)
  show ?case using Cons.IH [of "if ex (snd y) < ex (snd b) then y else b"] by (cases "ex (snd y) < ex (snd b)") force+
qed simp

lemma soonest_spec: "soonest ex m None = Some x \<Longrightarrow> x \<in> set m \<and> (\<forall>y \<in> set m. ex (snd x) \<le> ex (snd y))"
  using soonest_Some [of ex "tl m" "hd m"] by (cases m) auto

lemma soonest_None: "soonest ex m None = None \<Longrightarrow> m = []"
  using soonest_Some [of ex "tl m" "hd m"] by (cases m) auto

text \<open>The hard cap: the entry that expires soonest is evicted until the map is within its limit.\<close>

function capLoop :: "(('k \<times> 'v) list \<Rightarrow> ('k \<times> 'v) list) \<Rightarrow> ('v \<Rightarrow> int) \<Rightarrow> nat \<Rightarrow> ('k \<times> 'v) list \<Rightarrow> ('k \<times> 'v) list \<times> ('k \<times> 'v) list" where
  "capLoop ord ex cap m =
     (if length m > cap then
        (case soonest ex (rangeOver ord m) None of
           None \<Rightarrow> (m, [])
         | Some x \<Rightarrow> (case capLoop ord ex cap (AList.delete (fst x) m) of (m', ev) \<Rightarrow> (m', x # ev)))
      else (m, []))"
  by pat_completeness auto

lemma delete_shorter: "x \<in> set m \<Longrightarrow> length (AList.delete (fst x) m) < length m"
  by (simp add: AList.delete_eq length_filter_less split: prod.splits)

termination capLoop
proof (relation "measure (\<lambda>(ord, ex, cap, m). length m)")
  fix ord :: "('k \<times> 'v) list \<Rightarrow> ('k \<times> 'v) list" and ex :: "'v \<Rightarrow> int" and cap m x
  assume "soonest ex (rangeOver ord m) None = Some x"
  from soonest_spec [OF this] have "x \<in> set m" by simp
  then show "((ord, ex, cap, AList.delete (fst x) m), ord, ex, cap, m) \<in> measure (\<lambda>(ord, ex, cap, m). length m)"
    by (simp add: delete_shorter)
qed simp

declare capLoop.simps [simp del]

section \<open>Upstream proxy clients\<close>

text \<open>Which dialer control guards the connection to the proxy host, and the client built for a proxy URL.\<close>

datatype hop = UpstreamHop | GuardedHop bool

datatype httpClient = BaseClient | ViaSocks string hop | ViaHTTP string hop

record proxyClientEntry =
  client :: httpClient
  clientExpires :: int

definition proxyClientTTL :: int where "proxyClientTTL = 5 * 60 * 1000000000"
definition proxyClientMaxEntries :: nat where "proxyClientMaxEntries = 16"

definition sweepProxyClients :: "((string \<times> proxyClientEntry) list \<Rightarrow> (string \<times> proxyClientEntry) list) \<Rightarrow> int \<Rightarrow>
    (string \<times> proxyClientEntry) list \<Rightarrow> (string \<times> proxyClientEntry) list \<times> httpClient list" where
  "sweepProxyClients ord now m =
     (case capLoop ord clientExpires proxyClientMaxEntries (filter (\<lambda>(k, e). \<not> now > clientExpires e) m) of
        (m', ev) \<Rightarrow> (m', map (client \<circ> snd) (filter (\<lambda>(k, e). now > clientExpires e) (rangeOver ord m) @ ev)))"

definition proxyClientKey :: "string \<Rightarrow> bool \<Rightarrow> string" where
  "proxyClientKey proxyURL blockPrivate = (if blockPrivate then ''p:'' @ proxyURL else ''u:'' @ proxyURL)"

text \<open>\<open>socks\<close> tells whether the SOCKS5 library accepts the URL.\<close>

definition buildProxyClientControl :: "(URL \<Rightarrow> bool) \<Rightarrow> string \<Rightarrow> hop \<Rightarrow> httpClient option" where
  "buildProxyClientControl socks proxyURL hop =
     (case urlParse proxyURL of
        None \<Rightarrow> None
      | Some u \<Rightarrow>
          if Scheme u = ''socks5'' \<or> Scheme u = ''socks5h'' then (if socks u then Some (ViaSocks proxyURL hop) else None)
          else if Scheme u = ''http'' \<or> Scheme u = ''https'' then Some (ViaHTTP proxyURL hop)
          else None)"

definition buildProxyClient :: "(URL \<Rightarrow> bool) \<Rightarrow> string \<Rightarrow> bool \<Rightarrow> httpClient option" where
  "buildProxyClient socks proxyURL blockPrivate = buildProxyClientControl socks proxyURL (GuardedHop blockPrivate)"

text \<open>What the dialer of a client does with an address: the second result is the refreshed allowlist.\<close>

fun hopControl :: "(string \<Rightarrow> IP list option) \<Rightarrow> int \<Rightarrow> Allow option \<Rightarrow> string \<Rightarrow> hop \<Rightarrow> string \<Rightarrow> guard_err option \<times> Allow option" where
  "hopControl lookup now oa proxyURL UpstreamHop address = (upstreamHopControl proxyURL address, oa)"
| "hopControl lookup now oa proxyURL (GuardedHop bp) address = DialControlAllow lookup now bp oa address"

text \<open>The clock is read at the lookup (\<open>t1\<close>), at the insertion (\<open>t2\<close>) and in the sweep (\<open>t3\<close>). The last result lists the
  clients whose idle connections are closed.\<close>

record clock3 =
  t1 :: int
  t2 :: int
  t3 :: int

definition putClient :: "((string \<times> proxyClientEntry) list \<Rightarrow> (string \<times> proxyClientEntry) list) \<Rightarrow> clock3 \<Rightarrow> string \<Rightarrow> httpClient \<Rightarrow>
    (string \<times> proxyClientEntry) list \<Rightarrow> (string \<times> proxyClientEntry) list \<times> httpClient list" where
  "putClient ord t key c m =
     (let m2 = AList.update key \<lparr>client = c, clientExpires = t2 t + proxyClientTTL\<rparr> m
      in if length m2 > proxyClientMaxEntries then sweepProxyClients ord (t3 t) m2 else (m2, []))"

definition makeClient :: "Config \<Rightarrow> (URL \<Rightarrow> bool) \<Rightarrow> ((string \<times> proxyClientEntry) list \<Rightarrow> (string \<times> proxyClientEntry) list) \<Rightarrow> clock3 \<Rightarrow>
    string \<Rightarrow> (string \<times> proxyClientEntry) list \<Rightarrow> httpClient \<times> (string \<times> proxyClientEntry) list \<times> httpClient list" where
  "makeClient cfg socks ord t proxyURL m =
     (let bp = proxyBlockPrivate cfg
      in case (if UpstreamProxy cfg \<noteq> [] \<and> proxyURL = UpstreamProxy cfg
               then buildProxyClientControl socks proxyURL UpstreamHop else buildProxyClient socks proxyURL bp) of
           None \<Rightarrow> (BaseClient, m, [])
         | Some c \<Rightarrow> (c, putClient ord t (proxyClientKey proxyURL bp) c m))"

definition clientFor :: "Config \<Rightarrow> (URL \<Rightarrow> bool) \<Rightarrow> ((string \<times> proxyClientEntry) list \<Rightarrow> (string \<times> proxyClientEntry) list) \<Rightarrow> clock3 \<Rightarrow>
    (string \<times> proxyClientEntry) list \<Rightarrow> string \<Rightarrow> httpClient \<times> (string \<times> proxyClientEntry) list \<times> httpClient list" where
  "clientFor cfg socks ord t m proxyURL =
     (if proxyURL = [] then (BaseClient, m, [])
      else
        (let key = proxyClientKey proxyURL (proxyBlockPrivate cfg)
         in case map_of m key of
              None \<Rightarrow> makeClient cfg socks ord t proxyURL m
            | Some e \<Rightarrow>
                if t1 t < clientExpires e then (client e, m, [])
                else (case makeClient cfg socks ord t proxyURL (AList.delete key m) of
                        (c, m', cl) \<Rightarrow> (c, m', client e # cl))))"

section \<open>Egress addresses\<close>

record ipCacheEntry =
  cachedIP :: string
  ipExpires :: int

definition ipCacheTTL :: int where "ipCacheTTL = 5 * 60 * 1000000000"
definition ipCacheMaxEntries :: nat where "ipCacheMaxEntries = 16"
definition ipServices :: "string list" where
  "ipServices = [''https://api.ipify.org'', ''https://checkip.amazonaws.com'']"

definition sweepIPCache :: "((string \<times> ipCacheEntry) list \<Rightarrow> (string \<times> ipCacheEntry) list) \<Rightarrow> int \<Rightarrow>
    (string \<times> ipCacheEntry) list \<Rightarrow> (string \<times> ipCacheEntry) list" where
  "sweepIPCache ord now m = fst (capLoop ord ipExpires ipCacheMaxEntries (filter (\<lambda>(k, e). \<not> now > ipExpires e) m))"

definition putIP :: "((string \<times> ipCacheEntry) list \<Rightarrow> (string \<times> ipCacheEntry) list) \<Rightarrow> clock3 \<Rightarrow> string \<Rightarrow> string \<Rightarrow>
    (string \<times> ipCacheEntry) list \<Rightarrow> (string \<times> ipCacheEntry) list" where
  "putIP ord t key ip m =
     (let m2 = AList.update key \<lparr>cachedIP = ip, ipExpires = t2 t + ipCacheTTL\<rparr> m
      in if length m2 > ipCacheMaxEntries then sweepIPCache ord (t3 t) m2 else m2)"

text \<open>One echo service: \<open>get\<close> is the answer of a GET through a client, with its status and the first 64 body bytes (\<open>None\<close>
  when the request or the read fails); \<open>jsonIP\<close> is the \<open>ip\<close> field of the body read as JSON, if that parses.\<close>

fun askServices :: "(httpClient \<Rightarrow> string \<Rightarrow> (int \<times> string) option) \<Rightarrow> (string \<Rightarrow> string option) \<Rightarrow> httpClient \<Rightarrow> string list \<Rightarrow> string" where
  "askServices get jsonIP c [] = []"
| "askServices get jsonIP c (svc # svcs) =
     (case get c svc of
        None \<Rightarrow> askServices get jsonIP c svcs
      | Some (code, body) \<Rightarrow>
          if code \<noteq> 200 then askServices get jsonIP c svcs
          else
            (let candidate = (case jsonIP body of Some j \<Rightarrow> if j \<noteq> [] then j else trimSpace body | None \<Rightarrow> trimSpace body)
             in case ParseIP candidate of
                  Some ip \<Rightarrow> ipString ip
                | None \<Rightarrow> askServices get jsonIP c svcs))"

datatype ip_result = IPUnauthorized auth_err | IPForbidden | IPFound string | IPUnknown

record ipState =
  ipCache :: "(string \<times> ipCacheEntry) list"
  proxyClients :: "(string \<times> proxyClientEntry) list"

definition serveIP :: "Config \<Rightarrow> IPNet list option \<Rightarrow> signer \<Rightarrow> (string \<Rightarrow> string list option) \<Rightarrow> (string \<Rightarrow> IP list option) \<Rightarrow>
    (URL \<Rightarrow> bool) \<Rightarrow> ((string \<times> proxyClientEntry) list \<Rightarrow> (string \<times> proxyClientEntry) list) \<Rightarrow>
    ((string \<times> ipCacheEntry) list \<Rightarrow> (string \<times> ipCacheEntry) list) \<Rightarrow> (httpClient \<Rightarrow> string \<Rightarrow> (int \<times> string) option) \<Rightarrow>
    (string \<Rightarrow> string option) \<Rightarrow> int \<Rightarrow> clock3 \<Rightarrow> clock3 \<Rightarrow> ipState \<Rightarrow> Request \<Rightarrow> ip_result \<times> ipState" where
  "serveIP cfg tp sg lookupHost lookup socks ordC ordI get jsonIP unixNow tc ti st r =
     (case authorize cfg tp sg unixNow r of
        Some e \<Rightarrow> (IPUnauthorized e, st)
      | None \<Rightarrow>
          (let raw = qGet (query r) ''proxy'';
               given = (if raw = [] then []
                        else (case urlParse raw of None \<Rightarrow> [] | Some u \<Rightarrow> if Scheme u \<in> proxySchemes then raw else []))
           in if given \<noteq> [] \<and> fst (validateProxyHost lookupHost lookup (t1 ti) cfg given) \<noteq> None then (IPForbidden, st)
              else
                (let eff = (if given = [] then UpstreamProxy cfg else given);
                     miss =
                       (case clientFor cfg socks ordC tc (proxyClients st) eff of
                          (c, pcs, _) \<Rightarrow>
                            (let ip = askServices get jsonIP c ipServices; st' = st\<lparr>proxyClients := pcs\<rparr>
                             in if ip = [] then (IPUnknown, st')
                                else (IPFound ip, st'\<lparr>ipCache := putIP ordI ti eff ip (ipCache st)\<rparr>)))
                 in case map_of (ipCache st) eff of
                      Some e \<Rightarrow> if t1 ti < ipExpires e then (IPFound (cachedIP e), st) else miss
                    | None \<Rightarrow> miss)))"

section \<open>Embed resolutions\<close>

record 'r embedEntry =
  embedRes :: 'r
  embedExpires :: int

definition embedCacheTTL :: int where "embedCacheTTL = 10 * 60 * 1000000000"
definition embedCacheMax :: nat where "embedCacheMax = 256"

definition embedGet :: "(string \<times> 'r embedEntry) list \<Rightarrow> int \<Rightarrow> string \<Rightarrow> 'r option" where
  "embedGet m now key =
     (case map_of m key of None \<Rightarrow> None | Some e \<Rightarrow> if now > embedExpires e then None else Some (embedRes e))"

fun dropEntries :: "string list \<Rightarrow> (string \<times> 'r embedEntry) list \<Rightarrow> (string \<times> 'r embedEntry) list" where
  "dropEntries [] m = m"
| "dropEntries (k # ks) m = (if length m < embedCacheMax then m else dropEntries ks (AList.delete k m))"

definition embedPut :: "((string \<times> 'r embedEntry) list \<Rightarrow> (string \<times> 'r embedEntry) list) \<Rightarrow> int \<Rightarrow> int \<Rightarrow> string \<Rightarrow> 'r \<Rightarrow>
    (string \<times> 'r embedEntry) list \<Rightarrow> (string \<times> 'r embedEntry) list" where
  "embedPut ord now now2 key res m =
     (let m1 = (if length m \<ge> embedCacheMax then
                  (let live = filter (\<lambda>(k, e). \<not> now > embedExpires e) m in dropEntries (map fst (rangeOver ord live)) live)
                else m)
      in AList.update key \<lparr>embedRes = res, embedExpires = now2 + embedCacheTTL\<rparr> m1)"

section \<open>The cap\<close>

lemma delete_mset: "x \<in> set m \<Longrightarrow> distinct (map fst m) \<Longrightarrow> mset m = add_mset x (mset (AList.delete (fst x) m))"
proof (induction m)
  case (Cons y m)
  show ?case
  proof (cases "x = y")
    case True
    then show ?thesis using Cons.prems(2) by simp
  next
    case False
    then have x: "x \<in> set m" using Cons.prems(1) by simp
    then have "fst y \<noteq> fst x" using Cons.prems(2) by (metis distinct.simps(2) image_eqI list.simps(9) set_map)
    then show ?thesis using Cons.IH [OF x] Cons.prems(2) by simp
  qed
qed simp

lemma capLoop_spec:
  assumes "capLoop ord ex cap m = (m', ev)" "distinct (map fst m)"
  shows "length m' = min cap (length m) \<and> mset m = mset m' + mset ev \<and> distinct (map fst m') \<and>
    (\<forall>x \<in> set ev. \<forall>y \<in> set m'. ex (snd x) \<le> ex (snd y))"
  using assms
proof (induction ord ex cap m arbitrary: m' ev rule: capLoop.induct)
  case (1 ord ex cap m)
  show ?case
  proof (cases "length m > cap")
    case False
    then have "(m', ev) = (m, [])" using 1(2) by (simp add: capLoop.simps [of ord ex cap m])
    then show ?thesis using False 1(3) by (simp add: min_def)
  next
    case True
    then obtain x where x: "soonest ex (rangeOver ord m) None = Some x"
      using soonest_None [of ex "rangeOver ord m"] rangeOver_set [of ord m] by (cases "soonest ex (rangeOver ord m) None") auto
    obtain m1 ev1 where r: "capLoop ord ex cap (AList.delete (fst x) m) = (m1, ev1)" by (cases "capLoop ord ex cap (AList.delete (fst x) m)") auto
    have m: "m' = m1" "ev = x # ev1" using 1(2) True x r by (simp_all add: capLoop.simps [of ord ex cap m])
    have xm: "x \<in> set m" "\<forall>y \<in> set m. ex (snd x) \<le> ex (snd y)" using soonest_spec [OF x] by simp_all
    have d: "distinct (map fst (AList.delete (fst x) m))" using 1(3) by (rule distinct_delete)
    note IH = 1(1) [OF True x r d]
    have "mset (AList.delete (fst x) m) = mset m1 + mset ev1" using IH by blast
    then have e: "mset m = add_mset x (mset m1 + mset ev1)" using delete_mset [OF xm(1) 1(3)] by (rule trans [rotated, OF arg_cong])
    have l: "length m = Suc (length (AList.delete (fst x) m))" using arg_cong [OF delete_mset [OF xm(1) 1(3)], of size] by simp
    have "set m = insert x (set m1 \<union> set ev1)" using arg_cong [OF e, of set_mset] by simp
    then have "\<forall>y \<in> set m1. ex (snd x) \<le> ex (snd y)" using xm(2) by blast
    then have "\<forall>z \<in> set (x # ev1). \<forall>y \<in> set m1. ex (snd z) \<le> ex (snd y)" using IH by simp
    moreover have "length m1 = min cap (length m)" using IH l True by simp
    ultimately show ?thesis using IH e unfolding m by simp
  qed
qed

lemma delete_set: "x \<in> set (AList.delete k m) \<Longrightarrow> x \<in> set m"
  by (auto simp: AList.delete_eq)

lemma update_set: "set (AList.update k v m) \<subseteq> insert (k, v) (set m)"
  by (induction m) (auto split: if_splits)

lemma update_length: "length (AList.update k v m) \<le> Suc (length m)"
  by (induction m) auto

lemma distinct_filter: "distinct (map fst m) \<Longrightarrow> distinct (map fst (filter P m))"
  by (simp add: distinct_map_filter)

text \<open>Expiring and capping a map keeps a sub-map within the cap.\<close>

lemma capped_sub:
  assumes "distinct (map fst m)"
  shows "length (fst (capLoop ord ex cap (filter P m))) \<le> cap \<and> distinct (map fst (fst (capLoop ord ex cap (filter P m)))) \<and>
    set (fst (capLoop ord ex cap (filter P m))) \<subseteq> set m"
proof -
  obtain m' ev where c: "capLoop ord ex cap (filter P m) = (m', ev)" by (cases "capLoop ord ex cap (filter P m)") auto
  note s = capLoop_spec [OF c distinct_filter [OF assms]]
  then have "set (filter P m) = set m' \<union> set ev" by (metis set_mset_mset set_mset_union)
  then show ?thesis using s c by auto
qed

lemma capped_update:
  assumes "distinct (map fst m)" "m2 = AList.update k v m"
    and "m' = (if length m2 > cap then fst (capLoop ord ex cap (filter P m2)) else m2)"
  shows "distinct (map fst m') \<and> length m' \<le> cap \<and> set m' \<subseteq> insert (k, v) (set m)"
proof -
  have d: "distinct (map fst m2)" unfolding assms(2) using assms(1) by (rule distinct_update)
  show ?thesis using d capped_sub [OF d, of ord ex cap P] update_set [of k v m, folded assms(2)] unfolding assms(3) by auto
qed

text \<open>The contract of a map fed with client-supplied keys: an operation keeps the keys distinct, stays within the cap and
  adds only entries of its own.\<close>

locale capped_map =
  fixes put :: "'t \<Rightarrow> (string \<times> 'v) list \<Rightarrow> (string \<times> 'v) list"
    and cap :: nat
    and new :: "'t \<Rightarrow> (string \<times> 'v) set"
  assumes put_ok: "distinct (map fst m) \<Longrightarrow> length m \<le> cap \<Longrightarrow>
    distinct (map fst (put t m)) \<and> length (put t m) \<le> cap \<and> set (put t m) \<subseteq> new t \<union> set m"
begin

lemma run_from:
  "distinct (map fst m) \<Longrightarrow> length m \<le> cap \<Longrightarrow>
     distinct (map fst (fold put ts m)) \<and> length (fold put ts m) \<le> cap \<and> set (fold put ts m) \<subseteq> (\<Union>t \<in> set ts. new t) \<union> set m"
proof (induction ts arbitrary: m)
  case (Cons t ts)
  from Cons.IH [of "put t m"] put_ok [OF Cons.prems, of t] show ?case by auto
qed simp

lemma run: "distinct (map fst (fold put ts [])) \<and> length (fold put ts []) \<le> cap \<and> set (fold put ts []) \<subseteq> (\<Union>t \<in> set ts. new t)"
  using run_from [of "[]" ts] by simp

end

lemma putClient_ok:
  assumes "distinct (map fst m)"
  shows "distinct (map fst (fst (putClient ord t key c m))) \<and> length (fst (putClient ord t key c m)) \<le> proxyClientMaxEntries \<and>
    set (fst (putClient ord t key c m)) \<subseteq> insert (key, \<lparr>client = c, clientExpires = t2 t + proxyClientTTL\<rparr>) (set m)"
  by (rule capped_update [OF assms(1) refl, where ord = ord and ex = clientExpires and P = "\<lambda>(k, e). \<not> t3 t > clientExpires e"])
    (simp add: putClient_def Let_def sweepProxyClients_def split: prod.splits)


text \<open>The client a proxy URL may get.\<close>

definition wantHop :: "Config \<Rightarrow> string \<Rightarrow> hop" where
  "wantHop cfg url = (if UpstreamProxy cfg \<noteq> [] \<and> url = UpstreamProxy cfg then UpstreamHop else GuardedHop (proxyBlockPrivate cfg))"

definition clientOf :: "Config \<Rightarrow> string \<Rightarrow> httpClient \<Rightarrow> bool" where
  "clientOf cfg url c \<longleftrightarrow> url \<noteq> [] \<and> (c = ViaSocks url (wantHop cfg url) \<or> c = ViaHTTP url (wantHop cfg url))"

definition clientEntries :: "Config \<Rightarrow> string \<Rightarrow> (string \<times> proxyClientEntry) set" where
  "clientEntries cfg url = {(k, e). k = proxyClientKey url (proxyBlockPrivate cfg) \<and> clientOf cfg url (client e)}"

lemma makeClient_ok:
  assumes "distinct (map fst m)" "length m \<le> proxyClientMaxEntries" "url \<noteq> []" "makeClient cfg socks ord t url m = (c, m', cl)"
  shows "distinct (map fst m') \<and> length m' \<le> proxyClientMaxEntries \<and> set m' \<subseteq> clientEntries cfg url \<union> set m \<and>
    (c = BaseClient \<or> clientOf cfg url c)"
proof -
  let ?b = "if UpstreamProxy cfg \<noteq> [] \<and> url = UpstreamProxy cfg
            then buildProxyClientControl socks url UpstreamHop else buildProxyClient socks url (proxyBlockPrivate cfg)"
  show ?thesis
  proof (cases ?b)
    case None
    then show ?thesis using assms by (simp add: makeClient_def)
  next
    case (Some c')
    then have "clientOf cfg url c'" using assms(3)
      by (auto simp: buildProxyClient_def buildProxyClientControl_def clientOf_def wantHop_def split: option.splits if_splits)
    moreover have "c = c'" "m' = fst (putClient ord t (proxyClientKey url (proxyBlockPrivate cfg)) c m)"
      using assms(4) Some by (auto simp: makeClient_def)
    ultimately show ?thesis
      using putClient_ok [OF assms(1), of ord t "proxyClientKey url (proxyBlockPrivate cfg)" c] by (auto simp: clientEntries_def)
  qed
qed

lemma clientFor_ok:
  assumes "distinct (map fst m)" "length m \<le> proxyClientMaxEntries" "clientFor cfg socks ord t m url = (c, m', cl)"
  shows "distinct (map fst m') \<and> length m' \<le> proxyClientMaxEntries \<and> set m' \<subseteq> clientEntries cfg url \<union> set m \<and>
    (c = BaseClient \<or> clientOf cfg url c \<or> (\<exists>e. (proxyClientKey url (proxyBlockPrivate cfg), e) \<in> set m \<and> c = client e))"
proof (cases "url = []")
  case False
  let ?key = "proxyClientKey url (proxyBlockPrivate cfg)"
  show ?thesis
  proof (cases "map_of m ?key")
    case None
    then have "makeClient cfg socks ord t url m = (c, m', cl)" using assms(3) False by (simp add: clientFor_def)
    from makeClient_ok [OF assms(1,2) False this] show ?thesis by blast
  next
    case (Some e)
    show ?thesis
    proof (cases "t1 t < clientExpires e")
      case True
      then have "(c, m', cl) = (client e, m, [])" using assms(3) False Some by (simp add: clientFor_def)
      then show ?thesis using assms(1,2) map_of_SomeD [OF Some] by auto
    next
      case expired: False
      then obtain cl' where mk: "makeClient cfg socks ord t url (AList.delete ?key m) = (c, m', cl')"
        using assms(3) False Some by (auto simp: clientFor_def split: prod.splits)
      have "length (AList.delete ?key m) \<le> proxyClientMaxEntries" using length_delete_le [of ?key m] assms(2) by linarith
      from makeClient_ok [OF distinct_delete [OF assms(1)] this False mk] show ?thesis
        using delete_set [of _ ?key m] by blast
    qed
  qed
qed (use assms in \<open>simp add: clientFor_def\<close>)

text \<open>Operations on the client cache: the SOCKS5 library's answer, the iteration order, the clock and the proxy URL.\<close>

type_synonym client_op = "(URL \<Rightarrow> bool) \<times> ((string \<times> proxyClientEntry) list \<Rightarrow> (string \<times> proxyClientEntry) list) \<times> clock3 \<times> string"

definition clientStep :: "Config \<Rightarrow> client_op \<Rightarrow> (string \<times> proxyClientEntry) list \<Rightarrow> (string \<times> proxyClientEntry) list" where
  "clientStep cfg o1 m = (case o1 of (socks, ord, t, url) \<Rightarrow> fst (snd (clientFor cfg socks ord t m url)))"

interpretation client_map: capped_map "clientStep cfg" proxyClientMaxEntries "\<lambda>(socks, ord, t, url). clientEntries cfg url" for cfg
proof
  fix m :: "(string \<times> proxyClientEntry) list" and o1 :: client_op
  assume a: "distinct (map fst m)" "length m \<le> proxyClientMaxEntries"
  obtain socks ord t url where o1: "o1 = (socks, ord, t, url)" by (cases o1) auto
  obtain c m' cl where c: "clientFor cfg socks ord t m url = (c, m', cl)" by (cases "clientFor cfg socks ord t m url") auto
  show "distinct (map fst (clientStep cfg o1 m)) \<and> length (clientStep cfg o1 m) \<le> proxyClientMaxEntries \<and>
      set (clientStep cfg o1 m) \<subseteq> (case o1 of (socks, ord, t, url) \<Rightarrow> clientEntries cfg url) \<union> set m"
    using clientFor_ok [OF a c] by (simp add: o1 clientStep_def c)
qed

type_synonym ip_op = "((string \<times> ipCacheEntry) list \<Rightarrow> (string \<times> ipCacheEntry) list) \<times> clock3 \<times> string \<times> string"

definition ipStep :: "ip_op \<Rightarrow> (string \<times> ipCacheEntry) list \<Rightarrow> (string \<times> ipCacheEntry) list" where
  "ipStep o1 m = (case o1 of (ord, t, key, ip) \<Rightarrow> putIP ord t key ip m)"

interpretation ip_map: capped_map ipStep ipCacheMaxEntries "\<lambda>(ord, t, key, ip). {(key, \<lparr>cachedIP = ip, ipExpires = t2 t + ipCacheTTL\<rparr>)}"
proof
  fix m :: "(string \<times> ipCacheEntry) list" and o1 :: ip_op
  assume a: "distinct (map fst m)" "length m \<le> ipCacheMaxEntries"
  obtain ord t key ip where o1: "o1 = (ord, t, key, ip)" by (cases o1) auto
  let ?e = "\<lparr>cachedIP = ip, ipExpires = t2 t + ipCacheTTL\<rparr>"
  have "ipStep o1 m = (if length (AList.update key ?e m) > ipCacheMaxEntries
      then fst (capLoop ord ipExpires ipCacheMaxEntries (filter (\<lambda>(k, e). \<not> t3 t > ipExpires e) (AList.update key ?e m)))
      else AList.update key ?e m)"
    by (simp add: o1 ipStep_def putIP_def Let_def sweepIPCache_def)
  from capped_update [OF a(1) refl this]
  show "distinct (map fst (ipStep o1 m)) \<and> length (ipStep o1 m) \<le> ipCacheMaxEntries \<and>
      set (ipStep o1 m) \<subseteq> (case o1 of (ord, t, key, ip) \<Rightarrow> {(key, \<lparr>cachedIP = ip, ipExpires = t2 t + ipCacheTTL\<rparr>)}) \<union> set m"
    by (simp add: o1)
qed

lemma dropEntries_ok:
  assumes "distinct (map fst m)"
  shows "distinct (map fst (dropEntries ks m)) \<and> set (dropEntries ks m) \<subseteq> set m \<and>
    (fst ` set m \<subseteq> set ks \<longrightarrow> length (dropEntries ks m) < embedCacheMax)"
  using assms
proof (induction ks arbitrary: m)
  case Nil
  then show ?case by (simp add: embedCacheMax_def)
next
  case (Cons k ks)
  show ?case
  proof (cases "length m < embedCacheMax")
    case False
    have "fst ` set (AList.delete k m) \<subseteq> set ks" if "fst ` set m \<subseteq> set (k # ks)"
      using that delete_notin_dom [of k m] dom_delete_subset [of k m] unfolding set_simps by blast
    then show ?thesis using Cons.IH [OF distinct_delete [OF Cons.prems], of k] False delete_set [of _ k m] by auto
  qed (use Cons.prems in simp)
qed

type_synonym 'r embed_op = "((string \<times> 'r embedEntry) list \<Rightarrow> (string \<times> 'r embedEntry) list) \<times> int \<times> int \<times> string \<times> 'r"

definition embedStep :: "'r embed_op \<Rightarrow> (string \<times> 'r embedEntry) list \<Rightarrow> (string \<times> 'r embedEntry) list" where
  "embedStep o1 m = (case o1 of (ord, now, now2, key, res) \<Rightarrow> embedPut ord now now2 key res m)"

interpretation embed_map: capped_map embedStep embedCacheMax
  "\<lambda>(ord, now, now2, key, res). {(key, \<lparr>embedRes = res, embedExpires = now2 + embedCacheTTL\<rparr>)}"
proof
  fix m :: "(string \<times> 'r embedEntry) list" and o1 :: "'r embed_op"
  assume a: "distinct (map fst m)" "length m \<le> embedCacheMax"
  obtain ord now now2 key res where o1: "o1 = (ord, now, now2, key, res)" by (cases o1) auto
  let ?live = "filter (\<lambda>(k, e). \<not> now > embedExpires e) m" and ?e = "\<lparr>embedRes = res, embedExpires = now2 + embedCacheTTL\<rparr>"
  define m1 where "m1 = (if length m \<ge> embedCacheMax then dropEntries (map fst (rangeOver ord ?live)) ?live else m)"
  have "fst ` set ?live \<subseteq> set (map fst (rangeOver ord ?live))" by simp
  with dropEntries_ok [OF distinct_filter [OF a(1)]]
  have m1: "distinct (map fst m1)" "length m1 < embedCacheMax" "set m1 \<subseteq> set m"
    unfolding m1_def using a by (auto simp: not_le)
  have "embedStep o1 m = AList.update key ?e m1" by (simp add: o1 embedStep_def embedPut_def m1_def Let_def)
  moreover have "length (AList.update key ?e m1) \<le> embedCacheMax" using update_length [of key ?e m1] m1(2) by linarith
  ultimately show "distinct (map fst (embedStep o1 m)) \<and> length (embedStep o1 m) \<le> embedCacheMax \<and>
      set (embedStep o1 m) \<subseteq> (case o1 of (ord, now, now2, key, res) \<Rightarrow> {(key, \<lparr>embedRes = res, embedExpires = now2 + embedCacheTTL\<rparr>)}) \<union> set m"
    using distinct_update [OF m1(1), of key ?e] update_set [of key ?e m1] m1(3) by (auto simp: o1)
qed

section \<open>Properties\<close>

text \<open>After any sequence of requests, with any proxy URLs, clock readings and map iteration orders, at most 16 upstream
  clients are cached, and a request is never served by a client of another proxy URL or with a weaker dial guard: the
  client returned is the base client or one built for exactly this URL, exempt from the private-range guard only if the
  URL is the operator's own upstream proxy.\<close>

theorem proxy_client_cache:
  assumes "m = fold (clientStep cfg) ops []" "clientFor cfg socks ord t m url = (c, m', cl)"
  shows "length m' \<le> 16 \<and> distinct (map fst m') \<and>
    (c = BaseClient \<or> (url \<noteq> [] \<and> (c = ViaSocks url (wantHop cfg url) \<or> c = ViaHTTP url (wantHop cfg url))))"
proof -
  have m: "distinct (map fst m)" "length m \<le> proxyClientMaxEntries" "set m \<subseteq> (\<Union>(socks, ord, t, url) \<in> set ops. clientEntries cfg url)"
    using client_map.run [of cfg ops] assms(1) by simp_all
  have "clientOf cfg url (client e)" if "(proxyClientKey url (proxyBlockPrivate cfg), e) \<in> set m" for e
    using subsetD [OF m(3) that] by (auto simp: clientEntries_def proxyClientKey_def split: if_splits)
  then have "c = BaseClient \<or> clientOf cfg url c" using clientFor_ok [OF m(1,2) assms(2)] by blast
  then show ?thesis using clientFor_ok [OF m(1,2) assms(2)] by (simp add: clientOf_def proxyClientMaxEntries_def)
qed

text \<open>The sweep of the client cache evicts what must go and nothing else: expired entries leave, at most 16 of the
  others stay, those that stay expire no earlier than those evicted, and the connections of exactly the clients that
  leave are closed.\<close>

theorem sweep_soonest_first:
  assumes "distinct (map fst m)" "sweepProxyClients ord now m = (m', closed)"
  shows "length m' = min 16 (length (filter (\<lambda>(k, e). now \<le> clientExpires e) m)) \<and>
    set m' \<subseteq> {(k, e) \<in> set m. now \<le> clientExpires e} \<and>
    (\<forall>(k, e) \<in> set m - set m'. \<forall>(k', e') \<in> set m'. clientExpires e \<le> clientExpires e') \<and>
    mset (map (client \<circ> snd) m) = mset (map (client \<circ> snd) m') + mset closed"
proof -
  let ?dead = "\<lambda>(k, e). now > clientExpires e" and ?live = "\<lambda>(k, e). \<not> now > clientExpires e"
  obtain ev where c: "capLoop ord clientExpires proxyClientMaxEntries (filter ?live m) = (m', ev)"
    and cl: "closed = map (client \<circ> snd) (filter ?dead (rangeOver ord m) @ ev)"
    using assms(2) by (auto simp: sweepProxyClients_def split: prod.splits)
  note s = capLoop_spec [OF c distinct_filter [OF assms(1)]]
  have live: "mset (filter ?live m) = mset m' + mset ev" using s by blast
  then have sets: "{x \<in> set m. ?live x} = set m' \<union> set ev" by (metis set_filter set_mset_mset set_mset_union)
  have "mset m = mset (filter ?live m) + mset (filter ?dead m)"
    using multiset_partition [of "mset m" ?live] by (simp add: case_prod_unfold)
  also have "mset (filter ?dead m) = mset (filter ?dead (rangeOver ord m))" by (simp only: mset_filter rangeOver_mset)
  finally have "mset m = mset m' + mset ev + mset (filter ?dead (rangeOver ord m))" unfolding live .
  then have "mset m = mset m' + mset (filter ?dead (rangeOver ord m) @ ev)" unfolding mset_append by (simp only: ac_simps)
  then have "mset (map (client \<circ> snd) m) = mset (map (client \<circ> snd) m') + mset closed"
    unfolding cl mset_map image_mset_union [symmetric] by (rule arg_cong)
  moreover have "clientExpires e \<le> clientExpires e'" if "(k, e) \<in> set m - set m'" "(k', e') \<in> set m'" for k e k' e'
  proof (cases "now > clientExpires e")
    case True
    moreover have "(k', e') \<in> {x \<in> set m. ?live x}" unfolding sets using that(2) by (rule UnI1)
    ultimately show ?thesis by simp
  next
    case False
    then have "(k, e) \<in> set ev" using that(1) sets by blast
    then show ?thesis using s that(2) by fastforce
  qed
  moreover have "set m' \<subseteq> {x \<in> set m. ?live x}" unfolding sets by (rule Un_upper1)
  ultimately show ?thesis using s by (auto simp: proxyClientMaxEntries_def not_less)
qed

text \<open>No client can make the proxy's caches grow: whatever keys requests bring, the egress-address cache keeps at most 16
  entries and the embed cache at most 256, each holding the value stored last for a key by one of the requests.\<close>

theorem proxy_caches_bounded:
  "length (fold ipStep ips []) \<le> 16 \<and> length (fold embedStep embeds []) \<le> 256 \<and>
   (\<forall>(k, e) \<in> set (fold ipStep ips []). \<exists>ord t. (ord, t, k, cachedIP e) \<in> set ips \<and> ipExpires e = t2 t + ipCacheTTL) \<and>
   (\<forall>(k, e) \<in> set (fold embedStep embeds []). \<exists>ord now now2. (ord, now, now2, k, embedRes e) \<in> set embeds)"
  using ip_map.run [of ips] embed_map.run [of embeds]
  by (fastforce simp: ipCacheMaxEntries_def embedCacheMax_def)

section \<open>Witnesses\<close>

definition demoClock :: clock3 where "demoClock = \<lparr>t1 = 0, t2 = 0, t3 = 0\<rparr>"

theorem proxy_client_cache_witness:
  "fst (clientFor demoGuardCfg (\<lambda>_. True) rev demoClock (fold (clientStep demoGuardCfg) [(\<lambda>_. True, rev, demoClock, ''http://p:1'')] []) ''http://p:1'') =
     ViaHTTP ''http://p:1'' (GuardedHop True)"
proof -
  let ?m = "fold (clientStep demoGuardCfg) [(\<lambda>_. True, rev, demoClock, ''http://p:1'')] []"
  obtain c m' cl where c: "clientFor demoGuardCfg (\<lambda>_. True) rev demoClock ?m ''http://p:1'' = (c, m', cl)"
    by (cases "clientFor demoGuardCfg (\<lambda>_. True) rev demoClock ?m ''http://p:1''") auto
  have "fst (clientFor demoGuardCfg (\<lambda>_. True) rev demoClock ?m ''http://p:1'') = ViaHTTP ''http://p:1'' (GuardedHop True)" by code_simp
  moreover note proxy_client_cache [OF refl c]
  ultimately show ?thesis by simp
qed

definition demoEntries :: "(string \<times> proxyClientEntry) list" where
  "demoEntries = map (\<lambda>i. (''p:'' @ itoa i, \<lparr>client = ViaHTTP (itoa i) (GuardedHop True), clientExpires = int i\<rparr>)) [0..<18]"

theorem sweep_soonest_first_witness:
  "map (clientExpires \<circ> snd) (fst (sweepProxyClients rev 0 demoEntries)) = map int [2..<18]"
proof -
  obtain m' cl where c: "sweepProxyClients rev 0 demoEntries = (m', cl)" by (cases "sweepProxyClients rev 0 demoEntries") auto
  have "distinct (map fst demoEntries)" by code_simp
  from sweep_soonest_first [OF this c] have "length m' = min 16 (length (filter (\<lambda>(k, e). 0 \<le> clientExpires e) demoEntries))" by blast
  moreover have "map (clientExpires \<circ> snd) (fst (sweepProxyClients rev 0 demoEntries)) = map int [2..<18]" by code_simp
  ultimately show ?thesis by simp
qed

theorem proxy_caches_bounded_witness:
  "length (fold ipStep (map (\<lambda>i. (rev, demoClock, itoa i, ''1.2.3.4'')) [0..<20]) []) \<le> 16"
  using proxy_caches_bounded by blast

end
