(* ===== verification/Seg_Cache.thy ===== *)
theory Seg_Cache
  imports Byte_Budget "HOL-Library.Sublist"
begin

text \<open>
  \<open>internal/streamproxy/cache.go\<close>: the LRU segment cache bounded by entries, bytes and age, and the buffered fetch that
  fills it under the in-flight byte budget. The recency list is a list of elements with identities (Go's
  \<open>*list.Element\<close>), front first; \<open>items\<close> maps a key to its element. Time is an integer; byte counts stay far below
  \<open>2^63\<close> (the caps are 256 MiB and 50 MiB).
\<close>

section \<open>The cache\<close>

type_synonym http_header = "(string \<times> string list) list"

record cacheEntry =
  ekey :: string
  val :: "byte list"
  hdr :: "http_header option"
  status :: int
  expiresAt :: int
  esize :: int

record segCache =
  ttl :: int
  maxEntries :: int
  maxBytes :: int
  totalBytes :: int
  items :: "string \<Rightarrow> nat option"
  lru :: "(nat \<times> cacheEntry) list"
  nextEl :: nat  \<comment> \<open>identity of the next list element\<close>

definition defaultCacheMaxBytes :: int where
  "defaultCacheMaxBytes = 256 * 1024 * 1024"

definition newSegCache :: "int \<Rightarrow> int \<Rightarrow> segCache" where
  "newSegCache t n = \<lparr>ttl = t, maxEntries = n, maxBytes = defaultCacheMaxBytes, totalBytes = 0, items = (\<lambda>_. None),
     lru = [], nextEl = 0\<rparr>"

definition elem :: "segCache \<Rightarrow> nat \<Rightarrow> cacheEntry" where
  "elem c el = the (map_of (lru c) el)"

definition lruRemove :: "nat \<Rightarrow> (nat \<times> cacheEntry) list \<Rightarrow> (nat \<times> cacheEntry) list" where
  "lruRemove el xs = filter (\<lambda>x. fst x \<noteq> el) xs"

definition removeLocked :: "segCache \<Rightarrow> nat \<Rightarrow> segCache" where
  "removeLocked c el =
     (let e = elem c el
      in c\<lparr>totalBytes := totalBytes c - esize e, items := (items c)(ekey e := None), lru := lruRemove el (lru c)\<rparr>)"

lemma removeLocked_back: "lru c \<noteq> [] \<Longrightarrow> length (lru (removeLocked c (fst (last (lru c))))) < length (lru c)"
  unfolding removeLocked_def lruRemove_def Let_def
  by (simp, rule length_filter_less [of "last (lru c)"]) simp_all

text \<open>The two eviction loops of \<open>putFull\<close>.\<close>

function evictRefresh :: "segCache \<Rightarrow> nat \<Rightarrow> segCache" where
  "evictRefresh c el =
     (if totalBytes c > maxBytes c then
        (if lru c = [] \<or> fst (last (lru c)) = el then c
         else evictRefresh (removeLocked c (fst (last (lru c)))) el)
      else c)"
  by pat_completeness auto
termination by (relation "measure (\<lambda>(c, el). length (lru c))") (auto simp: removeLocked_back)

function evictRoom :: "segCache \<Rightarrow> int \<Rightarrow> segCache" where
  "evictRoom c newSize =
     (if int (length (lru c)) \<ge> maxEntries c \<or> totalBytes c + newSize > maxBytes c then
        (if lru c = [] then c else evictRoom (removeLocked c (fst (last (lru c)))) newSize)
      else c)"
  by pat_completeness auto
termination by (relation "measure (\<lambda>(c, n). length (lru c))") (auto simp: removeLocked_back)

declare evictRefresh.simps [simp del] evictRoom.simps [simp del]

definition putFull :: "segCache \<Rightarrow> int \<Rightarrow> string \<Rightarrow> byte list \<Rightarrow> http_header option \<Rightarrow> int \<Rightarrow> segCache" where
  "putFull c now key v h st =
     (let newSize = int (length v);
          new = \<lparr>ekey = key, val = v, hdr = h, status = st, expiresAt = now + ttl c, esize = newSize\<rparr>
      in if newSize > maxBytes c then
           (case items c key of Some el \<Rightarrow> removeLocked c el | None \<Rightarrow> c)
         else
           (case items c key of
              Some el \<Rightarrow>
                evictRefresh (c\<lparr>lru := (el, new) # lruRemove el (lru c),
                                totalBytes := totalBytes c - esize (elem c el) + newSize\<rparr>) el
            | None \<Rightarrow>
                (let c = evictRoom c newSize
                 in c\<lparr>totalBytes := totalBytes c + newSize, items := (items c)(key := Some (nextEl c)),
                      lru := (nextEl c, new) # lru c, nextEl := nextEl c + 1\<rparr>)))"

definition getFull :: "segCache \<Rightarrow> int \<Rightarrow> string \<Rightarrow> cacheEntry option \<times> segCache" where
  "getFull c now key =
     (case items c key of
        None \<Rightarrow> (None, c)
      | Some el \<Rightarrow>
          (let e = elem c el
           in if now > expiresAt e then (None, removeLocked c el)
              else (Some e, c\<lparr>lru := (el, e) # lruRemove el (lru c)\<rparr>)))"

text \<open>\<open>sweep\<close> walks the list from its back.\<close>

fun sweepFrom :: "nat list \<Rightarrow> int \<Rightarrow> segCache \<Rightarrow> segCache" where
  "sweepFrom [] now c = c"
| "sweepFrom (el # els) now c =
     sweepFrom els now (if now > expiresAt (elem c el) then removeLocked c el else c)"

definition sweep :: "segCache \<Rightarrow> int \<Rightarrow> segCache" where
  "sweep c now = sweepFrom (rev (map fst (lru c))) now c"

definition CacheStats :: "segCache option \<Rightarrow> int \<times> int" where
  "CacheStats oc = (case oc of None \<Rightarrow> (0, 0) | Some c \<Rightarrow> (int (length (lru c)), totalBytes c))"

section \<open>Invariant\<close>

abbreviation keys :: "segCache \<Rightarrow> string list" where "keys c \<equiv> map (\<lambda>x. ekey (snd x)) (lru c)"
abbreviation bytes :: "(nat \<times> cacheEntry) list \<Rightarrow> int" where "bytes xs \<equiv> sum_list (map (\<lambda>x. esize (snd x)) xs)"

definition linked :: "segCache \<Rightarrow> bool" where
  "linked c \<longleftrightarrow> distinct (map fst (lru c)) \<and> distinct (keys c) \<and> totalBytes c = bytes (lru c) \<and>
     (\<forall>k el. items c k = Some el \<longleftrightarrow> (\<exists>e. (el, e) \<in> set (lru c) \<and> ekey e = k)) \<and>
     (\<forall>(el, e) \<in> set (lru c). esize e = int (length (val e)) \<and> el < nextEl c)"

definition cache_inv :: "segCache \<Rightarrow> bool" where
  "cache_inv c \<longleftrightarrow> linked c \<and> 0 \<le> maxBytes c \<and> totalBytes c \<le> maxBytes c \<and> int (length (lru c)) \<le> max (maxEntries c) 1"

lemma elem_eq: "linked c \<Longrightarrow> (el, e) \<in> set (lru c) \<Longrightarrow> elem c el = e"
  by (simp add: elem_def linked_def map_of_is_SomeI)

lemma bytes_nonneg: "linked c \<Longrightarrow> set xs \<subseteq> set (lru c) \<Longrightarrow> 0 \<le> bytes xs"
  by (intro sum_list_nonneg) (force simp: linked_def)

lemma filter_split:
  assumes "distinct (map f (xs @ y # ys))"
  shows "filter (\<lambda>x. f x \<noteq> f y) (xs @ y # ys) = xs @ ys"
proof -
  have "f x \<noteq> f y" if "x \<in> set (xs @ ys)" for x
    using assms that by (auto dest: sym intro: rev_image_eqI)
  then have "filter (\<lambda>x. f x \<noteq> f y) xs = xs" "filter (\<lambda>x. f x \<noteq> f y) ys = ys"
    by (auto intro!: filter_True)
  then show ?thesis by simp
qed

lemma item_split:
  assumes "linked c" "(el, e) \<in> set (lru c)"
  obtains xs ys where "lru c = xs @ (el, e) # ys" "lruRemove el (lru c) = xs @ ys" "elem c el = e"
    "filter (\<lambda>x. ekey (snd x) \<noteq> ekey e) (lru c) = xs @ ys"
proof -
  obtain xs ys where s: "lru c = xs @ (el, e) # ys" using assms(2) by (meson split_list)
  have d: "distinct (map fst (lru c))" "distinct (keys c)" using assms(1) by (simp_all add: linked_def)
  have r: "lruRemove el (lru c) = xs @ ys" using filter_split [of fst xs "(el, e)" ys] d(1) unfolding s lruRemove_def by simp
  have f: "filter (\<lambda>x. ekey (snd x) \<noteq> ekey e) (lru c) = xs @ ys"
    using filter_split [of "\<lambda>x. ekey (snd x)" xs "(el, e)" ys] d(2) unfolding s by simp
  show thesis by (rule that [OF s r elem_eq [OF assms] f])
qed

lemma linked_remove:
  assumes "linked c" "(el, e) \<in> set (lru c)"
  shows "linked (removeLocked c el)"
    "map snd (lru (removeLocked c el)) = filter (\<lambda>x. ekey x \<noteq> ekey e) (map snd (lru c))"
proof -
  obtain xs ys where s: "lru c = xs @ (el, e) # ys" "lruRemove el (lru c) = xs @ ys" "elem c el = e"
      "filter (\<lambda>x. ekey (snd x) \<noteq> ekey e) (lru c) = xs @ ys"
    using item_split [OF assms] by blast
  have c': "removeLocked c el = c\<lparr>totalBytes := totalBytes c - esize e, items := (items c)(ekey e := None), lru := xs @ ys\<rparr>"
    by (simp add: removeLocked_def s(2,3))
  have d: "distinct (map fst (lru c))" "distinct (keys c)" using assms(1) by (simp_all add: linked_def)
  have I: "items c k = Some i \<longleftrightarrow> (\<exists>x. (i, x) \<in> set (lru c) \<and> ekey x = k)" for k i
    using assms(1) by (simp add: linked_def)
  have "((items c)(ekey e := None)) k = Some i \<longleftrightarrow> (\<exists>x. (i, x) \<in> set (xs @ ys) \<and> ekey x = k)" for k i
  proof (cases "k = ekey e")
    case True
    then show ?thesis using d(2) unfolding s(1) by (force simp: image_iff)
  next
    case False
    then show ?thesis using I [of k i] unfolding s(1) by auto
  qed
  moreover have "distinct (map fst (xs @ ys))" "distinct (map (\<lambda>x. ekey (snd x)) (xs @ ys))"
    "totalBytes c - esize e = bytes (xs @ ys)"
    using assms(1) unfolding linked_def s(1) by auto
  moreover have "\<forall>(el, e) \<in> set (xs @ ys). esize e = int (length (val e)) \<and> el < nextEl c"
    using assms(1) unfolding linked_def s(1) by auto
  ultimately show "linked (removeLocked c el)" unfolding linked_def c' by simp
  show "map snd (lru (removeLocked c el)) = filter (\<lambda>x. ekey x \<noteq> ekey e) (map snd (lru c))"
    using s(4) by (simp add: c' filter_map comp_def)
qed


text \<open>Moving an element to the front, possibly with a new value.\<close>

lemma linked_front:
  assumes "linked c" "(el, e) \<in> set (lru c)" "ekey new = ekey e" "esize new = int (length (val new))"
    and "c' = c\<lparr>lru := (el, new) # lruRemove el (lru c), totalBytes := totalBytes c - esize e + esize new\<rparr>"
  shows "linked c'"
proof -
  obtain xs ys where s: "lru c = xs @ (el, e) # ys" "lruRemove el (lru c) = xs @ ys" "elem c el = e"
      "filter (\<lambda>x. ekey (snd x) \<noteq> ekey e) (lru c) = xs @ ys"
    using item_split [OF assms(1,2)] by blast
  have c': "c' = c\<lparr>lru := (el, new) # xs @ ys, totalBytes := totalBytes c - esize e + esize new\<rparr>"
    by (simp add: assms(5) s(2))
  have I: "items c k = Some i \<longleftrightarrow> (\<exists>x. (i, x) \<in> set (lru c) \<and> ekey x = k)" for k i
    using assms(1) by (simp add: linked_def)
  have "items c k = Some i \<longleftrightarrow> (\<exists>x. (i, x) \<in> set ((el, new) # xs @ ys) \<and> ekey x = k)" for k i
    unfolding I s(1) using assms(3) by auto
  moreover have "distinct (map fst ((el, new) # xs @ ys))" "distinct (map (\<lambda>x. ekey (snd x)) ((el, new) # xs @ ys))"
    using assms(1,3) unfolding linked_def s(1) by auto
  moreover have "totalBytes c - esize e + esize new = bytes ((el, new) # xs @ ys)"
    using assms(1) unfolding linked_def s(1) by simp
  moreover have "\<forall>(el, e) \<in> set ((el, new) # xs @ ys). esize e = int (length (val e)) \<and> el < nextEl c"
    using assms(1,4) unfolding linked_def s(1) by auto
  ultimately show ?thesis unfolding linked_def c' by simp
qed

section \<open>Eviction keeps the longest prefix that fits\<close>

function trim :: "('a list \<Rightarrow> bool) \<Rightarrow> 'a list \<Rightarrow> 'a list" where
  "trim P xs = (if xs = [] \<or> P xs then xs else trim P (butlast xs))"
  by pat_completeness auto
termination by (relation "measure (\<lambda>(P, xs). length xs)") auto

declare trim.simps [simp del]

lemma trim_stop: "xs = [] \<or> P xs \<Longrightarrow> trim P xs = xs"
  by (subst trim.simps) simp

lemma trim_next: "xs \<noteq> [] \<Longrightarrow> \<not> P xs \<Longrightarrow> trim P xs = trim P (butlast xs)"
  by (subst trim.simps) simp

definition longest_prefix :: "('a list \<Rightarrow> bool) \<Rightarrow> 'a list \<Rightarrow> 'a list \<Rightarrow> bool" where
  "longest_prefix P xs r \<longleftrightarrow> prefix r xs \<and> (r \<noteq> [] \<longrightarrow> P r) \<and> (\<forall>r'. prefix r' xs \<and> length r < length r' \<longrightarrow> \<not> P r')"

lemma trim_longest: "longest_prefix P xs (trim P xs)"
proof (induction P xs rule: trim.induct)
  case (1 P xs)
  show ?case
  proof (cases "xs = [] \<or> P xs")
    case True
    then have "trim P xs = xs" by (subst trim.simps) simp
    with True show ?thesis by (auto simp: longest_prefix_def dest: prefix_length_le)
  next
    case False
    have IH: "longest_prefix P (butlast xs) (trim P (butlast xs))" using 1 [OF False] .
    have "\<not> P r'" if "prefix r' xs" "length (trim P (butlast xs)) < length r'" for r'
    proof (cases "r' = xs")
      case True
      with False show ?thesis by simp
    next
      case ne: False
      then have "prefix r' (butlast xs)"
        using that(1) False by (metis append_butlast_last_id prefix_snoc)
      with IH that(2) show ?thesis by (simp add: longest_prefix_def)
    qed
    moreover have "prefix (trim P (butlast xs)) xs"
      using IH False by (metis append_butlast_last_id longest_prefix_def prefix_order.trans prefixI)
    moreover have "trim P xs = trim P (butlast xs)" using False by (subst trim.simps) simp
    ultimately show ?thesis using IH by (simp add: longest_prefix_def)
  qed
qed

lemma removeLocked_last:
  assumes "linked c" "lru c \<noteq> []" "b = last (lru c)"
  shows "linked (removeLocked c (fst b))" "lru (removeLocked c (fst b)) = butlast (lru c)"
    "totalBytes (removeLocked c (fst b)) = bytes (butlast (lru c))"
proof -
  have b: "(fst b, snd b) \<in> set (lru c)" using assms(2,3) by simp
  show L: "linked (removeLocked c (fst b))" by (rule linked_remove(1) [OF assms(1) b])
  have s: "lru c = butlast (lru c) @ b # []" using assms(2,3) by simp
  have "distinct (map fst (butlast (lru c) @ b # []))" using assms(1) s by (simp add: linked_def)
  from filter_split [OF this] s show "lru (removeLocked c (fst b)) = butlast (lru c)"
    by (simp add: removeLocked_def lruRemove_def Let_def)
  with L show "totalBytes (removeLocked c (fst b)) = bytes (butlast (lru c))" by (simp add: linked_def)
qed

lemma removeLocked_fields [simp]:
  "ttl (removeLocked c el) = ttl c" "maxEntries (removeLocked c el) = maxEntries c"
  "maxBytes (removeLocked c el) = maxBytes c" "nextEl (removeLocked c el) = nextEl c"
  by (simp_all add: removeLocked_def Let_def)

abbreviation room :: "segCache \<Rightarrow> int \<Rightarrow> (nat \<times> cacheEntry) list \<Rightarrow> bool" where
  "room c n xs \<equiv> int (length xs) < maxEntries c \<and> bytes xs + n \<le> maxBytes c"

lemma evictRoom_trim:
  "linked c \<Longrightarrow> linked (evictRoom c n) \<and> lru (evictRoom c n) = trim (room c n) (lru c) \<and>
     ttl (evictRoom c n) = ttl c \<and> maxEntries (evictRoom c n) = maxEntries c \<and> maxBytes (evictRoom c n) = maxBytes c \<and>
     nextEl (evictRoom c n) = nextEl c"
proof (induction c n rule: evictRoom.induct)
  case (1 c n)
  have t: "totalBytes c = bytes (lru c)" using "1.prems" by (simp add: linked_def)
  show ?case
  proof (cases "lru c = [] \<or> room c n (lru c)")
    case True
    then have "evictRoom c n = c" using t by (subst evictRoom.simps) auto
    moreover have "trim (room c n) (lru c) = lru c" by (rule trim_stop) (use True in blast)
    ultimately show ?thesis using "1.prems" by simp
  next
    case False
    let ?c = "removeLocked c (fst (last (lru c)))"
    have e: "evictRoom c n = evictRoom ?c n" using False t by (subst evictRoom.simps) auto
    have l: "linked ?c" "lru ?c = butlast (lru c)" using removeLocked_last [OF "1.prems"] False by auto
    have "trim (room c n) (lru c) = trim (room c n) (butlast (lru c))" by (rule trim_next) (use False in blast)+
    moreover have "int (length (lru c)) \<ge> maxEntries c \<or> totalBytes c + n > maxBytes c" "lru c \<noteq> []"
      using False t by auto
    ultimately show ?thesis using e l "1.IH" [OF _ _ l(1)] by simp
  qed
qed

lemma evictRefresh_trim:
  "linked c \<Longrightarrow> lru c = (el, new) # rest \<Longrightarrow> esize new \<le> maxBytes c \<Longrightarrow>
     linked (evictRefresh c el) \<and>
     lru (evictRefresh c el) = (el, new) # trim (\<lambda>xs. bytes xs + esize new \<le> maxBytes c) rest \<and>
     ttl (evictRefresh c el) = ttl c \<and> maxEntries (evictRefresh c el) = maxEntries c \<and>
     maxBytes (evictRefresh c el) = maxBytes c \<and> nextEl (evictRefresh c el) = nextEl c"
proof (induction c el arbitrary: rest rule: evictRefresh.induct)
  case (1 c el)
  have t: "totalBytes c = bytes rest + esize new" using "1.prems" by (simp add: linked_def)
  show ?case
  proof (cases "totalBytes c \<le> maxBytes c")
    case True
    then have "evictRefresh c el = c" by (subst evictRefresh.simps) simp
    moreover have "trim (\<lambda>xs. bytes xs + esize new \<le> maxBytes c) rest = rest"
      using True t by (subst trim.simps) simp
    ultimately show ?thesis using "1.prems" by simp
  next
    case False
    have ne: "rest \<noteq> []" using False t "1.prems"(3) by auto
    then have la: "last (lru c) = last rest" using "1.prems"(2) by simp
    have nel: "fst (last rest) \<noteq> el"
      using "1.prems"(1,2) ne by (auto simp: linked_def dest!: last_in_set)
    let ?c = "removeLocked c (fst (last (lru c)))"
    have e: "evictRefresh c el = evictRefresh ?c el"
      using False nel la "1.prems"(2) by (subst evictRefresh.simps) simp
    have l: "linked ?c" "lru ?c = (el, new) # butlast rest"
      using removeLocked_last [OF "1.prems"(1) _ refl] "1.prems"(2) ne by simp_all
    have "trim (\<lambda>xs. bytes xs + esize new \<le> maxBytes c) rest = trim (\<lambda>xs. bytes xs + esize new \<le> maxBytes c) (butlast rest)"
      using False t ne by (subst trim.simps) simp
    with e l "1.IH" [OF _ _ l] False nel la "1.prems"(2,3) show ?thesis by simp
  qed
qed


section \<open>Operations against the recency list\<close>

abbreviation recency :: "segCache \<Rightarrow> cacheEntry list" where "recency c \<equiv> map snd (lru c)"
abbreviation ebytes :: "cacheEntry list \<Rightarrow> int" where "ebytes es \<equiv> sum_list (map esize es)"

lemma longest_prefix_map:
  assumes "longest_prefix (\<lambda>xs. P (map f xs)) xs r"
  shows "longest_prefix P (map f xs) (map f r)"
  unfolding longest_prefix_def
proof (intro conjI allI impI)
  show "prefix (map f r) (map f xs)" using assms by (simp add: longest_prefix_def map_mono_prefix)
  show "P (map f r)" if "map f r \<noteq> []" using assms that by (simp add: longest_prefix_def)
  fix r'
  assume a: "prefix r' (map f xs) \<and> length (map f r) < length r'"
  then have "r' = map f (take (length r') xs)"
    by (metis append_eq_conv_conj prefix_def take_map)
  with a assms show "\<not> P r'"
    unfolding longest_prefix_def by (metis length_map take_is_prefix)
qed

lemma linked_key:
  assumes "linked c" "items c k = Some el"
  obtains e where "(el, e) \<in> set (lru c)" "ekey e = k"
  using assms by (auto simp: linked_def)

lemma linked_no_key:
  assumes "linked c" "items c k = None"
  shows "filter (\<lambda>e. ekey e \<noteq> k) (recency c) = recency c" "\<forall>e\<in>set (recency c). ekey e \<noteq> k"
proof -
  have "ekey e \<noteq> k" if "(el, e) \<in> set (lru c)" for el e
    using assms that by (metis linked_def option.distinct(1))
  then show "\<forall>e\<in>set (recency c). ekey e \<noteq> k" by fastforce
  then show "filter (\<lambda>e. ekey e \<noteq> k) (recency c) = recency c" by (rule filter_True)
qed

lemma remove_recency:
  assumes "linked c" "(el, e) \<in> set (lru c)"
  shows "map snd (lruRemove el (lru c)) = filter (\<lambda>x. ekey x \<noteq> ekey e) (recency c)"
  using linked_remove(2) [OF assms] by (simp add: removeLocked_def Let_def)

definition newEntry :: "segCache \<Rightarrow> int \<Rightarrow> string \<Rightarrow> byte list \<Rightarrow> http_header option \<Rightarrow> int \<Rightarrow> cacheEntry" where
  "newEntry c now key v h st =
     \<lparr>ekey = key, val = v, hdr = h, status = st, expiresAt = now + ttl c, esize = int (length v)\<rparr>"

lemma put_big:
  assumes "linked c" "int (length v) > maxBytes c"
  shows "linked (putFull c now key v h st)" "recency (putFull c now key v h st) = filter (\<lambda>e. ekey e \<noteq> key) (recency c)"
proof -
  have "linked (putFull c now key v h st) \<and> recency (putFull c now key v h st) = filter (\<lambda>e. ekey e \<noteq> key) (recency c)"
  proof (cases "items c key")
    case None
    with assms linked_no_key [OF assms(1) None] show ?thesis by (simp add: putFull_def)
  next
    case (Some el)
    then obtain e where e: "(el, e) \<in> set (lru c)" "ekey e = key" using linked_key assms(1) by blast
    have "putFull c now key v h st = removeLocked c el" using Some assms(2) by (simp add: putFull_def)
    with linked_remove [OF assms(1) e(1)] e(2) show ?thesis by simp
  qed
  then show "linked (putFull c now key v h st)"
    "recency (putFull c now key v h st) = filter (\<lambda>e. ekey e \<noteq> key) (recency c)" by blast+
qed

lemma put_refresh:
  assumes "linked c" "int (length v) \<le> maxBytes c" "items c key = Some el"
  shows "linked (putFull c now key v h st) \<and>
    (\<exists>r. longest_prefix (\<lambda>es. ebytes es + int (length v) \<le> maxBytes c) (filter (\<lambda>e. ekey e \<noteq> key) (recency c)) r \<and>
       recency (putFull c now key v h st) = newEntry c now key v h st # r)"
proof -
  obtain e where e: "(el, e) \<in> set (lru c)" "ekey e = key" using linked_key [OF assms(1,3)] by blast
  let ?n = "newEntry c now key v h st" and ?r = "lruRemove el (lru c)"
  let ?c = "c\<lparr>lru := (el, ?n) # ?r, totalBytes := totalBytes c - esize e + esize ?n\<rparr>"
  have n: "ekey ?n = ekey e" "esize ?n = int (length (val ?n))" "esize ?n = int (length v)"
    by (simp_all add: newEntry_def e(2))
  have L: "linked ?c" by (rule linked_front [OF assms(1) e(1) n(1,2)]) simp
  have p: "putFull c now key v h st = evictRefresh ?c el"
    using assms elem_eq [OF assms(1) e(1)] by (simp add: putFull_def newEntry_def Let_def)
  let ?P = "\<lambda>es. ebytes es + int (length v) \<le> maxBytes c"
  have T: "linked (evictRefresh ?c el)" "lru (evictRefresh ?c el) = (el, ?n) # trim (\<lambda>xs. ?P (map snd xs)) ?r"
    using evictRefresh_trim [OF L, of el ?n ?r] n(3) assms(2) by (simp_all add: comp_def)
  have "longest_prefix ?P (map snd ?r) (map snd (trim (\<lambda>xs. ?P (map snd xs)) ?r))"
    by (rule longest_prefix_map [OF trim_longest])
  then have "longest_prefix ?P (filter (\<lambda>e. ekey e \<noteq> key) (recency c)) (map snd (trim (\<lambda>xs. ?P (map snd xs)) ?r))"
    using remove_recency [OF assms(1) e(1)] e(2) by simp
  then show ?thesis unfolding p using T by auto
qed

lemma put_new:
  assumes "linked c" "int (length v) \<le> maxBytes c" "items c key = None"
  shows "linked (putFull c now key v h st) \<and>
    (\<exists>r. longest_prefix (\<lambda>es. int (length es) < maxEntries c \<and> ebytes es + int (length v) \<le> maxBytes c) (recency c) r \<and>
       recency (putFull c now key v h st) = newEntry c now key v h st # r)"
proof -
  let ?n = "newEntry c now key v h st" and ?b = "evictRoom c (int (length v))"
  let ?P = "\<lambda>es. int (length es) < maxEntries c \<and> ebytes es + int (length v) \<le> maxBytes c"
  note E = evictRoom_trim [OF assms(1), of "int (length v)"]
  have T: "lru ?b = trim (\<lambda>xs. ?P (map snd xs)) (lru c)" using E by (simp add: comp_def)
  have lp: "longest_prefix ?P (recency c) (recency ?b)" unfolding T by (rule longest_prefix_map [OF trim_longest])
  let ?c = "?b\<lparr>totalBytes := totalBytes ?b + int (length v), items := (items ?b)(key := Some (nextEl ?b)),
      lru := (nextEl ?b, ?n) # lru ?b, nextEl := nextEl ?b + 1\<rparr>"
  have p: "putFull c now key v h st = ?c"
    using assms E by (simp add: putFull_def newEntry_def Let_def)
  have sub: "set (lru ?b) \<subseteq> set (lru c)"
    using trim_longest [of "room c (int (length v))" "lru c"] E by (auto simp: longest_prefix_def dest: set_mono_prefix)
  have K: "key \<notin> set (keys ?b)"
    using linked_no_key(2) [OF assms(1,3)] sub by auto
  have n: "ekey ?n = key" "esize ?n = int (length v)" "val ?n = v" by (simp_all add: newEntry_def)
  have B: "distinct (map fst (lru ?b))" "distinct (keys ?b)" "totalBytes ?b = bytes (lru ?b)"
    "\<And>k i. items ?b k = Some i \<longleftrightarrow> (\<exists>e. (i, e) \<in> set (lru ?b) \<and> ekey e = k)"
    "\<And>i e. (i, e) \<in> set (lru ?b) \<Longrightarrow> esize e = int (length (val e)) \<and> i < nextEl ?b"
    using E unfolding linked_def by auto
  have f: "nextEl ?b \<notin> fst ` set (lru ?b)" using B(5) by force
  have "((items ?b)(key := Some (nextEl ?b))) k = Some i \<longleftrightarrow>
      (\<exists>e. (i, e) \<in> set ((nextEl ?b, ?n) # lru ?b) \<and> ekey e = k)" for k i
  proof (cases "k = key")
    case True
    have "\<not> (\<exists>e. (i, e) \<in> set (lru ?b) \<and> ekey e = key)" using K by force
    with True n(1) show ?thesis by auto
  next
    case False
    with B(4) [of k i] n(1) show ?thesis by auto
  qed
  moreover have "\<forall>(i, e) \<in> set ((nextEl ?b, ?n) # lru ?b). esize e = int (length (val e)) \<and> i < nextEl ?b + 1"
    using B(5) n by fastforce
  ultimately have "linked ?c" unfolding linked_def using B(1-3) f K n by simp
  with p lp show ?thesis by auto
qed

lemma get_spec:
  assumes "linked c"
  shows "linked (snd (getFull c now key))"
    "getFull c now key = (r, c') \<Longrightarrow> (case r of
       None \<Rightarrow> recency c' = filter (\<lambda>e. ekey e \<noteq> key) (recency c) \<and>
               (\<forall>e \<in> set (recency c). ekey e = key \<longrightarrow> now > expiresAt e)
     | Some e \<Rightarrow> e \<in> set (recency c) \<and> ekey e = key \<and> now \<le> expiresAt e \<and>
               recency c' = e # filter (\<lambda>e. ekey e \<noteq> key) (recency c))"
proof -
  have "linked (snd (getFull c now key)) \<and> (getFull c now key = (r, c') \<longrightarrow> (case r of
       None \<Rightarrow> recency c' = filter (\<lambda>e. ekey e \<noteq> key) (recency c) \<and>
               (\<forall>e \<in> set (recency c). ekey e = key \<longrightarrow> now > expiresAt e)
     | Some e \<Rightarrow> e \<in> set (recency c) \<and> ekey e = key \<and> now \<le> expiresAt e \<and>
               recency c' = e # filter (\<lambda>e. ekey e \<noteq> key) (recency c)))"
  proof (cases "items c key")
    case None
    have g: "getFull c now key = (None, c)" using None by (simp add: getFull_def)
    from linked_no_key [OF assms None] assms show ?thesis unfolding g by (simp split: option.splits)
  next
    case (Some el)
    then obtain e where e: "(el, e) \<in> set (lru c)" "ekey e = key" using linked_key assms by blast
    have ee: "elem c el = e" by (rule elem_eq [OF assms e(1)])
    have uniq: "x = e" if "x \<in> set (recency c)" "ekey x = key" for x
      using assms e that by (auto simp: linked_def distinct_map inj_on_def)
    show ?thesis
    proof (cases "now > expiresAt e")
      case True
      then have "getFull c now key = (None, removeLocked c el)" using Some ee by (simp add: getFull_def)
      with linked_remove [OF assms e(1)] e(2) uniq True show ?thesis by auto
    next
      case False
      let ?c = "c\<lparr>lru := (el, e) # lruRemove el (lru c)\<rparr>"
      have "linked ?c"
        by (rule linked_front [OF assms e(1) refl]) (use assms e(1) in \<open>auto simp: linked_def\<close>)
      moreover have "getFull c now key = (Some e, ?c)" using Some ee False by (simp add: getFull_def)
      moreover have "recency ?c = e # filter (\<lambda>e. ekey e \<noteq> key) (recency c)"
        using remove_recency [OF assms e(1)] e(2) by simp
      ultimately show ?thesis using e False by force
    qed
  qed
  then show "linked (snd (getFull c now key))"
    "getFull c now key = (r, c') \<Longrightarrow> (case r of
       None \<Rightarrow> recency c' = filter (\<lambda>e. ekey e \<noteq> key) (recency c) \<and>
               (\<forall>e \<in> set (recency c). ekey e = key \<longrightarrow> now > expiresAt e)
     | Some e \<Rightarrow> e \<in> set (recency c) \<and> ekey e = key \<and> now \<le> expiresAt e \<and>
               recency c' = e # filter (\<lambda>e. ekey e \<noteq> key) (recency c))" by blast+
qed

lemma sweepFrom_spec:
  "linked c \<Longrightarrow> distinct els \<Longrightarrow> set els \<subseteq> fst ` set (lru c) \<Longrightarrow>
   linked (sweepFrom els now c) \<and>
   lru (sweepFrom els now c) = filter (\<lambda>x. \<not> (fst x \<in> set els \<and> now > expiresAt (snd x))) (lru c) \<and>
   maxBytes (sweepFrom els now c) = maxBytes c \<and> maxEntries (sweepFrom els now c) = maxEntries c \<and> ttl (sweepFrom els now c) = ttl c"
proof (induction els arbitrary: c)
  case (Cons el els)
  then obtain e where e: "(el, e) \<in> set (lru c)" by auto
  have ee: "elem c el = e" by (rule elem_eq [OF Cons.prems(1) e])
  have uniq: "x = (el, e)" if "x \<in> set (lru c)" "fst x = el" for x
    using Cons.prems(1) e that by (auto simp: linked_def distinct_map inj_on_def)
  show ?case
  proof (cases "now > expiresAt e")
    case True
    let ?c = "removeLocked c el"
    have r: "lru ?c = filter (\<lambda>x. fst x \<noteq> el) (lru c)" by (simp add: removeLocked_def lruRemove_def Let_def)
    have "set els \<subseteq> fst ` set (lru ?c)" using Cons.prems(2,3) unfolding r by (fastforce simp: image_iff)
    from Cons.IH [OF linked_remove(1) [OF Cons.prems(1) e] _ this] Cons.prems(2)
    have "linked (sweepFrom els now ?c)"
      "lru (sweepFrom els now ?c) = filter (\<lambda>x. \<not> (fst x \<in> set els \<and> now > expiresAt (snd x))) (lru ?c)"
      "maxBytes (sweepFrom els now ?c) = maxBytes c" "maxEntries (sweepFrom els now ?c) = maxEntries c" "ttl (sweepFrom els now ?c) = ttl c"
      by simp_all
    moreover have "filter (\<lambda>x. \<not> (fst x \<in> set els \<and> now > expiresAt (snd x))) (lru ?c) =
        filter (\<lambda>x. \<not> (fst x \<in> set (el # els) \<and> now > expiresAt (snd x))) (lru c)"
      unfolding r filter_filter by (rule filter_cong [OF refl]) (use uniq True in auto)
    ultimately show ?thesis using True ee by simp
  next
    case False
    have "filter (\<lambda>x. \<not> (fst x \<in> set els \<and> now > expiresAt (snd x))) (lru c) =
        filter (\<lambda>x. \<not> (fst x \<in> set (el # els) \<and> now > expiresAt (snd x))) (lru c)"
      by (rule filter_cong [OF refl]) (use uniq False in auto)
    with Cons.IH [OF Cons.prems(1)] Cons.prems(2,3) False ee show ?thesis by simp
  qed
qed simp

lemma sweep_spec:
  assumes "linked c"
  shows "linked (sweep c now)" "recency (sweep c now) = filter (\<lambda>e. now \<le> expiresAt e) (recency c)"
    "maxBytes (sweep c now) = maxBytes c" "maxEntries (sweep c now) = maxEntries c"
    "lru (sweep c now) = filter (\<lambda>x. now \<le> expiresAt (snd x)) (lru c)"
proof -
  have d: "distinct (rev (map fst (lru c)))" using assms by (simp add: linked_def)
  note S = sweepFrom_spec [OF assms d, of now]
  have "lru (sweep c now) = filter (\<lambda>x. now \<le> expiresAt (snd x)) (lru c)"
    using S by (auto simp: sweep_def not_less intro!: filter_cong)
  with S show "linked (sweep c now)" "recency (sweep c now) = filter (\<lambda>e. now \<le> expiresAt e) (recency c)"
    "maxBytes (sweep c now) = maxBytes c" "maxEntries (sweep c now) = maxEntries c"
    "lru (sweep c now) = filter (\<lambda>x. now \<le> expiresAt (snd x)) (lru c)"
    by (simp_all add: sweep_def filter_map comp_def)
qed


section \<open>Runs of the cache\<close>

inductive cache_step :: "segCache \<Rightarrow> segCache \<Rightarrow> bool" where
  c_put: "cache_step c (putFull c now key v h st)"
| c_get: "cache_step c (snd (getFull c now key))"
| c_sweep: "cache_step c (sweep c now)"

definition cache_start :: "segCache \<Rightarrow> bool" where
  "cache_start c \<longleftrightarrow> (\<exists>t n b. 0 \<le> b \<and> c = (newSegCache t n)\<lparr>maxBytes := b\<rparr>)"

lemma put_fields:
  assumes "linked c"
  shows "maxBytes (putFull c now key v h st) = maxBytes c \<and> maxEntries (putFull c now key v h st) = maxEntries c"
proof (cases "int (length v) > maxBytes c")
  case True
  then show ?thesis by (simp add: putFull_def split: option.split)
next
  case False
  show ?thesis
  proof (cases "items c key")
    case None
    with False evictRoom_trim [OF assms, of "int (length v)"] show ?thesis by (simp add: putFull_def Let_def)
  next
    case (Some el)
    then obtain e where e: "(el, e) \<in> set (lru c)" "ekey e = key" using linked_key assms by blast
    let ?n = "newEntry c now key v h st" and ?r = "lruRemove el (lru c)"
    let ?c = "c\<lparr>lru := (el, ?n) # ?r, totalBytes := totalBytes c - esize e + esize ?n\<rparr>"
    have "linked ?c" by (rule linked_front [OF assms e(1), of ?n]) (simp_all add: newEntry_def e(2))
    from evictRefresh_trim [OF this, of el ?n ?r] False Some elem_eq [OF assms e(1)] show ?thesis
      by (simp add: putFull_def newEntry_def Let_def)
  qed
qed

lemma longest_prefix_ok: "longest_prefix P xs r \<Longrightarrow> P [] \<Longrightarrow> P r"
  by (cases r) (auto simp: longest_prefix_def)

lemma recency_bounds:
  "linked c \<Longrightarrow> totalBytes c = ebytes (recency c) \<and> length (lru c) = length (recency c)"
  by (simp add: linked_def comp_def)

lemma ebytes_filter_le:
  assumes "linked c" shows "ebytes (filter P (recency c)) \<le> ebytes (recency c)"
proof -
  have "0 \<le> esize e" if "e \<in> set (recency c)" for e using assms that by (force simp: linked_def)
  then have "ebytes (filter P es) \<le> ebytes es" if "set es \<subseteq> set (recency c)" for es
    using that by (induction es) (force+)
  then show ?thesis by blast
qed

lemma put_inv:
  assumes "cache_inv c"
  shows "cache_inv (putFull c now key v h st)"
proof -
  have L: "linked c" and B: "0 \<le> maxBytes c" "totalBytes c \<le> maxBytes c" "int (length (lru c)) \<le> max (maxEntries c) 1"
    using assms by (simp_all add: cache_inv_def)
  let ?c = "putFull c now key v h st"
  note R = recency_bounds [OF L]
  have "linked ?c \<and> ebytes (recency ?c) \<le> maxBytes c \<and> int (length (recency ?c)) \<le> max (maxEntries c) 1"
  proof (cases "int (length v) > maxBytes c")
    case True
    have "int (length (filter (\<lambda>e. ekey e \<noteq> key) (recency c))) \<le> int (length (recency c))"
      by (metis length_filter_le of_nat_le_iff)
    moreover have "ebytes (filter (\<lambda>e. ekey e \<noteq> key) (recency c)) \<le> ebytes (recency c)" by (rule ebytes_filter_le [OF L])
    ultimately show ?thesis unfolding put_big(2) [OF L True] using R B by (intro conjI put_big(1) [OF L True]) linarith+
  next
    case False
    then have v: "int (length v) \<le> maxBytes c" by simp
    show ?thesis
    proof (cases "items c key")
      case None
      note X = put_new [OF L v None, of now h st]
      obtain r where y: "longest_prefix (\<lambda>es. int (length es) < maxEntries c \<and> ebytes es + int (length v) \<le> maxBytes c)
          (recency c) r \<and> recency ?c = newEntry c now key v h st # r"
        using X [THEN conjunct2] by (rule exE)
      note l = X [THEN conjunct1] y [THEN conjunct1] y [THEN conjunct2]
      have "r = [] \<or> int (length r) < maxEntries c \<and> ebytes r + int (length v) \<le> maxBytes c"
        using l(2) by (auto simp: longest_prefix_def)
      moreover have "ebytes (newEntry c now key v h st # r) = int (length v) + ebytes r" by (simp add: newEntry_def)
      moreover have "int (length (newEntry c now key v h st # r)) = int (length r) + 1" by simp
      ultimately show ?thesis unfolding l(3) using l(1) v by (elim disjE) (simp, linarith)
    next
      case (Some el)
      note X = put_refresh [OF L v Some, of now h st]
      obtain r where y: "longest_prefix (\<lambda>es. ebytes es + int (length v) \<le> maxBytes c)
          (filter (\<lambda>e. ekey e \<noteq> key) (recency c)) r \<and> recency ?c = newEntry c now key v h st # r"
        using X [THEN conjunct2] by (rule exE)
      note l = X [THEN conjunct1] y [THEN conjunct1] y [THEN conjunct2]
      have "length r \<le> length (filter (\<lambda>e. ekey e \<noteq> key) (recency c))"
        using l(2) by (auto simp: longest_prefix_def dest: prefix_length_le)
      also have "\<dots> < length (recency c)"
        using linked_key [OF L Some] by (metis (mono_tags, lifting) image_eqI length_filter_less list.set_map snd_conv)
      finally have "int (length r) + 1 \<le> max (maxEntries c) 1" using B(3) by simp
      moreover have "ebytes r + int (length v) \<le> maxBytes c"
        using longest_prefix_ok [OF l(2)] v by simp
      ultimately show ?thesis using l(1,3) by (simp add: newEntry_def)
    qed
  qed
  with put_fields [OF L, of now key v h st] recency_bounds [of ?c] B(1) show ?thesis by (simp add: cache_inv_def)
qed

lemma get_inv:
  assumes "cache_inv c"
  shows "cache_inv (snd (getFull c now key))"
proof -
  have L: "linked c" and B: "0 \<le> maxBytes c" "totalBytes c \<le> maxBytes c" "int (length (lru c)) \<le> max (maxEntries c) 1"
    using assms by (simp_all add: cache_inv_def)
  obtain r c' where g: "getFull c now key = (r, c')" by fastforce
  have L': "linked c'" using get_spec(1) [OF L, of now key] g by simp
  have f: "maxBytes c' = maxBytes c" "maxEntries c' = maxEntries c"
    using g by (auto simp: getFull_def Let_def split: option.splits if_splits)
  note G = get_spec(2) [OF L g]
  have S: "length (recency c') \<le> length (recency c) \<and> ebytes (recency c') \<le> ebytes (recency c)"
  proof (cases r)
    case None
    then have r: "recency c' = filter (\<lambda>e. ekey e \<noteq> key) (recency c)" using G by simp
    show ?thesis unfolding r using ebytes_filter_le [OF L] length_filter_le by blast
  next
    case (Some e)
    have r: "e \<in> set (recency c)" "ekey e = key" "recency c' = e # filter (\<lambda>e. ekey e \<noteq> key) (recency c)"
      using G unfolding Some option.case by blast+
    obtain xs ys where s: "recency c = xs @ e # ys" using r(1) by (meson split_list)
    have "distinct (map ekey (recency c))" using L by (simp add: linked_def comp_def)
    then have "filter (\<lambda>x. ekey x \<noteq> ekey e) (xs @ e # ys) = xs @ ys" unfolding s by (rule filter_split)
    then have "recency c' = e # xs @ ys" unfolding r(3) s using r(2) by simp
    then show ?thesis unfolding s by simp
  qed
  have "totalBytes c' \<le> maxBytes c'" "int (length (lru c')) \<le> max (maxEntries c') 1"
    using recency_bounds [OF L] recency_bounds [OF L'] B S unfolding f by linarith+
  then show ?thesis using L' B(1) f g by (simp add: cache_inv_def)
qed

lemma sweep_inv:
  assumes "cache_inv c"
  shows "cache_inv (sweep c now)"
proof -
  have L: "linked c" using assms by (simp add: cache_inv_def)
  note S = sweep_spec [OF L, of now]
  have "length (lru (sweep c now)) \<le> length (lru c)" unfolding S(5) by simp
  moreover have "ebytes (recency (sweep c now)) \<le> ebytes (recency c)" unfolding S(2) by (rule ebytes_filter_le [OF L])
  ultimately have "totalBytes (sweep c now) \<le> totalBytes c" "length (lru (sweep c now)) \<le> length (lru c)"
    using recency_bounds [OF L] recency_bounds [OF S(1)] by linarith+
  then show ?thesis using assms S(1,3,4) unfolding cache_inv_def by linarith
qed

interpretation cache_runs: inv_system cache_start cache_step cache_inv
proof unfold_locales
  fix s
  assume "cache_start s"
  then show "cache_inv s" by (auto simp: cache_start_def cache_inv_def linked_def newSegCache_def)
next
  fix s t
  assume "cache_inv s" "cache_step s t"
  then show "cache_inv t" by (auto elim!: cache_step.cases intro: put_inv get_inv sweep_inv)
qed

section \<open>Filling the cache\<close>

text \<open>An upstream response: \<open>rbody\<close> is everything its body delivers before it ends or, with \<open>rfails\<close>, before the read
  fails.\<close>

record response =
  StatusCode :: int
  ContentLength :: int
  RHeader :: http_header
  rbody :: "byte list"
  rfails :: bool

datatype fetch_err = FetchErr | errSegmentTooLarge | ReadErr | BudgetErr budget_err

definition cacheableResponse :: "response \<Rightarrow> bool" where
  "cacheableResponse r \<longleftrightarrow> StatusCode r = 200 \<and> ContentLength r \<ge> 0 \<and> ContentLength r \<le> maxSegmentBytes"

definition readSegment :: "response \<Rightarrow> fetch_err + byte list" where
  "readSegment r =
     (if ContentLength r > maxSegmentBytes then Inl errSegmentTooLarge
      else if ContentLength r \<ge> 0 then
        (if int (length (rbody r)) < ContentLength r then Inl ReadErr
         else Inr (take (nat (ContentLength r)) (rbody r)))
      else
        (let data = take (nat (maxSegmentBytes + 1)) (rbody r)
         in if rfails r \<and> int (length (rbody r)) < maxSegmentBytes + 1 then Inl ReadErr
            else if int (length data) > maxSegmentBytes then Inl errSegmentTooLarge
            else Inr data))"

text \<open>\<open>fetchBuffered\<close> from the upstream's answer on: \<open>fetchReserve\<close> ends at the reservation (which may block), \<open>fetchRead\<close>
  runs once the bytes are granted and gives them back.\<close>

definition fetchReserve :: "byteBudget \<Rightarrow> nat \<Rightarrow> response option \<Rightarrow> bool \<Rightarrow> fetch_err option \<times> acquire_result \<times> byteBudget" where
  "fetchReserve b i resp wait =
     (case resp of
        None \<Rightarrow> (Some FetchErr, AcquireErr ctxErr, b)
      | Some r \<Rightarrow>
          if ContentLength r > maxSegmentBytes then (Some errSegmentTooLarge, AcquireErr ctxErr, b)
          else
            (case reserveInflight b i (segmentReservation (ContentLength r)) wait of
               (AcquireErr e, b') \<Rightarrow> (Some (BudgetErr e), AcquireErr e, b')
             | (a, b') \<Rightarrow> (None, a, b')))"

definition fetchRead :: "segCache option \<Rightarrow> byteBudget \<Rightarrow> int \<Rightarrow> string \<Rightarrow> response \<Rightarrow>
    (fetch_err + byte list \<times> http_header \<times> int) \<times> segCache option \<times> byteBudget" where
  "fetchRead oc b now key r =
     (let b' = release b (segmentReservation (ContentLength r))
      in case readSegment r of
           Inl e \<Rightarrow> (Inl e, oc, b')
         | Inr data \<Rightarrow>
             (Inr (data, RHeader r, StatusCode r),
              (if key \<noteq> [] \<and> StatusCode r = 200
               then map_option (\<lambda>c. putFull c now key data (Some (RHeader r)) (StatusCode r)) oc else oc), b'))"

definition cacheLookup :: "segCache option \<Rightarrow> int \<Rightarrow> string \<Rightarrow> (byte list \<times> http_header \<times> int) option \<times> segCache option" where
  "cacheLookup oc now key =
     (case oc of
        None \<Rightarrow> (None, None)
      | Some c \<Rightarrow>
          (case getFull c now key of
             (None, c') \<Rightarrow> (None, Some c')
           | (Some e, c') \<Rightarrow>
               (Some (val e, (case hdr e of Some h \<Rightarrow> h
                              | None \<Rightarrow> [(''Content-Length'', [itoa (length (val e))])]), status e), Some c')))"

section \<open>Properties\<close>

text \<open>In every run the cache's books are right: the byte counter is the sum of the stored segments' lengths and never
  exceeds the budget, the entry cap holds (one entry is kept even with a cap below one), and the map and the
  recency list hold the same entries, one per key.\<close>

theorem segcache_invariant:
  assumes "reach cache_start cache_step c"
  shows "totalBytes c = sum_list (map (\<lambda>e. int (length (val e))) (recency c)) \<and> 0 \<le> totalBytes c \<and> totalBytes c \<le> maxBytes c \<and>
    int (length (lru c)) \<le> max (maxEntries c) 1 \<and> distinct (map ekey (recency c)) \<and>
    (\<forall>k. items c k \<noteq> None \<longleftrightarrow> k \<in> set (map ekey (recency c)))"
proof -
  have I: "cache_inv c" by (rule cache_runs.reach_inv [OF assms])
  then have L: "linked c" by (simp add: cache_inv_def)
  have m: "map esize (recency c) = map (\<lambda>e. int (length (val e))) (recency c)" using L by (auto simp: linked_def)
  have "totalBytes c = ebytes (recency c)" using recency_bounds [OF L] by blast
  moreover have "items c k \<noteq> None \<longleftrightarrow> k \<in> set (map ekey (recency c))" for k
  proof
    assume "items c k \<noteq> None"
    then obtain el where "items c k = Some el" by blast
    then obtain e where "(el, e) \<in> set (lru c)" "ekey e = k" using linked_key [OF L] by blast
    then show "k \<in> set (map ekey (recency c))" by force
  next
    assume "k \<in> set (map ekey (recency c))"
    then show "items c k \<noteq> None" using linked_no_key(2) [OF L, of k] by auto
  qed
  moreover have "0 \<le> sum_list (map (\<lambda>e. int (length (val e))) (recency c))" by (intro sum_list_nonneg) auto
  moreover have "distinct (map ekey (recency c))" using L by (simp add: linked_def comp_def)
  ultimately show ?thesis using I unfolding cache_inv_def m by (intro conjI allI) (blast | linarith)+
qed

text \<open>C14: Refinement of an LRU specification. Storing a segment puts it first and keeps, of the other entries in
  recency order, the longest prefix that fits beside it (entries only count for a new key); a segment larger than
  the whole budget is not stored and a stale copy of it is dropped. A lookup returns exactly the unexpired entry of
  its key and makes it the most recent; the sweep drops exactly the expired entries.\<close>

theorem segcache_lru:
  assumes "reach cache_start cache_step c"
  shows "let others = filter (\<lambda>e. ekey e \<noteq> key) (recency c); c1 = putFull c now key v h st; n = int (length v);
             present = (\<exists>e \<in> set (recency c). ekey e = key);
             fits = (\<lambda>es. (present \<or> int (length es) < maxEntries c) \<and> ebytes es + n \<le> maxBytes c)
         in (if n > maxBytes c then recency c1 = others
             else \<exists>r. longest_prefix fits others r \<and> recency c1 = newEntry c now key v h st # r) \<and>
            (case getFull c now key of
               (None, c2) \<Rightarrow> recency c2 = others \<and> (\<forall>e \<in> set (recency c). ekey e = key \<longrightarrow> now > expiresAt e)
             | (Some e, c2) \<Rightarrow> e \<in> set (recency c) \<and> ekey e = key \<and> now \<le> expiresAt e \<and> recency c2 = e # others) \<and>
            recency (sweep c now) = filter (\<lambda>e. now \<le> expiresAt e) (recency c)"
proof -
  have L: "linked c" using cache_runs.reach_inv [OF assms] by (simp add: cache_inv_def)
  let ?o = "filter (\<lambda>e. ekey e \<noteq> key) (recency c)" and ?p = "\<exists>e \<in> set (recency c). ekey e = key"
  let ?f = "\<lambda>es. (?p \<or> int (length es) < maxEntries c) \<and> ebytes es + int (length v) \<le> maxBytes c"
  have P: "if int (length v) > maxBytes c then recency (putFull c now key v h st) = ?o
     else \<exists>r. longest_prefix ?f ?o r \<and> recency (putFull c now key v h st) = newEntry c now key v h st # r"
  proof (cases "int (length v) > maxBytes c")
    case True
    with put_big(2) [OF L True] show ?thesis by simp
  next
    case False
    then have v: "int (length v) \<le> maxBytes c" by simp
    show ?thesis
    proof (cases "items c key")
      case None
      note N = linked_no_key [OF L None]
      have f: "?f = (\<lambda>es. int (length es) < maxEntries c \<and> ebytes es + int (length v) \<le> maxBytes c)" using N(2) by auto
      from put_new [OF L v None, of now h st] False show ?thesis unfolding f N(1) by simp
    next
      case (Some el)
      then obtain e where "(el, e) \<in> set (lru c)" "ekey e = key" using linked_key [OF L] by blast
      then have p: ?p by force
      have f: "?f = (\<lambda>es. ebytes es + int (length v) \<le> maxBytes c)" using p by auto
      from put_refresh [OF L v Some, of now h st] False show ?thesis unfolding f by simp
    qed
  qed
  have G: "case getFull c now key of
     (None, c2) \<Rightarrow> recency c2 = ?o \<and> (\<forall>e \<in> set (recency c). ekey e = key \<longrightarrow> now > expiresAt e)
   | (Some e, c2) \<Rightarrow> e \<in> set (recency c) \<and> ekey e = key \<and> now \<le> expiresAt e \<and> recency c2 = e # ?o"
    using get_spec(2) [OF L] by (cases "getFull c now key") (auto split: option.splits)
  show ?thesis unfolding Let_def using P G sweep_spec(2) [OF L, of now] by blast
qed

text \<open>A buffered fetch never returns or stores a truncated segment and never buffers more than it reserved: on
  success the data is the whole body, of exactly the advertised length when there is one, and at most the bytes
  reserved in the in-flight budget; the cache only changes when a 200 answer is stored.\<close>

theorem fetch_whole_segment:
  assumes "fetchRead oc b now key r = (Inr (data, hs, st), oc', b')" and "ContentLength r \<le> maxSegmentBytes"
    and "ContentLength r \<ge> 0 \<longrightarrow> int (length (rbody r)) \<le> ContentLength r"
  shows "data = rbody r \<and> (ContentLength r \<ge> 0 \<longrightarrow> int (length data) = ContentLength r) \<and>
    int (length data) \<le> segmentReservation (ContentLength r) \<and> segmentReservation (ContentLength r) \<le> maxSegmentBytes \<and>
    (st = 200 \<or> oc' = oc) \<and> (ContentLength r < 0 \<longrightarrow> \<not> rfails r)"
proof -
  have rs: "readSegment r = Inr data" "st = StatusCode r"
    using assms(1) by (auto simp: fetchRead_def Let_def split: sum.splits)
  have oc: "st = 200 \<or> oc' = oc" using assms(1) by (auto simp: fetchRead_def Let_def split: sum.splits if_splits)
  show ?thesis
  proof (cases "ContentLength r \<ge> 0")
    case True
    with rs assms(2,3) have "data = rbody r" "int (length (rbody r)) = ContentLength r"
      by (auto simp: readSegment_def split: if_splits)
    with True oc assms(2) show ?thesis by (auto simp: segmentReservation_def)
  next
    case False
    have m: "0 \<le> maxSegmentBytes" by (simp add: maxSegmentBytes_def)
    from rs False have d: "data = take (nat (maxSegmentBytes + 1)) (rbody r)" "int (length data) \<le> maxSegmentBytes"
      "\<not> (rfails r \<and> int (length (rbody r)) < maxSegmentBytes + 1)"
      by (auto simp: readSegment_def Let_def split: if_splits)
    then have "length (rbody r) \<le> nat (maxSegmentBytes + 1)" "length (rbody r) < nat (maxSegmentBytes + 1)" using m by (auto simp: min_def split: if_splits)
    with d False oc m show ?thesis by (auto simp: segmentReservation_def)
  qed
qed


section \<open>Witnesses\<close>

definition demoCache :: segCache where
  "demoCache = (let c0 = (newSegCache 10 2)\<lparr>maxBytes := 5\<rparr>;
     c1 = putFull c0 0 ''a'' [1, 2] None 200; c2 = putFull c1 1 ''b'' [3, 4] None 200
   in snd (getFull c2 2 ''a''))"

lemma reach_ops:
  "reach cache_start cache_step c \<Longrightarrow> reach cache_start cache_step (putFull c now key v h st)"
  "reach cache_start cache_step c \<Longrightarrow> reach cache_start cache_step (snd (getFull c now key))"
  by (erule reach_step, rule c_put) (erule reach_step, rule c_get)

lemma demoCache_reach: "reach cache_start cache_step demoCache"
  unfolding demoCache_def Let_def
proof -
  have "cache_start ((newSegCache 10 2)\<lparr>maxBytes := 5\<rparr>)"
    unfolding cache_start_def by (intro exI [of _ 10] exI [of _ 2] exI [of _ 5]) simp
  then show "reach cache_start cache_step (snd (getFull (putFull (putFull ((newSegCache 10 2)\<lparr>maxBytes := 5\<rparr>) 0 ''a'' [1, 2] None 200)
      1 ''b'' [3, 4] None 200) 2 ''a''))"
    by (intro reach_ops reach_start)
qed

lemma demoCache_list: "map ekey (recency demoCache) = [''a'', ''b'']" "totalBytes demoCache = 4"
    "map expiresAt (recency demoCache) = [10, 11]" "maxBytes demoCache = 5" "maxEntries demoCache = 2"
  by code_simp+

theorem segcache_invariant_witness:
  "totalBytes demoCache = 4 \<and> totalBytes demoCache \<le> maxBytes demoCache \<and>
   (items demoCache ''b'' \<noteq> None \<longleftrightarrow> ''b'' \<in> set (map ekey (recency demoCache)))"
  using segcache_invariant [OF demoCache_reach] demoCache_list(2) by blast

theorem segcache_lru_witness:
  "recency (putFull demoCache 3 ''c'' [1, 2, 3, 4, 5, 6] None 200) = filter (\<lambda>e. ekey e \<noteq> ''c'') (recency demoCache) \<and>
   recency (sweep demoCache 11) = filter (\<lambda>e. 11 \<le> expiresAt e) (recency demoCache)"
  using segcache_lru [OF demoCache_reach, of "''c''" 3 "[1, 2, 3, 4, 5, 6]" None 200]
    segcache_lru [OF demoCache_reach, of "''c''" 11 "[]" None 200] demoCache_list(4) by (simp add: Let_def)

definition demoResp :: response where
  "demoResp = \<lparr>StatusCode = 200, ContentLength = 3, RHeader = [], rbody = [7, 8, 9], rfails = False\<rparr>"

theorem fetch_whole_segment_witness:
  "\<exists>data oc'. fst (fetchRead (Some demoCache) (newByteBudget 10) 3 ''c'' demoResp) = Inr (data, [], 200) \<and> data = [7, 8, 9] \<and>
     int (length data) \<le> segmentReservation 3"
proof -
  let ?f = "fetchRead (Some demoCache) (newByteBudget 10) 3 ''c'' demoResp"
  have r: "?f = (Inr ([7, 8, 9], [], 200), fst (snd ?f), snd (snd ?f))"
    by (simp add: fetchRead_def readSegment_def demoResp_def maxSegmentBytes_def eval_nat_numeral)
  from fetch_whole_segment [OF r] show ?thesis
    using r by (simp add: demoResp_def maxSegmentBytes_def) (metis fst_conv)
qed

end
