(* ===== verification/Seg_Flight.thy ===== *)
theory Seg_Flight
  imports Seg_Cache Go_Url "HOL-Library.Char_ord" "HOL-Library.List_Lexorder"
begin

text \<open>
  The shared fetch of \<open>streamproxy/cache.go\<close>: cache keys that separate credentials (\<open>cacheKey\<close>), and the single-flight
  protocol by which concurrent misses for one key share an upstream fetch (\<open>flightJoin\<close>, \<open>flightFinish\<close>,
  \<open>cachedFetchMode\<close>). Every critical section and every blocking point is one step of a relation; the in-flight budget
  inside is the state machine of \<open>Byte_Budget\<close> and the cache the one of \<open>Seg_Cache\<close>.
\<close>

section \<open>Cache keys\<close>

text \<open>The header map is listed in the order the runtime iterates over it; the pairs are sorted by name.\<close>

definition keyPairs :: "Header \<Rightarrow> (string \<times> string list) list" where
  "keyPairs h = sort_key fst (map (\<lambda>(name, vs). (CanonicalHeaderKey name, vs)) (filter (\<lambda>(name, vs). vs \<noteq> []) h))"

definition pairBytes :: "string \<times> string list \<Rightarrow> string" where
  "pairBytes p = CHR 0x00 # fst p @ CHR '':'' # concat (map (\<lambda>v. v @ [CHR 0x01]) (snd p))"

definition keyBytes :: "string \<Rightarrow> Header \<Rightarrow> string" where
  "keyBytes rawurl h = rawurl @ concat (map pairBytes (keyPairs h))"

definition lowerHex :: "byte \<Rightarrow> string" where
  "lowerHex b = map (\<lambda>d. ''0123456789abcdef'' ! d) [unat b div 16, unat b mod 16]"

text \<open>\<open>sha\<close> is the digest function.\<close>

definition cacheKey :: "(string \<Rightarrow> byte list) \<Rightarrow> string \<Rightarrow> Header \<Rightarrow> string" where
  "cacheKey sha rawurl h = concat (map lowerHex (sha (keyBytes rawurl h)))"

text \<open>What the key separators rely on.\<close>

definition keyable :: "Header \<Rightarrow> bool" where
  "keyable h \<longleftrightarrow> distinct (map (CanonicalHeaderKey \<circ> fst) h) \<and>
     (\<forall>(name, vs) \<in> set h. CHR 0x00 \<notin> set name \<and> CHR '':'' \<notin> set name \<and> (\<forall>v \<in> set vs. CHR 0x00 \<notin> set v \<and> CHR 0x01 \<notin> set v))"

text \<open>The header set a key stands for.\<close>

definition headerSet :: "Header \<Rightarrow> (string \<times> string list) set" where
  "headerSet h = {(CanonicalHeaderKey name, vs) | name vs. (name, vs) \<in> set h \<and> vs \<noteq> []}"

lemma splitOn_values:
  "\<forall>v \<in> set vs. CHR 0x01 \<notin> set v \<Longrightarrow> splitOn (CHR 0x01) (concat (map (\<lambda>v. v @ [CHR 0x01]) vs)) = vs @ [[]]"
  by (induction vs) (simp_all add: splitOn_append splitOn_single)

lemma splitOn_pairs:
  "CHR 0x00 \<notin> set u \<Longrightarrow> \<forall>p \<in> set ps. CHR 0x00 \<notin> set (tl (pairBytes p)) \<Longrightarrow>
     splitOn (CHR 0x00) (u @ concat (map pairBytes ps)) = u # map (tl \<circ> pairBytes) ps"
proof (induction ps arbitrary: u)
  case (Cons p ps)
  have "pairBytes p = CHR 0x00 # tl (pairBytes p)" by (simp add: pairBytes_def)
  then have e: "u @ concat (map pairBytes (p # ps)) = u @ CHR 0x00 # (tl (pairBytes p) @ concat (map pairBytes ps))" by simp
  show ?case unfolding e splitOn_append [OF Cons.prems(1)] using Cons.IH [of "tl (pairBytes p)"] Cons.prems(2) by simp
qed (simp add: splitOn_single)

lemma pairBytes_inj:
  assumes "tl (pairBytes p) = tl (pairBytes q)" "CHR '':'' \<notin> set (fst p)" "CHR '':'' \<notin> set (fst q)"
    "\<forall>v \<in> set (snd p). CHR 0x01 \<notin> set v" "\<forall>v \<in> set (snd q). CHR 0x01 \<notin> set v"
  shows "p = q"
proof -
  have "cutAt (CHR '':'') (tl (pairBytes x)) = (fst x, concat (map (\<lambda>v. v @ [CHR 0x01]) (snd x)))" if "CHR '':'' \<notin> set (fst x)" for x
    using cutAt_append [OF that] by (simp add: pairBytes_def)
  then have "fst p = fst q" "concat (map (\<lambda>v. v @ [CHR 0x01]) (snd p)) = concat (map (\<lambda>v. v @ [CHR 0x01]) (snd q))"
    using assms(1-3) by (metis prod.inject)+
  moreover from this(2) have "snd p @ [[]] = snd q @ [[]]" using splitOn_values [OF assms(4)] splitOn_values [OF assms(5)] by metis
  ultimately show ?thesis by (simp add: prod_eq_iff)
qed

lemma keyPairs_set: "set (keyPairs h) = headerSet h"
  by (auto simp: keyPairs_def headerSet_def)

lemma keyPairs_names:
  assumes "keyable h"
  shows "distinct (map fst (keyPairs h))" "sorted (map fst (keyPairs h))"
proof -
  let ?f = "\<lambda>(name, vs). (CanonicalHeaderKey name, vs)" and ?g = "filter (\<lambda>(name, vs). vs \<noteq> []) h"
  have "map fst (map ?f ?g) = map (CanonicalHeaderKey \<circ> fst) ?g" by auto
  moreover have "distinct (map (CanonicalHeaderKey \<circ> fst) ?g)" using assms by (simp add: keyable_def distinct_map_filter)
  ultimately have "distinct (map fst (map ?f ?g))" by metis
  then show "distinct (map fst (keyPairs h))"
    unfolding keyPairs_def distinct_map distinct_sort set_sort .
  show "sorted (map fst (keyPairs h))" by (simp add: keyPairs_def)
qed

lemma keyPairs_clean:
  assumes "keyable h" "p \<in> set (keyPairs h)"
  shows "CHR 0x00 \<notin> set (fst p) \<and> CHR '':'' \<notin> set (fst p) \<and> (\<forall>v \<in> set (snd p). CHR 0x00 \<notin> set v \<and> CHR 0x01 \<notin> set v)"
proof -
  obtain name vs where n: "p = (CanonicalHeaderKey name, vs)" "(name, vs) \<in> set h"
    using assms(2) by (auto simp: keyPairs_set headerSet_def)
  have t: "\<not> tokenChar (CHR 0x00)" "\<not> tokenChar (CHR '':'')" by code_simp+
  have "CHR 0x00 \<notin> set name \<and> CHR '':'' \<notin> set name \<and> (\<forall>v \<in> set vs. CHR 0x00 \<notin> set v \<and> CHR 0x01 \<notin> set v)"
    using assms(1) n(2) unfolding keyable_def by blast
  then show ?thesis using canon_notin [OF t(1), of name] canon_notin [OF t(2), of name] unfolding n(1) by simp
qed

lemma keyPairs_eq:
  assumes "keyable h" "keyable h'"
  shows "keyPairs h = keyPairs h' \<longleftrightarrow> headerSet h = headerSet h'"
proof
  assume "headerSet h = headerSet h'"
  then have s: "set (keyPairs h) = set (keyPairs h')" by (simp add: keyPairs_set)
  have d: "distinct (map fst (keyPairs h))" "distinct (map fst (keyPairs h'))" using keyPairs_names(1) assms by blast+
  have "inj_on fst (set (keyPairs h) \<union> set (keyPairs h'))" using d(1) s by (simp add: distinct_map)
  from map_sorted_distinct_set_unique [OF this keyPairs_names(2) [OF assms(1)] d(1) keyPairs_names(2) [OF assms(2)] d(2) s]
  show "keyPairs h = keyPairs h'" .
qed (metis keyPairs_set)

text \<open>The URL and the header set can be read back from the bytes that are hashed.\<close>

lemma keyBytes_eq:
  assumes "keyable h" "keyable h'" "CHR 0x00 \<notin> set u" "CHR 0x00 \<notin> set u'" "keyBytes u h = keyBytes u' h'"
  shows "u = u' \<and> keyPairs h = keyPairs h'"
proof -
  have nul: "\<forall>p \<in> set (keyPairs x). CHR 0x00 \<notin> set (tl (pairBytes p))" if "keyable x" for x
  proof
    fix p
    assume "p \<in> set (keyPairs x)"
    from keyPairs_clean [OF that this] show "CHR 0x00 \<notin> set (tl (pairBytes p))" by (auto simp: pairBytes_def)
  qed
  have e: "u # map (tl \<circ> pairBytes) (keyPairs h) = u' # map (tl \<circ> pairBytes) (keyPairs h')"
    using splitOn_pairs [OF assms(3) nul [OF assms(1)]] splitOn_pairs [OF assms(4) nul [OF assms(2)]] assms(5)
    unfolding keyBytes_def by metis
  have "p = q" if "p \<in> set (keyPairs h)" "q \<in> set (keyPairs h')" "(tl \<circ> pairBytes) p = (tl \<circ> pairBytes) q" for p q
    using keyPairs_clean [OF assms(1) that(1)] keyPairs_clean [OF assms(2) that(2)] that(3)
    by (intro pairBytes_inj) simp_all
  then have "keyPairs h = keyPairs h'" using e by (intro list.inj_map_strong [of "keyPairs h" "keyPairs h'" "tl \<circ> pairBytes" "tl \<circ> pairBytes"]) simp_all
  then show ?thesis using e by simp
qed

section \<open>Single-flight fetches\<close>

type_synonym fetch_res = "fetch_err + byte list \<times> http_header \<times> int"

text \<open>The control points of \<open>cachedFetchMode\<close> and \<open>fetchBuffered\<close>: after the first lookup, as the leader of a call, waiting
  for a call as a follower, fetching (for a call or on one's own account), blocked in the budget, reading the body
  with the bytes reserved, and with the result stored but the call not yet finished. \<open>w\<close> is the \<open>wait\<close> argument.\<close>

datatype fproc =
    PIdle
  | PJoin string bool
  | PLead string bool nat
  | PFollow string bool nat
  | PFetch string bool "nat option"
  | PWait string "nat option" response nat
  | PRead string "nat option" response nat
  | PFinish string nat fetch_res
  | PDone string fetch_res

text \<open>\<open>flights\<close> is the map of calls in flight, \<open>fdone\<close> tells whether a call's channel is closed, \<open>fres\<close> holds its result
  fields. \<open>ckey\<close> and \<open>answers\<close> are history: the key a call was created for, and every answer of the upstream whose body
  was read, as the upstream sent it. The key of a fetch without a cache is empty.\<close>

record fsys =
  flights :: "string \<Rightarrow> nat option"
  fdone :: "nat \<Rightarrow> bool"
  fres :: "nat \<Rightarrow> fetch_res"
  nextCall :: nat
  seg :: "segCache option"
  budg :: bsys
  proc :: "nat \<Rightarrow> fproc"
  ckey :: "nat \<Rightarrow> string"
  answers :: "(string \<times> response) set"

definition flightJoin :: "string \<Rightarrow> fsys \<Rightarrow> nat \<times> bool \<times> fsys" where
  "flightJoin key s =
     (case flights s key of
        Some c \<Rightarrow> (c, False, s)
      | None \<Rightarrow>
          (nextCall s, True,
           s\<lparr>flights := (flights s)(key \<mapsto> nextCall s), fdone := (fdone s)(nextCall s := False),
             fres := (fres s)(nextCall s := Inr ([], [], 0)), nextCall := Suc (nextCall s), ckey := (ckey s)(nextCall s := key)\<rparr>))"

text \<open>The call is unregistered under the lock and its channel closed right after; nothing the leader does lies between the two,
  and a follower that finds the channel still open in that window only waits a little longer, so they are one step.\<close>

definition flightFinish :: "string \<Rightarrow> nat \<Rightarrow> fsys \<Rightarrow> fsys" where
  "flightFinish key c s = s\<lparr>flights := (flights s)(key := None), fdone := (fdone s)(c := True)\<rparr>"

definition setProc :: "nat \<Rightarrow> fproc \<Rightarrow> fsys \<Rightarrow> fsys" where
  "setProc p x s = s\<lparr>proc := (proc s)(p := x)\<rparr>"

text \<open>The end of a fetch: a leader stores the result in its call, anyone else returns it.\<close>

fun endFetch :: "nat \<Rightarrow> string \<Rightarrow> nat option \<Rightarrow> fetch_res \<Rightarrow> fsys \<Rightarrow> fsys" where
  "endFetch p key None r s = setProc p (PDone key r) s"
| "endFetch p key (Some c) r s = setProc p (PFinish key c r) (s\<lparr>fres := (fres s)(c := r)\<rparr>)"

definition logAnswer :: "string \<Rightarrow> response \<Rightarrow> fsys \<Rightarrow> fsys" where
  "logAnswer key r s = s\<lparr>answers := insert (key, r) (answers s)\<rparr>"

definition setBud :: "byteBudget \<Rightarrow> fsys \<Rightarrow> fsys" where
  "setBud b s = s\<lparr>budg := (budg s)\<lparr>bud := b\<rparr>\<rparr>"

inductive flight_step :: "fsys \<Rightarrow> fsys \<Rightarrow> bool" where
  f_off: "proc s p = PIdle \<Longrightarrow> seg s = None \<Longrightarrow> flight_step s (setProc p (PFetch [] w None) s)"
| f_hit: "proc s p = PIdle \<Longrightarrow> cacheLookup (seg s) now key = (Some x, oc) \<Longrightarrow>
     flight_step s (setProc p (PDone key (Inr x)) (s\<lparr>seg := oc\<rparr>))"
| f_miss: "proc s p = PIdle \<Longrightarrow> seg s \<noteq> None \<Longrightarrow> key \<noteq> [] \<Longrightarrow> cacheLookup (seg s) now key = (None, oc) \<Longrightarrow>
     flight_step s (setProc p (PJoin key w) (s\<lparr>seg := oc\<rparr>))"
| f_lead: "proc s p = PJoin key w \<Longrightarrow> flightJoin key s = (c, True, t) \<Longrightarrow> flight_step s (setProc p (PLead key w c) t)"
| f_follow: "proc s p = PJoin key w \<Longrightarrow> flightJoin key s = (c, False, t) \<Longrightarrow> flight_step s (setProc p (PFollow key w c) t)"
| f_again: "proc s p = PLead key w c \<Longrightarrow> cacheLookup (seg s) now key = (Some x, oc) \<Longrightarrow>
     flight_step s (endFetch p key (Some c) (Inr x) (s\<lparr>seg := oc\<rparr>))"
| f_fetch: "proc s p = PLead key w c \<Longrightarrow> cacheLookup (seg s) now key = (None, oc) \<Longrightarrow>
     flight_step s (setProc p (PFetch key w (Some c)) (s\<lparr>seg := oc\<rparr>))"
| f_shared: "proc s p = PFollow key w c \<Longrightarrow> fdone s c \<Longrightarrow> fres s c = Inr x \<Longrightarrow> flight_step s (setProc p (PDone key (Inr x)) s)"
| f_retry: "proc s p = PFollow key w c \<Longrightarrow> fdone s c \<Longrightarrow> fres s c = Inl e \<Longrightarrow> flight_step s (setProc p (PFetch key w None) s)"
| f_leave: "proc s p = PFollow key w c \<Longrightarrow> flight_step s (setProc p (PDone key (Inl (BudgetErr ctxErr))) s)"
| f_refuse: "proc s p = PFetch key w role \<Longrightarrow> fetchReserve (bud (budg s)) (fresh (budg s)) resp w = (Some e, a, b) \<Longrightarrow>
     flight_step s (endFetch p key role (Inl e) (setBud b s))"
| f_reserve: "proc s p = PFetch key w role \<Longrightarrow> i = fresh (budg s) \<Longrightarrow>
     fetchReserve (bud (budg s)) i (Some r) w = (None, Acquired, b) \<Longrightarrow>
     flight_step s (setProc p (PRead key role r i)
       (s\<lparr>budg := (budg s)\<lparr>bud := b, holds := (holds (budg s))(i \<mapsto> segmentReservation (ContentLength r)), fresh := Suc i\<rparr>\<rparr>))"
| f_block: "proc s p = PFetch key w role \<Longrightarrow> i = fresh (budg s) \<Longrightarrow>
     fetchReserve (bud (budg s)) i (Some r) w = (None, Blocked i, b) \<Longrightarrow>
     flight_step s (setProc p (PWait key role r i)
       (s\<lparr>budg := (budg s)\<lparr>bud := b, blocked := (blocked (budg s))(i \<mapsto> segmentReservation (ContentLength r)), fresh := Suc i\<rparr>\<rparr>))"
| f_wake: "proc s p = PWait key role r i \<Longrightarrow> i \<in> closed (bud (budg s)) \<Longrightarrow>
     flight_step s (setProc p (PRead key role r i)
       (s\<lparr>budg := (budg s)\<lparr>holds := (holds (budg s))(i \<mapsto> segmentReservation (ContentLength r)), blocked := (blocked (budg s))(i := None)\<rparr>\<rparr>))"
| f_cancel: "proc s p = PWait key role r i \<Longrightarrow>
     acquireCancel (bud (budg s)) i (segmentReservation (ContentLength r)) = (AcquireErr e, b) \<Longrightarrow>
     flight_step s (endFetch p key role (Inl (BudgetErr e))
       (s\<lparr>budg := (budg s)\<lparr>bud := b, blocked := (blocked (budg s))(i := None)\<rparr>\<rparr>))"
| f_read: "proc s p = PRead key role r i \<Longrightarrow> fetchRead (seg s) (bud (budg s)) now key r = (x, oc, b) \<Longrightarrow>
     flight_step s (endFetch p key role x (logAnswer key r
       (s\<lparr>seg := oc, budg := (budg s)\<lparr>bud := b, holds := (holds (budg s))(i := None)\<rparr>\<rparr>)))"
| f_finish: "proc s p = PFinish key c r \<Longrightarrow> flight_step s (setProc p (PDone key r) (flightFinish key c s))"
| f_sweep: "seg s = Some sc \<Longrightarrow> flight_step s (s\<lparr>seg := Some (sweep sc now)\<rparr>)"
| f_fill: "seg s = Some sc \<Longrightarrow> cacheableResponse r \<Longrightarrow> ContentLength r \<le> maxBytes sc \<Longrightarrow> readSegment r = Inr data \<Longrightarrow>
     flight_step s (logAnswer key r (s\<lparr>seg := Some (putFull sc now key data (Some (RHeader r)) (StatusCode r))\<rparr>))"

definition flight_start :: "fsys \<Rightarrow> bool" where
  "flight_start s \<longleftrightarrow> (\<exists>b. budget_start b \<and> s = \<lparr>flights = Map.empty, fdone = \<lambda>_. False, fres = \<lambda>_. Inr ([], [], 0), nextCall = 0,
     seg = seg s, budg = b, proc = \<lambda>_. PIdle, ckey = \<lambda>_. [], answers = {}\<rparr>) \<and>
     (case seg s of None \<Rightarrow> True | Some c \<Rightarrow> cache_start c)"

text \<open>What it means to have got an answer whole: its headers and status, and all the bytes its length announces or, without an
  announced length, everything up to a clean end of the body.\<close>

definition wholeAnswer :: "response \<Rightarrow> byte list \<times> http_header \<times> int \<Rightarrow> bool" where
  "wholeAnswer r = (\<lambda>(data, hs, st). hs = RHeader r \<and> st = StatusCode r \<and> int (length data) \<le> maxSegmentBytes \<and>
     (if ContentLength r \<ge> 0 then int (length data) = ContentLength r \<and> data = take (length data) (rbody r)
      else data = rbody r \<and> \<not> rfails r))"

definition fetched :: "fsys \<Rightarrow> (string \<times> byte list \<times> http_header \<times> int) set" where
  "fetched s = {(k, x) | k x r. (k, r) \<in> answers s \<and> wholeAnswer r x}"

lemma fetched_same: "answers t = answers s \<Longrightarrow> fetched t = fetched s"
  by (simp add: fetched_def)

lemma readSegment_genuine:
  assumes "readSegment r = Inr data"
  shows "wholeAnswer r (data, RHeader r, StatusCode r)"
proof (cases "ContentLength r \<ge> 0")
  case True
  with assms have "data = take (nat (ContentLength r)) (rbody r)" "ContentLength r \<le> int (length (rbody r))"
      "ContentLength r \<le> maxSegmentBytes"
    by (auto simp: readSegment_def split: if_splits)
  with True show ?thesis by (simp add: wholeAnswer_def)
next
  case False
  with assms have d: "data = take (nat (maxSegmentBytes + 1)) (rbody r)" "int (length data) \<le> maxSegmentBytes"
      "\<not> (rfails r \<and> int (length (rbody r)) < maxSegmentBytes + 1)"
    by (auto simp: readSegment_def Let_def split: if_splits)
  have "length (rbody r) < nat (maxSegmentBytes + 1)"
  proof (rule ccontr)
    assume "\<not> ?thesis"
    then have "length data = nat (maxSegmentBytes + 1)" unfolding d(1) by simp
    with d(2) show False by (simp add: maxSegmentBytes_def)
  qed
  then have "int (length (rbody r)) < maxSegmentBytes + 1" "data = rbody r" unfolding d(1) by simp_all
  with False d(2,3) show ?thesis by (simp add: wholeAnswer_def)
qed

lemma fetchRead_whole: "fetchRead oc b now key r = (Inr x, oc', b') \<Longrightarrow> wholeAnswer r x"
  using readSegment_genuine [of r] by (auto simp: fetchRead_def Let_def split: sum.splits)

section \<open>Leaders\<close>

text \<open>The call a process is responsible for.\<close>

fun leadOf :: "fproc \<Rightarrow> (string \<times> nat) option" where
  "leadOf (PLead k w c) = Some (k, c)"
| "leadOf (PFetch k w (Some c)) = Some (k, c)"
| "leadOf (PWait k (Some c) r i) = Some (k, c)"
| "leadOf (PRead k (Some c) r i) = Some (k, c)"
| "leadOf (PFinish k c r) = Some (k, c)"
| "leadOf _ = None"

lemma leadOf_role [simp]:
  "leadOf (PFetch k w role) = map_option (Pair k) role" "leadOf (PWait k role r i) = map_option (Pair k) role"
  "leadOf (PRead k role r i) = map_option (Pair k) role"
  by (cases role; simp)+

fun follows :: "fproc \<Rightarrow> (string \<times> nat) option" where
  "follows (PFollow k w c) = Some (k, c)"
| "follows _ = None"

definition leadInv :: "fsys \<Rightarrow> bool" where
  "leadInv s \<longleftrightarrow>
     (\<forall>k c. flights s k = Some c \<longrightarrow> c < nextCall s \<and> \<not> fdone s c \<and> (\<exists>p. leadOf (proc s p) = Some (k, c))) \<and>
     (\<forall>p k c. leadOf (proc s p) = Some (k, c) \<longrightarrow> flights s k = Some c) \<and>
     (\<forall>p q k c. leadOf (proc s p) = Some (k, c) \<and> leadOf (proc s q) = Some (k, c) \<longrightarrow> p = q) \<and>
     (\<forall>k k' c. flights s k = Some c \<and> flights s k' = Some c \<longrightarrow> k = k') \<and>
     (\<forall>p k c. follows (proc s p) = Some (k, c) \<longrightarrow> c < nextCall s \<and> (fdone s c \<or> flights s k = Some c))"

text \<open>Steps that leave the calls alone.\<close>

lemma leadInv_same:
  assumes "leadInv s" "flights t = flights s" "fdone t = fdone s" "nextCall t = nextCall s" "proc t = (proc s)(p := x)"
    "leadOf x = leadOf (proc s p)" "follows x = None"
  shows "leadInv t"
proof -
  have l: "leadOf (proc t q) = leadOf (proc s q)" for q using assms(5,6) by simp
  have f: "follows (proc t q) = (if q = p then None else follows (proc s q))" for q using assms(5,7) by simp
  show ?thesis using assms(1) unfolding leadInv_def assms(2-4) l f by (auto split: if_splits)
qed

lemma leadInv_lead:
  assumes inv: "leadInv s" and p: "proc s p = PJoin key w" and j: "flightJoin key s = (c, True, t)"
  shows "leadInv (setProc p (PLead key w c) t)"
proof -
  have f: "flights s key = None" and c: "c = nextCall s" and t: "flights t = (flights s)(key \<mapsto> c)" "fdone t = (fdone s)(c := False)"
      "nextCall t = Suc c" "proc t = proc s"
    using j by (auto simp: flightJoin_def split: option.splits)
  let ?t = "setProc p (PLead key w c) t"
  have l: "leadOf (proc ?t q) = (if q = p then Some (key, c) else leadOf (proc s q))" for q by (simp add: setProc_def t)
  have fo: "follows (proc ?t q) = (if q = p then None else follows (proc s q))" for q by (simp add: setProc_def t)
  have lp: "leadOf (proc s p) = None" "follows (proc s p) = None" using p by simp_all
  have nf: "flights s k \<noteq> Some c" for k using inv c unfolding leadInv_def by (metis less_irrefl)
  have nl: "leadOf (proc s q) \<noteq> Some (k, c)" for q k using inv nf unfolding leadInv_def by metis
  have fields: "flights ?t = (flights s)(key \<mapsto> c)" "fdone ?t = (fdone s)(c := False)" "nextCall ?t = Suc c" by (simp_all add: setProc_def t)
  have nk: "leadOf (proc s q) \<noteq> Some (key, c')" for q c' using inv f unfolding leadInv_def by (metis option.distinct(1))
  show ?thesis
    unfolding leadInv_def fields l fo
  proof (intro conjI allI impI)
    fix k c'
    assume a: "((flights s)(key \<mapsto> c)) k = Some c'"
    show "c' < Suc c" "\<not> ((fdone s)(c := False)) c'" using a inv c unfolding leadInv_def by (auto split: if_splits simp: less_Suc_eq)
    show "\<exists>q. (if q = p then Some (key, c) else leadOf (proc s q)) = Some (k, c')"
    proof (cases "k = key")
      case True
      then show ?thesis using a by auto
    next
      case False
      then have "flights s k = Some c'" using a by simp
      then obtain q where "leadOf (proc s q) = Some (k, c')" using inv unfolding leadInv_def by blast
      then show ?thesis using lp(1) by (intro exI [of _ q]) auto
    qed
  next
    fix q k c'
    assume "(if q = p then Some (key, c) else leadOf (proc s q)) = Some (k, c')"
    then show "((flights s)(key \<mapsto> c)) k = Some c'" using inv nk [of q c'] unfolding leadInv_def by (auto split: if_splits)
  next
    fix q q' k c'
    assume "(if q = p then Some (key, c) else leadOf (proc s q)) = Some (k, c') \<and> (if q' = p then Some (key, c) else leadOf (proc s q')) = Some (k, c')"
    then show "q = q'" using inv nl [of q] nl [of q'] unfolding leadInv_def by (auto split: if_splits)
  next
    fix k k' c'
    assume "((flights s)(key \<mapsto> c)) k = Some c' \<and> ((flights s)(key \<mapsto> c)) k' = Some c'"
    then show "k = k'" using inv nf [of k] nf [of k'] unfolding leadInv_def by (auto split: if_splits)
  next
    fix q k c'
    assume a: "(if q = p then None else follows (proc s q)) = Some (k, c')"
    then have b: "c' < nextCall s" "fdone s c' \<or> flights s k = Some c'" using inv unfolding leadInv_def by (auto split: if_splits)
    show "c' < Suc c" using b(1) c by simp
    show "((fdone s)(c := False)) c' \<or> ((flights s)(key \<mapsto> c)) k = Some c'" using b c f by auto
  qed
qed

lemma leadInv_follow:
  assumes inv: "leadInv s" and p: "proc s p = PJoin key w" and j: "flightJoin key s = (c, False, t)"
  shows "leadInv (setProc p (PFollow key w c) t)"
proof -
  have t: "t = s" and f: "flights s key = Some c" using j by (auto simp: flightJoin_def split: option.splits)
  have l: "leadOf (proc (setProc p (PFollow key w c) s) q) = leadOf (proc s q)" for q using p by (simp add: setProc_def)
  have fo: "follows (proc (setProc p (PFollow key w c) s) q) = (if q = p then Some (key, c) else follows (proc s q))" for q
    by (simp add: setProc_def)
  have fields: "flights (setProc p (PFollow key w c) s) = flights s" "fdone (setProc p (PFollow key w c) s) = fdone s"
      "nextCall (setProc p (PFollow key w c) s) = nextCall s" by (simp_all add: setProc_def)
  show ?thesis using inv f unfolding t leadInv_def l fo fields by (auto split: if_splits)
qed

lemma leadInv_finish:
  assumes inv: "leadInv s" and p: "proc s p = PFinish key c r"
  shows "leadInv (setProc p (PDone key r) (flightFinish key c s))"
proof -
  let ?t = "setProc p (PDone key r) (flightFinish key c s)"
  have lp: "leadOf (proc s p) = Some (key, c)" "follows (proc s p) = None" using p by simp_all
  then have f: "flights s key = Some c" using inv unfolding leadInv_def by blast
  have l: "leadOf (proc ?t q) = (if q = p then None else leadOf (proc s q))" for q by (simp add: setProc_def flightFinish_def)
  have fo: "follows (proc ?t q) = (if q = p then None else follows (proc s q))" for q by (simp add: setProc_def flightFinish_def)
  have fields: "flights ?t = (flights s)(key := None)" "fdone ?t = (fdone s)(c := True)" "nextCall ?t = nextCall s"
    by (simp_all add: setProc_def flightFinish_def)
  have only: "q = p" if "leadOf (proc s q) = Some (key, c')" for q c'
    using inv that f lp(1) unfolding leadInv_def by (metis option.inject)
  have other: "flights s k \<noteq> Some c" if "k \<noteq> key" for k using inv f that unfolding leadInv_def by blast
  show ?thesis
    unfolding leadInv_def fields l fo
  proof (intro conjI allI impI)
    fix k c'
    assume a: "((flights s)(key := None)) k = Some c'"
    then have k: "k \<noteq> key" "flights s k = Some c'" by (auto split: if_splits)
    show "c' < nextCall s" "\<not> ((fdone s)(c := True)) c'" using k other [OF k(1)] inv unfolding leadInv_def by auto
    obtain q where "leadOf (proc s q) = Some (k, c')" using k(2) inv unfolding leadInv_def by blast
    then show "\<exists>q. (if q = p then None else leadOf (proc s q)) = Some (k, c')" using lp(1) k(1) by (intro exI [of _ q]) auto
  next
    fix q k c'
    assume a: "(if q = p then None else leadOf (proc s q)) = Some (k, c')"
    then have "q \<noteq> p" "leadOf (proc s q) = Some (k, c')" by (auto split: if_splits)
    then show "((flights s)(key := None)) k = Some c'" using inv only [of q c'] unfolding leadInv_def by auto
  next
    fix q q' k c'
    assume "(if q = p then None else leadOf (proc s q)) = Some (k, c') \<and> (if q' = p then None else leadOf (proc s q')) = Some (k, c')"
    then show "q = q'" using inv unfolding leadInv_def by (auto split: if_splits)
  next
    fix k k' c'
    assume "((flights s)(key := None)) k = Some c' \<and> ((flights s)(key := None)) k' = Some c'"
    then show "k = k'" using inv unfolding leadInv_def by (auto split: if_splits)
  next
    fix q k c'
    assume "(if q = p then None else follows (proc s q)) = Some (k, c')"
    then have b: "c' < nextCall s" "fdone s c' \<or> flights s k = Some c'" using inv unfolding leadInv_def by (auto split: if_splits)
    show "c' < nextCall s" by (rule b(1))
    show "((fdone s)(c := True)) c' \<or> ((flights s)(key := None)) k = Some c'" using b(2) f by auto
  qed
qed

lemma endFetch_fields [simp]:
  "flights (endFetch p key role r s) = flights s" "fdone (endFetch p key role r s) = fdone s" "nextCall (endFetch p key role r s) = nextCall s"
  "seg (endFetch p key role r s) = seg s" "budg (endFetch p key role r s) = budg s" "ckey (endFetch p key role r s) = ckey s"
  "answers (endFetch p key role r s) = answers s"
  "proc (endFetch p key role r s) = (proc s)(p := (case role of None \<Rightarrow> PDone key r | Some c \<Rightarrow> PFinish key c r))"
  by (cases role; simp add: setProc_def)+

lemma logAnswer_fields [simp]:
  "flights (logAnswer key r s) = flights s" "fdone (logAnswer key r s) = fdone s" "nextCall (logAnswer key r s) = nextCall s"
  "seg (logAnswer key r s) = seg s" "budg (logAnswer key r s) = budg s" "ckey (logAnswer key r s) = ckey s"
  "proc (logAnswer key r s) = proc s" "fres (logAnswer key r s) = fres s"
  by (simp_all add: logAnswer_def)

lemma setProc_fields [simp]:
  "flights (setProc p x s) = flights s" "fdone (setProc p x s) = fdone s" "nextCall (setProc p x s) = nextCall s"
  "seg (setProc p x s) = seg s" "budg (setProc p x s) = budg s" "ckey (setProc p x s) = ckey s" "answers (setProc p x s) = answers s"
  "fres (setProc p x s) = fres s" "proc (setProc p x s) = (proc s)(p := x)"
  by (simp_all add: setProc_def)

lemma setBud_fields [simp]:
  "flights (setBud b s) = flights s" "fdone (setBud b s) = fdone s" "nextCall (setBud b s) = nextCall s"
  "seg (setBud b s) = seg s" "budg (setBud b s) = (budg s)\<lparr>bud := b\<rparr>" "ckey (setBud b s) = ckey s" "answers (setBud b s) = answers s"
  "fres (setBud b s) = fres s" "proc (setBud b s) = proc s"
  by (simp_all add: setBud_def)

lemma fetched_fields [simp]:
  "fetched (endFetch p key role r s) = fetched s" "fetched (setProc p x s) = fetched s" "fetched (setBud b s) = fetched s"
  "fetched (s\<lparr>seg := oc\<rparr>) = fetched s" "fetched (s\<lparr>budg := bs\<rparr>) = fetched s" "fetched (s\<lparr>flights := fl\<rparr>) = fetched s"
  "fetched (s\<lparr>fdone := fd\<rparr>) = fetched s" "fetched (s\<lparr>fres := fr\<rparr>) = fetched s"
  by (rule fetched_same, simp)+

lemma leadOf_end [simp]: "leadOf (case role of None \<Rightarrow> PDone key r | Some c \<Rightarrow> PFinish key c r) = map_option (Pair key) role"
  "follows (case role of None \<Rightarrow> PDone key r | Some c \<Rightarrow> PFinish key c r) = None"
  by (cases role; simp)+

lemma leadInv_step: "flight_step s t \<Longrightarrow> leadInv s \<Longrightarrow> leadInv t"
proof (induction rule: flight_step.induct)
  case (f_lead s p key w c t)
  then show ?case using leadInv_lead by blast
next
  case (f_follow s p key w c t)
  then show ?case using leadInv_follow by blast
next
  case (f_finish s p key c r)
  then show ?case using leadInv_finish by blast
next
  case (f_sweep s sc now)
  then show ?case by (simp add: leadInv_def)
next
  case (f_fill s sc r data key now)
  then show ?case by (simp add: leadInv_def)
qed (erule leadInv_same, simp, simp, simp, simp, simp, simp)+

section \<open>What is returned was fetched\<close>

text \<open>Cached entries were fetched for their key.\<close>

definition cacheOk :: "(string \<times> byte list \<times> http_header \<times> int) set \<Rightarrow> segCache option \<Rightarrow> bool" where
  "cacheOk F oc \<longleftrightarrow> (\<forall>sc. oc = Some sc \<longrightarrow> linked sc \<and>
     (\<forall>e \<in> set (recency sc). \<exists>h. hdr e = Some h \<and> (ekey e, val e, h, status e) \<in> F))"

lemma cacheOk_mono: "cacheOk F oc \<Longrightarrow> F \<subseteq> G \<Longrightarrow> cacheOk G oc"
  unfolding cacheOk_def by blast

lemma cacheOk_None [simp]: "cacheOk F None"
  by (simp add: cacheOk_def)

lemma put_entries:
  assumes "linked sc"
  shows "linked (putFull sc now key v h st)" "set (recency (putFull sc now key v h st)) \<subseteq> insert (newEntry sc now key v h st) (set (recency sc))"
proof -
  have "linked (putFull sc now key v h st) \<and>
      set (recency (putFull sc now key v h st)) \<subseteq> insert (newEntry sc now key v h st) (set (recency sc))"
  proof (cases "int (length v) > maxBytes sc")
    case True
    have "set (recency (putFull sc now key v h st)) \<subseteq> set (recency sc)" unfolding put_big(2) [OF assms True] by (rule filter_is_subset)
    then show ?thesis using put_big(1) [OF assms True] by blast
  next
    case False
    then have v: "int (length v) \<le> maxBytes sc" by simp
    obtain P es r where r: "linked (putFull sc now key v h st)" "longest_prefix P es r" "set es \<subseteq> set (recency sc)"
        "recency (putFull sc now key v h st) = newEntry sc now key v h st # r"
    proof (cases "items sc key")
      case None
      note pn = put_new [OF assms v this, of now h st]
      obtain r where lp: "longest_prefix (\<lambda>es. int (length es) < maxEntries sc \<and> ebytes es + int (length v) \<le> maxBytes sc) (recency sc) r"
          and rec: "recency (putFull sc now key v h st) = newEntry sc now key v h st # r" using conjunct2 [OF pn] by (elim exE conjE) (rule that)
      show ?thesis by (rule that [OF conjunct1 [OF pn] lp subset_refl rec])
    next
      case (Some el)
      note pr = put_refresh [OF assms v this, of now h st]
      obtain r where lp: "longest_prefix (\<lambda>es. ebytes es + int (length v) \<le> maxBytes sc) (filter (\<lambda>e. ekey e \<noteq> key) (recency sc)) r"
          and rec: "recency (putFull sc now key v h st) = newEntry sc now key v h st # r" using conjunct2 [OF pr] by (elim exE conjE) (rule that)
      show ?thesis by (rule that [OF conjunct1 [OF pr] lp filter_is_subset rec])
    qed
    have "set r \<subseteq> set es" using r(2) by (auto simp: longest_prefix_def dest: set_mono_prefix)
    then show ?thesis using r(1,3) unfolding r(4) by auto
  qed
  then show "linked (putFull sc now key v h st)" "set (recency (putFull sc now key v h st)) \<subseteq> insert (newEntry sc now key v h st) (set (recency sc))"
    by blast+
qed

lemma cacheOk_put:
  assumes "cacheOk F (Some sc)" "(key, v, h, st) \<in> F"
  shows "cacheOk F (Some (putFull sc now key v (Some h) st))"
proof -
  have l: "linked sc" using assms(1) by (simp add: cacheOk_def)
  show ?thesis
    unfolding cacheOk_def
  proof (intro allI impI conjI ballI)
    fix sc' e
    assume sc: "Some (putFull sc now key v (Some h) st) = Some sc'"
    then have sc': "sc' = putFull sc now key v (Some h) st" by simp
    show "linked sc'" unfolding sc' by (rule put_entries(1) [OF l])
    assume "e \<in> set (recency sc')"
    then have "e = newEntry sc now key v (Some h) st \<or> e \<in> set (recency sc)"
      using put_entries(2) [OF l, of now key v "Some h" st] unfolding sc' by blast
    then show "\<exists>h. hdr e = Some h \<and> (ekey e, val e, h, status e) \<in> F"
      using assms by (auto simp: newEntry_def cacheOk_def)
  qed
qed

lemma cacheOk_sub:
  assumes "cacheOk F (Some sc)" "linked sc'" "set (recency sc') \<subseteq> set (recency sc)"
  shows "cacheOk F (Some sc')"
  using assms unfolding cacheOk_def by blast

lemma cacheOk_lookup:
  assumes "cacheOk F oc" "cacheLookup oc now key = (r, oc')"
  shows "cacheOk F oc' \<and> (\<forall>x. r = Some x \<longrightarrow> (key, x) \<in> F)"
proof (cases oc)
  case None
  then show ?thesis using assms by (simp add: cacheLookup_def)
next
  case (Some sc)
  obtain e sc' where g: "getFull sc now key = (e, sc')" by (cases "getFull sc now key") auto
  have l: "linked sc" using assms(1) Some by (simp add: cacheOk_def)
  note G = get_spec(2) [OF l g] and l' = get_spec(1) [OF l, of now key]
  have "set (recency sc') \<subseteq> set (recency sc)" using G by (cases e) auto
  then have ok: "cacheOk F (Some sc')" using cacheOk_sub assms(1) Some l' g by simp
  show ?thesis
  proof (cases e)
    case None
    then show ?thesis using assms(2) Some g ok by (simp add: cacheLookup_def)
  next
    case e: (Some x)
    then have x: "x \<in> set (recency sc)" "ekey x = key" using G by simp_all
    then obtain h where "hdr x = Some h" "(key, val x, h, status x) \<in> F" using assms(1) Some unfolding cacheOk_def by blast
    then show ?thesis using assms(2) Some g e ok by (auto simp: cacheLookup_def)
  qed
qed

lemma cacheOk_read:
  assumes "cacheOk F oc" "fetchRead oc b now key r = (x, oc', b')" "\<forall>y. x = Inr y \<longrightarrow> (key, y) \<in> F"
  shows "cacheOk F oc'"
proof (cases x)
  case (Inr y)
  then obtain data where y: "y = (data, RHeader r, StatusCode r)"
      "oc' = (if key \<noteq> [] \<and> StatusCode r = 200 then map_option (\<lambda>c. putFull c now key data (Some (RHeader r)) (StatusCode r)) oc else oc)"
    using assms(2) by (auto simp: fetchRead_def Let_def split: sum.splits)
  have "(key, data, RHeader r, StatusCode r) \<in> F" using assms(3) Inr y(1) by simp
  then show ?thesis using assms(1) y(2) cacheOk_put by (cases oc) auto
qed (use assms in \<open>auto simp: fetchRead_def Let_def split: sum.splits\<close>)

text \<open>The results a process shows or a call holds.\<close>

fun resultOk :: "(string \<times> byte list \<times> http_header \<times> int) set \<Rightarrow> (nat \<Rightarrow> fetch_res) \<Rightarrow> fproc \<Rightarrow> bool" where
  "resultOk F fr (PDone k r) = (\<forall>x. r = Inr x \<longrightarrow> (k, x) \<in> F)"
| "resultOk F fr (PFinish k c r) = (fr c = r \<and> (\<forall>x. r = Inr x \<longrightarrow> (k, x) \<in> F))"
| "resultOk F fr _ = True"

definition histInv :: "fsys \<Rightarrow> bool" where
  "histInv s \<longleftrightarrow> cacheOk (fetched s) (seg s) \<and> (\<forall>p. resultOk (fetched s) (fres s) (proc s p)) \<and>
     (\<forall>c x. fdone s c \<longrightarrow> fres s c = Inr x \<longrightarrow> (ckey s c, x) \<in> fetched s) \<and>
     (\<forall>p k c. leadOf (proc s p) = Some (k, c) \<or> follows (proc s p) = Some (k, c) \<longrightarrow> ckey s c = k)"

lemma histInv_done: "histInv s \<Longrightarrow> fdone s c \<Longrightarrow> fres s c = Inr x \<Longrightarrow> (ckey s c, x) \<in> fetched s"
  unfolding histInv_def by blast

lemma resultOk_mono: "resultOk F fr x \<Longrightarrow> F \<subseteq> G \<Longrightarrow> resultOk G fr x"
  by (cases x) auto

text \<open>Steps that leave the calls and their results alone.\<close>

lemma histInv_same:
  assumes "histInv s" "fetched s \<subseteq> fetched t" "cacheOk (fetched t) (seg t)" "fres t = fres s" "fdone t = fdone s" "ckey t = ckey s"
    "proc t = (proc s)(p := x)" "resultOk (fetched t) (fres t) x"
    "\<And>k c. leadOf x = Some (k, c) \<or> follows x = Some (k, c) \<Longrightarrow> leadOf (proc s p) = Some (k, c) \<or> follows (proc s p) = Some (k, c)"
  shows "histInv t"
proof -
  have "resultOk (fetched t) (fres t) (proc t q)" for q
    using assms(1,4,7,8) resultOk_mono [OF _ assms(2)] by (cases "q = p") (auto simp: histInv_def)
  moreover have "ckey t c = k" if "leadOf (proc t q) = Some (k, c) \<or> follows (proc t q) = Some (k, c)" for q k c
    using assms(1,6,7) assms(9) [of k c] that by (cases "q = p") (auto simp: histInv_def)
  moreover have "(ckey t c, x) \<in> fetched t" if "fdone t c" "fres t c = Inr x" for c x
    using that assms(1,2) unfolding assms(4-6) histInv_def by blast
  ultimately show ?thesis using assms(3) unfolding histInv_def by simp
qed

text \<open>A leader stores its result.\<close>

lemma histInv_end:
  assumes "histInv s" "leadInv s" "leadOf (proc s p) = map_option (Pair key) role"
    "fetched s \<subseteq> fetched t" "cacheOk (fetched t) (seg t)" "fres t = fres s" "fdone t = fdone s" "ckey t = ckey s" "proc t = proc s"
    "\<forall>x. r = Inr x \<longrightarrow> (key, x) \<in> fetched t"
  shows "histInv (endFetch p key role r t)"
proof (cases role)
  case None
  show ?thesis
    by (rule histInv_same [OF assms(1), where p = p and x = "PDone key r"]) (use assms None in \<open>simp_all\<close>)
next
  case (Some c)
  let ?t = "endFetch p key (Some c) r t"
  have l: "leadOf (proc s p) = Some (key, c)" using assms(3) Some by simp
  then have f: "flights s key = Some c" "\<not> fdone s c" using assms(2) unfolding leadInv_def by blast+
  have only: "q = p" if "leadOf (proc s q) = Some (k, c)" for q k
    using assms(2) that l unfolding leadInv_def by (metis option.inject prod.inject)
  have fr: "fres ?t = (fres s)(c := r)" by (simp add: assms(6))
  have "resultOk (fetched ?t) (fres ?t) (proc ?t q)" for q
  proof (cases "q = p")
    case False
    have "resultOk (fetched t) (fres s) (proc s q)" using assms(1) resultOk_mono [OF _ assms(4)] by (simp add: histInv_def)
    moreover have "\<forall>k r'. proc s q \<noteq> PFinish k c r'" using only [of q] False by auto
    ultimately show ?thesis using False unfolding fr by (cases "proc s q") (auto simp: assms(9))
  qed (use assms(10) fr in simp)
  moreover have "ckey t c' = k" if "leadOf (proc ?t q) = Some (k, c') \<or> follows (proc ?t q) = Some (k, c')" for q k c'
    using assms(1,8,9) l that by (cases "q = p") (auto simp: histInv_def)
  moreover have "(ckey t c', x) \<in> fetched t" if "fdone t c'" "fres ?t c' = Inr x" for c' x
  proof -
    have "c' \<noteq> c" using that(1) f(2) assms(7) by auto
    then have "fdone s c'" "fres s c' = Inr x" using that unfolding fr by (simp_all add: assms(7))
    then have "(ckey s c', x) \<in> fetched s" using assms(1) unfolding histInv_def by blast
    then show ?thesis using assms(4,8) by auto
  qed
  ultimately show ?thesis using assms(5) Some unfolding histInv_def by simp
qed

lemma logAnswer_log: "fetched s \<subseteq> fetched (logAnswer key r s)" "wholeAnswer r x \<Longrightarrow> (key, x) \<in> fetched (logAnswer key r s)"
  by (cases x; auto simp: logAnswer_def fetched_def)+

lemma histInv_join:
  assumes "histInv s" "leadInv s" "proc s p = PJoin key w" "flightJoin key s = (c, b, t)" "x = (if b then PLead key w c else PFollow key w c)"
  shows "histInv (setProc p x t)"
proof (cases b)
  case False
  then have t: "t = s" "flights s key = Some c" using assms(4) by (auto simp: flightJoin_def split: option.splits)
  then obtain q where "leadOf (proc s q) = Some (key, c)" using assms(2) unfolding leadInv_def by blast
  then have ck: "ckey s c = key" using assms(1) unfolding histInv_def by blast
  have "ckey s c' = k" if "leadOf (proc (setProc p x s) q) = Some (k, c') \<or> follows (proc (setProc p x s) q) = Some (k, c')" for q k c'
    using assms(1,5) False ck that by (cases "q = p") (auto simp: histInv_def)
  moreover have "resultOk (fetched s) (fres s) (proc (setProc p x s) q)" for q
    using assms(1,5) False by (cases "q = p") (auto simp: histInv_def)
  ultimately show ?thesis using assms(1) unfolding t(1) histInv_def by simp
next
  case True
  then have t: "flights s key = None" "c = nextCall s" "fdone t = (fdone s)(c := False)" "fres t = (fres s)(c := Inr ([], [], 0))"
      "ckey t = (ckey s)(c := key)" "proc t = proc s" "seg t = seg s" "fetched t = fetched s"
    using assms(4) by (auto simp: flightJoin_def fetched_def split: option.splits)
  have old: "c' < c" if "leadOf (proc s q) = Some (k, c') \<or> follows (proc s q) = Some (k, c')" for q k c'
    using assms(2) that unfolding leadInv_def t(2) by blast
  have fin: "proc s q \<noteq> PFinish k c r" for q k r using old [of q k c] by auto
  have "ckey (setProc p x t) c' = k" if "leadOf (proc (setProc p x t) q) = Some (k, c') \<or> follows (proc (setProc p x t) q) = Some (k, c')" for q k c'
  proof (cases "q = p")
    case True
    then show ?thesis using assms(5) \<open>b\<close> that by (auto simp: t)
  next
    case False
    then show ?thesis using assms(1) old [of q k c'] that unfolding histInv_def by (auto simp: t(5,6))
  qed
  moreover have "resultOk (fetched t) (fres t) (proc (setProc p x t) q)" for q
  proof (cases "q = p")
    case False
    have "resultOk (fetched s) (fres s) (proc s q)" using assms(1) by (simp add: histInv_def)
    moreover have "\<forall>k r. proc s q \<noteq> PFinish k c r" using fin by blast
    ultimately show ?thesis using False by (cases "proc s q") (auto simp: t)
  qed (use assms(5) \<open>b\<close> in simp)
  moreover have "(ckey t c', y) \<in> fetched t" if "fdone t c'" "fres t c' = Inr y" for c' y
    using histInv_done [OF assms(1), of c' y] that by (auto simp: t split: if_splits)
  ultimately show ?thesis using assms(1) unfolding histInv_def by (simp add: t(7,8))
qed

lemma histInv_finish:
  assumes "histInv s" "proc s p = PFinish key c r"
  shows "histInv (setProc p (PDone key r) (flightFinish key c s))"
proof -
  let ?t = "setProc p (PDone key r) (flightFinish key c s)"
  have "resultOk (fetched s) (fres s) (proc s p)" using assms(1) by (simp add: histInv_def)
  then have r: "fres s c = r" "\<And>x. r = Inr x \<Longrightarrow> (key, x) \<in> fetched s" by (simp_all add: assms(2))
  have "leadOf (proc s p) = Some (key, c)" by (simp add: assms(2))
  then have ck: "ckey s c = key" using assms(1) unfolding histInv_def by blast
  have "(ckey s c', x) \<in> fetched s" if "((fdone s)(c := True)) c'" "fres s c' = Inr x" for c' x
    using histInv_done [OF assms(1), of c' x] that r ck by (auto split: if_splits)
  moreover have "ckey s c' = k" if "leadOf (proc ?t q) = Some (k, c') \<or> follows (proc ?t q) = Some (k, c')" for q k c'
    using assms(1) that by (cases "q = p") (auto simp: histInv_def flightFinish_def)
  moreover have "resultOk (fetched s) (fres s) (proc ?t q)" for q
    using assms(1) r(2) by (cases "q = p") (auto simp: histInv_def flightFinish_def)
  ultimately show ?thesis using assms(1) unfolding histInv_def by (simp add: flightFinish_def)
qed

lemma histInv_step: "flight_step s t \<Longrightarrow> leadInv s \<Longrightarrow> histInv s \<Longrightarrow> histInv t"
proof (induction rule: flight_step.induct)
  case (f_hit s p now key x oc)
  have "cacheOk (fetched s) (seg s)" using f_hit by (simp add: histInv_def)
  note l = cacheOk_lookup [OF this f_hit(2)]
  show ?case by (rule histInv_same [OF f_hit(4), where p = p and x = "PDone key (Inr x)"]) (use l in simp_all)
next
  case (f_miss s p key now oc w)
  have "cacheOk (fetched s) (seg s)" using f_miss by (simp add: histInv_def)
  note l = cacheOk_lookup [OF this f_miss(4)]
  show ?case by (rule histInv_same [OF f_miss(6), where p = p and x = "PJoin key w"]) (use l in simp_all)
next
  case (f_lead s p key w c t)
  then show ?case using histInv_join [of s p key w c True t] by simp
next
  case (f_follow s p key w c t)
  then show ?case using histInv_join [of s p key w c False t] by simp
next
  case (f_again s p key w c now x oc)
  have "cacheOk (fetched s) (seg s)" using f_again by (simp add: histInv_def)
  note l = cacheOk_lookup [OF this f_again(2)]
  show ?case by (rule histInv_end [OF f_again(4,3)]) (use l f_again(1) in simp_all)
next
  case (f_fetch s p key w c now oc)
  have "cacheOk (fetched s) (seg s)" using f_fetch by (simp add: histInv_def)
  note l = cacheOk_lookup [OF this f_fetch(2)]
  show ?case by (rule histInv_same [OF f_fetch(4), where p = p and x = "PFetch key w (Some c)"]) (use l f_fetch(1) in simp_all)
next
  case (f_shared s p key w c x)
  have "ckey s c = key" using f_shared(1,5) unfolding histInv_def by (metis follows.simps(1))
  then have "(key, x) \<in> fetched s" using histInv_done [OF f_shared(5,2,3)] by simp
  then show ?case by (intro histInv_same [OF f_shared(5), where p = p and x = "PDone key (Inr x)"]) (use f_shared(5) in \<open>simp_all add: histInv_def\<close>)
next
  case (f_refuse s p key w role resp e a b)
  show ?case by (rule histInv_end [OF f_refuse(4,3)]) (use f_refuse(1,4) in \<open>simp_all add: histInv_def\<close>)
next
  case (f_cancel s p key role r i e b)
  show ?case by (rule histInv_end [OF f_cancel(4,3)]) (use f_cancel(1,4) in \<open>simp_all add: histInv_def\<close>)
next
  case (f_read s p key role r i now x oc b)
  let ?t = "logAnswer key r (s\<lparr>seg := oc, budg := (budg s)\<lparr>bud := b, holds := (holds (budg s))(i := None)\<rparr>\<rparr>)"
  have F: "fetched s \<subseteq> fetched ?t" "\<forall>y. x = Inr y \<longrightarrow> (key, y) \<in> fetched ?t"
    using logAnswer_log(1) [of "s\<lparr>seg := oc, budg := (budg s)\<lparr>bud := b, holds := (holds (budg s))(i := None)\<rparr>\<rparr>" key r]
      logAnswer_log(2) [of r _ key] fetchRead_whole f_read(2) by auto
  have "cacheOk (fetched ?t) (seg s)" using f_read(4) cacheOk_mono [OF _ F(1)] by (simp add: histInv_def)
  from cacheOk_read [OF this f_read(2) F(2)] have "cacheOk (fetched ?t) (seg ?t)" by simp
  then show ?case using F f_read(1) by (intro histInv_end [OF f_read(4,3)]) simp_all
next
  case (f_finish s p key c r)
  then show ?case using histInv_finish by blast
next
  case (f_sweep s sc now)
  have ok: "cacheOk (fetched s) (Some sc)" using f_sweep by (simp add: histInv_def)
  then have l: "linked sc" by (simp add: cacheOk_def)
  have "cacheOk (fetched s) (Some (sweep sc now))" by (rule cacheOk_sub [OF ok sweep_spec(1) [OF l]]) (unfold sweep_spec(2) [OF l], rule filter_is_subset)
  then show ?case using f_sweep(3) by (simp add: histInv_def)
next
  case (f_fill s sc r data key now)
  let ?s = "s\<lparr>seg := Some (putFull sc now key data (Some (RHeader r)) (StatusCode r))\<rparr>"
  let ?t = "logAnswer key r ?s"
  have F: "fetched s \<subseteq> fetched ?t" "(key, data, RHeader r, StatusCode r) \<in> fetched ?t"
    using logAnswer_log(1) [of ?s key r] logAnswer_log(2) [OF readSegment_genuine [OF f_fill(4)], of key] by simp_all
  have "cacheOk (fetched ?t) (Some sc)" using f_fill(1,6) cacheOk_mono [OF _ F(1)] by (simp add: histInv_def)
  from cacheOk_put [OF this F(2), of now] have "cacheOk (fetched ?t) (seg ?t)" by simp
  then show ?case
    by (intro histInv_same [OF f_fill(6) F(1), where p = 0 and x = "proc s 0"])
      (use f_fill(6) resultOk_mono [OF _ F(1)] in \<open>simp_all add: histInv_def\<close>)
qed (rule histInv_same, assumption, simp, simp add: histInv_def, simp, simp, simp, simp, simp, simp)+

section \<open>The budget inside\<close>

text \<open>The reservation a process owns: granted or awaited, its identity and its bytes.\<close>

fun tokenOf :: "fproc \<Rightarrow> (bool \<times> nat \<times> int) option" where
  "tokenOf (PRead k role r i) = Some (True, i, segmentReservation (ContentLength r))"
| "tokenOf (PWait k role r i) = Some (False, i, segmentReservation (ContentLength r))"
| "tokenOf _ = None"

lemma tokenOf_end [simp]: "tokenOf (case role of None \<Rightarrow> PDone key r | Some c \<Rightarrow> PFinish key c r) = None"
  by (cases role) simp_all

definition owners :: "bsys \<Rightarrow> (nat \<Rightarrow> (bool \<times> nat \<times> int) option) \<Rightarrow> bool" where
  "owners b tk \<longleftrightarrow>
     (\<forall>p h i n. tk p = Some (h, i, n) \<longrightarrow> i < fresh b \<and> (if h then holds b i = Some n else blocked b i = Some n)) \<and>
     (\<forall>p q h h' i n n'. tk p = Some (h, i, n) \<and> tk q = Some (h', i, n') \<longrightarrow> p = q) \<and>
     (\<forall>i n. holds b i = Some n \<longrightarrow> (\<exists>p. tk p = Some (True, i, n))) \<and>
     (\<forall>i n. blocked b i = Some n \<longrightarrow> (\<exists>p. tk p = Some (False, i, n)))"

definition budgInv :: "fsys \<Rightarrow> bool" where
  "budgInv s \<longleftrightarrow> reach budget_start budget_step (budg s) \<and> owners (budg s) (tokenOf \<circ> proc s)"

lemma budgInv_same:
  assumes "budgInv s" "budg t = budg s" "proc t = (proc s)(p := x)" "tokenOf x = tokenOf (proc s p)"
  shows "budgInv t"
proof -
  have "tokenOf \<circ> proc t = tokenOf \<circ> proc s" using assms(3,4) by (auto simp: fun_eq_iff)
  then show ?thesis using assms(1,2) by (simp add: budgInv_def)
qed

lemma budgInv_change:
  assumes "budgInv s" "budget_step (budg s) (budg t)" "proc t = (proc s)(p := x)"
    "owners (budg s) (tokenOf \<circ> proc s) \<Longrightarrow> owners (budg t) ((tokenOf \<circ> proc s)(p := tokenOf x))"
  shows "budgInv t"
proof -
  have "tokenOf \<circ> proc t = (tokenOf \<circ> proc s)(p := tokenOf x)" using assms(3) by (auto simp: fun_eq_iff)
  then show ?thesis using assms(1,2,4) by (auto simp: budgInv_def intro: reach_step)
qed

lemma owners_new:
  assumes o: "owners b tk" and tk: "tk p = None" and b': "fresh b' = Suc (fresh b)"
    "holds b' = (if h then (holds b)(fresh b \<mapsto> n) else holds b)" "blocked b' = (if h then blocked b else (blocked b)(fresh b \<mapsto> n))"
  shows "owners b' (tk(p := Some (h, fresh b, n)))"
proof -
  have lt: "i < fresh b" if "tk q = Some (h', i, n')" for q h' i n' using o that unfolding owners_def by blast
  have own: "tk q = Some (h', i, n') \<Longrightarrow> if h' then holds b i = Some n' else blocked b i = Some n'" for q h' i n'
    using o unfolding owners_def by blast
  have uniq: "tk q = Some (h1, i, n1) \<Longrightarrow> tk q' = Some (h2, i, n2) \<Longrightarrow> q = q'" for q q' h1 h2 i n1 n2 using o unfolding owners_def by blast
  have ho: "holds b i = Some m \<Longrightarrow> \<exists>q. tk q = Some (True, i, m)" "blocked b i = Some m \<Longrightarrow> \<exists>q. tk q = Some (False, i, m)" for i m
    using o unfolding owners_def by blast+
  show ?thesis
    unfolding owners_def b'
  proof (intro conjI allI impI)
    fix q h' i n'
    assume a: "(tk(p := Some (h, fresh b, n))) q = Some (h', i, n')"
    show "i < Suc (fresh b)" using a lt by (auto split: if_splits simp: less_Suc_eq)
    show "if h' then (if h then (holds b)(fresh b \<mapsto> n) else holds b) i = Some n'
        else (if h then blocked b else (blocked b)(fresh b \<mapsto> n)) i = Some n'"
      using a own [of q h' i n'] lt [of q h' i n'] by (auto split: if_splits)
  next
    fix q q' h1 h2 i n1 n2
    assume "(tk(p := Some (h, fresh b, n))) q = Some (h1, i, n1) \<and> (tk(p := Some (h, fresh b, n))) q' = Some (h2, i, n2)"
    then show "q = q'" using uniq [of q h1 i n1 q' h2 n2] lt [of q h1 i n1] lt [of q' h2 i n2] by (auto split: if_splits)
  next
    fix i m
    assume a: "(if h then (holds b)(fresh b \<mapsto> n) else holds b) i = Some m"
    show "\<exists>q. (tk(p := Some (h, fresh b, n))) q = Some (True, i, m)"
    proof (cases "h \<and> i = fresh b")
      case True
      then show ?thesis using a by auto
    next
      case False
      then have "holds b i = Some m" using a by (auto split: if_splits)
      then obtain q where "tk q = Some (True, i, m)" using ho(1) by blast
      then show ?thesis using tk by (intro exI [of _ q]) auto
    qed
  next
    fix i m
    assume a: "(if h then blocked b else (blocked b)(fresh b \<mapsto> n)) i = Some m"
    show "\<exists>q. (tk(p := Some (h, fresh b, n))) q = Some (False, i, m)"
    proof (cases "\<not> h \<and> i = fresh b")
      case True
      then show ?thesis using a by auto
    next
      case False
      then have "blocked b i = Some m" using a by (auto split: if_splits)
      then obtain q where "tk q = Some (False, i, m)" using ho(2) by blast
      then show ?thesis using tk by (intro exI [of _ q]) auto
    qed
  qed
qed

lemma owners_move:
  assumes o: "owners b tk" and tk: "tk p = Some (h, i, n)" and x: "x = None \<or> x = Some (True, i, n)" and b': "fresh b' = fresh b"
    "holds b' = (holds b)(i := (if x = None then None else Some n))" "blocked b' = (if h then blocked b else (blocked b)(i := None))"
    "h \<Longrightarrow> x = None"
  shows "owners b' (tk(p := x))"
proof -
  have lt: "j < fresh b" if "tk q = Some (h', j, n')" for q h' j n' using o that unfolding owners_def by blast
  have own: "tk q = Some (h', j, n') \<Longrightarrow> if h' then holds b j = Some n' else blocked b j = Some n'" for q h' j n'
    using o unfolding owners_def by blast
  have uniq: "tk q = Some (h1, j, n1) \<Longrightarrow> tk q' = Some (h2, j, n2) \<Longrightarrow> q = q'" for q q' h1 h2 j n1 n2 using o unfolding owners_def by blast
  have mine: "tk q = Some (h', i, n') \<Longrightarrow> q = p" for q h' n' using uniq [OF _ tk] by blast
  have ho: "holds b j = Some m \<Longrightarrow> \<exists>q. tk q = Some (True, j, m)" "blocked b j = Some m \<Longrightarrow> \<exists>q. tk q = Some (False, j, m)" for j m
    using o unfolding owners_def by blast+
  have nh: "blocked b i \<noteq> Some m" if h for m using ho(2) [of i m] mine tk that by fastforce
  show ?thesis
    unfolding owners_def b'(1-3)
  proof (intro conjI allI impI)
    fix q h' j n'
    assume a: "(tk(p := x)) q = Some (h', j, n')"
    show "j < fresh b" using a lt tk x by (auto split: if_splits)
    show "if h' then ((holds b)(i := (if x = None then None else Some n))) j = Some n'
        else (if h then blocked b else (blocked b)(i := None)) j = Some n'"
      using a own [of q h' j n'] mine [of q h' n'] x by (auto split: if_splits)
  next
    fix q q' h1 h2 j n1 n2
    assume "(tk(p := x)) q = Some (h1, j, n1) \<and> (tk(p := x)) q' = Some (h2, j, n2)"
    then show "q = q'" using uniq [of q h1 j n1 q' h2 n2] mine [of q h1 n1] mine [of q' h2 n2] x by (auto split: if_splits)
  next
    fix j m
    assume a: "((holds b)(i := (if x = None then None else Some n))) j = Some m"
    show "\<exists>q. (tk(p := x)) q = Some (True, j, m)"
    proof (cases "j = i")
      case True
      then show ?thesis using a x by (intro exI [of _ p]) (auto split: if_splits)
    next
      case False
      then obtain q where "tk q = Some (True, j, m)" using a ho(1) by auto
      then show ?thesis using False tk by (intro exI [of _ q]) auto
    qed
  next
    fix j m
    assume a: "(if h then blocked b else (blocked b)(i := None)) j = Some m"
    then have j: "j \<noteq> i" "blocked b j = Some m" using nh [of m] by (auto split: if_splits)
    then obtain q where "tk q = Some (False, j, m)" using ho(2) by blast
    then show "\<exists>q. (tk(p := x)) q = Some (False, j, m)" using j(1) tk by (intro exI [of _ q]) auto
  qed
qed

lemma reservation_nonneg: "0 \<le> segmentReservation n"
  by (simp add: segmentReservation_def maxSegmentBytes_def)

lemma reserve_err: "fetchReserve b i resp w = (Some e, a, b') \<Longrightarrow> b' = b"
  by (auto simp: fetchReserve_def reserveInflight_def acquire_def tryAcquire_def split: option.splits if_splits prod.splits acquire_result.splits)

lemma reserve_ok:
  assumes "fetchReserve (bud s) (fresh s) (Some r) w = (None, a, b)" "n = segmentReservation (ContentLength r)"
  shows "a = Acquired \<Longrightarrow> budget_step s (s\<lparr>bud := b, holds := (holds s)(fresh s \<mapsto> n), fresh := Suc (fresh s)\<rparr>)"
    "a = Blocked i \<Longrightarrow> i = fresh s \<and> budget_step s (s\<lparr>bud := b, blocked := (blocked s)(i \<mapsto> n), fresh := Suc (fresh s)\<rparr>)"
proof -
  have r: "reserveInflight (bud s) (fresh s) n w = (a, b)"
    using assms by (auto simp: fetchReserve_def split: if_splits prod.splits acquire_result.splits)
  have n: "0 \<le> n" using reservation_nonneg assms(2) by simp
  show "budget_step s (s\<lparr>bud := b, holds := (holds s)(fresh s \<mapsto> n), fresh := Suc (fresh s)\<rparr>)" if "a = Acquired"
  proof (cases w)
    case True
    then show ?thesis using r n that acq_ok [of n s b] by (simp add: reserveInflight_def)
  next
    case False
    then have "tryAcquire (bud s) n = (True, b)" using r that by (auto simp: reserveInflight_def split: prod.splits bool.splits)
    then show ?thesis using n try_ok [of n s b] by simp
  qed
  show "i = fresh s \<and> budget_step s (s\<lparr>bud := b, blocked := (blocked s)(i \<mapsto> n), fresh := Suc (fresh s)\<rparr>)" if "a = Blocked i"
  proof -
    have "acquire (bud s) (fresh s) n = (Blocked i, b)" using r that by (auto simp: reserveInflight_def split: if_splits prod.splits bool.splits)
    moreover from this have "i = fresh s" by (auto simp: acquire_def split: if_splits)
    ultimately show ?thesis using n acq_block [of n s i b] by simp
  qed
qed

lemma budgInv_step: "flight_step s t \<Longrightarrow> budgInv s \<Longrightarrow> budgInv t"
proof (induction rule: flight_step.induct)
  case (f_lead s p key w c t)
  have "budg t = budg s" "proc t = proc s" using f_lead(2) by (auto simp: flightJoin_def split: option.splits)
  then show ?case by (intro budgInv_same [OF f_lead(3), where p = p and x = "PLead key w c"]) (use f_lead(1) in simp_all)
next
  case (f_follow s p key w c t)
  have "t = s" using f_follow(2) by (auto simp: flightJoin_def split: option.splits)
  then show ?case by (intro budgInv_same [OF f_follow(3), where p = p and x = "PFollow key w c"]) (use f_follow(1) in simp_all)
next
  case (f_refuse s p key w role resp e a b)
  have "b = bud (budg s)" by (rule reserve_err [OF f_refuse(2)])
  then show ?case
    by (intro budgInv_same [OF f_refuse(3), where p = p and x = "case role of None \<Rightarrow> PDone key (Inl e) | Some c \<Rightarrow> PFinish key c (Inl e)"])
      (use f_refuse(1) in simp_all)
next
  case (f_reserve s p key w role i r b)
  note st = reserve_ok(1) [OF f_reserve(3) [unfolded f_reserve(2)] refl refl]
  show ?case
  proof (rule budgInv_change [OF f_reserve(4), where p = p and x = "PRead key role r i"])
    assume "owners (budg s) (tokenOf \<circ> proc s)"
    from owners_new [OF this, of p _ True "segmentReservation (ContentLength r)"]
    show "owners (budg (setProc p (PRead key role r i) (s\<lparr>budg := (budg s)\<lparr>bud := b,
        holds := (holds (budg s))(i \<mapsto> segmentReservation (ContentLength r)), fresh := Suc i\<rparr>\<rparr>)))
        ((tokenOf \<circ> proc s)(p := tokenOf (PRead key role r i)))"
      using f_reserve(1) by (simp add: f_reserve(2))
  qed (use st f_reserve(2) in simp_all)
next
  case (f_block s p key w role i r b)
  note st = reserve_ok(2) [OF f_block(3) [unfolded f_block(2)] refl, of i]
  show ?case
  proof (rule budgInv_change [OF f_block(4), where p = p and x = "PWait key role r i"])
    assume "owners (budg s) (tokenOf \<circ> proc s)"
    from owners_new [OF this, of p _ False "segmentReservation (ContentLength r)"]
    show "owners (budg (setProc p (PWait key role r i) (s\<lparr>budg := (budg s)\<lparr>bud := b,
        blocked := (blocked (budg s))(i \<mapsto> segmentReservation (ContentLength r)), fresh := Suc i\<rparr>\<rparr>)))
        ((tokenOf \<circ> proc s)(p := tokenOf (PWait key role r i)))"
      using f_block(1) by (simp add: f_block(2))
  qed (use st f_block(2) in simp_all)
next
  case (f_wake s p key role r i)
  have o: "owners (budg s) (tokenOf \<circ> proc s)" using f_wake(3) by (simp add: budgInv_def)
  have tk: "(tokenOf \<circ> proc s) p = Some (False, i, segmentReservation (ContentLength r))" using f_wake(1) by simp
  then have b: "blocked (budg s) i = Some (segmentReservation (ContentLength r))" using o unfolding owners_def by fastforce
  show ?case
    by (rule budgInv_change [OF f_wake(3), where p = p and x = "PRead key role r i"],
        use acq_wake [OF b f_wake(2)] in simp, simp, rule owners_move [OF o tk]) simp_all
next
  case (f_cancel s p key role r i e b)
  have o: "owners (budg s) (tokenOf \<circ> proc s)" using f_cancel(3) by (simp add: budgInv_def)
  have tk: "(tokenOf \<circ> proc s) p = Some (False, i, segmentReservation (ContentLength r))" using f_cancel(1) by simp
  then have b: "blocked (budg s) i = Some (segmentReservation (ContentLength r))" using o unfolding owners_def by fastforce
  have h: "holds (budg s) i = None"
  proof (rule ccontr)
    assume "holds (budg s) i \<noteq> None"
    then obtain m q where "(tokenOf \<circ> proc s) q = Some (True, i, m)" using o unfolding owners_def by blast
    moreover from this have "q = p" using o tk unfolding owners_def by blast
    ultimately show False using tk by simp
  qed
  show ?case
    by (rule budgInv_change [OF f_cancel(3), where p = p and x = "case role of None \<Rightarrow> PDone key (Inl (BudgetErr e)) | Some c \<Rightarrow> PFinish key c (Inl (BudgetErr e))"],
        use acq_cancel [OF b f_cancel(2)] in simp, simp, rule owners_move [OF o tk]) (use h in \<open>simp_all add: fun_upd_idem\<close>)
next
  case (f_read s p key role r i now x oc b)
  have o: "owners (budg s) (tokenOf \<circ> proc s)" using f_read(3) by (simp add: budgInv_def)
  have tk: "(tokenOf \<circ> proc s) p = Some (True, i, segmentReservation (ContentLength r))" using f_read(1) by simp
  then have h: "holds (budg s) i = Some (segmentReservation (ContentLength r))" using o unfolding owners_def by fastforce
  have b: "b = release (bud (budg s)) (segmentReservation (ContentLength r))"
    using f_read(2) by (auto simp: fetchRead_def Let_def split: sum.splits)
  show ?case
    by (rule budgInv_change [OF f_read(3), where p = p and x = "case role of None \<Rightarrow> PDone key x | Some c \<Rightarrow> PFinish key c x"],
        use rel [OF h] b in simp, simp, rule owners_move [OF o tk]) simp_all
next
  case (f_finish s p key c r)
  show ?case by (rule budgInv_same [OF f_finish(2), where p = p and x = "PDone key r"]) (use f_finish(1) in \<open>simp_all add: flightFinish_def\<close>)
next
  case (f_sweep s sc now)
  then show ?case by (simp add: budgInv_def)
next
  case (f_fill s sc r data key now)
  then show ?case by (simp add: budgInv_def)
qed (rule budgInv_same, assumption, simp, simp, simp)+

definition flightInv :: "fsys \<Rightarrow> bool" where
  "flightInv s \<longleftrightarrow> leadInv s \<and> histInv s \<and> budgInv s"

lemma flightInv_start: "flight_start s \<Longrightarrow> flightInv s"
proof -
  assume a: "flight_start s"
  then obtain b where b: "budget_start b" "flights s = Map.empty" "budg s = b" "proc s = (\<lambda>_. PIdle)" "fdone s = (\<lambda>_. False)"
    unfolding flight_start_def by (metis fsys.simps)
  have "cacheOk (fetched s) (seg s)"
    using a unfolding flight_start_def by (auto simp: cacheOk_def cache_start_def newSegCache_def linked_def split: option.splits)
  moreover have "leadInv s" using b by (simp add: leadInv_def)
  moreover have "holds b = Map.empty" "blocked b = Map.empty" using b(1) by (auto simp: budget_start_def)
  ultimately show ?thesis using b by (auto simp: flightInv_def histInv_def budgInv_def owners_def intro: reach_start)
qed

interpretation flight_sys: inv_system flight_start flight_step flightInv
proof unfold_locales
  fix s t
  assume "flightInv s" "flight_step s t"
  then show "flightInv t" unfolding flightInv_def using leadInv_step histInv_step budgInv_step by blast
qed (rule flightInv_start)

section \<open>Properties\<close>

text \<open>Two requests share a cache key only if they are for the same URL with the same forwarded headers: for header maps
  without NUL, colon and SOH in the wrong places, the bytes that are hashed determine the URL and the set of headers,
  and they do not depend on the order or the spelling of the header names.\<close>

theorem cache_key_exact:
  assumes "keyable h" "keyable h'" "CHR 0x00 \<notin> set u" "CHR 0x00 \<notin> set u'"
  shows "keyBytes u h = keyBytes u' h' \<longleftrightarrow> u = u' \<and> headerSet h = headerSet h'"
  using keyBytes_eq [OF assms] keyPairs_eq [OF assms(1,2)] by (auto simp: keyBytes_def)

text \<open>Header names are not checked before the key is computed, so the separators can be forged: one header whose name
  holds a colon, SOH and NUL gets the key of two ordinary headers.\<close>

theorem cache_key_forged:
  "keyBytes ''http://h/'' [(''X'' @ CHR '':'' # ''a'' @ [CHR 0x01, CHR 0x00] @ ''Y'', [''b''])] =
   keyBytes ''http://h/'' [(''X'', [''a'']), (''Y'', [''b''])]"
  by code_simp

text \<open>C21: Single flight: in every reachable state a key has at most one call in flight, every such call has exactly one
  process responsible for finishing it, and a process waiting for a call finds it finished or finds that process, which
  is not itself waiting for another call: followers are never stranded and never wait in a cycle.\<close>

theorem single_flight:
  assumes "reach flight_start flight_step s"
  shows "(\<forall>k c. flights s k = Some c \<longrightarrow> (\<exists>!p. leadOf (proc s p) = Some (k, c))) \<and>
    (\<forall>p q k c c'. leadOf (proc s p) = Some (k, c) \<and> leadOf (proc s q) = Some (k, c') \<longrightarrow> p = q) \<and>
    (\<forall>p k w c. proc s p = PFollow k w c \<longrightarrow> fdone s c \<or> (\<exists>q. leadOf (proc s q) = Some (k, c) \<and> follows (proc s q) = None))"
proof -
  have I: "leadInv s" using flight_sys.reach_inv [OF assms] by (simp add: flightInv_def)
  have nf: "follows (proc s q) = None" if "leadOf (proc s q) = Some x" for q x using that by (cases "proc s q") auto
  have "p = q" if "leadOf (proc s p) = Some (k, c)" "leadOf (proc s q) = Some (k, c')" for p q k c c'
    using I that unfolding leadInv_def by (metis option.inject)
  moreover have "fdone s c \<or> (\<exists>q. leadOf (proc s q) = Some (k, c) \<and> follows (proc s q) = None)" if "proc s p = PFollow k w c" for p k w c
  proof -
    have "follows (proc s p) = Some (k, c)" using that by simp
    then have "fdone s c \<or> flights s k = Some c" using I unfolding leadInv_def by blast
    then show ?thesis using I nf unfolding leadInv_def by blast
  qed
  ultimately show ?thesis using I unfolding leadInv_def by blast
qed

text \<open>C22: Whatever a shared, cached or own fetch returns is an answer the upstream gave for the same key, and it is whole: its
  headers, its status and, up to the size limit, exactly the bytes the announced length promises, or the entire body when
  none was announced and the body ended without an error. This holds in every interleaving of lookups, joins, failures,
  retries, cancellations, sweeps and cache fills; a truncated or failing body is never returned, shared or cached.\<close>

theorem flight_result_genuine:
  assumes "reach flight_start flight_step s" "proc s p = PDone key (Inr (data, hs, st))"
  shows "\<exists>r. (key, r) \<in> answers s \<and> hs = RHeader r \<and> st = StatusCode r \<and> int (length data) \<le> maxSegmentBytes \<and>
    (if ContentLength r \<ge> 0 then int (length data) = ContentLength r \<and> data = take (length data) (rbody r)
     else data = rbody r \<and> \<not> rfails r)"
proof -
  have "histInv s" using flight_sys.reach_inv [OF assms(1)] by (simp add: flightInv_def)
  then have "resultOk (fetched s) (fres s) (proc s p)" by (simp add: histInv_def)
  then have "(key, data, hs, st) \<in> fetched s" using assms(2) by simp
  then show ?thesis by (auto simp: fetched_def wholeAnswer_def)
qed

text \<open>The fetches keep the in-flight budget's contract: in every reachable state the budget is one its own state machine
  reaches, so it is never exceeded, and once no process is reading or waiting for bytes it is empty.\<close>

theorem flight_budget_returned:
  assumes "reach flight_start flight_step s"
  shows "reach budget_start budget_step (budg s) \<and> 0 \<le> used (bud (budg s)) \<and> used (bud (budg s)) \<le> bmax (bud (budg s)) \<and>
    ((\<forall>p. tokenOf (proc s p) = None) \<longrightarrow> used (bud (budg s)) = 0)"
proof -
  have B: "reach budget_start budget_step (budg s)" "owners (budg s) (tokenOf \<circ> proc s)"
    using flight_sys.reach_inv [OF assms] by (simp_all add: flightInv_def budgInv_def)
  have w: "budget_winv (budg s)" using budget_sys.reach_inv [OF B(1)] by (simp add: budget_inv_def)
  have "used (bud (budg s)) = 0" if "\<forall>p. tokenOf (proc s p) = None"
  proof -
    have "holds (budg s) i = None" "blocked (budg s) i = None" for i
      using B(2) that unfolding owners_def by (metis comp_apply not_None_eq option.distinct(1))+
    then have "outst (budg s) i = 0" for i by (simp add: outst_def)
    then show ?thesis using w by (simp add: budget_winv_def)
  qed
  then show ?thesis using B(1) w used_nonneg [OF w] by (auto simp: budget_winv_def)
qed

section \<open>Witnesses\<close>

text \<open>Two requests miss for the same key; the first leads and fetches three bytes, the second follows.\<close>

definition demoFlight :: fsys where
  "demoFlight = \<lparr>flights = Map.empty, fdone = \<lambda>_. False, fres = \<lambda>_. Inr ([], [], 0), nextCall = 0, seg = Some (newSegCache 100 4),
     budg = \<lparr>bud = newByteBudget 100, holds = Map.empty, blocked = Map.empty, fresh = 0\<rparr>, proc = \<lambda>_. PIdle, ckey = \<lambda>_. [], answers = {}\<rparr>"

definition demoAnswer :: response where
  "demoAnswer = \<lparr>StatusCode = 404, ContentLength = 3, RHeader = [], rbody = [7, 8, 9], rfails = False\<rparr>"

definition demoJoined :: fsys where
  "demoJoined = setProc 1 (PFollow ''k'' True 0) (setProc 0 (PLead ''k'' True 0)
     (demoFlight\<lparr>flights := [''k'' \<mapsto> 0], nextCall := 1, ckey := (\<lambda>_. [])(0 := ''k'')\<rparr>))"

lemma demoJoined_reach: "reach flight_start flight_step demoJoined"
proof -
  have l: "cacheLookup (Some (newSegCache 100 4)) 0 ''k'' = (None, Some (newSegCache 100 4))"
    by (simp add: cacheLookup_def getFull_def newSegCache_def)
  have "flight_start demoFlight"
    unfolding flight_start_def demoFlight_def
    by (auto simp: budget_start_def cache_start_def newSegCache_def defaultCacheMaxBytes_def intro!: exI [of _ 100])
  then have "reach flight_start flight_step demoFlight" by (rule reach_start)
  moreover have "flight_step demoFlight (setProc 0 (PJoin ''k'' True) demoFlight)"
    using f_miss [of demoFlight 0 "''k''" 0 "Some (newSegCache 100 4)" True] l by (simp add: demoFlight_def)
  moreover have "flight_step (setProc 0 (PJoin ''k'' True) demoFlight) (setProc 1 (PJoin ''k'' True) (setProc 0 (PJoin ''k'' True) demoFlight))"
    using f_miss [of "setProc 0 (PJoin ''k'' True) demoFlight" 1 "''k''" 0 "Some (newSegCache 100 4)" True] l
    by (simp add: demoFlight_def setProc_def)
  moreover have "flight_step (setProc 1 (PJoin ''k'' True) (setProc 0 (PJoin ''k'' True) demoFlight))
      (setProc 1 (PJoin ''k'' True) (setProc 0 (PLead ''k'' True 0) (demoFlight\<lparr>flights := [''k'' \<mapsto> 0], nextCall := 1, ckey := (\<lambda>_. [])(0 := ''k'')\<rparr>)))"
    using f_lead [of "setProc 1 (PJoin ''k'' True) (setProc 0 (PJoin ''k'' True) demoFlight)" 0 "''k''" True 0, OF _ _]
    by (simp add: demoFlight_def setProc_def flightJoin_def fun_upd_twist fun_upd_idem)
  moreover have "flight_step (setProc 1 (PJoin ''k'' True) (setProc 0 (PLead ''k'' True 0)
      (demoFlight\<lparr>flights := [''k'' \<mapsto> 0], nextCall := 1, ckey := (\<lambda>_. [])(0 := ''k'')\<rparr>))) demoJoined"
    using f_follow [of "setProc 1 (PJoin ''k'' True) (setProc 0 (PLead ''k'' True 0)
      (demoFlight\<lparr>flights := [''k'' \<mapsto> 0], nextCall := 1, ckey := (\<lambda>_. [])(0 := ''k'')\<rparr>))" 1 "''k''" True 0, OF _ _]
    by (simp add: demoJoined_def setProc_def flightJoin_def)
  ultimately show ?thesis by (meson reach_step)
qed

theorem single_flight_witness:
  "proc demoJoined 1 = PFollow ''k'' True 0 \<and> (\<exists>q. leadOf (proc demoJoined q) = Some (''k'', 0) \<and> follows (proc demoJoined q) = None)"
proof -
  have "proc demoJoined 1 = PFollow ''k'' True 0" "\<not> fdone demoJoined 0" by (simp_all add: demoJoined_def demoFlight_def)
  then show ?thesis using single_flight [OF demoJoined_reach] by blast
qed

definition demoRead :: fsys where
  "demoRead = setProc 0 (PRead ''k'' (Some 0) demoAnswer 0) (demoJoined\<lparr>budg := (budg demoJoined)\<lparr>bud := grant (newByteBudget 100) 3,
     holds := [0 \<mapsto> 3], fresh := 1\<rparr>\<rparr>)"

lemma demoRead_reach: "reach flight_start flight_step demoRead"
proof -
  have l: "cacheLookup (Some (newSegCache 100 4)) 0 ''k'' = (None, Some (newSegCache 100 4))"
    by (simp add: cacheLookup_def getFull_def newSegCache_def)
  have "flight_step demoJoined (setProc 0 (PFetch ''k'' True (Some 0)) demoJoined)"
    using f_fetch [of demoJoined 0 "''k''" True 0 0 "Some (newSegCache 100 4)"] l by (simp add: demoJoined_def demoFlight_def setProc_def)
  moreover have "flight_step (setProc 0 (PFetch ''k'' True (Some 0)) demoJoined) demoRead"
    using f_reserve [of "setProc 0 (PFetch ''k'' True (Some 0)) demoJoined" 0 "''k''" True "Some 0" 0 demoAnswer "grant (newByteBudget 100) 3"]
    by (simp add: demoRead_def demoJoined_def demoFlight_def setProc_def fetchReserve_def reserveInflight_def acquire_def demoAnswer_def
        maxSegmentBytes_def segmentReservation_def newByteBudget_def)
  ultimately show ?thesis using demoJoined_reach by (meson reach_step)
qed

theorem flight_budget_returned_witness:
  "used (bud (budg demoRead)) = 3 \<and> used (bud (budg demoRead)) \<le> bmax (bud (budg demoRead)) \<and> used (bud (budg demoJoined)) = 0"
proof -
  have "\<forall>p. tokenOf (proc demoJoined p) = None" by (simp add: demoJoined_def demoFlight_def)
  then show ?thesis
    using flight_budget_returned [OF demoRead_reach] flight_budget_returned [OF demoJoined_reach]
    by (simp add: demoRead_def grant_def newByteBudget_def Let_def)
qed

theorem flight_result_genuine_witness:
  "\<exists>s. reach flight_start flight_step s \<and> proc s 0 = PDone ''k'' (Inr ([7, 8, 9], [], 404)) \<and> 
     (\<exists>r. (''k'', r) \<in> answers s \<and> StatusCode r = 404 \<and> [7, 8, 9] = take 3 (rbody r))"
proof -
  let ?x = "Inr ([7, 8, 9], [], 404) :: fetch_res"
  have r: "fetchRead (seg demoRead) (bud (budg demoRead)) 0 ''k'' demoAnswer = (?x, seg demoRead, release (bud (budg demoRead)) 3)"
    by (simp add: fetchRead_def readSegment_def demoAnswer_def maxSegmentBytes_def segmentReservation_def eval_nat_numeral)
  have p: "proc demoRead 0 = PRead ''k'' (Some 0) demoAnswer 0" by (simp add: demoRead_def)
  define s1 where "s1 = endFetch 0 ''k'' (Some 0) ?x (logAnswer ''k'' demoAnswer (demoRead\<lparr>seg := seg demoRead,
      budg := (budg demoRead)\<lparr>bud := release (bud (budg demoRead)) 3, holds := (holds (budg demoRead))(0 := None)\<rparr>\<rparr>))"
  have r1: "reach flight_start flight_step s1" unfolding s1_def by (rule reach_step [OF demoRead_reach f_read [OF p r]])
  have "proc s1 0 = PFinish ''k'' 0 ?x" by (simp add: s1_def)
  from reach_step [OF r1 f_finish [OF this]]
  have r2: "reach flight_start flight_step (setProc 0 (PDone ''k'' ?x) (flightFinish ''k'' 0 s1))" .
  have d: "proc (setProc 0 (PDone ''k'' ?x) (flightFinish ''k'' 0 s1)) 0 = PDone ''k'' (Inr ([7, 8, 9], [], 404))" by simp
  have "\<exists>r. (''k'', r) \<in> answers (setProc 0 (PDone ''k'' ?x) (flightFinish ''k'' 0 s1)) \<and> StatusCode r = 404 \<and>
      [7, 8, 9] = take 3 (rbody r)"
    using flight_result_genuine [OF r2 d]
  proof (elim exE conjE)
    fix r
    assume a: "(''k'', r) \<in> answers (setProc 0 (PDone ''k'' ?x) (flightFinish ''k'' 0 s1))"
    then have "r = demoAnswer"
      by (simp add: s1_def flightFinish_def logAnswer_def demoRead_def demoJoined_def demoFlight_def)
    with a show ?thesis by (intro exI [of _ r]) (simp add: demoAnswer_def)
  qed
  with r2 d show ?thesis by blast
qed

theorem cache_key_exact_witness:
  "keyBytes ''http://h/'' [(''b'', [''1'']), (''A'', [''2''])] = keyBytes ''http://h/'' [(''A'', [''2'']), (''B'', [''1''])] \<and>
   keyBytes ''http://h/'' [(''A'', [''2''])] \<noteq> keyBytes ''http://h/'' [(''A'', [''3''])]"
proof -
  have k: "keyable [(''b'', [''1'']), (''A'', [''2''])]" "keyable [(''A'', [''2'']), (''B'', [''1''])]" "keyable [(''A'', [''2''])]" "keyable [(''A'', [''3''])]"
    by code_simp+
  have c: "CanonicalHeaderKey ''b'' = ''B''" "CanonicalHeaderKey ''A'' = ''A''" "CanonicalHeaderKey ''B'' = ''B''" by code_simp+
  have u: "CHR 0x00 \<notin> set ''http://h/''" by simp
  have h: "headerSet (p # h) = (if snd p = [] then headerSet h else insert (CanonicalHeaderKey (fst p), snd p) (headerSet h))" "headerSet [] = {}" for p h
    by (cases p, auto simp: headerSet_def)
  show ?thesis
    using cache_key_exact [OF k(1,2) u u] cache_key_exact [OF k(3,4) u u] by (simp add: h c insert_commute)
qed

end
