(* ===== verification/Dash_Rewrite.thy ===== *)
theory Dash_Rewrite
  imports Proxy_Auth
begin

text \<open>
  \<open>streamproxy/dash.go\<close>: rewriting an MPEG-DASH manifest so that its URLs go through the proxy. The XML tokeniser is a
  parameter that delivers the tokens of the document with the bytes each was read from; the rewriter is the code's stack
  machine over them. It is shown to implement a recursive rewriting of the element tree.
\<close>

section \<open>URLs\<close>

definition resolveURL :: "string \<Rightarrow> string \<Rightarrow> string" where
  "resolveURL base ref =
     (case urlParse base of
        None \<Rightarrow> ref
      | Some b \<Rightarrow> (case urlParse ref of None \<Rightarrow> ref | Some rv \<Rightarrow> urlString (ResolveReference b rv)))"

text \<open>\<open>strings.ReplaceAll\<close> of a non-empty pattern.\<close>

function replaceAll :: "string \<Rightarrow> string \<Rightarrow> string \<Rightarrow> string" where
  "replaceAll old new [] = []"
| "replaceAll old new (c # s) =
     (if old \<noteq> [] \<and> hasPrefix old (c # s) then new @ replaceAll old new (drop (length old) (c # s))
      else c # replaceAll old new s)"
  by pat_completeness auto
termination by (relation "measure (\<lambda>(old, new, s). length s)") (auto simp: neq_Nil_conv)

definition dashQueryEscape :: "string \<Rightarrow> string" where
  "dashQueryEscape s = replaceAll ''%29'' '')'' (replaceAll ''%28'' ''('' (replaceAll ''%24'' ''$'' (QueryEscape s)))"

definition dashTemplateTokenParams :: "string \<Rightarrow> (string \<times> string) list" where
  "dashTemplateTokenParams absu =
     (let pre = fst (cutAt (CHR ''$'') absu)
      in case splitStr ''://'' [] pre of
           None \<Rightarrow> []
         | Some (_, r) \<Rightarrow> if CHR ''/'' \<in> set (drop 3 r) then [(tokenDestPrefixParam, pre)] else [])"

definition dashBuildTemplateURL :: "Config \<Rightarrow> signer \<Rightarrow> byte list option \<Rightarrow> string \<Rightarrow> string \<Rightarrow> Options option \<Rightarrow> string" where
  "dashBuildTemplateURL cfg sg rnd ext absu oo =
     ext @ ''/proxy/stream?d='' @ dashQueryEscape absu @
     (case oo of
        None \<Rightarrow> []
      | Some opts \<Rightarrow>
          headerParts ''&h_'' (ReqHeaders opts) @ headerParts ''&r_'' (RespHeaders opts) @
          (if APIPassword opts \<noteq> [] then ''&api_password='' @ QueryEscape (APIPassword opts)
           else (let tok = subToken cfg sg rnd oo ''/proxy/stream'' (dashTemplateTokenParams absu)
                 in if tok \<noteq> [] then ''&token='' @ QueryEscape tok else [])) @
          (if Proxy opts \<noteq> [] then ''&proxy='' @ QueryEscape (Proxy opts) else []))"

section \<open>The rewriter\<close>

text \<open>Names are prefix and local part; attributes are names with their decoded values.\<close>

type_synonym xname = "string \<times> string"

datatype xtoken = StartElement xname "(xname \<times> string) list" | EndElement xname | CharData string | OtherToken

definition dashQName :: "xname \<Rightarrow> string" where
  "dashQName n = (if fst n = [] then snd n else fst n @ '':'' @ snd n)"

text \<open>\<open>xml.EscapeText\<close> on valid text.\<close>

definition escapeXmlC :: "char \<Rightarrow> string" where
  "escapeXmlC c =
     (if c = CHR 0x22 then ''&#34;'' else if c = CHR 0x27 then ''&#39;'' else if c = CHR ''&'' then ''&amp;''
      else if c = CHR ''<'' then ''&lt;'' else if c = CHR ''>'' then ''&gt;''
      else if c = CHR 0x09 then ''&#x9;'' else if c = CHR 0x0A then ''&#xA;'' else if c = CHR 0x0D then ''&#xD;''
      else if ch c < 32 then [CHR 0xEF, CHR 0xBF, CHR 0xBD] else [c])"

definition EscapeText :: "string \<Rightarrow> string" where
  "EscapeText s = concat (map escapeXmlC s)"

datatype attrKind = KeepAttr | TemplateAttr | PlainAttr

definition attrKindOf :: "string \<Rightarrow> string \<Rightarrow> string \<Rightarrow> attrKind" where
  "attrKindOf elem attr v =
     (if elem = ''SegmentTemplate'' then (if attr \<in> {''initialization'', ''media''} then TemplateAttr else KeepAttr)
      else if elem = ''SegmentURL'' then (if attr \<in> {''media'', ''index''} \<and> v \<noteq> [] then PlainAttr else KeepAttr)
      else if elem = ''Initialization'' then (if attr = ''sourceURL'' then PlainAttr else KeepAttr)
      else KeepAttr)"

text \<open>\<open>mk\<close> builds the proxy URL of the \<open>n\<close>-th rewritten reference.\<close>

type_synonym urlMaker = "attrKind \<Rightarrow> nat \<Rightarrow> string \<Rightarrow> string"

fun rewriteAttrs :: "urlMaker \<Rightarrow> string \<Rightarrow> string \<Rightarrow> nat \<Rightarrow> (xname \<times> string) list \<Rightarrow> (xname \<times> string) list \<times> bool \<times> nat" where
  "rewriteAttrs mk base elem n [] = ([], False, n)"
| "rewriteAttrs mk base elem n ((nm, v) # as) =
     (case attrKindOf elem (snd nm) v of
        KeepAttr \<Rightarrow> (case rewriteAttrs mk base elem n as of (as', chg, n') \<Rightarrow> ((nm, v) # as', chg, n'))
      | k \<Rightarrow> (case rewriteAttrs mk base elem (Suc n) as of (as', _, n') \<Rightarrow> ((nm, mk k n (resolveURL base v)) # as', True, n')))"

definition startTag :: "xname \<Rightarrow> (xname \<times> string) list \<Rightarrow> string \<Rightarrow> string" where
  "startTag nm as raw =
     ''<'' @ dashQName nm @ concat (map (\<lambda>(a, v). '' '' @ dashQName a @ [CHR ''='', CHR 0x22] @ EscapeText v @ [CHR 0x22]) as)
     @ (if take 2 (rev raw) = ''>/'' then ''/'' else []) @ ''>''"

text \<open>The output of a start tag: verbatim unless an attribute was rewritten.\<close>

definition startOut :: "urlMaker \<Rightarrow> string \<Rightarrow> nat \<Rightarrow> xname \<Rightarrow> (xname \<times> string) list \<Rightarrow> string \<Rightarrow> string \<times> nat" where
  "startOut mk base n nm as raw =
     (case rewriteAttrs mk base (snd nm) n as of (as', changed, n') \<Rightarrow> (if changed then startTag nm as' raw else raw, n'))"

text \<open>The machine's state; the stacks have their top first. \<open>Err ()\<close> stands for returning the document unchanged.\<close>

record dstate =
  dbuf :: string
  inBaseURL :: bool
  dstack :: "string list"
  bases :: "string list"
  baseSet :: "bool list"
  built :: nat

fun dashTok :: "urlMaker \<Rightarrow> dstate \<Rightarrow> xtoken \<times> string \<Rightarrow> (unit, dstate) outcome" where
  "dashTok mk s (StartElement nm as, raw) =
     (case bases s of
        [] \<Rightarrow> Panic
      | b # _ \<Rightarrow>
          (case startOut mk b (built s) nm as raw of
             (out, n) \<Rightarrow>
               Ok (s\<lparr>dstack := dashQName nm # dstack s, bases := b # bases s, baseSet := False # baseSet s,
                     inBaseURL := (snd nm = ''BaseURL'' \<or> inBaseURL s), dbuf := dbuf s @ out, built := n\<rparr>)))"
| "dashTok mk s (EndElement nm, raw) =
     (case dstack s of
        [] \<Rightarrow> Err ()
      | q # qs \<Rightarrow>
          if q \<noteq> dashQName nm then Err ()
          else Ok (s\<lparr>inBaseURL := False, dstack := qs, bases := tl (bases s), baseSet := tl (baseSet s), dbuf := dbuf s @ raw\<rparr>))"
| "dashTok mk s (CharData txt, raw) =
     (let trimmed = trimSpace txt
      in if inBaseURL s \<and> trimmed \<noteq> [] then
           (case (bases s, baseSet s) of
              (b # parent # bs, f # set0 # fs) \<Rightarrow>
                (let absu = resolveURL parent trimmed
                 in Ok (s\<lparr>bases := b # (if set0 then parent else absu) # bs, baseSet := f # True # fs, inBaseURL := False,
                          dbuf := dbuf s @ EscapeText (mk PlainAttr (built s) absu), built := Suc (built s)\<rparr>))
            | _ \<Rightarrow> Panic)
         else Ok (s\<lparr>dbuf := dbuf s @ raw\<rparr>))"
| "dashTok mk s (OtherToken, raw) = Ok (s\<lparr>dbuf := dbuf s @ raw\<rparr>)"

fun dashLoop :: "urlMaker \<Rightarrow> dstate \<Rightarrow> (xtoken \<times> string) list \<Rightarrow> (unit, dstate) outcome" where
  "dashLoop mk s [] = Ok s"
| "dashLoop mk s (t # ts) = bnd (dashTok mk s t) (\<lambda>s'. dashLoop mk s' ts)"

definition dashStart :: "string \<Rightarrow> dstate" where
  "dashStart dest = \<lparr>dbuf = [], inBaseURL = False, dstack = [], bases = [dest], baseSet = [False], built = 0\<rparr>"

definition dashMaker :: "Config \<Rightarrow> signer \<Rightarrow> (nat \<Rightarrow> byte list option) \<Rightarrow> string \<Rightarrow> Options \<Rightarrow> urlMaker" where
  "dashMaker cfg sg rnd ext opts k n absu =
     (if k = TemplateAttr then dashBuildTemplateURL cfg sg (rnd n) ext absu (Some opts)
      else buildProxyURL cfg sg (rnd n) ext ''/proxy/stream'' absu (Some opts))"

text \<open>\<open>tokenize\<close> gives the tokens up to the end or the first error; at the end, \<open>Some\<close> of the bytes after the last token.\<close>

definition dashRewrite :: "(string \<Rightarrow> (xtoken \<times> string) list \<times> string option) \<Rightarrow> urlMaker \<Rightarrow> string \<Rightarrow> string \<Rightarrow> (unit, string) outcome" where
  "dashRewrite tokenize mk dest mpd =
     (case tokenize mpd of
        (ts, fin) \<Rightarrow>
          (case dashLoop mk (dashStart dest) ts of
             Panic \<Rightarrow> Panic
           | Err _ \<Rightarrow> Ok mpd
           | Ok s \<Rightarrow> (case fin of None \<Rightarrow> Ok mpd | Some rest \<Rightarrow> if dstack s \<noteq> [] then Ok mpd else Ok (dbuf s @ rest))))"

section \<open>The element tree\<close>

datatype xnode = XElem xname "(xname \<times> string) list" string "xnode list" string | XText string string | XOther string

fun flat :: "xnode \<Rightarrow> (xtoken \<times> string) list" and flats :: "xnode list \<Rightarrow> (xtoken \<times> string) list" where
  "flat (XElem nm as raw kids raw') = (StartElement nm as, raw) # flats kids @ [(EndElement nm, raw')]"
| "flat (XText t raw) = [(CharData t, raw)]"
| "flat (XOther raw) = [(OtherToken, raw)]"
| "flats [] = []"
| "flats (x # xs) = flat x @ flats xs"

text \<open>What the machine does, as a recursion over the tree: the content of a \<open>BaseURL\<close> element is replaced and, for the first
  one of an element, becomes the base of everything after it in that element; other elements inherit the base.\<close>

fun rawOf :: "xnode \<Rightarrow> string" where
  "rawOf (XText t raw) = raw"
| "rawOf (XOther raw) = raw"
| "rawOf (XElem nm as raw kids raw') = raw"

fun baseKids :: "urlMaker \<Rightarrow> string \<Rightarrow> nat \<Rightarrow> xnode list \<Rightarrow> string \<times> string option" where
  "baseKids mk base n [] = ([], None)"
| "baseKids mk base n (XText t raw # ks) =
     (if trimSpace t \<noteq> [] then
        (let absu = resolveURL base (trimSpace t) in (EscapeText (mk PlainAttr n absu) @ concat (map rawOf ks), Some absu))
      else (case baseKids mk base n ks of (out, r) \<Rightarrow> (raw @ out, r)))"
| "baseKids mk base n (k # ks) = (case baseKids mk base n ks of (out, r) \<Rightarrow> (rawOf k @ out, r))"

fun rewriteNode :: "urlMaker \<Rightarrow> string \<times> bool \<times> nat \<Rightarrow> xnode \<Rightarrow> string \<times> string \<times> bool \<times> nat"
  and rewriteNodes :: "urlMaker \<Rightarrow> string \<times> bool \<times> nat \<Rightarrow> xnode list \<Rightarrow> string \<times> string \<times> bool \<times> nat" where
  "rewriteNode mk (base, fixed, n) (XElem nm as raw kids raw') =
     (if snd nm = ''BaseURL'' then
        (case baseKids mk base n kids of
           (out, None) \<Rightarrow> (raw @ out @ raw', base, fixed, n)
         | (out, Some absu) \<Rightarrow> (raw @ out @ raw', if fixed then base else absu, True, Suc n))
      else
        (case startOut mk base n nm as raw of
           (tag, n1) \<Rightarrow>
             (case rewriteNodes mk (base, False, n1) kids of (out, _, _, n2) \<Rightarrow> (tag @ out @ raw', base, fixed, n2))))"
| "rewriteNode mk st (XText t raw) = (raw, st)"
| "rewriteNode mk st (XOther raw) = (raw, st)"
| "rewriteNodes mk st [] = ([], st)"
| "rewriteNodes mk st (x # xs) =
     (case rewriteNode mk st x of (o1, st1) \<Rightarrow> (case rewriteNodes mk st1 xs of (o2, st2) \<Rightarrow> (o1 @ o2, st2)))"

text \<open>\<open>BaseURL\<close> elements hold no elements.\<close>

fun leaf :: "xnode \<Rightarrow> bool" where
  "leaf (XElem nm as raw kids raw') = False"
| "leaf _ = True"

fun wfNode :: "xnode \<Rightarrow> bool" where
  "wfNode (XElem nm as raw kids raw') = (if snd nm = ''BaseURL'' then list_all leaf kids else list_all wfNode kids)"
| "wfNode _ = True"

section \<open>The machine implements the tree\<close>

lemma rewriteAttrs_keep: "elem \<notin> {''SegmentTemplate'', ''SegmentURL'', ''Initialization''} \<Longrightarrow> rewriteAttrs mk base elem n as = (as, False, n)"
  by (induction mk base elem n as rule: rewriteAttrs.induct) (auto simp: attrKindOf_def)

lemma startOut_keep: "snd nm \<notin> {''SegmentTemplate'', ''SegmentURL'', ''Initialization''} \<Longrightarrow> startOut mk base n nm as raw = (raw, n)"
  by (simp add: startOut_def rewriteAttrs_keep)

lemma leaves_out: "list_all leaf ks \<Longrightarrow> \<not> inBaseURL s \<Longrightarrow>
    dashLoop mk s (flats ks @ ts) = dashLoop mk (s\<lparr>dbuf := dbuf s @ concat (map rawOf ks)\<rparr>) ts"
proof (induction ks arbitrary: s)
  case (Cons k ks)
  then show ?case by (cases k) (simp_all add: Let_def)
qed simp

definition afterBase :: "dstate \<Rightarrow> string \<Rightarrow> string option \<Rightarrow> dstate" where
  "afterBase s out r =
     (case r of
        None \<Rightarrow> s\<lparr>dbuf := dbuf s @ out\<rparr>
      | Some absu \<Rightarrow>
          s\<lparr>dbuf := dbuf s @ out, bases := hd (bases s) # (if baseSet s ! 1 then bases s ! 1 else absu) # drop 2 (bases s),
            baseSet := hd (baseSet s) # True # drop 2 (baseSet s), inBaseURL := False, built := Suc (built s)\<rparr>)"

lemma base_out:
  "list_all leaf ks \<Longrightarrow> inBaseURL s \<Longrightarrow> bases s = c # b # bs \<Longrightarrow> baseSet s = g # f # fs \<Longrightarrow> baseKids mk b (built s) ks = (out, r) \<Longrightarrow>
     dashLoop mk s (flats ks @ ts) = dashLoop mk (afterBase s out r) ts"
proof (induction ks arbitrary: s out)
  case Nil
  then show ?case by (simp add: afterBase_def)
next
  case (Cons k ks)
  show ?case
  proof (cases k)
    case (XElem nm as raw kids raw')
    then show ?thesis using Cons.prems(1) by simp
  next
    case (XText t raw)
    show ?thesis
    proof (cases "trimSpace t = []")
      case True
      obtain out' where o: "baseKids mk b (built s) ks = (out', r)" "out = raw @ out'"
        using Cons.prems(5) XText True by (auto split: prod.splits)
      have "dashLoop mk (s\<lparr>dbuf := dbuf s @ raw\<rparr>) (flats ks @ ts) = dashLoop mk (afterBase (s\<lparr>dbuf := dbuf s @ raw\<rparr>) out' r) ts"
        by (rule Cons.IH) (use Cons.prems o in simp_all)
      then show ?thesis using XText True by (simp add: afterBase_def o(2) Let_def split: option.splits)
    next
      case False
      let ?a = "resolveURL b (trimSpace t)"
      let ?s = "s\<lparr>bases := c # (if f then b else ?a) # bs, baseSet := g # True # fs, inBaseURL := False,
          dbuf := dbuf s @ EscapeText (mk PlainAttr (built s) ?a), built := Suc (built s)\<rparr>"
      have o: "out = EscapeText (mk PlainAttr (built s) ?a) @ concat (map rawOf ks)" "r = Some ?a"
        using Cons.prems(5) XText False by (simp_all add: Let_def)
      have "dashLoop mk s (flats (k # ks) @ ts) = dashLoop mk ?s (flats ks @ ts)"
        using XText False Cons.prems(2-4) by (simp add: Let_def)
      also have "\<dots> = dashLoop mk (?s\<lparr>dbuf := dbuf ?s @ concat (map rawOf ks)\<rparr>) ts"
        by (rule leaves_out) (use Cons.prems(1) in simp_all)
      also have "?s\<lparr>dbuf := dbuf ?s @ concat (map rawOf ks)\<rparr> = afterBase s out r"
        using Cons.prems(3,4) by (intro dstate.equality) (simp_all add: afterBase_def o)
      finally show ?thesis .
    qed
  next
    case (XOther raw)
    obtain out' where o: "baseKids mk b (built s) ks = (out', r)" "out = raw @ out'"
      using Cons.prems(5) XOther by (auto split: prod.splits)
    have "dashLoop mk (s\<lparr>dbuf := dbuf s @ raw\<rparr>) (flats ks @ ts) = dashLoop mk (afterBase (s\<lparr>dbuf := dbuf s @ raw\<rparr>) out' r) ts"
      by (rule Cons.IH) (use Cons.prems o in simp_all)
    then show ?thesis using XOther by (simp add: afterBase_def o(2) split: option.splits)
  qed
qed

definition moved :: "dstate \<Rightarrow> string \<Rightarrow> string \<times> bool \<times> nat \<Rightarrow> dstate" where
  "moved s out st = s\<lparr>dbuf := dbuf s @ out, bases := fst st # tl (bases s), baseSet := fst (snd st) # tl (baseSet s), built := snd (snd st)\<rparr>"

definition atBase :: "dstate \<Rightarrow> string \<times> bool \<times> nat \<Rightarrow> bool" where
  "atBase s st \<longleftrightarrow> \<not> inBaseURL s \<and> bases s \<noteq> [] \<and> baseSet s \<noteq> [] \<and> st = (hd (bases s), hd (baseSet s), built s)"

lemma atBase_moved: "atBase s st \<Longrightarrow> atBase (moved s out st') st'"
  by (simp add: atBase_def moved_def)

lemma moved_moved: "moved (moved s o1 st1) o2 st2 = moved s (o1 @ o2) st2"
  by (simp add: moved_def)

lemma moved_id: "atBase s st \<Longrightarrow> moved s out st = s\<lparr>dbuf := dbuf s @ out\<rparr>"
  by (auto simp: atBase_def moved_def)

lemma dash_tree:
  "wfNode x \<Longrightarrow> atBase s st \<Longrightarrow> rewriteNode mk st x = (out, st') \<Longrightarrow> dashLoop mk s (flat x @ ts) = dashLoop mk (moved s out st') ts"
  "list_all wfNode xs \<Longrightarrow> atBase s st \<Longrightarrow> rewriteNodes mk st xs = (out, st') \<Longrightarrow> dashLoop mk s (flats xs @ ts) = dashLoop mk (moved s out st') ts"
proof (induction mk st x and mk st xs arbitrary: s out st' ts and s out st' ts rule: rewriteNode_rewriteNodes.induct)
  case (1 mk base fixed n nm as raw kids raw')
  obtain b bs f fs where s: "bases s = b # bs" "baseSet s = f # fs" "base = b" "fixed = f" "n = built s" "\<not> inBaseURL s"
    using 1(3) by (cases "bases s"; cases "baseSet s") (auto simp: atBase_def)
  show ?case
  proof (cases "snd nm = ''BaseURL''")
    case True
    obtain o1 r where k: "baseKids mk base n kids = (o1, r)" by (cases "baseKids mk base n kids") auto
    let ?s = "s\<lparr>dstack := dashQName nm # dstack s, bases := b # bases s, baseSet := False # baseSet s, inBaseURL := True, dbuf := dbuf s @ raw\<rparr>"
    have "dashTok mk s (StartElement nm as, raw) = Ok ?s"
      using True s(1) by (simp add: startOut_keep s(5))
    then have "dashLoop mk s (flat (XElem nm as raw kids raw') @ ts) = dashLoop mk ?s (flats kids @ (EndElement nm, raw') # ts)" by simp
    also have "\<dots> = dashLoop mk (afterBase ?s o1 r) ((EndElement nm, raw') # ts)"
      by (rule base_out [where c = b and b = b and bs = bs and g = False and f = f and fs = fs]) (use 1(2) True k s in simp_all)
    also have "\<dots> = dashLoop mk (moved s out st') ts"
      using 1(4) True k s by (cases s, cases r) (auto simp: afterBase_def moved_def)
    finally show ?thesis .
  next
    case False
    obtain tag n1 where t: "startOut mk base n nm as raw = (tag, n1)" by (cases "startOut mk base n nm as raw") auto
    obtain o1 st1 where k: "rewriteNodes mk (base, False, n1) kids = (o1, st1)" by (cases "rewriteNodes mk (base, False, n1) kids") auto
    let ?s = "s\<lparr>dstack := dashQName nm # dstack s, bases := b # bases s, baseSet := False # baseSet s, dbuf := dbuf s @ tag, built := n1\<rparr>"
    have "dashTok mk s (StartElement nm as, raw) = Ok ?s" using False s t by simp
    then have "dashLoop mk s (flat (XElem nm as raw kids raw') @ ts) = dashLoop mk ?s (flats kids @ (EndElement nm, raw') # ts)" by simp
    also have "\<dots> = dashLoop mk (moved ?s o1 st1) ((EndElement nm, raw') # ts)"
      by (rule 1(1) [OF False t [symmetric]]) (use 1(2) False s k in \<open>simp_all add: atBase_def\<close>)
    also have "\<dots> = dashLoop mk (moved s out st') ts"
      using 1(4) False k t s by (cases s) (auto simp: moved_def split: prod.splits)
    finally show ?thesis .
  qed
next
  case (2 mk st t raw)
  then show ?case using moved_id [OF 2(2)] by (simp add: atBase_def Let_def)
next
  case (3 mk st raw)
  then show ?case using moved_id [OF 3(2)] by simp
next
  case (4 mk st)
  then show ?case using moved_id [OF 4(2), of "[]"] by simp
next
  case (5 mk st x xs)
  obtain o1 st1 where x: "rewriteNode mk st x = (o1, st1)" by (cases "rewriteNode mk st x") auto
  obtain o2 st2 where xs: "rewriteNodes mk st1 xs = (o2, st2)" by (cases "rewriteNodes mk st1 xs") auto
  have r: "out = o1 @ o2" "st' = st2" using 5(5) x xs by simp_all
  have w: "wfNode x" "list_all wfNode xs" using 5(3) by simp_all
  have "dashLoop mk s (flats (x # xs) @ ts) = dashLoop mk s (flat x @ flats xs @ ts)" by simp
  also have "\<dots> = dashLoop mk (moved s o1 st1) (flats xs @ ts)" by (rule 5(1) [OF w(1) 5(4) x])
  also have "\<dots> = dashLoop mk (moved (moved s o1 st1) o2 st2) ts" by (rule 5(2) [OF x [symmetric] w(2) atBase_moved [OF 5(4)] xs])
  finally show ?case by (simp add: moved_moved r)
qed

section \<open>The rewriting of the standard\<close>

text \<open>What a rewritten manifest should be, independently of the machine: the document is cut into literal pieces and
  references, each reference an absolute URL, and the \<open>n\<close>-th reference is replaced by its proxy URL, escaped for XML.\<close>

datatype piece = Lit string | Ref attrKind string

fun render :: "urlMaker \<Rightarrow> nat \<Rightarrow> piece list \<Rightarrow> string" where
  "render mk n [] = []"
| "render mk n (Lit l # ps) = l @ render mk n ps"
| "render mk n (Ref k u # ps) = EscapeText (mk k n u) @ render mk (Suc n) ps"

fun refs :: "piece list \<Rightarrow> nat" where
  "refs [] = 0"
| "refs (Lit l # ps) = refs ps"
| "refs (Ref k u # ps) = Suc (refs ps)"

text \<open>The attributes that hold URLs; the two of \<open>SegmentURL\<close> only when they are not empty.\<close>

definition urlAttr :: "string \<Rightarrow> string \<Rightarrow> string \<Rightarrow> attrKind option" where
  "urlAttr elem attr v =
     (if elem = ''SegmentURL'' \<and> v = [] then None
      else map_of [((''SegmentTemplate'', ''initialization''), TemplateAttr), ((''SegmentTemplate'', ''media''), TemplateAttr),
                   ((''SegmentURL'', ''media''), PlainAttr), ((''SegmentURL'', ''index''), PlainAttr),
                   ((''Initialization'', ''sourceURL''), PlainAttr)] (elem, attr))"

definition attrPieces :: "string \<Rightarrow> string \<Rightarrow> xname \<times> string \<Rightarrow> piece list" where
  "attrPieces base elem = (\<lambda>(a, v).
     [Lit ('' '' @ dashQName a @ [CHR ''='', CHR 0x22]),
      case urlAttr elem (snd a) v of None \<Rightarrow> Lit (EscapeText v) | Some k \<Rightarrow> Ref k (resolveURL base v),
      Lit [CHR 0x22]])"

definition tagPieces :: "string \<Rightarrow> xname \<Rightarrow> (xname \<times> string) list \<Rightarrow> string \<Rightarrow> piece list" where
  "tagPieces base nm as raw =
     (if \<forall>(a, v) \<in> set as. urlAttr (snd nm) (snd a) v = None then [Lit raw]
      else [Lit (''<'' @ dashQName nm)] @ concat (map (attrPieces base (snd nm)) as) @
           [Lit ((if take 2 (rev raw) = ''>/'' then ''/'' else []) @ ''>'')])"

text \<open>The URL of a \<open>BaseURL\<close> element is its first text that is not blank.\<close>

fun firstText :: "xnode list \<Rightarrow> string option" where
  "firstText [] = None"
| "firstText (XText t raw # ks) = (if trimSpace t \<noteq> [] then Some (trimSpace t) else firstText ks)"
| "firstText (_ # ks) = firstText ks"

fun baseText :: "xnode \<Rightarrow> string option" where
  "baseText (XElem nm as raw kids raw') = (if snd nm = ''BaseURL'' then firstText kids else None)"
| "baseText _ = None"

fun isBaseURL :: "xnode \<Rightarrow> bool" where
  "isBaseURL (XElem nm as raw kids raw') = (snd nm = ''BaseURL'')"
| "isBaseURL _ = False"

fun textPieces :: "string \<Rightarrow> xnode list \<Rightarrow> piece list" where
  "textPieces base [] = []"
| "textPieces base (XText t raw # ks) =
     (if trimSpace t \<noteq> [] then Ref PlainAttr (resolveURL base (trimSpace t)) # map (Lit \<circ> rawOf) ks
      else Lit raw # textPieces base ks)"
| "textPieces base (k # ks) = Lit (rawOf k) # textPieces base ks"

text \<open>ISO/IEC 23009-1, 5.6: the base of an element is its \<open>BaseURL\<close> resolved against the base of its parent, or that base
  itself; its children's references are resolved against it, its \<open>BaseURL\<close> and its own attributes against the parent's.\<close>

definition isoBase :: "string \<Rightarrow> xnode list \<Rightarrow> string" where
  "isoBase base kids = (case List.map_filter baseText kids of [] \<Rightarrow> base | t # _ \<Rightarrow> resolveURL base t)"

fun isoNode :: "string \<Rightarrow> xnode \<Rightarrow> piece list" where
  "isoNode base (XElem nm as raw kids raw') =
     (if snd nm = ''BaseURL'' then Lit raw # textPieces base kids @ [Lit raw']
      else tagPieces base nm as raw @ concat (map (\<lambda>k. isoNode (if isBaseURL k then base else isoBase base kids) k) kids) @ [Lit raw'])"
| "isoNode base (XText t raw) = [Lit raw]"
| "isoNode base (XOther raw) = [Lit raw]"

definition isoNodes :: "string \<Rightarrow> xnode list \<Rightarrow> piece list" where
  "isoNodes base kids = concat (map (\<lambda>k. isoNode (if isBaseURL k then base else isoBase base kids) k) kids)"

text \<open>Documents the machine handles as the standard says: the \<open>BaseURL\<close> of an element comes before its references (the
  schema's order), and a further one, an alternative, is a URL that does not depend on which of the two bases it is
  resolved against, such as an absolute one; \<open>quiet\<close> elements hold no reference.\<close>

fun quiet :: "xnode \<Rightarrow> bool" where
  "quiet (XElem nm as raw kids raw') =
     (if snd nm = ''BaseURL'' then firstText kids = None
      else (\<forall>(a, v) \<in> set as. urlAttr (snd nm) (snd a) v = None) \<and> list_all quiet kids)"
| "quiet _ = True"

fun alternative :: "string \<Rightarrow> string \<Rightarrow> string option \<Rightarrow> bool" where
  "alternative base own None = True"
| "alternative base own (Some t) = (resolveURL own t = resolveURL base t)"

definition orderly :: "string \<Rightarrow> xnode list \<Rightarrow> bool" where
  "orderly base kids =
     (case dropWhile quiet kids of
        [] \<Rightarrow> True
      | k # ks \<Rightarrow>
          list_all (\<lambda>x. baseText x = None \<or> baseText k \<noteq> None \<and> alternative base (isoBase base kids) (baseText x)) ks)"

fun isoOk :: "string \<Rightarrow> xnode \<Rightarrow> bool" where
  "isoOk base (XElem nm as raw kids raw') =
     (if snd nm = ''BaseURL'' then list_all leaf kids
      else orderly base kids \<and> list_all (isoOk (isoBase base kids)) kids)"
| "isoOk base _ = True"

lemma render_append: "render mk n (ps @ qs) = render mk n ps @ render mk (n + refs ps) qs"
  by (induction mk n ps rule: render.induct) simp_all

lemma refs_append [simp]: "refs (ps @ qs) = refs ps + refs qs"
  by (induction ps rule: refs.induct) simp_all

lemma render_lits: "render mk n (map (Lit \<circ> f) ks) = concat (map f ks)" "refs (map (Lit \<circ> f) ks) = 0"
  by (induction ks) simp_all

lemma attrKindOf_urlAttr: "attrKindOf elem attr v = (case urlAttr elem attr v of None \<Rightarrow> KeepAttr | Some k \<Rightarrow> k)"
  by (simp add: attrKindOf_def urlAttr_def)

lemma urlAttr_kind: "urlAttr elem attr v = Some k \<Longrightarrow> k \<noteq> KeepAttr"
  by (auto simp: urlAttr_def split: if_splits)

text \<open>The attributes of a start tag, rewritten and printed, are the rendered pieces.\<close>

lemma rewriteAttrs_pieces:
  "rewriteAttrs mk base elem n as = (as', chg, n') \<Longrightarrow>
     concat (map (\<lambda>(a, v). '' '' @ dashQName a @ [CHR ''='', CHR 0x22] @ EscapeText v @ [CHR 0x22]) as') =
       render mk n (concat (map (attrPieces base elem) as)) \<and>
     n' = n + refs (concat (map (attrPieces base elem) as)) \<and>
     (chg \<longleftrightarrow> \<not> (\<forall>(a, v) \<in> set as. urlAttr elem (snd a) v = None))"
proof (induction as arbitrary: n as' chg n')
  case (Cons x as)
  obtain a v where x: "x = (a, v)" by (cases x)
  show ?case
  proof (cases "urlAttr elem (snd a) v")
    case None
    obtain bs c m where t: "rewriteAttrs mk base elem n as = (bs, c, m)" by (cases "rewriteAttrs mk base elem n as")
    show ?thesis using Cons.prems Cons.IH [OF t] None x t by (auto simp: attrKindOf_urlAttr attrPieces_def)
  next
    case (Some k)
    obtain bs c m where t: "rewriteAttrs mk base elem (Suc n) as = (bs, c, m)" by (cases "rewriteAttrs mk base elem (Suc n) as")
    show ?thesis using Cons.prems Cons.IH [OF t] Some x t urlAttr_kind [OF Some]
      by (cases k) (auto simp: attrKindOf_urlAttr attrPieces_def)
  qed
qed simp

lemma rewriteAttrs_quiet:
  "\<forall>(a, v) \<in> set as. urlAttr elem (snd a) v = None \<Longrightarrow> rewriteAttrs mk base elem n as = (as, False, n)"
  by (induction as) (auto simp: attrKindOf_urlAttr)

lemma startOut_pieces:
  "startOut mk base n nm as raw = (render mk n (tagPieces base nm as raw), n + refs (tagPieces base nm as raw))"
proof (cases "\<forall>(a, v) \<in> set as. urlAttr (snd nm) (snd a) v = None")
  case True
  then show ?thesis using rewriteAttrs_quiet [OF True] by (simp add: startOut_def tagPieces_def)
next
  case False
  obtain bs c m where t: "rewriteAttrs mk base (snd nm) n as = (bs, c, m)" by (cases "rewriteAttrs mk base (snd nm) n as")
  have c: c using rewriteAttrs_pieces [OF t] False by blast
  have tp: "tagPieces base nm as raw = [Lit (''<'' @ dashQName nm)] @ concat (map (attrPieces base (snd nm)) as) @
      [Lit ((if take 2 (rev raw) = ''>/'' then ''/'' else []) @ ''>'')]"
    unfolding tagPieces_def by (rule if_not_P [OF False])
  show ?thesis using rewriteAttrs_pieces [OF t] c t
    by (simp add: startOut_def tp startTag_def render_append)
qed

lemma baseKids_pieces:
  "baseKids mk base n ks = (render mk n (textPieces base ks), map_option (resolveURL base) (firstText ks)) \<and>
   refs (textPieces base ks) = (if firstText ks = None then 0 else 1)"
  by (induction mk base n ks rule: baseKids.induct) (simp_all add: render_lits Let_def)

text \<open>A quiet element is copied whatever the base.\<close>

lemma quiet_copied:
  "quiet x \<Longrightarrow> rewriteNode mk (base, fixed, n) x = (render mk m (isoNode b x), base, fixed, n) \<and> refs (isoNode b x) = 0"
proof (induction x arbitrary: mk base fixed n m b)
  case (XElem nm as raw kids raw')
  show ?case
  proof (cases "snd nm = ''BaseURL''")
    case True
    have "firstText kids = None" using XElem.prems True by simp
    then have "render mk n (textPieces base kids) = render mk m (textPieces b kids)"
      by (induction kids rule: firstText.induct) (auto split: if_splits)
    with True XElem.prems show ?thesis
      using baseKids_pieces [of mk base n kids] baseKids_pieces [of mk b n kids] by (simp add: render_append)
  next
    case False
    have K: "rewriteNodes mk (base, f, n) ks = (render mk m (concat (map (\<lambda>k. isoNode (g k) k) ks)), base, f, n) \<and>
        refs (concat (map (\<lambda>k. isoNode (g k) k) ks)) = 0" if "set ks \<subseteq> set kids" for ks f g
      using that
    proof (induction ks)
      case (Cons k ks)
      have q: "quiet k" "k \<in> set kids" using Cons.prems XElem.prems False by (auto simp: list_all_iff)
      note I = XElem.IH [OF q(2,1)]
      show ?case using I [of mk base f n m "g k"] Cons.IH Cons.prems by (simp add: render_append)
    qed simp
    have a: "\<forall>(a, v) \<in> set as. urlAttr (snd nm) (snd a) v = None" using XElem.prems False by simp
    then have t: "tagPieces y nm as raw = [Lit raw]" for y by (simp add: tagPieces_def)
    show ?thesis using False K [of kids False "\<lambda>k. if isBaseURL k then b else isoBase b kids"] startOut_pieces [of mk base n nm as raw]
      by (simp add: t render_append)
  qed
qed simp_all

lemma quiet_baseText: "quiet x \<Longrightarrow> baseText x = None"
  by (cases x) auto

lemma map_filter_quiet: "list_all quiet xs \<Longrightarrow> List.map_filter baseText (xs @ ys) = List.map_filter baseText ys"
  by (induction xs) (simp_all add: quiet_baseText map_filter_simps)

lemma map_filter_none: "list_all (\<lambda>x. baseText x = None) xs \<Longrightarrow> List.map_filter baseText xs = []"
  by (induction xs) (simp_all add: map_filter_simps)

lemma textPieces_base:
  "firstText ks = Some t \<Longrightarrow> resolveURL b t = resolveURL b' t \<Longrightarrow> textPieces b ks = textPieces b' ks"
  by (induction ks rule: firstText.induct) (auto split: if_splits)

lemma quiets_copied:
  "list_all quiet xs \<Longrightarrow> rewriteNodes mk (base, fixed, n) xs = (render mk m (concat (map (\<lambda>k. isoNode (g k) k) xs)), base, fixed, n) \<and>
     refs (concat (map (\<lambda>k. isoNode (g k) k) xs)) = 0"
proof (induction xs)
  case (Cons x xs)
  then show ?case using quiet_copied [of x mk base fixed n m "g x"] by (simp add: render_append)
qed simp

text \<open>Once the base is settled, the remaining children are rewritten against it.\<close>

lemma settled:
  assumes "list_all (\<lambda>x. baseText x = None \<or> f \<and> alternative base own (baseText x)) xs"
    and "\<And>x n. x \<in> set xs \<Longrightarrow> baseText x = None \<Longrightarrow>
      rewriteNode mk (own, f, n) x = (render mk n (isoNode own x), own, f, n + refs (isoNode own x))"
  shows "rewriteNodes mk (own, f, n) xs =
    (render mk n (concat (map (\<lambda>k. isoNode (if isBaseURL k then base else own) k) xs)), own, f,
     n + refs (concat (map (\<lambda>k. isoNode (if isBaseURL k then base else own) k) xs)))"
  using assms
proof (induction xs arbitrary: n)
  case (Cons x xs)
  let ?b = "if isBaseURL x then base else own"
  have x: "rewriteNode mk (own, f, n) x = (render mk n (isoNode ?b x), own, f, n + refs (isoNode ?b x))"
  proof (cases "baseText x")
    case None
    show ?thesis
    proof (cases "isBaseURL x")
      case True
      then have "quiet x" using None by (cases x) (auto split: if_splits)
      from quiet_copied [OF this, of mk own f n n base] True show ?thesis by simp
    next
      case False
      then show ?thesis using None Cons.prems(2) [of x n] by simp
    qed
  next
    case (Some t)
    then obtain nm as raw ks raw' where x: "x = XElem nm as raw ks raw'" "snd nm = ''BaseURL''" "firstText ks = Some t"
      by (cases x) (auto split: if_splits)
    have f: f "resolveURL own t = resolveURL base t" using Cons.prems(1) Some by auto
    show ?thesis using x f(1) textPieces_base [OF x(3) f(2)] baseKids_pieces [of mk own n ks]
      by (simp add: render_append)
  qed
  have "rewriteNodes mk (own, f, n + refs (isoNode ?b x)) xs =
      (render mk (n + refs (isoNode ?b x)) (concat (map (\<lambda>k. isoNode (if isBaseURL k then base else own) k) xs)), own, f,
       n + refs (isoNode ?b x) + refs (concat (map (\<lambda>k. isoNode (if isBaseURL k then base else own) k) xs)))"
    by (rule Cons.IH) (use Cons.prems in auto)
  with x show ?case by (simp add: render_append add.assoc)
qed simp

lemma rewriteNodes_append:
  "rewriteNodes mk st (xs @ ys) =
     (case rewriteNodes mk st xs of (o1, st1) \<Rightarrow> (case rewriteNodes mk st1 ys of (o2, st2) \<Rightarrow> (o1 @ o2, st2)))"
  by (induction xs arbitrary: st) (auto split: prod.splits)

text \<open>The children from the first one on that is not quiet.\<close>

lemma loud_iso:
  assumes alt: "list_all (\<lambda>y. baseText y = None \<or> baseText x \<noteq> None \<and> alternative base own (baseText y)) xs"
    and loud: "\<not> quiet x" and own: "own = (case baseText x of None \<Rightarrow> base | Some t \<Rightarrow> resolveURL base t)"
    and IH: "\<And>y f n. y \<in> set (x # xs) \<Longrightarrow> baseText y = None \<Longrightarrow>
      rewriteNode mk (own, f, n) y = (render mk n (isoNode own y), own, f, n + refs (isoNode own y))"
  shows "\<exists>b f. rewriteNodes mk (base, False, n) (x # xs) =
    (render mk n (concat (map (\<lambda>k. isoNode (if isBaseURL k then base else own) k) (x # xs))), b, f,
     n + refs (concat (map (\<lambda>k. isoNode (if isBaseURL k then base else own) k) (x # xs))))"
proof (cases "baseText x")
  case None
  have "\<not> isBaseURL x" using None loud by (cases x) auto
  moreover have "own = base" using own None by simp
  moreover have "rewriteNode mk (own, False, n) x = (render mk n (isoNode own x), own, False, n + refs (isoNode own x))"
    using IH None by simp
  moreover have "rewriteNodes mk (own, False, n + refs (isoNode own x)) xs =
      (render mk (n + refs (isoNode own x)) (concat (map (\<lambda>k. isoNode (if isBaseURL k then base else own) k) xs)), own, False,
       n + refs (isoNode own x) + refs (concat (map (\<lambda>k. isoNode (if isBaseURL k then base else own) k) xs)))"
    by (rule settled) (use alt None IH in auto)
  ultimately show ?thesis by (auto simp: render_append)
next
  case (Some t)
  then obtain nm as raw ks raw' where x: "x = XElem nm as raw ks raw'" "snd nm = ''BaseURL''" "firstText ks = Some t"
    by (cases x) (auto split: if_splits)
  have X: "rewriteNode mk (base, False, n) x = (render mk n (isoNode base x), own, True, n + refs (isoNode base x))"
    using x own Some baseKids_pieces [of mk base n ks] by (simp add: render_append)
  have b: "isBaseURL x" using x by simp
  have S: "rewriteNodes mk (own, True, n + refs (isoNode base x)) xs =
      (render mk (n + refs (isoNode base x)) (concat (map (\<lambda>k. isoNode (if isBaseURL k then base else own) k) xs)), own, True,
       n + refs (isoNode base x) + refs (concat (map (\<lambda>k. isoNode (if isBaseURL k then base else own) k) xs)))"
    by (rule settled) (use alt Some IH in auto)
  show ?thesis using X S b by (auto simp: render_append)
qed

lemma kids_iso:
  assumes ord: "orderly base kids"
    and IH: "\<And>x f n. x \<in> set kids \<Longrightarrow> baseText x = None \<Longrightarrow> rewriteNode mk (isoBase base kids, f, n) x =
      (render mk n (isoNode (isoBase base kids) x), isoBase base kids, f, n + refs (isoNode (isoBase base kids) x))"
  shows "\<exists>b f. rewriteNodes mk (base, False, n) kids = (render mk n (isoNodes base kids), b, f, n + refs (isoNodes base kids))"
proof -
  define own where "own = isoBase base kids"
  let ?g = "\<lambda>k. isoNode (if isBaseURL k then base else own) k"
  obtain pre rest where k: "kids = pre @ rest" "list_all quiet pre" "rest = dropWhile quiet kids"
    using takeWhile_dropWhile_id [of quiet kids] by (metis list_all_iff set_takeWhileD)
  have I: "isoNodes base kids = concat (map ?g pre) @ concat (map ?g rest)"
    unfolding isoNodes_def own_def [symmetric] by (subst k(1)) simp
  have Q: "rewriteNodes mk (base, False, n) pre = (render mk n (concat (map ?g pre)), base, False, n)" "refs (concat (map ?g pre)) = 0"
    using quiets_copied [OF k(2), of mk base False n n "\<lambda>k. if isBaseURL k then base else own"] by simp_all
  have "\<exists>b f. rewriteNodes mk (base, False, n) rest = (render mk n (concat (map ?g rest)), b, f, n + refs (concat (map ?g rest)))"
  proof (cases rest)
    case (Cons x xs)
    have a: "list_all (\<lambda>y. baseText y = None \<or> baseText x \<noteq> None \<and> alternative base own (baseText y)) xs"
      using ord unfolding orderly_def k(3) [symmetric] Cons own_def by simp
    have l: "\<not> quiet x" using k(3) Cons by (metis dropWhile_eq_Cons_conv)
    have "own = (case baseText x of None \<Rightarrow> base | Some t \<Rightarrow> resolveURL base t)"
    proof (cases "baseText x")
      case None
      then have "List.map_filter baseText xs = []" using a by (intro map_filter_none) simp
      then show ?thesis unfolding own_def isoBase_def k(1) Cons map_filter_quiet [OF k(2)] by (simp add: map_filter_simps None)
    next
      case (Some t)
      then show ?thesis unfolding own_def isoBase_def k(1) Cons map_filter_quiet [OF k(2)] by (simp add: map_filter_simps)
    qed
    moreover have "rewriteNode mk (own, f, m) y = (render mk m (isoNode own y), own, f, m + refs (isoNode own y))"
      if "y \<in> set (x # xs)" "baseText y = None" for y f m
      unfolding own_def by (rule IH [OF _ that(2)]) (use that(1) k(1) Cons in auto)
    ultimately show ?thesis unfolding Cons by (intro loud_iso [OF a l])
  qed auto
  then obtain b f where "rewriteNodes mk (base, False, n) rest = (render mk n (concat (map ?g rest)), b, f, n + refs (concat (map ?g rest)))"
    by blast
  then have "rewriteNodes mk (base, False, n) kids = (render mk n (isoNodes base kids), b, f, n + refs (isoNodes base kids))"
    unfolding I by (subst k(1)) (simp add: rewriteNodes_append Q render_append)
  then show ?thesis by blast
qed

lemma node_iso:
  "isoOk base x \<Longrightarrow> baseText x = None \<Longrightarrow>
     rewriteNode mk (base, fixed, n) x = (render mk n (isoNode base x), base, fixed, n + refs (isoNode base x))"
proof (induction x arbitrary: base fixed n)
  case (XElem nm as raw kids raw')
  show ?case
  proof (cases "snd nm = ''BaseURL''")
    case True
    then have "quiet (XElem nm as raw kids raw')" using XElem.prems(2) by simp
    from quiet_copied [OF this, of mk base fixed n n base] show ?thesis by simp
  next
    case False
    let ?t = "tagPieces base nm as raw"
    have "\<exists>b f. rewriteNodes mk (base, False, n + refs ?t) kids =
        (render mk (n + refs ?t) (isoNodes base kids), b, f, n + refs ?t + refs (isoNodes base kids))"
      by (rule kids_iso) (use XElem False in \<open>auto simp: list_all_iff\<close>)
    moreover have "isoNode base (XElem nm as raw kids raw') = ?t @ isoNodes base kids @ [Lit raw']"
      using False by (simp add: isoNodes_def)
    ultimately show ?thesis using False
      by (auto simp: startOut_pieces render_append add.assoc simp del: isoNode.simps)
  qed
qed simp_all

lemma isoOk_wf: "isoOk base x \<Longrightarrow> wfNode x"
proof (induction x arbitrary: base)
  case (XElem nm as raw kids raw')
  have "wfNode k" if "k \<in> set kids" "snd nm \<noteq> ''BaseURL''" for k
    using XElem.IH [OF that(1)] XElem.prems that by (auto simp: list_all_iff)
  with XElem.prems show ?case by (auto simp: list_all_iff)
qed simp_all

section \<open>Panics\<close>

text \<open>One frame per open element and one for the document; a \<open>BaseURL\<close> being read is open.\<close>

definition dashInv :: "dstate \<Rightarrow> bool" where
  "dashInv s \<longleftrightarrow> length (bases s) = Suc (length (dstack s)) \<and> length (baseSet s) = Suc (length (dstack s)) \<and> (inBaseURL s \<longrightarrow> dstack s \<noteq> [])"

lemma two: "length xs = Suc (Suc n) \<Longrightarrow> \<exists>a b ys. xs = a # b # ys"
  by (cases xs; cases "tl xs") auto

lemma dashTok_inv:
  assumes "dashInv s"
  shows "dashTok mk s t \<noteq> Panic \<and> (\<forall>s'. dashTok mk s t = Ok s' \<longrightarrow> dashInv s')"
proof (cases t)
  case (Pair tok raw)
  show ?thesis
  proof (cases tok)
    case (StartElement nm as)
    obtain b bs where "bases s = b # bs" using assms by (cases "bases s") (auto simp: dashInv_def)
    then show ?thesis using assms Pair StartElement by (auto simp: dashInv_def split: prod.splits)
  next
    case (EndElement nm)
    then show ?thesis using assms Pair by (cases "dstack s") (auto simp: dashInv_def)
  next
    case (CharData tx)
    show ?thesis
    proof (cases "inBaseURL s \<and> trimSpace tx \<noteq> []")
      case True
      then obtain n where n: "length (dstack s) = Suc n" using assms by (cases "dstack s") (auto simp: dashInv_def)
      then obtain a b c d f g where "bases s = a # b # c" "baseSet s = d # f # g"
        using assms two [of "bases s"] two [of "baseSet s"] unfolding dashInv_def by metis
      then show ?thesis using assms Pair CharData True by (simp add: dashInv_def Let_def)
    next
      case False
      then show ?thesis using assms Pair CharData by (auto simp: dashInv_def Let_def)
    qed
  next
    case OtherToken
    then show ?thesis using assms Pair by (simp add: dashInv_def)
  qed
qed

lemma dashLoop_inv: "dashInv s \<Longrightarrow> dashLoop mk s ts \<noteq> Panic"
proof (induction ts arbitrary: s)
  case (Cons t ts)
  then show ?case using dashTok_inv [OF Cons.prems, of mk t] by (cases "dashTok mk s t") auto
qed simp

text \<open>The element nesting: the open elements after the tokens, unless an end tag does not match.\<close>

fun nesting :: "string list \<Rightarrow> (xtoken \<times> string) list \<Rightarrow> string list option" where
  "nesting st [] = Some st"
| "nesting st ((StartElement nm as, raw) # ts) = nesting (dashQName nm # st) ts"
| "nesting st ((EndElement nm, raw) # ts) = (case st of [] \<Rightarrow> None | q # qs \<Rightarrow> if q = dashQName nm then nesting qs ts else None)"
| "nesting st (_ # ts) = nesting st ts"

lemma dashLoop_nesting: "dashLoop mk s ts = Ok s' \<Longrightarrow> nesting (dstack s) ts = Some (dstack s')"
proof (induction ts arbitrary: s)
  case (Cons t ts)
  then obtain s1 where s1: "dashTok mk s t = Ok s1" "dashLoop mk s1 ts = Ok s'" by (auto simp: bnd_eq_Ok)
  obtain tok raw where t: "t = (tok, raw)" by (cases t) auto
  have "nesting (dstack s) (t # ts) = nesting (dstack s1) ts"
    using s1(1) t by (cases tok) (auto simp: Let_def split: list.splits prod.splits if_splits)
  then show ?case using Cons.IH [OF s1(2)] by simp
qed simp

section \<open>Template URLs\<close>

lemma unescape_plain1:
  "c \<noteq> CHR ''%'' \<Longrightarrow> c \<noteq> CHR ''+'' \<Longrightarrow> unescape (c # s) encodeQueryComponent = map_option ((#) c) (unescape s encodeQueryComponent)"
  by simp

text \<open>Replacing an escape by the character it stands for does not change what a query value decodes to.\<close>

lemma unescape_replace:
  assumes x: "hexDigit a = Some i" "hexDigit b = Some j" "c = char_of (16 * i + j)" "c \<noteq> CHR ''%''" "c \<noteq> CHR ''+''"
    and u: "unescape s encodeQueryComponent = Some r"
  shows "unescape (replaceAll [CHR ''%'', a, b] [c] s) encodeQueryComponent = Some r"
  using u
proof (induction s arbitrary: r rule: length_induct)
  case (1 s)
  show ?case
  proof (cases s)
    case Nil
    then show ?thesis using 1(2) by simp
  next
    case (Cons d s')
    show ?thesis
    proof (cases "d = CHR ''%''")
      case False
      then obtain r' where r': "unescape s' encodeQueryComponent = Some r'" "r = (if d = CHR ''+'' then CHR '' '' else d) # r'"
        using 1(2) Cons by auto
      have "unescape (replaceAll [CHR ''%'', a, b] [c] s') encodeQueryComponent = Some r'" using 1(1) r'(1) Cons by simp
      then show ?thesis using False r'(2) Cons by (simp add: hasPrefix_def)
    next
      case True
      then obtain p q t where t: "s' = p # q # t" using 1(2) Cons by (auto split: list.splits)
      obtain m n r' where h: "hexDigit p = Some m" "hexDigit q = Some n" "unescape t encodeQueryComponent = Some r'" "r = char_of (16 * m + n) # r'"
        using 1(2) Cons True t by (auto split: option.splits prod.splits)
      have IH: "unescape (replaceAll [CHR ''%'', a, b] [c] t) encodeQueryComponent = Some r'" using 1(1) h(3) Cons t by simp
      show ?thesis
      proof (cases "p = a \<and> q = b")
        case True
        then have "replaceAll [CHR ''%'', a, b] [c] s = c # replaceAll [CHR ''%'', a, b] [c] t"
          using Cons \<open>d = CHR ''%''\<close> t by (simp add: hasPrefix_def)
        then show ?thesis using IH h x True by simp
      next
        case False
        have pq: "p \<noteq> CHR ''%''" "q \<noteq> CHR ''%''" using h(1,2) by (auto simp: hexDigit_def split: if_splits)
        then have "replaceAll [CHR ''%'', a, b] [c] s = CHR ''%'' # p # q # replaceAll [CHR ''%'', a, b] [c] t"
          using Cons \<open>d = CHR ''%''\<close> t False by (simp add: hasPrefix_def)
        then show ?thesis using IH h by simp
      qed
    qed
  qed
qed

lemma dashQueryEscape_unescape: "unescape (dashQueryEscape s) encodeQueryComponent = Some s"
proof -
  have h: "hexDigit (CHR ''2'') = Some 2" "hexDigit (CHR ''4'') = Some 4" "hexDigit (CHR ''8'') = Some 8" "hexDigit (CHR ''9'') = Some 9"
    by code_simp+
  have c: "CHR ''$'' = char_of (16 * 2 + 4 :: nat)" "CHR ''('' = char_of (16 * 2 + 8 :: nat)" "CHR '')'' = char_of (16 * 2 + 9 :: nat)"
    by code_simp+
  show ?thesis
    unfolding dashQueryEscape_def
    by (intro unescape_replace [OF h(1,2) c(1)] unescape_replace [OF h(1,3) c(2)] unescape_replace [OF h(1,4) c(3)] unescape_escape_query) simp_all
qed

lemma replaceAll_set: "set (replaceAll old new s) \<subseteq> set new \<union> set s"
proof (induction old new s rule: replaceAll.induct)
  case (2 old new c s)
  show ?case using 2 set_drop_subset [of "length old" "c # s"] by (auto split: if_splits)
qed simp

lemma dashQueryEscape_seps: "CHR ''&'' \<notin> set (dashQueryEscape s)" "CHR '';'' \<notin> set (dashQueryEscape s)"
  using replaceAll_set [of "''%29''" "'')''" "replaceAll ''%28'' ''('' (replaceAll ''%24'' ''$'' (QueryEscape s))"]
    replaceAll_set [of "''%28''" "''(''" "replaceAll ''%24'' ''$'' (QueryEscape s)"] replaceAll_set [of "''%24''" "''$''" "QueryEscape s"]
    QueryEscape_seps [of s]
  by (auto simp: dashQueryEscape_def)

lemma parseQuery_first:
  assumes "CHR ''&'' \<notin> set a" "queryPair a = [p]"
  shows "parseQuery (a @ concat (map ampPair ps)) = p # ps"
proof (cases ps)
  case Nil
  then show ?thesis using assms by (simp add: parseQuery_single)
next
  case (Cons x xs)
  have "a @ concat (map ampPair ps) = a @ CHR ''&'' # (QueryEscape (fst x) @ CHR ''='' # QueryEscape (snd x) @ concat (map ampPair xs))"
    by (simp add: Cons)
  then show ?thesis
    using parseQuery_cons [OF assms(1), of "QueryEscape (fst x) @ CHR ''='' # QueryEscape (snd x) @ concat (map ampPair xs)"]
      parseQuery_pairs [of "fst x" "snd x" xs] assms(2) by (simp add: Cons)
qed

lemma template_query:
  assumes "APIPassword opts = []" "subToken cfg sg rnd (Some opts) ''/proxy/stream'' (dashTemplateTokenParams absu) = tok" "tok \<noteq> []"
  shows "\<exists>q. dashBuildTemplateURL cfg sg rnd ext absu (Some opts) = ext @ ''/proxy/stream?'' @ q \<and>
    qVals (parseQuery q) ''d'' = [absu] \<and> qVals (parseQuery q) ''token'' = [tok]"
proof -
  have k: "QueryEscape ''token'' = ''token''" "QueryEscape ''proxy'' = ''proxy''" by code_simp+
  let ?ps = "headerPairs ''h_'' (ReqHeaders opts) @ headerPairs ''r_'' (RespHeaders opts) @ [(''token'', tok)] @
      (if Proxy opts \<noteq> [] then [(''proxy'', Proxy opts)] else [])"
  let ?a = "''d='' @ dashQueryEscape absu"
  let ?q = "?a @ concat (map ampPair ?ps)"
  have "dashBuildTemplateURL cfg sg rnd ext absu (Some opts) = ext @ ''/proxy/stream?'' @ ?q"
    using assms by (simp add: dashBuildTemplateURL_def headerParts_pairs k Let_def)
  moreover have a: "CHR ''&'' \<notin> set ?a" using dashQueryEscape_seps by simp
  moreover have "queryPair ?a = [(''d'', absu)]"
    using dashQueryEscape_seps(2) cutAt_append [of "CHR ''=''" "''d''" "dashQueryEscape absu"]
    by (simp add: queryPair_def dashQueryEscape_unescape)
  from parseQuery_first [OF a this] have "parseQuery ?q = (''d'', absu) # ?ps" .
  then have "qVals (parseQuery ?q) ''d'' = [absu] \<and> qVals (parseQuery ?q) ''token'' = [tok]"
    using qVals_headers [of "''h_''"] qVals_headers [of "''r_''"] by (simp add: hasPrefix_def qVals_def)
  ultimately show ?thesis by blast
qed

definition plainTok :: "xtoken \<times> string \<Rightarrow> bool" where
  "plainTok t = (case fst t of StartElement nm as \<Rightarrow> snd nm \<notin> {''BaseURL'', ''SegmentTemplate'', ''SegmentURL'', ''Initialization''} | _ \<Rightarrow> True)"

lemma dashLoop_plain:
  "list_all plainTok ts \<Longrightarrow> \<not> inBaseURL s \<Longrightarrow> dashLoop mk s ts = Ok s' \<Longrightarrow> dbuf s' = dbuf s @ concat (map snd ts)"
proof (induction ts arbitrary: s)
  case (Cons t ts)
  then obtain s1 where s1: "dashTok mk s t = Ok s1" "dashLoop mk s1 ts = Ok s'" by (auto simp: bnd_eq_Ok)
  obtain tok raw where t: "t = (tok, raw)" by (cases t) auto
  have "dbuf s1 = dbuf s @ raw \<and> \<not> inBaseURL s1"
    using s1(1) t Cons.prems(1,2) by (cases tok) (auto simp: plainTok_def startOut_keep Let_def split: list.splits if_splits)
  then show ?case using Cons.IH [OF _ _ s1(2)] Cons.prems(1) t by simp
qed simp

section \<open>Properties\<close>

text \<open>C23: The stack machine over XML tokens rewrites a manifest as the standard says: for a document whose \<open>BaseURL\<close> elements
  hold text only and come ahead of the references of their element, alternatives not depending on the first one, every
  \<open>BaseURL\<close> text and every URL attribute is replaced by the proxy URL of its absolute URL, resolved against the base of
  the parent element or of the element it belongs to (its first \<open>BaseURL\<close>), and all other bytes are copied.\<close>

theorem dash_refines_tree:
  assumes "tokenize mpd = (flats ns, Some rest)" "orderly dest ns" "list_all (isoOk (isoBase dest ns)) ns"
  shows "dashRewrite tokenize mk dest mpd = Ok (render mk 0 (isoNodes dest ns) @ rest)"
proof -
  have "\<exists>b f. rewriteNodes mk (dest, False, 0) ns = (render mk 0 (isoNodes dest ns), b, f, 0 + refs (isoNodes dest ns))"
    by (rule kids_iso [OF assms(2)]) (use assms(3) node_iso in \<open>auto simp: list_all_iff\<close>)
  then obtain st where r: "rewriteNodes mk (dest, False, 0) ns = (render mk 0 (isoNodes dest ns), st)" by blast
  have "atBase (dashStart dest) (dest, False, 0)" by (simp add: atBase_def dashStart_def)
  moreover have "list_all wfNode ns" using assms(3) isoOk_wf by (auto simp: list_all_iff)
  ultimately show ?thesis
    using dash_tree(2) [of ns "dashStart dest" "(dest, False, 0)" mk _ st "[]", OF _ _ r] assms(1)
    by (simp add: dashRewrite_def moved_def dashStart_def)
qed

text \<open>Rewriting is safe on every input: it never panics, a document that does not tokenise or whose elements do not
  nest comes back unchanged, and so does a document without URL-bearing elements, byte for byte.\<close>

theorem dash_rewrite_safe:
  assumes "tokenize mpd = (ts, fin)"
  shows "dashRewrite tokenize mk dest mpd \<noteq> Panic \<and>
    (fin = None \<or> nesting [] ts \<noteq> Some [] \<longrightarrow> dashRewrite tokenize mk dest mpd = Ok mpd) \<and>
    (\<forall>rest. fin = Some rest \<and> mpd = concat (map snd ts) @ rest \<and> list_all plainTok ts \<longrightarrow> dashRewrite tokenize mk dest mpd = Ok mpd)"
proof -
  have np: "dashLoop mk (dashStart dest) ts \<noteq> Panic" by (rule dashLoop_inv) (simp add: dashInv_def dashStart_def)
  show ?thesis
  proof (cases "dashLoop mk (dashStart dest) ts")
    case (Ok s)
    have n: "nesting [] ts = Some (dstack s)" using dashLoop_nesting [OF Ok] by (simp add: dashStart_def)
    have "dbuf s = concat (map snd ts)" if "list_all plainTok ts"
      using dashLoop_plain [OF that _ Ok] by (simp add: dashStart_def)
    then show ?thesis using Ok n assms by (cases fin) (auto simp: dashRewrite_def)
  qed (use np assms in \<open>auto simp: dashRewrite_def\<close>)
qed

text \<open>Template URLs of a token-authorised manifest: the URL decodes to the template, and its token authorises, exactly
  while the parent token holds, every expansion of the template and nothing outside the literal prefix before the
  first placeholder.\<close>

theorem dash_template_grant:
  assumes laws: "aead_ok sg" "json_ok sg" "length nonce = 12"
    and cfg: "Password cfg \<noteq> []" "Secret cfg \<noteq> []" "0 < now"
    and parent: "qGet (query r) ''api_password'' = []"
      "verifyToken cfg sg now (qGet (query r) ''token'') (clientIP tp r) = Inr t"
    and opts: "opts = parseOptions cfg tp sg now ks r"
    and pre: "dashTemplateTokenParams absu = [(tokenDestPrefixParam, pre)]" "list_all (\<lambda>c. ch c < 128) (pre @ tokIP t)"
  shows "\<exists>q tok. dashBuildTemplateURL cfg sg (Some nonce) ext absu (Some opts) = ext @ ''/proxy/stream?'' @ q \<and>
    qVals (parseQuery q) ''d'' = [absu] \<and> qGet (parseQuery q) ''token'' = tok \<and>
    (\<forall>r' now'. qGet (query r') ''token'' = tok \<and> (IPACL cfg = [] \<or> aclAllows cfg (clientIP tp r')) \<longrightarrow>
       (authorize cfg tp sg now' r' = None \<longleftrightarrow>
          tokLive now' (clientIP tp r') t \<and> urlPath r' = ''/proxy/stream'' \<and> hasPrefix pre (decodeDest (qGet (query r') ''d''))))"
proof -
  note po = parseOptions_sub(1-3) [OF cfg(1,2) parent, where ks = ks, folded opts] parseOptions_sub(4) [OF cfg(1,2) parent]
  let ?t = "\<lparr>Endpoint = ''/proxy/stream'', Params = [(tokenDestPrefixParam, pre)], Exp = Exp t, tokIP = tokIP t\<rparr>"
  obtain tok where tok: "signToken cfg sg (Some nonce) ?t = Inr tok" using cfg(2) by (simp add: signToken_def)
  have a: "asciiTok ?t" using pre(2) by (simp add: asciiTok_def tokenDestPrefixParam_def)
  note auth = authorize_signed [OF laws(1,2) a laws(3) cfg(2) tok]
  have ne: "tok \<noteq> []" by (rule signToken_ne [OF tok laws(3)])
  have st: "subToken cfg sg (Some nonce) (Some opts) ''/proxy/stream'' (dashTemplateTokenParams absu) = tok"
    using po cfg tok pre(1) by (simp add: subToken_def)
  from template_query [OF po(1) st ne] obtain q where q: "dashBuildTemplateURL cfg sg (Some nonce) ext absu (Some opts) = ext @ ''/proxy/stream?'' @ q"
    "qVals (parseQuery q) ''d'' = [absu]" "qVals (parseQuery q) ''token'' = [tok]" by blast
  have l: "tokLive n c ?t = tokLive n c t" for n c by (simp add: tokLive_def)
  show ?thesis
    using q auth l by (intro exI [of _ q] exI [of _ tok]) (auto simp: qGet_def paramOk_def)
qed

text \<open>Width-formatted placeholders do not survive: the percent sign of \<open>$Number%05d$\<close> is escaped, so that no DASH client
  recognises the placeholder.\<close>

theorem dash_width_placeholder_lost:
  "dashQueryEscape ''seg-$Number%05d$.m4s'' = ''seg-$Number%2505d$.m4s''"
  by code_simp

section \<open>Witnesses\<close>

definition demoMaker :: urlMaker where
  "demoMaker k n u = (if k = TemplateAttr then ''T'' else ''P'') @ itoa n @ ''='' @ u"

text \<open>\<open><MPD><BaseURL>v/</BaseURL><BaseURL>http://g/</BaseURL><SegmentTemplate media="s-$Number$"/></MPD>\<close>\<close>

definition demoTree :: "xnode list" where
  "demoTree =
     [XElem ([], ''MPD'') [] ''<MPD>''
        [XElem ([], ''BaseURL'') [] ''<BaseURL>'' [XText ''v/'' ''v/''] ''</BaseURL>'',
         XElem ([], ''BaseURL'') [] ''<BaseURL>'' [XText ''http://g/'' ''http://g/''] ''</BaseURL>'',
         XElem ([], ''SegmentTemplate'') [(([], ''media''), ''s-$Number$'')] ''<SegmentTemplate media=@/>'' [] []]
        ''</MPD>'']"

definition demoOut :: string where
  "demoOut = ''<MPD><BaseURL>P0=http://h/v/</BaseURL><BaseURL>P1=http://g/</BaseURL><SegmentTemplate media='' @ [CHR 0x22] @
     ''T2=http://h/v/s-$Number$'' @ [CHR 0x22] @ ''/></MPD>''"

theorem dash_refines_tree_witness:
  "dashRewrite (\<lambda>_. (flats demoTree, Some [])) demoMaker ''http://h/m.mpd'' [] = Ok demoOut"
proof -
  have "orderly ''http://h/m.mpd'' demoTree" "list_all (isoOk (isoBase ''http://h/m.mpd'' demoTree)) demoTree" by code_simp+
  from dash_refines_tree [of "\<lambda>_. (flats demoTree, Some [])" "[]", OF refl this, of demoMaker]
  have "dashRewrite (\<lambda>_. (flats demoTree, Some [])) demoMaker ''http://h/m.mpd'' [] =
      Ok (render demoMaker 0 (isoNodes ''http://h/m.mpd'' demoTree) @ [])" .
  moreover have "render demoMaker 0 (isoNodes ''http://h/m.mpd'' demoTree) @ [] = demoOut" by code_simp
  ultimately show ?thesis by simp
qed

text \<open>A second \<open>BaseURL\<close> of an element, an alternative to the first according to the standard and to the comment of
  \<open>dashRewrite\<close>, is resolved against the first one and not against the parent's base.\<close>

lemma dash_second_base:
  "dashRewrite (\<lambda>_. (flats [XElem ([], ''MPD'') [] ''<MPD>''
       [XElem ([], ''BaseURL'') [] ''<BaseURL>'' [XText ''a/'' ''a/''] ''</BaseURL>'',
        XElem ([], ''BaseURL'') [] ''<BaseURL>'' [XText ''b/'' ''b/''] ''</BaseURL>''] ''</MPD>''], Some [])) demoMaker ''http://h/m.mpd'' [] =
     Ok ''<MPD><BaseURL>P0=http://h/a/</BaseURL><BaseURL>P1=http://h/a/b/</BaseURL></MPD>''"
  by code_simp

theorem dash_rewrite_safe_witness:
  "dashRewrite (\<lambda>_. ([(EndElement ([], ''MPD''), ''</MPD>'')], Some [])) demoMaker ''http://h/'' ''</MPD>'' = Ok ''</MPD>''"
  using dash_rewrite_safe [of "\<lambda>_. ([(EndElement ([], ''MPD''), ''</MPD>'')], Some [])" "''</MPD>''", OF refl, of demoMaker "''http://h/''"] by simp

theorem dash_template_grant_witness:
  "\<exists>q. qVals (parseQuery q) ''d'' = [''http://h/a-$Number$.m4s''] \<and>
     authorize demoCfg None demoSigner 5 (demoReq ''/proxy/stream'' q) = None \<and>
     authorize demoCfg None demoSigner 11 (demoReq ''/proxy/stream'' q) \<noteq> None \<and>
     authorize demoCfg None demoSigner 5 (demoReq ''/proxy/ip'' q) \<noteq> None"
proof -
  let ?t = "\<lparr>Endpoint = ''/proxy/mpd/manifest.m3u8'', Params = [], Exp = 10, tokIP = []\<rparr>"
  have c: "Password demoCfg \<noteq> []" "Secret demoCfg \<noteq> []" "IPACL demoCfg = []" by (simp_all add: demoCfg_def)
  obtain s where s: "signToken demoCfg demoSigner (Some (replicate 12 0)) ?t = Inr s" using c by (simp add: signToken_def)
  let ?r = "demoReq ''/proxy/mpd/manifest.m3u8'' (QueryEscape ''token'' @ CHR ''='' # QueryEscape s @ concat (map ampPair []))"
  have q: "query ?r = [(''token'', s)]"
    using parseQuery_pairs [of "''token''" s "[]"] by (simp only: demoReq_def Request.simps)
  have v: "verifyToken demoCfg demoSigner 5 (qGet (query ?r) ''token'') (clientIP None ?r) = Inr ?t"
    using verify_sign [OF demo_laws _ _ c(2) s, of 5 "clientIP None ?r"]
    unfolding q by (simp add: qGet_def qVals_def asciiTok_def tokLive_def)
  have a: "qGet (query ?r) ''api_password'' = []" unfolding q by (simp add: qGet_def qVals_def)
  have p: "dashTemplateTokenParams ''http://h/a-$Number$.m4s'' = [(tokenDestPrefixParam, ''http://h/a-'')]" by code_simp
  have as: "list_all (\<lambda>c. ch c < 128) (''http://h/a-'' @ tokIP ?t)" by simp
  from dash_template_grant [OF demo_laws _ c(1,2) _ a v refl p as, of "replicate 12 0" "''http://ext''" "[]"]
  obtain q tok where q: "qVals (parseQuery q) ''d'' = [''http://h/a-$Number$.m4s'']" "qGet (parseQuery q) ''token'' = tok"
    and g: "\<forall>r' now'. qGet (query r') ''token'' = tok \<and> (IPACL demoCfg = [] \<or> aclAllows demoCfg (clientIP None r')) \<longrightarrow>
       (authorize demoCfg None demoSigner now' r' = None \<longleftrightarrow>
          tokLive now' (clientIP None r') ?t \<and> urlPath r' = ''/proxy/stream'' \<and> hasPrefix ''http://h/a-'' (decodeDest (qGet (query r') ''d'')))"
    by auto
  have d: "qGet (parseQuery q) ''d'' = ''http://h/a-$Number$.m4s''" using q(1) by (simp add: qGet_def)
  have "hasPrefix ''http://h/a-'' (decodeDest ''http://h/a-$Number$.m4s'')" by code_simp
  then have "authorize demoCfg None demoSigner 5 (demoReq ''/proxy/stream'' q) = None"
      "authorize demoCfg None demoSigner 11 (demoReq ''/proxy/stream'' q) \<noteq> None"
      "authorize demoCfg None demoSigner 5 (demoReq ''/proxy/ip'' q) \<noteq> None"
    using g q(2) d c(3) by (simp_all add: demoReq_def tokLive_def)
  then show ?thesis using q(1) by blast
qed

end
