(* ===== verification/Hls_Rewrite.thy ===== *)
theory Hls_Rewrite
  imports Proxy_Auth
begin

text \<open>
  \<open>streamproxy/hls.go\<close>: rewriting an HLS playlist so that every URI goes through the proxy, and choosing the segments to
  prefetch. Proxy URLs are built by \<open>Proxy_Auth.build\<close>; since it may mint a token per URL, the random source is indexed by
  the playlist line.
\<close>

section \<open>Segment endpoints\<close>

definition hlsSegmentExts :: "string list" where
  "hlsSegmentExts = [''3gp'', ''3gpp'', ''aac'', ''ac3'', ''avi'', ''ec3'', ''fmp4'', ''m2ts'', ''m4a'', ''m4s'', ''m4v'', ''mkv'', ''mov'', ''mp3'',
     ''mp4'', ''mpeg'', ''mpegts'', ''ogg'', ''ts'', ''vob'', ''wav'', ''vtt'', ''webvtt'']"

definition hlsSegmentEndpoints :: "string \<Rightarrow> string option" where
  "hlsSegmentEndpoints e = (if e \<in> set hlsSegmentExts then Some (''/proxy/stream/segment.'' @ e) else None)"

definition hlsBaseName :: "string \<Rightarrow> string" where
  "hlsBaseName url =
     (let p = takeWhile (\<lambda>c. c \<noteq> CHR ''?'' \<and> c \<noteq> CHR ''#'') url;
          p = (case splitStr ''://'' [] p of Some (_, r) \<Rightarrow> dropWhile (\<lambda>c. c \<noteq> CHR ''/'') (drop 3 r) | None \<Rightarrow> p)
      in case cutLast (CHR ''/'') p of Some (_, b) \<Rightarrow> b | None \<Rightarrow> p)"

definition hlsSegmentEndpoint :: "string \<Rightarrow> string \<Rightarrow> string" where
  "hlsSegmentEndpoint url def =
     (let fallback = (case hlsSegmentEndpoints def of Some ep \<Rightarrow> ep | None \<Rightarrow> ''/proxy/stream/segment.'' @ def)
      in case cutLast (CHR ''.'') (hlsBaseName url) of
           None \<Rightarrow> fallback
         | Some (_, e) \<Rightarrow>
             (case hlsSegmentEndpoints e of
                Some ep \<Rightarrow> ep
              | None \<Rightarrow> (case hlsSegmentEndpoints (map lowerC e) of Some ep \<Rightarrow> ep | None \<Rightarrow> fallback)))"

section \<open>Resolving a playlist URI\<close>

definition hlsNonHTTPScheme :: "URL \<Rightarrow> bool" where
  "hlsNonHTTPScheme u \<longleftrightarrow> Scheme u \<noteq> [] \<and> Scheme u \<noteq> ''http'' \<and> Scheme u \<noteq> ''https''"

definition hlsPlainAbsolute :: "string \<Rightarrow> bool" where
  "hlsPlainAbsolute ref =
     (let rest = (if hasPrefix ''https://'' ref then Some (drop 8 ref) else if hasPrefix ''http://'' ref then Some (drop 7 ref) else None)
      in case rest of
           None \<Rightarrow> False
         | Some rest \<Rightarrow>
             (let slash = length (takeWhile (\<lambda>c. c \<noteq> CHR ''/'') rest); pathEnd = length (takeWhile (\<lambda>c. c \<noteq> CHR ''?'') rest)
              in if slash = length rest \<or> slash = 0 then False
                 else if list_ex (\<lambda>c. c \<in> {CHR ''%'', CHR ''#'', CHR ''@'', CHR 0x5C} \<or> ch c \<le> 32 \<or> ch c \<ge> 127) rest then False
                 else if pathEnd < slash then False
                 else (let p = drop slash (take pathEnd rest) in \<not> containsStr ''/.'' p \<and> \<not> containsStr ''//'' p)))"

text \<open>The playlist URL is \<open>None\<close> when it did not parse; the result is the absolute URI and whether to leave it alone.\<close>

definition slowResolve :: "URL option \<Rightarrow> string \<Rightarrow> string \<times> bool" where
  "slowResolve base ref =
     (case urlParse ref of
        None \<Rightarrow> (ref, False)
      | Some rv \<Rightarrow>
          if hlsNonHTTPScheme rv then (ref, True)
          else (case base of Some b \<Rightarrow> (urlString (ResolveReference b rv), False) | None \<Rightarrow> (ref, False)))"

definition hlsResolve :: "URL option \<Rightarrow> string \<Rightarrow> string \<times> bool" where
  "hlsResolve base ref = (if hlsPlainAbsolute ref then (ref, False) else slowResolve base ref)"

section \<open>Rewriting\<close>

text \<open>The match of \<open>(?:^|[:,])URI="([^"]*)"\<close>: the line up to the value, the value, and the rest from its closing quote.\<close>

definition uriValue :: "string \<Rightarrow> (string \<times> string) option" where
  "uriValue s =
     (if hasPrefix ''URI=\"'' s \<and> CHR 0x22 \<in> set (drop 5 s)
      then Some (takeWhile (\<lambda>c. c \<noteq> CHR 0x22) (drop 5 s), dropWhile (\<lambda>c. c \<noteq> CHR 0x22) (drop 5 s)) else None)"

fun uriScan :: "string \<Rightarrow> string \<Rightarrow> (string \<times> string \<times> string) option" where
  "uriScan pre [] = None"
| "uriScan pre (c # s) =
     (case (if c = CHR '':'' \<or> c = CHR '','' then uriValue s else None) of
        Some (v, r) \<Rightarrow> Some (pre @ c # ''URI=\"'', v, r)
      | None \<Rightarrow> uriScan (pre @ [c]) s)"

definition hlsURIAttr :: "string \<Rightarrow> (string \<times> string \<times> string) option" where
  "hlsURIAttr line = (case uriValue line of Some (v, r) \<Rightarrow> Some (''URI=\"'', v, r) | None \<Rightarrow> uriScan [] line)"

text \<open>\<open>bld\<close> stands for \<open>pb.build(ext, endpoint, abs)\<close>.\<close>

definition hlsRewriteURIAttrFunc :: "string \<Rightarrow> URL option \<Rightarrow> (string \<Rightarrow> string \<Rightarrow> string) \<Rightarrow> (string \<Rightarrow> string) \<Rightarrow> string" where
  "hlsRewriteURIAttrFunc line base bld endpointFor =
     (case hlsURIAttr line of
        None \<Rightarrow> line
      | Some (pre, ref, post) \<Rightarrow>
          if ref = [] then line
          else (case hlsResolve base ref of
                  (url, True) \<Rightarrow> line
                | (url, False) \<Rightarrow> pre @ bld (endpointFor url) url @ post))"

definition isM3U8 :: "string \<Rightarrow> bool" where
  "isM3U8 s \<longleftrightarrow> containsStr ''.m3u8'' s \<or> containsStr ''.M3U8'' s"

definition hlsRewriteURIAttr :: "string \<Rightarrow> URL option \<Rightarrow> (string \<Rightarrow> string \<Rightarrow> string) \<Rightarrow> string \<Rightarrow> string" where
  "hlsRewriteURIAttr line base bld fixedEndpoint =
     hlsRewriteURIAttrFunc line base bld
       (\<lambda>url. if fixedEndpoint \<noteq> [] then fixedEndpoint
              else if isM3U8 url then ''/proxy/hls/manifest.m3u8'' else ''/proxy/stream'')"

text \<open>One iteration of the loop of \<open>hlsRewrite\<close>: the output line and the new \<open>nextIsVariant\<close>.\<close>

definition rewriteLine :: "URL option \<Rightarrow> (string \<Rightarrow> string \<Rightarrow> string) \<Rightarrow> string \<Rightarrow> bool \<Rightarrow> string \<Rightarrow> string \<times> bool" where
  "rewriteLine base bld segDefault nextIsVariant line0 =
     (let line = trimSpace line0
      in if line = [] then ([], nextIsVariant)
         else if \<not> hasPrefix ''#'' line then
           (case hlsResolve base line of
              (url, True) \<Rightarrow> (line, False)
            | (url, False) \<Rightarrow>
                (bld (if nextIsVariant \<or> isM3U8 url then ''/proxy/hls/manifest.m3u8'' else hlsSegmentEndpoint url segDefault) url, False))
         else
           (let tag = fst (cutAt (CHR '':'') line)
            in if tag = ''#EXT-X-STREAM-INF'' then (line, True)
               else if tag = ''#EXT-X-KEY'' \<or> tag = ''#EXT-X-SESSION-KEY'' then (hlsRewriteURIAttr line base bld ''/proxy/stream'', nextIsVariant)
               else if tag = ''#EXT-X-MAP'' then (hlsRewriteURIAttrFunc line base bld (\<lambda>url. hlsSegmentEndpoint url ''mp4''), nextIsVariant)
               else if tag = ''#EXT-X-PART'' \<or> tag = ''#EXT-X-PRELOAD-HINT'' then
                 (hlsRewriteURIAttrFunc line base bld (\<lambda>url. hlsSegmentEndpoint url segDefault), nextIsVariant)
               else if tag = ''#EXT-X-RENDITION-REPORT'' then (hlsRewriteURIAttr line base bld ''/proxy/hls/manifest.m3u8'', nextIsVariant)
               else if tag = ''#EXT-X-MEDIA'' \<or> tag = ''#EXT-X-I-FRAME-STREAM-INF'' then
                 (hlsRewriteURIAttr line base bld ''/proxy/hls/manifest.m3u8'', nextIsVariant)
               else (line, nextIsVariant)))"

fun rewriteLines :: "URL option \<Rightarrow> (nat \<Rightarrow> string \<Rightarrow> string \<Rightarrow> string) \<Rightarrow> string \<Rightarrow> nat \<Rightarrow> bool \<Rightarrow> string list \<Rightarrow> string list" where
  "rewriteLines base bld segDefault i nv [] = []"
| "rewriteLines base bld segDefault i nv (l # ls) =
     (case rewriteLine base (bld i) segDefault nv l of (out, nv') \<Rightarrow> out # rewriteLines base bld segDefault (Suc i) nv' ls)"

abbreviation newline :: char where "newline \<equiv> CHR 0x0A"

definition hlsRewrite :: "Config \<Rightarrow> signer \<Rightarrow> (nat \<Rightarrow> byte list option) \<Rightarrow> string \<Rightarrow> Options \<Rightarrow> string \<Rightarrow> string" where
  "hlsRewrite cfg sg rnd ext opts playlist =
     (let pb = newProxyURLBuilder cfg (Some opts);
          segDefault = (if containsStr ''#EXT-X-MAP'' playlist then ''mp4'' else ''ts'')
      in joinWith [newline]
           (rewriteLines (urlParse (Dest opts)) (\<lambda>i. build cfg sg (rnd i) pb ext) segDefault 0 False (splitOn newline playlist)))"

section \<open>Prefetch\<close>

fun segmentURLs :: "URL option \<Rightarrow> int \<Rightarrow> string list \<Rightarrow> string list \<Rightarrow> string list" where
  "segmentURLs base mx [] urls = urls"
| "segmentURLs base mx (l # ls) urls =
     (let line = trimSpace l
      in if line = [] \<or> hasPrefix ''#'' line then segmentURLs base mx ls urls
         else if isM3U8 line then segmentURLs base mx ls urls
         else (case hlsResolve base line of
                 (url, True) \<Rightarrow> segmentURLs base mx ls urls
               | (url, False) \<Rightarrow>
                   (let urls' = urls @ [url] in if int (length urls') \<ge> mx then urls' else segmentURLs base mx ls urls')))"

definition hlsSegmentURLs :: "string \<Rightarrow> string \<Rightarrow> int \<Rightarrow> string list" where
  "hlsSegmentURLs base playlist mx = (if mx \<le> 0 then [] else segmentURLs (urlParse base) mx (splitOn newline playlist) [])"

section \<open>Lines\<close>

lemma splitOn_join: "ls \<noteq> [] \<Longrightarrow> \<forall>l \<in> set ls. c \<notin> set l \<Longrightarrow> splitOn c (joinWith [c] ls) = ls"
  by (induction "[c]" ls rule: joinWith.induct) (simp_all add: splitOn_single splitOn_append)

lemma splitOn_free: "l \<in> set (splitOn c s) \<Longrightarrow> c \<notin> set l"
  by (induction s arbitrary: l) (auto split: if_splits list.splits)

lemma trimSpace_subset: "set (trimSpace s) \<subseteq> set s"
  by (auto simp: trimSpace_def trimC_def dest!: set_dropWhileD)

lemma QueryEscape_newline: "newline \<notin> set (QueryEscape s)"
  by (auto dest!: QueryEscape_chars simp: isAlpha_def isDigit_def)

lemma headerParts_newline: "newline \<notin> set pre \<Longrightarrow> newline \<notin> set (headerParts pre h)"
  using QueryEscape_newline by (auto simp: headerParts_def)

lemma build_newline:
  assumes "newline \<notin> set ext" "newline \<notin> set ep"
  shows "newline \<notin> set (build cfg sg rnd (newProxyURLBuilder cfg (Some opts)) ext ep dest)"
proof -
  have "newline \<notin> set (encChunks dest)"
    using encDest_safe [of dest] by (auto simp: encChunks_eq list_all_iff urlSafe_def isAlpha_def isDigit_def)
  then show ?thesis
    using assms QueryEscape_newline headerParts_newline
    by (simp add: build_def newProxyURLBuilder_def Let_def)
qed

lemma hlsSegmentEndpoint_shape: "\<exists>e. hlsSegmentEndpoint url def = ''/proxy/stream/segment.'' @ e \<and> (e \<in> set hlsSegmentExts \<or> e = def)"
  by (auto simp: hlsSegmentEndpoint_def hlsSegmentEndpoints_def Let_def split: option.splits if_splits)

lemma hlsSegmentExts_newline: "e \<in> set hlsSegmentExts \<Longrightarrow> newline \<notin> set e"
  by (auto simp: hlsSegmentExts_def)

lemma hlsSegmentEndpoint_newline: "newline \<notin> set def \<Longrightarrow> newline \<notin> set (hlsSegmentEndpoint url def)"
  using hlsSegmentEndpoint_shape [of url def] hlsSegmentExts_newline by auto

lemma uriValue_subset: "uriValue s = Some (v, r) \<Longrightarrow> set r \<subseteq> set s"
  by (auto simp: uriValue_def split: if_splits dest!: set_dropWhileD in_set_dropD)

lemma uriScan_newline:
  "uriScan pre s = Some (a, v, r) \<Longrightarrow> newline \<notin> set pre \<Longrightarrow> newline \<notin> set s \<Longrightarrow> newline \<notin> set a \<and> newline \<notin> set r"
proof (induction s arbitrary: pre)
  case (Cons c s)
  show ?case
  proof (cases "if c = CHR '':'' \<or> c = CHR '','' then uriValue s else None")
    case None
    then have "uriScan (pre @ [c]) s = Some (a, v, r)" using Cons.prems(1) by simp
    then show ?thesis using Cons.IH Cons.prems(2,3) by simp
  next
    case (Some vr)
    then have "uriValue s = Some vr" by (simp split: if_splits)
    moreover have "a = pre @ c # ''URI=\"'' \<and> (v, r) = vr" using Some Cons.prems(1) by (cases vr) simp
    ultimately show ?thesis using uriValue_subset [of s v r] Cons.prems(2,3) by auto
  qed
qed simp

lemma hlsURIAttr_newline: "hlsURIAttr l = Some (a, v, r) \<Longrightarrow> newline \<notin> set l \<Longrightarrow> newline \<notin> set a \<and> newline \<notin> set r"
  using uriScan_newline [of "[]" l a v r] uriValue_subset [of l v r]
  by (auto simp: hlsURIAttr_def split: option.splits)

lemma attrFunc_newline:
  assumes "newline \<notin> set l" "\<And>url. newline \<notin> set (bld (ef url) url)"
  shows "newline \<notin> set (hlsRewriteURIAttrFunc l base bld ef)"
proof (cases "hlsURIAttr l")
  case None
  then show ?thesis using assms(1) by (simp add: hlsRewriteURIAttrFunc_def)
next
  case (Some x)
  obtain a v r where x: "x = (a, v, r)" by (cases x)
  show ?thesis
    using assms hlsURIAttr_newline [OF Some [unfolded x] assms(1)] Some x
    by (simp add: hlsRewriteURIAttrFunc_def split: prod.splits bool.splits)
qed

lemma rewriteLine_newline:
  assumes "newline \<notin> set l" "\<And>ep url. newline \<notin> set ep \<Longrightarrow> newline \<notin> set (bld ep url)" "newline \<notin> set sd"
  shows "newline \<notin> set (fst (rewriteLine base bld sd nv l))"
proof -
  have t: "newline \<notin> set (trimSpace l)" using assms(1) trimSpace_subset by blast
  have e: "newline \<notin> set (hlsSegmentEndpoint url sd)" "newline \<notin> set (hlsSegmentEndpoint url ''mp4'')" for url
    using assms(3) by (simp_all add: hlsSegmentEndpoint_newline)
  have a: "newline \<notin> set (hlsRewriteURIAttrFunc (trimSpace l) base bld ef)" if "\<And>url. newline \<notin> set (ef url)" for ef
    using assms(2) that by (intro attrFunc_newline t) auto
  show ?thesis
    using t e a assms(2)
    by (auto simp: rewriteLine_def Let_def hlsRewriteURIAttr_def split: prod.splits bool.splits)
qed

lemma rewriteLines_length [simp]: "length (rewriteLines base bld sd i nv ls) = length ls"
  by (induction ls arbitrary: i nv) (auto split: prod.splits)

lemma rewriteLines_nth:
  "i < length ls \<Longrightarrow> \<exists>nv'. rewriteLines base bld sd k nv ls ! i = fst (rewriteLine base (bld (k + i)) sd nv' (ls ! i))"
proof (induction ls arbitrary: i k nv)
  case (Cons l ls)
  show ?case
  proof (cases i)
    case 0
    then show ?thesis by (auto intro!: exI [of _ nv] split: prod.splits)
  next
    case (Suc j)
    obtain out nv1 where "rewriteLine base (bld k) sd nv l = (out, nv1)" by (cases "rewriteLine base (bld k) sd nv l")
    with Cons.IH [of j "Suc k" nv1] Cons.prems Suc show ?thesis by simp
  qed
qed simp

text \<open>The lines of the rewritten playlist, one per line of the original.\<close>

lemma hlsRewrite_lines:
  assumes "newline \<notin> set ext"
  shows "\<exists>sd. (sd = ''mp4'' \<or> sd = ''ts'') \<and> splitOn newline (hlsRewrite cfg sg rnd ext opts pl) =
    rewriteLines (urlParse (Dest opts)) (\<lambda>i. build cfg sg (rnd i) (newProxyURLBuilder cfg (Some opts)) ext) sd 0 False (splitOn newline pl)"
proof -
  define sd where "sd = (if containsStr ''#EXT-X-MAP'' pl then ''mp4'' else ''ts'')"
  let ?ls = "rewriteLines (urlParse (Dest opts)) (\<lambda>i. build cfg sg (rnd i) (newProxyURLBuilder cfg (Some opts)) ext) sd 0 False (splitOn newline pl)"
  have "newline \<notin> set sd" by (simp add: sd_def)
  have "newline \<notin> set (?ls ! i)" if "i < length ?ls" for i
  proof -
    have i: "i < length (splitOn newline pl)" using that by simp
    obtain nv where "?ls ! i = fst (rewriteLine (urlParse (Dest opts)) (build cfg sg (rnd (0 + i)) (newProxyURLBuilder cfg (Some opts)) ext)
        sd nv (splitOn newline pl ! i))"
      using rewriteLines_nth [OF i] by blast
    then show ?thesis
      using rewriteLine_newline [OF splitOn_free [OF nth_mem [OF i]] build_newline [OF assms] \<open>newline \<notin> set sd\<close>] by simp
  qed
  then have "\<forall>l \<in> set ?ls. newline \<notin> set l" by (auto simp: in_set_conv_nth [of _ ?ls])
  moreover have "?ls \<noteq> []" using rewriteLines_length by (metis length_0_conv splitOn_ne)
  ultimately have "splitOn newline (joinWith [newline] ?ls) = ?ls" by (intro splitOn_join)
  then show ?thesis unfolding hlsRewrite_def Let_def sd_def by (intro exI [of _ sd]) (simp add: sd_def)
qed

definition segLine :: "URL option \<Rightarrow> string \<Rightarrow> string \<Rightarrow> bool" where
  "segLine base l u \<longleftrightarrow> trimSpace l \<noteq> [] \<and> \<not> hasPrefix ''#'' (trimSpace l) \<and> hlsResolve base (trimSpace l) = (u, False)"

lemma segmentURLs_Cons:
  "segmentURLs base mx (l # ls) urls = segmentURLs base mx ls urls \<or>
   (\<exists>u. segLine base l u \<and> (segmentURLs base mx (l # ls) urls = urls @ [u] \<or>
      segmentURLs base mx (l # ls) urls = segmentURLs base mx ls (urls @ [u])))"
  by (cases "hlsResolve base (trimSpace l)") (auto simp: Let_def segLine_def split: bool.splits)

lemma segmentURLs_from: "u \<in> set (segmentURLs base mx ls urls) \<Longrightarrow> u \<in> set urls \<or> (\<exists>l \<in> set ls. segLine base l u)"
proof (induction ls arbitrary: urls)
  case (Cons l ls)
  from segmentURLs_Cons [of base mx l ls urls]
  consider "segmentURLs base mx (l # ls) urls = segmentURLs base mx ls urls"
    | w where "segLine base l w" "segmentURLs base mx (l # ls) urls = urls @ [w]"
    | w where "segLine base l w" "segmentURLs base mx (l # ls) urls = segmentURLs base mx ls (urls @ [w])"
    by blast
  then show ?case
  proof cases
    case 1
    with Cons.prems Cons.IH [of urls] show ?thesis by auto
  next
    case 2
    with Cons.prems show ?thesis by auto
  next
    case (3 w)
    with Cons.prems Cons.IH [of "urls @ [w]"] show ?thesis by auto
  qed
qed simp

lemma segmentURLs_length: "0 < mx \<Longrightarrow> int (length urls) < mx \<Longrightarrow> int (length (segmentURLs base mx ls urls)) \<le> mx"
  by (induction ls arbitrary: urls) (auto simp: Let_def split: prod.splits bool.splits)

lemma rewriteLine_bare:
  assumes "trimSpace l \<noteq> []" "\<not> hasPrefix ''#'' (trimSpace l)" "hlsResolve base (trimSpace l) = (u, False)"
  shows "\<exists>ep. fst (rewriteLine base bld sd nv l) = bld ep u \<and> (ep = ''/proxy/hls/manifest.m3u8'' \<or> ep = hlsSegmentEndpoint u sd)"
  using assms by (auto simp: rewriteLine_def Let_def)

section \<open>Properties\<close>

text \<open>What the proxy prefetches is what the player will ask for: every prefetched URL, at most the configured number, is
  the destination that the proxy decodes from one line of the rewritten playlist, which has a line for every line of
  the original.\<close>

theorem hls_prefetch_matches:
  assumes "u \<in> set (hlsSegmentURLs (Dest opts) pl mx)" "newline \<notin> set ext"
  shows "\<exists>i ep q. i < length (splitOn newline pl) \<and>
    splitOn newline (hlsRewrite cfg sg rnd ext opts pl) ! i = ext @ ep @ ''?'' @ q \<and>
    decodeDest (qGet (parseQuery q) ''d'') = u \<and> (ep = ''/proxy/hls/manifest.m3u8'' \<or> hasPrefix ''/proxy/stream/segment.'' ep) \<and>
    length (splitOn newline (hlsRewrite cfg sg rnd ext opts pl)) = length (splitOn newline pl) \<and>
    int (length (hlsSegmentURLs (Dest opts) pl mx)) \<le> mx"
proof -
  have mx: "0 < mx" using assms(1) by (auto simp: hlsSegmentURLs_def split: if_splits)
  let ?ls = "splitOn newline pl" and ?b = "urlParse (Dest opts)"
  obtain sd where out: "splitOn newline (hlsRewrite cfg sg rnd ext opts pl) =
      rewriteLines ?b (\<lambda>i. build cfg sg (rnd i) (newProxyURLBuilder cfg (Some opts)) ext) sd 0 False ?ls"
    using hlsRewrite_lines [OF assms(2)] by blast
  obtain i where i: "i < length ?ls" "trimSpace (?ls ! i) \<noteq> []" "\<not> hasPrefix ''#'' (trimSpace (?ls ! i))"
      "hlsResolve ?b (trimSpace (?ls ! i)) = (u, False)"
    using segmentURLs_from [of u ?b mx ?ls "[]"] assms(1) mx by (auto simp: hlsSegmentURLs_def segLine_def in_set_conv_nth [of _ ?ls])
  obtain nv where nv: "splitOn newline (hlsRewrite cfg sg rnd ext opts pl) ! i =
      fst (rewriteLine ?b (build cfg sg (rnd (0 + i)) (newProxyURLBuilder cfg (Some opts)) ext) sd nv (?ls ! i))"
    using rewriteLines_nth [OF i(1)] unfolding out by blast
  obtain ep where ep: "splitOn newline (hlsRewrite cfg sg rnd ext opts pl) ! i =
      build cfg sg (rnd (0 + i)) (newProxyURLBuilder cfg (Some opts)) ext ep u"
      "ep = ''/proxy/hls/manifest.m3u8'' \<or> ep = hlsSegmentEndpoint u sd"
    using rewriteLine_bare [OF i(2-4)] nv by metis
  have "ep = ''/proxy/hls/manifest.m3u8'' \<or> hasPrefix ''/proxy/stream/segment.'' ep"
    using ep(2) hlsSegmentEndpoint_shape [of u sd] by (auto simp: hasPrefix_def)
  moreover obtain tok q where q: "build cfg sg (rnd (0 + i)) (newProxyURLBuilder cfg (Some opts)) ext ep u = ext @ ep @ ''?'' @ q"
      "parseQuery q = urlPairs opts tok u"
    using build_query [OF refl] by blast
  moreover have "decodeDest (qGet (parseQuery q) ''d'') = u" by (simp add: q(2) qGet_def urlPairs_vals decodeDest_enc)
  moreover have "length (splitOn newline (hlsRewrite cfg sg rnd ext opts pl)) = length ?ls" by (simp add: out)
  moreover have "int (length (hlsSegmentURLs (Dest opts) pl mx)) \<le> mx"
    using segmentURLs_length [OF mx] mx by (simp add: hlsSegmentURLs_def)
  ultimately show ?thesis using i(1) ep(1) q(1) by metis
qed

section \<open>The fast path of URI resolution\<close>

lemma unescape_id:
  assumes "CHR ''%'' \<notin> set s" "m \<noteq> encodeQueryComponent"
  shows "unescape s m = None \<or> unescape s m = Some s"
  using assms by (induction s) auto

lemma unescape_host_clean:
  assumes "CHR ''%'' \<notin> set s" "unescape s encodeHost = Some s" "\<forall>c \<in> set s. ch c < 128"
  shows "escape s encodeHost = s"
  using assms
proof (induction s)
  case (Cons c s)
  have "\<not> shouldEscape c encodeHost" and "unescape s encodeHost = Some s"
    using Cons.prems by (auto split: if_splits)
  with Cons show ?case by (simp add: escape_def escapeC_def)
qed (simp add: escape_def)

lemma parseHost_id:
  assumes "CHR ''%'' \<notin> set h"
  shows "parseHost h = None \<or> (parseHost h = Some h \<and> unescape h encodeHost = Some h)"
proof -
  have s: "splitStr ''%25'' acc b = None" if "CHR ''%'' \<notin> set b" for acc b
    using that by (induction b arbitrary: acc) (auto simp: hasPrefix_def)
  have b: "splitStr ''%25'' [] b = None" if "cutLast c h = Some (b, p)" for b c p
  proof (rule s)
    have "set b \<subseteq> set h"
      using that by (auto simp: cutLast_def split: if_splits dest!: in_set_dropD set_dropWhileD)
    with assms show "CHR ''%'' \<notin> set b" by blast
  qed
  show ?thesis
    using unescape_id [OF assms, of encodeHost] b
    by (auto simp: parseHost_def split: option.splits)
qed

lemma parseAuthority_plain:
  assumes "CHR ''@'' \<notin> set a" "CHR ''%'' \<notin> set a"
  shows "parseAuthority a = None \<or> (parseAuthority a = Some (None, a) \<and> unescape a encodeHost = Some a)"
  using parseHost_id [OF assms(2)] assms(1) by (auto simp: parseAuthority_def cutLast_def)

lemma dotSegments_plain:
  assumes "\<forall>e \<in> set es. e \<noteq> ''.'' \<and> e \<noteq> ''..''" "es \<noteq> []"
  shows "dotSegments es dst first = dst @ (if first then [] else ''/'') @ joinWith ''/'' es"
  using assms
proof (induction es arbitrary: dst first)
  case (Cons e es)
  note ih = Cons.IH and hyp = Cons.prems
  then have e: "dotSegments (e # es) dst first = dotSegments es (dst @ (if first then [] else ''/'') @ e) False" by simp
  show ?case
  proof (cases es)
    case Nil
    with e show ?thesis by simp
  next
    case (Cons e2 es2)
    then have "es \<noteq> []" "\<forall>e \<in> set es. e \<noteq> ''.'' \<and> e \<noteq> ''..''" using hyp by auto
    from ih [OF this(2,1), of "dst @ (if first then [] else ''/'') @ e" False] e Cons show ?thesis by simp
  qed
qed simp

lemma join_splitOn: "joinWith [c] (splitOn c s) = s"
proof (induction s)
  case (Cons x s)
  obtain w ws where "splitOn c s = w # ws" by (cases "splitOn c s") auto
  with Cons show ?case by (cases ws) auto
qed simp

lemma containsStr_append: "containsStr p (a @ p @ b)"
  by (induction a) (cases "p @ b", auto simp: hasPrefix_def, cases p, auto simp: hasPrefix_def)

lemma joinWith_mem: "e \<in> set (tl es) \<Longrightarrow> \<exists>a b. joinWith [c] es = a @ c # e @ b"
proof (induction "[c]" es rule: joinWith.induct)
  case (3 x y ys)
  show ?case
  proof (cases "e = y")
    case True
    obtain b where "joinWith [c] (y # ys) = y @ b" by (cases ys) auto
    with True show ?thesis by auto
  next
    case False
    with 3 obtain a b where "joinWith [c] (y # ys) = a @ c # e @ b" by auto
    then have "joinWith [c] (x # y # ys) = (x @ c # a) @ c # e @ b" by simp
    then show ?thesis by blast
  qed
qed simp_all

lemma splitOn_mem: "e \<in> set (splitOn c s) \<Longrightarrow> e = hd (splitOn c s) \<or> (\<exists>a b. s = a @ c # e @ b)"
  using joinWith_mem [of e "splitOn c s" c] join_splitOn [of c s] by (cases "splitOn c s") auto

lemma resolvePath_plain:
  assumes "hasPrefix ''/'' p" "\<not> containsStr ''/.'' p"
  shows "resolvePath p [] = p"
proof -
  obtain q where p: "p = CHR ''/'' # q" using assms(1) by (cases p) (auto simp: hasPrefix_def)
  let ?es = "splitOn (CHR ''/'') p"
  have hd: "hd ?es = []" by (simp add: p)
  have nd: "e \<noteq> ''.'' \<and> e \<noteq> ''..''" if "e \<in> set ?es" for e
  proof -
    have "e \<noteq> CHR ''.'' # r" for r
    proof
      assume e: "e = CHR ''.'' # r"
      with splitOn_mem [OF that] hd obtain a b where "p = a @ ''/.'' @ (r @ b)" by auto
      with assms(2) containsStr_append show False by metis
    qed
    then show ?thesis by blast
  qed
  have "dotSegments ?es [] True = p" using dotSegments_plain [of ?es "[]" True] nd join_splitOn by simp
  moreover have "last ?es \<noteq> ''.'' \<and> last ?es \<noteq> ''..''" using nd [of "last ?es"] by simp
  ultimately show ?thesis using p by (simp add: resolvePath_def Let_def)
qed

lemma EscapedPath_plain:
  assumes "CHR ''%'' \<notin> set p" "hasPrefix ''/'' p" "validEncoded p encodePath" "setPath u p = Some v"
  shows "EscapedPath v = p" "v = u\<lparr>Path := p, RawPath := RawPath v\<rparr>"
proof -
  have u: "unescape p encodePath = Some p" using assms(1) by (intro unescape_plain) auto
  then have v: "v = u\<lparr>Path := p, RawPath := if p = escape p encodePath then [] else p\<rparr>" using assms(4) by (simp add: setPath_def)
  then show "v = u\<lparr>Path := p, RawPath := RawPath v\<rparr>" by simp
  have "p \<noteq> ''*''" "p \<noteq> []" using assms(2) by (auto simp: hasPrefix_def)
  with v u assms(3) show "EscapedPath v = p" by (auto simp: EscapedPath_def)
qed

text \<open>The shape of a plain absolute URI: scheme, authority, path, query.\<close>

lemma while_stop:
  assumes "c \<notin> set a"
  shows "takeWhile (\<lambda>x. x \<noteq> c) (a @ c # b) = a" "dropWhile (\<lambda>x. x \<noteq> c) (a @ c # b) = c # b"
    "takeWhile (\<lambda>x. x \<noteq> c) a = a" "dropWhile (\<lambda>x. x \<noteq> c) a = []"
  using assms by (induction a) auto

definition queryOf :: "bool \<Rightarrow> string \<Rightarrow> string" where
  "queryOf fq rq = (if fq \<or> rq \<noteq> [] then ''?'' @ rq else [])"

lemma splitQuery_cut:
  assumes "CHR ''?'' \<notin> set a" "q = [] \<or> hasPrefix ''?'' q"
  shows "\<exists>fq rq. splitQuery (a @ q) = (a, fq, rq) \<and> queryOf fq rq = q"
proof (cases q)
  case Nil
  then have "splitQuery (a @ q) = (a, False, [])"
    using assms(1) by (cases "a = []") (auto simp: splitQuery_def cutAt_def while_stop dest: last_in_set)
  then show ?thesis using Nil by (auto simp: queryOf_def)
next
  case (Cons c t)
  then have c: "c = CHR ''?''" using assms(2) by (simp add: hasPrefix_def)
  show ?thesis
  proof (cases "t = []")
    case True
    then have "splitQuery (a @ q) = (a, True, [])"
      using assms(1) Cons c by (simp add: splitQuery_def butlast_append)
    then show ?thesis using True Cons c by (auto simp: queryOf_def)
  next
    case False
    then have "splitQuery (a @ q) = (a, False, t)"
      using assms(1) Cons c by (simp add: splitQuery_def butlast_append cutAt_def while_stop)
    then show ?thesis using False Cons c by (auto simp: queryOf_def)
  qed
qed

definition plainC :: "char \<Rightarrow> bool" where
  "plainC c \<longleftrightarrow> c \<notin> {CHR ''%'', CHR ''#'', CHR ''@'', CHR 0x5C} \<and> 32 < ch c \<and> ch c < 127"

lemma list_ex_plain:
  "list_ex (\<lambda>c. c \<in> {CHR ''%'', CHR ''#'', CHR ''@'', CHR 0x5C} \<or> ch c \<le> 32 \<or> ch c \<ge> 127) s \<longleftrightarrow> \<not> list_all plainC s"
  by (induction s) (simp_all add: plainC_def not_less not_le)

definition plainParts :: "string \<Rightarrow> string \<Rightarrow> string \<Rightarrow> string \<Rightarrow> bool" where
  "plainParts sch auth p q \<longleftrightarrow> (sch = ''http'' \<or> sch = ''https'') \<and> auth \<noteq> [] \<and> CHR ''/'' \<notin> set auth \<and> hasPrefix ''/'' p \<and>
     CHR ''?'' \<notin> set auth \<and> CHR ''?'' \<notin> set p \<and> (q = [] \<or> hasPrefix ''?'' q) \<and> \<not> containsStr ''/.'' p \<and> list_all plainC (auth @ p @ q)"

lemma hasPrefix_split: "hasPrefix p s \<Longrightarrow> s = p @ drop (length p) s"
  by (metis append_take_drop_id hasPrefix_def)

lemma dropWhile_prefix: "dropWhile (\<lambda>x. x \<noteq> c) s = [] \<or> hasPrefix [c] (dropWhile (\<lambda>x. x \<noteq> c) s)"
  by (induction s) (auto simp: hasPrefix_def)

lemma plain_shape:
  assumes "hlsPlainAbsolute ref"
  shows "\<exists>sch auth p q. ref = sch @ ''://'' @ auth @ p @ q \<and> plainParts sch auth p q"
proof -
  obtain sch rest where ref: "ref = sch @ ''://'' @ rest" "sch = ''http'' \<or> sch = ''https''"
    and rest: "(if hasPrefix ''https://'' ref then Some (drop 8 ref) else if hasPrefix ''http://'' ref then Some (drop 7 ref) else None) = Some rest"
  proof -
    have h: "hasPrefix ''https://'' ref \<Longrightarrow> ref = ''https'' @ ''://'' @ drop 8 ref" "hasPrefix ''http://'' ref \<Longrightarrow> ref = ''http'' @ ''://'' @ drop 7 ref"
      using hasPrefix_split [of "''https://''" ref] hasPrefix_split [of "''http://''" ref] by (simp_all add: eval_nat_numeral)
    consider "hasPrefix ''https://'' ref" | "\<not> hasPrefix ''https://'' ref" "hasPrefix ''http://'' ref"
      using assms by (cases "hasPrefix ''https://'' ref"; cases "hasPrefix ''http://'' ref") (simp_all add: hlsPlainAbsolute_def)
    then show ?thesis
    proof cases
      case 1
      then show ?thesis by (intro that [of "''https''" "drop 8 ref"]) (use h(1) in simp_all)
    next
      case 2
      then show ?thesis by (intro that [of "''http''" "drop 7 ref"]) (use h(2) in simp_all)
    qed
  qed
  let ?a = "takeWhile (\<lambda>c. c \<noteq> CHR ''/'') rest" and ?b = "takeWhile (\<lambda>c. c \<noteq> CHR ''?'') rest"
  have c: "length ?a \<noteq> length rest" "length ?a \<noteq> 0" "list_all plainC rest" "length ?a \<le> length ?b"
    "\<not> containsStr ''/.'' (drop (length ?a) (take (length ?b) rest))"
    using assms unfolding hlsPlainAbsolute_def rest Let_def option.case list_ex_plain by (auto split: if_splits)
  define p q where "p = drop (length ?a) ?b" and "q = dropWhile (\<lambda>c. c \<noteq> CHR ''?'') rest"
  have tb: "take (length ?b) rest = ?b" by (metis takeWhile_eq_take)
  have ta: "take (length ?a) rest = ?a" by (metis takeWhile_eq_take)
  have pre: "take (length ?a) ?b = ?a" using c(4) ta tb by (metis min.absorb1 take_take)
  have b: "?b = ?a @ p" unfolding p_def using pre by (metis append_take_drop_id)
  have r: "rest = ?a @ p @ q" using b takeWhile_dropWhile_id [of "\<lambda>c. c \<noteq> CHR ''?''" rest] unfolding q_def by simp
  have q: "q = [] \<or> hasPrefix ''?'' q"
    unfolding q_def by (rule dropWhile_prefix)
  have n: "CHR ''/'' \<notin> set ?a" "CHR ''?'' \<notin> set ?b" by (auto dest: set_takeWhileD)
  have "?a @ dropWhile (\<lambda>c. c \<noteq> CHR ''/'') rest = ?a @ p @ q" using r by simp
  then have d: "dropWhile (\<lambda>c. c \<noteq> CHR ''/'') rest = p @ q" by (simp only: same_append_eq)
  have "dropWhile (\<lambda>c. c \<noteq> CHR ''/'') rest \<noteq> []" using c(1) by (metis append_Nil2 takeWhile_dropWhile_id)
  with dropWhile_prefix [of "CHR ''/''" rest] have "hasPrefix ''/'' (p @ q)" by (simp only: d simp_thms)
  then have p: "hasPrefix ''/'' p" using q by (cases p) (auto simp: hasPrefix_def)
  have l: "list_all plainC (?a @ p @ q)" using c(3) unfolding r [symmetric] .
  have nb: "CHR ''?'' \<notin> set ?a" "CHR ''?'' \<notin> set p" using n(2) unfolding b by auto
  have dot: "\<not> containsStr ''/.'' p" using c(5) unfolding tb p_def .
  have "?a \<noteq> []" using c(2) by auto
  then have "plainParts sch ?a p q" unfolding plainParts_def using ref(2) n(1) nb q p l dot by blast
  moreover have "ref = sch @ ''://'' @ ?a @ p @ q" using ref(1) unfolding r [symmetric] .
  ultimately show ?thesis by blast
qed

lemma getScheme_http:
  assumes "sch = ''http'' \<or> sch = ''https''"
  shows "getScheme (sch @ ''://'' @ r) = Some (sch, ''//'' @ r)"
  using assms by (auto simp: getScheme_def isAlpha_def isDigit_def)

lemma plainParts_chars:
  assumes "plainParts sch auth p q"
  shows "CHR ''%'' \<notin> set auth" "CHR ''@'' \<notin> set auth" "CHR ''%'' \<notin> set p" "CHR ''#'' \<notin> set (sch @ ''://'' @ auth @ p @ q)"
    "\<forall>c \<in> set auth. ch c < 128" "\<not> list_ex (\<lambda>c. ch c < 32 \<or> ch c = 127) (sch @ ''://'' @ auth @ p @ q)"
proof -
  have p: "\<forall>c \<in> set auth. plainC c" "\<forall>c \<in> set p. plainC c" "\<forall>c \<in> set q. plainC c"
    using assms by (auto simp: plainParts_def list_all_iff)
  have np: "\<not> plainC (CHR ''%'')" "\<not> plainC (CHR ''@'')" "\<not> plainC (CHR ''#'')" by (simp_all add: plainC_def)
  show "CHR ''%'' \<notin> set auth" "CHR ''@'' \<notin> set auth" "CHR ''%'' \<notin> set p" using p np by blast+
  have s: "list_all plainC (sch @ '':'')" "CHR ''#'' \<notin> set (sch @ ''://'')"
    using assms by (auto simp: plainParts_def plainC_def)
  show "CHR ''#'' \<notin> set (sch @ ''://'' @ auth @ p @ q)" using s(2) p np by auto
  have r: "plainC c \<Longrightarrow> 32 \<le> ch c \<and> ch c \<noteq> 127 \<and> ch c < 128" for c by (simp add: plainC_def)
  show "\<forall>c \<in> set auth. ch c < 128" using p(1) r by blast
  have "plainC (CHR ''/'')" by (simp add: plainC_def)
  then have "\<forall>c \<in> set (sch @ ''://'' @ auth @ p @ q). plainC c"
    using s(1) p by (simp add: list_all_iff ball_Un)
  then show "\<not> list_ex (\<lambda>c. ch c < 32 \<or> ch c = 127) (sch @ ''://'' @ auth @ p @ q)"
    using r unfolding list_ex_iff by (meson not_le)
qed

lemma urlParse_plain:
  assumes "plainParts sch auth p q" "ref = sch @ ''://'' @ auth @ p @ q"
  shows "\<exists>fq rq. queryOf fq rq = q \<and> urlParse ref = bindO (parseAuthority auth)
    (\<lambda>(us, h). setPath (zeroURL\<lparr>Scheme := sch, ForceQuery := fq, RawQuery := rq, User := us, Host := h\<rparr>) p)"
proof -
  note h = assms(1) [unfolded plainParts_def] and ch = plainParts_chars [OF assms(1)]
  have nq: "CHR ''?'' \<notin> set (''//'' @ auth @ p)" using h by auto
  obtain fq rq where fq: "splitQuery ((''//'' @ auth @ p) @ q) = (''//'' @ auth @ p, fq, rq)" "queryOf fq rq = q"
    using splitQuery_cut [OF nq] h by blast
  have frag: "cutAt (CHR ''#'') ref = (ref, [])" using ch(4) assms(2) by (simp add: cutAt_def while_stop)
  have low: "map lowerC sch = sch" using h by (auto simp: lowerC_def)
  obtain p' where p': "p = CHR ''/'' # p'" using h by (cases p) (auto simp: hasPrefix_def)
  have ac: "takeWhile (\<lambda>c. c \<noteq> CHR ''/'') (auth @ p) = auth" "dropWhile (\<lambda>c. c \<noteq> CHR ''/'') (auth @ p) = p"
    using h while_stop unfolding p' by auto
  have pr: "parseRest (zeroURL\<lparr>Scheme := sch, ForceQuery := fq, RawQuery := rq\<rparr>) (''//'' @ auth @ p) =
      bindO (parseAuthority auth) (\<lambda>(us, h). setPath (zeroURL\<lparr>Scheme := sch, ForceQuery := fq, RawQuery := rq, User := us, Host := h\<rparr>) p)"
    using h ac by (auto simp: parseRest_def hasPrefix_def Let_def)
  have "ref \<noteq> ''*''" using assms(2) h by auto
  moreover have "\<not> list_ex (\<lambda>c. ch c < 32 \<or> ch c = 127) ref" using ch(6) assms(2) by simp
  moreover have "getScheme ref = Some (sch, ''//'' @ auth @ p @ q)" using getScheme_http h assms(2) by blast
  ultimately have "parseNoFrag ref = bindO (parseAuthority auth) (\<lambda>(us, h). setPath (zeroURL\<lparr>Scheme := sch, ForceQuery := fq, RawQuery := rq, User := us, Host := h\<rparr>) p)"
    using fq(1) low pr unfolding parseNoFrag_def by (simp add: bindO_def del: append_Cons append_Nil)
  then have "urlParse ref = bindO (parseAuthority auth) (\<lambda>(us, h). setPath (zeroURL\<lparr>Scheme := sch, ForceQuery := fq, RawQuery := rq, User := us, Host := h\<rparr>) p)"
    using frag by (simp add: urlParse_def bindO_def split: option.splits)
  then show ?thesis using fq(2) by blast
qed

text \<open>Characters that URL printing escapes in a path although the fast path lets them through.\<close>

definition pathSafe :: "string \<Rightarrow> bool" where
  "pathSafe s = list_all (\<lambda>c. c \<notin> {CHR 0x22, CHR ''<'', CHR ''>'', CHR ''^'', CHR ''`'', CHR ''{'', CHR ''|'', CHR ''}''}) s"

lemma plainC_valid: "plainC c \<Longrightarrow> c \<noteq> CHR ''?'' \<Longrightarrow> pathSafe [c] \<Longrightarrow> c \<in> set ''!$&()*+,;=:@[]%'' \<or> ch c = 39 \<or> \<not> shouldEscape c encodePath"
proof -
  assume c: "plainC c" "c \<noteq> CHR ''?''" "pathSafe [c]"
  have "list_all (\<lambda>n. (\<lambda>c. plainC c \<and> c \<noteq> CHR ''?'' \<and> pathSafe [c] \<longrightarrow>
      c \<in> set ''!$&()*+,;=:@[]%'' \<or> ch c = 39 \<or> \<not> shouldEscape c encodePath) (char_of n)) [33..<127]"
    by code_simp
  moreover have "ch c \<in> set [33..<127]"
    using c(1) unfolding plainC_def set_upt atLeastLessThan_iff by linarith
  ultimately show ?thesis using c unfolding list_all_iff by (metis char_of_char)
qed

lemma urlString_abs:
  assumes "Scheme v = sch" "sch \<noteq> []" "Opaque v = []" "User v = None" "Host v = auth" "auth \<noteq> []" "Fragment v = []"
    "EscapedPath v = p" "hasPrefix ''/'' p" "escape auth encodeHost = auth"
  shows "urlString v = sch @ ''://'' @ auth @ p @ queryOf (ForceQuery v) (RawQuery v)"
proof -
  have "p \<noteq> []" "hd p = CHR ''/''" using assms(9) by (cases p; auto simp: hasPrefix_def)+
  with assms show ?thesis by (simp add: urlString_def Let_def queryOf_def)
qed

lemma slow_plain:
  assumes ref: "ref = sch @ ''://'' @ auth @ p @ q" and pp: "plainParts sch auth p q" and safe: "pathSafe p"
  shows "slowResolve base ref = (ref, False)"
proof -
  note h = pp [unfolded plainParts_def] and ch = plainParts_chars [OF pp]
  obtain fq rq where q: "queryOf fq rq = q" and parse: "urlParse ref = bindO (parseAuthority auth)
      (\<lambda>(us, h). setPath (zeroURL\<lparr>Scheme := sch, ForceQuery := fq, RawQuery := rq, User := us, Host := h\<rparr>) p)"
    using urlParse_plain [OF pp ref] by blast
  show ?thesis
  proof (cases "parseAuthority auth")
    case None
    then show ?thesis using parse by (simp add: slowResolve_def bindO_def)
  next
    case (Some x)
    with parseAuthority_plain [OF ch(2,1)] have x: "x = (None, auth)" and un: "unescape auth encodeHost = Some auth" by auto
    let ?u = "zeroURL\<lparr>Scheme := sch, ForceQuery := fq, RawQuery := rq, User := None, Host := auth\<rparr>"
    have val: "validEncoded p encodePath"
      unfolding validEncoded_def list_all_iff
    proof
      fix c
      assume c: "c \<in> set p"
      have "plainC c" "pathSafe [c]" "c \<noteq> CHR ''?''" using h c safe by (auto simp: list_all_iff pathSafe_def)
      then show "c \<in> set ''!$&()*+,;=:@[]%'' \<or> ch c = 39 \<or> \<not> shouldEscape c encodePath" by (intro plainC_valid)
    qed
    have unp: "unescape p encodePath = Some p" using ch(3) by (intro unescape_plain) auto
    then obtain v where v: "setPath ?u p = Some v" by (simp add: setPath_def)
    have pre: "hasPrefix ''/'' p" using h by blast
    note ev = EscapedPath_plain [OF ch(3) pre val v]
    have uv: "urlParse ref = Some v" using parse Some x v by (simp add: bindO_def)
    have sv: "Scheme v = sch" by (subst ev(2)) (simp add: zeroURL_def)
    have sch: "sch \<noteq> []" "\<not> hlsNonHTTPScheme v" using h sv by (auto simp: hlsNonHTTPScheme_def)
    have "\<not> containsStr ''/.'' p" using h by blast
    then have rp: "resolvePath (EscapedPath v) [] = p" using resolvePath_plain [OF pre] ev(1) by simp
    have "setPath v p = Some (v\<lparr>Path := p, RawPath := if p = escape p encodePath then [] else p\<rparr>)" using unp by (simp add: setPath_def)
    then obtain w where w: "setPath v p = Some w" by blast
    note ew = EscapedPath_plain [OF ch(3) pre val w]
    have rr: "ResolveReference b v = w" for b
      using sch(1) sv rp w by (simp add: ResolveReference_def Let_def setPathOr_def)
    have wv: "Scheme w = Scheme v" "Opaque w = Opaque v" "User w = User v" "Host w = Host v" "Fragment w = Fragment v"
      "ForceQuery w = ForceQuery v" "RawQuery w = RawQuery v" by (subst ew(2), simp)+
    have vu: "Opaque v = []" "User v = None" "Host v = auth" "Fragment v = []" "ForceQuery v = fq" "RawQuery v = rq"
      by (subst ev(2), simp add: zeroURL_def)+
    note f = wv(1) [unfolded sv] wv(2) [unfolded vu(1)] wv(3) [unfolded vu(2)] wv(4) [unfolded vu(3)] wv(5) [unfolded vu(4)]
      wv(6) [unfolded vu(5)] wv(7) [unfolded vu(6)]
    have "urlString w = ref"
      using urlString_abs [OF f(1) sch(1) f(2,3,4) _ f(5) ew(1) pre] unescape_host_clean [OF ch(1) un ch(5)] h ref q f(6,7) by simp
    then show ?thesis using uv sch(2) rr by (simp add: slowResolve_def split: option.split)
  qed
qed

text \<open>C18: The fast path of URI resolution is exact: for a playlist URI without the characters that URL printing would escape in
  a path, skipping the parse for plain absolute URIs gives what parsing, resolving against the playlist URL and
  printing gives, for every playlist URL.\<close>

theorem hls_fast_path_exact:
  assumes "pathSafe ref"
  shows "hlsResolve base ref = slowResolve base ref"
proof (cases "hlsPlainAbsolute ref")
  case True
  then obtain sch auth p q where ref: "ref = sch @ ''://'' @ auth @ p @ q" "plainParts sch auth p q" using plain_shape by blast
  then have "pathSafe p" using assms by (simp add: pathSafe_def)
  with ref True show ?thesis using slow_plain by (simp add: hlsResolve_def)
qed (simp add: hlsResolve_def)

text \<open>Outside that character set the claim behind the fast path fails: a plain absolute URI with a vertical bar in its
  path is kept as it is, while parsing, resolving and printing escapes the bar.\<close>

theorem hls_fast_path_diverges:
  "hlsResolve (urlParse ''http://h/'') ''http://h/a|b'' = (''http://h/a|b'', False) \<and>
   slowResolve (urlParse ''http://h/'') ''http://h/a|b'' = (''http://h/a%7Cb'', False)"
  by code_simp

text \<open>A variant playlist without an m3u8 name is rewritten to the manifest endpoint but prefetched like a segment.\<close>

theorem hls_variant_prefetched:
  "hlsSegmentURLs ''http://x/'' (joinWith [newline] [''#EXT-X-STREAM-INF:BANDWIDTH=1'', ''low'']) 1 = [''http://x/low''] \<and>
   fst (rewriteLine (urlParse ''http://x/'') (\<lambda>ep url. ep @ '' '' @ url) ''ts'' True ''low'') = ''/proxy/hls/manifest.m3u8 http://x/low''"
  by code_simp

section \<open>Witnesses\<close>

definition demoPlaylist :: string where
  "demoPlaylist = joinWith [newline] [''#EXTM3U'', ''#EXTINF:4,'', ''a.ts'', ''http://h/b.ts'']"

definition demoOpts :: Options where
  "demoOpts = \<lparr>Dest = ''http://x/y/z.m3u8'', ReqHeaders = [], RespHeaders = [], APIPassword = ''pw'', Proxy = [], subTokenExp = 0, subTokenIP = []\<rparr>"

lemma demo_prefetch: "''http://x/y/a.ts'' \<in> set (hlsSegmentURLs (Dest demoOpts) demoPlaylist 2)" "newline \<notin> set ''http://ext''"
  by code_simp+

theorem hls_prefetch_matches_witness:
  "\<exists>i ep q. splitOn newline (hlsRewrite demoCfg demoSigner (\<lambda>_. None) ''http://ext'' demoOpts demoPlaylist) ! i = ''http://ext'' @ ep @ ''?'' @ q \<and>
     decodeDest (qGet (parseQuery q) ''d'') = ''http://x/y/a.ts''"
  using hls_prefetch_matches [OF demo_prefetch, of demoCfg demoSigner "\<lambda>_. None"] by blast

theorem hls_fast_path_exact_witness:
  "hlsPlainAbsolute ''http://h/b.ts'' \<and> slowResolve (urlParse ''http://x/y/z.m3u8'') ''http://h/b.ts'' = (''http://h/b.ts'', False)"
proof -
  have "pathSafe ''http://h/b.ts''" and p: "hlsPlainAbsolute ''http://h/b.ts''" by code_simp+
  from hls_fast_path_exact [OF this(1), of "urlParse ''http://x/y/z.m3u8''"] p show ?thesis by (simp add: hlsResolve_def)
qed

end
