(* ===== verification/Proxy_Serve.thy ===== *)
theory Proxy_Serve
  imports Proxy_Clients Seg_Flight Dash_Rewrite Hls_Rewrite Drm_Decrypt
begin

text \<open>
  The request handlers of the stream proxy: \<open>serveStream\<close>, \<open>Route\<close>, \<open>HandleGenerateURL\<close> and \<open>HandleBase64\<close>
  (\<open>streamproxy/streamproxy.go\<close>), \<open>hlsServe\<close> (\<open>hls.go\<close>), \<open>dashServe\<close> (\<open>dash.go\<close>), \<open>resolveEmbed\<close> (\<open>embed.go\<close>),
  \<open>HandleExtractor\<close> and its page fetcher (\<open>extractor.go\<close>), \<open>prefetch\<close> (\<open>cache.go\<close>). A handler is a function of the
  request and of the answers it gets: what an upstream returns, whether the byte budget grants a reservation, what the
  segment cache holds. It gives the reply and the trace of its effects on shared state, in order. The answers are
  arbitrary, so a property of the trace holds however other requests interleave.
\<close>

section \<open>Answers and effects\<close>

record extractResult =
  resURL :: string
  resHeaders :: "(string \<times> string) list"
  resEndpoint :: string

text \<open>An extractor is known by its interaction with the page fetcher: it asks for pages (verb, URL, headers, body) and
  goes on with what it gets, an error being \<open>None\<close>, until it gives a result or fails.\<close>

datatype script =
    Give "extractResult option"
  | Ask string string "(string \<times> string) list" "byte list option" "string option \<Rightarrow> script"

datatype effect =
    EFetch string string Header string
  | EAcquire int
  | ERelease int
  | EAwait string
  | EPut string "byte list" http_header int
  | EEmbedPut string extractResult
  | EPrefetch string Header string

text \<open>\<open>Aborted\<close> is a panic that \<open>net/http\<close> recovers: the connection is dropped, deferred calls have run. A redirect is
  kept as the URL given to \<open>http.Redirect\<close>.\<close>

datatype reply = Reply ResponseWriter | RedirectTo string | Aborted

text \<open>The answers: the time at authorization and at option parsing (Unix seconds), clock readings and states of the address
  allowlist at the checks of a request (in order), the runtime's
  iteration order over the query, random nonces, the resolver, the embed definitions and their cache, upstreams, the byte
  budget (blocking and not), the segment cache (its byte limit when there is one, and what a lookup finds), free
  prefetch slots, and how the client takes the chunks of a response (\<open>None\<close>: whole).\<close>

record env =
  authNow :: int
  optsNow :: int
  clock :: "nat \<Rightarrow> int"
  allowAt :: "nat \<Rightarrow> Allow option"
  keyOrder :: "string list"
  nonces :: "nat \<Rightarrow> byte list option"
  lookupHost :: "string \<Rightarrow> string list option"
  allowLookup :: "string \<Rightarrow> IP list option"
  defMatch :: "string \<Rightarrow> string option"
  defScript :: "string \<Rightarrow> string \<Rightarrow> script"
  embedHit :: "string \<Rightarrow> extractResult option"
  upstream :: "string \<Rightarrow> string \<Rightarrow> Header \<Rightarrow> string \<Rightarrow> response option"
  granted :: "int \<Rightarrow> bool"
  room :: "int \<Rightarrow> bool"
  cacheLimit :: "int option"
  cached :: "string \<Rightarrow> (byte list \<times> http_header \<times> int) option"
  freeSlots :: nat
  digest :: "string \<Rightarrow> byte list"
  blockCipher :: cipher_fn
  tokenize :: "string \<Rightarrow> (xtoken \<times> string) list \<times> string option"
  taken :: "nat \<Rightarrow> nat option"

definition textOf :: "byte list \<Rightarrow> string" where "textOf bs = map (char_of \<circ> unat) bs"
definition bytesIn :: "string \<Rightarrow> byte list" where "bytesIn s = map (of_nat \<circ> ch) s"

definition failWith :: "string \<Rightarrow> int \<Rightarrow> reply" where
  "failWith msg code = Reply (httpError msg code freshWriter)"

section \<open>Guards\<close>

definition destErr :: "env \<Rightarrow> nat \<Rightarrow> Config \<Rightarrow> string \<Rightarrow> dest_err option" where
  "destErr en k cfg url = fst (ValidateDest (lookupHost en) (allowLookup en) (clock en k) (cfg\<lparr>PrivateAllow := allowAt en k\<rparr>) url)"

definition proxyErr :: "env \<Rightarrow> nat \<Rightarrow> Config \<Rightarrow> string \<Rightarrow> dest_err option" where
  "proxyErr en k cfg url = fst (validateProxyHost (lookupHost en) (allowLookup en) (clock en k) (cfg\<lparr>PrivateAllow := allowAt en k\<rparr>) url)"

definition rejectBlockedProxyHost :: "env \<Rightarrow> nat \<Rightarrow> Config \<Rightarrow> string \<Rightarrow> bool" where
  "rejectBlockedProxyHost en k cfg proxyURL = (proxyURL \<noteq> [] \<and> proxyErr en k cfg proxyURL \<noteq> None)"

definition effProxy :: "Config \<Rightarrow> Options \<Rightarrow> string" where
  "effProxy cfg opts = (if Proxy opts = [] then UpstreamProxy cfg else Proxy opts)"

section \<open>Bodies\<close>

text \<open>\<open>net/http\<close> delivers at most the advertised length and reports a body that ends before it.\<close>

definition bodyOf :: "response \<Rightarrow> byte list" where
  "bodyOf resp = (if ContentLength resp \<ge> 0 then take (nat (ContentLength resp)) (rbody resp) else rbody resp)"

definition bodyFails :: "response \<Rightarrow> bool" where
  "bodyFails resp = (if ContentLength resp \<ge> 0 then int (length (rbody resp)) < ContentLength resp else rfails resp)"

text \<open>\<open>io.ReadAll(io.LimitReader(body, n))\<close>; \<open>None\<close> is a read error.\<close>

definition readLimited :: "nat \<Rightarrow> response \<Rightarrow> byte list option" where
  "readLimited n resp = (if bodyFails resp \<and> length (bodyOf resp) < n then None else Some (take n (bodyOf resp)))"

definition maxManifestBytes :: nat where "maxManifestBytes = 16 * 2 ^ 20"
definition maxExtractorPage :: nat where "maxExtractorPage = 4 * 2 ^ 20"
definition segmentWriteChunk :: nat where "segmentWriteChunk = 256 * 2 ^ 10"

text \<open>The chunks the client accepted; the write that fails may have taken part of its chunk.\<close>

function writeSegment :: "(nat \<Rightarrow> nat option) \<Rightarrow> nat \<Rightarrow> byte list \<Rightarrow> byte list" where
  "writeSegment tk i p =
     (if p = [] then []
      else (let n = min (length p) segmentWriteChunk
            in case tk i of
                 None \<Rightarrow> take n p @ writeSegment tk (Suc i) (drop n p)
               | Some k \<Rightarrow> take (min k n) p))"
  by pat_completeness auto
termination by (relation "measure (\<lambda>(tk, i, p). length p)") (auto simp: segmentWriteChunk_def)

declare writeSegment.simps [simp del]

section \<open>Extractors and embed pages\<close>

definition extractorUA :: string where
  "extractorUA = ''Mozilla/5.0 (Windows NT 10.0; Win64; x64) AppleWebKit/537.36 (KHTML, like Gecko) Chrome/124.0 Safari/537.36''"

definition extractorFetch :: "env \<Rightarrow> Config \<Rightarrow> string \<Rightarrow> nat \<Rightarrow> string \<Rightarrow> string \<Rightarrow> (string \<times> string) list \<Rightarrow> string option \<times> effect list" where
  "extractorFetch en cfg proxyURL k verb url hs =
     (let p = (if proxyURL = [] then UpstreamProxy cfg else proxyURL);
          hh = fold (\<lambda>(a, v) h. hdrSet h a v) hs [(''User-Agent'', [extractorUA])]
      in if destErr en k cfg url \<noteq> None then (None, [])
         else (case upstream en verb url hh p of
                 None \<Rightarrow> (None, [EFetch verb url hh p])
               | Some resp \<Rightarrow>
                   (if StatusCode resp \<noteq> 200 \<and> (verb \<noteq> ''POST'' \<or> StatusCode resp div 100 \<noteq> 2) then None
                    else map_option textOf (readLimited maxExtractorPage resp), [EFetch verb url hh p])))"

primrec runScript :: "(nat \<Rightarrow> string \<Rightarrow> string \<Rightarrow> (string \<times> string) list \<Rightarrow> string option \<times> effect list) \<Rightarrow> script \<Rightarrow> nat \<Rightarrow>
    extractResult option \<times> effect list" where
  "runScript fetcher (Give res) k = (res, [])"
| "runScript fetcher (Ask verb url hs body go) k =
     (let a = fetcher k verb url hs; rest = runScript fetcher (go (fst a)) (Suc k)
      in (fst rest, snd a @ snd rest))"

definition mergeHeaders :: "(string \<times> string) list \<Rightarrow> Header \<Rightarrow> Header" where
  "mergeHeaders hs h = fold (\<lambda>(k, v) h. if hdrGet h k = [] then hdrSet h k v else h) hs h"

definition embedKey :: "string \<Rightarrow> Options \<Rightarrow> string" where
  "embedKey name opts = name @ [CHR 0x00] @ Proxy opts @ [CHR 0x00] @ Dest opts"

text \<open>\<open>resolveEmbed\<close>: \<open>Inl\<close> when it has written the response, else the options to go on with. Checks 4 and later are those of
  the pages an extractor fetches; check 3 is that of its result.\<close>

definition embedResult :: "env \<Rightarrow> Config \<Rightarrow> Options \<Rightarrow> string \<Rightarrow> (reply + extractResult) \<times> effect list" where
  "embedResult en cfg opts name =
     (let k = embedKey name opts
      in case embedHit en k of
           Some res \<Rightarrow> (Inr res, [])
         | None \<Rightarrow>
             (case runScript (extractorFetch en cfg (Proxy opts)) (defScript en name (Dest opts)) 4 of
                (None, tr) \<Rightarrow> (Inl (failWith ''embed page could not be resolved'' 502), tr)
              | (Some res, tr) \<Rightarrow>
                  if destErr en 3 cfg (resURL res) \<noteq> None then (Inl (failWith ''forbidden destination'' 403), tr)
                  else (Inr res, tr @ [EEmbedPut k res])))"

definition resolveEmbed :: "Config \<Rightarrow> IPNet list option \<Rightarrow> signer \<Rightarrow> env \<Rightarrow> Request \<Rightarrow> Options \<Rightarrow> string \<Rightarrow>
    (reply + Options) \<times> effect list" where
  "resolveEmbed cfg tp sg en r opts ep =
     (case defMatch en (Dest opts) of
        None \<Rightarrow> (Inr opts, [])
      | Some name \<Rightarrow>
          (case embedResult en cfg opts name of
             (Inl rep, tr) \<Rightarrow> (Inl rep, tr)
           | (Inr res, tr) \<Rightarrow>
               (let opts' = opts\<lparr>ReqHeaders := mergeHeaders (resHeaders res) (ReqHeaders opts)\<rparr>
                in if resEndpoint res \<noteq> ep
                   then (Inl (RedirectTo (buildProxyURL cfg sg (nonces en 0) (externalBase cfg tp r) (resEndpoint res) (resURL res) (Some opts'))), tr)
                   else (Inr (opts'\<lparr>Dest := resURL res\<rparr>), tr))))"

text \<open>The checks every media endpoint starts with; \<open>missing\<close> is its message for a request without destination.\<close>

definition admit :: "Config \<Rightarrow> IPNet list option \<Rightarrow> signer \<Rightarrow> env \<Rightarrow> Request \<Rightarrow> string \<Rightarrow> string \<Rightarrow> (reply + Options) \<times> effect list" where
  "admit cfg tp sg en r missing ep =
     (case authorize cfg tp sg (authNow en) r of
        Some e \<Rightarrow> (Inl (Reply (writeAuthError e freshWriter)), [])
      | None \<Rightarrow>
          (let opts = parseOptions cfg tp sg (optsNow en) (keyOrder en) r
           in if Dest opts = [] then (Inl (failWith missing 400), [])
              else if destErr en 1 cfg (Dest opts) \<noteq> None then (Inl (failWith ''forbidden destination'' 403), [])
              else if rejectBlockedProxyHost en 2 cfg (Proxy opts) then (Inl (failWith ''forbidden proxy'' 403), [])
              else resolveEmbed cfg tp sg en r opts ep))"

definition serveWith :: "(reply + Options) \<times> effect list \<Rightarrow> (Options \<Rightarrow> reply \<times> effect list) \<Rightarrow> reply \<times> effect list" where
  "serveWith a go =
     (case a of
        (Inl rep, tr) \<Rightarrow> (rep, tr)
      | (Inr opts, tr) \<Rightarrow> (fst (go opts), tr @ snd (go opts)))"

section \<open>The stream endpoint\<close>

text \<open>\<open>hex.DecodeString\<close>.\<close>

fun hexBytes :: "string \<Rightarrow> byte list option" where
  "hexBytes [] = Some []"
| "hexBytes [c] = None"
| "hexBytes (a # b # s) =
     (case (hexDigit a, hexDigit b) of
        (Some x, Some y) \<Rightarrow> map_option ((#) (of_nat (16 * x + y))) (hexBytes s)
      | _ \<Rightarrow> None)"

definition decodeKeyParam :: "string \<Rightarrow> byte list" where
  "decodeKeyParam s =
     (if s = [] then []
      else (case hexBytes (Proxy_Auth.trimSpace s) of
              Some b \<Rightarrow> b
            | None \<Rightarrow>
                (case RawURLDecode s of
                   Some b \<Rightarrow> map of_nat b
                 | None \<Rightarrow> (case StdDecode s of Some b \<Rightarrow> map of_nat b | None \<Rightarrow> []))))"

definition decryptMethodParam :: string where "decryptMethodParam = ''meth'' @ ''od''"

definition parseDecryptParams :: "Request \<Rightarrow> DecryptParams" where
  "parseDecryptParams r =
     \<lparr>Method = qGet (query r) decryptMethodParam, Key = decodeKeyParam (qGet (query r) ''key''), PIV = decodeKeyParam (qGet (query r) ''iv'')\<rparr>"

definition decryptedHeaders :: "Options \<Rightarrow> http_header \<Rightarrow> byte list \<Rightarrow> Header" where
  "decryptedHeaders opts up dec =
     (let ct = hdrGet up ''Content-Type'';
          h = (if ct \<noteq> [] then hdrSet [] ''Content-Type'' ct else [])
      in hdrSet (setProxySecurityHeaders (applyRespHeaders (RespHeaders opts) h)) ''Content-Length'' (itoa (length dec)))"

text \<open>The decrypt path once the upstream has answered and the reservation is granted. Its last effect is the deferred
  release, which a panic runs too.\<close>

definition decryptGranted :: "env \<Rightarrow> Request \<Rightarrow> Options \<Rightarrow> response \<Rightarrow> reply \<times> effect list" where
  "decryptGranted en r opts resp =
     (let held = segmentReservation (ContentLength resp)
      in case readSegment resp of
           Inl e \<Rightarrow>
             (failWith (if e = errSegmentTooLarge then ''upstream segment too large'' else ''upstream read error'') 502,
              [EAcquire held, ERelease held])
         | Inr raw \<Rightarrow>
             (let extra = held - int (length raw);
                  held' = (if extra > 0 then held - extra else held);
                  tr = [EAcquire held] @ (if extra > 0 then [ERelease extra] else []) @ [ERelease held']
              in case fst (drmDecryptInPlace (blockCipher en) (parseDecryptParams r) raw) of
                   Panic \<Rightarrow> (Aborted, tr)
                 | Err _ \<Rightarrow> (failWith ''decryption error'' 502, tr)
                 | Ok dec \<Rightarrow>
                     (Reply \<lparr>wHeader = decryptedHeaders opts (RHeader resp) dec, wStatus = Some 200,
                             wBody = (if reqVerb r \<noteq> ''HEAD'' then writeSegment (taken en) 0 dec else [])\<rparr>, tr)))"

definition decryptPath :: "env \<Rightarrow> Config \<Rightarrow> Request \<Rightarrow> Options \<Rightarrow> reply \<times> effect list" where
  "decryptPath en cfg r opts =
     (let up = upstreamHeaders opts; f = EFetch ''GET'' (Dest opts) up (effProxy cfg opts)
      in case upstream en ''GET'' (Dest opts) up (effProxy cfg opts) of
           None \<Rightarrow> (failWith ''upstream error'' 502, [f])
         | Some resp \<Rightarrow>
             if ContentLength resp > maxSegmentBytes then (failWith ''upstream segment too large'' 502, [f])
             else if \<not> granted en (segmentReservation (ContentLength resp)) then (failWith ''proxy busy'' 503, [f])
             else (fst (decryptGranted en r opts resp), f # snd (decryptGranted en r opts resp)))"

definition passHeaders :: "Options \<Rightarrow> http_header \<Rightarrow> Header" where
  "passHeaders opts up = setProxySecurityHeaders (applyRespHeaders (RespHeaders opts) (copyAllowedHeaders up []))"

definition passReply :: "Options \<Rightarrow> http_header \<Rightarrow> int \<Rightarrow> byte list \<Rightarrow> reply" where
  "passReply opts up st data = Reply \<lparr>wHeader = passHeaders opts up, wStatus = Some st, wBody = data\<rparr>"

text \<open>The answer of the upstream on the passthrough path: \<open>lim\<close> is the cache's byte limit when the cache may be used. The
  reservation is returned before the response is written; the deferred release then returns nothing.\<close>

definition passAnswer :: "env \<Rightarrow> Request \<Rightarrow> Options \<Rightarrow> Header \<Rightarrow> int option \<Rightarrow> response \<Rightarrow> reply \<times> effect list" where
  "passAnswer en r opts up lim resp =
     (let n = ContentLength resp;
          direct = (passReply opts (RHeader resp) (StatusCode resp) (if reqVerb r \<noteq> ''HEAD'' then bodyOf resp else []), [])
      in case lim of
           None \<Rightarrow> direct
         | Some mx \<Rightarrow>
             if cacheableResponse resp \<and> n \<le> mx \<and> room en n then
               (case readSegment resp of
                  Inl _ \<Rightarrow> (failWith ''upstream read error'' 502, [EAcquire n, ERelease n])
                | Inr data \<Rightarrow>
                    (passReply opts (RHeader resp) (StatusCode resp) data,
                     [EAcquire n, EPut (cacheKey (digest en) (Dest opts) up) data (RHeader resp) (StatusCode resp), ERelease n, ERelease 0]))
             else direct)"

definition passthrough :: "env \<Rightarrow> Config \<Rightarrow> Request \<Rightarrow> Options \<Rightarrow> reply \<times> effect list" where
  "passthrough en cfg r opts =
     (let rng = hdrGet (reqHeader r) ''Range'';
          up = (if rng \<noteq> [] then hdrSet (upstreamHeaders opts) ''Range'' rng else upstreamHeaders opts);
          lim = (if reqVerb r = ''GET'' \<and> rng = [] \<and> SegCacheTTL cfg > 0 then cacheLimit en else None);
          k = cacheKey (digest en) (Dest opts) up;
          tr = (if lim \<noteq> None then [EAwait k] else [])
      in case (if lim \<noteq> None then cached en k else None) of
           Some (data, h, st) \<Rightarrow> (passReply opts h st data, tr)
         | None \<Rightarrow>
             (case upstream en (reqVerb r) (Dest opts) up (effProxy cfg opts) of
                None \<Rightarrow> (failWith ''upstream error'' 502, tr @ [EFetch (reqVerb r) (Dest opts) up (effProxy cfg opts)])
              | Some resp \<Rightarrow>
                  (fst (passAnswer en r opts up lim resp),
                   tr @ EFetch (reqVerb r) (Dest opts) up (effProxy cfg opts) # snd (passAnswer en r opts up lim resp))))"

definition streamMedia :: "env \<Rightarrow> Config \<Rightarrow> Request \<Rightarrow> Options \<Rightarrow> reply \<times> effect list" where
  "streamMedia en cfg r opts =
     (if Method (parseDecryptParams r) \<noteq> [] \<and> Key (parseDecryptParams r) \<noteq> [] then decryptPath en cfg r opts
      else passthrough en cfg r opts)"

definition serveStream :: "Config \<Rightarrow> IPNet list option \<Rightarrow> signer \<Rightarrow> env \<Rightarrow> Request \<Rightarrow> reply \<times> effect list" where
  "serveStream cfg tp sg en r =
     serveWith (admit cfg tp sg en r ''missing or invalid destination URL'' ''/proxy/stream'') (streamMedia en cfg r)"

section \<open>The manifest endpoints\<close>

definition prefetch :: "env \<Rightarrow> Config \<Rightarrow> string list \<Rightarrow> Header \<Rightarrow> string \<Rightarrow> effect list" where
  "prefetch en cfg urls hs p =
     (if Prebuffer cfg \<le> 0 \<or> cacheLimit en = None then []
      else map (\<lambda>u. EPrefetch u hs p) (take (freeSlots en) (take (nat (Prebuffer cfg)) urls)))"

text \<open>The manifest fetched for a request, or the error reply; the two endpoints differ in their messages.\<close>

definition fetchManifest :: "env \<Rightarrow> Config \<Rightarrow> Options \<Rightarrow> string \<Rightarrow> string \<Rightarrow> (reply + byte list)" where
  "fetchManifest en cfg opts noFetch noRead =
     (case upstream en ''GET'' (Dest opts) (ReqHeaders opts) (effProxy cfg opts) of
        None \<Rightarrow> Inl (failWith noFetch 502)
      | Some resp \<Rightarrow>
          if StatusCode resp < 200 \<or> StatusCode resp > 299
          then Inl (failWith (''upstream returned status '' @ itoa (nat (StatusCode resp))) 502)
          else (case readLimited (maxManifestBytes + 1) resp of
                  None \<Rightarrow> Inl (failWith noRead 502)
                | Some body \<Rightarrow>
                    if length body > maxManifestBytes then Inl (failWith ''upstream manifest too large'' 502) else Inr body))"

definition hlsMedia :: "Config \<Rightarrow> IPNet list option \<Rightarrow> signer \<Rightarrow> env \<Rightarrow> Request \<Rightarrow> Options \<Rightarrow> reply \<times> effect list" where
  "hlsMedia cfg tp sg en r opts =
     (let f = EFetch ''GET'' (Dest opts) (ReqHeaders opts) (effProxy cfg opts)
      in case fetchManifest en cfg opts ''upstream fetch failed'' ''reading upstream response failed'' of
           Inl rep \<Rightarrow> (rep, [f])
         | Inr body \<Rightarrow>
             (let playlist = textOf body
              in (Reply \<lparr>wHeader = setProxySecurityHeaders (hdrSet [] ''Content-Type'' ''application/vnd.apple.mpegurl''),
                        wStatus = Some 200, wBody = bytesIn (hlsRewrite cfg sg (nonces en) (externalBase cfg tp r) opts playlist)\<rparr>,
                  f # (if Prebuffer cfg > 0
                       then prefetch en cfg (hlsSegmentURLs (Dest opts) playlist (Prebuffer cfg)) (ReqHeaders opts) (effProxy cfg opts)
                       else []))))"

definition hlsServe :: "Config \<Rightarrow> IPNet list option \<Rightarrow> signer \<Rightarrow> env \<Rightarrow> Request \<Rightarrow> reply \<times> effect list" where
  "hlsServe cfg tp sg en r =
     serveWith (admit cfg tp sg en r ''bad request: missing or invalid destination'' ''/proxy/hls/manifest.m3u8'') (hlsMedia cfg tp sg en r)"

definition dashMedia :: "Config \<Rightarrow> IPNet list option \<Rightarrow> signer \<Rightarrow> env \<Rightarrow> Request \<Rightarrow> Options \<Rightarrow> reply \<times> effect list" where
  "dashMedia cfg tp sg en r opts =
     (let f = EFetch ''GET'' (Dest opts) (ReqHeaders opts) (effProxy cfg opts)
      in case fetchManifest en cfg opts ''upstream error'' ''read error'' of
           Inl rep \<Rightarrow> (rep, [f])
         | Inr body \<Rightarrow>
             (case dashRewrite (tokenize en) (dashMaker cfg sg (nonces en) (externalBase cfg tp r) opts) (Dest opts) (textOf body) of
                Ok out \<Rightarrow>
                  (Reply \<lparr>wHeader = hdrSet (setProxySecurityHeaders []) ''Content-Type'' ''application/dash+xml'',
                          wStatus = Some 200, wBody = bytesIn out\<rparr>, [f])
              | _ \<Rightarrow> (Aborted, [f])))"

definition dashServe :: "Config \<Rightarrow> IPNet list option \<Rightarrow> signer \<Rightarrow> env \<Rightarrow> Request \<Rightarrow> reply \<times> effect list" where
  "dashServe cfg tp sg en r =
     serveWith (admit cfg tp sg en r ''missing destination'' ''/proxy/mpd/manifest.m3u8'') (dashMedia cfg tp sg en r)"

section \<open>Dispatch\<close>

text \<open>\<open>Route\<close>: the media endpoints answer here, \<open>/proxy/ip\<close> is \<open>serveIP\<close>.\<close>

datatype routed = Media "reply \<times> effect list" | EgressIP | Unrouted

definition Route :: "Config \<Rightarrow> IPNet list option \<Rightarrow> signer \<Rightarrow> env \<Rightarrow> Request \<Rightarrow> string list \<Rightarrow> routed" where
  "Route cfg tp sg en r segs =
     (case segs of
        _ # s # _ \<Rightarrow>
          (if s = ''stream'' then Media (serveStream cfg tp sg en r)
           else if s = ''hls'' then Media (hlsServe cfg tp sg en r)
           else if s = ''mpd'' then Media (dashServe cfg tp sg en r)
           else if s = ''ip'' then EgressIP else Unrouted)
      | _ \<Rightarrow> Unrouted)"

lemma Route_Media:
  assumes "Route cfg tp sg en r segs = Media f"
  obtains "f = serveStream cfg tp sg en r" | "f = hlsServe cfg tp sg en r" | "f = dashServe cfg tp sg en r"
  using assms by (auto simp: Route_def split: list.splits if_splits)

section \<open>Accounting\<close>

text \<open>The bytes of the in-flight budget a trace leaves reserved, and the contract of a request: it never returns more than
  it has reserved, never holds more than one segment, and ends with nothing reserved.\<close>

fun amount :: "effect \<Rightarrow> int" where
  "amount (EAcquire n) = n"
| "amount (ERelease n) = - n"
| "amount _ = 0"

definition heldAfter :: "effect list \<Rightarrow> int" where "heldAfter tr = sum_list (map amount tr)"

definition balanced :: "effect list \<Rightarrow> bool" where
  "balanced tr \<longleftrightarrow> heldAfter tr = 0 \<and> (\<forall>n. 0 \<le> heldAfter (take n tr) \<and> heldAfter (take n tr) \<le> maxSegmentBytes)"

lemma heldAfter_simps [simp]: "heldAfter [] = 0" "heldAfter (e # tr) = amount e + heldAfter tr" "heldAfter (a @ b) = heldAfter a + heldAfter b"
  by (simp_all add: heldAfter_def)

lemma balanced_append: "balanced a \<Longrightarrow> balanced b \<Longrightarrow> balanced (a @ b)"
  unfolding balanced_def
proof (intro conjI allI)
  fix n
  assume a: "heldAfter a = 0 \<and> (\<forall>n. 0 \<le> heldAfter (take n a) \<and> heldAfter (take n a) \<le> maxSegmentBytes)"
    and b: "heldAfter b = 0 \<and> (\<forall>n. 0 \<le> heldAfter (take n b) \<and> heldAfter (take n b) \<le> maxSegmentBytes)"
  have "heldAfter (take n (a @ b)) = heldAfter (take n a) \<or> heldAfter (take n (a @ b)) = heldAfter (take (n - length a) b)"
    using a by (cases "n \<le> length a") simp_all
  then show "0 \<le> heldAfter (take n (a @ b))" "heldAfter (take n (a @ b)) \<le> maxSegmentBytes" using a b by metis+
qed simp

lemma balanced_plain:
  assumes "\<forall>e \<in> set tr. amount e = 0"
  shows "balanced tr"
proof -
  have "heldAfter xs = 0" if "\<forall>e \<in> set xs. amount e = 0" for xs using that by (induction xs) simp_all
  then have "heldAfter tr = 0" "heldAfter (take n tr) = 0" for n using assms by (blast dest: in_set_takeD)+
  then show ?thesis by (simp add: balanced_def maxSegmentBytes_def)
qed

lemma balanced_Nil [simp]: "balanced []"
  by (simp add: balanced_plain)

lemma balanced_cons [simp]:
  assumes "amount e = 0"
  shows "balanced (e # tr) \<longleftrightarrow> balanced tr"
proof
  assume b: "balanced (e # tr)"
  have "heldAfter (take n tr) = heldAfter (take (Suc n) (e # tr))" for n using assms by simp
  then show "balanced tr" using b assms unfolding balanced_def by (metis add_0 heldAfter_simps(2))
qed (use balanced_append [OF balanced_plain, of "[e]" tr] assms in simp)

text \<open>A reservation that is returned in parts, with other effects in between.\<close>

lemma balanced_reserve:
  assumes "0 \<le> n" "n \<le> maxSegmentBytes" "heldAfter tr = - n" "\<And>k. - n \<le> heldAfter (take k tr) \<and> heldAfter (take k tr) \<le> 0"
  shows "balanced (EAcquire n # tr)"
  unfolding balanced_def
proof (intro conjI allI)
  fix k
  show "0 \<le> heldAfter (take k (EAcquire n # tr))" "heldAfter (take k (EAcquire n # tr)) \<le> maxSegmentBytes"
    using assms(1,2) assms(4) [of "k - 1"] by (cases k; simp add: maxSegmentBytes_def)+
qed (simp add: assms(3))

lemma readSegment_length: "readSegment resp = Inr raw \<Longrightarrow> int (length raw) \<le> segmentReservation (ContentLength resp)"
  by (auto simp: readSegment_def segmentReservation_def Let_def split: if_splits)

lemma decryptGranted_balanced:
  assumes "ContentLength resp \<le> maxSegmentBytes"
  shows "balanced (snd (decryptGranted en r opts resp))"
proof -
  let ?held = "segmentReservation (ContentLength resp)"
  have h: "0 \<le> ?held" "?held \<le> maxSegmentBytes" using assms by (simp_all add: segmentReservation_def maxSegmentBytes_def)
  have err: "balanced [EAcquire ?held, ERelease ?held]"
    using h by (intro balanced_reserve) (simp_all add: take_Cons' split: if_splits)
  show ?thesis
  proof (cases "readSegment resp")
    case (Inl e)
    then show ?thesis using err by (simp add: decryptGranted_def Let_def)
  next
    case (Inr raw)
    have "balanced [EAcquire ?held, ERelease (?held - int (length raw)), ERelease (int (length raw))]"
      using h readSegment_length [OF Inr] by (intro balanced_reserve) (simp_all add: take_Cons' split: if_splits)
    then show ?thesis using Inr err by (simp add: decryptGranted_def Let_def split: outcome.splits)
  qed
qed

lemma decryptPath_balanced: "balanced (snd (decryptPath en cfg r opts))"
  using decryptGranted_balanced by (simp add: decryptPath_def Let_def split: option.split)

lemma passAnswer_balanced: "balanced (snd (passAnswer en r opts up lim resp))"
proof (cases "\<exists>mx. lim = Some mx \<and> cacheableResponse resp \<and> ContentLength resp \<le> mx \<and> room en (ContentLength resp)")
  case True
  have n: "0 \<le> ContentLength resp" "ContentLength resp \<le> maxSegmentBytes" using True by (auto simp: cacheableResponse_def)
  have "balanced [EAcquire (ContentLength resp), ERelease (ContentLength resp)]"
    using n by (intro balanced_reserve) (simp_all add: take_Cons' split: if_splits)
  moreover have "balanced [EAcquire (ContentLength resp), EPut k data h st, ERelease (ContentLength resp), ERelease 0]" for k data h st
    using n by (intro balanced_reserve) (simp_all add: take_Cons' split: if_splits)
  ultimately show ?thesis using True by (auto simp: passAnswer_def Let_def split: sum.splits)
next
  case False
  then have "snd (passAnswer en r opts up lim resp) = []" by (auto simp: passAnswer_def Let_def split: option.splits)
  then show ?thesis by (simp add: balanced_plain)
qed

lemma passthrough_balanced: "balanced (snd (passthrough en cfg r opts))"
  using passAnswer_balanced by (simp add: passthrough_def Let_def split: option.split)

section \<open>The contract of the media endpoints\<close>

definition sealed :: "Header \<Rightarrow> bool" where
  "sealed h \<longleftrightarrow> (\<forall>(k, vs) \<in> set h. BlockedRespHeader k \<longrightarrow>
     (k, vs) \<in> {(''X-Content-Type-Options'', [''nosniff'']), (''Content-Security-Policy'', [''sandbox''])})"

definition hardened :: "ResponseWriter \<Rightarrow> bool" where
  "hardened w \<longleftrightarrow> hdrValues (wHeader w) ''X-Content-Type-Options'' = [''nosniff''] \<and> sealed (wHeader w) \<and>
     (hdrValues (wHeader w) ''Content-Security-Policy'' = [''sandbox''] \<or> (\<exists>msg code. 400 \<le> code \<and> w = httpError msg code freshWriter))"

text \<open>What every media endpoint promises of its requests: \<open>V\<close> are the results embed resolutions have been allowed to store
  before. The destination of a background prefetch is not checked, only the proxy it goes through.\<close>

fun guarded :: "Config \<Rightarrow> env \<Rightarrow> string set \<Rightarrow> effect \<Rightarrow> bool" where
  "guarded cfg en V (EFetch verb u h p) \<longleftrightarrow>
     (u \<in> V \<or> (\<exists>k. destErr en k cfg u = None)) \<and> (p = UpstreamProxy cfg \<or> proxyErr en 2 cfg p = None)"
| "guarded cfg en V (EEmbedPut k res) \<longleftrightarrow> destErr en 3 cfg (resURL res) = None"
| "guarded cfg en V (EPrefetch u h p) \<longleftrightarrow> p = UpstreamProxy cfg \<or> proxyErr en 2 cfg p = None"
| "guarded cfg en V _ \<longleftrightarrow> True"

subsection \<open>Admission\<close>

lemma extractorFetch_effects:
  assumes "e \<in> set (snd (extractorFetch en cfg proxyURL k verb url hs))"
  shows "\<exists>h. e = EFetch verb url h (if proxyURL = [] then UpstreamProxy cfg else proxyURL) \<and> destErr en k cfg url = None"
  using assms by (auto simp: extractorFetch_def Let_def split: if_splits option.splits)

lemma runScript_effects:
  "e \<in> set (snd (runScript (extractorFetch en cfg proxyURL) sc k)) \<Longrightarrow>
     \<exists>verb url h j. e = EFetch verb url h (if proxyURL = [] then UpstreamProxy cfg else proxyURL) \<and> destErr en j cfg url = None"
proof (induction sc arbitrary: k)
  case (Ask verb url hs body go)
  let ?a = "extractorFetch en cfg proxyURL k verb url hs"
  from Ask.prems consider "e \<in> set (snd ?a)" | "e \<in> set (snd (runScript (extractorFetch en cfg proxyURL) (go (fst ?a)) (Suc k)))"
    by (auto simp: Let_def)
  then show ?case
  proof cases
    case 1
    then show ?thesis using extractorFetch_effects [OF 1] by blast
  next
    case 2
    then show ?thesis using Ask.IH [OF rangeI] by blast
  qed
qed simp

lemma embedResult_effects:
  assumes "e \<in> set (snd (embedResult en cfg opts name))" "Proxy opts = [] \<or> proxyErr en 2 cfg (Proxy opts) = None"
  shows "guarded cfg en V e \<and> amount e = 0"
proof (cases "embedHit en (embedKey name opts)")
  case (Some res)
  then show ?thesis using assms(1) by (simp add: embedResult_def Let_def)
next
  case None
  obtain o1 tr where r: "runScript (extractorFetch en cfg (Proxy opts)) (defScript en name (Dest opts)) 4 = (o1, tr)"
    by fastforce
  have "guarded cfg en V x \<and> amount x = 0" if "x \<in> set tr" for x
  proof -
    have "x \<in> set (snd (runScript (extractorFetch en cfg (Proxy opts)) (defScript en name (Dest opts)) 4))" using that r by simp
    from runScript_effects [OF this] obtain verb url h j
      where "x = EFetch verb url h (if Proxy opts = [] then UpstreamProxy cfg else Proxy opts)" "destErr en j cfg url = None" by blast
    then show ?thesis using assms(2) by auto
  qed
  moreover have "e \<in> set tr \<or> (\<exists>k res. e = EEmbedPut k res \<and> destErr en 3 cfg (resURL res) = None)"
    using assms(1) None r by (auto simp: embedResult_def Let_def split: option.splits if_splits)
  ultimately show ?thesis by auto
qed

lemma embedResult_ok:
  assumes "embedResult en cfg opts name = (Inr res, tr)" "\<forall>k res. embedHit en k = Some res \<longrightarrow> resURL res \<in> V"
  shows "resURL res \<in> V \<or> destErr en 3 cfg (resURL res) = None"
  using assms by (auto simp: embedResult_def Let_def split: option.splits prod.splits if_splits)

lemma resolveEmbed_trace:
  "snd (resolveEmbed cfg tp sg en r opts ep) = (case defMatch en (Dest opts) of None \<Rightarrow> [] | Some name \<Rightarrow> snd (embedResult en cfg opts name))"
  by (auto simp: resolveEmbed_def Let_def split: option.split prod.split sum.split)

lemma admit_effects:
  assumes "e \<in> set (snd (admit cfg tp sg en r missing ep))"
  shows "guarded cfg en V e \<and> amount e = 0 \<and> authorize cfg tp sg (authNow en) r = None"
proof -
  let ?opts = "parseOptions cfg tp sg (optsNow en) (keyOrder en) r"
  have a: "authorize cfg tp sg (authNow en) r = None" "\<not> rejectBlockedProxyHost en 2 cfg (Proxy ?opts)"
    "e \<in> set (snd (resolveEmbed cfg tp sg en r ?opts ep))"
    using assms by (auto simp: admit_def Let_def split: option.splits if_splits)
  then have "\<exists>name. e \<in> set (snd (embedResult en cfg ?opts name))"
    unfolding resolveEmbed_trace by (cases "defMatch en (Dest ?opts)") auto
  then show ?thesis using embedResult_effects a(1,2) unfolding rejectBlockedProxyHost_def by blast
qed


lemma resolveEmbed_ok:
  assumes "resolveEmbed cfg tp sg en r opts0 ep = (Inr opts, tr)" "\<forall>k res. embedHit en k = Some res \<longrightarrow> resURL res \<in> V"
    "destErr en 1 cfg (Dest opts0) = None"
  shows "(Dest opts \<in> V \<or> (\<exists>k. destErr en k cfg (Dest opts) = None)) \<and> Proxy opts = Proxy opts0"
proof (cases "defMatch en (Dest opts0)")
  case None
  then show ?thesis using assms(1,3) by (auto simp: resolveEmbed_def)
next
  case (Some name)
  then obtain res where e: "embedResult en cfg opts0 name = (Inr res, tr)" and o: "Dest opts = resURL res" "Proxy opts = Proxy opts0"
    using assms(1) by (auto simp: resolveEmbed_def Let_def split: prod.splits sum.splits if_splits)
  then show ?thesis using embedResult_ok [OF e assms(2)] by auto
qed

lemma admit_ok:
  assumes "admit cfg tp sg en r missing ep = (Inr opts, tr)" "\<forall>k res. embedHit en k = Some res \<longrightarrow> resURL res \<in> V"
  shows "(Dest opts \<in> V \<or> (\<exists>k. destErr en k cfg (Dest opts) = None)) \<and>
    (effProxy cfg opts = UpstreamProxy cfg \<or> proxyErr en 2 cfg (effProxy cfg opts) = None) \<and> authorize cfg tp sg (authNow en) r = None"
proof -
  let ?opts = "parseOptions cfg tp sg (optsNow en) (keyOrder en) r"
  have a: "authorize cfg tp sg (authNow en) r = None" "\<not> rejectBlockedProxyHost en 2 cfg (Proxy ?opts)" "destErr en 1 cfg (Dest ?opts) = None"
    "resolveEmbed cfg tp sg en r ?opts ep = (Inr opts, tr)"
    using assms(1) by (auto simp: admit_def Let_def split: option.splits if_splits)
  show ?thesis using resolveEmbed_ok [OF a(4) assms(2) a(3)] a(1,2) by (auto simp: effProxy_def rejectBlockedProxyHost_def)
qed

subsection \<open>Replies\<close>

lemma hdrValues_set: "hdrValues (hdrSet h k v) a = (if CanonicalHeaderKey a = CanonicalHeaderKey k then [v] else hdrValues h a)"
  by (simp add: hdrValues_def hdrSet_def hdrVals_put)

lemma canon_names:
  "CanonicalHeaderKey ''X-Content-Type-Options'' = ''X-Content-Type-Options''"
  "CanonicalHeaderKey ''Content-Security-Policy'' = ''Content-Security-Policy''"
  "CanonicalHeaderKey ''Content-Type'' = ''Content-Type''" "CanonicalHeaderKey ''Content-Length'' = ''Content-Length''"
  "CanonicalHeaderKey ''Range'' = ''Range''"
  by code_simp+

lemmas header_simps = hdrValues_set canon_names

lemma sealed_put:
  assumes "sealed h" "\<not> BlockedRespHeader k \<or> (k, vs) \<in> {(''X-Content-Type-Options'', [''nosniff'']), (''Content-Security-Policy'', [''sandbox''])}"
  shows "sealed (hdrPut h k vs)"
  using assms hdrPut_set [of _ _ h k vs] unfolding sealed_def by fastforce

lemma sealed_set: "sealed h \<Longrightarrow> \<not> BlockedRespHeader k \<Longrightarrow> sealed (hdrSet h k v)"
  unfolding hdrSet_def by (rule sealed_put) simp_all

lemma plain_names: "\<not> BlockedRespHeader ''Content-Type''" "\<not> BlockedRespHeader ''Content-Length''"
  by code_simp+

lemma sealed_secure: "unblocked h \<Longrightarrow> sealed (setProxySecurityHeaders h)"
  unfolding setProxySecurityHeaders_def hdrSet_def canon_names
  by (intro sealed_put) (auto simp: sealed_def unblocked_def)

lemma unblocked_Nil: "unblocked []"
  by (simp add: unblocked_def)

lemma hardened_secure:
  "unblocked h \<Longrightarrow> wHeader w = setProxySecurityHeaders h \<Longrightarrow> hardened w"
  "unblocked h \<Longrightarrow> wHeader w = hdrSet (setProxySecurityHeaders h) ''Content-Type'' v \<Longrightarrow> hardened w"
  "unblocked h \<Longrightarrow> wHeader w = hdrSet (setProxySecurityHeaders h) ''Content-Length'' v \<Longrightarrow> hardened w"
  using sealed_secure sealed_set plain_names
  by (simp_all add: hardened_def) (simp_all add: setProxySecurityHeaders_def header_simps)

lemma hardened_error: "400 \<le> code \<Longrightarrow> hardened (httpError msg code freshWriter)"
proof -
  have "sealed (hdrSet (hdrSet [] ''Content-Type'' v) ''X-Content-Type-Options'' ''nosniff'')" for v
    unfolding hdrSet_def [of _ "''X-Content-Type-Options''"] canon_names
    by (rule sealed_put [OF sealed_set [OF _ plain_names(1)]]) (simp_all add: sealed_def)
  then show "400 \<le> code \<Longrightarrow> hardened (httpError msg code freshWriter)"
    by (auto simp: hardened_def httpError_def freshWriter_def hdrDel_def header_simps)
qed

lemma hardened_fail: "failWith msg code = Reply w \<Longrightarrow> 400 \<le> code \<Longrightarrow> hardened w"
  using hardened_error by (auto simp: failWith_def)

lemma hardened_auth: "hardened (writeAuthError e freshWriter)"
  by (simp add: writeAuthError_def hardened_error)

lemma embedResult_reply: "embedResult en cfg opts name = (Inl rep, tr) \<Longrightarrow> rep = Reply w \<Longrightarrow> hardened w"
  by (auto simp: embedResult_def Let_def dest: hardened_fail split: option.splits prod.splits if_splits)

lemma admit_reply:
  assumes "admit cfg tp sg en r missing ep = (Inl (Reply w), tr)"
  shows "hardened w"
proof -
  let ?opts = "parseOptions cfg tp sg (optsNow en) (keyOrder en) r"
  consider e where "w = writeAuthError e freshWriter"
    | msg code where "failWith msg code = Reply w" "400 \<le> code"
    | "resolveEmbed cfg tp sg en r ?opts ep = (Inl (Reply w), tr)"
    using assms by (cases "authorize cfg tp sg (authNow en) r") (auto simp: admit_def Let_def split: if_splits)
  then show ?thesis
  proof cases
    case 3
    then obtain name where "embedResult en cfg ?opts name = (Inl (Reply w), tr)"
      by (auto simp: resolveEmbed_def Let_def split: option.splits prod.splits sum.splits if_splits)
    then show ?thesis by (rule embedResult_reply) simp
  qed (auto simp: hardened_auth hardened_fail)
qed

locale media_endpoint =
  fixes cfg :: Config and en :: env and go :: "Options \<Rightarrow> reply \<times> effect list"
  assumes go_balanced: "balanced (snd (go opts))"
    and go_fetch: "EFetch verb u h p \<in> set (snd (go opts)) \<Longrightarrow> u = Dest opts \<and> p = effProxy cfg opts"
    and go_put: "EEmbedPut k res \<notin> set (snd (go opts))"
    and go_prefetch: "EPrefetch u h p \<in> set (snd (go opts)) \<Longrightarrow> p = effProxy cfg opts"
    and go_reply: "fst (go opts) = Reply w \<Longrightarrow> hardened w"
begin

lemma served_cases:
  "(\<exists>rep tr. admit cfg tp sg en r missing ep = (Inl rep, tr) \<and> serveWith (admit cfg tp sg en r missing ep) go = (rep, tr)) \<or>
   (\<exists>opts tr. admit cfg tp sg en r missing ep = (Inr opts, tr) \<and>
      serveWith (admit cfg tp sg en r missing ep) go = (fst (go opts), tr @ snd (go opts)))"
  by (cases "admit cfg tp sg en r missing ep"; cases "fst (admit cfg tp sg en r missing ep)") (auto simp: serveWith_def)

lemma served_balanced: "balanced (snd (serveWith (admit cfg tp sg en r missing ep) go))"
proof -
  have "balanced (snd (admit cfg tp sg en r missing ep))" using admit_effects by (blast intro: balanced_plain)
  then show ?thesis using served_cases [of tp sg r missing ep] balanced_append go_balanced by fastforce
qed

lemma served_guarded:
  assumes "\<forall>k res. embedHit en k = Some res \<longrightarrow> resURL res \<in> V" "e \<in> set (snd (serveWith (admit cfg tp sg en r missing ep) go))"
  shows "guarded cfg en V e \<and> authorize cfg tp sg (authNow en) r = None"
proof (cases "e \<in> set (snd (admit cfg tp sg en r missing ep))")
  case True
  then show ?thesis using admit_effects [OF True] by blast
next
  case False
  then obtain opts tr where a: "admit cfg tp sg en r missing ep = (Inr opts, tr)" and e: "e \<in> set (snd (go opts))"
    using served_cases [of tp sg r missing ep] assms(2) by fastforce
  have "guarded cfg en V e" using admit_ok [OF a assms(1)] go_fetch [of _ _ _ _ opts] go_put [of _ _ opts] go_prefetch [of _ _ _ opts] e
    by (cases e) auto
  then show ?thesis using admit_ok [OF a assms(1)] by blast
qed

lemma served_hardened:
  assumes "fst (serveWith (admit cfg tp sg en r missing ep) go) = Reply w"
  shows "hardened w"
  using served_cases [of tp sg r missing ep] assms admit_reply go_reply by fastforce

end

lemma decrypt_effects:
  "e \<in> set (snd (decryptGranted en r opts resp)) \<Longrightarrow> \<exists>n. e = EAcquire n \<or> e = ERelease n"
  by (auto simp: decryptGranted_def Let_def split: sum.splits outcome.splits if_splits)

lemma decrypt_reply:
  assumes "fst (decryptGranted en r opts resp) = Reply w"
  shows "hardened w"
  using assms hardened_secure(3) [OF applyResp_unblocked [OF unblocked_Nil]]
    hardened_secure(3) [OF applyResp_unblocked [OF unblocked_set [OF unblocked_Nil plain_names(1)]]]
  by (auto simp: decryptGranted_def decryptedHeaders_def Let_def dest: hardened_fail split: sum.splits outcome.splits)

lemma passReply_hardened: "passReply opts h st data = Reply w \<Longrightarrow> hardened w"
  using hardened_secure(1) [OF applyResp_unblocked [OF copyAllowed_unblocked [OF unblocked_Nil]]]
  by (auto simp: passReply_def passHeaders_def)

lemma passAnswer_reply: "fst (passAnswer en r opts up lim resp) = Reply w \<Longrightarrow> hardened w"
  by (auto simp: passAnswer_def Let_def dest: passReply_hardened hardened_fail split: option.splits sum.splits if_splits)

lemma passAnswer_effects: "e \<in> set (snd (passAnswer en r opts up lim resp)) \<Longrightarrow> \<exists>n k d h st. e = EAcquire n \<or> e = ERelease n \<or> e = EPut k d h st"
  by (auto simp: passAnswer_def Let_def split: option.splits sum.splits if_splits)

text \<open>The media fetch of the stream endpoint is its only fetch, and carries only headers that may be forwarded.\<close>

lemma decryptPath_fetch:
  assumes "e \<in> set (snd (decryptPath en cfg r opts))"
  shows "e = EFetch ''GET'' (Dest opts) (upstreamHeaders opts) (effProxy cfg opts) \<or> (\<exists>n. e = EAcquire n \<or> e = ERelease n)"
  using assms decrypt_effects by (fastforce simp: decryptPath_def Let_def split: option.splits if_splits)

definition passUp :: "Request \<Rightarrow> Options \<Rightarrow> Header" where
  "passUp r opts = (let rng = hdrGet (reqHeader r) ''Range'' in if rng \<noteq> [] then hdrSet (upstreamHeaders opts) ''Range'' rng else upstreamHeaders opts)"

lemma passthrough_fetch:
  assumes "e \<in> set (snd (passthrough en cfg r opts))"
  shows "e = EFetch (reqVerb r) (Dest opts) (passUp r opts) (effProxy cfg opts) \<or>
    (\<exists>n k d h st. e = EAcquire n \<or> e = ERelease n \<or> e = EAwait k \<or> e = EPut k d h st)"
proof -
  have "e = EFetch (reqVerb r) (Dest opts) (passUp r opts) (effProxy cfg opts) \<or> (\<exists>k. e = EAwait k) \<or>
      (\<exists>lim resp. e \<in> set (snd (passAnswer en r opts (passUp r opts) lim resp)))"
    using assms by (auto simp: passthrough_def passUp_def Let_def split: option.splits if_splits)
  then show ?thesis using passAnswer_effects by metis
qed

interpretation stream_ep: media_endpoint cfg en "streamMedia en cfg r" for cfg en r
proof
  fix opts verb u h p k res w
  show "balanced (snd (streamMedia en cfg r opts))" by (simp add: streamMedia_def decryptPath_balanced passthrough_balanced)
  show "u = Dest opts \<and> p = effProxy cfg opts" if "EFetch verb u h p \<in> set (snd (streamMedia en cfg r opts))"
    using that decryptPath_fetch passthrough_fetch by (fastforce simp: streamMedia_def split: if_splits)
  show "EEmbedPut k res \<notin> set (snd (streamMedia en cfg r opts))"
    using decryptPath_fetch passthrough_fetch by (fastforce simp: streamMedia_def split: if_splits)
  show "p = effProxy cfg opts" if "EPrefetch u h p \<in> set (snd (streamMedia en cfg r opts))"
    using that decryptPath_fetch passthrough_fetch by (fastforce simp: streamMedia_def split: if_splits)
  show "hardened w" if "fst (streamMedia en cfg r opts) = Reply w"
    using that decrypt_reply passAnswer_reply passReply_hardened hardened_fail
    by (auto simp: streamMedia_def decryptPath_def passthrough_def Let_def split: if_splits option.splits)
qed

lemma prefetch_effects: "e \<in> set (prefetch en cfg urls hs p) \<Longrightarrow> \<exists>u. e = EPrefetch u hs p"
  by (auto simp: prefetch_def split: if_splits)

lemma fetchManifest_reply: "fetchManifest en cfg opts a b = Inl (Reply w) \<Longrightarrow> hardened w"
  by (auto simp: fetchManifest_def dest: hardened_fail split: option.splits if_splits)

lemma hlsMedia_effects:
  assumes "e \<in> set (snd (hlsMedia cfg tp sg en r opts))"
  shows "e = EFetch ''GET'' (Dest opts) (ReqHeaders opts) (effProxy cfg opts) \<or> (\<exists>u. e = EPrefetch u (ReqHeaders opts) (effProxy cfg opts))"
  using assms prefetch_effects by (fastforce simp: hlsMedia_def Let_def split: sum.splits if_splits)

interpretation hls_ep: media_endpoint cfg en "hlsMedia cfg tp sg en r" for cfg tp sg en r
proof
  fix opts verb u h p k res w
  have "amount e = 0" if "e \<in> set (snd (hlsMedia cfg tp sg en r opts))" for e using hlsMedia_effects [OF that] by auto
  then show "balanced (snd (hlsMedia cfg tp sg en r opts))" by (blast intro: balanced_plain)
  show "u = Dest opts \<and> p = effProxy cfg opts" if "EFetch verb u h p \<in> set (snd (hlsMedia cfg tp sg en r opts))"
    using hlsMedia_effects [OF that] by simp
  show "EEmbedPut k res \<notin> set (snd (hlsMedia cfg tp sg en r opts))" using hlsMedia_effects by blast
  show "p = effProxy cfg opts" if "EPrefetch u h p \<in> set (snd (hlsMedia cfg tp sg en r opts))"
    using hlsMedia_effects [OF that] by simp
  show "hardened w" if "fst (hlsMedia cfg tp sg en r opts) = Reply w"
    using that hardened_secure(1) [OF unblocked_set [OF unblocked_Nil plain_names(1)]] fetchManifest_reply by (auto simp: hlsMedia_def Let_def split: sum.splits)
qed

interpretation mpd_ep: media_endpoint cfg en "dashMedia cfg tp sg en r" for cfg tp sg en r
proof
  fix opts verb u h p k res w
  have tr: "snd (dashMedia cfg tp sg en r opts) = [EFetch ''GET'' (Dest opts) (ReqHeaders opts) (effProxy cfg opts)]"
    by (simp add: dashMedia_def Let_def split: sum.split outcome.split)
  show "balanced (snd (dashMedia cfg tp sg en r opts))" by (simp add: tr)
  show "u = Dest opts \<and> p = effProxy cfg opts" if "EFetch verb u h p \<in> set (snd (dashMedia cfg tp sg en r opts))"
    using that by (simp add: tr)
  show "EEmbedPut k res \<notin> set (snd (dashMedia cfg tp sg en r opts))" by (simp add: tr)
  show "p = effProxy cfg opts" if "EPrefetch u h p \<in> set (snd (dashMedia cfg tp sg en r opts))" using that by (simp add: tr)
  show "hardened w" if "fst (dashMedia cfg tp sg en r opts) = Reply w"
    using that hardened_secure(2) [OF unblocked_Nil] fetchManifest_reply by (auto simp: dashMedia_def Let_def split: sum.splits outcome.splits)
qed




section \<open>Keys and writes\<close>

lemma hexDigit_lower: "d < 16 \<Longrightarrow> hexDigit (''0123456789abcdef'' ! d) = Some d"
proof -
  have "list_all (\<lambda>d. hexDigit (''0123456789abcdef'' ! d) = Some d) [0..<16]" by code_simp
  then show "d < 16 \<Longrightarrow> hexDigit (''0123456789abcdef'' ! d) = Some d" by (simp add: list_all_iff)
qed

lemma hexBytes_lower: "hexBytes (concat (map lowerHex k)) = Some k"
proof (induction k)
  case (Cons b k)
  have "unat b < 256" by (rule unat_byte)
  then have d: "unat b div 16 < 16" "unat b mod 16 < 16" by auto
  have "(of_nat (16 * (unat b div 16) + unat b mod 16) :: byte) = b" by simp
  then show ?case using Cons d by (simp add: lowerHex_def hexDigit_lower)
qed simp

lemma trimSpace_hex: "Proxy_Auth.trimSpace (concat (map lowerHex k)) = concat (map lowerHex k)"
proof (rule trim_tokens)
  have t: "list_all (\<lambda>d. tokenChar (''0123456789abcdef'' ! d)) [0..<16]" by code_simp
  have "unat b < 256" for b :: byte by (rule unat_byte)
  then have "unat b div 16 < 16" "unat b mod 16 < 16" for b :: byte by (auto simp: less_mult_imp_div_less)
  then show "list_all tokenChar (concat (map lowerHex k))" using t by (auto simp: list_all_iff lowerHex_def)
qed

lemma decodeKey_hex: "decodeKeyParam (concat (map lowerHex k)) = k"
  unfolding decodeKeyParam_def trimSpace_hex hexBytes_lower by (cases k) (simp_all add: lowerHex_def)

lemma writeSegment_all: "(\<And>i. tk i = None) \<Longrightarrow> writeSegment tk i p = p"
proof (induction tk i p rule: writeSegment.induct)
  case (1 tk i p)
  show ?case
  proof (cases "p = []")
    case False
    let ?n = "min (length p) segmentWriteChunk"
    have "writeSegment tk i p = take ?n p @ writeSegment tk (Suc i) (drop ?n p)"
      using 1(2) False by (simp add: writeSegment.simps [of tk i p] Let_def)
    also have "\<dots> = p" unfolding 1(1) [OF False refl 1(2) 1(2)] by simp
    finally show ?thesis .
  qed (simp add: writeSegment.simps)
qed

text \<open>A segment whose length is advertised truthfully, or read to a clean end, arrives whole.\<close>

lemma readSegment_whole:
  assumes "ContentLength resp = int (length (rbody resp)) \<or> (ContentLength resp < 0 \<and> \<not> rfails resp)" "int (length (rbody resp)) \<le> maxSegmentBytes"
  shows "readSegment resp = Inr (rbody resp)"
  using assms by (auto simp: readSegment_def Let_def maxSegmentBytes_def)

lemma drm_aes128:
  assumes "block_ok b" "nc k = Some b" "length k = 16" "length iv = 16" "Method p = ''AES-128''" "Key p = k" "PIV p = iv"
  shows "fst (drmDecryptInPlace nc p (cbcEnc (Encrypt b) iv (pkcs7 x))) = Ok x"
proof -
  have m: "Drm_Decrypt.trimSpace (map upperc ''AES-128'') = ''AES-128''" by code_simp
  then show ?thesis using drm_cbc_roundtrip [of b nc k iv x True, OF assms(1-4)] assms(3-7)
    by (simp add: drmDecryptInPlace_def drmDecryptBuf_def Let_def)
qed

section \<open>Properties\<close>

text \<open>C25: Every request returns exactly the bytes of the in-flight budget it reserved, on every path through every media
  endpoint: errors, short or oversized bodies, a decryption that fails or panics, a client that stops reading. At no
  point has it returned more than it held, or held more than one segment.\<close>

theorem serve_budget_balanced:
  assumes "Route cfg tp sg en r segs = Media f"
  shows "heldAfter (snd f) = 0 \<and> (\<forall>n. 0 \<le> heldAfter (take n (snd f)) \<and> heldAfter (take n (snd f)) \<le> maxSegmentBytes)"
proof -
  have "balanced (snd f)" using assms
    by (rule Route_Media) (simp_all add: serveStream_def hlsServe_def dashServe_def stream_ep.served_balanced hls_ep.served_balanced mpd_ep.served_balanced)
  then show ?thesis by (simp add: balanced_def)
qed


text \<open>Every reply of a media endpoint forbids content sniffing, and unless it is an error page of the proxy itself it is
  sandboxed, whatever headers the client and the upstream ask for; under no spelling does it carry another cookie,
  redirect, refresh, policy or CORS header.\<close>

theorem serve_hardened:
  assumes "Route cfg tp sg en r segs = Media f" "fst f = Reply w"
  shows "hdrValues (wHeader w) ''X-Content-Type-Options'' = [''nosniff''] \<and>
    (\<forall>(k, vs) \<in> set (wHeader w). BlockedRespHeader k \<longrightarrow>
       (k, vs) \<in> {(''X-Content-Type-Options'', [''nosniff'']), (''Content-Security-Policy'', [''sandbox''])}) \<and>
    (hdrValues (wHeader w) ''Content-Security-Policy'' = [''sandbox''] \<or> (\<exists>msg code. 400 \<le> code \<and> w = httpError msg code freshWriter))"
proof -
  consider "fst (serveStream cfg tp sg en r) = Reply w" | "fst (hlsServe cfg tp sg en r) = Reply w" | "fst (dashServe cfg tp sg en r) = Reply w"
    using Route_Media [OF assms(1)] assms(2) by blast
  then have "hardened w" unfolding serveStream_def hlsServe_def dashServe_def
    by cases (rule stream_ep.served_hardened hls_ep.served_hardened mpd_ep.served_hardened, assumption)+
  then show ?thesis unfolding hardened_def sealed_def by blast
qed

text \<open>An encrypted HLS segment, end to end: for an admitted GET whose query gives the method AES-128 and the key and IV in
  hexadecimal, when the upstream answers with the CBC encryption of the padded segment, completely and within the segment
  limit, and the budget grants the bytes, the client receives the plaintext with status 200 and its true length.\<close>

theorem aes128_served:
  assumes cipher: "block_ok b" "blockCipher en k = Some b" "length k = 16" "length iv = 16"
    and query: "qGet (query r) decryptMethodParam = ''AES-128''" "qGet (query r) ''key'' = concat (map lowerHex k)"
      "qGet (query r) ''iv'' = concat (map lowerHex iv)" "reqVerb r = ''GET''"
    and admitted: "admit cfg tp sg en r ''missing or invalid destination URL'' ''/proxy/stream'' = (Inr opts, tr)"
    and answer: "upstream en ''GET'' (Dest opts) (upstreamHeaders opts) (effProxy cfg opts) = Some resp"
      "rbody resp = cbcEnc (Encrypt b) iv (pkcs7 x)" "int (length (rbody resp)) \<le> maxSegmentBytes"
      "ContentLength resp = int (length (rbody resp)) \<or> (ContentLength resp < 0 \<and> \<not> rfails resp)"
      "granted en (segmentReservation (ContentLength resp))" "\<And>i. taken en i = None"
  shows "\<exists>w. fst (serveStream cfg tp sg en r) = Reply w \<and> wStatus w = Some 200 \<and> wBody w = x \<and>
    hdrValues (wHeader w) ''Content-Length'' = [itoa (length x)]"
proof -
  have p: "Method (parseDecryptParams r) = ''AES-128''" "Key (parseDecryptParams r) = k" "PIV (parseDecryptParams r) = iv"
    using query decodeKey_hex by (simp_all add: parseDecryptParams_def)
  have d: "fst (drmDecryptInPlace (blockCipher en) (parseDecryptParams r) (rbody resp)) = Ok x"
    unfolding answer(2) by (rule drm_aes128 [of b "blockCipher en" k iv "parseDecryptParams r", OF cipher p])
  have cl: "\<not> ContentLength resp > maxSegmentBytes" using answer(3,4) by (auto simp: maxSegmentBytes_def)
  have "fst (decryptGranted en r opts resp) = Reply \<lparr>wHeader = decryptedHeaders opts (RHeader resp) x, wStatus = Some 200, wBody = x\<rparr>"
    using d query(4) writeSegment_all [of "taken en"] answer(6) by (simp add: decryptGranted_def readSegment_whole [OF answer(4,3)] Let_def)
  then have "fst (streamMedia en cfg r opts) = Reply \<lparr>wHeader = decryptedHeaders opts (RHeader resp) x, wStatus = Some 200, wBody = x\<rparr>"
    using p cipher(3) answer(1,5) cl by (auto simp: streamMedia_def decryptPath_def Let_def)
  then show ?thesis
    using admitted by (simp add: serveStream_def serveWith_def decryptedHeaders_def Let_def header_simps)
qed

section \<open>Witnesses and counterexamples\<close>

definition demoResp :: "byte list \<Rightarrow> response" where
  "demoResp bs = \<lparr>StatusCode = 200, ContentLength = -1, RHeader = [], rbody = bs, rfails = False\<rparr>"

definition demoEnv :: "byte list \<Rightarrow> env" where
  "demoEnv bs = \<lparr>authNow = 0, optsNow = 0, clock = \<lambda>_. 0, allowAt = \<lambda>_. None, keyOrder = [''d'', ''h_X-Forwarded-For''], nonces = \<lambda>_. None,
     lookupHost = \<lambda>_. None, allowLookup = \<lambda>_. None, defMatch = \<lambda>_. None, defScript = \<lambda>_ _. Give None, embedHit = \<lambda>_. None,
     upstream = \<lambda>_ _ _ _. Some (demoResp bs), granted = \<lambda>_. True, room = \<lambda>_. True, cacheLimit = Some 1000, cached = \<lambda>_. None,
     freeSlots = 8, digest = \<lambda>_. [], blockCipher = toyCipher, tokenize = \<lambda>_. ([], None), taken = \<lambda>_. None\<rparr>"

definition demoOpts :: "Header \<Rightarrow> Options" where
  "demoOpts h = \<lparr>Dest = ''http://1.1.1.1/a'', ReqHeaders = h, RespHeaders = [], APIPassword = [], Proxy = [], subTokenExp = 0, subTokenIP = []\<rparr>"

lemma demo_admit:
  "admit demoGuardCfg None demoSigner (demoEnv bs) (demoReq p ''d=http://1.1.1.1/a'') m ep = (Inr (demoOpts []), [])"
  "admit (demoGuardCfg\<lparr>Prebuffer := 1, UpstreamProxy := ''http://p:1''\<rparr>) None demoSigner (demoEnv bs) (demoReq p ''d=http://1.1.1.1/a'') m ep =
     (Inr (demoOpts []), [])"
  "admit demoGuardCfg None demoSigner (demoEnv bs) (demoReq p ''d=http://1.1.1.1/a&h_X-Forwarded-For=8.8.8.8'') m ep =
     (Inr (demoOpts [(''X-Forwarded-For'', [''8.8.8.8''])]), [])"
  by code_simp+

lemma fetchManifest_demo:
  assumes "length bs \<le> maxManifestBytes"
  shows "fetchManifest (demoEnv bs) cfg opts a b = Inr bs"
  using assms by (simp add: fetchManifest_def demoEnv_def demoResp_def readLimited_def bodyFails_def bodyOf_def)

text \<open>The manifest endpoints hand the client's headers to the upstream without the filter of the stream endpoint.\<close>

theorem hls_forwards_blocked:
  "EFetch ''GET'' ''http://1.1.1.1/a'' [(''X-Forwarded-For'', [''8.8.8.8''])] [] \<in>
     set (snd (hlsServe demoGuardCfg None demoSigner (demoEnv []) (demoReq p ''d=http://1.1.1.1/a&h_X-Forwarded-For=8.8.8.8''))) \<and>
   BlockedReqHeader ''X-Forwarded-For''"
proof
  show "BlockedReqHeader ''X-Forwarded-For''" by code_simp
  show "EFetch ''GET'' ''http://1.1.1.1/a'' [(''X-Forwarded-For'', [''8.8.8.8''])] [] \<in>
     set (snd (hlsServe demoGuardCfg None demoSigner (demoEnv []) (demoReq p ''d=http://1.1.1.1/a&h_X-Forwarded-For=8.8.8.8'')))"
    unfolding hlsServe_def demo_admit(3)
    by (simp add: serveWith_def hlsMedia_def fetchManifest_demo effProxy_def demoOpts_def Let_def) (simp add: demoGuardCfg_def)
qed

text \<open>The segments a playlist names are prefetched without the destination guard: a playlist can make the proxy request
  a metadata endpoint through the configured upstream proxy.\<close>

theorem prefetch_unchecked:
  "EPrefetch ''http://169.254.169.254/x'' [] ''http://p:1'' \<in>
     set (snd (hlsServe (demoGuardCfg\<lparr>Prebuffer := 1, UpstreamProxy := ''http://p:1''\<rparr>) None demoSigner
       (demoEnv (bytesIn ''http://169.254.169.254/x'')) (demoReq p ''d=http://1.1.1.1/a''))) \<and>
   destErr (demoEnv bs) k demoGuardCfg ''http://169.254.169.254/x'' = Some DestMetadata"
proof
  have c: "textOf (bytesIn ''http://169.254.169.254/x'') = ''http://169.254.169.254/x''"
    "hlsSegmentURLs ''http://1.1.1.1/a'' ''http://169.254.169.254/x'' 1 = [''http://169.254.169.254/x'']" by code_simp+
  have l: "length (bytesIn ''http://169.254.169.254/x'') \<le> maxManifestBytes" by (simp add: bytesIn_def maxManifestBytes_def)
  show "EPrefetch ''http://169.254.169.254/x'' [] ''http://p:1'' \<in>
     set (snd (hlsServe (demoGuardCfg\<lparr>Prebuffer := 1, UpstreamProxy := ''http://p:1''\<rparr>) None demoSigner
       (demoEnv (bytesIn ''http://169.254.169.254/x'')) (demoReq p ''d=http://1.1.1.1/a'')))"
    unfolding hlsServe_def demo_admit(2)
    by (simp add: serveWith_def hlsMedia_def fetchManifest_demo [OF l] effProxy_def demoOpts_def Let_def prefetch_def c)
      (simp add: demoEnv_def)
  show "destErr (demoEnv bs) k demoGuardCfg ''http://169.254.169.254/x'' = Some DestMetadata" by code_simp
qed


theorem serve_hardened_witness:
  "\<exists>w. fst (serveStream demoGuardCfg None demoSigner (demoEnv []) (demoReq ''/proxy/stream'' [])) = Reply w \<and>
     hdrValues (wHeader w) ''X-Content-Type-Options'' = [''nosniff'']"
proof -
  let ?r = "demoReq ''/proxy/stream'' []"
  have a: "admit demoGuardCfg None demoSigner (demoEnv []) ?r m ep = (Inl (failWith m 400), [])" for m ep by code_simp
  then obtain w where w: "fst (serveStream demoGuardCfg None demoSigner (demoEnv []) ?r) = Reply w"
    by (simp add: serveStream_def serveWith_def failWith_def)
  have "Route demoGuardCfg None demoSigner (demoEnv []) ?r [''proxy'', ''stream''] = Media (serveStream demoGuardCfg None demoSigner (demoEnv []) ?r)"
    by (simp add: Route_def)
  from serve_hardened [OF this w] w show ?thesis by simp
qed

theorem serve_budget_balanced_witness:
  "heldAfter (snd (serveStream demoGuardCfg None demoSigner (demoEnv []) (demoReq ''/proxy/stream'' ''d=http://1.1.1.1/a''))) = 0"
proof -
  let ?r = "demoReq ''/proxy/stream'' ''d=http://1.1.1.1/a''"
  have "Route demoGuardCfg None demoSigner (demoEnv []) ?r [''proxy'', ''stream''] = Media (serveStream demoGuardCfg None demoSigner (demoEnv []) ?r)"
    by (simp add: Route_def)
  from serve_budget_balanced [OF this] show ?thesis by simp
qed

theorem aes128_served_witness:
  "\<exists>w. fst (serveStream demoGuardCfg None demoSigner (demoEnv (cbcEnc (Encrypt toy) (replicate 16 3) (pkcs7 [1, 2, 3])))
      (demoReq ''/proxy/stream'' (''d=http://1.1.1.1/a&meth'' @ ''od=AES-128&key='' @ concat (map lowerHex (replicate 16 7)) @
         ''&iv='' @ concat (map lowerHex (replicate 16 3))))) = Reply w \<and> wBody w = [1, 2, 3]"
proof -
  let ?r = "demoReq ''/proxy/stream'' (''d=http://1.1.1.1/a&meth'' @ ''od=AES-128&key='' @ concat (map lowerHex (replicate 16 7)) @
         ''&iv='' @ concat (map lowerHex (replicate 16 3)))"
  let ?bs = "cbcEnc (Encrypt toy) (replicate 16 3) (pkcs7 [1, 2, 3])"
  have q: "qGet (query ?r) decryptMethodParam = ''AES-128''" "qGet (query ?r) ''key'' = concat (map lowerHex (replicate 16 7))"
      "qGet (query ?r) ''iv'' = concat (map lowerHex (replicate 16 3))" "length ?bs = 16" by code_simp+
  have a: "admit demoGuardCfg None demoSigner (demoEnv ?bs) ?r ''missing or invalid destination URL'' ''/proxy/stream'' = (Inr (demoOpts []), [])"
    by code_simp
  show ?thesis
    using aes128_served [of toy "demoEnv ?bs" "replicate 16 7" "replicate 16 3" ?r, OF toy_ok _ _ _ q(1-3) _ a, of "demoResp ?bs" "[1, 2, 3]"] q(4)
    by (auto simp: demoEnv_def demoResp_def toyCipher_def demoReq_def maxSegmentBytes_def)
qed

end
