(* ===== verification/Proxy_Generate.thy ===== *)
theory Proxy_Generate
  imports Proxy_Serve
begin

text \<open>
  The endpoints of the stream proxy that hand out URLs: \<open>HandleGenerateURL\<close> signs an expiring proxy URL and \<open>HandleBase64\<close>
  encodes and checks destinations (\<open>streamproxy/streamproxy.go\<close>), \<open>HandleExtractor\<close> resolves a hoster page into a proxied
  stream (\<open>streamproxy/extractor.go\<close>). JSON bodies are parameters on the way in and values on the way out.
\<close>

section \<open>Signed URLs\<close>

definition maxGenerateURLBody :: nat where "maxGenerateURLBody = 64 * 2 ^ 10"
definition maxTokenExpirySeconds :: int where "maxTokenExpirySeconds = 365 * 24 * 3600"

definition validEndpoint :: "string \<Rightarrow> bool" where
  "validEndpoint ep =
     (if ep = ''/proxy/stream'' \<or> ep = ''/proxy/ip'' then True
      else if hasPrefix ''/proxy/hls/'' ep \<or> hasPrefix ''/proxy/mpd/'' ep \<or> hasPrefix ''/proxy/stream/'' ep
      then \<not> list_ex (\<lambda>c. c \<in> {CHR ''?'', CHR ''#'', CHR 0x5C, CHR '' ''}) ep
      else False)"

record genRequest =
  genEndpoint :: string
  genParams :: "(string \<times> string) list"
  genExpiry :: int
  genIP :: string

datatype gen_err = UnknownEndpoint | BadExpiry | BadDest

definition validateGenerateRequest :: "genRequest \<Rightarrow> gen_err option" where
  "validateGenerateRequest q =
     (if \<not> validEndpoint (genEndpoint q) then Some UnknownEndpoint
      else if genExpiry q < 1 \<or> genExpiry q > maxTokenExpirySeconds then Some BadExpiry
      else (case map_of (genParams q) ''d'' of
              None \<Rightarrow> None
            | Some d \<Rightarrow>
                (case urlParse (decodeDest d) of
                   None \<Rightarrow> Some BadDest
                 | Some u \<Rightarrow> if (Scheme u \<noteq> ''http'' \<and> Scheme u \<noteq> ''https'') \<or> Host u = [] then Some BadDest else None)))"

datatype gen_reply = GenAuth auth_err | NotConfigured | BadJSON | GenRefused gen_err | BadIP | SignFailed | GenURL string int

text \<open>\<open>decode\<close> reads the JSON body from the bytes within the limit, knowing whether the body goes on beyond them. \<open>now\<close> is
  the time of the authorization, \<open>now2\<close> that of the expiry computation (Unix seconds).\<close>

definition HandleGenerateURL :: "Config \<Rightarrow> IPNet list option \<Rightarrow> signer \<Rightarrow> (byte list \<Rightarrow> bool \<Rightarrow> genRequest option) \<Rightarrow> byte list option \<Rightarrow>
    int \<Rightarrow> int \<Rightarrow> Request \<Rightarrow> byte list \<Rightarrow> gen_reply" where
  "HandleGenerateURL cfg tp sg decode rnd now now2 r body =
     (case authorize cfg tp sg now r of
        Some e \<Rightarrow> GenAuth e
      | None \<Rightarrow>
          if Secret cfg = [] then NotConfigured
          else (case decode (take maxGenerateURLBody body) (length body > maxGenerateURLBody) of
                  None \<Rightarrow> BadJSON
                | Some q \<Rightarrow>
                    (case validateGenerateRequest q of
                       Some e \<Rightarrow> GenRefused e
                     | None \<Rightarrow>
                         (let ip = (if genIP q = [] then Some [] else map_option ipString (ParseIP (Proxy_Auth.trimSpace (genIP q))))
                          in case ip of
                               None \<Rightarrow> BadIP
                             | Some ipBind \<Rightarrow>
                                 (let e = now2 + genExpiry q
                                  in case signToken cfg sg rnd \<lparr>Endpoint = genEndpoint q, Params = genParams q, Exp = e, tokIP = ipBind\<rparr> of
                                       Inl _ \<Rightarrow> SignFailed
                                     | Inr tok \<Rightarrow> GenURL (genEndpoint q @ ''?token='' @ tok) e)))))"

section \<open>Base64\<close>

datatype b64_reply = B64NotFound | B64Encoded string | B64Checked bool string

definition HandleBase64 :: "Request \<Rightarrow> string list \<Rightarrow> b64_reply" where
  "HandleBase64 r segs =
     (let d = qGet (query r) ''d''
      in case segs of
           _ # s # _ \<Rightarrow>
             (if s = ''encode'' then B64Encoded (RawURLEncode (bytesOf d))
              else if s = ''check'' then
                (case tryBase64Decode d of None \<Rightarrow> B64Checked False d | Some x \<Rightarrow> B64Checked True x)
              else B64NotFound)
         | _ \<Rightarrow> B64NotFound)"

section \<open>Extractors\<close>

definition trimSuffix :: "string \<Rightarrow> string \<Rightarrow> string" where
  "trimSuffix s suf = (if length suf \<le> length s \<and> drop (length s - length suf) s = suf then take (length s - length suf) s else s)"

definition ParseBool :: "string \<Rightarrow> bool" where
  "ParseBool s \<longleftrightarrow> s \<in> {''1'', ''t'', ''T'', ''TRUE'', ''true'', ''True''}"

datatype extractor_reply =
    XNotFound
  | XAuth auth_err
  | XError int
  | XRedirect string
  | XDescribe extractResult string string

text \<open>\<open>defs\<close> looks an extractor up by name. A description carries the result, the proxy endpoint and the password.\<close>

definition HandleExtractor :: "Config \<Rightarrow> IPNet list option \<Rightarrow> signer \<Rightarrow> env \<Rightarrow> (string \<Rightarrow> (string \<Rightarrow> script) option) \<Rightarrow> Request \<Rightarrow> string list \<Rightarrow>
    extractor_reply \<times> effect list" where
  "HandleExtractor cfg tp sg en defs r segs =
     (if length segs < 2 \<or> trimSuffix (trimSuffix (segs ! 1) ''.m3u8'') ''.mp4'' \<noteq> ''video'' then (XNotFound, [])
      else (case authorize cfg tp sg (authNow en) r of
              Some e \<Rightarrow> (XAuth e, [])
            | None \<Rightarrow>
                (case defs (map lowerC (Proxy_Auth.trimSpace (qGet (query r) ''host''))) of
                   None \<Rightarrow> (XError 400, [])
                 | Some ex \<Rightarrow>
                     (let page = decodeDest (qGet (query r) ''d'');
                          opts = parseOptions cfg tp sg (optsNow en) (keyOrder en) r
                      in if destErr en 1 cfg page \<noteq> None then (XError 400, [])
                         else (case runScript (extractorFetch en cfg (Proxy opts)) (ex page) 4 of
                                 (None, tr) \<Rightarrow> (XError 502, tr)
                               | (Some res, tr) \<Rightarrow>
                                   if destErr en 3 cfg (resURL res) \<noteq> None then (XError 502, tr)
                                   else
                                     (let opts' = opts\<lparr>ReqHeaders := fold (\<lambda>(k, v) h. hdrSet h k v) (resHeaders res) (ReqHeaders opts)\<rparr>;
                                          base = externalBase cfg tp r
                                      in if ParseBool (qGet (query r) ''redirect_stream'')
                                         then (XRedirect (buildProxyURL cfg sg (nonces en 0) base (resEndpoint res) (resURL res) (Some opts')), tr)
                                         else (XDescribe res (base @ resEndpoint res) (APIPassword opts'), tr)))))))"

section \<open>Addresses as text\<close>

lemma joinWith_all: "list_all P sep \<Longrightarrow> \<forall>x \<in> set xs. list_all P x \<Longrightarrow> list_all P (joinWith sep xs)"
  by (induction sep xs rule: joinWith.induct) simp_all

lemma joinWith_ne: "xs \<noteq> [] \<Longrightarrow> hd xs \<noteq> [] \<Longrightarrow> joinWith sep xs \<noteq> []"
  by (cases "(sep, xs)" rule: joinWith.cases) simp_all

lemma itoa_ascii: "list_all (\<lambda>c. ch c < 128) (itoa n)"
proof (induction n rule: itoa.induct)
  case (1 n)
  have "ch (char_of (48 + n mod 10)) < 128" using mod_less_divisor [of 10 n] by simp
  then show ?case using 1 by (subst itoa.simps) auto
qed

lemma hexLower_ascii: "list_all (\<lambda>c. ch c < 128) (hexLower n)"
proof (induction n rule: hexLower.induct)
  case (1 n)
  then show ?case by (subst hexLower.simps) auto
qed

lemma ipString_ascii: "list_all (\<lambda>c. ch c < 128) (ipString ip)"
  by (auto simp: ipString_def Let_def itoa_ascii hexLower_ascii intro!: joinWith_all split: option.split)

lemma ipString_ne:
  assumes "ParseIP s = Some ip"
  shows "ipString ip \<noteq> []"
proof -
  have l: "length ip = 16" using ParseIP_length [OF assms] by blast
  have i: "itoa n \<noteq> []" for n by (subst itoa.simps) simp
  show ?thesis
  proof (cases "To4 ip")
    case (Some q)
    then have "q \<noteq> []" using To4_length [OF Some] by auto
    then have "joinWith ''.'' (map (\<lambda>b. itoa (unat b)) q) \<noteq> []" using i by (intro joinWith_ne) (simp_all add: hd_map)
    then show ?thesis using Some by (simp add: ipString_def)
  next
    case None
    have "hexLower n \<noteq> []" for n by (subst hexLower.simps) (simp add: hexLower.simps [of "n mod 16"])
    moreover have "v6Groups ip = hd (v6Groups ip) # tl (v6Groups ip)" by (simp add: v6Groups_def upt_rec)
    ultimately have "joinWith '':'' (map hexLower (v6Groups ip)) \<noteq> []" by (metis joinWith_ne list.distinct(1) list.map(2) list.sel(1))
    then show ?thesis using None l by (simp add: ipString_def Let_def)
  qed
qed

lemma validEndpoint_ne: "validEndpoint ep \<Longrightarrow> ep \<noteq> []"
  by (auto simp: validEndpoint_def hasPrefix_def split: if_splits)

lemma signToken_query:
  assumes "signToken cfg sg rnd t = Inr tok"
  shows "qGet (parseQuery (''token='' @ tok)) ''token'' = tok"
proof -
  obtain bs where tok: "tok = RawURLEncode (map unat (bs :: byte list))"
    using assms by (auto simp: signToken_def simp del: map_append split: if_splits option.splits)
  have safe: "list_all urlSafe tok" unfolding tok by (rule RawURLEncode_safe) (auto simp only: set_map unat_byte)
  have "QueryEscape ''token'' = ''token''" by code_simp
  then have e: "''token='' @ tok = QueryEscape ''token'' @ CHR ''='' # QueryEscape tok" using QueryEscape_safe [OF safe] by simp
  have "CHR ''&'' \<notin> set (QueryEscape ''token'' @ CHR ''='' # QueryEscape tok)" using QueryEscape_seps by auto
  then show ?thesis unfolding e by (simp add: parseQuery_single queryPair_escaped qGet_def qVals_def)
qed

section \<open>Properties\<close>

text \<open>C26: A generated URL is exactly the grant that was asked for: its token, sent back with any parameters, authorises a
  request if and only if the request is for the named endpoint, carries the bound parameters, comes before the expiry and
  from the bound address (and passes the access list); the expiry lies at most a year ahead, and the token survives the
  query string unescaped.\<close>

theorem generated_url_grant:
  assumes laws: "aead_ok sg" "json_ok sg" "length nonce = 12"
    and ok: "HandleGenerateURL cfg tp sg decode (Some nonce) now now2 r body = GenURL url e"
    and req: "decode (take maxGenerateURLBody body) (length body > maxGenerateURLBody) = Some q"
    and ascii: "list_all (\<lambda>c. ch c < 128) (genEndpoint q @ concat (map (\<lambda>(k, v). k @ v) (genParams q)))"
  shows "\<exists>tok ip. url = genEndpoint q @ ''?token='' @ tok \<and> qGet (parseQuery (''token='' @ tok)) ''token'' = tok \<and>
    now2 < e \<and> e \<le> now2 + 365 * 24 * 3600 \<and> authorize cfg tp sg now r = None \<and>
    (genIP q = [] \<or> ParseIP (Proxy_Auth.trimSpace (genIP q)) = Some ip) \<and>
    (\<forall>r' now'. qGet (query r') ''token'' = tok \<longrightarrow>
       (authorize cfg tp sg now' r' = None \<longleftrightarrow>
          (IPACL cfg = [] \<or> aclAllows cfg (clientIP tp r')) \<and> now' \<le> e \<and>
          (genIP q = [] \<or> (case clientIP tp r' of None \<Rightarrow> [] | Some x \<Rightarrow> ipString x) = ipString ip) \<and>
          urlPath r' = genEndpoint q \<and> list_all (paramOk (query r')) (genParams q)))"
proof -
  have a: "authorize cfg tp sg now r = None" "Secret cfg \<noteq> []" "validateGenerateRequest q = None"
    using ok req by (auto simp: HandleGenerateURL_def split: option.splits if_splits)
  define ob where "ob = (if genIP q = [] then Some [] else map_option ipString (ParseIP (Proxy_Auth.trimSpace (genIP q))))"
  obtain ipBind tok where b: "ob = Some ipBind" and e: "e = now2 + genExpiry q"
    and t: "signToken cfg sg (Some nonce) \<lparr>Endpoint = genEndpoint q, Params = genParams q, Exp = e, tokIP = ipBind\<rparr> = Inr tok"
    and u: "url = genEndpoint q @ ''?token='' @ tok"
    using ok a by (auto simp: HandleGenerateURL_def req Let_def ob_def [symmetric] split: option.splits sum.splits)
  let ?t = "\<lparr>Endpoint = genEndpoint q, Params = genParams q, Exp = e, tokIP = ipBind\<rparr>"
  obtain ip where ip: "genIP q = [] \<and> ipBind = [] \<or> genIP q \<noteq> [] \<and> ParseIP (Proxy_Auth.trimSpace (genIP q)) = Some ip \<and> ipBind = ipString ip"
    using b by (auto simp: ob_def split: if_splits)
  then have "asciiTok ?t" using ascii ipString_ascii [of ip] by (auto simp: asciiTok_def)
  note grant = authorize_signed [OF laws(1,2) this laws(3) a(2) t, of _ tp]
  have v: "validEndpoint (genEndpoint q)" "1 \<le> genExpiry q" "genExpiry q \<le> 365 * 24 * 3600"
    using a(3) by (auto simp: validateGenerateRequest_def maxTokenExpirySeconds_def split: if_splits)
  have "authorize cfg tp sg now' r' = None \<longleftrightarrow>
      (IPACL cfg = [] \<or> aclAllows cfg (clientIP tp r')) \<and> now' \<le> e \<and>
      (genIP q = [] \<or> (case clientIP tp r' of None \<Rightarrow> [] | Some x \<Rightarrow> ipString x) = ipString ip) \<and>
      urlPath r' = genEndpoint q \<and> list_all (paramOk (query r')) (genParams q)" if "qGet (query r') ''token'' = tok" for r' now'
    using grant [OF that, of now'] ip ipString_ne validEndpoint_ne [OF v(1)] by (auto simp: tokLive_def)
  then show ?thesis using u signToken_query [OF t] e v a(1) ip by (intro exI [of _ tok] exI [of _ ip]) auto
qed

text \<open>An extractor fetches nothing and reveals nothing unguarded: every page it asks for is fetched for an authorised
  client after passing the destination guard, and a redirect or a description is given only for a result that passed it.\<close>

theorem extractor_guarded:
  assumes "HandleExtractor cfg tp sg en defs r segs = (rep, tr)"
  shows "(tr \<noteq> [] \<longrightarrow> authorize cfg tp sg (authNow en) r = None) \<and>
    (\<forall>e \<in> set tr. \<exists>verb u h p k. e = EFetch verb u h p \<and> destErr en k cfg u = None) \<and>
    (\<forall>res p pw. rep = XDescribe res p pw \<longrightarrow> authorize cfg tp sg (authNow en) r = None \<and> destErr en 3 cfg (resURL res) = None) \<and>
    (\<forall>url. rep = XRedirect url \<longrightarrow> authorize cfg tp sg (authNow en) r = None \<and>
       (\<exists>(res :: extractResult) rnd opts. destErr en 3 cfg (resURL res) = None \<and>
          url = buildProxyURL cfg sg rnd (externalBase cfg tp r) (resEndpoint res) (resURL res) (Some opts)))"
proof (cases "length segs < 2 \<or> trimSuffix (trimSuffix (segs ! 1) ''.m3u8'') ''.mp4'' \<noteq> ''video'' \<or>
    authorize cfg tp sg (authNow en) r \<noteq> None \<or> defs (map lowerC (Proxy_Auth.trimSpace (qGet (query r) ''host''))) = None \<or>
    destErr en 1 cfg (decodeDest (qGet (query r) ''d'')) \<noteq> None")
  case True
  then have "tr = [] \<and> (rep = XNotFound \<or> (\<exists>e. rep = XAuth e) \<or> rep = XError 400)"
    using assms by (auto simp: HandleExtractor_def Let_def split: option.splits if_splits)
  then show ?thesis by auto
next
  case False
  let ?opts = "parseOptions cfg tp sg (optsNow en) (keyOrder en) r" and ?page = "decodeDest (qGet (query r) ''d'')"
  obtain ex where ex: "defs (map lowerC (Proxy_Auth.trimSpace (qGet (query r) ''host''))) = Some ex" using False by auto
  obtain o1 tr1 where r: "runScript (extractorFetch en cfg (Proxy ?opts)) (ex ?page) 4 = (o1, tr1)" by fastforce
  have tr: "tr = tr1" using assms False ex r by (auto simp: HandleExtractor_def Let_def split: option.splits if_splits)
  have eff: "\<exists>verb u h p k. e = EFetch verb u h p \<and> destErr en k cfg u = None" if "e \<in> set tr" for e
    using runScript_effects [of e en cfg "Proxy ?opts" "ex ?page" 4] that unfolding r tr by auto
  have au: "authorize cfg tp sg (authNow en) r = None" using False by blast
  have effs: "\<forall>e \<in> set tr. \<exists>verb u h p k. e = EFetch verb u h p \<and> destErr en k cfg u = None" by (intro ballI eff)
  show ?thesis
  proof (cases "\<exists>res. o1 = Some res \<and> destErr en 3 cfg (resURL res) = None")
    case True
    then obtain res where res: "o1 = Some res" "destErr en 3 cfg (resURL res) = None" by blast
    let ?x = "?opts\<lparr>ReqHeaders := fold (\<lambda>(k, v) h. hdrSet h k v) (resHeaders res) (ReqHeaders ?opts)\<rparr>"
    let ?u = "buildProxyURL cfg sg (nonces en 0) (externalBase cfg tp r) (resEndpoint res) (resURL res) (Some ?x)"
    have rep: "rep = XDescribe res (externalBase cfg tp r @ resEndpoint res) (APIPassword ?x) \<or> rep = XRedirect ?u"
      using assms False ex r res by (auto simp: HandleExtractor_def Let_def split: if_splits)
    have "\<exists>(res :: extractResult) rnd opts. destErr en 3 cfg (resURL res) = None \<and>
        ?u = buildProxyURL cfg sg rnd (externalBase cfg tp r) (resEndpoint res) (resURL res) (Some opts)"
      by (intro exI conjI) (rule res(2), rule refl)
    then show ?thesis using rep res(2) au effs by (elim disjE) simp_all
  next
    case no: False
    then have "rep = XError 502" using assms False ex r by (auto simp: HandleExtractor_def Let_def split: option.splits if_splits)
    then show ?thesis using au effs by simp
  qed
qed

text \<open>What the encoder of destinations gives out, its checker and the destination parameter of the proxy read back.\<close>

theorem base64_endpoint_roundtrip:
  assumes "qGet (query r') ''d'' = e" "HandleBase64 r [a, ''encode''] = B64Encoded e"
  shows "HandleBase64 r' [a, ''check''] = B64Checked True (qGet (query r) ''d'') \<and> decodeDest e = qGet (query r) ''d''"
proof -
  have e: "e = RawURLEncode (bytesOf (qGet (query r) ''d''))" using assms(2) by (simp add: HandleBase64_def Let_def)
  have "RawURLDecode e = Some (bytesOf (qGet (query r) ''d''))" unfolding e by (rule RawURLDecode_Encode) simp
  then show ?thesis using assms(1) decodeDest_enc [of "qGet (query r) ''d''"]
    by (simp add: HandleBase64_def Let_def tryBase64Decode_def e o_def)
qed

section \<open>Witnesses\<close>

definition demoGen :: genRequest where
  "demoGen = \<lparr>genEndpoint = ''/proxy/stream'', genParams = [(''d'', ''http://1.1.1.1/a'')], genExpiry = 10, genIP = []\<rparr>"

theorem generated_url_grant_witness:
  "\<exists>tok. HandleGenerateURL demoCfg None demoSigner (\<lambda>_ _. Some demoGen) (Some (replicate 12 0)) 0 0
       (demoReq ''/generate_url'' ''api_password=pw'') [] = GenURL (''/proxy/stream?token='' @ tok) 10 \<and>
     authorize demoCfg None demoSigner 11 (demoReq ''/proxy/stream'' (''token='' @ tok)) \<noteq> None"
proof -
  let ?r = "demoReq ''/generate_url'' ''api_password=pw''"
  have a: "authorize demoCfg None demoSigner 0 ?r = None" "validateGenerateRequest demoGen = None" by code_simp+
  obtain tok where ok: "HandleGenerateURL demoCfg None demoSigner (\<lambda>_ _. Some demoGen) (Some (replicate 12 0)) 0 0 ?r [] =
      GenURL (''/proxy/stream?token='' @ tok) 10"
    unfolding HandleGenerateURL_def a by (simp add: demoCfg_def a(2)) (simp add: demoGen_def signToken_def demoCfg_def)
  have l: "length (replicate 12 0 :: byte list) = 12" by simp
  have asc: "list_all (\<lambda>c. ch c < 128) (genEndpoint demoGen @ concat (map (\<lambda>(k, v). k @ v) (genParams demoGen)))" by code_simp
  obtain tok' where t: "''/proxy/stream?token='' @ tok = genEndpoint demoGen @ ''?token='' @ tok'"
      "qGet (parseQuery (''token='' @ tok')) ''token'' = tok'"
    and g: "\<And>r' now'. qGet (query r') ''token'' = tok' \<Longrightarrow> authorize demoCfg None demoSigner now' r' = None \<Longrightarrow> now' \<le> 10"
    using generated_url_grant [OF demo_laws(1,2) l ok refl asc] by blast
  have "tok' = tok" using t(1) by (simp add: demoGen_def)
  then show ?thesis using ok t(2) g [of "demoReq ''/proxy/stream'' (''token='' @ tok)" 11] by (auto simp: demoReq_def)
qed

definition demoOffline :: env where "demoOffline = (demoEnv [])\<lparr>upstream := \<lambda>_ _ _ _. None\<rparr>"

definition demoDefs :: "string \<Rightarrow> (string \<Rightarrow> script) option" where
  "demoDefs = (\<lambda>_. Some (\<lambda>page. Ask ''GET'' page [] None
     (\<lambda>_. Give (Some \<lparr>resURL = ''http://1.1.1.1/v'', resHeaders = [], resEndpoint = ''/proxy/stream''\<rparr>))))"

theorem extractor_guarded_witness:
  "\<exists>res p pw tr. HandleExtractor demoGuardCfg None demoSigner demoOffline demoDefs
      (demoReq ''/extractor/video'' ''host=x&d=http://1.1.1.1/a'') [''extractor'', ''video''] = (XDescribe res p pw, tr) \<and> tr \<noteq> [] \<and>
    destErr demoOffline 3 demoGuardCfg (resURL res) = None"
proof -
  let ?r = "demoReq ''/extractor/video'' ''host=x&d=http://1.1.1.1/a''"
  have c: "authorize demoGuardCfg None demoSigner (authNow demoOffline) ?r = None" "destErr demoOffline k demoGuardCfg ''http://1.1.1.1/a'' = None"
      "destErr demoOffline k demoGuardCfg ''http://1.1.1.1/v'' = None" "decodeDest (qGet (query ?r) ''d'') = ''http://1.1.1.1/a''"
      "ParseBool (qGet (query ?r) ''redirect_stream'') = False" "trimSuffix (trimSuffix ''video'' ''.m3u8'') ''.mp4'' = ''video''" for k
    by code_simp+
  have f: "extractorFetch demoOffline demoGuardCfg p k ''GET'' ''http://1.1.1.1/a'' [] =
      (None, [EFetch ''GET'' ''http://1.1.1.1/a'' [(''User-Agent'', [extractorUA])] (if p = [] then UpstreamProxy demoGuardCfg else p)])" for p k
    using c(2) by (simp add: extractorFetch_def Let_def) (simp add: demoOffline_def)
  let ?sc = "Ask ''GET'' ''http://1.1.1.1/a'' [] None (\<lambda>_. Give (Some \<lparr>resURL = ''http://1.1.1.1/v'', resHeaders = [], resEndpoint = ''/proxy/stream''\<rparr>))"
  have rs: "runScript (extractorFetch demoOffline demoGuardCfg p) ?sc 4 =
      (Some \<lparr>resURL = ''http://1.1.1.1/v'', resHeaders = [], resEndpoint = ''/proxy/stream''\<rparr>,
       [EFetch ''GET'' ''http://1.1.1.1/a'' [(''User-Agent'', [extractorUA])] (if p = [] then UpstreamProxy demoGuardCfg else p)])" for p
    unfolding runScript.simps Let_def f by (simp only: fst_conv snd_conv append_Nil2)
  have dd: "demoDefs h = Some (\<lambda>page. Ask ''GET'' page [] None
     (\<lambda>_. Give (Some \<lparr>resURL = ''http://1.1.1.1/v'', resHeaders = [], resEndpoint = ''/proxy/stream''\<rparr>)))" for h by (simp only: demoDefs_def)
  have n: "(length [''extractor'', ''video''] < 2) = False" "[''extractor'', ''video''] ! 1 = ''video''" by simp_all
  have "\<exists>p pw tr. HandleExtractor demoGuardCfg None demoSigner demoOffline demoDefs ?r [''extractor'', ''video''] =
      (XDescribe \<lparr>resURL = ''http://1.1.1.1/v'', resHeaders = [], resEndpoint = ''/proxy/stream''\<rparr> p pw, tr) \<and> tr \<noteq> []"
    unfolding HandleExtractor_def c(1) c(4) c(5) c(6) dd n Let_def option.case rs prod.case extractResult.simps c(2,3)
    by (simp only: n if_False not_True_eq_False refl simp_thms) blast
  then obtain p pw tr where x: "HandleExtractor demoGuardCfg None demoSigner demoOffline demoDefs ?r [''extractor'', ''video''] =
      (XDescribe \<lparr>resURL = ''http://1.1.1.1/v'', resHeaders = [], resEndpoint = ''/proxy/stream''\<rparr> p pw, tr)" "tr \<noteq> []" by blast
  note d = extractor_guarded [OF x(1), THEN conjunct2, THEN conjunct2, THEN conjunct1, rule_format, OF refl, THEN conjunct2]
  show ?thesis by (intro exI conjI) (rule x(1), rule x(2), rule d)
qed

end
