(* ===== verification/Ts_Scan.thy ===== *)
theory Ts_Scan
  imports Prelude "HOL-Library.Code_Target_Nat" "HOL-Library.Multiset"
begin

text \<open>
  The MPEG-TS scan of \<open>media/segcheck.go\<close>: packets, PAT and PMT sections, PES headers, and the statistics that the
  validation of a transcoded segment looks at. A read out of bounds is a panic, so that its absence is a theorem. PIDs
  and 33-bit time stamps are numbers; the shifted fields that the code combines with a bitwise or occupy disjoint bits,
  so they are sums here. The iteration order of the statistics map is a parameter.
\<close>

definition tsPacketSize :: nat where "tsPacketSize = 188"
definition ptsHz :: int where "ptsHz = 90000"
definition ptsWrap :: int where "ptsWrap = 2 ^ 33"

text \<open>Go's \<open>%\<close> truncates towards zero.\<close>

definition goRem :: "int \<Rightarrow> int \<Rightarrow> int" where
  "goRem a b = (if a \<ge> 0 then a mod b else - ((- a) mod b))"

definition ptsDiff :: "int \<Rightarrow> int \<Rightarrow> int" where
  "ptsDiff a b =
     (let d = goRem (i64 (a - b)) ptsWrap;
          d = (if d < 0 then d + ptsWrap else d)
      in if d \<ge> ptsWrap div 2 then d - ptsWrap else d)"

datatype ts_err = LostSync | NoPMT | TsReadErr

record tsCounts =
  video :: int
  audio :: int
  videoPTS :: int
  videoSpan :: int
  hasVideoPTS :: bool

record pidStats =
  starts :: int
  firstPTS :: int
  minD :: int
  maxD :: int
  hasPTS :: bool

abbreviation lowBits :: "byte \<Rightarrow> nat \<Rightarrow> nat" where "lowBits b k \<equiv> unat b mod 2 ^ k"

definition pesPTS :: "byte list \<Rightarrow> (ts_err, int option) outcome" where
  "pesPTS p =
     (if length p < 14 then Ok None
      else bnd (idx p 6) (\<lambda>b6. bnd (idx p 7) (\<lambda>b7.
        if unat b6 div 64 \<noteq> 2 \<or> unat b7 < 128 then Ok None
        else bnd (idx p 9) (\<lambda>b9. bnd (idx p 10) (\<lambda>b10. bnd (idx p 11) (\<lambda>b11. bnd (idx p 12) (\<lambda>b12. bnd (idx p 13) (\<lambda>b13.
          Ok (Some (int (unat b9 div 2 mod 8 * 2 ^ 30 + unat b10 * 2 ^ 22 + unat b11 div 2 * 2 ^ 15 + unat b12 * 2 ^ 7 + unat b13 div 2)))))))))))"

text \<open>\<open>nil\<close> is the empty list: the callers only look at the length.\<close>

definition psiSection :: "byte list \<Rightarrow> byte \<Rightarrow> (ts_err, byte list) outcome" where
  "psiSection payload tableID =
     (if length payload < 1 then Ok []
      else bnd (idx payload 0) (\<lambda>b0.
        let p = 1 + unat b0 in
        if p + 3 > length payload then Ok []
        else bnd (idx payload p) (\<lambda>t.
          if t \<noteq> tableID then Ok []
          else bnd (idx payload (p + 1)) (\<lambda>b1. bnd (idx payload (p + 2)) (\<lambda>b2.
            let secLen = lowBits b1 4 * 256 + unat b2; e = p + 3 + secLen - 4 in
            if secLen < 9 \<or> e > length payload then Ok [] else sliceN payload (p + 8) e)))))"

definition pidAt :: "byte list \<Rightarrow> nat \<Rightarrow> (ts_err, nat) outcome" where
  "pidAt body i = bnd (idx body i) (\<lambda>a. bnd (idx body (i + 1)) (\<lambda>b. Ok (lowBits a 5 * 256 + unat b)))"

function patLoop :: "byte list \<Rightarrow> nat \<Rightarrow> nat list \<Rightarrow> (ts_err, nat list) outcome" where
  "patLoop body i pids =
     (if i + 4 \<le> length body then
        bnd (idx body i) (\<lambda>a. bnd (idx body (i + 1)) (\<lambda>b.
          if unat a * 256 + unat b = 0 then patLoop body (i + 4) pids
          else bnd (pidAt body (i + 2)) (\<lambda>pid. patLoop body (i + 4) (pids @ [pid]))))
      else Ok pids)"
  by pat_completeness auto
termination by (relation "measure (\<lambda>(body, i, pids). length body - i)") auto

declare patLoop.simps [simp del]

definition parsePAT :: "byte list \<Rightarrow> (ts_err, nat list) outcome" where
  "parsePAT payload = bnd (psiSection payload 0) (\<lambda>body. patLoop body 0 [])"

datatype streamKind = KindVideo | KindAudio

definition kindOf :: "nat \<Rightarrow> streamKind option" where
  "kindOf st =
     (if st \<in> {0x01, 0x02, 0x10, 0x1b, 0x24, 0x42, 0xd1, 0xea} then Some KindVideo
      else if st \<in> {0x03, 0x04, 0x0f, 0x11, 0x81, 0x82, 0x87} then Some KindAudio
      else None)"

function pmtLoop :: "byte list \<Rightarrow> nat \<Rightarrow> (nat \<rightharpoonup> streamKind) \<Rightarrow> (ts_err, nat \<rightharpoonup> streamKind) outcome" where
  "pmtLoop body i kinds =
     (if i + 5 \<le> length body then
        bnd (idx body i) (\<lambda>st. bnd (pidAt body (i + 1)) (\<lambda>pid. bnd (idx body (i + 3)) (\<lambda>a. bnd (idx body (i + 4)) (\<lambda>b.
          pmtLoop body (i + 5 + (lowBits a 4 * 256 + unat b))
            (case kindOf (unat st) of Some k \<Rightarrow> kinds(pid \<mapsto> k) | None \<Rightarrow> kinds)))))
      else Ok kinds)"
  by pat_completeness auto
termination by (relation "measure (\<lambda>(body, i, kinds). length body - i)") auto

declare pmtLoop.simps [simp del]

text \<open>The updated map and whether the section parsed.\<close>

definition parsePMT :: "byte list \<Rightarrow> (nat \<rightharpoonup> streamKind) \<Rightarrow> (ts_err, bool \<times> (nat \<rightharpoonup> streamKind)) outcome" where
  "parsePMT payload kinds =
     bnd (psiSection payload 2) (\<lambda>body.
       if length body < 4 then Ok (False, kinds)
       else bnd (idx body 2) (\<lambda>a. bnd (idx body 3) (\<lambda>b.
         bnd (pmtLoop body (4 + (lowBits a 4 * 256 + unat b)) kinds) (\<lambda>k. Ok (True, k)))))"

text \<open>The state of \<open>countTSPackets\<close>; the statistics by PID in order of first appearance.\<close>

record tsState =
  pmtPIDs :: "nat set"
  kinds :: "nat \<rightharpoonup> streamKind"
  stats :: "(nat \<times> pidStats) list"
  sawPMT :: bool

definition tsStart :: tsState where
  "tsStart = \<lparr>pmtPIDs = {}, kinds = Map.empty, stats = [], sawPMT = False\<rparr>"

definition zeroStats :: pidStats where
  "zeroStats = \<lparr>starts = 0, firstPTS = 0, minD = 0, maxD = 0, hasPTS = False\<rparr>"

definition bumpStats :: "int option \<Rightarrow> pidStats \<Rightarrow> pidStats" where
  "bumpStats pts st =
     (let st = st\<lparr>starts := starts st + 1\<rparr>
      in case pts of
           None \<Rightarrow> st
         | Some t \<Rightarrow>
             if \<not> hasPTS st then st\<lparr>firstPTS := t, hasPTS := True\<rparr>
             else (let d = ptsDiff t (firstPTS st) in st\<lparr>minD := min (minD st) d, maxD := max (maxD st) d\<rparr>))"

definition putStats :: "(nat \<times> pidStats) list \<Rightarrow> nat \<Rightarrow> int option \<Rightarrow> (nat \<times> pidStats) list" where
  "putStats xs pid pts =
     (if pid \<in> fst ` set xs then map (\<lambda>(q, st). (q, if q = pid then bumpStats pts st else st)) xs
      else xs @ [(pid, bumpStats pts zeroStats)])"

text \<open>The condition of the PES case, evaluated from left to right: the length test guards the three reads.\<close>

definition isPES :: "byte list \<Rightarrow> (ts_err, bool) outcome" where
  "isPES payload =
     (if length payload < 3 then Ok False
      else bnd (idx payload 0) (\<lambda>b0. if b0 \<noteq> 0 then Ok False
      else bnd (idx payload 1) (\<lambda>b1. if b1 \<noteq> 0 then Ok False
      else bnd (idx payload 2) (\<lambda>b2. Ok (b2 = 1)))))"

definition tsPayload :: "tsState \<Rightarrow> nat \<Rightarrow> byte list \<Rightarrow> (ts_err, tsState) outcome" where
  "tsPayload s pid payload =
     (if pid = 0 then bnd (parsePAT payload) (\<lambda>ps. Ok (s\<lparr>pmtPIDs := pmtPIDs s \<union> set ps\<rparr>))
      else if pid \<in> pmtPIDs s then
        bnd (parsePMT payload (kinds s)) (\<lambda>(ok, k). Ok (s\<lparr>kinds := k, sawPMT := (sawPMT s \<or> ok)\<rparr>))
      else bnd (isPES payload) (\<lambda>pes.
        if pes then bnd (pesPTS payload) (\<lambda>pts. Ok (s\<lparr>stats := putStats (stats s) pid pts\<rparr>))
        else Ok s))"

definition tsPacket :: "tsState \<Rightarrow> byte list \<Rightarrow> (ts_err, tsState) outcome" where
  "tsPacket s pkt =
     bnd (idx pkt 0) (\<lambda>b0.
       if b0 \<noteq> 0x47 then Err LostSync
       else bnd (idx pkt 1) (\<lambda>b1. bnd (pidAt pkt 1) (\<lambda>pid. bnd (idx pkt 3) (\<lambda>b3. bnd (idx pkt 4) (\<lambda>b4.
         let pusi = (unat b1 div 64 mod 2 = 1); afc = unat b3 div 16 mod 4;
             off = (if afc = 3 then 4 + (1 + unat b4) else 4) in
         if afc mod 2 = 0 then Ok s
         else if off \<ge> tsPacketSize \<or> \<not> pusi then Ok s
         else bnd (sliceN pkt off (length pkt)) (\<lambda>payload. tsPayload s pid payload))))))"

text \<open>The read loop over the remaining bytes; \<open>fails\<close> says whether the reader then fails with something other than the end
  of the data. A trailing partial packet is ignored.\<close>

function tsLoop :: "tsState \<Rightarrow> byte list \<Rightarrow> bool \<Rightarrow> (ts_err, tsState) outcome" where
  "tsLoop s bs fails =
     (if length bs < tsPacketSize then (if fails then Err TsReadErr else Ok s)
      else bnd (tsPacket s (take tsPacketSize bs)) (\<lambda>s'. tsLoop s' (drop tsPacketSize bs) fails))"
  by pat_completeness auto
termination by (relation "measure (\<lambda>(s, bs, fails). length bs)") (auto simp: tsPacketSize_def)

declare tsLoop.simps [simp del]

definition countStep :: "(nat \<rightharpoonup> streamKind) \<Rightarrow> nat \<times> pidStats \<Rightarrow> tsCounts \<Rightarrow> tsCounts" where
  "countStep ks = (\<lambda>(pid, st) c.
     case ks pid of
       Some KindVideo \<Rightarrow>
         (let c = c\<lparr>video := video c + starts st\<rparr>
          in if hasPTS st \<and> \<not> hasVideoPTS c
             then c\<lparr>videoPTS := goRem (firstPTS st + minD st + ptsWrap) ptsWrap, videoSpan := maxD st - minD st, hasVideoPTS := True\<rparr>
             else c)
     | Some KindAudio \<Rightarrow> c\<lparr>audio := audio c + starts st\<rparr>
     | None \<Rightarrow> c)"

definition countTSPackets :: "((nat \<times> pidStats) list \<Rightarrow> (nat \<times> pidStats) list) \<Rightarrow> byte list \<Rightarrow> bool \<Rightarrow> (ts_err, tsCounts) outcome" where
  "countTSPackets ord bs fails =
     bnd (tsLoop tsStart bs fails) (\<lambda>s.
       if \<not> sawPMT s then Err NoPMT
       else Ok (fold (countStep (kinds s)) (ord (stats s))
                  \<lparr>video = 0, audio = 0, videoPTS = 0, videoSpan = 0, hasVideoPTS = False\<rparr>))"

section \<open>Time stamps\<close>

lemma goRem_mod:
  assumes "b > 0"
  shows "goRem a b = (if a \<ge> 0 \<or> a mod b = 0 then a mod b else a mod b - b)"
  using assms by (auto simp: goRem_def zmod_zminus1_eq_if)

lemma ptsDiff_mod: "ptsDiff a b = (let d = i64 (a - b) mod ptsWrap in if d \<ge> 2 ^ 32 then d - ptsWrap else d)"
proof -
  have "0 \<le> i64 (a - b) mod ptsWrap" "i64 (a - b) mod ptsWrap < ptsWrap" by (simp_all add: ptsWrap_def)
  then show ?thesis by (auto simp: ptsDiff_def Let_def goRem_mod ptsWrap_def)
qed

lemma ptsDiff_range: "- (2 ^ 32) \<le> ptsDiff a b \<and> ptsDiff a b < 2 ^ 32"
proof -
  define d where "d = i64 (a - b) mod ptsWrap"
  have "0 \<le> d" "d < 2 ^ 33" by (simp_all add: ptsWrap_def d_def)
  then show ?thesis unfolding ptsDiff_mod Let_def d_def [symmetric] by (auto simp: ptsWrap_def)
qed

lemma mod_window:
  assumes "- (2 ^ 32) \<le> k" "k < (2 ^ 32 :: int)"
  shows "(let d = k mod 2 ^ 33 in if d \<ge> 2 ^ 32 then d - 2 ^ 33 else d) = k"
proof (cases "k \<ge> 0")
  case True
  then have "k mod 2 ^ 33 = k" using assms(2) by (intro mod_pos_pos_trivial) auto
  then show ?thesis using assms(2) by (simp add: Let_def)
next
  case False
  have "(k + 2 ^ 33) mod 2 ^ 33 = k + 2 ^ 33" using False assms(1) by (intro mod_pos_pos_trivial) auto
  then have "k mod 2 ^ 33 = k + 2 ^ 33" by simp
  then show ?thesis using assms False by (simp add: Let_def)
qed

text \<open>Differences of time stamps are right across the wrap of the 33-bit clock.\<close>

lemma ptsDiff_wrapped:
  assumes "- (2 ^ 32) \<le> x - y" "x - y < (2 ^ 32 :: int)"
  shows "ptsDiff ((e + x) mod 2 ^ 33) ((e + y) mod 2 ^ 33) = x - y"
proof -
  let ?a = "(e + x) mod 2 ^ 33" and ?b = "(e + y) mod (2 ^ 33 :: int)"
  have "0 \<le> ?a" "?a < 2 ^ 33" "0 \<le> ?b" "?b < 2 ^ 33" by simp_all
  then have i: "i64 (?a - ?b) = ?a - ?b" by (intro i64_id) auto
  have "(?a - ?b) mod 2 ^ 33 = (x - y) mod 2 ^ 33" by (simp add: mod_diff_eq)
  then show ?thesis using mod_window [OF assms] unfolding ptsDiff_mod i ptsWrap_def by (simp add: Let_def)
qed

section \<open>No panic\<close>

lemma pidAt_ok: "i + 1 < length body \<Longrightarrow> \<exists>pid. pidAt body i = Ok pid"
  by (simp add: pidAt_def)

lemma pesPTS_ok:
  "\<exists>o'. pesPTS p = Ok o' \<and> (\<forall>t. o' = Some t \<longrightarrow> 0 \<le> t \<and> t < 2 ^ 33)"
proof (cases "length p < 14")
  case False
  let ?t = "unat (p ! 9) div 2 mod 8 * 2 ^ 30 + unat (p ! 10) * 2 ^ 22 + unat (p ! 11) div 2 * 2 ^ 15 + unat (p ! 12) * 2 ^ 7 + unat (p ! 13) div 2"
  have b: "unat (b :: byte) < 256" for b using unsigned_less [where 'a = nat, of b] by simp
  have "unat (p ! 9) div 2 mod 8 \<le> 7" "unat (p ! 10) \<le> 255" "unat (p ! 11) div 2 \<le> 127" "unat (p ! 12) \<le> 255" "unat (p ! 13) div 2 \<le> 127"
    using b [of "p ! 10"] b [of "p ! 11"] b [of "p ! 12"] b [of "p ! 13"] by auto
  then have "?t < 2 ^ 33" by simp
  then have "int ?t < 2 ^ 33" by (simp only: of_nat_less_numeral_power_cancel_iff)
  with False show ?thesis by (auto simp: pesPTS_def)
qed (simp add: pesPTS_def)

lemma isPES_ok: "\<exists>b. isPES payload = Ok b"
proof (cases "length payload < 3")
  case False
  then have "0 < length payload" "1 < length payload" "2 < length payload" by linarith+
  then show ?thesis by (simp only: isPES_def idx_ok bnd.simps) auto
qed (auto simp: isPES_def)

lemma psiSection_ok: "\<exists>b. psiSection payload t = Ok b"
  by (auto simp: psiSection_def Let_def)

lemma patLoop_ok: "\<exists>ps. patLoop body i pids = Ok ps"
proof (induction body i pids rule: patLoop.induct)
  case (1 body i pids)
  show ?case
  proof (cases "i + 4 \<le> length body")
    case True
    obtain pid where p: "pidAt body (i + 2) = Ok pid" using pidAt_ok [of "i + 2" body] True by auto
    show ?thesis
    proof (cases "unat (body ! i) * 256 + unat (body ! (i + 1)) = 0")
      case z: True
      have "\<exists>ps. patLoop body (i + 4) pids = Ok ps"
        using 1 (1) [OF True, of "body ! i" "body ! (i + 1)"] True z by (simp add: idx_def)
      then show ?thesis using True z by (subst patLoop.simps) simp
    next
      case z: False
      have "\<exists>ps. patLoop body (i + 4) (pids @ [pid]) = Ok ps"
        using 1 (2) [OF True, of "body ! i" "body ! (i + 1)" pid] True z p by (simp add: idx_def)
      then show ?thesis using True z p by (subst patLoop.simps) auto
    qed
  qed (simp add: patLoop.simps)
qed

lemma pmtLoop_ok: "\<exists>k. pmtLoop body i ks = Ok k"
proof (induction "length body - i" arbitrary: i ks rule: less_induct)
  case less
  show ?case
  proof (cases "i + 5 \<le> length body")
    case True
    obtain pid where p: "pidAt body (i + 1) = Ok pid" using pidAt_ok [of "i + 1" body] True by auto
    let ?i = "i + 5 + (lowBits (body ! (i + 3)) 4 * 256 + unat (body ! (i + 4)))"
    let ?k = "case kindOf (unat (body ! i)) of Some k \<Rightarrow> ks(pid \<mapsto> k) | None \<Rightarrow> ks"
    have "length body - ?i < length body - i" using True by simp
    from less [OF this] have "\<exists>k. pmtLoop body ?i ?k = Ok k" .
    then show ?thesis using True p by (subst pmtLoop.simps) simp
  qed (simp add: pmtLoop.simps)
qed

lemma parsePAT_ok: "\<exists>ps. parsePAT payload = Ok ps"
  using psiSection_ok patLoop_ok by (metis parsePAT_def bnd.simps(1))

lemma parsePMT_ok: "\<exists>b k. parsePMT payload ks = Ok (b, k)"
proof -
  obtain body where b: "psiSection payload 2 = Ok body" using psiSection_ok by blast
  show ?thesis
  proof (cases "length body < 4")
    case False
    obtain k where "pmtLoop body (4 + (lowBits (body ! 2) 4 * 256 + unat (body ! 3))) ks = Ok k" using pmtLoop_ok by blast
    with False b have "parsePMT payload ks = Ok (True, k)" by (simp add: parsePMT_def)
    then show ?thesis by blast
  next
    case True
    with b have "parsePMT payload ks = Ok (False, ks)" by (simp add: parsePMT_def)
    then show ?thesis by blast
  qed
qed

section \<open>Statistics\<close>

definition statOk :: "pidStats \<Rightarrow> bool" where
  "statOk st \<longleftrightarrow> 0 \<le> starts st \<and> 0 \<le> firstPTS st \<and> firstPTS st < 2 ^ 33 \<and> - (2 ^ 32) \<le> minD st \<and> minD st \<le> 0 \<and> 0 \<le> maxD st \<and> maxD st < 2 ^ 32"

definition statSum :: "(nat \<times> pidStats) list \<Rightarrow> int" where
  "statSum xs = sum_list (map (\<lambda>x. starts (snd x)) xs)"

definition statsInv :: "int \<Rightarrow> tsState \<Rightarrow> bool" where
  "statsInv n s \<longleftrightarrow> distinct (map fst (stats s)) \<and> list_all (\<lambda>x. statOk (snd x)) (stats s) \<and> statSum (stats s) \<le> n"

lemma bumpStats_ok:
  assumes "statOk st" "\<forall>t. pts = Some t \<longrightarrow> 0 \<le> t \<and> t < 2 ^ 33"
  shows "statOk (bumpStats pts st)" "starts (bumpStats pts st) = starts st + 1"
  using assms ptsDiff_range by (auto simp: bumpStats_def statOk_def Let_def min_def max_def split: option.splits)

lemma statSum_put: "distinct (map fst xs) \<Longrightarrow> \<forall>t. pts = Some t \<longrightarrow> 0 \<le> t \<and> t < 2 ^ 33 \<Longrightarrow> list_all (\<lambda>x. statOk (snd x)) xs \<Longrightarrow>
   statSum (map (\<lambda>(q, st). (q, if q = pid then bumpStats pts st else st)) xs) = statSum xs + (if pid \<in> fst ` set xs then 1 else 0)"
proof (induction xs)
  case (Cons x xs)
  show ?case
  proof (cases "fst x = pid")
    case True
    then have "map (\<lambda>(q, st). (q, if q = pid then bumpStats pts st else st)) xs = xs"
      using Cons.prems(1) by (intro map_idI) (auto simp: rev_image_eqI split: prod.splits)
    then show ?thesis using True Cons.prems bumpStats_ok(2) by (cases x) (simp add: statSum_def)
  next
    case False
    then show ?thesis using Cons by (cases x) (auto simp: statSum_def)
  qed
qed (simp add: statSum_def)

lemma putStats_inv:
  assumes "statsInv n s" "\<forall>t. pts = Some t \<longrightarrow> 0 \<le> t \<and> t < 2 ^ 33"
  shows "statsInv (n + 1) (s\<lparr>stats := putStats (stats s) pid pts\<rparr>)"
proof -
  note h = assms(1) [unfolded statsInv_def]
  have z: "statOk (bumpStats pts zeroStats)" "starts (bumpStats pts zeroStats) = 1"
    using bumpStats_ok [OF _ assms(2), of zeroStats] by (simp_all add: statOk_def zeroStats_def)
  show ?thesis
  proof (cases "pid \<in> fst ` set (stats s)")
    case True
    have "map fst (map (\<lambda>(q, st). (q, if q = pid then bumpStats pts st else st)) (stats s)) = map fst (stats s)" by auto
    moreover have "list_all (\<lambda>x. statOk (snd x)) (map (\<lambda>(q, st). (q, if q = pid then bumpStats pts st else st)) (stats s))"
      using h bumpStats_ok(1) [OF _ assms(2)] by (auto simp: list_all_iff)
    moreover have "statSum (map (\<lambda>(q, st). (q, if q = pid then bumpStats pts st else st)) (stats s)) = statSum (stats s) + 1"
      using h True statSum_put [OF _ assms(2)] by simp
    ultimately show ?thesis using h True by (simp add: statsInv_def putStats_def del: map_map map_eq_conv)
  next
    case False
    then show ?thesis using h z by (auto simp: statsInv_def putStats_def statSum_def)
  qed
qed

lemma statsInv_mono: "statsInv n s \<Longrightarrow> n \<le> m \<Longrightarrow> statsInv m s"
  by (simp add: statsInv_def)

lemma tsPayload_inv:
  assumes "statsInv n s"
  shows "\<exists>s'. tsPayload s pid payload = Ok s' \<and> statsInv (n + 1) s'"
proof -
  obtain ps where ps: "parsePAT payload = Ok ps" using parsePAT_ok by blast
  obtain b k where k: "parsePMT payload (kinds s) = Ok (b, k)" using parsePMT_ok by blast
  obtain o' where o': "pesPTS payload = Ok o'" "\<forall>t. o' = Some t \<longrightarrow> 0 \<le> t \<and> t < 2 ^ 33" using pesPTS_ok by blast
  obtain pes where pes: "isPES payload = Ok pes" using isPES_ok by blast
  have m: "statsInv (n + 1) s" using statsInv_mono [OF assms] by simp
  then have "statsInv (n + 1) (s\<lparr>pmtPIDs := x\<rparr>)" "statsInv (n + 1) (s\<lparr>kinds := y, sawPMT := z\<rparr>)" for x y z
    by (simp_all add: statsInv_def)
  then show ?thesis using ps k o' pes m putStats_inv [OF assms o'(2)] by (auto simp: tsPayload_def)
qed

lemma tsPacket_inv:
  assumes "length pkt = tsPacketSize" "statsInv n s"
  shows "tsPacket s pkt = Err LostSync \<or> (\<exists>s'. tsPacket s pkt = Ok s' \<and> statsInv (n + 1) s')"
proof -
  have l: "length pkt = 188" using assms(1) by (simp add: tsPacketSize_def)
  obtain pid where p: "pidAt pkt 1 = Ok pid" using pidAt_ok [of 1 pkt] l by auto
  have m: "statsInv (n + 1) s" using statsInv_mono [OF assms(2)] by simp
  show ?thesis
    using l p m tsPayload_inv [OF assms(2)] by (simp add: tsPacket_def Let_def tsPacketSize_def)
qed

lemma tsLoop_inv:
  "statsInv n s \<Longrightarrow> tsLoop s bs fails \<noteq> Panic \<and>
     (\<forall>s'. tsLoop s bs fails = Ok s' \<longrightarrow> statsInv (n + int (length bs div tsPacketSize)) s')"
proof (induction "length bs" arbitrary: s bs n rule: less_induct)
  case less
  show ?case
  proof (cases "length bs < tsPacketSize")
    case True
    then show ?thesis using less.prems by (simp add: tsLoop.simps)
  next
    case False
    have t: "length (take tsPacketSize bs) = tsPacketSize" using False by simp
    have d: "length (drop tsPacketSize bs) < length bs" using False by (simp add: tsPacketSize_def)
    have q: "int (length bs div tsPacketSize) = 1 + int (length (drop tsPacketSize bs) div tsPacketSize)"
      using False by (simp add: tsPacketSize_def le_div_geq)
    consider "tsPacket s (take tsPacketSize bs) = Err LostSync"
      | s' where "tsPacket s (take tsPacketSize bs) = Ok s'" "statsInv (n + 1) s'"
      using tsPacket_inv [OF t less.prems] by blast
    then show ?thesis
    proof cases
      case 1
      with False show ?thesis by (simp add: tsLoop.simps [of s bs])
    next
      case (2 s')
      from less.hyps [OF d 2(2)] False 2(1) q show ?thesis by (simp add: tsLoop.simps [of s bs] add.assoc)
    qed
  qed
qed

lemma countStep_bounds:
  assumes "list_all (\<lambda>x. statOk (snd x)) xs" "0 \<le> video c" "0 \<le> audio c"
    "hasVideoPTS c \<longrightarrow> 0 \<le> videoPTS c \<and> videoPTS c < 2 ^ 33 \<and> 0 \<le> videoSpan c \<and> videoSpan c < 2 ^ 33"
    "c' = fold (countStep ks) xs c"
  shows "0 \<le> video c' \<and> 0 \<le> audio c' \<and> video c' + audio c' \<le> video c + audio c + statSum xs \<and>
    (hasVideoPTS c' \<longrightarrow> 0 \<le> videoPTS c' \<and> videoPTS c' < 2 ^ 33 \<and> 0 \<le> videoSpan c' \<and> videoSpan c' < 2 ^ 33)"
  using assms
proof (induction xs arbitrary: c)
  case (Cons x xs)
  obtain pid st where x: "x = (pid, st)" by (cases x)
  have ok: "statOk st" using Cons.prems(1) x by simp
  let ?d = "countStep ks x c"
  have r: "0 \<le> goRem (firstPTS st + minD st + ptsWrap) ptsWrap \<and> goRem (firstPTS st + minD st + ptsWrap) ptsWrap < 2 ^ 33"
    using ok by (auto simp: goRem_def statOk_def ptsWrap_def)
  have d: "0 \<le> video ?d" "0 \<le> audio ?d" "video ?d + audio ?d \<le> video c + audio c + starts st"
    "hasVideoPTS ?d \<longrightarrow> 0 \<le> videoPTS ?d \<and> videoPTS ?d < 2 ^ 33 \<and> 0 \<le> videoSpan ?d \<and> videoSpan ?d < 2 ^ 33"
    using ok r Cons.prems(2-4) by (auto simp: countStep_def x statOk_def Let_def split: option.splits streamKind.splits)
  have "0 \<le> video c' \<and> 0 \<le> audio c' \<and> video c' + audio c' \<le> video ?d + audio ?d + statSum xs \<and>
    (hasVideoPTS c' \<longrightarrow> 0 \<le> videoPTS c' \<and> videoPTS c' < 2 ^ 33 \<and> 0 \<le> videoSpan c' \<and> videoSpan c' < 2 ^ 33)"
    by (rule Cons.IH) (use Cons.prems d in auto)
  then show ?case using d(3) by (auto simp: x statSum_def)
qed (simp add: statSum_def)

section \<open>Writing a transport stream\<close>

text \<open>What the encoder writes: packets with payload only, one PAT, one PMT with an H.264 and an AAC stream, and PES headers
  with a time stamp.\<close>

definition tsWrite :: "nat \<Rightarrow> byte list \<Rightarrow> byte list" where
  "tsWrite pid payload = [0x47, of_nat (64 + pid div 256), of_nat (pid mod 256), 0x10] @ payload"

definition pidBytes :: "nat \<Rightarrow> byte list" where
  "pidBytes pid = [of_nat (224 + pid div 256), of_nat (pid mod 256)]"

definition patWrite :: "nat \<Rightarrow> byte list" where
  "patWrite pmt = [0, 0, 0xb0, 13, 0, 1, 0xc1, 0, 0, 0, 1] @ pidBytes pmt @ replicate 171 0xff"

definition pmtWrite :: "nat \<Rightarrow> nat \<Rightarrow> byte list" where
  "pmtWrite v a = [0, 2, 0xb0, 23, 0, 1, 0xc1, 0, 0, 0xe1, 0, 0xf0, 0, 0x1b] @ pidBytes v @ [0xf0, 0, 0x0f] @ pidBytes a @ [0xf0, 0] @ replicate 161 0xff"

definition pesWrite :: "nat \<Rightarrow> byte list" where
  "pesWrite t = [0, 0, 1, 0xe0, 0, 0, 0x80, 0x80, 5, of_nat (33 + t div 2 ^ 30 * 2), of_nat (t div 2 ^ 22 mod 256),
     of_nat (t div 2 ^ 15 mod 128 * 2 + 1), of_nat (t div 2 ^ 7 mod 256), of_nat (t mod 128 * 2 + 1)] @ replicate 170 0"

lemma unat_lit: "n < 256 \<Longrightarrow> unat (of_nat n :: byte) = n"
  by (simp add: unat_of_nat)

lemma pes_digits:
  assumes "t < 2 ^ 33"
  shows "t div 2 ^ 30 * 2 ^ 30 + t div 2 ^ 22 mod 256 * 2 ^ 22 + t div 2 ^ 15 mod 128 * 2 ^ 15 + t div 2 ^ 7 mod 256 * 2 ^ 7 + t mod 128 = (t :: nat)"
proof -
  have d: "t div 2 ^ 7 div 256 = t div 2 ^ 15" "t div 2 ^ 15 div 128 = t div 2 ^ 22" "t div 2 ^ 22 div 256 = t div 2 ^ 30"
    by (simp_all add: div_mult2_eq [symmetric])
  have ar: "q30 * 2 ^ 30 + m3 * 2 ^ 22 + m2 * 2 ^ 15 + m1 * 2 ^ 7 + m0 = (x :: nat)"
    if "x = q7 * 128 + m0" "q7 = q15 * 256 + m1" "q15 = q22 * 128 + m2" "q22 = q30 * 256 + m3" for x q7 q15 q22 q30 m0 m1 m2 m3
    using that by simp
  have "t = t div 2 ^ 7 * 128 + t mod 128" "t div 2 ^ 7 = t div 2 ^ 15 * 256 + t div 2 ^ 7 mod 256"
    "t div 2 ^ 15 = t div 2 ^ 22 * 128 + t div 2 ^ 15 mod 128" "t div 2 ^ 22 = t div 2 ^ 30 * 256 + t div 2 ^ 22 mod 256"
    using d div_mult_mod_eq [of t 128] div_mult_mod_eq [of "t div 2 ^ 7" 256] div_mult_mod_eq [of "t div 2 ^ 15" 128]
      div_mult_mod_eq [of "t div 2 ^ 22" 256] by simp_all
  then show ?thesis by (rule ar)
qed

text \<open>A written time stamp is read back.\<close>

lemma pesPTS_write:
  assumes "t < 2 ^ 33"
  shows "pesPTS (pesWrite t) = Ok (Some (int t))"
proof -
  have "t div 2 ^ 30 < 8" using assms by (simp add: less_mult_imp_div_less)
  then have b9: "unat (of_nat (33 + t div 2 ^ 30 * 2) :: byte) = 33 + t div 2 ^ 30 * 2" by (intro unat_lit) simp
  have "(33 + x * 2) div 2 mod 8 = x" if "x < 8" for x :: nat
  proof -
    have "(33 + x * 2) div 2 = x + 8 * 2" by simp
    then show ?thesis using that by (simp only: mod_mult_self2 mod_less)
  qed
  then have h9: "(33 + t div 2 ^ 30 * 2) div 2 mod 8 = t div 2 ^ 30" using \<open>t div 2 ^ 30 < 8\<close> by blast
  have b: "unat (of_nat (t div 2 ^ 22 mod 256) :: byte) = t div 2 ^ 22 mod 256" "unat (of_nat (t div 2 ^ 7 mod 256) :: byte) = t div 2 ^ 7 mod 256"
    by (intro unat_lit, simp)+
  have "t div 2 ^ 15 mod 128 < 128" "t mod 128 < 128" by simp_all
  then have b2: "unat (of_nat (t div 2 ^ 15 mod 128 * 2 + 1) :: byte) = t div 2 ^ 15 mod 128 * 2 + 1"
    "unat (of_nat (t mod 128 * 2 + 1) :: byte) = t mod 128 * 2 + 1"
    by (intro unat_lit, linarith)+
  have h: "(x * 2 + 1) div 2 = x" for x :: nat by simp
  have e: "length (pesWrite t) = 184" by (simp add: pesWrite_def)
  have n: "pesWrite t ! 6 = 0x80" "pesWrite t ! 7 = 0x80" "pesWrite t ! 9 = of_nat (33 + t div 2 ^ 30 * 2)" "pesWrite t ! 10 = of_nat (t div 2 ^ 22 mod 256)"
    "pesWrite t ! 11 = of_nat (t div 2 ^ 15 mod 128 * 2 + 1)" "pesWrite t ! 12 = of_nat (t div 2 ^ 7 mod 256)" "pesWrite t ! 13 = of_nat (t mod 128 * 2 + 1)"
    by (simp_all add: pesWrite_def del: of_nat_add of_nat_mult)
  have "pesPTS (pesWrite t) = Ok (Some (int (t div 2 ^ 30 * 2 ^ 30 + t div 2 ^ 22 mod 256 * 2 ^ 22 + t div 2 ^ 15 mod 128 * 2 ^ 15 + t div 2 ^ 7 mod 256 * 2 ^ 7 + t mod 128)))"
    unfolding pesPTS_def using e by (simp only: e n idx_ok bnd.simps b9 b b2 h9 h) simp
  then show ?thesis using pes_digits [OF assms] by (simp only:)
qed

lemma pidAt_bytes:
  assumes "pid < 8192" "i + 1 < length body" "body ! i = of_nat (32 * k + pid div 256)" "body ! (i + 1) = of_nat (pid mod 256)" "k < 8"
  shows "pidAt body i = Ok pid"
proof -
  have p: "pid div 256 < 32" using assms(1) by (simp add: less_mult_imp_div_less)
  then have "unat (of_nat (32 * k + pid div 256) :: byte) = 32 * k + pid div 256" using assms(5) by (intro unat_lit) linarith
  moreover have "(32 * k + x) mod 32 = x" if "x < 32" for x :: nat using that by simp
  moreover have "unat (of_nat (pid mod 256) :: byte) = pid mod 256" by (intro unat_lit) simp
  ultimately show ?thesis using assms(2-4) p by (simp add: pidAt_def)
qed

lemma psi_write:
  assumes "payload = [0, tid, 0xb0, of_nat n, 0, 1, 0xc1, 0, 0] @ body @ rest" "length body + 9 = n" "length rest \<ge> 4" "n < 256"
  shows "psiSection payload tid = Ok body"
proof -
  have u: "unat (of_nat n :: byte) = n" using assms(4) by (rule unat_lit)
  have l: "length payload = 9 + length body + length rest" using assms(1) by simp
  have i: "payload ! 0 = 0" "payload ! 1 = tid" "payload ! 2 = 0xb0" "payload ! 3 = of_nat n" using assms(1) by simp_all
  have d: "drop 9 payload = body @ rest" using assms(1) by simp
  have e: "1 + 3 + n - 4 = n" by simp
  have j: "idx payload 0 = Ok 0" "idx payload (1 + unat (0 :: byte)) = Ok tid" "idx payload (1 + unat (0 :: byte) + 1) = Ok 0xb0"
    "idx payload (1 + unat (0 :: byte) + 2) = Ok (of_nat n)"
    using i l assms(3) by (simp_all add: idx_def numeral_2_eq_2 numeral_3_eq_3)
  have s: "lowBits (0xb0 :: byte) 4 * 256 + unat (of_nat n :: byte) = n" using u by simp
  have "sliceN payload (1 + unat (0 :: byte) + 8) (1 + unat (0 :: byte) + 3 + n - 4) = Ok body"
    using l d assms(2,3) by (simp add: sliceN_def)
  then show ?thesis unfolding psiSection_def Let_def j bnd.simps s using l assms(2,3) by simp
qed

lemma parsePAT_write:
  assumes "pmt < 8192"
  shows "parsePAT (patWrite pmt) = Ok [pmt]"
proof -
  let ?b = "[0, 1] @ pidBytes pmt"
  have s: "psiSection (patWrite pmt) 0 = Ok ?b"
    by (rule psi_write [where n = 13 and rest = "replicate 171 0xff"]) (simp_all add: patWrite_def pidBytes_def)
  have p: "pidAt ?b (0 + 2) = Ok pmt" unfolding add_0 by (rule pidAt_bytes [OF assms, where k = 7]) (simp_all add: pidBytes_def)
  have e: "patLoop ?b (0 + 4) ps = Ok ps" for ps by (subst patLoop.simps) (simp add: pidBytes_def)
  have "patLoop ?b 0 [] = Ok [pmt]"
    by (subst patLoop.simps, unfold p bnd.simps e) (simp add: pidBytes_def)
  with s show ?thesis by (simp add: parsePAT_def)
qed

lemma pmtLoop_step:
  assumes "i + 5 \<le> length body" "(idx body i :: (ts_err, byte) outcome) = Ok st" "pidAt body (i + 1) = Ok pid"
    "(idx body (i + 3) :: (ts_err, byte) outcome) = Ok a" "(idx body (i + 4) :: (ts_err, byte) outcome) = Ok b"
  shows "pmtLoop body i ks = pmtLoop body (i + 5 + (lowBits a 4 * 256 + unat b)) (case kindOf (unat st) of Some k \<Rightarrow> ks(pid \<mapsto> k) | None \<Rightarrow> ks)"
  by (subst pmtLoop.simps) (simp only: assms bnd.simps if_True)

lemma parsePMT_write:
  assumes "v < 8192" "a < 8192"
  shows "parsePMT (pmtWrite v a) ks = Ok (True, ks(v \<mapsto> KindVideo, a \<mapsto> KindAudio))"
proof -
  let ?b = "[0xe1, 0, 0xf0, 0, 0x1b] @ pidBytes v @ [0xf0, 0, 0x0f] @ pidBytes a @ [0xf0, 0 :: byte]"
  have s: "psiSection (pmtWrite v a) 2 = Ok ?b"
    by (rule psi_write [where n = 23 and rest = "replicate 161 0xff"]) (simp_all add: pmtWrite_def pidBytes_def)
  have l: "length ?b = 14" by (simp add: pidBytes_def)
  have pv: "pidAt ?b 5 = Ok v" by (rule pidAt_bytes [OF assms(1), where k = 7]) (simp_all add: pidBytes_def)
  have pa: "pidAt ?b 10 = Ok a" by (rule pidAt_bytes [OF assms(2), where k = 7]) (simp_all add: pidBytes_def)
  have n: "?b ! 2 = 0xf0" "?b ! 3 = 0" "?b ! 4 = 0x1b" "?b ! 7 = 0xf0" "?b ! 8 = 0" "?b ! 9 = 0x0f" "?b ! 12 = 0xf0" "?b ! 13 = 0"
    by (simp_all add: pidBytes_def)
  have i: "(idx ?b k :: (ts_err, byte) outcome) = Ok (?b ! k)" if "k < 14" for k using that l by simp
  have p3: "pmtLoop ?b 14 m = Ok m" for m by (subst pmtLoop.simps) (simp only: l, simp)
  have p2: "pmtLoop ?b 9 m = Ok (m(a \<mapsto> KindAudio))" for m
    using pmtLoop_step [where i = 9 and body = ?b and st = "0x0f" and pid = a and a = "0xf0" and b = 0 and ks = m] i [of 9] i [of 12] i [of 13] pa p3 n l
    by (simp add: kindOf_def del: append_Cons append_Nil append.simps)
  have p1: "pmtLoop ?b 4 m = Ok (m(v \<mapsto> KindVideo, a \<mapsto> KindAudio))" for m
    using pmtLoop_step [where i = 4 and body = ?b and st = "0x1b" and pid = v and a = "0xf0" and b = 0 and ks = m] i [of 4] i [of 7] i [of 8] pv p2 n l
    by (simp add: kindOf_def del: append_Cons append_Nil append.simps)
  have "4 + (lowBits (0xf0 :: byte) 4 * 256 + unat (0 :: byte)) = 4" by simp
  then show ?thesis
    unfolding parsePMT_def s bnd.simps using l i [of 2] i [of 3] n p1 by (simp del: append_Cons append_Nil append.simps)
qed

lemma tsPacket_write:
  assumes "pid < 8192" "length payload = 184"
  shows "tsPacket s (tsWrite pid payload) = tsPayload s pid payload"
proof -
  let ?p = "tsWrite pid payload"
  have l: "length ?p = 188" using assms(2) by (simp add: tsWrite_def)
  have p: "pidAt ?p 1 = Ok pid"
    by (rule pidAt_bytes [OF assms(1), where k = 2]) (simp_all add: tsWrite_def)
  have d: "pid div 256 < 32" using assms(1) by (simp add: less_mult_imp_div_less)
  have u: "unat (of_nat (64 + pid div 256) :: byte) = 64 + pid div 256" using d by (intro unat_lit) linarith
  have c: "(64 + x) div 64 mod 2 = (1 :: nat)" if "x < 32" for x using that by simp
  have n: "?p ! 0 = 0x47" "?p ! 1 = of_nat (64 + pid div 256)" "?p ! 3 = 0x10"
    by (simp_all add: tsWrite_def del: of_nat_add)
  have i: "(idx ?p k :: (ts_err, byte) outcome) = Ok (?p ! k)" if "k < 188" for k using that l by simp
  have sl: "(sliceN ?p 4 (length ?p) :: (ts_err, byte list) outcome) = Ok payload"
    using l assms(2) by (simp add: sliceN_def tsWrite_def)
  have afc: "unat (0x10 :: byte) div 16 mod 4 = 1" by simp
  show ?thesis
    unfolding tsPacket_def Let_def using i [of 0] i [of 1] i [of 3] i [of 4] p n sl u c [OF d] afc
    by (simp add: tsPacketSize_def del: of_nat_add)
qed

lemma tsLoop_write:
  assumes "pid < 8192" "length payload = 184" "tsPayload s pid payload = Ok s'"
  shows "tsLoop s (tsWrite pid payload @ bs) fails = tsLoop s' bs fails"
proof -
  have l: "length (tsWrite pid payload) = tsPacketSize" using assms(2) by (simp add: tsWrite_def tsPacketSize_def)
  have t: "take tsPacketSize (tsWrite pid payload @ bs) = tsWrite pid payload" "drop tsPacketSize (tsWrite pid payload @ bs) = bs"
    using l by simp_all
  show ?thesis
    using tsPacket_write [OF assms(1,2)] assms(3) l by (subst tsLoop.simps) (simp only: t, simp)
qed

text \<open>One PES packet per frame; a frame is video or audio and has a time stamp.\<close>

definition frameStats :: "nat \<Rightarrow> nat \<Rightarrow> (bool \<times> nat) list \<Rightarrow> (nat \<times> pidStats) list \<Rightarrow> (nat \<times> pidStats) list" where
  "frameStats v a fs xs = fold (\<lambda>(isV, t) xs. putStats xs (if isV then v else a) (Some (int t))) fs xs"

definition framesWrite :: "nat \<Rightarrow> nat \<Rightarrow> (bool \<times> nat) list \<Rightarrow> byte list" where
  "framesWrite v a fs = concat (map (\<lambda>(isV, t). tsWrite (if isV then v else a) (pesWrite t)) fs)"

definition segWrite :: "nat \<Rightarrow> nat \<Rightarrow> nat \<Rightarrow> (bool \<times> nat) list \<Rightarrow> byte list" where
  "segWrite pmt v a fs = tsWrite 0 (patWrite pmt) @ tsWrite pmt (pmtWrite v a) @ framesWrite v a fs"

definition pidsOk :: "nat \<Rightarrow> nat \<Rightarrow> nat \<Rightarrow> bool" where
  "pidsOk pmt v a \<longleftrightarrow> pmt < 8192 \<and> v < 8192 \<and> a < 8192 \<and> 0 < pmt \<and> 0 < v \<and> 0 < a \<and> pmt \<noteq> v \<and> pmt \<noteq> a \<and> v \<noteq> a"

lemma tsLoop_frames:
  assumes "pidsOk pmt v a" "pmtPIDs s = {pmt}" "\<forall>(isV, t) \<in> set fs. t < 2 ^ 33"
  shows "tsLoop s (framesWrite v a fs) False = Ok (s\<lparr>stats := frameStats v a fs (stats s)\<rparr>)"
  using assms(2,3)
proof (induction fs arbitrary: s)
  case Nil
  then show ?case by (subst tsLoop.simps) (simp add: framesWrite_def frameStats_def tsPacketSize_def)
next
  case (Cons f fs)
  obtain isV t where f: "f = (isV, t)" by (cases f)
  let ?pid = "if isV then v else a"
  have p: "?pid < 8192" "?pid \<noteq> 0" "?pid \<noteq> pmt" using assms(1) by (auto simp: pidsOk_def)
  have l: "length (pesWrite t) = 184" "isPES (pesWrite t) = Ok True" by (simp_all add: pesWrite_def isPES_def)
  have "t < 2 ^ 33" using Cons.prems(2) f by simp
  then have "tsPayload s ?pid (pesWrite t) = Ok (s\<lparr>stats := putStats (stats s) ?pid (Some (int t))\<rparr>)"
    using p l Cons.prems(1) pesPTS_write [of t] by (simp add: tsPayload_def)
  note step = tsLoop_write [OF p(1) l(1) this, of "framesWrite v a fs" False]
  have "tsLoop s (framesWrite v a (f # fs)) False =
      tsLoop (s\<lparr>stats := putStats (stats s) ?pid (Some (int t))\<rparr>) (framesWrite v a fs) False"
    using step by (simp add: framesWrite_def f)
  also have "\<dots> = Ok (s\<lparr>stats := frameStats v a (f # fs) (stats s)\<rparr>)"
    using Cons.IH [of "s\<lparr>stats := putStats (stats s) ?pid (Some (int t))\<rparr>"] Cons.prems by (simp add: frameStats_def f)
  finally show ?case .
qed

lemma tsLoop_segment:
  assumes "pidsOk pmt v a" "\<forall>(isV, t) \<in> set fs. t < 2 ^ 33"
  shows "tsLoop tsStart (segWrite pmt v a fs) False =
    Ok \<lparr>pmtPIDs = {pmt}, kinds = [v \<mapsto> KindVideo, a \<mapsto> KindAudio], stats = frameStats v a fs [], sawPMT = True\<rparr>"
proof -
  note h = assms(1) [unfolded pidsOk_def]
  have l: "length (patWrite pmt) = 184" "length (pmtWrite v a) = 184" by (simp_all add: patWrite_def pmtWrite_def pidBytes_def)
  have "tsPayload tsStart 0 (patWrite pmt) = Ok (tsStart\<lparr>pmtPIDs := {pmt}\<rparr>)"
    using parsePAT_write h by (simp add: tsPayload_def tsStart_def)
  note s1 = tsLoop_write [OF _ l(1) this, of "tsWrite pmt (pmtWrite v a) @ framesWrite v a fs" False]
  have "tsPayload (tsStart\<lparr>pmtPIDs := {pmt}\<rparr>) pmt (pmtWrite v a) =
      Ok (tsStart\<lparr>pmtPIDs := {pmt}, kinds := [v \<mapsto> KindVideo, a \<mapsto> KindAudio], sawPMT := True\<rparr>)"
    using parsePMT_write h by (simp add: tsPayload_def tsStart_def)
  note s2 = tsLoop_write [OF _ l(2) this, of "framesWrite v a fs" False]
  show ?thesis
    using s1 s2 h tsLoop_frames [OF assms(1) _ assms(2), of "tsStart\<lparr>pmtPIDs := {pmt}, kinds := [v \<mapsto> KindVideo, a \<mapsto> KindAudio], sawPMT := True\<rparr>"]
    by (simp add: segWrite_def tsStart_def)
qed

section \<open>What the statistics say\<close>

lemma map_of_put:
  "map_of (putStats xs pid pts) q =
     (if q = pid then Some (bumpStats pts (case map_of xs pid of Some st \<Rightarrow> st | None \<Rightarrow> zeroStats)) else map_of xs q)"
proof (cases "pid \<in> fst ` set xs")
  case True
  then obtain st where st: "map_of xs pid = Some st" by (metis map_of_eq_None_iff not_Some_eq)
  have "map_of (map (\<lambda>(k, st). (k, if k = pid then bumpStats pts st else st)) xs) q =
      map_option (\<lambda>st. if q = pid then bumpStats pts st else st) (map_of xs q)"
    by (induction xs) auto
  with True st show ?thesis by (auto simp: putStats_def option.map_ident)
next
  case False
  then have n: "map_of xs pid = None" by (simp add: map_of_eq_None_iff)
  then show ?thesis using False by (auto simp: putStats_def map_add_def split: option.splits)
qed

lemma keys_put: "set (map fst (putStats xs pid pts)) = insert pid (set (map fst xs))"
  "distinct (map fst xs) \<Longrightarrow> distinct (map fst (putStats xs pid pts))"
proof -
  have m: "map fst (map (\<lambda>(k, st). (k, if k = pid then bumpStats pts st else st)) xs) = map fst xs" by auto
  show "set (map fst (putStats xs pid pts)) = insert pid (set (map fst xs))"
  proof (cases "pid \<in> fst ` set xs")
    case True
    then have "map fst (putStats xs pid pts) = map fst xs" by (simp only: putStats_def if_True m)
    moreover have "insert pid (set (map fst xs)) = set (map fst xs)" using True by (simp add: insert_absorb)
    ultimately show ?thesis by (simp only:)
  qed (auto simp: putStats_def)
  show "distinct (map fst xs) \<Longrightarrow> distinct (map fst (putStats xs pid pts))"
    by (cases "pid \<in> fst ` set xs") (simp_all add: putStats_def m del: map_map)
qed

abbreviation tsOf :: "bool \<Rightarrow> (bool \<times> nat) list \<Rightarrow> nat list" where
  "tsOf b fs \<equiv> map snd (filter (\<lambda>x. fst x = b) fs)"

lemma frameStats_Cons:
  "frameStats v a (f # fs) xs = frameStats v a fs (putStats xs (if fst f then v else a) (Some (int (snd f))))"
  by (cases f) (simp add: frameStats_def)

lemma frameStats_distinct: "distinct (map fst xs) \<Longrightarrow> distinct (map fst (frameStats v a fs xs))"
proof (induction fs arbitrary: xs)
  case (Cons f fs)
  show ?case unfolding frameStats_Cons by (rule Cons.IH, rule keys_put(2), rule Cons.prems)
qed (simp add: frameStats_def)

lemma frameStats_keys: "set (map fst (frameStats v a fs xs)) \<subseteq> set (map fst xs) \<union> {v, a}"
proof (induction fs arbitrary: xs)
  case (Cons f fs)
  have "(if fst f then v else a) \<in> {v, a}" by simp
  then show ?case
    unfolding frameStats_Cons using Cons.IH [of "putStats xs (if fst f then v else a) (Some (int (snd f)))"] unfolding keys_put(1) by blast
qed (auto simp: frameStats_def)

lemma frameStats_of:
  assumes "v \<noteq> a"
  shows "map_of (frameStats v a fs xs) (if b then v else a) =
    (if tsOf b fs = [] then map_of xs (if b then v else a)
     else Some (fold (\<lambda>t. bumpStats (Some (int t))) (tsOf b fs) (case map_of xs (if b then v else a) of Some st \<Rightarrow> st | None \<Rightarrow> zeroStats)))"
proof (induction fs arbitrary: xs)
  case (Cons f fs)
  obtain isV t where f: "f = (isV, t)" by (cases f)
  have e: "frameStats v a (f # fs) xs = frameStats v a fs (putStats xs (if isV then v else a) (Some (int t)))"
    by (simp add: frameStats_def f)
  show ?case unfolding e Cons.IH using assms by (cases isV; cases b) (auto simp: map_of_put f)
qed (simp add: frameStats_def)

text \<open>Along the time stamps of one stream, given as offsets from a base, the statistics are the number of packets, the first
  time stamp and the extreme offsets, also when the clock wraps in between.\<close>

lemma bump_offsets:
  assumes "os \<noteq> []" "\<forall>x \<in> set os. x < 2 ^ 32"
  shows "fold (\<lambda>t. bumpStats (Some (int t))) (map (\<lambda>x. (e + x) mod 2 ^ 33) os) zeroStats =
    \<lparr>starts = int (length os), firstPTS = int ((e + hd os) mod 2 ^ 33), minD = int (Min (set os)) - int (hd os),
     maxD = int (Max (set os)) - int (hd os), hasPTS = True\<rparr>"
  using assms
proof (induction os rule: rev_induct)
  case (snoc x os)
  show ?case
  proof (cases "os = []")
    case True
    then show ?thesis by (simp add: bumpStats_def zeroStats_def)
  next
    case False
    let ?h = "hd os"
    have h: "?h < 2 ^ 32" "x < 2 ^ 32" using snoc.prems(2) False by auto
    have "int ((e + x) mod 2 ^ 33) = (int e + int x) mod 2 ^ 33" "int ((e + ?h) mod 2 ^ 33) = (int e + int ?h) mod 2 ^ 33"
      by (simp_all add: zmod_int)
    moreover have "ptsDiff ((int e + int x) mod 2 ^ 33) ((int e + int ?h) mod 2 ^ 33) = int x - int ?h"
      using h by (intro ptsDiff_wrapped) auto
    ultimately have d: "ptsDiff (int ((e + x) mod 2 ^ 33)) (int ((e + ?h) mod 2 ^ 33)) = int x - int ?h" by simp
    have "Min (set (os @ [x])) = min (Min (set os)) x" "Max (set (os @ [x])) = max (Max (set os)) x"
      using False by (simp_all add: min.commute max.commute)
    then have m: "min (int (Min (set os)) - int ?h) (int x - int ?h) = int (Min (set (os @ [x]))) - int ?h"
      "max (int (Max (set os)) - int ?h) (int x - int ?h) = int (Max (set (os @ [x]))) - int ?h"
      by (simp_all add: min_def max_def)
    have ih: "fold (\<lambda>t. bumpStats (Some (int t))) (map (\<lambda>x. (e + x) mod 2 ^ 33) os) zeroStats =
        \<lparr>starts = int (length os), firstPTS = int ((e + ?h) mod 2 ^ 33), minD = int (Min (set os)) - int ?h,
         maxD = int (Max (set os)) - int ?h, hasPTS = True\<rparr>"
      using snoc False by simp
    show ?thesis
      unfolding map_append fold_append o_def ih using False d m by (simp add: bumpStats_def Let_def del: set_append)
  qed
qed simp

lemma count_two:
  assumes "v \<noteq> a" "distinct (map fst ys)" "set (map fst ys) \<subseteq> {v, a}" "map_of ys v = Some sv" "hasPTS sv"
    "sa = (case map_of ys a of Some st \<Rightarrow> starts st | None \<Rightarrow> 0)"
  shows "fold (countStep [v \<mapsto> KindVideo, a \<mapsto> KindAudio]) ys \<lparr>video = 0, audio = 0, videoPTS = 0, videoSpan = 0, hasVideoPTS = False\<rparr> =
    \<lparr>video = starts sv, audio = sa, videoPTS = goRem (firstPTS sv + minD sv + ptsWrap) ptsWrap, videoSpan = maxD sv - minD sv, hasVideoPTS = True\<rparr>"
proof -
  have "length ys \<le> 2"
  proof -
    have "length ys = card (set (map fst ys))" using distinct_card [OF assms(2)] by simp
    also have "\<dots> \<le> card {v, a}" using assms(3) by (intro card_mono) auto
    also have "\<dots> \<le> 2" by (simp add: card_insert_if)
    finally show ?thesis .
  qed
  then consider "ys = []" | x where "ys = [x]" | x y where "ys = [x, y]"
    by (cases ys; cases "tl ys") (auto simp: Suc_le_eq)
  then show ?thesis
    using assms by cases (auto simp: countStep_def split: if_splits)
qed

section \<open>Properties\<close>

text \<open>C19: Scanning a segment never panics, whatever bytes the encoder wrote, and what it reports is in range: no more PES
  packets than the data has transport packets, and an earliest time stamp and a span of 33 bits.\<close>

theorem ts_scan_safe:
  assumes "\<And>xs. mset (ord xs) = mset xs"
  shows "countTSPackets ord bs fails \<noteq> Panic \<and>
    (\<forall>c. countTSPackets ord bs fails = Ok c \<longrightarrow> 0 \<le> video c \<and> 0 \<le> audio c \<and> video c + audio c \<le> int (length bs div 188) \<and>
       (hasVideoPTS c \<longrightarrow> 0 \<le> videoPTS c \<and> videoPTS c < 2 ^ 33 \<and> 0 \<le> videoSpan c \<and> videoSpan c < 2 ^ 33))"
proof -
  have "statsInv 0 tsStart" by (simp add: statsInv_def tsStart_def statSum_def)
  note inv = tsLoop_inv [OF this, of bs fails]
  show ?thesis
  proof (cases "tsLoop tsStart bs fails")
    case (Ok s)
    then have s: "statsInv (int (length bs div tsPacketSize)) s" using inv by simp
    have "statSum (ord (stats s)) = statSum (stats s)"
      using assms [of "stats s"] by (metis statSum_def mset_map sum_mset_sum_list)
    moreover have "list_all (\<lambda>x. statOk (snd x)) (ord (stats s))"
      using s assms [of "stats s"] by (metis list_all_iff mset_eq_setD statsInv_def)
    ultimately show ?thesis
      using Ok s countStep_bounds [OF _ _ _ _ refl, of "ord (stats s)" "\<lparr>video = 0, audio = 0, videoPTS = 0, videoSpan = 0, hasVideoPTS = False\<rparr>" "kinds s"]
      by (auto simp: countTSPackets_def statsInv_def tsPacketSize_def)
  qed (use inv in \<open>auto simp: countTSPackets_def\<close>)
qed

text \<open>What was written is what is counted: of a segment with one video and one audio stream, whose frames are
  written in any order and carry the 33-bit time stamps of offsets from a base, the scan reports the number of video
  and audio frames, the earliest video time stamp and the distance to the latest one, also when the clock wraps within
  the segment.\<close>

theorem ts_scan_roundtrip:
  assumes ord: "\<And>xs. mset (ord xs) = mset xs" and pids: "pidsOk pmt v a"
    and fs: "\<forall>f \<in> set fs. snd f < 2 ^ 32" "(True, 0) \<in> set fs"
  shows "countTSPackets ord (segWrite pmt v a (map (\<lambda>(isV, x). (isV, (e + x) mod 2 ^ 33)) fs)) False =
    Ok \<lparr>video = int (length (tsOf True fs)), audio = int (length (tsOf False fs)), videoPTS = int (e mod 2 ^ 33),
        videoSpan = int (Max (set (tsOf True fs))), hasVideoPTS = True\<rparr>"
proof -
  let ?fs = "map (\<lambda>(isV, x). (isV, (e + x) mod 2 ^ 33)) fs"
  have ts: "tsOf b ?fs = map (\<lambda>x. (e + x) mod 2 ^ 33) (tsOf b fs)" for b
    by (induction fs) (auto split: prod.splits)
  let ?st = "frameStats v a ?fs []"
  have va: "v \<noteq> a" using pids by (simp add: pidsOk_def)
  let ?V = "tsOf True fs"
  have ne2: "0 \<in> set ?V" using fs(2) by force
  then have ne1: "?V \<noteq> []" by (metis empty_iff empty_set)
  note ne = ne1 ne2
  have lt: "\<forall>x \<in> set (tsOf b fs). x < 2 ^ 32" for b using fs(1) by auto
  note off = bump_offsets [OF _ lt, of _ e]
  have mv: "map_of ?st v = Some \<lparr>starts = int (length ?V), firstPTS = int ((e + hd ?V) mod 2 ^ 33), minD = int (Min (set ?V)) - int (hd ?V),
      maxD = int (Max (set ?V)) - int (hd ?V), hasPTS = True\<rparr>"
    using frameStats_of [OF va, of ?fs "[]" True] ne(1) off [of True] unfolding ts by simp
  have ma: "(case map_of ?st a of Some st \<Rightarrow> starts st | None \<Rightarrow> 0) = int (length (tsOf False fs))"
    using frameStats_of [OF va, of ?fs "[]" False] off [of False] unfolding ts by (cases "tsOf False fs = []") simp_all
  have min: "Min (set ?V) = 0" using ne(2) by (intro Min_eqI) auto
  have r: "goRem (int ((e + hd ?V) mod 2 ^ 33) + (int 0 - int (hd ?V)) + ptsWrap) ptsWrap = int (e mod 2 ^ 33)"
  proof -
    have "hd ?V < 2 ^ 32" using lt [of True] ne(1) by (metis hd_in_set)
    then have "0 \<le> int ((e + hd ?V) mod 2 ^ 33) + (int 0 - int (hd ?V)) + ptsWrap" by (simp add: ptsWrap_def)
    moreover have "(int ((e + hd ?V) mod 2 ^ 33) + (int 0 - int (hd ?V)) + 2 ^ 33) mod 2 ^ 33 = int (e mod 2 ^ 33)"
    proof -
      have "(int ((e + hd ?V) mod 2 ^ 33) + (int 0 - int (hd ?V)) + 2 ^ 33) mod 2 ^ 33 = (int ((e + hd ?V) mod 2 ^ 33) - int (hd ?V)) mod 2 ^ 33"
        by simp
      also have "\<dots> = ((int e + int (hd ?V)) mod 2 ^ 33 - int (hd ?V)) mod 2 ^ 33" by (simp add: zmod_int)
      also have "\<dots> = int e mod 2 ^ 33" by (simp add: mod_diff_left_eq)
      finally show ?thesis by (simp add: zmod_int)
    qed
    ultimately show ?thesis by (simp add: goRem_def ptsWrap_def)
  qed
  let ?ys = "ord ?st"
  have d: "distinct (map fst ?st)" by (rule frameStats_distinct) simp
  have "mset (map fst ?ys) = mset (map fst ?st)" unfolding mset_map ord by (rule refl)
  then have dy: "distinct (map fst ?ys)" using d mset_eq_imp_distinct_iff by blast
  have se: "set ?ys = set ?st" by (rule mset_eq_setD [OF ord])
  have sy: "set (map fst ?ys) \<subseteq> {v, a}"
    unfolding set_map se using frameStats_keys [of v a ?fs "[]"] unfolding set_map by simp
  have my: "map_of ?ys = map_of ?st" using map_of_inject_set [OF dy d] se by blast
  have "fold (countStep [v \<mapsto> KindVideo, a \<mapsto> KindAudio]) ?ys \<lparr>video = 0, audio = 0, videoPTS = 0, videoSpan = 0, hasVideoPTS = False\<rparr> =
      \<lparr>video = int (length ?V), audio = int (length (tsOf False fs)), videoPTS = int (e mod 2 ^ 33),
       videoSpan = int (Max (set ?V)), hasVideoPTS = True\<rparr>"
    using count_two [OF va dy sy, unfolded my, OF mv _ ma [symmetric]] r min by simp
  moreover have "\<forall>(isV, t) \<in> set ?fs. t < 2 ^ 33" by auto
  ultimately show ?thesis using tsLoop_segment [OF pids] by (simp add: countTSPackets_def)
qed

section \<open>Witnesses\<close>

text \<open>A segment of three frames that is scanned to its end, its second video frame before the first one and the clock
  wrapping between them.\<close>

lemma demo_scan:
  "countTSPackets rev (segWrite 4096 256 257 [(True, 2400), (False, 10), (True, 8589934000)]) False =
     Ok \<lparr>video = 2, audio = 1, videoPTS = 8589934000, videoSpan = 2992, hasVideoPTS = True\<rparr>"
proof -
  have "pidsOk 4096 256 257" by (simp add: pidsOk_def)
  from tsLoop_segment [OF this, of "[(True, 2400), (False, 10), (True, 8589934000)]"] show ?thesis
    by (simp add: countTSPackets_def frameStats_def putStats_def bumpStats_def zeroStats_def countStep_def ptsDiff_def
        goRem_def i64_def ptsWrap_def Let_def)
qed

theorem ts_scan_safe_witness:
  "countTSPackets rev (segWrite 4096 256 257 [(True, 2400), (False, 10), (True, 8589934000)]) False \<noteq> Panic \<and>
   (\<exists>c. countTSPackets rev (segWrite 4096 256 257 [(True, 2400), (False, 10), (True, 8589934000)]) False = Ok c \<and>
      video c = 2 \<and> hasVideoPTS c \<and> 0 \<le> videoSpan c \<and> videoSpan c < 2 ^ 33)"
  using ts_scan_safe [of rev "segWrite 4096 256 257 [(True, 2400), (False, 10), (True, 8589934000)]" False] demo_scan by auto

theorem ts_scan_roundtrip_witness:
  "countTSPackets rev (segWrite 4096 256 257 (map (\<lambda>(isV, x). (isV, (8589934000 + x) mod 2 ^ 33)) [(True, 3000), (False, 10), (True, 0)])) False =
    Ok \<lparr>video = 2, audio = 1, videoPTS = 8589934000, videoSpan = 3000, hasVideoPTS = True\<rparr>"
proof -
  have "pidsOk 4096 256 257" by (simp add: pidsOk_def)
  from ts_scan_roundtrip [of rev, OF _ this, of "[(True, 3000), (False, 10), (True, 0)]" 8589934000] show ?thesis by simp
qed

end
