(* ===== verification/Seg_Check.thy ===== *)
theory Seg_Check
  imports Complex_Main Ts_Scan Go_Url
begin

text \<open>
  The decisions of \<open>media/segcheck.go\<close> around one transcoded segment: watching the encoder's log for input failures
  without buffering it, choosing the seek pre-rolls, and deciding whether a segment is an error, is served, is cached, or
  is encoded once more. The encoder and the inspection of its output are parameters; pre-rolls are rationals (seconds)
  that are only compared.
\<close>

section \<open>The encoder's log\<close>

definition inputErrMarkers :: "string list" where
  "inputErrMarkers = [''Stream ends prematurely'', ''File ended prematurely'', ''Error during demuxing'']"

record stderrWatch =
  tail :: string
  hit :: string

definition watchKeep :: nat where
  "watchKeep = foldl (\<lambda>k m. max k (length m - 1)) 0 inputErrMarkers"

definition watchWrite :: "stderrWatch \<Rightarrow> string \<Rightarrow> stderrWatch" where
  "watchWrite w p =
     (if hit w \<noteq> [] then w
      else
        (let buf = tail w @ p
         in case find (\<lambda>m. containsStr m buf) inputErrMarkers of
              Some m \<Rightarrow> w\<lparr>hit := m, tail := []\<rparr>
            | None \<Rightarrow> w\<lparr>tail := drop (length buf - watchKeep) buf\<rparr>))"

section \<open>Pre-rolls\<close>

definition fullPreRoll :: rat where "fullPreRoll = 10"
definition tsRetryPreRoll :: rat where "tsRetryPreRoll = 30"

definition seekIndexedFormats :: "string list" where
  "seekIndexedFormats = [''matroska'', ''webm'', ''mov'', ''mp4'']"

definition isSeekIndexed :: "string \<Rightarrow> bool" where
  "isSeekIndexed formatName = list_ex (\<lambda>name. trimC isSpaceC name \<in> set seekIndexedFormats) (splitOn (CHR '','') formatName)"

record preRollPlan =
  first :: rat
  retry :: rat

text \<open>\<open>SeekPreroll\<close> is a duration in nanoseconds.\<close>

definition indexedPreRoll :: "int \<Rightarrow> rat" where
  "indexedPreRoll seekPreroll = (if seekPreroll \<le> 0 then 0 else of_int seekPreroll / 1000000000)"

definition segPreRollPlan :: "int \<Rightarrow> bool \<Rightarrow> bool \<Rightarrow> preRollPlan" where
  "segPreRollPlan seekPreroll isTS seekIndexed =
     (if seekIndexed \<and> indexedPreRoll seekPreroll < fullPreRoll then \<lparr>first = indexedPreRoll seekPreroll, retry = fullPreRoll\<rparr>
      else if isTS then \<lparr>first = fullPreRoll, retry = tsRetryPreRoll\<rparr>
      else \<lparr>first = fullPreRoll, retry = 0\<rparr>)"

section \<open>One segment\<close>

record segVerdict =
  reason :: string
  videoMissing :: bool

text \<open>One attempt: the encoder reports an error or the input failure it logged, the inspection an error or a verdict.\<close>

definition attempt :: "(rat \<Rightarrow> string \<Rightarrow> 'e + string) \<Rightarrow> (string \<Rightarrow> 'e + segVerdict) \<Rightarrow> rat \<Rightarrow> string \<Rightarrow> 'e + segVerdict" where
  "attempt encode inspect preRoll out =
     (case encode preRoll out of
        Inl e \<Rightarrow> Inl e
      | Inr inputErr \<Rightarrow>
          (case inspect out of
             Inl e \<Rightarrow> Inl e
           | Inr v \<Rightarrow> Inr (if inputErr \<noteq> [] then \<lparr>reason = ''ffmpeg input error: '' @ inputErr, videoMissing = False\<rparr> else v)))"

text \<open>The effects: the files encoded, in order, and the files removed.\<close>

record segEffects =
  encoded :: "string list"
  removed :: "string list"

definition transcodeChecked :: "bool \<Rightarrow> rat \<Rightarrow> preRollPlan \<Rightarrow> string \<Rightarrow> string \<Rightarrow> (rat \<Rightarrow> string \<Rightarrow> 'e + string) \<Rightarrow>
    (string \<Rightarrow> 'e + segVerdict) \<Rightarrow> ('e + string \<times> string) \<times> segEffects" where
  "transcodeChecked ctxLive start pre path0 path1 encode inspect =
     (case attempt encode inspect (first pre) path0 of
        Inl e \<Rightarrow> (Inl e, \<lparr>encoded = [path0], removed = []\<rparr>)
      | Inr v \<Rightarrow>
          if reason v = [] then (Inr (path0, []), \<lparr>encoded = [path0], removed = []\<rparr>)
          else if videoMissing v \<and> retry pre > first pre \<and> start > first pre \<and> ctxLive then
            (case attempt encode inspect (retry pre) path1 of
               Inr v2 \<Rightarrow>
                 if reason v2 = [] then (Inr (path1, []), \<lparr>encoded = [path0, path1], removed = [path0]\<rparr>)
                 else (Inr (path0, reason v), \<lparr>encoded = [path0, path1], removed = [path1]\<rparr>)
             | Inl e \<Rightarrow> (Inr (path0, reason v), \<lparr>encoded = [path0, path1], removed = [path1]\<rparr>))
          else (Inr (path0, reason v), \<lparr>encoded = [path0], removed = []\<rparr>))"

text \<open>\<open>inspectSegment\<close> on the bytes of the file: an unusable file is an error; otherwise the counts are judged.\<close>

definition inspectBytes :: "((nat \<times> pidStats) list \<Rightarrow> (nat \<times> pidStats) list) \<Rightarrow> (tsCounts \<Rightarrow> segVerdict) \<Rightarrow> byte list \<Rightarrow> (ts_err, segVerdict) outcome" where
  "inspectBytes ord judge bs = bnd (countTSPackets ord bs False) (\<lambda>got. Ok (judge got))"

section \<open>Searching across writes\<close>

lemma containsStr_iff: "containsStr p s \<longleftrightarrow> (\<exists>a b. s = a @ p @ b)"
proof (induction s)
  case (Cons c s)
  have h: "hasPrefix p (c # s) \<longleftrightarrow> (\<exists>b. c # s = p @ b)" by (metis append_eq_conv_conj append_take_drop_id hasPrefix_def)
  show ?case
  proof
    assume "containsStr p (c # s)"
    then show "\<exists>a b. c # s = a @ p @ b" using h Cons by (metis append_Cons append_Nil containsStr.simps(2))
  next
    assume "\<exists>a b. c # s = a @ p @ b"
    then obtain a b where ab: "c # s = a @ p @ b" by blast
    show "containsStr p (c # s)"
    proof (cases a)
      case Nil
      with ab have "\<exists>b. c # s = p @ b" by simp
      then show ?thesis unfolding containsStr.simps(2) h by (rule disjI1)
    next
      case (Cons d a')
      with ab have "s = a' @ p @ b" by simp
      then show ?thesis using Cons.IH by (metis containsStr.simps(2))
    qed
  qed
qed simp

lemma watchKeep_bound: "m \<in> set inputErrMarkers \<Longrightarrow> m \<noteq> [] \<and> length m \<le> watchKeep + 1"
  by (auto simp: inputErrMarkers_def watchKeep_def)

text \<open>A marker that is not in the text so far and spans the new bytes lies in the kept tail followed by them.\<close>

lemma contains_tail:
  assumes "\<not> containsStr m t" "length m \<le> k + 1" "m \<noteq> []"
  shows "containsStr m (drop (length t - k) t @ p) \<longleftrightarrow> containsStr m (t @ p)"
proof
  assume "containsStr m (drop (length t - k) t @ p)"
  then obtain a b where "drop (length t - k) t @ p = a @ m @ b" by (auto simp: containsStr_iff)
  then have "t @ p = (take (length t - k) t @ a) @ m @ b" by (metis append.assoc append_take_drop_id)
  then show "containsStr m (t @ p)" unfolding containsStr_iff by blast
next
  assume "containsStr m (t @ p)"
  then obtain a b where ab: "t @ p = a @ m @ b" by (auto simp: containsStr_iff)
  have "length a + length m > length t"
  proof (rule ccontr)
    assume "\<not> length t < length a + length m"
    then have l: "length (a @ m) \<le> length t" by simp
    have "t = take (length t) (a @ m @ b)" by (simp flip: ab)
    also have "\<dots> = (a @ m) @ take (length t - length (a @ m)) b" using l by simp
    finally show False using assms(1) unfolding containsStr_iff by (metis append.assoc)
  qed
  then have l: "length t - k \<le> length a" using assms(2) by simp
  have "drop (length t - k) t @ p = drop (length t - k) (t @ p)" by simp
  also have "\<dots> = drop (length t - k) a @ m @ b" using l unfolding ab by simp
  finally show "containsStr m (drop (length t - k) t @ p)" unfolding containsStr_iff by blast
qed

text \<open>What the watch knows after the text \<open>t\<close>.\<close>

definition watchInv :: "string \<Rightarrow> stderrWatch \<Rightarrow> bool" where
  "watchInv t w \<longleftrightarrow>
     (if hit w = [] then (\<forall>m \<in> set inputErrMarkers. \<not> containsStr m t) \<and> tail w = drop (length t - watchKeep) t
      else hit w \<in> set inputErrMarkers \<and> containsStr (hit w) t \<and> tail w = [])"

lemma watchWrite_inv:
  assumes "watchInv t w"
  shows "watchInv (t @ p) (watchWrite w p)"
proof (cases "hit w = []")
  case False
  then have "containsStr (hit w) (t @ p)" using assms unfolding watchInv_def containsStr_iff by (metis append.assoc)
  then show ?thesis using False assms by (simp add: watchInv_def watchWrite_def)
next
  case True
  note h = assms [unfolded watchInv_def, simplified True, simplified]
  let ?buf = "tail w @ p"
  have c: "containsStr m ?buf \<longleftrightarrow> containsStr m (t @ p)" if "m \<in> set inputErrMarkers" for m
    using contains_tail [of m t watchKeep p] h watchKeep_bound [OF that] that by auto
  show ?thesis
  proof (cases "find (\<lambda>m. containsStr m ?buf) inputErrMarkers")
    case (Some m)
    then have "m \<in> set inputErrMarkers" "containsStr m ?buf" by (auto simp: find_Some_iff in_set_conv_nth)
    then show ?thesis using Some True c watchKeep_bound by (auto simp: watchInv_def watchWrite_def)
  next
    case None
    have "drop (length ?buf - watchKeep) ?buf = drop (length (t @ p) - watchKeep) (t @ p)"
      using h by (cases "length t \<le> watchKeep") (auto simp: add.commute)
    moreover have "watchWrite w p = w\<lparr>tail := drop (length ?buf - watchKeep) ?buf\<rparr>"
      by (simp add: watchWrite_def Let_def True None)
    moreover have "\<not> containsStr m (t @ p)" if "m \<in> set inputErrMarkers" for m
      using None c [OF that] that unfolding find_None_iff by blast
    ultimately show ?thesis using True by (simp add: watchInv_def)
  qed
qed

lemma watch_run: "watchInv t w \<Longrightarrow> watchInv (t @ concat ps) (foldl watchWrite w ps)"
proof (induction ps arbitrary: t w)
  case (Cons p ps)
  from Cons.IH [OF watchWrite_inv [OF Cons.prems]] show ?case by simp
qed simp

section \<open>Properties\<close>

text \<open>The log watch is exact although it keeps only 22 bytes: however the encoder's output is split into
  writes, it reports a marker if and only if the whole output contains one, and what it reports occurs there.\<close>

theorem stderr_watch_exact:
  assumes "w = foldl watchWrite \<lparr>tail = [], hit = []\<rparr> ps"
  shows "(hit w \<noteq> [] \<longleftrightarrow> (\<exists>m \<in> set inputErrMarkers. containsStr m (concat ps))) \<and>
    (hit w \<noteq> [] \<longrightarrow> hit w \<in> set inputErrMarkers \<and> containsStr (hit w) (concat ps)) \<and> length (tail w) \<le> 22"
proof -
  have "watchInv [] \<lparr>tail = [], hit = []\<rparr>"
    using watchKeep_bound by (auto simp: watchInv_def)
  from watch_run [OF this, of ps] have w: "watchInv (concat ps) w" by (simp add: assms)
  have "watchKeep = 22" by (simp add: watchKeep_def inputErrMarkers_def)
  then show ?thesis using w by (auto simp: watchInv_def split: if_splits)
qed

text \<open>The fate of a segment: it is an error only if the first attempt is one; it is cached only if the attempt
  that wrote the served file was clean (no encoder error, no input failure in the log, a clean verdict); otherwise the
  first attempt is served uncached. The served file is never removed, every other file written is, and there is at most
  one retry, with a longer pre-roll.\<close>

theorem transcode_checked_decision:
  assumes "transcodeChecked live start pre p0 p1 encode inspect = (r, eff)" "p0 \<noteq> p1"
  shows "(\<forall>e. r = Inl e \<longleftrightarrow> attempt encode inspect (first pre) p0 = Inl e) \<and>
    (\<forall>p. r = Inr (p, []) \<longrightarrow> (\<exists>v. encode (if p = p0 then first pre else retry pre) p = Inr [] \<and> inspect p = Inr v \<and> reason v = [])) \<and>
    (\<forall>p why. r = Inr (p, why) \<longrightarrow> p \<in> set (encoded eff) \<and> set (removed eff) = set (encoded eff) - {p} \<and> (why \<noteq> [] \<longrightarrow> p = p0)) \<and>
    (encoded eff = [p0] \<or> (encoded eff = [p0, p1] \<and> first pre < retry pre \<and> live))"
proof -
  have clean: "\<exists>v. encode x p = Inr [] \<and> inspect p = Inr v \<and> reason v = []" if "attempt encode inspect x p = Inr v" "reason v = []" for x p v
    using that by (auto simp: attempt_def split: sum.splits if_splits)
  show ?thesis
  proof (cases "attempt encode inspect (first pre) p0")
    case (Inl e)
    then show ?thesis using assms(1) by (auto simp: transcodeChecked_def)
  next
    case (Inr v)
    show ?thesis
    proof (cases "reason v = []")
      case True
      then show ?thesis using assms Inr clean [OF Inr] by (auto simp: transcodeChecked_def)
    next
      case bad: False
      show ?thesis
      proof (cases "videoMissing v \<and> retry pre > first pre \<and> start > first pre \<and> live")
        case False
        then show ?thesis using assms Inr bad by (auto simp: transcodeChecked_def)
      next
        case True
        show ?thesis
        proof (cases "attempt encode inspect (retry pre) p1")
          case i2: (Inl e)
          then show ?thesis using assms Inr bad True by (auto simp: transcodeChecked_def)
        next
          case i2: (Inr v2)
          then show ?thesis using assms Inr bad True clean [OF i2] by (cases "reason v2 = []") (auto simp: transcodeChecked_def)
        qed
      qed
    qed
  qed
qed

text \<open>A plan's retry, when there is one, looks further back than the first attempt.\<close>

lemma plan_retry: "retry (segPreRollPlan d isTS ix) = 0 \<or> first (segPreRollPlan d isTS ix) < retry (segPreRollPlan d isTS ix)"
  by (auto simp: segPreRollPlan_def fullPreRoll_def tsRetryPreRoll_def)

section \<open>Witnesses\<close>

theorem stderr_watch_exact_witness:
  "hit (foldl watchWrite \<lparr>tail = [], hit = []\<rparr> [''x Stream ends prem'', ''aturely at 3'']) \<noteq> []"
proof -
  have "\<exists>m \<in> set inputErrMarkers. containsStr m (concat [''x Stream ends prem'', ''aturely at 3''])" by code_simp
  then show ?thesis using stderr_watch_exact [OF refl, of "[''x Stream ends prem'', ''aturely at 3'']"] by blast
qed

definition demoEncode :: "rat \<Rightarrow> string \<Rightarrow> unit + string" where "demoEncode x p = Inr []"

definition demoInspect :: "string \<Rightarrow> unit + segVerdict" where
  "demoInspect p = Inr (if p = ''a'' then \<lparr>reason = ''no video frames'', videoMissing = True\<rparr> else \<lparr>reason = [], videoMissing = False\<rparr>)"

theorem transcode_checked_decision_witness:
  "fst (transcodeChecked True 40 (segPreRollPlan 0 True False) ''a'' ''b'' demoEncode demoInspect) = Inr (''b'', []) \<and>
   removed (snd (transcodeChecked True 40 (segPreRollPlan 0 True False) ''a'' ''b'' demoEncode demoInspect)) = [''a'']"
proof -
  let ?x = "transcodeChecked True 40 (segPreRollPlan 0 True False) ''a'' ''b'' demoEncode demoInspect"
  have r: "?x = (Inr (''b'', []), \<lparr>encoded = [''a'', ''b''], removed = [''a'']\<rparr>)"
    by (simp add: transcodeChecked_def attempt_def demoEncode_def demoInspect_def segPreRollPlan_def fullPreRoll_def tsRetryPreRoll_def)
  from transcode_checked_decision [OF r] show ?thesis unfolding r by simp
qed

end
