(* ===== verification/Seg_Index.thy ===== *)
theory Seg_Index
  imports Proxy_Clients
begin

text \<open>
  The per-session cache of transcoded segments on disk, \<open>media/segindex.go\<close>: an index of the finished segment files with
  their sizes and last use, filled lazily from the session directory, and the eviction of least recently used segments
  down to a byte cap. A directory listing, the per-file locks (\<open>TryLock\<close>) and the outcome of removing a file are answers of
  the environment; the map iteration order is \<open>ord\<close>. Times are nanoseconds.
\<close>

section \<open>The index\<close>

record segEntry =
  segSize :: int
  lastUse :: int

record segIndex =
  idxLoaded :: bool
  idxFiles :: "(string \<times> segEntry) list"
  idxTotal :: int

record dirEntry =
  entName :: string
  entDir :: bool
  entInfo :: "(int \<times> int) option"

definition segCacheSegments :: int where "segCacheSegments = 300"
definition segCacheMinBytes :: int where "segCacheMinBytes = 64 * 2 ^ 20"
definition segServeGrace :: int where "segServeGrace = 30 * 1000000000"
definition segDurSeconds :: int where "segDurSeconds = 4"
definition legacyMaxrateBps :: int where "legacyMaxrateBps = 8000000"

definition hasSuffix :: "string \<Rightarrow> string \<Rightarrow> bool" where
  "hasSuffix suf s \<longleftrightarrow> length suf \<le> length s \<and> drop (length s - length suf) s = suf"

definition isCachedSegName :: "string \<Rightarrow> bool" where
  "isCachedSegName name =
     (if \<not> hasSuffix ''.ts'' name \<or> containsStr ''.tmp'' name then False
      else hasPrefix ''seg'' name \<or> (hasPrefix ''a'' name \<and> containsStr ''seg'' name))"

definition emptyIndex :: segIndex where "emptyIndex = \<lparr>idxLoaded = False, idxFiles = [], idxTotal = 0\<rparr>"

text \<open>\<open>ents\<close> is what reading the directory gives; \<open>None\<close> is an error. An entry without information was removed meanwhile.\<close>

definition loadEntry :: "dirEntry \<Rightarrow> segIndex \<Rightarrow> segIndex" where
  "loadEntry e ix =
     (if entDir e \<or> \<not> isCachedSegName (entName e) then ix
      else (case entInfo e of
              None \<Rightarrow> ix
            | Some (sz, mt) \<Rightarrow>
                if sz \<le> 0 then ix
                else ix\<lparr>idxFiles := AList.update (entName e) \<lparr>segSize = sz, lastUse = mt\<rparr> (idxFiles ix), idxTotal := idxTotal ix + sz\<rparr>))"

definition loadLocked :: "dirEntry list option \<Rightarrow> segIndex \<Rightarrow> segIndex" where
  "loadLocked ents ix =
     (if idxLoaded ix then ix
      else (let ix' = ix\<lparr>idxLoaded := True, idxFiles := []\<rparr>
            in case ents of None \<Rightarrow> ix' | Some es \<Rightarrow> fold loadEntry es ix'))"

text \<open>Reading an absent key of a Go map gives the zero entry.\<close>

definition sizeOf :: "(string \<times> segEntry) list \<Rightarrow> string \<Rightarrow> int" where
  "sizeOf fs n = (case map_of fs n of None \<Rightarrow> 0 | Some e \<Rightarrow> segSize e)"

definition noteSegment :: "dirEntry list option \<Rightarrow> string \<Rightarrow> int \<Rightarrow> int \<Rightarrow> segIndex \<Rightarrow> segIndex" where
  "noteSegment ents filename sz now ix0 =
     (let ix = loadLocked ents ix0
      in ix\<lparr>idxTotal := idxTotal ix + (sz - sizeOf (idxFiles ix) filename),
            idxFiles := AList.update filename \<lparr>segSize = sz, lastUse = now\<rparr> (idxFiles ix)\<rparr>)"

text \<open>The cap: the configured number of bytes, none when negative (0), else derived from the bit rate; the products are
  \<open>int64\<close>.\<close>

definition segmentCacheBytes :: "int \<Rightarrow> int \<Rightarrow> int" where
  "segmentCacheBytes cfgBytes maxrate =
     (if cfgBytes > 0 then cfgBytes
      else if cfgBytes < 0 then 0
      else (let bps = (if maxrate \<le> 0 then legacyMaxrateBps else maxrate)
            in max segCacheMinBytes (i64 (i64 (bps div 8 * segDurSeconds) * segCacheSegments))))"

text \<open>The loop over the candidates, oldest first: \<open>free\<close> tells whether the file's lock is free, \<open>gone\<close> whether removing it
  succeeds (or it does not exist). It gives the files removed, in order.\<close>

fun evictSegs :: "int \<Rightarrow> (string \<Rightarrow> bool) \<Rightarrow> (string \<Rightarrow> bool) \<Rightarrow> string list \<Rightarrow> segIndex \<Rightarrow> string list \<times> segIndex" where
  "evictSegs limit free gone [] ix = ([], ix)"
| "evictSegs limit free gone (n # ns) ix =
     (if idxTotal ix \<le> limit then ([], ix)
      else if \<not> free n \<or> \<not> gone n then evictSegs limit free gone ns ix
      else (case evictSegs limit free gone ns
                   (ix\<lparr>idxTotal := idxTotal ix - sizeOf (idxFiles ix) n, idxFiles := AList.delete n (idxFiles ix)\<rparr>) of
              (rs, ix') \<Rightarrow> (n # rs, ix')))"

definition evictable :: "string \<Rightarrow> int \<Rightarrow> string \<times> segEntry \<Rightarrow> bool" where
  "evictable keep now f \<longleftrightarrow> fst f \<noteq> keep \<and> now - lastUse (snd f) \<ge> segServeGrace"

definition evictSegments :: "((string \<times> segEntry) list \<Rightarrow> (string \<times> segEntry) list) \<Rightarrow> dirEntry list option \<Rightarrow> (string \<Rightarrow> bool) \<Rightarrow>
    (string \<Rightarrow> bool) \<Rightarrow> int \<Rightarrow> string \<Rightarrow> int \<Rightarrow> segIndex \<Rightarrow> string list \<times> segIndex" where
  "evictSegments ord ents free gone limit keep now ix0 =
     (if limit \<le> 0 then ([], ix0)
      else (let ix = loadLocked ents ix0
            in if idxTotal ix \<le> limit then ([], ix)
               else evictSegs limit free gone
                      (map fst (sort_key (lastUse \<circ> snd) (filter (evictable keep now) (rangeOver ord (idxFiles ix))))) ix))"

section \<open>Accounting\<close>

definition bytesOfFiles :: "(string \<times> segEntry) list \<Rightarrow> int" where
  "bytesOfFiles fs = sum_list (map (segSize \<circ> snd) fs)"

definition indexInv :: "segIndex \<Rightarrow> bool" where
  "indexInv ix \<longleftrightarrow> distinct (map fst (idxFiles ix)) \<and> idxTotal ix = bytesOfFiles (idxFiles ix)"

lemma sizeOf_absent: "n \<notin> fst ` set fs \<Longrightarrow> sizeOf fs n = 0"
  by (simp add: sizeOf_def map_of_eq_None_iff [symmetric])

lemma bytes_update: "distinct (map fst fs) \<Longrightarrow> bytesOfFiles (AList.update n e fs) = bytesOfFiles fs - sizeOf fs n + segSize e"
  by (induction fs) (auto simp: bytesOfFiles_def sizeOf_def)

lemma delete_absent: "n \<notin> fst ` set fs \<Longrightarrow> AList.delete n fs = fs"
  by (induction fs) auto

lemma bytes_delete: "distinct (map fst fs) \<Longrightarrow> bytesOfFiles (AList.delete n fs) = bytesOfFiles fs - sizeOf fs n"
  by (induction fs) (auto simp: bytesOfFiles_def sizeOf_def delete_absent)

lemma names_update: "fst ` set (AList.update n e fs) = insert n (fst ` set fs)"
  by (induction fs) auto

lemma loadEntry_names: "fst ` set (idxFiles (loadEntry e ix)) \<subseteq> insert (entName e) (fst ` set (idxFiles ix))"
  by (auto simp: loadEntry_def names_update split: option.split)

lemma loadEntry_inv: "indexInv ix \<Longrightarrow> entName e \<notin> fst ` set (idxFiles ix) \<Longrightarrow> indexInv (loadEntry e ix)"
  by (simp add: loadEntry_def indexInv_def bytes_update sizeOf_absent distinct_update split: option.split)

lemma load_inv:
  "indexInv ix \<Longrightarrow> distinct (map entName es) \<Longrightarrow> set (map entName es) \<inter> fst ` set (idxFiles ix) = {} \<Longrightarrow> indexInv (fold loadEntry es ix)"
proof (induction es arbitrary: ix)
  case (Cons e es)
  have "indexInv (loadEntry e ix)" using Cons.prems by (intro loadEntry_inv) auto
  moreover have "set (map entName es) \<inter> insert (entName e) (fst ` set (idxFiles ix)) = {}" using Cons.prems(2,3) by auto
  then have "set (map entName es) \<inter> fst ` set (idxFiles (loadEntry e ix)) = {}"
    using loadEntry_names [of e ix] by (metis inf_mono subset_empty order_refl)
  ultimately show ?case using Cons.IH Cons.prems(2) by simp
qed simp

definition listing :: "dirEntry list option \<Rightarrow> bool" where
  "listing ents \<longleftrightarrow> (case ents of None \<Rightarrow> True | Some es \<Rightarrow> distinct (map entName es))"

text \<open>Before it is loaded the index is empty, so that loading counts every file once.\<close>

definition indexOk :: "segIndex \<Rightarrow> bool" where
  "indexOk ix \<longleftrightarrow> indexInv ix \<and> (\<not> idxLoaded ix \<longrightarrow> ix = emptyIndex)"

lemma loadEntry_loaded: "idxLoaded (loadEntry e ix) = idxLoaded ix"
  by (simp add: loadEntry_def split: option.split)

lemma fold_loaded: "idxLoaded (fold loadEntry es ix) = idxLoaded ix"
  by (induction es arbitrary: ix) (simp_all add: loadEntry_loaded)

lemma loadLocked_ok:
  assumes "indexOk ix" "listing ents"
  shows "indexOk (loadLocked ents ix)" "idxLoaded (loadLocked ents ix)"
proof -
  have "indexInv (fold loadEntry es (emptyIndex\<lparr>idxLoaded := True, idxFiles := []\<rparr>))" if "distinct (map entName es)" for es
    using that by (intro load_inv) (simp_all add: indexInv_def emptyIndex_def bytesOfFiles_def)
  then show "indexOk (loadLocked ents ix)" "idxLoaded (loadLocked ents ix)"
    using assms by (auto simp: loadLocked_def indexOk_def listing_def indexInv_def emptyIndex_def bytesOfFiles_def fold_loaded Let_def split: option.splits)
qed

section \<open>Eviction\<close>

lemma evictSegs_spec:
  assumes "evictSegs limit free gone ns ix = (rs, ix')" "indexInv ix" "distinct ns"
  shows "indexInv ix' \<and> idxLoaded ix' = idxLoaded ix \<and> idxFiles ix' = filter (\<lambda>f. fst f \<notin> set rs) (idxFiles ix) \<and>
    (\<exists>pre post. ns = pre @ post \<and> rs = filter (\<lambda>n. free n \<and> gone n) pre \<and> (post = [] \<or> idxTotal ix' \<le> limit)) \<and>
    (rs \<noteq> [] \<longrightarrow> idxTotal ix' + sizeOf (idxFiles ix) (last rs) > limit)"
  using assms
proof (induction limit free gone ns ix arbitrary: rs ix' rule: evictSegs.induct)
  case (1 limit free gone ix)
  then show ?case by (auto intro!: filter_True [symmetric])
next
  case (2 limit free gone n ns ix)
  note prems = 2(3-) and ih = 2(1,2)
  consider (fits) "idxTotal ix \<le> limit" | (skip) "idxTotal ix > limit" "\<not> (free n \<and> gone n)" | (take) "idxTotal ix > limit" "free n" "gone n"
    by linarith
  then show ?case
  proof cases
    case fits
    then have e: "rs = []" "ix' = ix" using prems(1) by simp_all
    show ?thesis unfolding e by (intro conjI exI [of _ "[]"] exI [of _ "n # ns"]) (use fits prems(2) in simp_all)
  next
    case skip
    then have e: "evictSegs limit free gone ns ix = (rs, ix')" using prems(1) by auto
    from ih(1) [OF _ _ e prems(2)] skip prems(3) obtain pre post where
      "ns = pre @ post" "rs = filter (\<lambda>n. free n \<and> gone n) pre" "post = [] \<or> idxTotal ix' \<le> limit"
      and r: "indexInv ix' \<and> idxLoaded ix' = idxLoaded ix \<and> idxFiles ix' = filter (\<lambda>f. fst f \<notin> set rs) (idxFiles ix)"
        "rs \<noteq> [] \<longrightarrow> idxTotal ix' + sizeOf (idxFiles ix) (last rs) > limit" by auto
    then have "n # ns = (n # pre) @ post \<and> rs = filter (\<lambda>n. free n \<and> gone n) (n # pre) \<and> (post = [] \<or> idxTotal ix' \<le> limit)"
      using skip by simp
    then show ?thesis using r by blast
  next
    case take
    let ?ix = "ix\<lparr>idxTotal := idxTotal ix - sizeOf (idxFiles ix) n, idxFiles := AList.delete n (idxFiles ix)\<rparr>"
    obtain rs1 where e: "evictSegs limit free gone ns ?ix = (rs1, ix')" and rs: "rs = n # rs1"
      using prems(1) take by (auto split: prod.splits)
    have inv: "indexInv ?ix" using prems(2) by (simp add: indexInv_def bytes_delete distinct_delete)
    from ih(2) [OF _ _ e inv] take prems(3) obtain pre post where
      p: "ns = pre @ post" "rs1 = filter (\<lambda>n. free n \<and> gone n) pre" "post = [] \<or> idxTotal ix' \<le> limit"
      and r: "indexInv ix' \<and> idxLoaded ix' = idxLoaded ix \<and> idxFiles ix' = filter (\<lambda>f. fst f \<notin> set rs1) (AList.delete n (idxFiles ix))"
        "rs1 \<noteq> [] \<longrightarrow> idxTotal ix' + sizeOf (AList.delete n (idxFiles ix)) (last rs1) > limit" by auto
    have "n # ns = (n # pre) @ post \<and> rs = filter (\<lambda>n. free n \<and> gone n) (n # pre) \<and> (post = [] \<or> idxTotal ix' \<le> limit)"
      using take p rs by simp
    moreover have "idxFiles ix' = filter (\<lambda>f. fst f \<notin> set rs) (idxFiles ix)"
      using r(1) rs by (auto simp: AList.delete_eq intro!: filter_cong)
    moreover have "idxTotal ix' + sizeOf (idxFiles ix) (last rs) > limit"
    proof (cases "rs1 = []")
      case True
      then have "idxFiles ix' = AList.delete n (idxFiles ix)" using r(1) by simp
      then have "idxTotal ix' = idxTotal ix - sizeOf (idxFiles ix) n" using r(1) inv by (simp add: indexInv_def)
      then show ?thesis using take(1) rs True by simp
    next
      case False
      have "last rs1 \<in> set ns" using p(1,2) last_in_set [OF False] by auto
      then have "last rs1 \<noteq> n" using prems(3) by auto
      then have "sizeOf (AList.delete n (idxFiles ix)) (last rs1) = sizeOf (idxFiles ix) (last rs1)"
        by (simp add: sizeOf_def delete_conv')
      then show ?thesis using r(2) rs False by simp
    qed
    ultimately show ?thesis using r(1) by blast
  qed
qed

text \<open>Requests use the index one after the other, under its mutex.\<close>

inductive index_step :: "segIndex \<Rightarrow> segIndex \<Rightarrow> bool" where
  ix_note: "listing ents \<Longrightarrow> index_step ix (noteSegment ents n sz now ix)"
| ix_evict: "listing ents \<Longrightarrow> evictSegments ord ents free gone limit keep now ix = (rs, ix') \<Longrightarrow> index_step ix ix'"

lemma evict_names: "mset (map fst (sort_key f (filter P (rangeOver ord fs)))) = mset (map fst (filter P fs))"
  by simp

lemma evict_distinct: "distinct (map fst fs) \<Longrightarrow> distinct (map fst (sort_key f (filter P (rangeOver ord fs))))"
  by (metis distinct_filter evict_names mset_eq_imp_distinct_iff)

interpretation index_sys: inv_system "\<lambda>ix. ix = emptyIndex" index_step indexOk
proof
  fix ix
  show "indexOk ix" if "ix = emptyIndex" using that by (simp add: indexOk_def indexInv_def emptyIndex_def bytesOfFiles_def)
next
  fix ix ix'
  assume ok: "indexOk ix" and "index_step ix ix'"
  from this(2) show "indexOk ix'"
  proof cases
    case (ix_note ents n sz now)
    then show ?thesis using loadLocked_ok [OF ok ix_note(2)]
      by (simp add: noteSegment_def indexOk_def indexInv_def bytes_update distinct_update Let_def)
  next
    case (ix_evict ents ord free gone limit keep now rs)
    note l = loadLocked_ok [OF ok ix_evict(1)]
    let ?ns = "map fst (sort_key (lastUse \<circ> snd) (filter (evictable keep now) (rangeOver ord (idxFiles (loadLocked ents ix)))))"
    have inv: "indexInv (loadLocked ents ix)" using l by (simp add: indexOk_def)
    then have d: "distinct ?ns" by (intro evict_distinct) (simp add: indexInv_def)
    show ?thesis
    proof (cases "limit \<le> 0 \<or> idxTotal (loadLocked ents ix) \<le> limit")
      case True
      then show ?thesis using ix_evict(2) ok l(1) by (auto simp: evictSegments_def Let_def split: if_splits)
    next
      case False
      then have "evictSegs limit free gone ?ns (loadLocked ents ix) = (rs, ix')" using ix_evict(2) by (simp add: evictSegments_def Let_def)
      from evictSegs_spec [OF this inv d] show ?thesis using l(2) by (simp add: indexOk_def)
    qed
  qed
qed

section \<open>Properties\<close>

text \<open>The byte counter of a session's segment cache is exact in every run: it is the sum of the sizes of the indexed
  segments, each indexed once, whether they were found on disk, transcoded, served again or evicted.\<close>

theorem seg_index_accounting:
  assumes "reach (\<lambda>ix. ix = emptyIndex) index_step ix"
  shows "idxTotal ix = sum_list (map (segSize \<circ> snd) (idxFiles ix)) \<and> distinct (map fst (idxFiles ix))"
  using index_sys.reach_inv [OF assms] by (simp add: indexOk_def indexInv_def bytesOfFiles_def)

text \<open>C27: Eviction is least recently used first and never breaks a request: it removes no segment that is about to be served,
  was used within the grace period, or is locked; of the segments it may remove it removes the longest unused ones; it
  stops as soon as the cache fits; and when it ends above the cap, everything left is protected or could not be removed.\<close>

theorem seg_evict_lru:
  assumes "reach (\<lambda>ix. ix = emptyIndex) index_step ix0" "listing ents" "0 < limit"
    and ev: "evictSegments ord ents free gone limit keep now ix0 = (rs, ix')" and ix: "ix = loadLocked ents ix0"
  shows "(\<forall>n \<in> set rs. n \<noteq> keep \<and> free n \<and> gone n \<and> (\<exists>e. map_of (idxFiles ix) n = Some e \<and> now - lastUse e \<ge> segServeGrace)) \<and>
    idxFiles ix' = filter (\<lambda>f. fst f \<notin> set rs) (idxFiles ix) \<and>
    (idxTotal ix' \<le> limit \<or> (\<forall>f \<in> set (idxFiles ix'). \<not> evictable keep now f \<or> \<not> free (fst f) \<or> \<not> gone (fst f))) \<and>
    (\<forall>f \<in> set (idxFiles ix'). evictable keep now f \<and> free (fst f) \<and> gone (fst f) \<longrightarrow>
       (\<forall>g \<in> set (idxFiles ix). fst g \<in> set rs \<longrightarrow> lastUse (snd g) \<le> lastUse (snd f))) \<and>
    (rs \<noteq> [] \<longrightarrow> idxTotal ix' + sizeOf (idxFiles ix) (last rs) > limit)"
proof -
  have ok: "indexOk ix" using loadLocked_ok(1) [OF index_sys.reach_inv [OF assms(1)] assms(2)] by (simp add: ix)
  then have inv: "indexInv ix" and dk: "distinct (map fst (idxFiles ix))" by (simp_all add: indexOk_def indexInv_def)
  show ?thesis
  proof (cases "idxTotal ix \<le> limit")
    case True
    then have "rs = []" "ix' = ix" using ev assms(3) by (simp_all add: evictSegments_def Let_def ix)
    then show ?thesis using True by simp
  next
    case False
    define cs where "cs = sort_key (lastUse \<circ> snd) (filter (evictable keep now) (rangeOver ord (idxFiles ix)))"
    have cset: "set cs = {f \<in> set (idxFiles ix). evictable keep now f}" by (simp add: cs_def)
    have e: "evictSegs limit free gone (map fst cs) ix = (rs, ix')" using ev False assms(3) by (simp add: evictSegments_def Let_def ix cs_def)
    have dc: "distinct (map fst cs)" unfolding cs_def by (rule evict_distinct [OF dk])
    from evictSegs_spec [OF e inv dc] obtain pre post where
      s: "map fst cs = pre @ post" "rs = filter (\<lambda>n. free n \<and> gone n) pre" "post = [] \<or> idxTotal ix' \<le> limit"
      and fs: "idxFiles ix' = filter (\<lambda>f. fst f \<notin> set rs) (idxFiles ix)" and mn: "rs \<noteq> [] \<longrightarrow> idxTotal ix' + sizeOf (idxFiles ix) (last rs) > limit"
      by blast
    obtain cpre cpost where c: "cs = cpre @ cpost" "pre = map fst cpre" "post = map fst cpost" using s(1) by (metis map_eq_append_conv)
    have "sorted (map (lastUse \<circ> snd) (cpre @ cpost))" unfolding c(1) [symmetric] cs_def by (rule sorted_sort_key)
    then have srt: "lastUse (snd g) \<le> lastUse (snd f)" if "g \<in> set cpre" "f \<in> set cpost" for f g
      using that by (auto simp: sorted_append)
    have uniq: "f = g" if "f \<in> set (idxFiles ix)" "g \<in> set (idxFiles ix)" "fst f = fst g" for f g
      using that dk by (metis eq_key_imp_eq_value prod.collapse)
    have late: "f \<in> set cpost" if "f \<in> set (idxFiles ix')" "evictable keep now f" "free (fst f)" "gone (fst f)" for f
    proof -
      have "f \<in> set cs" "fst f \<notin> set rs" using that fs cset by auto
      then show ?thesis using c s(2) that(3,4) by auto
    qed
    have early: "g \<in> set cpre" if g: "g \<in> set (idxFiles ix)" "fst g \<in> set rs" for g
    proof -
      obtain h where h: "h \<in> set cpre" "fst h = fst g" using g(2) s(2) c(2) by auto
      then have "h \<in> set (idxFiles ix)" using c(1) cset by auto
      then show ?thesis using uniq [OF g(1)] h by metis
    qed
    have "n \<noteq> keep \<and> free n \<and> gone n \<and> (\<exists>e. map_of (idxFiles ix) n = Some e \<and> now - lastUse e \<ge> segServeGrace)" if n: "n \<in> set rs" for n
    proof -
      obtain h where h: "h \<in> set cpre" "fst h = n" "free n" "gone n" using n s(2) c(2) by auto
      then have "h \<in> set (idxFiles ix)" "evictable keep now h" using c(1) cset by auto
      then show ?thesis using h dk by (cases h) (auto simp: evictable_def)
    qed
    moreover have "idxTotal ix' \<le> limit \<or> (\<forall>f \<in> set (idxFiles ix'). \<not> evictable keep now f \<or> \<not> free (fst f) \<or> \<not> gone (fst f))"
      using s(3) c(3) late by fastforce
    ultimately show ?thesis using fs mn late early srt by blast
  qed
qed

text \<open>The derived cap never falls below its floor, even where the product of bit rate and length wraps.\<close>

lemma segmentCacheBytes_floor: "cfgBytes = 0 \<Longrightarrow> segCacheMinBytes \<le> segmentCacheBytes cfgBytes maxrate"
  by (simp add: segmentCacheBytes_def Let_def)

section \<open>Witnesses\<close>

definition demoIndex :: segIndex where
  "demoIndex = noteSegment None ''seg2.ts'' 5 100000000000 (noteSegment None ''seg1.ts'' 10 0 (noteSegment None ''seg0.ts'' 7 1 emptyIndex))"

lemma demoIndex_reach: "reach (\<lambda>ix. ix = emptyIndex) index_step demoIndex"
proof -
  have l: "listing None" by (simp add: listing_def)
  have "reach (\<lambda>ix. ix = emptyIndex) index_step emptyIndex" by (rule reach_start) (rule refl)
  from reach_step [OF reach_step [OF reach_step [OF this ix_note [OF l]] ix_note [OF l]] ix_note [OF l]]
  show ?thesis unfolding demoIndex_def by blast
qed

theorem seg_index_accounting_witness: "idxTotal demoIndex = 22 \<and> distinct (map fst (idxFiles demoIndex))"
proof -
  have "map (segSize \<circ> snd) (idxFiles demoIndex) = [7, 10, 5]" by code_simp
  then show ?thesis using seg_index_accounting [OF demoIndex_reach] by simp
qed

theorem seg_evict_lru_witness:
  "evictSegments id None (\<lambda>_. True) (\<lambda>_. True) 12 ''seg2.ts'' 100000000001 demoIndex = ([''seg1.ts''], demoIndex\<lparr>idxFiles := filter (\<lambda>f. fst f \<noteq> ''seg1.ts'') (idxFiles demoIndex), idxTotal := 12\<rparr>) \<and>
   idxTotal (demoIndex\<lparr>idxTotal := 12\<rparr>) + sizeOf (idxFiles demoIndex) ''seg1.ts'' > 12"
proof -
  have e: "evictSegments id None (\<lambda>_. True) (\<lambda>_. True) 12 ''seg2.ts'' 100000000001 demoIndex =
      ([''seg1.ts''], demoIndex\<lparr>idxFiles := filter (\<lambda>f. fst f \<noteq> ''seg1.ts'') (idxFiles demoIndex), idxTotal := 12\<rparr>)" by code_simp
  have l: "loadLocked None demoIndex = demoIndex" by code_simp
  from seg_evict_lru [OF demoIndex_reach _ _ e refl] e show ?thesis by (simp add: listing_def l)
qed

end
