(* ===== verification/Trackers.thy ===== *)
theory Trackers
  imports Hls_Rewrite Proxy_Clients
begin

text \<open>
  The tracker lists of the torrent engine, \<open>engine/trackers.go\<close>: the built-in list, parsing of fetched lists, ranking by
  probe time, the merge with WebSocket trackers, and the refresh that updates the list in memory and its cache on disk.
  The network is a parameter: what a fetch, an HTTP request, a UDP exchange or a WebSocket handshake gives, and the order
  in which concurrent probes answer. Times are nanoseconds.
\<close>

section \<open>Lists\<close>

definition defaultTrackerTopN :: int where "defaultTrackerTopN = 5"
definition probeMaxRTT :: int where "probeMaxRTT = 3600 * 1000000000"

definition embeddedTrackers :: "string list" where
  "embeddedTrackers =
    [''udp://tracker.opentrackr.org:1337/announce'', ''udp://open.demonii.com:1337/announce'',
     ''udp://open.stealth.si:80/announce'', ''udp://tracker.torrent.eu.org:451/announce'',
     ''udp://tracker.dler.org:6969/announce'', ''udp://tracker.qu.ax:6969/announce'',
     ''udp://tracker.filemail.com:6969/announce'', ''udp://tracker.ducks.party:1984/announce'',
     ''udp://tracker.bittor.pw:1337/announce'', ''udp://open.free-tracker.ga:6969/announce'',
     ''udp://explodie.org:6969/announce'',
     ''wss://tracker.openwebtorrent.com'', ''wss://tracker.webtorrent.dev'', ''wss://tracker.btorrent.xyz'']"

definition lineEnd :: char where "lineEnd = CHR 0x0A"

definition isWS :: "string \<Rightarrow> bool" where
  "isWS u \<longleftrightarrow> hasPrefix ''ws://'' u \<or> hasPrefix ''wss://'' u"

definition trackerScheme :: "string \<Rightarrow> bool" where
  "trackerScheme u \<longleftrightarrow> hasPrefix ''udp://'' u \<or> hasPrefix ''http://'' u \<or> hasPrefix ''https://'' u \<or> isWS u"

definition setTrackers :: "string list \<Rightarrow> string list \<Rightarrow> string list" where
  "setTrackers t cur = (if t = [] then cur else t)"

definition parseTrackers :: "string \<Rightarrow> string list" where
  "parseTrackers s = filter (\<lambda>l. l \<noteq> [] \<and> trackerScheme l) (map trimSpace (splitOn lineEnd s))"

definition announceable :: "bool \<Rightarrow> string \<Rightarrow> bool" where
  "announceable allowWS u =
     (let s = map lowerC (trimSpace u)
      in hasPrefix ''http://'' s \<or> hasPrefix ''https://'' s \<or> hasPrefix ''udp://'' s \<or> hasPrefix ''udp4://'' s \<or> hasPrefix ''udp6://'' s \<or>
         (allowWS \<and> isWS s))"

definition announceableTrackers :: "string list \<Rightarrow> bool \<Rightarrow> string list" where
  "announceableTrackers urls allowWS = filter (announceable allowWS) urls"

definition announceableTiers :: "string list list \<Rightarrow> bool \<Rightarrow> string list list" where
  "announceableTiers tiers allowWS = filter (\<lambda>f. f \<noteq> []) (map (\<lambda>t. announceableTrackers t allowWS) tiers)"

text \<open>The loops that copy a list without what was seen before.\<close>

fun fresh :: "string set \<Rightarrow> string list \<Rightarrow> string list" where
  "fresh have1 [] = []"
| "fresh have1 (x # xs) = (if x \<in> have1 then fresh have1 xs else x # fresh (insert x have1) xs)"

definition dedup :: "string list \<Rightarrow> string list" where "dedup t = fresh {} t"

definition mergeWS :: "string list \<Rightarrow> string list" where
  "mergeWS t = fresh {} t @ fresh (set t) (filter isWS embeddedTrackers)"

section \<open>Probes\<close>

text \<open>The BEP 15 connect request and the check of its answer. \<open>exch\<close> sends a datagram and gives the reply (at most 16 bytes
  are read) with the time taken, \<open>None\<close> on any network error.\<close>

definition udpConnectRequest :: "byte list" where
  "udpConnectRequest = be_bytes 8 0x41727101980 @ be_bytes 4 0 @ be_bytes 4 12345"

definition udpReplyOk :: "byte list \<Rightarrow> bool" where
  "udpReplyOk resp \<longleftrightarrow> length resp \<ge> 8 \<and> be_nat (take 4 resp) = 0 \<and> be_nat (take 4 (drop 4 resp)) = 12345"

definition probeTrackerUDP :: "(string \<Rightarrow> byte list \<Rightarrow> (byte list \<times> int) option) \<Rightarrow> string \<Rightarrow> int" where
  "probeTrackerUDP exch rawURL =
     (let hostPort = fst (cutAt (CHR ''/'') (drop (length ''udp://'') rawURL))
      in if hostPort = [] then probeMaxRTT
         else (case exch hostPort udpConnectRequest of
                 None \<Rightarrow> probeMaxRTT
               | Some (resp, rtt) \<Rightarrow> if udpReplyOk (take 16 resp) then rtt else probeMaxRTT))"

text \<open>\<open>http\<close> makes a request and gives the time since the probe started, \<open>None\<close> on an error.\<close>

definition probeTrackerHTTP :: "(string \<Rightarrow> string \<Rightarrow> string \<Rightarrow> int option) \<Rightarrow> string \<Rightarrow> string \<Rightarrow> int" where
  "probeTrackerHTTP http rawURL proxyURL =
     (case http ''HEAD'' rawURL proxyURL of
        Some rtt \<Rightarrow> rtt
      | None \<Rightarrow> (case http ''GET'' rawURL proxyURL of Some rtt \<Rightarrow> rtt | None \<Rightarrow> probeMaxRTT))"

record trackerNet =
  udpExch :: "string \<Rightarrow> byte list \<Rightarrow> (byte list \<times> int) option"
  httpProbe :: "string \<Rightarrow> string \<Rightarrow> string \<Rightarrow> int option"
  wsProbe :: "string \<Rightarrow> bool"
  arrival :: "(string \<times> int) list \<Rightarrow> (string \<times> int) list"
  listFetch :: "string \<Rightarrow> (int \<times> string \<times> bool) option"

definition probeTracker :: "trackerNet \<Rightarrow> string \<Rightarrow> string \<Rightarrow> int" where
  "probeTracker net rawURL proxyURL =
     (if hasPrefix ''udp://'' rawURL then probeTrackerUDP (udpExch net) rawURL
      else if hasPrefix ''http://'' rawURL \<or> hasPrefix ''https://'' rawURL then probeTrackerHTTP (httpProbe net) rawURL proxyURL
      else probeMaxRTT)"

text \<open>The probes answer in any order; sorting is by time, equal times in any order.\<close>

definition rankAndKeep :: "trackerNet \<Rightarrow> string list \<Rightarrow> int \<Rightarrow> string \<Rightarrow> string list" where
  "rankAndKeep net candidates topN proxyURL =
     (let skip = (\<lambda>u. proxyURL \<noteq> [] \<and> hasPrefix ''udp://'' u);
          toProbe = filter (\<lambda>u. \<not> skip u) candidates;
          skippedUDP = filter skip candidates;
          results = sort_key snd (rangeOver (arrival net) (map (\<lambda>u. (u, probeTracker net u proxyURL)) toProbe));
          ranked = map fst (filter (\<lambda>(u, rtt). rtt < probeMaxRTT) results) @ skippedUDP
      in take (nat (min topN (int (length ranked)))) ranked)"

definition rankWSS :: "trackerNet \<Rightarrow> string list \<Rightarrow> string list" where
  "rankWSS net l = filter (wsProbe net) (fresh {} (filter isWS l))"

section \<open>Refresh\<close>

definition fetchTrackerList :: "trackerNet \<Rightarrow> string \<Rightarrow> string list" where
  "fetchTrackerList net rawURL =
     (case listFetch net rawURL of
        None \<Rightarrow> []
      | Some (st, body, fails) \<Rightarrow>
          if st \<noteq> 200 then []
          else if fails \<and> length body < 256 * 1024 then []
          else parseTrackers (take (256 * 1024) body))"

record trackerState =
  currentTrackers :: "string list"
  cacheFile :: "string option"

definition writeCache :: "string list \<Rightarrow> string" where
  "writeCache ranked = joinWith [lineEnd] ranked @ [lineEnd]"

text \<open>\<open>saved\<close> tells whether writing the cache file succeeds; its error is ignored.\<close>

definition doRefreshTrackers :: "trackerNet \<Rightarrow> bool \<Rightarrow> int \<Rightarrow> string \<Rightarrow> string \<Rightarrow> trackerState \<Rightarrow> trackerState" where
  "doRefreshTrackers net saved maxTrackers srcURL proxyURL s =
     (let mx = (if maxTrackers \<le> 0 then defaultTrackerTopN else maxTrackers);
          candidates = fetchTrackerList net srcURL
      in if candidates = [] then s
         else (let wss = filter isWS candidates; probeable = filter (\<lambda>u. \<not> isWS u) candidates;
                   ranked = rankAndKeep net probeable mx proxyURL
               in if ranked = [] then s
                  else (let live = rankWSS net (wss @ filter isWS embeddedTrackers)
                        in s\<lparr>cacheFile := (if saved then Some (writeCache ranked) else cacheFile s),
                             currentTrackers := setTrackers (dedup (ranked @ live)) (currentTrackers s)\<rparr>)))"

text \<open>The synchronous part of \<open>initTrackers\<close>.\<close>

definition loadCache :: "trackerState \<Rightarrow> trackerState" where
  "loadCache s =
     (case cacheFile s of
        None \<Rightarrow> s
      | Some b \<Rightarrow>
          (let t = parseTrackers b
           in if t = [] then s else s\<lparr>currentTrackers := setTrackers (mergeWS t) (currentTrackers s)\<rparr>))"

inductive tracker_step :: "trackerState \<Rightarrow> trackerState \<Rightarrow> bool" where
  tr_init: "tracker_step s (loadCache s)"
| tr_refresh: "tracker_step s (doRefreshTrackers net saved mx src proxyURL s)"
| tr_disk: "tracker_step s (s\<lparr>cacheFile := f\<rparr>)"

section \<open>Parsing\<close>

lemma trimSpace_idem [simp]: "trimSpace (trimSpace s) = trimSpace s"
proof -
  have dd: "dropWhile isSpaceC (dropWhile isSpaceC x) = dropWhile isSpaceC x" for x by (induction x) auto
  define a where "a = dropWhile isSpaceC s"
  define b where "b = rev (dropWhile isSpaceC (rev a))"
  have a: "a = [] \<or> \<not> isSpaceC (hd a)" unfolding a_def by (metis hd_dropWhile)
  have "\<exists>t. a = b @ t" unfolding b_def by (metis rev_append rev_rev_ident takeWhile_dropWhile_id)
  then have "b = [] \<or> hd b = hd a" "b \<noteq> [] \<Longrightarrow> a \<noteq> []" by (cases b; auto)+
  with a have "dropWhile isSpaceC b = b" by (auto simp: dropWhile_eq_self_iff)
  moreover have "dropWhile isSpaceC (rev b) = rev b" unfolding b_def using dd by simp
  ultimately show ?thesis by (simp add: trimSpace_def trimC_def a_def b_def)
qed

text \<open>What a line of a parsed list looks like.\<close>

definition trackerLine :: "string \<Rightarrow> bool" where
  "trackerLine u \<longleftrightarrow> trackerScheme u \<and> trimSpace u = u \<and> lineEnd \<notin> set u"

lemma scheme_ne: "trackerScheme u \<Longrightarrow> u \<noteq> []"
  by (auto simp: trackerScheme_def isWS_def hasPrefix_def)

lemma parseTrackers_lines: "u \<in> set (parseTrackers s) \<Longrightarrow> trackerLine u"
proof -
  assume "u \<in> set (parseTrackers s)"
  then obtain l where l: "l \<in> set (splitOn lineEnd s)" "u = trimSpace l" "trackerScheme u" by (auto simp: parseTrackers_def)
  have "lineEnd \<notin> set u" using splitOn_free [OF l(1)] trimSpace_subset [of l] l(2) by auto
  with l show ?thesis by (simp add: trackerLine_def)
qed

lemma splitOn_trail: "c \<notin> set a \<Longrightarrow> splitOn c (joinWith [c] ls @ [c]) = splitOn c (joinWith [c] ls) @ [[]]" if "ls \<noteq> []" "\<forall>l \<in> set ls. c \<notin> set l" for a
  using that by (induction "[c]" ls rule: joinWith.induct) (simp_all add: splitOn_single splitOn_append)

lemma parse_writeCache:
  assumes "ls \<noteq> []" "\<forall>u \<in> set ls. trackerLine u"
  shows "parseTrackers (writeCache ls) = ls"
proof -
  have nl: "\<forall>l \<in> set ls. lineEnd \<notin> set l" using assms(2) by (auto simp: trackerLine_def)
  have "splitOn lineEnd (writeCache ls) = ls @ [[]]"
    using splitOn_trail [OF assms(1) nl, of "[]"] splitOn_join [OF assms(1) nl] by (simp add: writeCache_def)
  moreover have "map trimSpace ls = ls" using assms(2) by (auto simp: trackerLine_def intro: map_idI)
  moreover have "filter (\<lambda>l. l \<noteq> [] \<and> trackerScheme l) ls = ls"
    using assms(2) scheme_ne by (auto simp: trackerLine_def filter_id_conv)
  moreover have "trimSpace [] = []" by (simp add: trimSpace_def trimC_def)
  ultimately show ?thesis by (simp add: parseTrackers_def)
qed

section \<open>Duplicates\<close>

lemma fresh_set: "set (fresh h xs) = set xs - h"
  by (induction h xs rule: fresh.induct) auto

lemma fresh_distinct: "distinct (fresh h xs)"
  by (induction h xs rule: fresh.induct) (auto simp: fresh_set)

lemmas fresh_facts = fresh_set fresh_distinct

lemma embedded_lines: "\<forall>u \<in> set embeddedTrackers. trackerLine u" "distinct embeddedTrackers" "embeddedTrackers \<noteq> []"
  by code_simp+

lemma dedup_ok: "distinct (dedup t)" "set (dedup t) = set t"
  by (simp_all add: dedup_def fresh_facts)

lemma mergeWS_ok: "distinct (mergeWS t)" "set (mergeWS t) = set t \<union> set (filter isWS embeddedTrackers)"
  by (auto simp: mergeWS_def fresh_facts)

section \<open>Ranking\<close>

abbreviation probed :: "string \<Rightarrow> string \<Rightarrow> bool" where
  "probed proxyURL u \<equiv> \<not> (proxyURL \<noteq> [] \<and> hasPrefix ''udp://'' u)"

definition liveByTime :: "trackerNet \<Rightarrow> string list \<Rightarrow> string \<Rightarrow> string list" where
  "liveByTime net cs p = map fst (filter (\<lambda>(u, rtt). rtt < probeMaxRTT)
     (sort_key snd (rangeOver (arrival net) (map (\<lambda>u. (u, probeTracker net u p)) (filter (probed p) cs)))))"

lemma take_min: "take (nat (min n (int (length xs)))) xs = take (nat n) xs"
  by (cases "n \<le> int (length xs)") simp_all

lemma rankAndKeep_alt:
  "rankAndKeep net cs n p = take (nat n) (liveByTime net cs p @ filter (\<lambda>u. \<not> probed p u) cs)"
  unfolding rankAndKeep_def liveByTime_def Let_def not_not by (rule take_min)

lemma liveByTime_pairs:
  "filter (\<lambda>(u, rtt). rtt < probeMaxRTT)
     (sort_key snd (rangeOver (arrival net) (map (\<lambda>u. (u, probeTracker net u p)) (filter (probed p) cs)))) =
   map (\<lambda>u. (u, probeTracker net u p)) (liveByTime net cs p)" (is "?l = _")
proof -
  have "snd x = probeTracker net (fst x) p" if "x \<in> set ?l" for x using that by auto
  then have "map ((\<lambda>u. (u, probeTracker net u p)) \<circ> fst) ?l = ?l" by (intro map_idI) (simp add: prod_eq_iff)
  then show ?thesis unfolding liveByTime_def map_map by (rule sym)
qed

lemma liveByTime_set: "set (liveByTime net cs p) = {u \<in> set cs. probed p u \<and> probeTracker net u p < probeMaxRTT}"
  by (auto simp: liveByTime_def image_iff)

lemma liveByTime_no_udp:
  assumes "p \<noteq> []"
  shows "liveByTime (net\<lparr>udpExch := f\<rparr>) cs p = liveByTime net cs p"
proof -
  have "map (\<lambda>u. (u, probeTracker (net\<lparr>udpExch := f\<rparr>) u p)) (filter (probed p) cs) =
        map (\<lambda>u. (u, probeTracker net u p)) (filter (probed p) cs)"
    using assms by (auto simp: probeTracker_def)
  moreover have "arrival (net\<lparr>udpExch := f\<rparr>) = arrival net" by simp
  ultimately show ?thesis unfolding liveByTime_def by (simp only:)
qed

lemma sorted_snd_filter: "sorted (map snd xs) \<Longrightarrow> sorted (map snd (filter P xs))"
  by (induction xs) auto

lemma liveByTime_sorted: "sorted (map (\<lambda>u. probeTracker net u p) (liveByTime net cs p))"
proof -
  have "sorted (map snd (map (\<lambda>u. (u, probeTracker net u p)) (liveByTime net cs p)))"
    unfolding liveByTime_pairs [symmetric] by (intro sorted_snd_filter sorted_sort_key)
  then show ?thesis by (simp add: comp_def)
qed

lemma take_sorted_best:
  assumes "sorted (map f xs)" "u \<in> set xs" "u \<notin> set (take n xs)"
  shows "length (take n xs) = n" "v \<in> set (take n xs) \<Longrightarrow> f v \<le> f u"
proof -
  have split: "xs = take n xs @ drop n xs" by simp
  with assms have "u \<in> set (drop n xs)" by (metis Un_iff set_append)
  then show "length (take n xs) = n" by (cases "n \<le> length xs") auto
  assume "v \<in> set (take n xs)"
  moreover have "sorted (map f (take n xs) @ map f (drop n xs))" using assms(1) split by (metis map_append)
  ultimately show "f v \<le> f u" using \<open>u \<in> set (drop n xs)\<close> by (auto simp: sorted_append)
qed

lemma rankAndKeep_set: "set (rankAndKeep net cs n p) \<subseteq> set cs"
  unfolding rankAndKeep_alt using set_take_subset by (fastforce simp: liveByTime_set)

text \<open>C29: 
  The kept list has at most \<open>topN\<close> entries, all of them candidates; none that was probed is dead; the probed ones come first, fastest
  first; and a live tracker that is left out was left out for \<open>topN\<close> trackers that answered at least as fast. With a proxy the result
  does not depend on any UDP exchange.
\<close>
theorem rank_keep_fastest:
  assumes "0 \<le> topN"
  shows "int (length (rankAndKeep net cs topN p)) \<le> topN \<and>
    set (rankAndKeep net cs topN p) \<subseteq> {u \<in> set cs. probed p u \<longrightarrow> probeTracker net u p < probeMaxRTT} \<and>
    (\<exists>k. rankAndKeep net cs topN p = filter (probed p) (rankAndKeep net cs topN p) @ take k (filter (\<lambda>u. \<not> probed p u) cs)) \<and>
    sorted (map (\<lambda>u. probeTracker net u p) (filter (probed p) (rankAndKeep net cs topN p))) \<and>
    (\<forall>u \<in> set cs. probed p u \<and> probeTracker net u p < probeMaxRTT \<and> u \<notin> set (rankAndKeep net cs topN p) \<longrightarrow>
       int (length (rankAndKeep net cs topN p)) = topN \<and>
       (\<forall>v \<in> set (rankAndKeep net cs topN p). probed p v \<and> probeTracker net v p \<le> probeTracker net u p)) \<and>
    (p \<noteq> [] \<longrightarrow> (\<forall>f. rankAndKeep (net\<lparr>udpExch := f\<rparr>) cs topN p = rankAndKeep net cs topN p))"
proof (intro conjI)
  let ?r = "rankAndKeep net cs topN p" and ?L = "liveByTime net cs p" and ?S = "filter (\<lambda>u. \<not> probed p u) cs" and ?n = "nat topN"
  have r: "?r = take ?n ?L @ take (?n - length ?L) ?S" by (simp add: rankAndKeep_alt)
  have L: "u \<in> set ?L \<Longrightarrow> probed p u" for u by (simp add: liveByTime_set)
  have fr: "filter (probed p) ?r = take ?n ?L"
  proof -
    have "filter (probed p) (take ?n ?L) = take ?n ?L" using L by (auto simp: filter_id_conv dest: in_set_takeD)
    moreover have "filter (probed p) (take (?n - length ?L) ?S) = []" by (auto simp: filter_empty_conv dest!: in_set_takeD)
    ultimately show ?thesis unfolding r by (simp only: filter_append append_Nil2)
  qed
  show "int (length ?r) \<le> topN" using assms by (simp add: rankAndKeep_alt)
  show "set ?r \<subseteq> {u \<in> set cs. probed p u \<longrightarrow> probeTracker net u p < probeMaxRTT}"
    unfolding r by (auto dest!: in_set_takeD simp: liveByTime_set)
  show "\<exists>k. ?r = filter (probed p) ?r @ take k ?S" unfolding fr by (rule exI, rule r)
  show "sorted (map (\<lambda>u. probeTracker net u p) (filter (probed p) ?r))"
    unfolding fr take_map [symmetric] by (rule sorted_wrt_take, rule liveByTime_sorted)
  show "\<forall>u \<in> set cs. probed p u \<and> probeTracker net u p < probeMaxRTT \<and> u \<notin> set ?r \<longrightarrow>
       int (length ?r) = topN \<and> (\<forall>v \<in> set ?r. probed p v \<and> probeTracker net v p \<le> probeTracker net u p)"
  proof (intro ballI impI)
    fix u assume u: "u \<in> set cs" and a: "probed p u \<and> probeTracker net u p < probeMaxRTT \<and> u \<notin> set ?r"
    then have uL: "u \<in> set ?L" by (simp add: liveByTime_set)
    have nt: "u \<notin> set (take ?n ?L)" using a unfolding r by simp
    note best = take_sorted_best [OF liveByTime_sorted uL nt]
    then have "?n - length ?L = 0" by simp
    then have rt: "?r = take ?n ?L" unfolding r by simp
    show "int (length ?r) = topN \<and> (\<forall>v \<in> set ?r. probed p v \<and> probeTracker net v p \<le> probeTracker net u p)"
      unfolding rt using best assms L by (auto dest: in_set_takeD)
  qed
  show "p \<noteq> [] \<longrightarrow> (\<forall>f. rankAndKeep (net\<lparr>udpExch := f\<rparr>) cs topN p = ?r)"
    unfolding rankAndKeep_alt using liveByTime_no_udp by (intro impI allI) metis
qed


definition demoNet :: trackerNet where
  "demoNet = \<lparr>udpExch = (\<lambda>h req. if h = ''a:1'' then Some (be_bytes 4 0 @ be_bytes 4 12345, 40) else None),
     httpProbe = (\<lambda>m u p. if u = ''http://b/'' then Some 20 else if u = ''http://c/'' then Some 30 else None),
     wsProbe = (\<lambda>u. u = ''wss://tracker.btorrent.xyz''), arrival = rev,
     listFetch = (\<lambda>u. Some (200, joinWith [lineEnd] [''udp://a:1/announce'', '' http://b/'', ''#x'', ''http://c/'', ''wss://w''], False))\<rparr>"

lemma demo_rank:
  "rankAndKeep demoNet [''udp://a:1/announce'', ''http://c/'', ''udp://d:2'', ''http://b/''] 2 [] = [''http://b/'', ''http://c/'']"
  "rankAndKeep demoNet [''udp://a:1/announce'', ''http://c/'', ''udp://d:2'', ''http://b/''] 3 ''p'' = [''http://b/'', ''http://c/'', ''udp://a:1/announce'']"
  by code_simp+

theorem rank_keep_fastest_witness:
  "sorted (map (\<lambda>u. probeTracker demoNet u []) [''http://b/'', ''http://c/'']) \<and> probeTracker demoNet ''udp://a:1/announce'' [] = 40 \<and>
   rankAndKeep (demoNet\<lparr>udpExch := (\<lambda>h req. None)\<rparr>) [''udp://a:1/announce'', ''http://c/'', ''udp://d:2'', ''http://b/''] 3 ''p'' =
     [''http://b/'', ''http://c/'', ''udp://a:1/announce'']"
proof (intro conjI)
  have "filter (probed []) [''http://b/'', ''http://c/''] = [''http://b/'', ''http://c/'']" by simp
  then show "sorted (map (\<lambda>u. probeTracker demoNet u []) [''http://b/'', ''http://c/''])"
    using rank_keep_fastest [of 2 demoNet "[''udp://a:1/announce'', ''http://c/'', ''udp://d:2'', ''http://b/'']" "[]"]
    unfolding demo_rank by (simp only:)
  show "probeTracker demoNet ''udp://a:1/announce'' [] = 40" by code_simp
  show "rankAndKeep (demoNet\<lparr>udpExch := (\<lambda>h req. None)\<rparr>) [''udp://a:1/announce'', ''http://c/'', ''udp://d:2'', ''http://b/''] 3 ''p'' =
     [''http://b/'', ''http://c/'', ''udp://a:1/announce'']"
    using rank_keep_fastest [of 3 demoNet "[''udp://a:1/announce'', ''http://c/'', ''udp://d:2'', ''http://b/'']" "''p''"]
    unfolding demo_rank by simp
qed

section \<open>The list in memory\<close>

definition trackers_inv :: "trackerState \<Rightarrow> bool" where
  "trackers_inv s \<longleftrightarrow> currentTrackers s \<noteq> [] \<and> distinct (currentTrackers s) \<and> (\<forall>u \<in> set (currentTrackers s). trackerLine u)"

lemma fetchTrackerList_lines: "u \<in> set (fetchTrackerList net src) \<Longrightarrow> trackerLine u"
  by (auto simp: fetchTrackerList_def split: option.splits if_splits dest: parseTrackers_lines)

lemma rankWSS_set: "set (rankWSS net l) \<subseteq> {u \<in> set l. isWS u \<and> wsProbe net u}"
  by (auto simp: rankWSS_def fresh_facts)

text \<open>What a refresh does: nothing, or a new list of ranked and reachable trackers, which it also writes.\<close>

lemma doRefresh_cases:
  obtains (same) "doRefreshTrackers net saved mx src p s = s"
  | (new) ranked live where "ranked \<noteq> []" "\<forall>u \<in> set ranked. trackerLine u \<and> \<not> isWS u" "\<forall>u \<in> set live. trackerLine u \<and> isWS u \<and> wsProbe net u"
    "doRefreshTrackers net saved mx src p s =
       s\<lparr>cacheFile := (if saved then Some (writeCache ranked) else cacheFile s), currentTrackers := dedup (ranked @ live)\<rparr>"
proof -
  define cs where "cs = fetchTrackerList net src"
  define ranked where "ranked = rankAndKeep net (filter (\<lambda>u. \<not> isWS u) cs) (if mx \<le> 0 then defaultTrackerTopN else mx) p"
  define live where "live = rankWSS net (filter isWS cs @ filter isWS embeddedTrackers)"
  have eq: "doRefreshTrackers net saved mx src p s =
      (if cs = [] then s else if ranked = [] then s
       else s\<lparr>cacheFile := (if saved then Some (writeCache ranked) else cacheFile s),
              currentTrackers := setTrackers (dedup (ranked @ live)) (currentTrackers s)\<rparr>)"
    by (simp add: doRefreshTrackers_def Let_def cs_def ranked_def live_def)
  have cl: "\<forall>u \<in> set cs. trackerLine u" unfolding cs_def using fetchTrackerList_lines by blast
  have r: "\<forall>u \<in> set ranked. trackerLine u \<and> \<not> isWS u"
    unfolding ranked_def using cl rankAndKeep_set by fastforce
  have l: "\<forall>u \<in> set live. trackerLine u \<and> isWS u \<and> wsProbe net u"
    unfolding live_def using cl embedded_lines(1) rankWSS_set by fastforce
  consider "cs = [] \<or> ranked = []" | "cs \<noteq> []" "ranked \<noteq> []" by blast
  then show thesis
  proof cases
    case 1 with eq have "doRefreshTrackers net saved mx src p s = s" by auto
    then show ?thesis by (rule same)
  next
    case 2
    have "dedup (ranked @ live) \<noteq> []" using dedup_ok(2) [of "ranked @ live"] 2(2) by auto
    with eq 2 show ?thesis by (intro new [OF 2(2) r l]) (simp add: setTrackers_def)
  qed
qed

lemma loadCache_inv: "trackers_inv s \<Longrightarrow> trackers_inv (loadCache s)"
proof -
  assume inv: "trackers_inv s"
  have "trackers_inv (s\<lparr>currentTrackers := setTrackers (mergeWS t) (currentTrackers s)\<rparr>)" if "t \<noteq> []" "t = parseTrackers b" for t b
  proof -
    have ne: "mergeWS t \<noteq> []" using mergeWS_ok(2) [of t] that(1) by auto
    have "\<forall>u \<in> set (mergeWS t). trackerLine u"
      unfolding mergeWS_ok(2) that(2) using parseTrackers_lines embedded_lines(1) by auto
    with ne mergeWS_ok(1) show ?thesis by (simp add: trackers_inv_def setTrackers_def)
  qed
  with inv show ?thesis by (simp add: loadCache_def Let_def split: option.split)
qed

interpretation tracker_sys: inv_system "\<lambda>s. currentTrackers s = embeddedTrackers" tracker_step trackers_inv
proof unfold_locales
  fix s :: trackerState assume "currentTrackers s = embeddedTrackers"
  then show "trackers_inv s" using embedded_lines by (simp add: trackers_inv_def)
next
  fix s t assume inv: "trackers_inv s" and "tracker_step s t"
  from this(2) show "trackers_inv t"
  proof cases
    case tr_init with inv loadCache_inv show ?thesis by simp
  next
    case (tr_refresh net saved mx src p)
    show ?thesis
    proof (cases rule: doRefresh_cases [of net saved mx src p s])
      case same with inv tr_refresh show ?thesis by simp
    next
      case (new ranked live)
      have "\<forall>u \<in> set (dedup (ranked @ live)). trackerLine u" using new(2,3) by (auto simp: dedup_ok)
      moreover have "dedup (ranked @ live) \<noteq> []" using new(1) dedup_ok(2) [of "ranked @ live"] by auto
      ultimately show ?thesis using tr_refresh new(4) dedup_ok(1) by (simp add: trackers_inv_def)
    qed
  next
    case tr_disk with inv show ?thesis by (simp add: trackers_inv_def)
  qed
qed

lemma prefix_obtain: "hasPrefix p u \<Longrightarrow> \<exists>v. u = p @ v"
  using hasPrefix_split by blast

lemma announceable_line:
  assumes "trackerLine u"
  shows "announceable True u" "announceable False u \<longleftrightarrow> \<not> isWS u"
proof -
  have t: "trimSpace u = u" using assms by (simp add: trackerLine_def)
  have lc: "map lowerC ''udp://'' = ''udp://''" "map lowerC ''http://'' = ''http://''" "map lowerC ''https://'' = ''https://''"
    "map lowerC ''ws://'' = ''ws://''" "map lowerC ''wss://'' = ''wss://''" by code_simp+
  have "\<exists>p \<in> {''udp://'', ''http://'', ''https://'', ''ws://'', ''wss://''}. hasPrefix p u"
    using assms by (simp add: trackerLine_def trackerScheme_def isWS_def)
  then obtain p where p: "p \<in> {''udp://'', ''http://'', ''https://'', ''ws://'', ''wss://''}" and hp: "hasPrefix p u" by (rule bexE)
  obtain v where u: "u = p @ v" using prefix_obtain [OF hp] by (rule exE)
  have "map lowerC p = p" using p lc by blast
  then have lu: "map lowerC u = p @ map lowerC v" unfolding u by (simp only: map_append)
  have ann: "announceable w u =
      (hasPrefix ''http://'' (p @ map lowerC v) \<or> hasPrefix ''https://'' (p @ map lowerC v) \<or> hasPrefix ''udp://'' (p @ map lowerC v) \<or>
       hasPrefix ''udp4://'' (p @ map lowerC v) \<or> hasPrefix ''udp6://'' (p @ map lowerC v) \<or> (w \<and> isWS (p @ map lowerC v)))" for w
    by (simp only: announceable_def t Let_def lu)
  consider "p = ''udp://''" | "p = ''http://''" | "p = ''https://''" | "p = ''ws://''" | "p = ''wss://''" using p by blast
  then have "announceable True u \<and> (announceable False u \<longleftrightarrow> \<not> isWS u)"
    unfolding ann unfolding u isWS_def by cases (simp_all add: hasPrefix_def)
  then show "announceable True u" "announceable False u \<longleftrightarrow> \<not> isWS u" by auto
qed

text \<open>C28: 
  From the built-in list on, whatever the cache file holds and the network answers, the engine has a tracker list that is never empty, has no
  duplicates, and holds only trimmed URLs with a tracker scheme; with WebTorrent on all of them are announced to, with
  WebTorrent off exactly those that are not WebSocket trackers, so the announce client never meets a scheme it cannot serve.
\<close>
theorem trackers_list_ok:
  assumes "reach (\<lambda>s. currentTrackers s = embeddedTrackers) tracker_step s"
  shows "currentTrackers s \<noteq> [] \<and> distinct (currentTrackers s) \<and>
    list_all (\<lambda>u. trackerScheme u \<and> trimSpace u = u) (currentTrackers s) \<and>
    announceableTrackers (currentTrackers s) True = currentTrackers s \<and>
    announceableTrackers (currentTrackers s) False = filter (\<lambda>u. \<not> isWS u) (currentTrackers s)"
proof -
  have inv: "trackers_inv s" by (rule tracker_sys.reach_inv [OF assms])
  then have l: "u \<in> set (currentTrackers s) \<Longrightarrow> trackerLine u" for u by (simp add: trackers_inv_def)
  have "filter (announceable True) (currentTrackers s) = currentTrackers s" using l announceable_line(1) by (simp add: filter_id_conv)
  moreover have "filter (announceable False) (currentTrackers s) = filter (\<lambda>u. \<not> isWS u) (currentTrackers s)"
    using l announceable_line(2) by (intro filter_cong) auto
  ultimately show ?thesis using inv by (auto simp: trackers_inv_def announceableTrackers_def list_all_iff trackerLine_def)
qed

definition demoTrackers :: trackerState where
  "demoTrackers = doRefreshTrackers demoNet True 2 ''http://l/'' [] \<lparr>currentTrackers = embeddedTrackers, cacheFile = None\<rparr>"

lemma demoTrackers_eval:
  "currentTrackers demoTrackers = [''http://b/'', ''http://c/'', ''wss://tracker.btorrent.xyz'']"
  "cacheFile demoTrackers = Some (writeCache [''http://b/'', ''http://c/''])"
  by code_simp+

lemma demoTrackers_reach: "reach (\<lambda>s. currentTrackers s = embeddedTrackers) tracker_step demoTrackers"
  unfolding demoTrackers_def
  by (rule reach_step [where s = "\<lparr>currentTrackers = embeddedTrackers, cacheFile = None\<rparr>"], rule reach_start, simp, rule tr_refresh)

theorem trackers_list_ok_witness:
  "announceableTrackers [''http://b/'', ''http://c/'', ''wss://tracker.btorrent.xyz''] False =
   filter (\<lambda>u. \<not> isWS u) [''http://b/'', ''http://c/'', ''wss://tracker.btorrent.xyz'']"
  using trackers_list_ok [OF demoTrackers_reach] unfolding demoTrackers_eval by blast

text \<open>C30: 
  A refresh that replaces the list and saves it writes a file from which the next start loads the same ranked trackers, in the same
  order, with the built-in WebSocket trackers after them.
\<close>
theorem trackers_persist_roundtrip:
  assumes "doRefreshTrackers net True mx src p s \<noteq> s"
  shows "\<exists>ranked live. ranked \<noteq> [] \<and>
    currentTrackers (doRefreshTrackers net True mx src p s) = dedup (ranked @ live) \<and>
    (\<forall>u \<in> set ranked. \<not> isWS u) \<and> (\<forall>u \<in> set live. isWS u \<and> wsProbe net u) \<and>
    currentTrackers (loadCache (doRefreshTrackers net True mx src p s)) = dedup ranked @ filter isWS embeddedTrackers"
proof (cases rule: doRefresh_cases [of net True mx src p s])
  case same with assms show ?thesis by simp
next
  case (new ranked live)
  have p: "parseTrackers (writeCache ranked) = ranked" using new(1,2) by (intro parse_writeCache) auto
  have "fresh (set ranked) (filter isWS embeddedTrackers) = filter isWS embeddedTrackers"
  proof -
    have fr: "distinct xs \<Longrightarrow> set xs \<inter> h = {} \<Longrightarrow> fresh h xs = xs" for xs h
      by (induction h xs rule: fresh.induct) auto
    show ?thesis using new(2) embedded_lines(2) by (intro fr) auto
  qed
  then have m: "mergeWS ranked = dedup ranked @ filter isWS embeddedTrackers" by (simp add: mergeWS_def dedup_def)
  have "dedup ranked \<noteq> []" using dedup_ok(2) [of ranked] new(1) by auto
  then have "currentTrackers (loadCache (doRefreshTrackers net True mx src p s)) = dedup ranked @ filter isWS embeddedTrackers"
    unfolding new(4) by (simp add: loadCache_def p new(1) m setTrackers_def)
  then show ?thesis using new by (intro exI [of _ ranked] exI [of _ live]) auto
qed

theorem trackers_persist_roundtrip_witness:
  "\<exists>ranked live. ranked \<noteq> [] \<and> currentTrackers demoTrackers = dedup (ranked @ live) \<and>
    (\<forall>u \<in> set ranked. \<not> isWS u) \<and> (\<forall>u \<in> set live. isWS u \<and> wsProbe demoNet u) \<and>
    currentTrackers (loadCache demoTrackers) = dedup ranked @ filter isWS embeddedTrackers"
proof -
  have "cacheFile demoTrackers \<noteq> None" using demoTrackers_eval(2) by simp
  then have "demoTrackers \<noteq> \<lparr>currentTrackers = embeddedTrackers, cacheFile = None\<rparr>" by (metis trackerState.select_convs(2))
  then show ?thesis unfolding demoTrackers_def by (rule trackers_persist_roundtrip)
qed

end
