(* ===== verification/Ftp_Pool.thy ===== *)
theory Ftp_Pool
  imports Proxy_Clients
begin

text \<open>
  The idle pool of FTP control connections and the short-lived answers kept beside it, \<open>ftpstream/pool.go\<close>. The maps are association
  lists; the order in which a loop ranges over one is the parameter \<open>ord\<close>. Each critical section is one function; the sessions
  it returns for discarding are torn down after the lock is released. Times are nanoseconds.
\<close>

section \<open>Constants and data\<close>

definition ftpPoolTTL :: int where "ftpPoolTTL = 30 * 1000000000"
definition ftpPoolMaxIdle :: int where "ftpPoolMaxIdle = 8"
definition ftpPoolMaxPerKey :: nat where "ftpPoolMaxPerKey = 2"
definition ftpSizeTTL :: int where "ftpSizeTTL = 15 * 1000000000"
definition ftpSizeMaxEntries :: nat where "ftpSizeMaxEntries = 256"
definition preflightTTL :: int where "preflightTTL = 30 * 1000000000"
definition preflightMaxEntries :: nat where "preflightMaxEntries = 256"

record ftpPoolKey =
  pkAddr :: string
  pkUser :: string
  pkPassSum :: "byte list"
  pkTls :: bool
  pkAllowPrivate :: bool

text \<open>What the pool reads of a session: an identity for the pointer, the key, and when it was parked.\<close>

record poolSession =
  sid :: nat
  skey :: ftpPoolKey
  idleSince :: int

type_synonym idleMap = "(ftpPoolKey \<times> poolSession list) list"

record ftpPoolState =
  ftpPool :: idleMap
  ftpPoolIdle :: int

definition idleOf :: "idleMap \<Rightarrow> ftpPoolKey \<Rightarrow> poolSession list" where
  "idleOf m k = (case map_of m k of None \<Rightarrow> [] | Some l \<Rightarrow> l)"

definition putIdle :: "ftpPoolKey \<Rightarrow> poolSession list \<Rightarrow> idleMap \<Rightarrow> idleMap" where
  "putIdle k l m = (if l = [] then AList.delete k m else AList.update k l m)"

abbreviation poolExpired :: "int \<Rightarrow> poolSession \<Rightarrow> bool" where
  "poolExpired now s \<equiv> now - idleSince s \<ge> ftpPoolTTL"

section \<open>The pool\<close>

function popIdle :: "int \<Rightarrow> poolSession list \<Rightarrow> int \<Rightarrow> poolSession option \<times> poolSession list \<times> poolSession list \<times> int" where
  "popIdle now idle n =
     (if idle = [] then (None, [], [], n)
      else let s = last idle; rest = butlast idle
           in if poolExpired now s
              then (case popIdle now rest (n - 1) of (got, left, expired, n') \<Rightarrow> (got, left, s # expired, n'))
              else (Some s, rest, [], n - 1))"
  by pat_completeness auto
termination popIdle by (relation "measure (\<lambda>(now, idle, n). length idle)") auto

declare popIdle.simps [simp del]

definition ftpPoolGet :: "int \<Rightarrow> ftpPoolKey \<Rightarrow> ftpPoolState \<Rightarrow> poolSession option \<times> poolSession list \<times> ftpPoolState" where
  "ftpPoolGet now key P =
     (case popIdle now (idleOf (ftpPool P) key) (ftpPoolIdle P) of
        (got, idle, expired, n) \<Rightarrow> (got, expired, P\<lparr>ftpPool := putIdle key idle (ftpPool P), ftpPoolIdle := n\<rparr>))"

definition oldestKey :: "(idleMap \<Rightarrow> idleMap) \<Rightarrow> idleMap \<Rightarrow> ftpPoolKey option" where
  "oldestKey ord m = map_option fst (soonest (\<lambda>l. idleSince (hd l)) (filter (\<lambda>(k, l). l \<noteq> []) (rangeOver ord m)) None)"

function evictOldest :: "(idleMap \<Rightarrow> idleMap) \<Rightarrow> idleMap \<Rightarrow> int \<Rightarrow> poolSession list \<times> idleMap \<times> int" where
  "evictOldest ord m n =
     (if n \<ge> ftpPoolMaxIdle then
        (case oldestKey ord m of
           None \<Rightarrow> ([], m, n)
         | Some k \<Rightarrow> (let idle = idleOf m k
                     in case evictOldest ord (putIdle k (tl idle) m) (n - 1) of (ev, m', n') \<Rightarrow> (hd idle # ev, m', n')))
      else ([], m, n))"
  by pat_completeness auto
termination evictOldest by (relation "measure (\<lambda>(ord, m, n). nat n)") (auto simp: ftpPoolMaxIdle_def)

declare evictOldest.simps [simp del]

text \<open>\<open>now\<close> is the clock read under the lock.\<close>

definition ftpPoolPut :: "(idleMap \<Rightarrow> idleMap) \<Rightarrow> int \<Rightarrow> poolSession \<Rightarrow> ftpPoolState \<Rightarrow> poolSession list \<times> ftpPoolState" where
  "ftpPoolPut ord now s P =
     (let idle = idleOf (ftpPool P) (skey s);
          full = length idle \<ge> ftpPoolMaxPerKey;
          m1 = (if full then AList.update (skey s) (tl idle) (ftpPool P) else ftpPool P);
          n1 = (if full then ftpPoolIdle P - 1 else ftpPoolIdle P)
      in case evictOldest ord m1 n1 of
           (ev, m2, n2) \<Rightarrow> ((if full then [hd idle] else []) @ ev,
             P\<lparr>ftpPool := AList.update (skey s) (idleOf m2 (skey s) @ [s\<lparr>idleSince := now\<rparr>]) m2, ftpPoolIdle := n2 + 1\<rparr>))"

definition ftpPoolEvict :: "(idleMap \<Rightarrow> idleMap) \<Rightarrow> int \<Rightarrow> ftpPoolState \<Rightarrow> poolSession list \<times> ftpPoolState" where
  "ftpPoolEvict ord now P =
     (let expired = concat (map (\<lambda>(k, l). filter (poolExpired now) l) (rangeOver ord (ftpPool P)));
          kept = filter (\<lambda>(k, l). l \<noteq> []) (map (\<lambda>(k, l). (k, filter (\<lambda>s. \<not> poolExpired now s) l)) (ftpPool P))
      in (expired, P\<lparr>ftpPool := kept, ftpPoolIdle := ftpPoolIdle P - int (length expired)\<rparr>))"

section \<open>Sizes and pre-flight verdicts\<close>

record ftpSizeKey =
  szAddr :: string
  szUser :: string
  szPath :: string

record preflightKey =
  pfHost :: string
  pfBlockPrivate :: bool

record 'v metaEntry =
  metaVal :: 'v
  metaExpires :: int

fun dropTo :: "nat \<Rightarrow> 'k list \<Rightarrow> ('k \<times> 'v) list \<Rightarrow> ('k \<times> 'v) list" where
  "dropTo cap [] m = m"
| "dropTo cap (k # ks) m = (if length m < cap then m else dropTo cap ks (AList.delete k m))"

definition liveMeta :: "int \<Rightarrow> ('k \<times> 'v metaEntry) list \<Rightarrow> ('k \<times> 'v metaEntry) list" where
  "liveMeta now m = filter (\<lambda>(k, e). now < metaExpires e) m"

text \<open>Expired entries go first, then arbitrary ones until there is room.\<close>

definition trimLocked :: "(('k \<times> 'v metaEntry) list \<Rightarrow> ('k \<times> 'v metaEntry) list) \<Rightarrow> nat \<Rightarrow> int \<Rightarrow> ('k \<times> 'v metaEntry) list \<Rightarrow> ('k \<times> 'v metaEntry) list" where
  "trimLocked ord cap now m = dropTo cap (map fst (rangeOver ord (liveMeta now m))) (liveMeta now m)"

definition metaGet :: "int \<Rightarrow> 'k \<Rightarrow> ('k \<times> 'v metaEntry) list \<Rightarrow> 'v option" where
  "metaGet now k m = (case map_of m k of None \<Rightarrow> None | Some e \<Rightarrow> if \<not> now < metaExpires e then None else Some (metaVal e))"

definition metaPut :: "(('k \<times> 'v metaEntry) list \<Rightarrow> ('k \<times> 'v metaEntry) list) \<Rightarrow> nat \<Rightarrow> int \<Rightarrow> int \<Rightarrow> 'k \<Rightarrow> 'v \<Rightarrow>
    ('k \<times> 'v metaEntry) list \<Rightarrow> ('k \<times> 'v metaEntry) list" where
  "metaPut ord cap ttl now k v m =
     AList.update k \<lparr>metaVal = v, metaExpires = now + ttl\<rparr>
       (if k \<notin> fst ` set m \<and> length m \<ge> cap then trimLocked ord cap now m else m)"

record ftpMeta =
  ftpSizes :: "(ftpSizeKey \<times> int metaEntry) list"
  preflights :: "(preflightKey \<times> guard_err option metaEntry) list"

definition ftpSizeGet :: "int \<Rightarrow> ftpSizeKey \<Rightarrow> ftpMeta \<Rightarrow> int \<times> bool" where
  "ftpSizeGet now k M = (case metaGet now k (ftpSizes M) of None \<Rightarrow> (-1, False) | Some n \<Rightarrow> (n, True))"

definition ftpSizePut :: "((ftpSizeKey \<times> int metaEntry) list \<Rightarrow> (ftpSizeKey \<times> int metaEntry) list) \<Rightarrow> int \<Rightarrow> ftpSizeKey \<Rightarrow> int \<Rightarrow> ftpMeta \<Rightarrow> ftpMeta" where
  "ftpSizePut ord now k n M = M\<lparr>ftpSizes := metaPut ord ftpSizeMaxEntries ftpSizeTTL now k n (ftpSizes M)\<rparr>"

definition ftpSizeForget :: "ftpSizeKey \<Rightarrow> ftpMeta \<Rightarrow> ftpMeta" where
  "ftpSizeForget k M = M\<lparr>ftpSizes := AList.delete k (ftpSizes M)\<rparr>"

text \<open>A verdict is the error, if any; the outer option tells a hit from a miss.\<close>

definition preflightGet :: "int \<Rightarrow> preflightKey \<Rightarrow> ftpMeta \<Rightarrow> guard_err option option" where
  "preflightGet now k M = metaGet now k (preflights M)"

definition preflightPut :: "((preflightKey \<times> guard_err option metaEntry) list \<Rightarrow> (preflightKey \<times> guard_err option metaEntry) list) \<Rightarrow>
    int \<Rightarrow> preflightKey \<Rightarrow> guard_err option \<Rightarrow> ftpMeta \<Rightarrow> ftpMeta" where
  "preflightPut ord now k v M = M\<lparr>preflights := metaPut ord preflightMaxEntries preflightTTL now k v (preflights M)\<rparr>"

definition ftpMetaEvict :: "int \<Rightarrow> ftpMeta \<Rightarrow> ftpMeta" where
  "ftpMetaEvict now M = M\<lparr>ftpSizes := liveMeta now (ftpSizes M), preflights := liveMeta now (preflights M)\<rparr>"

section \<open>Replies\<close>

text \<open>An error is the chain of values \<open>errors.As\<close> walks, outermost first.\<close>

datatype errNode = TextErr int | DataDialErr | OtherErr string
type_synonym ftpErr = "errNode list"

fun asTextErr :: "ftpErr \<Rightarrow> int option" where
  "asTextErr [] = None"
| "asTextErr (TextErr c # es) = Some c"
| "asTextErr (_ # es) = asTextErr es"

definition ftpReplySynced :: "ftpErr option \<Rightarrow> bool" where
  "ftpReplySynced oe = (case oe of None \<Rightarrow> True | Some e \<Rightarrow> (case asTextErr e of None \<Rightarrow> False | Some c \<Rightarrow> c \<ge> 200 \<and> c \<noteq> 421))"

definition ftpReplyRefused :: "ftpErr \<Rightarrow> bool" where
  "ftpReplyRefused e = (case asTextErr e of None \<Rightarrow> False | Some c \<Rightarrow> if c \<in> {421, 530, 532} then False else c \<ge> 400)"

definition ftpSessionHealthy :: "ftpErr \<Rightarrow> bool" where
  "ftpSessionHealthy e \<longleftrightarrow> ftpReplyRefused e \<or> DataDialErr \<in> set e"

section \<open>The sessions of a pool\<close>

definition sessionsOf :: "idleMap \<Rightarrow> poolSession multiset" where
  "sessionsOf m = mset (concat (map snd m))"

lemma sessions_Cons: "sessionsOf (x # m) = mset (snd x) + sessionsOf m"
  by (simp add: sessionsOf_def)

lemma idleOf_Cons: "idleOf (x # m) k = (if fst x = k then snd x else idleOf m k)"
  by (simp add: idleOf_def)

lemma idleOf_absent: "k \<notin> fst ` set m \<Longrightarrow> idleOf m k = []"
  by (simp add: idleOf_def map_of_eq_None_iff [THEN iffD2])

lemma idleOf_mem: "distinct (map fst m) \<Longrightarrow> (k, l) \<in> set m \<Longrightarrow> idleOf m k = l"
  by (simp add: idleOf_def)

lemma idleOf_in: "idleOf m k \<noteq> [] \<Longrightarrow> (k, idleOf m k) \<in> set m"
  by (auto simp: idleOf_def dest: map_of_SomeD split: option.splits)

lemma sessions_update: "distinct (map fst m) \<Longrightarrow> sessionsOf (AList.update k l m) + mset (idleOf m k) = sessionsOf m + mset l"
proof (induction m)
  case Nil then show ?case by (simp add: sessionsOf_def idleOf_def)
next
  case (Cons x m)
  then show ?case by (cases "fst x = k") (auto simp: sessions_Cons idleOf_Cons idleOf_absent)
qed

lemma delete_none: "k \<notin> fst ` set m \<Longrightarrow> AList.delete k m = m"
  by (induction m) auto

lemma sessions_delete: "distinct (map fst m) \<Longrightarrow> sessionsOf (AList.delete k m) + mset (idleOf m k) = sessionsOf m"
proof (induction m)
  case Nil then show ?case by (simp add: sessionsOf_def idleOf_def)
next
  case (Cons x m)
  then show ?case by (cases "fst x = k") (auto simp: sessions_Cons idleOf_Cons delete_none)
qed

lemma sessions_putIdle: "distinct (map fst m) \<Longrightarrow> sessionsOf (putIdle k l m) + mset (idleOf m k) = sessionsOf m + mset l"
  by (simp add: putIdle_def sessions_update sessions_delete)

lemma idleOf_update: "idleOf (AList.update k l m) k' = (if k' = k then l else idleOf m k')"
  by (simp add: idleOf_def AList.update_conv')

lemma idleOf_delete: "idleOf (AList.delete k m) k' = (if k' = k then [] else idleOf m k')"
  by (simp add: idleOf_def AList.delete_conv' restrict_map_def)

lemma idleOf_putIdle: "idleOf (putIdle k l m) k' = (if k' = k then l else idleOf m k')"
  by (simp add: putIdle_def idleOf_update idleOf_delete)

lemma putIdle_distinct: "distinct (map fst m) \<Longrightarrow> distinct (map fst (putIdle k l m))"
  by (simp add: putIdle_def distinct_update distinct_delete)

lemma putIdle_ne: "\<forall>x \<in> set m. snd x \<noteq> [] \<Longrightarrow> \<forall>x \<in> set (putIdle k l m). snd x \<noteq> []"
  using update_set [of k l m] by (auto simp: putIdle_def dest: delete_set)

lemma sessions_mem: "distinct (map fst m) \<Longrightarrow> s \<in># sessionsOf m \<longleftrightarrow> (\<exists>k. s \<in> set (idleOf m k))"
proof (induction m)
  case Nil then show ?case by (simp add: sessionsOf_def idleOf_def)
next
  case (Cons x m)
  have ne: "s \<in> set (idleOf m k) \<Longrightarrow> k \<noteq> fst x" for k using Cons.prems idleOf_absent [of k m] by auto
  have "s \<in># sessionsOf m \<longleftrightarrow> (\<exists>k. s \<in> set (idleOf m k))" using Cons by simp
  then have "s \<in># sessionsOf (x # m) \<longleftrightarrow> s \<in> set (snd x) \<or> (\<exists>k. s \<in> set (idleOf m k))" by (simp add: sessions_Cons)
  also have "\<dots> \<longleftrightarrow> (\<exists>k. s \<in> set (idleOf (x # m) k))"
  proof
    assume "s \<in> set (snd x) \<or> (\<exists>k. s \<in> set (idleOf m k))"
    then show "\<exists>k. s \<in> set (idleOf (x # m) k)"
    proof
      assume "s \<in> set (snd x)" then show ?thesis by (intro exI [of _ "fst x"]) (simp add: idleOf_Cons)
    next
      assume "\<exists>k. s \<in> set (idleOf m k)"
      then obtain k where k: "s \<in> set (idleOf m k)" ..
      with ne [OF k] show ?thesis by (intro exI [of _ k]) (simp add: idleOf_Cons)
    qed
  next
    assume "\<exists>k. s \<in> set (idleOf (x # m) k)"
    then obtain k where "s \<in> set (idleOf (x # m) k)" ..
    then show "s \<in> set (snd x) \<or> (\<exists>k. s \<in> set (idleOf m k))" by (cases "fst x = k") (auto simp: idleOf_Cons)
  qed
  finally show ?case .
qed

text \<open>The well-formed pools: each session under its own key, no more than two to a key, oldest first.\<close>

definition wf_idle :: "idleMap \<Rightarrow> bool" where
  "wf_idle m \<longleftrightarrow> distinct (map fst m) \<and> (\<forall>x \<in> set m. snd x \<noteq> []) \<and>
     (\<forall>k. length (idleOf m k) \<le> ftpPoolMaxPerKey \<and> sorted (map idleSince (idleOf m k)) \<and> (\<forall>s \<in> set (idleOf m k). skey s = k))"

definition pool_inv :: "int \<Rightarrow> ftpPoolState \<Rightarrow> bool" where
  "pool_inv clock P \<longleftrightarrow> wf_idle (ftpPool P) \<and> ftpPoolIdle P = int (size (sessionsOf (ftpPool P))) \<and>
     ftpPoolIdle P \<le> ftpPoolMaxIdle \<and> (\<forall>s. s \<in># sessionsOf (ftpPool P) \<longrightarrow> idleSince s \<le> clock)"

lemma wf_putIdle:
  assumes "wf_idle m" "length l \<le> ftpPoolMaxPerKey" "sorted (map idleSince l)" "\<forall>s \<in> set l. skey s = k"
  shows "wf_idle (putIdle k l m)"
proof -
  have "\<forall>x \<in> set (putIdle k l m). snd x \<noteq> []" using assms(1) by (intro putIdle_ne) (simp add: wf_idle_def)
  with assms show ?thesis unfolding wf_idle_def idleOf_putIdle by (simp add: putIdle_distinct)
qed

lemma pool_inv_wf: "pool_inv clock P \<Longrightarrow> wf_idle (ftpPool P)" "wf_idle m \<Longrightarrow> distinct (map fst m)"
  by (simp_all add: pool_inv_def wf_idle_def)

section \<open>Taking a session\<close>

lemma popIdle_spec:
  assumes "popIdle now idle n = (got, left, ex, n')"
  shows "idle = left @ (case got of None \<Rightarrow> [] | Some s \<Rightarrow> [s]) @ rev ex \<and> n' = n - int (length idle - length left) \<and>
    list_all (poolExpired now) ex \<and> (case got of None \<Rightarrow> left = [] | Some s \<Rightarrow> \<not> poolExpired now s)"
  using assms
proof (induction now idle n arbitrary: got left ex n' rule: popIdle.induct)
  case (1 now idle n)
  note prems = 1(2) and ih = 1(1)
  consider (empty) "idle = []" | (fresh) "idle \<noteq> []" "\<not> poolExpired now (last idle)" | (old) "idle \<noteq> []" "poolExpired now (last idle)" by blast
  then show ?case
  proof cases
    case empty then show ?thesis using prems by (auto simp: popIdle.simps [of now "[]"])
  next
    case fresh
    then have "length idle \<ge> 1" by (simp add: Suc_le_eq)
    with fresh show ?thesis using prems by (auto simp: popIdle.simps [of now idle] Let_def of_nat_diff)
  next
    case old
    obtain g l x m where r: "popIdle now (butlast idle) (n - 1) = (g, l, x, m)" by (cases "popIdle now (butlast idle) (n - 1)") auto
    have eq: "got = g" "left = l" "ex = last idle # x" "n' = m" using prems old r by (simp_all add: popIdle.simps [of now idle] Let_def)
    note h = ih [OF old(1) refl refl old(2) r]
    have split: "idle = butlast idle @ [last idle]" using old(1) by simp
    have "butlast idle = l @ (case g of None \<Rightarrow> [] | Some s \<Rightarrow> [s]) @ rev x" using h by blast
    then have "idle = l @ (case g of None \<Rightarrow> [] | Some s \<Rightarrow> [s]) @ rev (last idle # x)" by (subst split) simp
    moreover have "length l \<le> length (butlast idle)" using h by (metis le_add1 length_append)
    moreover have "length idle = Suc (length (butlast idle))" using old(1) by simp
    moreover have "m = n - 1 - int (length (butlast idle) - length l)" using h by blast
    ultimately have "idle = l @ (case g of None \<Rightarrow> [] | Some s \<Rightarrow> [s]) @ rev (last idle # x)" "m = n - int (length idle - length l)"
      by (simp_all only: of_nat_diff Suc_diff_le)
    then show ?thesis using h old(2) unfolding eq by simp
  qed
qed

lemma popIdle_sorted:
  assumes "sorted (map idleSince idle)"
  shows "popIdle now idle n =
    (if idle \<noteq> [] \<and> \<not> poolExpired now (last idle) then (Some (last idle), butlast idle, [], n - 1) else (None, [], rev idle, n - int (length idle)))"
proof (cases "idle \<noteq> [] \<and> \<not> poolExpired now (last idle)")
  case True then show ?thesis by (simp add: popIdle.simps [of now idle] Let_def)
next
  case False
  obtain g l x m where r: "popIdle now idle n = (g, l, x, m)" by (cases "popIdle now idle n") auto
  note h = popIdle_spec [OF r]
  have old: "poolExpired now s" if "s \<in> set idle" for s
  proof -
    have "idle = butlast idle @ [last idle]" using that by (cases idle rule: rev_cases) auto
    then have "sorted (map idleSince (butlast idle) @ [idleSince (last idle)])" using assms by (metis list.simps(8,9) map_append)
    moreover have "s \<in> set (butlast idle) \<or> s = last idle" using that by (cases idle rule: rev_cases) auto
    ultimately have "idleSince s \<le> idleSince (last idle)" by (auto simp: sorted_append)
    with False that show ?thesis by auto
  qed
  have "g = None"
  proof (cases g)
    case (Some s)
    then have "s \<in> set idle" "\<not> poolExpired now s" using h by auto
    with old show ?thesis by blast
  qed simp
  with h r False show ?thesis by auto
qed

lemma size_split: "A + B = C + D \<Longrightarrow> size A = size C + size D - size (B :: 'a multiset)"
  by (metis diff_add_inverse2 size_union)

text \<open>
  Taking a session from a well-formed pool: it gives the session of that key that was parked last, if that one has been idle
  for less than the limit, and takes exactly it out of the pool; otherwise every session of the key is too old, all of them are
  handed over to be closed, and none is given. Other keys are left alone.
\<close>
lemma ftpPoolGet_spec:
  assumes "pool_inv clock P" "ftpPoolGet now key P = (got, expired, P')"
  shows "(case got of
      Some s \<Rightarrow> s \<in># sessionsOf (ftpPool P) \<and> skey s = key \<and> \<not> poolExpired now s \<and> expired = [] \<and>
               idleOf (ftpPool P) key = idleOf (ftpPool P') key @ [s]
    | None \<Rightarrow> list_all (poolExpired now) (idleOf (ftpPool P) key) \<and> expired = rev (idleOf (ftpPool P) key) \<and> idleOf (ftpPool P') key = []) \<and>
    (\<forall>k. k = key \<or> idleOf (ftpPool P') k = idleOf (ftpPool P) k) \<and> pool_inv clock P'"
proof -
  let ?l = "idleOf (ftpPool P) key"
  have wf: "wf_idle (ftpPool P)" and d: "distinct (map fst (ftpPool P))" 
    using pool_inv_wf(1) [OF assms(1)] pool_inv_wf(2) by auto
  have sk: "skey s = key" if "s \<in> set ?l" for s using wf that by (simp add: wf_idle_def)
  have srt: "sorted (map idleSince ?l)" "length ?l \<le> ftpPoolMaxPerKey" using wf by (simp_all add: wf_idle_def)
  obtain g rest x n where p: "popIdle now ?l (ftpPoolIdle P) = (g, rest, x, n)" by (cases "popIdle now ?l (ftpPoolIdle P)") auto
  have r: "got = g" "expired = x" "P' = P\<lparr>ftpPool := putIdle key rest (ftpPool P), ftpPoolIdle := n\<rparr>"
    using assms(2) p by (simp_all add: ftpPoolGet_def)
  note h = popIdle_spec [OF p]
  have pre: "\<exists>t. ?l = rest @ t" using h by blast
  then have rl: "set rest \<subseteq> set ?l" "length rest \<le> length ?l" "sorted (map idleSince rest)"
    using srt(1) by (auto simp: sorted_append)
  have ss: "sessionsOf (ftpPool P') + mset ?l = sessionsOf (ftpPool P) + mset rest" unfolding r using sessions_putIdle [OF d] by simp
  have sub: "s \<in># sessionsOf (ftpPool P') \<Longrightarrow> s \<in># sessionsOf (ftpPool P)" for s
  proof -
    have "mset rest \<subseteq># mset ?l" using pre by auto
    then have "sessionsOf (ftpPool P') \<subseteq># sessionsOf (ftpPool P)" using ss
      by (metis subset_mset.add_le_cancel_right subset_mset.add_left_mono)
    then show "s \<in># sessionsOf (ftpPool P') \<Longrightarrow> s \<in># sessionsOf (ftpPool P)" by (rule mset_subset_eqD)
  qed
  have "wf_idle (ftpPool P')" unfolding r using wf_putIdle [OF wf] rl srt(2) sk by (auto simp: subset_iff)
  moreover have "ftpPoolIdle P' = int (size (sessionsOf (ftpPool P')))" "ftpPoolIdle P' \<le> ftpPoolMaxIdle"
    using arg_cong [OF ss, of size] h assms(1) rl(2) unfolding r by (simp_all add: pool_inv_def of_nat_diff)
  ultimately have inv: "pool_inv clock P'" using assms(1) sub by (simp add: pool_inv_def)
  have keep: "\<forall>k. k = key \<or> idleOf (ftpPool P') k = idleOf (ftpPool P) k" unfolding r by (simp add: idleOf_putIdle)
  have here: "idleOf (ftpPool P') key = rest" unfolding r by (simp add: idleOf_putIdle)
  note e = popIdle_sorted [OF srt(1), of now "ftpPoolIdle P"]
  show ?thesis
  proof (cases "?l \<noteq> [] \<and> \<not> poolExpired now (last ?l)")
    case True
    then have "g = Some (last ?l)" "rest = butlast ?l" "x = []" using p e by simp_all
    moreover have "last ?l \<in># sessionsOf (ftpPool P)" using sessions_mem [OF d] True last_in_set by blast
    ultimately show ?thesis using True sk inv keep here unfolding r(1,2) by simp
  next
    case False
    then have g: "g = None" "rest = []" "x = rev ?l" using p e by auto
    then have "list_all (poolExpired now) ?l" using h by (simp add: list_all_iff)
    with g show ?thesis using inv keep here unfolding r(1,2) by simp
  qed
qed

section \<open>Parking a session\<close>

lemma size_pos_idle: "size (sessionsOf m) > 0 \<Longrightarrow> \<exists>x \<in> set m. snd x \<noteq> []"
  by (induction m) (auto simp: sessions_Cons sessionsOf_def)

lemma wf_hd_oldest:
  assumes "wf_idle m" "s \<in> set (idleOf m k)"
  shows "idleSince (hd (idleOf m k)) \<le> idleSince s"
proof -
  have "sorted (map idleSince (idleOf m k))" using assms(1) by (simp add: wf_idle_def)
  then show ?thesis using assms(2) by (cases "idleOf m k") auto
qed

lemma oldestKey_spec:
  assumes "wf_idle m" "size (sessionsOf m) > 0"
  obtains k where "oldestKey ord m = Some k" "idleOf m k \<noteq> []" "\<forall>s. s \<in># sessionsOf m \<longrightarrow> idleSince (hd (idleOf m k)) \<le> idleSince s"
proof -
  let ?c = "filter (\<lambda>(k, l). l \<noteq> []) (rangeOver ord m)"
  have d: "distinct (map fst m)" using assms(1) by (rule pool_inv_wf(2))
  have "?c \<noteq> []" using size_pos_idle [OF assms(2)] by (fastforce simp: filter_empty_conv)
  then obtain x where x: "soonest (\<lambda>l. idleSince (hd l)) ?c None = Some x"
    using soonest_None [of "\<lambda>l. idleSince (hd l)" ?c] by (cases "soonest (\<lambda>l. idleSince (hd l)) ?c None") auto
  note sp = soonest_spec [OF x]
  then have xm: "(fst x, snd x) \<in> set m" "snd x \<noteq> []" by auto
  have lx: "idleOf m (fst x) = snd x" using idleOf_mem [OF d xm(1)] .
  have "idleSince (hd (idleOf m (fst x))) \<le> idleSince s" if s: "s \<in># sessionsOf m" for s
  proof -
    obtain k where k: "s \<in> set (idleOf m k)" using sessions_mem [OF d] s by blast
    then have "idleOf m k \<noteq> []" by auto
    then have "(k, idleOf m k) \<in> set ?c" using idleOf_in [of m k] by simp
    then have "idleSince (hd (snd x)) \<le> idleSince (hd (idleOf m k))" using sp by fastforce
    also have "\<dots> \<le> idleSince s" by (rule wf_hd_oldest [OF assms(1) k])
    finally show ?thesis using lx by simp
  qed
  then show ?thesis using that [of "fst x"] x xm(2) lx by (simp add: oldestKey_def)
qed

lemma evictOldest_spec:
  assumes "wf_idle m" "n = int (size (sessionsOf m))" "n \<le> ftpPoolMaxIdle"
  obtains (room) "n < ftpPoolMaxIdle" "evictOldest ord m n = ([], m, n)"
  | (full) k where "n = ftpPoolMaxIdle" "idleOf m k \<noteq> []" "\<forall>s. s \<in># sessionsOf m \<longrightarrow> idleSince (hd (idleOf m k)) \<le> idleSince s"
      "evictOldest ord m n = ([hd (idleOf m k)], putIdle k (tl (idleOf m k)) m, n - 1)"
proof (cases "n < ftpPoolMaxIdle")
  case True
  then show ?thesis by (intro room) (simp_all add: evictOldest.simps [of ord m n])
next
  case False
  then have n: "n = ftpPoolMaxIdle" using assms(3) by simp
  then have "size (sessionsOf m) > 0" using assms(2) by (simp add: ftpPoolMaxIdle_def)
  from oldestKey_spec [OF assms(1) this, of ord] obtain k where k: "oldestKey ord m = Some k" "idleOf m k \<noteq> []"
    "\<forall>s. s \<in># sessionsOf m \<longrightarrow> idleSince (hd (idleOf m k)) \<le> idleSince s" by blast
  have stop: "evictOldest ord (putIdle k (tl (idleOf m k)) m) (n - 1) = ([], putIdle k (tl (idleOf m k)) m, n - 1)"
    using n by (simp add: evictOldest.simps [of ord "putIdle k (tl (idleOf m k)) m"])
  have "evictOldest ord m n = ([hd (idleOf m k)], putIdle k (tl (idleOf m k)) m, n - 1)"
    using eq_refl [OF n [symmetric]] k(1) stop by (simp add: evictOldest.simps [of ord m n] Let_def)
  then show ?thesis by (rule full [OF n k(2,3)])
qed

lemma update_putIdle: "l \<noteq> [] \<Longrightarrow> AList.update k l m = putIdle k l m"
  by (simp add: putIdle_def)

lemma wf_tail:
  assumes "wf_idle m"
  shows "wf_idle (putIdle k (tl (idleOf m k)) m)"
proof -
  have "length (idleOf m k) \<le> ftpPoolMaxPerKey" "sorted (map idleSince (idleOf m k))" "\<forall>s \<in> set (idleOf m k). skey s = k"
    using assms by (simp_all add: wf_idle_def)
  then show ?thesis by (intro wf_putIdle [OF assms]) (cases "idleOf m k"; simp)+
qed

lemma sessions_tail:
  assumes "wf_idle m" "idleOf m k \<noteq> []"
  shows "sessionsOf m = add_mset (hd (idleOf m k)) (sessionsOf (putIdle k (tl (idleOf m k)) m))"
proof -
  have "mset (idleOf m k) = add_mset (hd (idleOf m k)) (mset (tl (idleOf m k)))" using assms(2) by (cases "idleOf m k") auto
  with sessions_putIdle [OF pool_inv_wf(2) [OF assms(1)], of k "tl (idleOf m k)"] show ?thesis
    by (metis add_mset_add_single add_right_cancel union_mset_add_mset_left union_mset_add_mset_right)
qed

lemma park_inv:
  assumes "wf_idle m" "size (sessionsOf m) < nat ftpPoolMaxIdle" "length (idleOf m (skey s)) < ftpPoolMaxPerKey"
    "\<forall>x. x \<in># sessionsOf m \<longrightarrow> idleSince x \<le> idleSince s"
  shows "pool_inv (idleSince s) \<lparr>ftpPool = AList.update (skey s) (idleOf m (skey s) @ [s]) m, ftpPoolIdle = int (size (sessionsOf m)) + 1\<rparr>"
    "sessionsOf (AList.update (skey s) (idleOf m (skey s) @ [s]) m) = add_mset s (sessionsOf m)"
proof -
  let ?k = "skey s" and ?l = "idleOf m (skey s)"
  have d: "distinct (map fst m)" by (rule pool_inv_wf(2) [OF assms(1)])
  have up: "AList.update ?k (?l @ [s]) m = putIdle ?k (?l @ [s]) m" by (simp add: update_putIdle)
  show ss: "sessionsOf (AList.update ?k (?l @ [s]) m) = add_mset s (sessionsOf m)"
    using sessions_update [OF d, of ?k "?l @ [s]"] by (simp add: union_commute)
  have l: "sorted (map idleSince ?l)" "\<forall>x \<in> set ?l. skey x = ?k" using assms(1) by (simp_all add: wf_idle_def)
  have "\<forall>x \<in> set ?l. idleSince x \<le> idleSince s" using assms(4) sessions_mem [OF d] by blast
  with l have "wf_idle (putIdle ?k (?l @ [s]) m)" using assms(3) by (intro wf_putIdle [OF assms(1)]) (auto simp: sorted_append)
  with ss assms(2,4) show "pool_inv (idleSince s) \<lparr>ftpPool = AList.update ?k (?l @ [s]) m, ftpPoolIdle = int (size (sessionsOf m)) + 1\<rparr>"
    unfolding up pool_inv_def by (auto simp: ftpPoolMaxIdle_def)
qed

text \<open>
  Parking a session: it becomes the youngest of its key; at most one other session leaves the pool to make room, the oldest
  of the same key when that key is full, the oldest of the whole pool when only the pool is; nobody else is touched, and the
  counter and both limits are kept.
\<close>
lemma ftpPoolPut_spec:
  assumes "pool_inv clock P" "clock \<le> now" "ftpPoolPut ord now s P = (ev, P')"
  shows "pool_inv now P' \<and> last (idleOf (ftpPool P') (skey s)) = s\<lparr>idleSince := now\<rparr> \<and>
    sessionsOf (ftpPool P') + mset ev = add_mset (s\<lparr>idleSince := now\<rparr>) (sessionsOf (ftpPool P)) \<and>
    (ev = [] \<and> length (idleOf (ftpPool P) (skey s)) < ftpPoolMaxPerKey \<and> ftpPoolIdle P < ftpPoolMaxIdle \<or>
     ev = [hd (idleOf (ftpPool P) (skey s))] \<and> length (idleOf (ftpPool P) (skey s)) = ftpPoolMaxPerKey \<or>
     (\<exists>v. ev = [v] \<and> length (idleOf (ftpPool P) (skey s)) < ftpPoolMaxPerKey \<and> ftpPoolIdle P = ftpPoolMaxIdle \<and>
        (\<forall>x. x \<in># sessionsOf (ftpPool P) \<longrightarrow> idleSince v \<le> idleSince x)))"
proof -
  let ?m = "ftpPool P" and ?k = "skey s" and ?s = "s\<lparr>idleSince := now\<rparr>"
  let ?l = "idleOf ?m ?k"
  have wf: "wf_idle ?m" and n: "ftpPoolIdle P = int (size (sessionsOf ?m))" "ftpPoolIdle P \<le> ftpPoolMaxIdle"
    and old: "\<And>x. x \<in># sessionsOf ?m \<Longrightarrow> idleSince x \<le> now"
    using assms(1,2) by (force simp: pool_inv_def)+
  have len: "length ?l \<le> ftpPoolMaxPerKey" using wf by (simp add: wf_idle_def)
  have finish: ?thesis
    if m2: "wf_idle m2" "sessionsOf ?m = mset ev + sessionsOf m2" "size (sessionsOf m2) < nat ftpPoolMaxIdle" "length (idleOf m2 ?k) < ftpPoolMaxPerKey"
      and P': "P' = P\<lparr>ftpPool := AList.update ?k (idleOf m2 ?k @ [?s]) m2, ftpPoolIdle := int (size (sessionsOf m2)) + 1\<rparr>"
      and which: "ev = [] \<and> length ?l < ftpPoolMaxPerKey \<and> ftpPoolIdle P < ftpPoolMaxIdle \<or>
        ev = [hd ?l] \<and> length ?l = ftpPoolMaxPerKey \<or>
        (\<exists>v. ev = [v] \<and> length ?l < ftpPoolMaxPerKey \<and> ftpPoolIdle P = ftpPoolMaxIdle \<and> (\<forall>x. x \<in># sessionsOf ?m \<longrightarrow> idleSince v \<le> idleSince x))"
    for m2
  proof -
    have "\<forall>x. x \<in># sessionsOf m2 \<longrightarrow> idleSince x \<le> idleSince ?s" using old m2(2) by simp
    then have pk: "pool_inv now \<lparr>ftpPool = AList.update ?k (idleOf m2 ?k @ [?s]) m2, ftpPoolIdle = int (size (sessionsOf m2)) + 1\<rparr>"
      "sessionsOf (AList.update ?k (idleOf m2 ?k @ [?s]) m2) = add_mset ?s (sessionsOf m2)"
      using park_inv [of m2 ?s] m2 by simp_all
    have "pool_inv now P'" using pk(1) unfolding P' by (simp add: pool_inv_def)
    moreover have "sessionsOf (ftpPool P') + mset ev = add_mset ?s (sessionsOf ?m)" unfolding P' m2(2) using pk(2) by (simp add: union_commute)
    moreover have "last (idleOf (ftpPool P') ?k) = ?s" unfolding P' by (simp add: idleOf_update)
    ultimately show ?thesis using which by blast
  qed
  show ?thesis
  proof (cases "length ?l \<ge> ftpPoolMaxPerKey")
    case True
    then have ll: "length ?l = ftpPoolMaxPerKey" using len by simp
    then have tl: "?l \<noteq> []" "tl ?l \<noteq> []" by (auto simp: ftpPoolMaxPerKey_def tl_Nil)
    let ?m1 = "putIdle ?k (tl ?l) ?m"
    note st = sessions_tail [OF wf tl(1)]
    have sz: "size (sessionsOf ?m1) = size (sessionsOf ?m) - 1" "size (sessionsOf ?m) \<ge> 1" using arg_cong [OF st, of size] by simp_all
    have lt: "ftpPoolIdle P - 1 < ftpPoolMaxIdle" using n(2) by simp
    have "evictOldest ord ?m1 (ftpPoolIdle P - 1) = ([], ?m1, ftpPoolIdle P - 1)" using lt by (simp add: evictOldest.simps [of ord ?m1])
    then have r: "ev = [hd ?l]" "P' = P\<lparr>ftpPool := AList.update ?k (idleOf ?m1 ?k @ [?s]) ?m1, ftpPoolIdle := ftpPoolIdle P - 1 + 1\<rparr>"
      using assms(3) True tl(2) by (auto simp: ftpPoolPut_def Let_def update_putIdle)
    show ?thesis
    proof (rule finish [of ?m1])
      show "wf_idle ?m1" by (rule wf_tail [OF wf])
      show "sessionsOf ?m = mset ev + sessionsOf ?m1" unfolding r using st by simp
      show "size (sessionsOf ?m1) < nat ftpPoolMaxIdle" using sz n by (simp add: ftpPoolMaxIdle_def)
      show "length (idleOf ?m1 ?k) < ftpPoolMaxPerKey" using ll tl(1) by (simp add: idleOf_putIdle ftpPoolMaxPerKey_def)
      show "P' = P\<lparr>ftpPool := AList.update ?k (idleOf ?m1 ?k @ [?s]) ?m1, ftpPoolIdle := int (size (sessionsOf ?m1)) + 1\<rparr>"
        unfolding r using sz n(1) by (simp add: of_nat_diff)
    qed (use ll r in simp)
  next
    case False
    then have ll: "length ?l < ftpPoolMaxPerKey" by simp
    show ?thesis
    proof (rule evictOldest_spec [OF wf n, of ord], goal_cases room full)
      case room
      then have r: "ev = []" "P' = P\<lparr>ftpPool := AList.update ?k (?l @ [?s]) ?m, ftpPoolIdle := ftpPoolIdle P + 1\<rparr>"
        using assms(3) False by (simp_all add: ftpPoolPut_def Let_def)
      show ?thesis by (rule finish [of ?m]) (use wf r room n ll in \<open>auto simp: ftpPoolMaxIdle_def\<close>)
    next
      case (full k)
      let ?m2 = "putIdle k (tl (idleOf ?m k)) ?m"
      note st = sessions_tail [OF wf full(2)]
      have sz: "size (sessionsOf ?m2) = size (sessionsOf ?m) - 1" "size (sessionsOf ?m) \<ge> 1" using arg_cong [OF st, of size] by simp_all
      have r: "ev = [hd (idleOf ?m k)]" "P' = P\<lparr>ftpPool := AList.update ?k (idleOf ?m2 ?k @ [?s]) ?m2, ftpPoolIdle := ftpPoolIdle P - 1 + 1\<rparr>"
        using assms(3) False full(4) by (auto simp: ftpPoolPut_def Let_def)
      show ?thesis
      proof (rule finish [of ?m2])
        show "wf_idle ?m2" by (rule wf_tail [OF wf])
        show "sessionsOf ?m = mset ev + sessionsOf ?m2" unfolding r using st by simp
        show "size (sessionsOf ?m2) < nat ftpPoolMaxIdle" using sz n by (simp add: ftpPoolMaxIdle_def)
        show "length (idleOf ?m2 ?k) < ftpPoolMaxPerKey" using ll by (auto simp: idleOf_putIdle)
        show "P' = P\<lparr>ftpPool := AList.update ?k (idleOf ?m2 ?k @ [?s]) ?m2, ftpPoolIdle := int (size (sessionsOf ?m2)) + 1\<rparr>"
          unfolding r using sz n(1) by (simp add: of_nat_diff)
      qed (use ll r full in auto)
    qed
  qed
qed

section \<open>Sweeping\<close>

lemma concat_mset: "mset xs = mset ys \<Longrightarrow> mset (concat (map f xs)) = mset (concat (map f ys))"
proof -
  assume e: "mset xs = mset ys"
  have "mset (concat (map f zs)) = sum_mset (image_mset (\<lambda>x. mset (f x)) (mset zs))" for zs by (induction zs) auto
  with e show ?thesis by (simp only:)
qed

definition swept :: "(poolSession list \<Rightarrow> poolSession list) \<Rightarrow> idleMap \<Rightarrow> idleMap" where
  "swept f m = filter (\<lambda>(k, l). l \<noteq> []) (map (\<lambda>(k, l). (k, f l)) m)"

lemma swept_Cons: "swept f (x # m) = (if f (snd x) = [] then swept f m else (fst x, f (snd x)) # swept f m)"
  by (simp add: swept_def split: prod.split)

lemma swept_keys: "fst ` set (swept f m) \<subseteq> fst ` set m"
  by (force simp: swept_def)

lemma swept_distinct: "distinct (map fst m) \<Longrightarrow> distinct (map fst (swept f m))"
proof (induction m)
  case (Cons x m)
  then show ?case using swept_keys [of f m] by (auto simp: swept_Cons)
qed (simp add: swept_def)

lemma idleOf_swept: "distinct (map fst m) \<Longrightarrow> f [] = [] \<Longrightarrow> idleOf (swept f m) k = f (idleOf m k)"
proof (induction m)
  case Nil then show ?case by (simp add: swept_def idleOf_def)
next
  case (Cons x m)
  have IH: "idleOf (swept f m) k = f (idleOf m k)" using Cons by simp
  have "fst x \<notin> fst ` set (swept f m)" using Cons.prems(1) swept_keys [of f m] by auto
  then have "idleOf (swept f m) (fst x) = []" by (rule idleOf_absent)
  with IH show ?case by (cases "fst x = k") (auto simp: swept_Cons idleOf_Cons)
qed

lemma part_mset: "mset l = mset (filter P l) + mset (filter (\<lambda>s. \<not> P s) l)"
  by (induction l) auto

lemma sessions_swept:
  "sessionsOf m = mset (concat (map (\<lambda>(k, l). filter P l) m)) + sessionsOf (swept (filter (\<lambda>s. \<not> P s)) m)"
proof (induction m)
  case Nil then show ?case by (simp add: sessionsOf_def swept_def)
next
  case (Cons x m)
  have "sessionsOf (swept (filter (\<lambda>s. \<not> P s)) (x # m)) =
      mset (filter (\<lambda>s. \<not> P s) (snd x)) + sessionsOf (swept (filter (\<lambda>s. \<not> P s)) m)"
    by (cases "filter (\<lambda>s. \<not> P s) (snd x) = []") (simp_all add: swept_Cons sessions_Cons)
  moreover have "mset (concat (map (\<lambda>(k, l). filter P l) (x # m))) = mset (filter P (snd x)) + mset (concat (map (\<lambda>(k, l). filter P l) m))"
    by (simp add: case_prod_beta)
  ultimately show ?case using Cons part_mset [of "snd x" P] by (simp only: sessions_Cons ac_simps)
qed

lemma ftpPoolEvict_ok:
  assumes "pool_inv clock P" "ftpPoolEvict ord now P = (ex, P')"
  shows "pool_inv clock P'" "sessionsOf (ftpPool P) = mset ex + sessionsOf (ftpPool P')"
    "list_all (poolExpired now) ex" "\<And>k. idleOf (ftpPool P') k = filter (\<lambda>s. \<not> poolExpired now s) (idleOf (ftpPool P) k)"
proof -
  let ?m = "ftpPool P"
  let ?ex = "concat (map (\<lambda>(k, l). filter (poolExpired now) l) (rangeOver ord ?m))"
  let ?kept = "swept (filter (\<lambda>s. \<not> poolExpired now s)) ?m"
  have d: "distinct (map fst ?m)" and wf: "wf_idle ?m" using pool_inv_wf(1) [OF assms(1)] pool_inv_wf(2) by auto
  have r: "ex = ?ex" "P' = P\<lparr>ftpPool := ?kept, ftpPoolIdle := ftpPoolIdle P - int (length ?ex)\<rparr>"
    using assms(2) by (auto simp: ftpPoolEvict_def Let_def swept_def)
  show idle: "idleOf (ftpPool P') k = filter (\<lambda>s. \<not> poolExpired now s) (idleOf ?m k)" for k
    unfolding r using idleOf_swept [OF d, of "filter (\<lambda>s. \<not> poolExpired now s)" k] by simp
  have "mset ?ex = mset (concat (map (\<lambda>(k, l). filter (poolExpired now) l) ?m))" by (rule concat_mset) simp
  then show ss: "sessionsOf ?m = mset ex + sessionsOf (ftpPool P')" unfolding r using sessions_swept [of ?m "poolExpired now"] by simp
  show "list_all (poolExpired now) ex" unfolding r by (auto simp: list_all_iff)
  have "distinct (map fst (ftpPool P'))" unfolding r using swept_distinct [OF d] by simp
  moreover have "\<forall>x \<in> set (ftpPool P'). snd x \<noteq> []" unfolding r by (auto simp: swept_def)
  moreover have "length (idleOf (ftpPool P') k) \<le> ftpPoolMaxPerKey \<and> sorted (map idleSince (idleOf (ftpPool P') k)) \<and>
      (\<forall>s \<in> set (idleOf (ftpPool P') k). skey s = k)" for k
  proof -
    have l: "length (idleOf ?m k) \<le> ftpPoolMaxPerKey" "sorted (map idleSince (idleOf ?m k))" "\<forall>s \<in> set (idleOf ?m k). skey s = k"
      using wf by (simp_all add: wf_idle_def)
    then show ?thesis unfolding idle by (auto intro: sorted_filter le_trans [OF length_filter_le])
  qed
  ultimately have "wf_idle (ftpPool P')" by (simp add: wf_idle_def)
  moreover have "ftpPoolIdle P' = int (size (sessionsOf (ftpPool P')))" "ftpPoolIdle P' \<le> ftpPoolMaxIdle"
    using assms(1) arg_cong [OF ss, of size] unfolding r by (simp_all add: pool_inv_def)
  ultimately show "pool_inv clock P'" using assms(1) ss by (simp add: pool_inv_def)
qed

section \<open>Putting and taking\<close>

text \<open>C34: 
  A parked session is the one the next request of the same key gets while it is fresh, and the pool is then what it was, less the one
  session that made room: the oldest of that key when the key was full, the oldest of all when only the pool was. The count, the limit
  of two per key and eight in all, and the filing under the session's own key hold throughout.
\<close>
theorem ftp_pool_reuse:
  assumes "pool_inv clock P" "clock \<le> now" "ftpPoolPut ord now s P = (ev, P')" "now' - now < ftpPoolTTL"
    "ftpPoolGet now' (skey s) P' = (got, expired, Q)"
  shows "got = Some (s\<lparr>idleSince := now\<rparr>) \<and> expired = [] \<and> sessionsOf (ftpPool P) = mset ev + sessionsOf (ftpPool Q) \<and>
    pool_inv now P' \<and> pool_inv now Q \<and>
    (ev = [] \<and> length (idleOf (ftpPool P) (skey s)) < ftpPoolMaxPerKey \<and> ftpPoolIdle P < ftpPoolMaxIdle \<or>
     ev = [hd (idleOf (ftpPool P) (skey s))] \<and> length (idleOf (ftpPool P) (skey s)) = ftpPoolMaxPerKey \<or>
     (\<exists>v. ev = [v] \<and> length (idleOf (ftpPool P) (skey s)) < ftpPoolMaxPerKey \<and> ftpPoolIdle P = ftpPoolMaxIdle \<and>
        (\<forall>x. x \<in># sessionsOf (ftpPool P) \<longrightarrow> idleSince v \<le> idleSince x)))"
proof -
  let ?s = "s\<lparr>idleSince := now\<rparr>"
  note pt = ftpPoolPut_spec [OF assms(1,2,3)]
  have inv': "pool_inv now P'" and la: "last (idleOf (ftpPool P') (skey s)) = ?s"
    and ms: "sessionsOf (ftpPool P') + mset ev = add_mset ?s (sessionsOf (ftpPool P))" using pt by blast+
  note gt = ftpPoolGet_spec [OF inv' assms(5)]
  have ne: "idleOf (ftpPool P') (skey s) \<noteq> []"
    using assms(3) by (auto simp: ftpPoolPut_def Let_def idleOf_update split: prod.splits)
  have fresh: "\<not> poolExpired now' ?s" using assms(4) by simp
  obtain t where g: "got = Some t"
  proof (cases got)
    case None
    then have "list_all (poolExpired now') (idleOf (ftpPool P') (skey s))" using gt by simp
    moreover have "?s \<in> set (idleOf (ftpPool P') (skey s))" using last_in_set [OF ne] la by simp
    ultimately have "poolExpired now' ?s" unfolding list_all_iff by (rule bspec)
    with fresh show ?thesis by simp
  qed
  then have q: "idleOf (ftpPool P') (skey s) = idleOf (ftpPool Q) (skey s) @ [t]" "expired = []" "pool_inv now Q" using gt by auto
  have t: "t = ?s" using la unfolding q(1) by simp
  have d: "distinct (map fst (ftpPool P'))" by (rule pool_inv_wf(2) [OF pool_inv_wf(1) [OF inv']])
  have Q: "ftpPool Q = putIdle (skey s) (idleOf (ftpPool Q) (skey s)) (ftpPool P')"
    using assms(5) by (auto simp: ftpPoolGet_def idleOf_putIdle split: prod.splits)
  have "sessionsOf (ftpPool P') = add_mset t (sessionsOf (ftpPool Q))"
    using sessions_putIdle [OF d, of "skey s" "idleOf (ftpPool Q) (skey s)"] unfolding q(1) Q [symmetric] by simp
  then have "sessionsOf (ftpPool P) = mset ev + sessionsOf (ftpPool Q)" using ms unfolding t by (simp add: union_commute)
  then show ?thesis using g t q inv' pt by blast
qed

definition demoKey :: "string \<Rightarrow> ftpPoolKey" where
  "demoKey a = \<lparr>pkAddr = a, pkUser = ''anonymous'', pkPassSum = [], pkTls = False, pkAllowPrivate = False\<rparr>"

definition demoPool :: ftpPoolState where
  "demoPool = \<lparr>ftpPool = [(demoKey ''a:21'', [\<lparr>sid = 0, skey = demoKey ''a:21'', idleSince = 5\<rparr>, \<lparr>sid = 1, skey = demoKey ''a:21'', idleSince = 7\<rparr>]),
     (demoKey ''b:21'', [\<lparr>sid = 2, skey = demoKey ''b:21'', idleSince = 6\<rparr>])], ftpPoolIdle = 3\<rparr>"

lemma demoPool_inv: "pool_inv 7 demoPool"
proof -
  have "demoKey ''a:21'' \<noteq> demoKey ''b:21''" by (simp add: demoKey_def)
  moreover have "idleOf (ftpPool demoPool) k =
      (if demoKey ''a:21'' = k then [\<lparr>sid = 0, skey = demoKey ''a:21'', idleSince = 5\<rparr>, \<lparr>sid = 1, skey = demoKey ''a:21'', idleSince = 7\<rparr>]
       else if demoKey ''b:21'' = k then [\<lparr>sid = 2, skey = demoKey ''b:21'', idleSince = 6\<rparr>] else [])" for k
    by (simp add: demoPool_def idleOf_Cons idleOf_def [of "[]"])
  ultimately have "wf_idle (ftpPool demoPool)" unfolding wf_idle_def by (auto simp: demoPool_def ftpPoolMaxPerKey_def)
  then show ?thesis by (auto simp: pool_inv_def demoPool_def sessionsOf_def ftpPoolMaxIdle_def)
qed

definition demoPut :: "poolSession list \<times> ftpPoolState" where
  "demoPut = ftpPoolPut (\<lambda>m. m) 10 \<lparr>sid = 9, skey = demoKey ''a:21'', idleSince = 0\<rparr> demoPool"

lemma demoPut_eval: "map sid (fst demoPut) = [0]" "map_option sid (fst (ftpPoolGet 20 (demoKey ''a:21'') (snd demoPut))) = Some 9"
  by code_simp+

theorem ftp_pool_reuse_witness:
  "map_option sid (fst (ftpPoolGet 20 (demoKey ''a:21'') (snd demoPut))) = Some 9 \<and> pool_inv 10 (snd demoPut) \<and> map sid (fst demoPut) = [0]"
proof -
  let ?s = "\<lparr>sid = 9, skey = demoKey ''a:21'', idleSince = 0\<rparr>"
  obtain g x Q where g: "ftpPoolGet 20 (skey ?s) (snd demoPut) = (g, x, Q)" by (cases "ftpPoolGet 20 (skey ?s) (snd demoPut)") auto
  have p: "ftpPoolPut (\<lambda>m. m) 10 ?s demoPool = (fst demoPut, snd demoPut)" by (simp add: demoPut_def)
  have "g = Some (?s\<lparr>idleSince := 10\<rparr>) \<and> pool_inv 10 (snd demoPut)"
    using ftp_pool_reuse [OF demoPool_inv _ p _ g] by (simp add: ftpPoolTTL_def)
  with g demoPut_eval(1) show ?thesis by simp
qed

section \<open>The answers kept beside the pool\<close>

lemma dropTo_ok: "distinct (map fst m) \<Longrightarrow> fst ` set m \<subseteq> set ks \<Longrightarrow> 0 < cap \<Longrightarrow>
    distinct (map fst (dropTo cap ks m)) \<and> length (dropTo cap ks m) < cap \<and> set (dropTo cap ks m) \<subseteq> set m"
proof (induction cap ks m rule: dropTo.induct)
  case (2 cap k ks m)
  note ih = 2(1) and prems = 2(2-)
  show ?case
  proof (cases "length m < cap")
    case False
    have "fst ` set (AList.delete k m) \<subseteq> set ks" using prems(2) by (auto simp: AList.delete_eq)
    from ih [OF False distinct_delete [OF prems(1)] this prems(3)] False show ?thesis by (auto dest: delete_set)
  qed (use prems in simp)
qed simp

definition meta_ok :: "nat \<Rightarrow> ('k \<times> 'v metaEntry) list \<Rightarrow> bool" where
  "meta_ok cap m \<longleftrightarrow> distinct (map fst m) \<and> length m \<le> cap"

lemma trimLocked_ok:
  assumes "meta_ok cap m" "0 < cap"
  shows "distinct (map fst (trimLocked ord cap now m))" "length (trimLocked ord cap now m) < cap" "set (trimLocked ord cap now m) \<subseteq> set m"
proof -
  have "distinct (map fst (liveMeta now m))" using assms(1) by (simp add: meta_ok_def liveMeta_def distinct_filter)
  moreover have "fst ` set (liveMeta now m) \<subseteq> set (map fst (rangeOver ord (liveMeta now m)))" by simp
  ultimately have "distinct (map fst (trimLocked ord cap now m)) \<and> length (trimLocked ord cap now m) < cap \<and> set (trimLocked ord cap now m) \<subseteq> set (liveMeta now m)"
    unfolding trimLocked_def by (rule dropTo_ok) (rule assms(2))
  then show "distinct (map fst (trimLocked ord cap now m))" "length (trimLocked ord cap now m) < cap" "set (trimLocked ord cap now m) \<subseteq> set m"
    by (auto simp: liveMeta_def)
qed

text \<open>A new entry is found for as long as it lives; another key's entry is found unchanged or not at all; the bound holds.\<close>

lemma metaPut_ok:
  assumes "meta_ok cap m" "0 < cap"
  shows "meta_ok cap (metaPut ord cap ttl now k v m)"
    "metaGet now' k (metaPut ord cap ttl now k v m) = (if now' < now + ttl then Some v else None)"
    "j \<noteq> k \<Longrightarrow> metaGet now' j (metaPut ord cap ttl now k v m) \<in> {None, metaGet now' j m}"
proof -
  define m1 where "m1 = (if k \<notin> fst ` set m \<and> length m \<ge> cap then trimLocked ord cap now m else m)"
  have m1: "distinct (map fst m1)" "set m1 \<subseteq> set m" "k \<in> fst ` set m1 \<and> length m1 \<le> cap \<or> length m1 < cap"
    using trimLocked_ok [OF assms, of ord now] assms(1) unfolding m1_def by (auto simp: meta_ok_def)
  have put: "metaPut ord cap ttl now k v m = AList.update k \<lparr>metaVal = v, metaExpires = now + ttl\<rparr> m1" by (simp add: metaPut_def m1_def)
  have len: "length (AList.update k e m1) = (if k \<in> fst ` set m1 then length m1 else Suc (length m1))" for e
    by (induction m1) auto
  show "meta_ok cap (metaPut ord cap ttl now k v m)" unfolding put meta_ok_def len using m1(1,3) by (auto simp: distinct_update)
  show "metaGet now' k (metaPut ord cap ttl now k v m) = (if now' < now + ttl then Some v else None)"
    unfolding put metaGet_def by (simp add: AList.update_conv')
  assume "j \<noteq> k"
  then have "metaGet now' j (metaPut ord cap ttl now k v m) = metaGet now' j m1" unfolding put metaGet_def by (simp add: AList.update_conv')
  moreover have "map_of m1 j = None \<or> map_of m1 j = map_of m j"
  proof (cases "map_of m1 j")
    case (Some e)
    then have "(j, e) \<in> set m" using m1(2) by (auto dest: map_of_SomeD)
    then have "map_of m j = Some e" using assms(1) by (simp add: meta_ok_def)
    with Some show ?thesis by simp
  qed simp
  ultimately show "metaGet now' j (metaPut ord cap ttl now k v m) \<in> {None, metaGet now' j m}" by (auto simp: metaGet_def)
qed

end
