(* ===== verification/Ftp_Lease.thy ===== *)
theory Ftp_Lease
  imports Ftp_Pool
begin

text \<open>
  The life of FTP sessions across requests, \<open>ftpstream/pool.go\<close> and \<open>ftpstream.go\<close>: \<open>bind\<close>, \<open>beginTransfer\<close>, \<open>discard\<close>, the
  outcomes of \<open>open\<close>, and \<open>ftpReadCloser.Close\<close>, interleaved with the hooks that run when a request's context is cancelled and with
  the janitor. A request is one call of \<open>open\<close>; its lease has the request's number. Network traffic has no state here beyond whether the
  control connection and the data connections have been closed.
\<close>

section \<open>State\<close>

datatype leasePhase = leaseOpening | leaseTransferring | leaseAborted

text \<open>The function registered with \<open>context.AfterFunc\<close>: waiting, detached, started, past closing the data connections, past winning the
  swap, finished.\<close>

datatype hookState = HookArmed | HookStopped | HookRunning | HookData | HookWon | HookDone

record ftpLease =
  phase :: leasePhase
  dataClosed :: bool
  hook :: hookState
  leaseSess :: nat

record ftpSession =
  ctlClosed :: bool
  sessLease :: "nat option"
  sessKey :: ftpPoolKey

datatype stage = Holding | Opening | Failing | Streaming | Closing | Parking | Dropping

datatype reqState = Fresh | Own stage nat | Released

record ftpSys =
  reqs :: "nat \<Rightarrow> reqState"
  leases :: "nat \<Rightarrow> ftpLease option"
  sessions :: "nat \<Rightarrow> ftpSession"
  nextSid :: nat
  thePool :: ftpPoolState
  clock :: int

section \<open>Operations\<close>

definition bindLease :: "nat \<Rightarrow> ftpLease" where
  "bindLease x = \<lparr>phase = leaseOpening, dataClosed = False, hook = HookArmed, leaseSess = x\<rparr>"

text \<open>Detaching the hook, and whether that came before it started.\<close>

definition stopHook :: "ftpLease \<Rightarrow> ftpLease \<times> bool" where
  "stopHook l = (if hook l = HookArmed then (l\<lparr>hook := HookStopped\<rparr>, True) else (l, False))"

text \<open>One atomic step of the hook; the second component tells whether it closes the control connection.\<close>

definition hookStep :: "ftpLease \<Rightarrow> (ftpLease \<times> bool) option" where
  "hookStep l =
     (case hook l of
        HookArmed \<Rightarrow> Some (l\<lparr>hook := HookRunning\<rparr>, False)
      | HookRunning \<Rightarrow> Some (l\<lparr>hook := HookData, dataClosed := True\<rparr>, False)
      | HookData \<Rightarrow> Some (if phase l = leaseOpening then l\<lparr>phase := leaseAborted, hook := HookWon\<rparr> else l\<lparr>hook := HookDone\<rparr>, False)
      | HookWon \<Rightarrow> Some (l\<lparr>hook := HookDone\<rparr>, True)
      | _ \<Rightarrow> None)"

definition beginTransfer :: "ftpLease \<Rightarrow> ftpLease \<times> bool" where
  "beginTransfer l = (if phase l = leaseOpening then (l\<lparr>phase := leaseTransferring\<rparr>, True) else (l, False))"

definition swapLease :: "nat \<Rightarrow> ftpSys \<Rightarrow> ftpSys" where
  "swapLease x S =
     S\<lparr>leases := (case sessLease (sessions S x) of
                    None \<Rightarrow> leases S
                  | Some r \<Rightarrow> (leases S)(r := map_option (dataClosed_update (\<lambda>_. True)) (leases S r))),
       sessions := (sessions S)(x := (sessions S x)\<lparr>sessLease := None\<rparr>)\<rparr>"

definition discard :: "nat \<Rightarrow> ftpSys \<Rightarrow> ftpSys" where
  "discard x S = (let T = swapLease x S in T\<lparr>sessions := (sessions T)(x := (sessions T x)\<lparr>ctlClosed := True\<rparr>)\<rparr>)"

definition discardAll :: "poolSession list \<Rightarrow> ftpSys \<Rightarrow> ftpSys" where
  "discardAll ss S = fold (\<lambda>s. discard (sid s)) ss S"

definition setReq :: "nat \<Rightarrow> reqState \<Rightarrow> ftpSys \<Rightarrow> ftpSys" where
  "setReq r q S = S\<lparr>reqs := (reqs S)(r := q)\<rparr>"

definition setLease :: "nat \<Rightarrow> ftpLease \<Rightarrow> ftpSys \<Rightarrow> ftpSys" where
  "setLease r l S = S\<lparr>leases := (leases S)(r \<mapsto> l)\<rparr>"

definition parkable :: "nat \<Rightarrow> ftpSys \<Rightarrow> poolSession" where
  "parkable x S = \<lparr>sid = x, skey = sessKey (sessions S x), idleSince = 0\<rparr>"

text \<open>How the commands of \<open>open\<close> end once the session is bound: the connection or login fails, the server answers RETR with an error, the
  transfer starts but the context is done, or it starts. What follows: a failure detaches the hook and discards the session; a refusal
  that leaves the session healthy parks it if the hook had not started, and discards it otherwise; a start is a transfer unless the hook
  won the swap.\<close>

datatype openEnd = ConnectFails | RetrFails ftpErr | CtxDone | Started

fun openNext :: "openEnd \<Rightarrow> ftpLease \<Rightarrow> stage \<times> ftpLease" where
  "openNext ConnectFails l = (Failing, fst (stopHook l))"
| "openNext (RetrFails e) l =
     (if ftpSessionHealthy e then (case stopHook l of (l', b) \<Rightarrow> (if b then Parking else Dropping, l')) else (Failing, fst (stopHook l)))"
| "openNext CtxDone l = (Failing, fst (stopHook l))"
| "openNext Started l = (case beginTransfer l of (l', b) \<Rightarrow> if b then (Streaming, l') else (Failing, fst (stopHook l')))"

text \<open>The context is only seen done once its hook has been started.\<close>

fun canEnd :: "openEnd \<Rightarrow> ftpLease \<Rightarrow> bool" where
  "canEnd CtxDone l \<longleftrightarrow> hook l \<noteq> HookArmed"
| "canEnd _ l \<longleftrightarrow> True"

text \<open>
  The steps, each taken by a request, by the hook of a request or by the janitor. \<open>open\<close> takes a session from the pool or makes one, binds
  it and ends in one of the ways above. \<open>Close\<close> detaches the hook, reads the last reply and parks or discards. Sessions that leave the pool
  to be closed are discarded in the same step; the code does it right after unlocking, when nobody else can reach them any more.
\<close>

datatype actor = ByRequest nat | ByHook nat | ByJanitor

inductive ftp_act :: "actor \<Rightarrow> ftpSys \<Rightarrow> ftpSys \<Rightarrow> bool" where
  fs_get: "reqs S r = Fresh \<Longrightarrow> ftpPoolGet now key (thePool S) = (Some s, ex, P) \<Longrightarrow>
     ftp_act (ByRequest r) S (setReq r (Own Holding (sid s)) (discardAll ex (S\<lparr>thePool := P\<rparr>)))"
| fs_miss: "reqs S r = Fresh \<Longrightarrow> ftpPoolGet now key (thePool S) = (None, ex, P) \<Longrightarrow>
     ftp_act (ByRequest r) S (discardAll ex (S\<lparr>thePool := P\<rparr>))"
| fs_new: "reqs S r = Fresh \<Longrightarrow>
     ftp_act (ByRequest r) S (setReq r (Own Holding (nextSid S))
       (S\<lparr>sessions := (sessions S)(nextSid S := \<lparr>ctlClosed = False, sessLease = None, sessKey = key\<rparr>), nextSid := Suc (nextSid S)\<rparr>))"
| fs_bind: "reqs S r = Own Holding x \<Longrightarrow>
     ftp_act (ByRequest r) S
       (setReq r (Own Opening x) (setLease r (bindLease x) (S\<lparr>sessions := (sessions S)(x := (sessions S x)\<lparr>sessLease := Some r\<rparr>)\<rparr>)))"
| fs_hook: "leases S r = Some l \<Longrightarrow> hookStep l = Some (l', shut) \<Longrightarrow>
     ftp_act (ByHook r) S
       ((setLease r l' S)\<lparr>sessions := (if shut then (sessions S)(leaseSess l := (sessions S (leaseSess l))\<lparr>ctlClosed := True\<rparr>) else sessions S)\<rparr>)"
| fs_open: "reqs S r = Own Opening x \<Longrightarrow> leases S r = Some l \<Longrightarrow> canEnd oe l \<Longrightarrow> openNext oe l = (st, l') \<Longrightarrow>
     ftp_act (ByRequest r) S (setReq r (Own st x) (setLease r l' S))"
| fs_close: "reqs S r = Own Streaming x \<Longrightarrow> leases S r = Some l \<Longrightarrow>
     ftp_act (ByRequest r) S (setReq r (Own Closing x) (setLease r (fst (stopHook l)) S))"
| fs_reply: "reqs S r = Own Closing x \<Longrightarrow>
     ftp_act (ByRequest r) S (setReq r (Own (if ftpReplySynced e \<and> \<not> ctlClosed (sessions S x) then Parking else Dropping) x) S)"
| fs_put: "reqs S r = Own Parking x \<Longrightarrow> clock S \<le> now \<Longrightarrow> ftpPoolPut ord now (parkable x S) (thePool S) = (ev, P) \<Longrightarrow>
     ftp_act (ByRequest r) S (setReq r Released (discardAll ev ((swapLease x S)\<lparr>thePool := P, clock := now\<rparr>)))"
| fs_discard: "reqs S r = Own st x \<Longrightarrow> st = Failing \<or> st = Dropping \<Longrightarrow> ftp_act (ByRequest r) S (setReq r Released (discard x S))"
| fs_janitor: "ftpPoolEvict ord now (thePool S) = (ex, P) \<Longrightarrow> ftp_act ByJanitor S (discardAll ex (S\<lparr>thePool := P\<rparr>))"

definition ftp_step :: "ftpSys \<Rightarrow> ftpSys \<Rightarrow> bool" where
  "ftp_step S T \<longleftrightarrow> (\<exists>a. ftp_act a S T)"

lemma ftp_stepI: "ftp_act a S T \<Longrightarrow> ftp_step S T"
  unfolding ftp_step_def by blast

definition ftp_start :: "ftpSys \<Rightarrow> bool" where
  "ftp_start S \<longleftrightarrow> (\<forall>r. reqs S r = Fresh \<and> leases S r = None) \<and> nextSid S = 0 \<and> ftpPool (thePool S) = [] \<and> ftpPoolIdle (thePool S) = 0"

section \<open>Invariant\<close>

definition pooled :: "ftpSys \<Rightarrow> nat set" where
  "pooled S = sid ` set_mset (sessionsOf (ftpPool (thePool S)))"

definition once :: "'a multiset \<Rightarrow> bool" where "once M \<longleftrightarrow> (\<forall>x. count M x \<le> 1)"

text \<open>A hook that may still close the control connection.\<close>

definition danger :: "ftpLease \<Rightarrow> bool" where
  "danger l \<longleftrightarrow> hook l = HookWon \<or> phase l = leaseOpening \<and> hook l \<in> {HookArmed, HookRunning, HookData}"

fun stage_ok :: "stage \<Rightarrow> ftpLease \<Rightarrow> bool \<Rightarrow> bool" where
  "stage_ok Opening l c \<longleftrightarrow> phase l \<noteq> leaseTransferring \<and> (c \<longrightarrow> phase l = leaseAborted) \<and> (phase l = leaseAborted \<longleftrightarrow> hook l \<in> {HookWon, HookDone}) \<and> hook l \<noteq> HookStopped"
| "stage_ok Streaming l c \<longleftrightarrow> phase l = leaseTransferring \<and> hook l \<noteq> HookWon \<and> \<not> c"
| "stage_ok Closing l c \<longleftrightarrow> phase l = leaseTransferring \<and> hook l \<noteq> HookWon \<and> \<not> c"
| "stage_ok Parking l c \<longleftrightarrow> \<not> danger l \<and> \<not> c"
| "stage_ok _ l c \<longleftrightarrow> True"

fun req_ok :: "ftpSys \<Rightarrow> nat \<Rightarrow> reqState \<Rightarrow> bool" where
  "req_ok S r Fresh \<longleftrightarrow> leases S r = None"
| "req_ok S r (Own st x) \<longleftrightarrow> x < nextSid S \<and> x \<notin> pooled S \<and>
     (if st = Holding then leases S r = None \<and> sessLease (sessions S x) = None \<and> \<not> ctlClosed (sessions S x)
      else sessLease (sessions S x) = Some r \<and>
        (\<exists>l. leases S r = Some l \<and> leaseSess l = x \<and> stage_ok st l (ctlClosed (sessions S x))))"
| "req_ok S r Released \<longleftrightarrow> (\<exists>l. leases S r = Some l \<and> leaseSess l < nextSid S \<and> (danger l \<longrightarrow> ctlClosed (sessions S (leaseSess l))))"

definition pool_ok :: "ftpSys \<Rightarrow> bool" where
  "pool_ok S \<longleftrightarrow> pool_inv (clock S) (thePool S) \<and> once (image_mset sid (sessionsOf (ftpPool (thePool S)))) \<and>
     (\<forall>s. s \<in># sessionsOf (ftpPool (thePool S)) \<longrightarrow> sid s < nextSid S \<and>
        sessions S (sid s) = \<lparr>ctlClosed = False, sessLease = None, sessKey = skey s\<rparr>)"

definition ftp_inv :: "ftpSys \<Rightarrow> bool" where
  "ftp_inv S \<longleftrightarrow> pool_ok S \<and> (\<forall>r. req_ok S r (reqs S r)) \<and>
     (\<forall>r q st st' x. reqs S r = Own st x \<longrightarrow> reqs S q = Own st' x \<longrightarrow> r = q) \<and>
     (\<forall>x < nextSid S. x \<in> pooled S \<or> (\<exists>r st. reqs S r = Own st x) \<or> ctlClosed (sessions S x))"

lemma once_add: "once (add_mset x M) \<longleftrightarrow> x \<notin># M \<and> once M"
  unfolding once_def by (metis One_nat_def Suc_le_mono count_add_mset count_greater_zero_iff le_zero_eq nat_le_linear not_less_eq_eq not_in_iff)

lemma once_sum: "once (M + N) \<Longrightarrow> once M \<and> once N \<and> set_mset M \<inter> set_mset N = {}"
proof -
  assume "once (M + N)"
  then have c: "count M x + count N x \<le> 1" for x by (simp add: once_def)
  have "count M x \<le> 1" "count N x \<le> 1" "x \<notin># M \<or> x \<notin># N" for x
    using c [of x] count_greater_zero_iff [of M x] count_greater_zero_iff [of N x] by linarith+
  then show ?thesis by (auto simp: once_def)
qed

lemma ftp_invI:
  assumes "pool_ok S" "\<And>r. req_ok S r (reqs S r)" "\<And>r q st st' x. reqs S r = Own st x \<Longrightarrow> reqs S q = Own st' x \<Longrightarrow> r = q"
    "\<And>x. x < nextSid S \<Longrightarrow> x \<in> pooled S \<or> (\<exists>r st. reqs S r = Own st x) \<or> ctlClosed (sessions S x)"
  shows "ftp_inv S"
  using assms unfolding ftp_inv_def by blast

lemma ftp_invD:
  assumes "ftp_inv S"
  shows "pool_ok S" "req_ok S r (reqs S r)" "reqs S r = Own st x \<Longrightarrow> reqs S q = Own st' x \<Longrightarrow> r = q"
    "x < nextSid S \<Longrightarrow> x \<in> pooled S \<or> (\<exists>r st. reqs S r = Own st x) \<or> ctlClosed (sessions S x)"
  using assms unfolding ftp_inv_def by blast+

lemma pooled_free:
  assumes "pool_ok S" "x \<in> pooled S"
  shows "x < nextSid S" "\<not> ctlClosed (sessions S x)" "sessLease (sessions S x) = None"
  using assms by (auto simp: pool_ok_def pooled_def)

section \<open>Discarding\<close>

lemma discard_free:
  assumes "sessLease (sessions S x) = None"
  shows "discard x S = S\<lparr>sessions := (sessions S)(x := (sessions S x)\<lparr>ctlClosed := True\<rparr>)\<rparr>"
proof -
  have eq: "(sessions S x)\<lparr>sessLease := None, ctlClosed := True\<rparr> = (sessions S x)\<lparr>ctlClosed := True\<rparr>" using assms by (cases "sessions S x") simp
  have "discard x S = S\<lparr>sessions := (sessions S)(x := (sessions S x)\<lparr>sessLease := None, ctlClosed := True\<rparr>)\<rparr>"
    using assms by (simp add: discard_def swapLease_def Let_def)
  then show ?thesis unfolding eq .
qed

definition shutAll :: "nat set \<Rightarrow> (nat \<Rightarrow> ftpSession) \<Rightarrow> nat \<Rightarrow> ftpSession" where
  "shutAll D f x = (if x \<in> D then (f x)\<lparr>ctlClosed := True\<rparr> else f x)"

lemma discardAll_free:
  "\<forall>s \<in> set ss. sessLease (sessions S (sid s)) = None \<Longrightarrow> discardAll ss S = S\<lparr>sessions := shutAll (sid ` set ss) (sessions S)\<rparr>"
proof (induction ss arbitrary: S)
  case Nil then show ?case by (simp add: discardAll_def shutAll_def [abs_def])
next
  case (Cons s ss)
  let ?T = "S\<lparr>sessions := (sessions S)(sid s := (sessions S (sid s))\<lparr>ctlClosed := True\<rparr>)\<rparr>"
  have "discardAll (s # ss) S = discardAll ss ?T" using Cons.prems by (simp add: discardAll_def discard_free)
  also have "\<dots> = ?T\<lparr>sessions := shutAll (sid ` set ss) (sessions ?T)\<rparr>" using Cons.prems by (intro Cons.IH) auto
  also have "sessions ?T = (sessions S)(sid s := (sessions S (sid s))\<lparr>ctlClosed := True\<rparr>)" by simp
  also have "shutAll (sid ` set ss) \<dots> = shutAll (sid ` set (s # ss)) (sessions S)" by (auto simp: shutAll_def fun_eq_iff)
  finally show ?case by simp
qed

lemma req_ok_shut:
  assumes "req_ok S r q" "D \<subseteq> pooled S" "pooled T \<subseteq> pooled S" "leases T = leases S" "nextSid T = nextSid S" "sessions T = shutAll D (sessions S)"
  shows "req_ok T r q"
proof (cases q)
  case Fresh with assms show ?thesis by simp
next
  case (Own st x)
  then have "x \<notin> pooled S" using assms(1) by simp
  then have "sessions T x = sessions S x" using assms(2,6) by (auto simp: shutAll_def)
  with Own assms show ?thesis by auto
next
  case Released
  then obtain l where l: "leases S r = Some l" "leaseSess l < nextSid S" "danger l \<longrightarrow> ctlClosed (sessions S (leaseSess l))" using assms(1) by auto
  have "ctlClosed (sessions S y) \<Longrightarrow> ctlClosed (sessions T y)" for y using assms(6) by (simp add: shutAll_def)
  with l Released assms(4,5) show ?thesis by auto
qed

text \<open>Sessions that leave the pool to be closed.\<close>

lemma pool_drop_inv:
  assumes "ftp_inv S" "sessionsOf (ftpPool (thePool S)) = mset ex + sessionsOf (ftpPool P)" "pool_inv (clock S) P"
  shows "ftp_inv (discardAll ex (S\<lparr>thePool := P\<rparr>))"
proof -
  note ok = ftp_invD(1) [OF assms(1)]
  let ?D = "sid ` set ex" and ?M = "sessionsOf (ftpPool (thePool S))" and ?N = "sessionsOf (ftpPool P)"
  have D: "?D \<subseteq> pooled S" using assms(2) by (auto simp: pooled_def)
  have free: "\<forall>s \<in> set ex. sessLease (sessions (S\<lparr>thePool := P\<rparr>) (sid s)) = None"
    using pooled_free(3) [OF ok] D by auto
  define T where "T = S\<lparr>thePool := P, sessions := shutAll ?D (sessions S)\<rparr>"
  have eq: "discardAll ex (S\<lparr>thePool := P\<rparr>) = T" using discardAll_free [OF free] by (simp add: T_def)
  have "once (image_mset sid (mset ex) + image_mset sid ?N)" using ok unfolding pool_ok_def assms(2) by simp
  from once_sum [OF this] have on: "once (image_mset sid ?N)" "?D \<inter> sid ` set_mset ?N = {}" by auto
  have N: "s \<in># ?N \<Longrightarrow> s \<in># ?M" for s using assms(2) by simp
  have T [simp]: "thePool T = P" "leases T = leases S" "nextSid T = nextSid S" "sessions T = shutAll ?D (sessions S)" "reqs T = reqs S" "clock T = clock S"
    by (simp_all add: T_def)
  have sub: "pooled T \<subseteq> pooled S" and dis: "pooled T = pooled S - ?D"
    using N on(2) assms(2) by (auto simp: pooled_def)
  show ?thesis unfolding eq
  proof (rule ftp_invI)
    have "sid s < nextSid T \<and> sessions T (sid s) = \<lparr>ctlClosed = False, sessLease = None, sessKey = skey s\<rparr>" if "s \<in># ?N" for s
      using ok N [OF that] on(2) that by (auto simp: pool_ok_def shutAll_def)
    then show "pool_ok T" using on(1) assms(3) by (simp add: pool_ok_def)
    show "req_ok T r (reqs T r)" for r using req_ok_shut [OF ftp_invD(2) [OF assms(1)] D sub] by simp
    show "reqs T r = Own st x \<Longrightarrow> reqs T q = Own st' x \<Longrightarrow> r = q" for r q st st' x using ftp_invD(3) [OF assms(1)] by simp
    show "x \<in> pooled T \<or> (\<exists>r st. reqs T r = Own st x) \<or> ctlClosed (sessions T x)" if "x < nextSid T" for x
      using ftp_invD(4) [OF assms(1), of x] that by (auto simp: dis shutAll_def)
  qed
qed

section \<open>Steps on one session\<close>

text \<open>A step of request \<open>r\<close> that keeps the pool and who owns what, and changes only its own lease and session.\<close>

lemma own_step_inv:
  assumes inv: "ftp_inv S" and r: "reqs S r = Own st x" "reqs T = (reqs S)(r := Own st' x)"
    and T: "thePool T = thePool S" "nextSid T = nextSid S" "clock T = clock S" "\<And>q. q \<noteq> r \<Longrightarrow> leases T q = leases S q"
      "\<And>y. y \<noteq> x \<Longrightarrow> sessions T y = sessions S y" "ctlClosed (sessions T x) = ctlClosed (sessions S x)"
    and ok: "req_ok T r (Own st' x)"
  shows "ftp_inv T"
proof (rule ftp_invI)
  have P: "pooled T = pooled S" by (simp add: pooled_def T)
  have xr: "x \<notin> pooled S" using ftp_invD(2) [OF inv, of r] r(1) by simp
  note okS = ftp_invD(1) [OF inv]
  have "sessions T (sid s) = sessions S (sid s)" if "s \<in># sessionsOf (ftpPool (thePool S))" for s
  proof -
    have "sid s \<noteq> x" using xr that by (auto simp: pooled_def)
    then show ?thesis by (rule T(5))
  qed
  then show "pool_ok T" using okS by (simp add: pool_ok_def T)
  show "req_ok T q (reqs T q)" for q
  proof (cases "q = r")
    case True then show ?thesis using ok r(2) by simp
  next
    case False
    note o = ftp_invD(2) [OF inv, of q]
    have rq: "reqs T q = reqs S q" using False r(2) by simp
    have lq: "leases T q = leases S q" using False by (rule T(4))
    show ?thesis
    proof (cases "reqs S q")
      case Fresh then show ?thesis using o rq lq by simp
    next
      case (Own s y)
      then have "y \<noteq> x" using ftp_invD(3) [OF inv] r(1) False by blast
      then have "sessions T y = sessions S y" by (rule T(5))
      with Own show ?thesis using o rq lq P T(2) by simp
    next
      case Released
      have "ctlClosed (sessions T y) = ctlClosed (sessions S y)" for y using T(5,6) by (cases "y = x") auto
      with Released show ?thesis using o rq lq T(2) by simp
    qed
  qed
  show "p = q" if "reqs T p = Own s y" "reqs T q = Own s' y" for p q s s' y
  proof -
    have "\<exists>s. reqs S p = Own s y" if "reqs T p = Own s y" for p s using that r by (cases "p = r") auto
    with that obtain a b where "reqs S p = Own a y" "reqs S q = Own b y" by blast
    then show ?thesis by (rule ftp_invD(3) [OF inv])
  qed
  show "y \<in> pooled T \<or> (\<exists>q s. reqs T q = Own s y) \<or> ctlClosed (sessions T y)" if "y < nextSid T" for y
  proof -
    have c: "ctlClosed (sessions T y) = ctlClosed (sessions S y)" using T(5,6) by (cases "y = x") auto
    have "\<exists>s. reqs T q = Own s y" if "reqs S q = Own s y" for q s using that r by (cases "q = r") auto
    then have "\<exists>q s. reqs S q = Own s y \<Longrightarrow> \<exists>q s. reqs T q = Own s y" by blast
    then show ?thesis using ftp_invD(4) [OF inv, of y] that c P T(2) by argo
  qed
qed

lemma ownD:
  assumes "ftp_inv S" "reqs S r = Own st x" "st \<noteq> Holding"
  obtains l where "leases S r = Some l" "leaseSess l = x" "stage_ok st l (ctlClosed (sessions S x))" "sessLease (sessions S x) = Some r" "x < nextSid S" "x \<notin> pooled S"
  using ftp_invD(2) [OF assms(1), of r] assms(2,3) by auto

text \<open>The stages a request moves through while it owns its session.\<close>

lemma stage_fail: "stage_ok Failing (fst (stopHook l)) c" by simp

lemma stage_refused: "stage_ok Opening l c \<Longrightarrow> stopHook l = (l', b) \<Longrightarrow> stage_ok (if b then Parking else Dropping) l' c"
  by (auto simp: stopHook_def danger_def split: if_splits)

lemma stage_begin: "stage_ok Opening l c \<Longrightarrow> beginTransfer l = (l', True) \<Longrightarrow> stage_ok Streaming l' c"
  by (auto simp: beginTransfer_def split: if_splits)

lemma stage_open: "stage_ok Opening l c \<Longrightarrow> openNext oe l = (st, l') \<Longrightarrow> stage_ok st l' c"
proof (cases oe)
  case (RetrFails e)
  assume "stage_ok Opening l c" "openNext oe l = (st, l')"
  with stage_refused [of l c] RetrFails show ?thesis by (cases "stopHook l") (auto split: if_splits)
next
  case Started
  assume "stage_ok Opening l c" "openNext oe l = (st, l')"
  with stage_begin [of l c] Started show ?thesis by (cases "beginTransfer l") (auto split: if_splits)
qed auto

lemma openNext_lease: "openNext oe l = (st, l') \<Longrightarrow> leaseSess l' = leaseSess l \<and> st \<noteq> Holding"
  by (cases oe) (auto simp: stopHook_def beginTransfer_def split: if_splits prod.splits)

lemma stage_close: "stage_ok Streaming l c \<Longrightarrow> stage_ok Closing (fst (stopHook l)) c"
  by (auto simp: stopHook_def)

lemma stage_reply: "stage_ok Closing l c \<Longrightarrow> stage_ok (if b \<and> \<not> c then Parking else Dropping) l c"
  by (auto simp: danger_def)

lemma lease_sess [simp]: "leaseSess (fst (stopHook l)) = leaseSess l" "leaseSess (fst (beginTransfer l)) = leaseSess l"
  by (simp_all add: stopHook_def beginTransfer_def)

lemma set_simps [simp]:
  "reqs (setReq r q S) = (reqs S)(r := q)" "leases (setReq r q S) = leases S" "sessions (setReq r q S) = sessions S"
  "nextSid (setReq r q S) = nextSid S" "thePool (setReq r q S) = thePool S" "clock (setReq r q S) = clock S"
  "reqs (setLease r l S) = reqs S" "leases (setLease r l S) = (leases S)(r \<mapsto> l)" "sessions (setLease r l S) = sessions S"
  "nextSid (setLease r l S) = nextSid S" "thePool (setLease r l S) = thePool S" "clock (setLease r l S) = clock S"
  by (simp_all add: setReq_def setLease_def)

lemma pooled_set [simp]: "pooled (setReq r q S) = pooled S" "pooled (setLease r l S) = pooled S"
  by (simp_all add: pooled_def)

lemma stage_step_inv:
  assumes inv: "ftp_inv S" and r: "reqs S r = Own st x" "st \<noteq> Holding" "st' \<noteq> Holding" and l: "leases S r = Some l" "leaseSess l' = leaseSess l"
    and st: "stage_ok st l (ctlClosed (sessions S x)) \<Longrightarrow> stage_ok st' l' (ctlClosed (sessions S x))"
  shows "ftp_inv (setReq r (Own st' x) (setLease r l' S))"
proof -
  obtain m where m: "leases S r = Some m" "leaseSess m = x" "stage_ok st m (ctlClosed (sessions S x))" "sessLease (sessions S x) = Some r"
    "x < nextSid S" "x \<notin> pooled S" by (rule ownD [OF inv r(1,2)])
  have "m = l" using m(1) l(1) by simp
  with m st l(2) r(3) have ok: "req_ok (setReq r (Own st' x) (setLease r l' S)) r (Own st' x)" by simp
  show ?thesis by (rule own_step_inv [OF inv r(1) _ _ _ _ _ _ _ ok]) simp_all
qed

section \<open>Preservation\<close>

lemma inv_bind:
  assumes inv: "ftp_inv S" and r: "reqs S r = Own Holding x"
  shows "ftp_inv (setReq r (Own Opening x) (setLease r (bindLease x) (S\<lparr>sessions := (sessions S)(x := (sessions S x)\<lparr>sessLease := Some r\<rparr>)\<rparr>)))" (is "ftp_inv ?T")
proof -
  have o: "x < nextSid S" "x \<notin> pooled S" "\<not> ctlClosed (sessions S x)" using ftp_invD(2) [OF inv, of r] r by auto
  have "pooled ?T = pooled S" by (simp add: pooled_def)
  with o have ok: "req_ok ?T r (Own Opening x)" by (simp add: bindLease_def)
  show ?thesis by (rule own_step_inv [OF inv r _ _ _ _ _ _ _ ok]) simp_all
qed

lemma hook_safe: "hookStep l = Some (l', shut) \<Longrightarrow> shut \<longrightarrow> danger l" "hookStep l = Some (l', shut) \<Longrightarrow> danger l' \<longrightarrow> danger l"
  "hookStep l = Some (l', shut) \<Longrightarrow> leaseSess l' = leaseSess l"
  by (auto simp: hookStep_def danger_def split: hookState.splits if_splits)

lemma hook_stage: "hookStep l = Some (l', shut) \<Longrightarrow> stage_ok st l c \<Longrightarrow> stage_ok st l' (c \<or> shut)"
  by (cases st; cases "phase l") (auto simp: hookStep_def danger_def split: hookState.splits if_splits)

lemma pool_ok_frame:
  assumes "pool_ok S" "thePool T = thePool S" "nextSid S \<le> nextSid T" "clock T = clock S" "\<And>y. y \<in> pooled S \<Longrightarrow> sessions T y = sessions S y"
  shows "pool_ok T"
proof -
  have "sessions T (sid s) = sessions S (sid s)" if "s \<in># sessionsOf (ftpPool (thePool S))" for s
    using that by (intro assms(5)) (simp add: pooled_def)
  with assms(1-4) show ?thesis by (fastforce simp: pool_ok_def)
qed

lemma inv_hook:
  assumes inv: "ftp_inv S" and l: "leases S r = Some l" "hookStep l = Some (l', shut)"
  shows "ftp_inv ((setLease r l' S)\<lparr>sessions := (if shut then (sessions S)(leaseSess l := (sessions S (leaseSess l))\<lparr>ctlClosed := True\<rparr>) else sessions S)\<rparr>)"
    (is "ftp_inv ?T")
proof -
  let ?x = "leaseSess l"
  have S: "sessions ?T y = (if shut \<and> y = ?x then (sessions S y)\<lparr>ctlClosed := True\<rparr> else sessions S y)" for y by simp
  have P: "pooled ?T = pooled S" by (simp add: pooled_def)
  note ro = ftp_invD(2) [OF inv, of r]
  have where1: "(\<exists>st. reqs S r = Own st ?x \<and> st \<noteq> Holding \<and> stage_ok st l (ctlClosed (sessions S ?x))) \<or>
      reqs S r = Released \<and> ?x < nextSid S \<and> (danger l \<longrightarrow> ctlClosed (sessions S ?x))"
    using ro l(1) by (cases "reqs S r") (auto split: if_splits)
  have shut_in: "sessions ?T y = sessions S y" if "y \<in> pooled S" for y
  proof (cases "shut \<and> y = ?x")
    case True
    then have "danger l" using hook_safe(1) [OF l(2)] by simp
    then consider st where "reqs S r = Own st ?x" | "ctlClosed (sessions S ?x)" using where1 by blast
    then show ?thesis
    proof cases
      case 1
      then have "?x \<notin> pooled S" using ro by simp
      with that True show ?thesis by simp
    next
      case 2
      with pooled_free(2) [OF ftp_invD(1) [OF inv] that] True show ?thesis by simp
    qed
  qed (simp add: S)
  have other: "sessions ?T y = sessions S y" if "q \<noteq> r" "reqs S q = Own st y" for q st y
  proof (cases "shut \<and> y = ?x")
    case True
    then have dl: "danger l" using hook_safe(1) [OF l(2)] by simp
    consider st' where "reqs S r = Own st' ?x" | "ctlClosed (sessions S ?x)" using where1 dl by blast
    then show ?thesis
    proof cases
      case 1
      with ftp_invD(3) [OF inv, of q st y r] that True show ?thesis by blast
    next
      case 2
      then have "(sessions S y)\<lparr>ctlClosed := True\<rparr> = sessions S y" using True by (cases "sessions S y") simp
      then show ?thesis unfolding S by (simp only: if_cancel)
    qed
  qed (simp add: S)
  have mono: "ctlClosed (sessions S y) \<Longrightarrow> ctlClosed (sessions ?T y)" for y by (simp add: S)
  show ?thesis
  proof (rule ftp_invI)
    show "pool_ok ?T" by (rule pool_ok_frame [OF ftp_invD(1) [OF inv]]) (use shut_in in simp_all)
    show "req_ok ?T q (reqs ?T q)" for q
    proof (cases "q = r")
      case True
      show ?thesis
      proof (cases "reqs S r")
        case Fresh then show ?thesis using ro l(1) by simp
      next
        case (Own st y)
        then have st: "st \<noteq> Holding" "y = ?x" "stage_ok st l (ctlClosed (sessions S ?x))" using where1 by auto
        have "stage_ok st l' (ctlClosed (sessions ?T ?x))" using hook_stage [OF l(2) st(3)] by (cases shut) simp_all
        then show ?thesis using Own st ro True hook_safe(3) [OF l(2)] P by simp
      next
        case Released
        then have "?x < nextSid S" "danger l \<longrightarrow> ctlClosed (sessions S ?x)" using where1 by auto
        then show ?thesis using Released True hook_safe(2,3) [OF l(2)] mono by auto
      qed
    next
      case False
      note o = ftp_invD(2) [OF inv, of q]
      show ?thesis
      proof (cases "reqs S q")
        case (Own st y)
        then have "sessions ?T y = sessions S y" using other False by blast
        then show ?thesis using Own o False P by simp
      next
        case Released then show ?thesis using o False mono by auto
      qed (use o False in simp)
    qed
    show "p = q" if "reqs ?T p = Own s y" "reqs ?T q = Own s' y" for p q s s' y
      using that ftp_invD(3) [OF inv, of p s y q s'] by simp
    show "y \<in> pooled ?T \<or> (\<exists>q s. reqs ?T q = Own s y) \<or> ctlClosed (sessions ?T y)" if "y < nextSid ?T" for y
      using ftp_invD(4) [OF inv, of y] that P mono [of y] by auto
  qed
qed

lemma owned_grow: "\<exists>q st. reqs S q = Own st y \<Longrightarrow> reqs S r = Fresh \<Longrightarrow> reqs T = (reqs S)(r := h) \<Longrightarrow> \<exists>q st. reqs T q = Own st y"
proof -
  assume "\<exists>q st. reqs S q = Own st y" and r: "reqs S r = Fresh" "reqs T = (reqs S)(r := h)"
  then obtain q st where q: "reqs S q = Own st y" by blast
  then have "q \<noteq> r" using r(1) by auto
  with q r(2) show ?thesis by (intro exI [of _ q] exI [of _ st]) simp
qed

lemma inv_get:
  assumes inv: "ftp_inv S" and r: "reqs S r = Fresh" and g: "ftpPoolGet now key (thePool S) = (Some s, ex, P)"
  shows "ftp_inv (setReq r (Own Holding (sid s)) (discardAll ex (S\<lparr>thePool := P\<rparr>)))"
proof -
  let ?M = "sessionsOf (ftpPool (thePool S))" and ?N = "sessionsOf (ftpPool P)"
  note okS = ftp_invD(1) [OF inv]
  have pi: "pool_inv (clock S) (thePool S)" using okS by (simp add: pool_ok_def)
  note gt = ftpPoolGet_spec [OF pi g]
  then have ex: "ex = []" and sk: "idleOf (ftpPool (thePool S)) key = idleOf (ftpPool P) key @ [s]" and piP: "pool_inv (clock S) P" by auto
  have d: "distinct (map fst (ftpPool (thePool S)))" by (rule pool_inv_wf(2) [OF pool_inv_wf(1) [OF pi]])
  have P: "ftpPool P = putIdle key (idleOf (ftpPool P) key) (ftpPool (thePool S))"
    using g by (auto simp: ftpPoolGet_def idleOf_putIdle split: prod.splits)
  have M: "?M = add_mset s ?N" using sessions_putIdle [OF d, of key "idleOf (ftpPool P) key"] unfolding sk P [symmetric] by simp
  then have on: "once (image_mset sid ?N)" "sid s \<notin> sid ` set_mset ?N" using okS unfolding pool_ok_def M by (simp_all add: once_add)
  define T where "T = setReq r (Own Holding (sid s)) (S\<lparr>thePool := P\<rparr>)"
  have T [simp]: "thePool T = P" "leases T = leases S" "nextSid T = nextSid S" "sessions T = sessions S" "reqs T = (reqs S)(r := Own Holding (sid s))" "clock T = clock S"
    by (simp_all add: T_def)
  have pT: "pooled S = insert (sid s) (pooled T)" "sid s \<notin> pooled T" using on(2) by (simp_all add: pooled_def M)
  have ss: "sid s \<in> pooled S" using pT by simp
  have "ftp_inv T"
  proof (rule ftp_invI)
    show "pool_ok T" using okS piP on(1) unfolding pool_ok_def by (simp add: M)
    show "req_ok T q (reqs T q)" for q
    proof (cases "q = r")
      case True
      then show ?thesis using pooled_free [OF okS ss] pT ftp_invD(2) [OF inv, of r] r by simp
    next
      case False
      then show ?thesis using ftp_invD(2) [OF inv, of q] pT by (cases "reqs S q") auto
    qed
    have out: "reqs S q \<noteq> Own st (sid s)" for q st using ftp_invD(2) [OF inv, of q] ss by auto
    show "p = q" if "reqs T p = Own st y" "reqs T q = Own st' y" for p q st st' y
      using that out ftp_invD(3) [OF inv, of p st y q st'] by (auto split: if_splits)
    show "y \<in> pooled T \<or> (\<exists>q st. reqs T q = Own st y) \<or> ctlClosed (sessions T y)" if "y < nextSid T" for y
    proof (cases "y = sid s")
      case True then show ?thesis by (intro disjI2 disjI1 exI [of _ r] exI [of _ Holding]) simp
    next
      case False
      have y: "y < nextSid S" using that by simp
      consider "y \<in> pooled S" | "\<exists>q st. reqs S q = Own st y" | "ctlClosed (sessions S y)" using ftp_invD(4) [OF inv y] by blast
      then show ?thesis
      proof cases
        case 2 with owned_grow [OF _ r T(5)] show ?thesis by blast
      qed (use False pT in auto)
    qed
  qed
  then show ?thesis by (simp add: T_def ex discardAll_def)
qed

lemma inv_new:
  assumes inv: "ftp_inv S" and r: "reqs S r = Fresh"
  shows "ftp_inv (setReq r (Own Holding (nextSid S))
       (S\<lparr>sessions := (sessions S)(nextSid S := \<lparr>ctlClosed = False, sessLease = None, sessKey = key\<rparr>), nextSid := Suc (nextSid S)\<rparr>))" (is "ftp_inv ?T")
proof -
  note okS = ftp_invD(1) [OF inv]
  have P: "pooled ?T = pooled S" by (simp add: pooled_def)
  have new: "nextSid S \<notin> pooled S" using pooled_free(1) [OF okS, of "nextSid S"] by auto
  have old: "y < nextSid S \<Longrightarrow> sessions ?T y = sessions S y" for y by simp
  have lt: "reqs S q = Own st y \<Longrightarrow> y < nextSid S" for q st y using ftp_invD(2) [OF inv, of q] by auto
  show ?thesis
  proof (rule ftp_invI)
    show "pool_ok ?T" by (rule pool_ok_frame [OF okS]) (use new in auto)
    show "req_ok ?T q (reqs ?T q)" for q
    proof (cases "q = r")
      case True
      then show ?thesis using new P ftp_invD(2) [OF inv, of r] r by simp
    next
      case False
      note o = ftp_invD(2) [OF inv, of q]
      show ?thesis
      proof (cases "reqs S q")
        case (Own st y)
        then have "sessions ?T y = sessions S y" "y < Suc (nextSid S)" using lt [OF Own] old by auto
        then show ?thesis using Own o False P by simp
      next
        case Released
        then obtain l where l: "leases S q = Some l" "leaseSess l < nextSid S" "danger l \<longrightarrow> ctlClosed (sessions S (leaseSess l))" using o by auto
        then show ?thesis using Released False by simp
      qed (use o False in simp)
    qed
    show "p = q" if "reqs ?T p = Own st y" "reqs ?T q = Own st' y" for p q st st' y
      using that lt [of p st y] lt [of q st' y] ftp_invD(3) [OF inv, of p st y q st'] by (auto split: if_splits)
    show "y \<in> pooled ?T \<or> (\<exists>q st. reqs ?T q = Own st y) \<or> ctlClosed (sessions ?T y)" if "y < nextSid ?T" for y
    proof (cases "y = nextSid S")
      case True then show ?thesis by (intro disjI2 disjI1 exI [of _ r] exI [of _ Holding]) simp
    next
      case False
      then have y: "y < nextSid S" using that by simp
      consider "y \<in> pooled S" | "\<exists>q st. reqs S q = Own st y" | "ctlClosed (sessions S y)" using ftp_invD(4) [OF inv y] by auto
      then show ?thesis
      proof cases
        case 2
        have "reqs ?T = (reqs S)(r := Own Holding (nextSid S))" by simp
        with owned_grow [OF 2 r] show ?thesis by blast
      qed (use P old [OF y] in auto)
    qed
  qed
qed

text \<open>The end of a request: it owns nothing any more, and its session is in the pool or closed.\<close>

lemma release_inv:
  assumes inv: "ftp_inv S" and r: "reqs S r = Own st x" "st \<noteq> Holding" and l: "leases S r = Some l"
    and T: "reqs T = (reqs S)(r := Released)" "nextSid T = nextSid S" "leases T = (leases S)(r \<mapsto> l\<lparr>dataClosed := True\<rparr>)"
      "sessions T = shutAll D ((sessions S)(x := (sessions S x)\<lparr>sessLease := None\<rparr>))"
    and D: "D \<subseteq> insert x (pooled S)" "pooled T = insert x (pooled S) - D" and pk: "pool_ok T" and dg: "danger l \<longrightarrow> ctlClosed (sessions S x) \<or> x \<in> D"
  shows "ftp_inv T"
proof -
  obtain m where m: "leases S r = Some m" "leaseSess m = x" "stage_ok st m (ctlClosed (sessions S x))" "sessLease (sessions S x) = Some r"
    "x < nextSid S" "x \<notin> pooled S" by (rule ownD [OF inv r])
  have lm: "m = l" using m(1) l by simp
  have same: "sessions T y = sessions S y" if "y \<noteq> x" "y \<notin> pooled S" for y using that T(4) D(1) by (auto simp: shutAll_def)
  have mono: "ctlClosed (sessions S y) \<Longrightarrow> ctlClosed (sessions T y)" for y using T(4) by (auto simp: shutAll_def)
  have shut: "y \<in> D \<Longrightarrow> ctlClosed (sessions T y)" for y using T(4) by (simp add: shutAll_def)
  show ?thesis
  proof (rule ftp_invI)
    show "pool_ok T" by (rule pk)
    show "req_ok T q (reqs T q)" for q
    proof (cases "q = r")
      case True
      have "danger (l\<lparr>dataClosed := True\<rparr>) = danger l" by (simp add: danger_def)
      then show ?thesis using True T(1,2,3) m lm dg mono shut by auto
    next
      case False
      note o = ftp_invD(2) [OF inv, of q]
      show ?thesis
      proof (cases "reqs S q")
        case (Own s y)
        then have y: "y \<noteq> x" "y \<notin> pooled S" using ftp_invD(3) [OF inv Own, of r st] r(1) False o by auto
        then have "y \<notin> pooled T" "sessions T y = sessions S y" using D(2) same by auto
        then show ?thesis using Own o False T(1,2,3) by simp
      next
        case Released then show ?thesis using o False T(1,2,3) mono by auto
      qed (use o False T(1,3) in simp)
    qed
    show "p = q" if "reqs T p = Own s y" "reqs T q = Own s' y" for p q s s' y
      using that ftp_invD(3) [OF inv, of p s y q s'] T(1) by (auto split: if_splits)
    show "y \<in> pooled T \<or> (\<exists>q s. reqs T q = Own s y) \<or> ctlClosed (sessions T y)" if "y < nextSid T" for y
    proof -
      have y: "y < nextSid S" using that T(2) by simp
      consider "y = x \<or> y \<in> pooled S" | q s where "reqs S q = Own s y" "y \<noteq> x" | "ctlClosed (sessions S y)"
        using ftp_invD(4) [OF inv y] by blast
      then show ?thesis
      proof cases
        case 1 then show ?thesis using D(2) shut by blast
      next
        case 2
        then have "q \<noteq> r" using r(1) by auto
        with 2 T(1) have "reqs T q = Own s y" by simp
        then show ?thesis by blast
      next
        case 3 then show ?thesis using mono by blast
      qed
    qed
  qed
qed

lemma swap_own:
  assumes "sessLease (sessions S x) = Some r" "leases S r = Some l"
  shows "swapLease x S = S\<lparr>leases := (leases S)(r \<mapsto> l\<lparr>dataClosed := True\<rparr>), sessions := (sessions S)(x := (sessions S x)\<lparr>sessLease := None\<rparr>)\<rparr>"
  using assms by (simp add: swapLease_def)

lemma inv_discard:
  assumes inv: "ftp_inv S" and r: "reqs S r = Own st x" "st = Failing \<or> st = Dropping"
  shows "ftp_inv (setReq r Released (discard x S))" (is "ftp_inv ?T")
proof -
  have st: "st \<noteq> Holding" using r(2) by auto
  obtain l where l: "leases S r = Some l" "leaseSess l = x" "sessLease (sessions S x) = Some r" "x \<notin> pooled S" by (rule ownD [OF inv r(1) st])
  have eq: "discard x S = S\<lparr>leases := (leases S)(r \<mapsto> l\<lparr>dataClosed := True\<rparr>), sessions := shutAll {x} ((sessions S)(x := (sessions S x)\<lparr>sessLease := None\<rparr>))\<rparr>"
    unfolding discard_def swap_own [OF l(3,1)] Let_def by (auto simp: shutAll_def fun_eq_iff)
  have P: "pooled ?T = pooled S" unfolding eq by (simp add: pooled_def)
  show ?thesis
  proof (rule release_inv [OF inv r(1) st l(1), where D = "{x}"])
    show "pool_ok ?T" by (rule pool_ok_frame [OF ftp_invD(1) [OF inv]]) (use l(4) in \<open>auto simp: eq shutAll_def\<close>)
    show "pooled ?T = insert x (pooled S) - {x}" using P l(4) by simp
  qed (simp_all add: eq)
qed

lemma set_rest: "A \<union> D = I \<Longrightarrow> D \<inter> A = {} \<Longrightarrow> A = I - D"
  by blast

lemma inv_put:
  assumes inv: "ftp_inv S" and r: "reqs S r = Own Parking x" and now: "clock S \<le> now"
    and put: "ftpPoolPut ord now (parkable x S) (thePool S) = (ev, P)"
  shows "ftp_inv (setReq r Released (discardAll ev ((swapLease x S)\<lparr>thePool := P, clock := now\<rparr>)))"
proof -
  obtain l where l: "leases S r = Some l" "leaseSess l = x" "stage_ok Parking l (ctlClosed (sessions S x))" "sessLease (sessions S x) = Some r"
    "x < nextSid S" "x \<notin> pooled S" by (rule ownD [OF inv r]) simp_all
  note okS = ftp_invD(1) [OF inv]
  have pi: "pool_inv (clock S) (thePool S)" using okS by (simp add: pool_ok_def)
  let ?M = "sessionsOf (ftpPool (thePool S))" and ?N = "sessionsOf (ftpPool P)"
  let ?s = "(parkable x S)\<lparr>idleSince := now\<rparr>" and ?D = "sid ` set ev"
  note ps = ftpPoolPut_spec [OF pi now put]
  have piP: "pool_inv now P" and ms: "?N + mset ev = add_mset ?s ?M" using ps by blast+
  have sx: "sid ?s = x" by (simp add: parkable_def)
  define U where "U = (sessions S)(x := (sessions S x)\<lparr>sessLease := None\<rparr>)"
  have "once (image_mset sid (add_mset ?s ?M))" using okS l(6) sx by (simp add: pool_ok_def once_add pooled_def)
  then have "once (image_mset sid ?N + image_mset sid (mset ev))" unfolding ms [symmetric] by simp
  from once_sum [OF this] have on: "once (image_mset sid ?N)" "?D \<inter> sid ` set_mset ?N = {}" by auto
  have memb: "s \<in># ?N \<or> s \<in> set ev \<longleftrightarrow> s = ?s \<or> s \<in># ?M" for s
    using arg_cong [OF ms, of "\<lambda>A. s \<in># A"] by simp
  have free: "U (sid s) = \<lparr>ctlClosed = False, sessLease = None, sessKey = skey s\<rparr> \<and> sid s < nextSid S" if "s = ?s \<or> s \<in># ?M" for s
  proof (cases "s = ?s")
    case True
    have "\<not> ctlClosed (sessions S x)" using l(3) by simp
    then show ?thesis using True l(5) unfolding U_def by (cases "sessions S x") (simp add: parkable_def)
  next
    case False
    then have sM: "s \<in># ?M" using that by blast
    then have "sid s \<noteq> x" using l(6) by (auto simp: pooled_def)
    then show ?thesis using okS sM by (auto simp: pool_ok_def U_def)
  qed
  let ?V = "(swapLease x S)\<lparr>thePool := P, clock := now\<rparr>"
  have V: "?V = S\<lparr>leases := (leases S)(r \<mapsto> l\<lparr>dataClosed := True\<rparr>), sessions := U, thePool := P, clock := now\<rparr>"
    unfolding swap_own [OF l(4,1)] U_def by simp
  have "sessLease (U (sid s)) = None" if "s \<in> set ev" for s using free [of s] memb [of s] that by simp
  then have "\<forall>s \<in> set ev. sessLease (sessions ?V (sid s)) = None" unfolding V by simp
  then have DV: "discardAll ev ?V = S\<lparr>leases := (leases S)(r \<mapsto> l\<lparr>dataClosed := True\<rparr>), sessions := shutAll ?D U, thePool := P, clock := now\<rparr>"
    by (subst discardAll_free) (simp_all add: V)
  have pT: "pooled (setReq r Released (discardAll ev ?V)) = sid ` set_mset ?N" unfolding DV by (simp add: pooled_def)
  have all: "sid ` set_mset ?N \<union> ?D = insert x (pooled S)"
  proof -
    have "set_mset ?N \<union> set ev = insert ?s (set_mset ?M)" using arg_cong [OF ms, of set_mset] by simp
    from arg_cong [OF this, of "image sid"] show ?thesis by (simp add: image_Un sx pooled_def)
  qed
  show ?thesis
  proof (rule release_inv [OF inv r _ l(1), where D = ?D])
    show "sessions (setReq r Released (discardAll ev ?V)) = shutAll ?D ((sessions S)(x := (sessions S x)\<lparr>sessLease := None\<rparr>))"
      unfolding DV by (simp add: U_def)
    show "?D \<subseteq> insert x (pooled S)" using all by blast
    show "pooled (setReq r Released (discardAll ev ?V)) = insert x (pooled S) - ?D" unfolding pT by (rule set_rest [OF all on(2)])
    have "sid s < nextSid S \<and> shutAll ?D U (sid s) = \<lparr>ctlClosed = False, sessLease = None, sessKey = skey s\<rparr>" if "s \<in># ?N" for s
      using free [of s] memb [of s] on(2) that by (auto simp: shutAll_def)
    then show "pool_ok (setReq r Released (discardAll ev ?V))" unfolding DV using piP on(1) by (simp add: pool_ok_def)
    show "danger l \<longrightarrow> ctlClosed (sessions S x) \<or> x \<in> ?D" using l(3) by simp
  qed (simp_all add: DV)
qed

interpretation ftp_sys: inv_system ftp_start ftp_step ftp_inv
proof unfold_locales
  fix S assume "ftp_start S"
  then have st: "reqs S r = Fresh" "leases S r = None" "nextSid S = 0" "ftpPool (thePool S) = []" "ftpPoolIdle (thePool S) = 0" for r
    by (simp_all add: ftp_start_def)
  then have "pool_ok S" by (simp add: pool_ok_def pool_inv_def wf_idle_def idleOf_def sessionsOf_def once_def ftpPoolMaxIdle_def)
  then show "ftp_inv S" by (rule ftp_invI) (simp_all add: st)
next
  fix S T assume inv: "ftp_inv S" and "ftp_step S T"
  have pi: "pool_inv (clock S) (thePool S)" using ftp_invD(1) [OF inv] by (simp add: pool_ok_def)
  obtain a where "ftp_act a S T" using \<open>ftp_step S T\<close> unfolding ftp_step_def by blast
  then show "ftp_inv T"
  proof cases
    case (fs_get r now key s ex P) then show ?thesis using inv_get [OF inv] by simp
  next
    case (fs_miss r now key ex P)
    note g = ftpPoolGet_spec [OF pi fs_miss(4)]
    have d: "distinct (map fst (ftpPool (thePool S)))" by (rule pool_inv_wf(2) [OF pool_inv_wf(1) [OF pi]])
    have P: "ftpPool P = putIdle key (idleOf (ftpPool P) key) (ftpPool (thePool S))"
      using fs_miss(4) by (auto simp: ftpPoolGet_def idleOf_putIdle split: prod.splits)
    have "sessionsOf (ftpPool (thePool S)) = mset ex + sessionsOf (ftpPool P)"
      using sessions_putIdle [OF d, of key "idleOf (ftpPool P) key"] g unfolding P [symmetric] by (simp add: union_commute)
    moreover have "pool_inv (clock S) P" using g by simp
    ultimately show ?thesis unfolding fs_miss(2) by (rule pool_drop_inv [OF inv])
  next
    case (fs_new r key) then show ?thesis using inv_new [OF inv] by simp
  next
    case (fs_bind r x) then show ?thesis using inv_bind [OF inv] by simp
  next
    case (fs_hook r l l' shut) show ?thesis unfolding fs_hook(2) by (rule inv_hook [OF inv fs_hook(3,4)])
  next
    case (fs_open r x l oe st l')
    have o: "leaseSess l' = leaseSess l" "st \<noteq> Holding" using openNext_lease [OF fs_open(6)] by simp_all
    show ?thesis unfolding fs_open(2)
      by (rule stage_step_inv [OF inv fs_open(3) _ o(2) fs_open(4) o(1)], simp, rule stage_open [OF _ fs_open(6)], simp)
  next
    case (fs_close r x l)
    show ?thesis unfolding fs_close(2) by (intro stage_step_inv [OF inv fs_close(3) _ _ fs_close(4)] stage_close) simp_all
  next
    case (fs_reply r x e)
    obtain l where l: "leases S r = Some l" by (rule ownD [OF inv fs_reply(3)]) simp_all
    have "setLease r l S = S" using l by (simp add: setLease_def fun_upd_idem)
    then show ?thesis unfolding fs_reply(2)
      using stage_step_inv [OF inv fs_reply(3) _ _ l refl stage_reply, of "ftpReplySynced e"] by simp
  next
    case (fs_put r x now ord ev P) show ?thesis unfolding fs_put(2) by (rule inv_put [OF inv fs_put(3-5)])
  next
    case (fs_discard r st x) show ?thesis unfolding fs_discard(2) by (rule inv_discard [OF inv fs_discard(3,4)])
  next
    case (fs_janitor ord now ex P)
    note e = ftpPoolEvict_ok [OF pi fs_janitor(3)]
    show ?thesis unfolding fs_janitor(2) by (rule pool_drop_inv [OF inv e(2,1)])
  qed
qed

section \<open>Properties\<close>

text \<open>C31: 
  However requests, cancellations and the janitor interleave: a session in the pool has its control connection open, is bound to no
  request, owned by none, filed under the key it was dialled with, and there only once; no two requests own the same session; and a
  session that a request has just taken, streams from, is closing or is about to park has its control connection open. In
  particular a cancellation that arrives once the transfer has begun, even one whose hook is still running when the session is reused, never closes it.
\<close>
theorem ftp_session_exclusive:
  assumes "reach ftp_start ftp_step S"
  shows "(\<forall>s. s \<in># sessionsOf (ftpPool (thePool S)) \<longrightarrow>
      sessions S (sid s) = \<lparr>ctlClosed = False, sessLease = None, sessKey = skey s\<rparr> \<and> (\<forall>r st. reqs S r \<noteq> Own st (sid s)) \<and>
      count (image_mset sid (sessionsOf (ftpPool (thePool S)))) (sid s) = 1) \<and>
    (\<forall>r q st st' x. reqs S r = Own st x \<longrightarrow> reqs S q = Own st' x \<longrightarrow> r = q) \<and>
    (\<forall>r st x. reqs S r = Own st x \<longrightarrow> st \<in> {Holding, Streaming, Closing, Parking} \<longrightarrow> \<not> ctlClosed (sessions S x))"
proof (intro conjI allI impI)
  have inv: "ftp_inv S" by (rule ftp_sys.reach_inv [OF assms])
  note ok = ftp_invD(1) [OF inv]
  fix s assume s: "s \<in># sessionsOf (ftpPool (thePool S))"
  show "sessions S (sid s) = \<lparr>ctlClosed = False, sessLease = None, sessKey = skey s\<rparr>" using ok s by (simp add: pool_ok_def)
  show "reqs S r \<noteq> Own st (sid s)" for r st using ftp_invD(2) [OF inv, of r] s by (auto simp: pooled_def)
  have "count (image_mset sid (sessionsOf (ftpPool (thePool S)))) (sid s) \<le> 1" using ok by (simp add: pool_ok_def once_def)
  moreover have "sid s \<in># image_mset sid (sessionsOf (ftpPool (thePool S)))" using s by simp
  then have "count (image_mset sid (sessionsOf (ftpPool (thePool S)))) (sid s) > 0" by (simp only: count_greater_zero_iff)
  ultimately show "count (image_mset sid (sessionsOf (ftpPool (thePool S)))) (sid s) = 1" by linarith
next
  fix r q st st' x assume "reqs S r = Own st x" "reqs S q = Own st' x"
  then show "r = q" by (rule ftp_invD(3) [OF ftp_sys.reach_inv [OF assms]])
next
  fix r st x assume "reqs S r = Own st x" "st \<in> {Holding, Streaming, Closing, Parking}"
  then show "\<not> ctlClosed (sessions S x)" using ftp_invD(2) [OF ftp_sys.reach_inv [OF assms], of r] by auto
qed

text \<open>C32: 
  No connection is lost: every session ever dialled is idle in the pool, owned by a request that will release it, or has had its control
  connection closed. The pool itself never holds more than eight sessions, two to a key, and its counter is exact.
\<close>
theorem ftp_no_leak:
  assumes "reach ftp_start ftp_step S"
  shows "(\<forall>x < nextSid S. (\<exists>s. s \<in># sessionsOf (ftpPool (thePool S)) \<and> sid s = x) \<or> (\<exists>r st. reqs S r = Own st x) \<or> ctlClosed (sessions S x)) \<and>
    ftpPoolIdle (thePool S) = int (size (sessionsOf (ftpPool (thePool S)))) \<and> ftpPoolIdle (thePool S) \<le> ftpPoolMaxIdle \<and>
    (\<forall>k. length (idleOf (ftpPool (thePool S)) k) \<le> ftpPoolMaxPerKey)"
proof -
  have inv: "ftp_inv S" by (rule ftp_sys.reach_inv [OF assms])
  have "pool_inv (clock S) (thePool S)" using ftp_invD(1) [OF inv] by (simp add: pool_ok_def)
  moreover have "\<forall>x < nextSid S. (\<exists>s. s \<in># sessionsOf (ftpPool (thePool S)) \<and> sid s = x) \<or> (\<exists>r st. reqs S r = Own st x) \<or> ctlClosed (sessions S x)"
    using ftp_invD(4) [OF inv] unfolding pooled_def image_iff by metis
  ultimately show ?thesis by (simp add: pool_inv_def wf_idle_def)
qed

text \<open>How far a request is from having released its session.\<close>

fun reqRank :: "reqState \<Rightarrow> nat" where
  "reqRank Fresh = 6"
| "reqRank (Own Holding x) = 5"
| "reqRank (Own Opening x) = 4"
| "reqRank (Own Streaming x) = 3"
| "reqRank (Own Closing x) = 2"
| "reqRank (Own Failing x) = 1"
| "reqRank (Own Parking x) = 1"
| "reqRank (Own Dropping x) = 1"
| "reqRank Released = 0"

lemma discardAll_reqs [simp]: "reqs (discardAll ss S) = reqs S"
proof -
  have "reqs (discard x S) = reqs S" for x S by (simp add: discard_def swapLease_def Let_def)
  then show ?thesis unfolding discardAll_def by (induction ss arbitrary: S) auto
qed

lemma swap_reqs [simp]: "reqs (swapLease x S) = reqs S" "reqs (discard x S) = reqs S"
  by (simp_all add: discard_def swapLease_def Let_def)

lemma openNext_rank: "openNext oe l = (st, l') \<Longrightarrow> reqRank (Own st x) < 4"
  by (cases oe) (auto split: if_splits prod.splits)

text \<open>Every step of the request that owns a session brings it closer to the end; the steps of others leave it where it is.\<close>

lemma own_act_rank: "ftp_act a S T \<Longrightarrow> a = ByRequest r \<Longrightarrow> reqs S r = Own st x \<Longrightarrow> reqRank (reqs T r) < reqRank (reqs S r)"
proof (induction rule: ftp_act.induct)
  case (fs_open S q y l oe st' l')
  then show ?case using openNext_rank [OF fs_open.hyps(4)] by simp
qed auto

lemma other_act_same: "ftp_act a S T \<Longrightarrow> a \<noteq> ByRequest r \<Longrightarrow> reqs T r = reqs S r"
  by (induction rule: ftp_act.induct) auto

lemma released_done: "ftp_act a S T \<Longrightarrow> reqs S r = Released \<Longrightarrow> a \<noteq> ByRequest r"
  by (induction rule: ftp_act.induct) auto

text \<open>Runs, with who took each step.\<close>

fun ftp_run :: "ftpSys \<Rightarrow> actor list \<Rightarrow> ftpSys \<Rightarrow> bool" where
  "ftp_run S [] T \<longleftrightarrow> T = S"
| "ftp_run S (a # as) T \<longleftrightarrow> (\<exists>U. ftp_act a S U \<and> ftp_run U as T)"

definition ownSteps :: "nat \<Rightarrow> actor list \<Rightarrow> nat" where
  "ownSteps r as = length (filter (\<lambda>a. a = ByRequest r) as)"

lemma ownSteps_simps [simp]: "ownSteps r [] = 0" "ownSteps r (a # as) = (if a = ByRequest r then Suc (ownSteps r as) else ownSteps r as)"
  by (simp_all add: ownSteps_def)

lemma act_not_fresh: "ftp_act a S T \<Longrightarrow> reqs S r \<noteq> Fresh \<Longrightarrow> reqs T r \<noteq> Fresh"
  by (induction rule: ftp_act.induct) auto

lemma run_rank: "ftp_run S as T \<Longrightarrow> reqs S r \<noteq> Fresh \<Longrightarrow> ownSteps r as + reqRank (reqs T r) \<le> reqRank (reqs S r) \<and> reqs T r \<noteq> Fresh"
proof (induction as arbitrary: S)
  case (Cons a as)
  then obtain U where U: "ftp_act a S U" "ftp_run U as T" by auto
  have nf: "reqs U r \<noteq> Fresh" by (rule act_not_fresh [OF U(1) Cons.prems(2)])
  note IH = Cons.IH [OF U(2) nf]
  show ?case
  proof (cases "a = ByRequest r")
    case True
    then obtain st x where "reqs S r = Own st x" using Cons.prems(2) released_done [OF U(1)] by (cases "reqs S r") auto
    from own_act_rank [OF U(1) True this] IH True show ?thesis by simp
  next
    case False
    with other_act_same [OF U(1) False] IH show ?thesis by simp
  qed
qed simp

lemma reach_run: "ftp_run S as T \<Longrightarrow> reach ftp_start ftp_step S \<Longrightarrow> reach ftp_start ftp_step T"
proof (induction as arbitrary: S)
  case (Cons a as)
  then obtain U where U: "ftp_act a S U" "ftp_run U as T" by auto
  show ?case by (rule Cons.IH [OF U(2) reach_step [OF Cons.prems(2) ftp_stepI [OF U(1)]]])
qed simp

text \<open>While a request owns a session it has a next step, whatever the network answers.\<close>

lemma own_enabled:
  assumes "ftp_inv S" "reqs S r = Own st x"
  shows "\<exists>T. ftp_act (ByRequest r) S T"
proof (cases "st = Holding")
  case True
  with assms(2) show ?thesis by (blast intro: fs_bind)
next
  case False
  obtain l where l: "leases S r = Some l" by (rule ownD [OF assms False])
  obtain ev P where put: "ftpPoolPut (\<lambda>m. m) (clock S) (parkable x S) (thePool S) = (ev, P)"
    by (cases "ftpPoolPut (\<lambda>m. m) (clock S) (parkable x S) (thePool S)") auto
  obtain st' l' where "openNext Started l = (st', l')" by (cases "openNext Started l") auto
  then have "st = Opening \<Longrightarrow> ?thesis" using fs_open [of S r x l Started st' l'] l assms(2) by auto
  moreover have "st = Streaming \<Longrightarrow> ?thesis" using l assms(2) by (blast intro: fs_close)
  moreover have "st = Closing \<Longrightarrow> ?thesis" using assms(2) by (blast intro: fs_reply)
  moreover have "st = Parking \<Longrightarrow> ?thesis" using fs_put [OF _ order_refl put] assms(2) by blast
  moreover have "st = Failing \<or> st = Dropping \<Longrightarrow> ?thesis" using assms(2) by (blast intro: fs_discard)
  ultimately show ?thesis using False by (cases st) blast+
qed

text \<open>C33: 
  A request that owns a session releases it after at most five steps of its own. Each step it takes brings it closer, steps of hooks, of the
  janitor and of other requests do not move it, in no run does it take more than five, and a run after which it has no further step
  has released the session. As long as it owns the session it has a next step; while it waits for the server it has one for every
  way the commands can end.
\<close>
theorem ftp_request_ends:
  assumes "reach ftp_start ftp_step S" "reqs S r = Own st x"
  shows "(\<forall>a T. ftp_act a S T \<longrightarrow>
      (if a = ByRequest r then reqRank (reqs T r) < reqRank (reqs S r) else reqs T r = reqs S r)) \<and>
    (\<forall>as T. ftp_run S as T \<longrightarrow> ownSteps r as \<le> 5 \<and> (reqs T r = Released \<longleftrightarrow> \<not> (\<exists>U. ftp_act (ByRequest r) T U))) \<and>
    (st = Opening \<longrightarrow> (\<exists>l. leases S r = Some l \<and> (\<forall>oe. canEnd oe l \<longrightarrow>
       (\<exists>T. ftp_act (ByRequest r) S T \<and> reqs T r = Own (fst (openNext oe l)) x))))"
proof (intro conjI allI impI)
  have inv: "ftp_inv S" by (rule ftp_sys.reach_inv [OF assms(1)])
  show "if a = ByRequest r then reqRank (reqs T r) < reqRank (reqs S r) else reqs T r = reqs S r" if "ftp_act a S T" for a T
    using own_act_rank [OF that _ assms(2)] other_act_same [OF that] by simp
  fix as T assume run: "ftp_run S as T"
  have rank: "ownSteps r as + reqRank (reqs T r) \<le> reqRank (reqs S r)" "reqs T r \<noteq> Fresh" using run_rank [OF run, of r] assms(2) by simp_all
  have "reqRank (reqs S r) \<le> 5" using assms(2) by (cases st) simp_all
  with rank(1) show "ownSteps r as \<le> 5" by simp
  have invT: "ftp_inv T" by (rule ftp_sys.reach_inv [OF reach_run [OF run assms(1)]])
  show "reqs T r = Released \<longleftrightarrow> \<not> (\<exists>U. ftp_act (ByRequest r) T U)"
    using rank(2) own_enabled [OF invT] by (cases "reqs T r") (auto dest: released_done)
next
  assume o: "st = Opening"
  have inv: "ftp_inv S" by (rule ftp_sys.reach_inv [OF assms(1)])
  obtain l where l: "leases S r = Some l" by (rule ownD [OF inv assms(2)]) (use o in simp_all)
  have "\<exists>T. ftp_act (ByRequest r) S T \<and> reqs T r = Own (fst (openNext oe l)) x" if "canEnd oe l" for oe
  proof -
    obtain st' l' where n: "openNext oe l = (st', l')" by (cases "openNext oe l") auto
    have "ftp_act (ByRequest r) S (setReq r (Own st' x) (setLease r l' S))"
      by (rule fs_open [OF _ l that n]) (use assms(2) o in simp)
    then show ?thesis using n by (intro exI [of _ "setReq r (Own st' x) (setLease r l' S)"]) simp
  qed
  with l show "\<exists>l. leases S r = Some l \<and> (\<forall>oe. canEnd oe l \<longrightarrow>
       (\<exists>T. ftp_act (ByRequest r) S T \<and> reqs T r = Own (fst (openNext oe l)) x))" by blast
qed

text \<open>A run in which the client goes away during the transfer and the session is parked all the same.\<close>

definition ftpDemo0 :: ftpSys where
  "ftpDemo0 = \<lparr>reqs = (\<lambda>_. Fresh), leases = (\<lambda>_. None), sessions = (\<lambda>_. \<lparr>ctlClosed = False, sessLease = None, sessKey = demoKey ''a:21''\<rparr>), nextSid = 0,
     thePool = \<lparr>ftpPool = [], ftpPoolIdle = 0\<rparr>, clock = 0\<rparr>"
definition ftpDemo1 :: ftpSys where
  "ftpDemo1 = setReq 0 (Own Holding (nextSid ftpDemo0))
     (ftpDemo0\<lparr>sessions := (sessions ftpDemo0)(nextSid ftpDemo0 := \<lparr>ctlClosed = False, sessLease = None, sessKey = demoKey ''a:21''\<rparr>), nextSid := Suc (nextSid ftpDemo0)\<rparr>)"
definition ftpDemo2 :: ftpSys where
  "ftpDemo2 = setReq 0 (Own Opening 0) (setLease 0 (bindLease 0) (ftpDemo1\<lparr>sessions := (sessions ftpDemo1)(0 := (sessions ftpDemo1 0)\<lparr>sessLease := Some 0\<rparr>)\<rparr>))"
definition ftpDemo3 :: ftpSys where "ftpDemo3 = setReq 0 (Own Streaming 0) (setLease 0 ((bindLease 0)\<lparr>phase := leaseTransferring\<rparr>) ftpDemo2)"
definition demoLease :: ftpLease where "demoLease = (bindLease 0)\<lparr>phase := leaseTransferring, hook := HookRunning\<rparr>"
definition ftpDemo4 :: ftpSys where
  "ftpDemo4 = (setLease 0 demoLease ftpDemo3)\<lparr>sessions := (if False then (sessions ftpDemo3)(leaseSess ((bindLease 0)\<lparr>phase := leaseTransferring\<rparr>) :=
     (sessions ftpDemo3 (leaseSess ((bindLease 0)\<lparr>phase := leaseTransferring\<rparr>)))\<lparr>ctlClosed := True\<rparr>) else sessions ftpDemo3)\<rparr>"
definition ftpDemo5 :: ftpSys where "ftpDemo5 = setReq 0 (Own Closing 0) (setLease 0 (fst (stopHook demoLease)) ftpDemo4)"
definition ftpDemo6 :: ftpSys where
  "ftpDemo6 = setReq 0 (Own (if ftpReplySynced (Some [TextErr 426]) \<and> \<not> ctlClosed (sessions ftpDemo5 0) then Parking else Dropping) 0) ftpDemo5"
definition demoPark :: "poolSession list \<times> ftpPoolState" where "demoPark = ftpPoolPut (\<lambda>m. m) 3 (parkable 0 ftpDemo6) (thePool ftpDemo6)"
definition ftpDemo7 :: ftpSys where
  "ftpDemo7 = setReq 0 Released (discardAll (fst demoPark) ((swapLease 0 ftpDemo6)\<lparr>thePool := snd demoPark, clock := 3\<rparr>))"

lemma ftpDemo_reach3: "reach ftp_start ftp_step ftpDemo3"
proof -
  have "reach ftp_start ftp_step ftpDemo0" by (rule reach_start) (simp add: ftp_start_def ftpDemo0_def)
  then have "reach ftp_start ftp_step ftpDemo1" by (rule reach_step) (unfold ftpDemo1_def, rule ftp_stepI, rule fs_new, simp add: ftpDemo0_def)
  then have "reach ftp_start ftp_step ftpDemo2" by (rule reach_step) (unfold ftpDemo2_def, rule ftp_stepI, rule fs_bind, simp add: ftpDemo1_def ftpDemo0_def)
  then show ?thesis
    by (rule reach_step)
      (unfold ftpDemo3_def, rule ftp_stepI, rule fs_open [where l = "bindLease 0" and oe = Started],
       simp_all add: ftpDemo2_def bindLease_def beginTransfer_def)
qed

lemma ftpDemo_reach: "reach ftp_start ftp_step ftpDemo7"
proof -
  have "ftp_step ftpDemo3 ftpDemo4" unfolding ftpDemo4_def
    by (rule ftp_stepI, rule fs_hook) (simp_all add: ftpDemo3_def hookStep_def bindLease_def demoLease_def)
  with ftpDemo_reach3 have "reach ftp_start ftp_step ftpDemo4" by (rule reach_step)
  then have "reach ftp_start ftp_step ftpDemo5" by (rule reach_step) (unfold ftpDemo5_def, rule ftp_stepI, rule fs_close, simp_all add: ftpDemo4_def ftpDemo3_def)
  then have "reach ftp_start ftp_step ftpDemo6" by (rule reach_step) (unfold ftpDemo6_def, rule ftp_stepI, rule fs_reply, simp add: ftpDemo5_def)
  moreover have "reqs ftpDemo6 0 = Own Parking 0" "clock ftpDemo6 = 0" by code_simp+
  then have "ftp_step ftpDemo6 ftpDemo7" unfolding ftpDemo7_def by (intro ftp_stepI [OF fs_put]) (simp_all add: demoPark_def)
  ultimately show ?thesis by (rule reach_step)
qed

lemma ftpDemo_pool: "map sid (concat (map snd (ftpPool (thePool ftpDemo7)))) = [0]"
  by code_simp

theorem ftp_session_exclusive_witness:
  "\<not> ctlClosed (sessions ftpDemo3 0) \<and> (\<exists>s. s \<in># sessionsOf (ftpPool (thePool ftpDemo7)) \<and> sid s = 0 \<and> \<not> ctlClosed (sessions ftpDemo7 (sid s)))"
proof
  have "reqs ftpDemo3 0 = Own Streaming 0" by code_simp
  then show "\<not> ctlClosed (sessions ftpDemo3 0)" using ftp_session_exclusive [OF ftpDemo_reach3] by blast
  obtain s where "concat (map snd (ftpPool (thePool ftpDemo7))) = [s]" "sid s = 0" using ftpDemo_pool by auto
  then have s: "s \<in># sessionsOf (ftpPool (thePool ftpDemo7))" "sid s = 0" by (simp_all add: sessionsOf_def)
  then show "\<exists>s. s \<in># sessionsOf (ftpPool (thePool ftpDemo7)) \<and> sid s = 0 \<and> \<not> ctlClosed (sessions ftpDemo7 (sid s))"
    using ftp_session_exclusive [OF ftpDemo_reach, THEN conjunct1, THEN spec, THEN mp, OF s(1)] by (intro exI [of _ s]) simp
qed

theorem ftp_no_leak_witness: "ftpPoolIdle (thePool ftpDemo7) = int (size (sessionsOf (ftpPool (thePool ftpDemo7)))) \<and> ftpPoolIdle (thePool ftpDemo7) = 1"
proof
  show "ftpPoolIdle (thePool ftpDemo7) = int (size (sessionsOf (ftpPool (thePool ftpDemo7))))" using ftp_no_leak [OF ftpDemo_reach] by blast
  show "ftpPoolIdle (thePool ftpDemo7) = 1" by code_simp
qed

theorem ftp_request_ends_witness:
  "ftp_run ftpDemo3 [ByHook 0, ByRequest 0] ftpDemo5 \<and> reqRank (reqs ftpDemo3 0) = 3 \<and> reqRank (reqs ftpDemo5 0) = 2 \<and>
   ownSteps 0 [ByHook 0, ByRequest 0] \<le> 5 \<and> (\<exists>U. ftp_act (ByRequest 0) ftpDemo5 U)"
proof -
  have h: "ftp_act (ByHook 0) ftpDemo3 ftpDemo4" unfolding ftpDemo4_def
    by (rule fs_hook) (simp_all add: ftpDemo3_def hookStep_def bindLease_def demoLease_def)
  have c: "ftp_act (ByRequest 0) ftpDemo4 ftpDemo5" unfolding ftpDemo5_def
    by (rule fs_close) (simp_all add: ftpDemo4_def ftpDemo3_def)
  have q: "reqs ftpDemo3 0 = Own Streaming 0" "reqs ftpDemo5 0 = Own Closing 0" by code_simp+
  have run: "ftp_run ftpDemo3 [ByHook 0, ByRequest 0] ftpDemo5" using h c by auto
  from ftp_request_ends [OF ftpDemo_reach3 q(1)] run
  have "ownSteps 0 [ByHook 0, ByRequest 0] \<le> 5 \<and> (reqs ftpDemo5 0 = Released \<longleftrightarrow> \<not> (\<exists>U. ftp_act (ByRequest 0) ftpDemo5 U))" by blast
  with run q show ?thesis by simp
qed

end
