(* ===== verification/Go_Strconv.thy ===== *)
theory Go_Strconv
  imports Go_Url
begin

text \<open>The parts of Go's \<open>strconv\<close> that headers and argument lists use: decimal \<open>FormatInt\<close> and \<open>ParseInt\<close> with 64 bits.\<close>

section \<open>Decimal numbers\<close>

fun FormatNat :: "nat \<Rightarrow> string" where
  "FormatNat n = (if n < 10 then [char_of (48 + n)] else FormatNat (n div 10) @ [char_of (48 + n mod 10)])"

declare FormatNat.simps [simp del]

definition isDec :: "char \<Rightarrow> bool" where "isDec c \<longleftrightarrow> 48 \<le> (of_char c :: nat) \<and> (of_char c :: nat) \<le> 57"

definition decNat :: "string \<Rightarrow> nat" where "decNat ds = foldl (\<lambda>n c. n * 10 + (of_char c - 48)) 0 ds"

definition ParseInt64 :: "string \<Rightarrow> int option" where
  "ParseInt64 s =
     (let neg = hasPrefix ''-'' s; ds = (if hasPrefix ''-'' s \<or> hasPrefix ''+'' s then tl s else s)
      in if ds = [] \<or> \<not> list_all isDec ds then None
         else (let n = int (decNat ds)
               in if neg then (if n > 2 ^ 63 then None else Some (- n)) else (if n \<ge> 2 ^ 63 then None else Some n)))"

section \<open>Round trip\<close>

lemma digit_char: "d < 10 \<Longrightarrow> (of_char (char_of (48 + d)) :: nat) = 48 + d"
  by simp

lemma FormatNat_chars: "c \<in> set (FormatNat n) \<Longrightarrow> isDec c"
proof (induction n rule: FormatNat.induct)
  case (1 n)
  note prems = 1(2) and ih = 1(1)
  have d: "isDec (char_of (48 + d))" if "d < 10" for d :: nat using digit_char [OF that] that by (simp add: isDec_def)
  show ?case
  proof (cases "n < 10")
    case True then show ?thesis using prems d by (simp add: FormatNat.simps [of n])
  next
    case False
    then have "c \<in> set (FormatNat (n div 10)) \<or> c = char_of (48 + n mod 10)" using prems by (auto simp: FormatNat.simps [of n])
    then show ?thesis using ih [OF False] d [of "n mod 10"] by auto
  qed
qed

lemma FormatNat_ne: "FormatNat n \<noteq> []"
  by (cases "n < 10") (simp_all add: FormatNat.simps [of n])

lemma decNat_snoc: "decNat (ds @ [c]) = decNat ds * 10 + (of_char c - 48)"
  by (simp add: decNat_def)

lemma decNat_Format: "decNat (FormatNat n) = n"
proof (induction n rule: FormatNat.induct)
  case (1 n)
  show ?case
  proof (cases "n < 10")
    case True then show ?thesis by (simp add: FormatNat.simps [of n] decNat_def)
  next
    case False
    have "decNat (FormatNat n) = decNat (FormatNat (n div 10)) * 10 + n mod 10"
      using False by (simp add: FormatNat.simps [of n] decNat_snoc)
    also have "\<dots> = n" using 1 [OF False] by simp
    finally show ?thesis .
  qed
qed

lemma ParseInt_Format: "n < 2 ^ 63 \<Longrightarrow> ParseInt64 (FormatNat n) = Some (int n)"
proof -
  assume n: "n < 2 ^ 63"
  obtain c r where cr: "FormatNat n = c # r" using FormatNat_ne [of n] by (cases "FormatNat n") auto
  have "isDec c" using FormatNat_chars [of c n] cr by simp
  then have "c \<noteq> CHR ''-''" "c \<noteq> CHR ''+''" by (auto simp: isDec_def)
  then have sg: "\<not> hasPrefix ''-'' (FormatNat n)" "\<not> hasPrefix ''+'' (FormatNat n)" unfolding cr by (simp_all add: hasPrefix_def)
  have "list_all isDec (FormatNat n)" using FormatNat_chars by (simp add: list_all_iff)
  moreover have "int n < 2 ^ 63" using n by (metis of_nat_less_iff of_nat_numeral of_nat_power)
  ultimately show ?thesis using FormatNat_ne [of n] sg by (simp add: ParseInt64_def Let_def decNat_Format)
qed

end
