(* ===== verification/Ftp_Open.thy ===== *)
theory Ftp_Open
  imports Hls_Rewrite Ftp_Pool Go_Strconv "HOL-Library.Sublist"
begin

text \<open>
  Opening a remote file at an offset, \<open>ftpstream/ftpstream.go\<close>: URL parsing, the SSRF pre-flight with its cache, HTTP opens
  with or without a range answer, FTP opens with the size policy, and the dispatch. The name resolver, the HTTP server and the FTP server
  are parameters; every definition gives the new state of the cached answers beside its result.
\<close>

section \<open>URLs\<close>

datatype openErr = ErrParse | ErrScheme string | ErrNoHost | ErrGuard guard_err | ErrFetch | ErrRangeNotSatisfiable | ErrStatus int | ErrSkip | ErrFtp ftpErr

record ftpParsed =
  fpAddr :: string
  fpHost :: string
  fpUser :: string
  fpPass :: string
  fpPath :: string
  fpTls :: bool

definition parseFTPURL :: "string \<Rightarrow> openErr + ftpParsed" where
  "parseFTPURL rawURL =
     (case urlParse rawURL of
        None \<Rightarrow> Inl ErrParse
      | Some u \<Rightarrow>
          if Scheme u \<noteq> ''ftp'' \<and> Scheme u \<noteq> ''ftps'' then Inl (ErrScheme (Scheme u))
          else (let host = Hostname u
                in if host = [] then Inl ErrNoHost
                   else (let port = (if Port u = [] then ''21'' else Port u);
                             user = (case User u of None \<Rightarrow> ''anonymous'' | Some (n, _) \<Rightarrow> if n \<noteq> [] then n else ''anonymous'');
                             pass = (case User u of None \<Rightarrow> [] | Some (_, pw) \<Rightarrow> (case pw of None \<Rightarrow> [] | Some p \<Rightarrow> p))
                         in Inr \<lparr>fpAddr = host @ '':'' @ port, fpHost = host, fpUser = user, fpPass = pass, fpPath = Path u, fpTls = (Scheme u = ''ftps'')\<rparr>)))"

definition ftpAllowPrivate :: "string \<Rightarrow> bool" where
  "ftpAllowPrivate env = (let v = trimSpace env in v = ''1'' \<or> map lowerC v = ''true'' \<or> map lowerC v = ''on'')"

section \<open>Pre-flight\<close>

record openEnv =
  resolver :: "string \<Rightarrow> IP list option"
  allowPrivate :: bool
  timeNow :: int
  rangeSizes :: "(ftpSizeKey \<times> int metaEntry) list \<Rightarrow> (ftpSizeKey \<times> int metaEntry) list"
  rangeVerdicts :: "(preflightKey \<times> guard_err option metaEntry) list \<Rightarrow> (preflightKey \<times> guard_err option metaEntry) list"

fun firstVerdict :: "bool \<Rightarrow> IP list \<Rightarrow> guard_err option \<Rightarrow> guard_err option" where
  "firstVerdict bp [] firstErr = firstErr"
| "firstVerdict bp (a # as) firstErr =
     (case ValidateIP a bp of None \<Rightarrow> None | Some e \<Rightarrow> firstVerdict bp as (case firstErr of None \<Rightarrow> Some e | Some f \<Rightarrow> Some f))"

definition preflightHost :: "openEnv \<Rightarrow> string \<Rightarrow> bool \<Rightarrow> ftpMeta \<Rightarrow> guard_err option \<times> ftpMeta" where
  "preflightHost env host blockPrivate M =
     (let k = \<lparr>pfHost = host, pfBlockPrivate = blockPrivate\<rparr>
      in case preflightGet (timeNow env) k M of
           Some verdict \<Rightarrow> (verdict, M)
         | None \<Rightarrow>
             (case resolver env host of
                None \<Rightarrow> (None, M)
              | Some addrs \<Rightarrow>
                  if addrs = [] then (None, M)
                  else (let v = firstVerdict blockPrivate addrs None in (v, preflightPut (rangeVerdicts env) (timeNow env) k v M))))"

section \<open>HTTP\<close>

text \<open>A response: the body holds the bytes that arrive; \<open>bodyFails\<close> tells whether reading ends with an error instead of end of file.
  \<open>contentLength\<close> is \<open>-1\<close> when unknown.\<close>

record httpResp =
  statusCode :: int
  contentLength :: int
  contentRange :: string
  respBody :: "byte list"
  bodyFails :: bool

definition rangeHeader :: "int \<Rightarrow> string option" where
  "rangeHeader offset = (if offset > 0 then Some (''bytes='' @ FormatNat (nat offset) @ ''-'') else None)"

definition totalFromRange :: "string \<Rightarrow> int" where
  "totalFromRange cr =
     (if cr = [] then -1
      else (case cutLast (CHR ''/'') cr of
              None \<Rightarrow> -1
            | Some (_, rest) \<Rightarrow> (case ParseInt64 rest of None \<Rightarrow> -1 | Some n \<Rightarrow> if n \<ge> 0 then n else -1)))"

definition openHTTP :: "openEnv \<Rightarrow> (string \<Rightarrow> string option \<Rightarrow> httpResp option) \<Rightarrow> string \<Rightarrow> int \<Rightarrow> ftpMeta \<Rightarrow>
    (openErr + byte list \<times> int) \<times> ftpMeta" where
  "openHTTP env get rawURL offset M =
     (case urlParse rawURL of
        None \<Rightarrow> (Inl ErrParse, M)
      | Some u \<Rightarrow>
          (case preflightHost env (Hostname u) (\<not> allowPrivate env) M of
             (Some e, M1) \<Rightarrow> (Inl (ErrGuard e), M1)
           | (None, M1) \<Rightarrow>
               (case get rawURL (rangeHeader offset) of
                  None \<Rightarrow> (Inl ErrFetch, M1)
                | Some resp \<Rightarrow>
                    if statusCode resp = 416 then (Inl ErrRangeNotSatisfiable, M1)
                    else if statusCode resp \<noteq> 200 \<and> statusCode resp \<noteq> 206 then (Inl (ErrStatus (statusCode resp)), M1)
                    else
                      (let skip = offset > 0 \<and> statusCode resp = 200 \<and> (contentLength resp < 0 \<or> offset < contentLength resp);
                           short = int (length (respBody resp)) < offset;
                           body = (if skip then drop (nat offset) (respBody resp) else respBody resp);
                           total1 = totalFromRange (contentRange resp);
                           total2 = (if total1 < 0 \<and> contentLength resp > 0
                                    then (if statusCode resp = 200 then contentLength resp else i64 (offset + contentLength resp)) else total1)
                       in if skip \<and> short then (Inl (if bodyFails resp then ErrSkip else ErrRangeNotSatisfiable), M1)
                          else (Inr (body, total2), M1)))))"

section \<open>FTP\<close>

text \<open>What a session meets: the outcome of connecting when it is new, the answers to SIZE and RETR, whether the context is dead after
  RETR, and whether the transfer could begin.\<close>

record ftpServer =
  connectErr :: "ftpErr option"
  fileSize :: "string \<Rightarrow> int option"
  retr :: "string \<Rightarrow> int \<Rightarrow> ftpErr + byte list"
  ctxDead :: bool
  begins :: bool

text \<open>\<open>OpenFail\<close> discards the session, \<open>OpenRefused\<close> returns it to the pool unless the context fired.\<close>

datatype openOutcome = OpenFail ftpErr | OpenRefused ftpErr | OpenStream "byte list" int int

definition sessionOpen :: "openEnv \<Rightarrow> ftpServer \<Rightarrow> bool \<Rightarrow> ftpParsed \<Rightarrow> int \<Rightarrow> bool \<Rightarrow> ftpMeta \<Rightarrow> openOutcome \<times> ftpMeta" where
  "sessionOpen env srv connected p offset requireSize M =
     (case (if connected then None else connectErr srv) of
        Some e \<Rightarrow> (OpenFail e, M)
      | None \<Rightarrow>
          (let sk = \<lparr>szAddr = fpAddr p, szUser = fpUser p, szPath = fpPath p\<rparr>;
               (size0, cached) = (if offset > 0 then ftpSizeGet (timeNow env) sk M else (-1, False));
               (size1, M1) = (if cached then (size0, M)
                              else (case fileSize srv (fpPath p) of
                                      None \<Rightarrow> (-1, M)
                                    | Some sz \<Rightarrow> if sz \<ge> 0 then (sz, ftpSizePut (rangeSizes env) (timeNow env) sk sz M) else (-1, M)));
               off = (if requireSize \<and> offset > 0 \<and> size1 < 0 then 0 else offset)
           in case retr srv (fpPath p) (if off > 0 then off else 0) of
                Inl e \<Rightarrow> (let err = OtherErr ''RETR'' # e
                         in (if ftpSessionHealthy err then OpenRefused err else OpenFail err, ftpSizeForget sk M1))
              | Inr resp \<Rightarrow>
                  if ctxDead srv \<or> \<not> begins srv then (OpenFail [OtherErr ''context''], M1)
                  else (OpenStream resp size1 off, M1)))"

definition outcomeResult :: "openOutcome \<Rightarrow> openErr + byte list \<times> int \<times> int" where
  "outcomeResult out = (case out of OpenFail e \<Rightarrow> Inl (ErrFtp e) | OpenRefused e \<Rightarrow> Inl (ErrFtp e) | OpenStream b n pos \<Rightarrow> Inr (b, n, pos))"

text \<open>\<open>reused\<close> is what a pooled session meets, when there is one; \<open>fresh\<close> what a new one meets; \<open>dead\<close> whether the request's context is dead.\<close>

definition dialFresh :: "openEnv \<Rightarrow> ftpServer \<Rightarrow> ftpParsed \<Rightarrow> int \<Rightarrow> bool \<Rightarrow> ftpMeta \<Rightarrow> (openErr + byte list \<times> int \<times> int) \<times> ftpMeta" where
  "dialFresh env fresh p offset requireSize M =
     (case preflightHost env (fpHost p) (\<not> allowPrivate env) M of
        (Some e, M1) \<Rightarrow> (Inl (ErrGuard e), M1)
      | (None, M1) \<Rightarrow> (case sessionOpen env fresh False p offset requireSize M1 of (out, M2) \<Rightarrow> (outcomeResult out, M2)))"

definition openFTPAt :: "openEnv \<Rightarrow> ftpServer option \<Rightarrow> ftpServer \<Rightarrow> bool \<Rightarrow> string \<Rightarrow> int \<Rightarrow> bool \<Rightarrow> ftpMeta \<Rightarrow>
    (openErr + byte list \<times> int \<times> int) \<times> ftpMeta" where
  "openFTPAt env reused fresh dead rawURL offset requireSize M =
     (case parseFTPURL rawURL of
        Inl e \<Rightarrow> (Inl e, M)
      | Inr p \<Rightarrow>
          (case reused of
             None \<Rightarrow> dialFresh env fresh p offset requireSize M
           | Some srv \<Rightarrow>
               (case sessionOpen env srv True p offset requireSize M of
                  (OpenStream b n pos, M1) \<Rightarrow> (Inr (b, n, pos), M1)
                | (OpenRefused e, M1) \<Rightarrow> if \<not> dead \<and> \<not> ftpSessionHealthy e then dialFresh env fresh p offset requireSize M1 else (Inl (ErrFtp e), M1)
                | (OpenFail e, M1) \<Rightarrow> if \<not> dead \<and> \<not> ftpSessionHealthy e then dialFresh env fresh p offset requireSize M1 else (Inl (ErrFtp e), M1))))"

section \<open>Dispatch\<close>

record openNet =
  httpGet :: "string \<Rightarrow> string option \<Rightarrow> httpResp option"
  ftpReused :: "ftpServer option"
  ftpFresh :: ftpServer
  reqDead :: bool

definition openAt :: "openEnv \<Rightarrow> openNet \<Rightarrow> string \<Rightarrow> int \<Rightarrow> bool \<Rightarrow> ftpMeta \<Rightarrow> (openErr + byte list \<times> int \<times> int) \<times> ftpMeta" where
  "openAt env net rawURL offset requireSize M =
     (case urlParse rawURL of
        None \<Rightarrow> (Inl ErrParse, M)
      | Some u \<Rightarrow>
          if Scheme u = ''ftp'' \<or> Scheme u = ''ftps'' then openFTPAt env (ftpReused net) (ftpFresh net) (reqDead net) rawURL offset requireSize M
          else if Scheme u = ''http'' \<or> Scheme u = ''https'' then
            (case openHTTP env (httpGet net) rawURL offset M of
               (Inl e, M1) \<Rightarrow> (Inl e, M1)
             | (Inr (rc, n), M1) \<Rightarrow>
                 if requireSize \<and> offset > 0 \<and> n < 0 then
                   (case openHTTP env (httpGet net) rawURL 0 M1 of
                      (Inl e, M2) \<Rightarrow> (Inl e, M2)
                    | (Inr (rc2, n2), M2) \<Rightarrow> (Inr (rc2, n2, 0), M2))
                 else (Inr (rc, n, offset), M1))
          else (Inl (ErrScheme (Scheme u)), M))"

definition Open :: "openEnv \<Rightarrow> openNet \<Rightarrow> string \<Rightarrow> int \<Rightarrow> ftpMeta \<Rightarrow> (openErr + byte list \<times> int) \<times> ftpMeta" where
  "Open env net rawURL offset M =
     (case openAt env net rawURL offset False M of (Inl e, M1) \<Rightarrow> (Inl e, M1) | (Inr (rc, n, _), M1) \<Rightarrow> (Inr (rc, n), M1))"

definition OpenRanged :: "openEnv \<Rightarrow> openNet \<Rightarrow> string \<Rightarrow> int \<Rightarrow> ftpMeta \<Rightarrow> (openErr + byte list \<times> int \<times> int) \<times> ftpMeta" where
  "OpenRanged env net rawURL offset M = openAt env net rawURL offset True M"

section \<open>Totals\<close>


section \<open>Pre-flight\<close>

lemma firstVerdict_None: "firstVerdict bp as acc = None \<longleftrightarrow> (\<exists>a \<in> set as. ValidateIP a bp = None) \<or> acc = None \<and> as = []"
  by (induction as arbitrary: acc) (auto split: option.splits)

text \<open>
  A host is turned away exactly when it resolves and every address is one the guard refuses, and the verdict is kept: until it expires the
  next open gets the same answer without asking the resolver. Nothing is kept when the name does not resolve.
\<close>
theorem preflight_exact:
  assumes "meta_ok preflightMaxEntries (preflights M)" "preflightGet (timeNow env) \<lparr>pfHost = host, pfBlockPrivate = bp\<rparr> M = None"
    "preflightHost env host bp M = (v, M')"
  shows "(v = None \<longleftrightarrow> (case resolver env host of None \<Rightarrow> True | Some as \<Rightarrow> as = [] \<or> (\<exists>a \<in> set as. ValidateIP a bp = None))) \<and>
    meta_ok preflightMaxEntries (preflights M') \<and> (v \<noteq> None \<longrightarrow> M' \<noteq> M) \<and>
    (M' = M \<or> (\<forall>env'. timeNow env \<le> timeNow env' \<longrightarrow> timeNow env' < timeNow env + preflightTTL \<longrightarrow> preflightHost env' host bp M' = (v, M')))"
proof -
  let ?k = "\<lparr>pfHost = host, pfBlockPrivate = bp\<rparr>"
  have r: "(v, M') = (case resolver env host of None \<Rightarrow> (None, M)
      | Some as \<Rightarrow> if as = [] then (None, M) else (firstVerdict bp as None, preflightPut (rangeVerdicts env) (timeNow env) ?k (firstVerdict bp as None) M))"
    using assms(2,3) by (auto simp: preflightHost_def Let_def split: option.splits)
  consider "resolver env host = None \<or> resolver env host = Some []" | as where "resolver env host = Some as" "as \<noteq> []" by (cases "resolver env host") auto
  then show ?thesis
  proof cases
    case 1
    then have "v = None" "M' = M" using r by auto
    then show ?thesis using 1 assms(1) by auto
  next
    case 2
    then have v: "v = firstVerdict bp as None" and M': "M' = preflightPut (rangeVerdicts env) (timeNow env) ?k v M" using r by auto
    have cap: "0 < preflightMaxEntries" by (simp add: preflightMaxEntries_def)
    note put = metaPut_ok [OF assms(1) cap, where ord = "rangeVerdicts env" and ttl = preflightTTL and now = "timeNow env" and k = ?k and v = v]
    have ok: "meta_ok preflightMaxEntries (preflights M')" unfolding M' preflightPut_def using put(1) by simp
    have g: "preflightGet t ?k M' = (if t < timeNow env + preflightTTL then Some v else None)" for t
      unfolding preflightGet_def M' preflightPut_def using put(2) by simp
    have "preflightGet (timeNow env) ?k M' \<noteq> preflightGet (timeNow env) ?k M" unfolding g assms(2) by (simp add: preflightTTL_def)
    then have ne: "M' \<noteq> M" by auto
    have "preflightHost env' host bp M' = (v, M')" if "timeNow env' < timeNow env + preflightTTL" for env'
      using g [of "timeNow env'"] that by (simp add: preflightHost_def Let_def)
    then show ?thesis using 2 v firstVerdict_None [of bp as None] ok ne by auto
  qed
qed

definition demoEnv :: openEnv where
  "demoEnv = \<lparr>resolver = (\<lambda>h. if h = ''lan'' then Some [[10, 0, 0, 1]] else if h = ''pub'' then Some [[10, 0, 0, 1], [1, 1, 1, 1]] else None),
     allowPrivate = False, timeNow = 7, rangeSizes = (\<lambda>m. m), rangeVerdicts = (\<lambda>m. m)\<rparr>"

definition noMeta :: ftpMeta where "noMeta = \<lparr>ftpSizes = [], preflights = []\<rparr>"

lemma demo_preflight: "fst (preflightHost demoEnv ''lan'' True noMeta) = Some BlockedPrivate" "fst (preflightHost demoEnv ''pub'' True noMeta) = None"
  "preflightGet (timeNow demoEnv) \<lparr>pfHost = ''lan'', pfBlockPrivate = True\<rparr> noMeta = None"
  by code_simp+

theorem preflight_exact_witness:
  "\<exists>M'. preflightHost demoEnv ''lan'' True noMeta = (Some BlockedPrivate, M') \<and>
     preflightHost (demoEnv\<lparr>resolver := (\<lambda>_. None), timeNow := 8\<rparr>) ''lan'' True M' = (Some BlockedPrivate, M')"
proof -
  obtain M' where p: "preflightHost demoEnv ''lan'' True noMeta = (Some BlockedPrivate, M')"
    using demo_preflight(1) by (cases "preflightHost demoEnv ''lan'' True noMeta") auto
  have "meta_ok preflightMaxEntries (preflights noMeta)" by (simp add: meta_ok_def noMeta_def)
  from preflight_exact [OF this demo_preflight(3) p]
  have ne: "M' \<noteq> noMeta" and later: "M' = noMeta \<or> (\<forall>env'. timeNow demoEnv \<le> timeNow env' \<longrightarrow> timeNow env' < timeNow demoEnv + preflightTTL \<longrightarrow>
      preflightHost env' ''lan'' True M' = (Some BlockedPrivate, M'))" by blast+
  then have "\<forall>env'. timeNow demoEnv \<le> timeNow env' \<longrightarrow> timeNow env' < timeNow demoEnv + preflightTTL \<longrightarrow>
      preflightHost env' ''lan'' True M' = (Some BlockedPrivate, M')" by blast
  from spec [OF this, of "demoEnv\<lparr>resolver := (\<lambda>_. None), timeNow := 8\<rparr>"]
  have "preflightHost (demoEnv\<lparr>resolver := (\<lambda>_. None), timeNow := 8\<rparr>) ''lan'' True M' = (Some BlockedPrivate, M')"
    by (simp add: demoEnv_def preflightTTL_def)
  with p show ?thesis by blast
qed

section \<open>Reading from an offset\<close>






















definition demoFile :: "byte list" where "demoFile = [10, 11, 12, 13, 14]"

text \<open>A server that answers ranges without telling the total, and one that ignores them.\<close>

definition demoGet :: "string \<Rightarrow> string option \<Rightarrow> httpResp option" where
  "demoGet raw rng =
     (if rng = rangeHeader 2 \<and> raw = ''http://pub/star''
      then Some \<lparr>statusCode = 206, contentLength = -1, contentRange = ''bytes 2-4/*'', respBody = drop 2 demoFile, bodyFails = False\<rparr>
      else Some \<lparr>statusCode = 200, contentLength = 5, contentRange = [], respBody = demoFile, bodyFails = False\<rparr>)"

definition demoOpenNet :: openNet where
  "demoOpenNet = \<lparr>httpGet = demoGet, ftpReused = None,
     ftpFresh = \<lparr>connectErr = None, fileSize = (\<lambda>_. None), retr = (\<lambda>_ o1. Inr (drop (nat o1) demoFile)), ctxDead = False, begins = True\<rparr>, reqDead = False\<rparr>"





text \<open>A server that sends the first two of the three remaining bytes of a file of five and no total: the size reported is 4.\<close>

lemma short_partial_size:
  "fst (openAt demoEnv (demoOpenNet\<lparr>httpGet := (\<lambda>_ _. Some \<lparr>statusCode = 206, contentLength = 2, contentRange = ''bytes 2-3/*'', respBody = [12, 13], bodyFails = False\<rparr>)\<rparr>)
     ''http://pub/x'' 2 True noMeta) = Inr ([12, 13], 4, 2)"
  by code_simp

section \<open>The dial address\<close>

definition wordC :: "char \<Rightarrow> bool" where "wordC c \<longleftrightarrow> isAlpha c \<or> isDigit c \<or> c \<in> set ''-._~''"

text \<open>The text of a URL: scheme, credentials, host (an IPv6 address in brackets), port, path.\<close>

definition credText :: "(string \<times> string) option \<Rightarrow> string" where
  "credText cred = (case cred of None \<Rightarrow> [] | Some (us, pw) \<Rightarrow> us @ '':'' @ pw @ ''@'')"

definition hostText :: "string \<Rightarrow> string option \<Rightarrow> string" where
  "hostText host port = (if CHR '':'' \<in> set host then ''['' @ host @ '']'' else host) @ (case port of None \<Rightarrow> [] | Some q \<Rightarrow> '':'' @ q)"

definition ftpText :: "string \<Rightarrow> (string \<times> string) option \<Rightarrow> string \<Rightarrow> string option \<Rightarrow> string \<Rightarrow> string" where
  "ftpText sch cred host port path = sch @ ''://'' @ credText cred @ hostText host port @ path"

definition plainText :: "(string \<times> string) option \<Rightarrow> string \<Rightarrow> string option \<Rightarrow> string \<Rightarrow> bool" where
  "plainText cred host port path \<longleftrightarrow>
     (case cred of None \<Rightarrow> True | Some (us, pw) \<Rightarrow> list_all wordC (us @ pw)) \<and> host \<noteq> [] \<and> list_all (\<lambda>c. wordC c \<or> c = CHR '':'') host \<and>
     (case port of None \<Rightarrow> True | Some q \<Rightarrow> list_all isDigit q) \<and> hasPrefix ''/'' path \<and> list_all (\<lambda>c. wordC c \<or> c = CHR ''/'') path"

lemma wordC_not: "wordC c \<Longrightarrow> c \<notin> set ''#?/:@%[] ''" "wordC c \<Longrightarrow> 32 < ch c \<and> ch c < 127" "isDigit c \<Longrightarrow> wordC c"
  by (auto simp: wordC_def isAlpha_def isDigit_def)

lemma wordC_free: "list_all wordC s \<Longrightarrow> c \<in> set ''#?/:@%[] '' \<Longrightarrow> c \<notin> set s"
  using wordC_not(1) unfolding list_all_iff by blast

lemma cutLast_at: "c \<notin> set b \<Longrightarrow> cutLast c (a @ c # b) = Some (a, b)"
proof -
  assume "c \<notin> set b"
  then have "\<forall>x \<in> set (rev b). x \<noteq> c" by auto
  then have "takeWhile (\<lambda>x. x \<noteq> c) (rev b @ c # rev a) = rev b" "dropWhile (\<lambda>x. x \<noteq> c) (rev b @ c # rev a) = c # rev a"
    by (auto simp: takeWhile_append dropWhile_append)
  then show ?thesis by (simp add: cutLast_def)
qed

lemma cutLast_none: "c \<notin> set s \<Longrightarrow> cutLast c s = None"
  by (simp add: cutLast_def)

lemma unescape_host: "list_all (\<lambda>c. wordC c \<or> c \<in> set '':[]'') s \<Longrightarrow> unescape s encodeHost = Some s"
proof (induction s)
  case (Cons c s)
  then have "c \<noteq> CHR ''%''" "\<not> shouldEscape c encodeHost" using wordC_not(1) [of c] by (auto simp: shouldEscape_def wordC_def)
  with Cons show ?case by simp
qed simp

lemma hostText_chars: "plainText cred host port path \<Longrightarrow> c \<in> set (hostText host port) \<Longrightarrow> wordC c \<or> c \<in> set '':[]''"
  using wordC_not(3) by (cases port) (auto simp: plainText_def hostText_def list_all_iff split: if_splits)

lemma credText_chars: "plainText cred host port path \<Longrightarrow> c \<in> set (credText cred) \<Longrightarrow> wordC c \<or> c \<in> set '':@''"
  by (cases cred) (auto simp: plainText_def credText_def list_all_iff)

lemma path_chars: "plainText cred host port path \<Longrightarrow> c \<in> set path \<Longrightarrow> wordC c \<or> c = CHR ''/''"
  by (auto simp: plainText_def list_all_iff)

lemma hostText_parse:
  assumes "plainText cred host port path"
  shows "parseHost (hostText host port) = Some (hostText host port)"
    "splitPort (hostText host port) = (host, case port of None \<Rightarrow> [] | Some q \<Rightarrow> q)"
proof -
  have h: "list_all (\<lambda>c. wordC c \<or> c = CHR '':'') host" "host \<noteq> []" and q: "list_all isDigit (case port of None \<Rightarrow> [] | Some q \<Rightarrow> q)"
    using assms by (auto simp: plainText_def split: option.splits)
  have qw: "list_all wordC (case port of None \<Rightarrow> [] | Some q \<Rightarrow> q)" using q wordC_not(3) by (auto simp: list_all_iff)
  note qf = wordC_free [OF qw]
  have hf: "c \<notin> set host" if "c \<in> set ''#?/@%[] ''" for c using h(1) wordC_not(1) [of c] that unfolding list_all_iff by auto
  have un: "unescape (hostText host port) encodeHost = Some (hostText host port)"
    by (rule unescape_host) (use h(1) qw in \<open>auto simp: hostText_def list_all_iff split: option.splits\<close>)
  have hd: "hd host \<noteq> CHR ''[''" using hf [of "CHR ''[''"] h(2) by (metis list.set_sel(1) list.set_intros(1,2) set_simps(2))
  have np: "hd (host @ x) = hd host" for x using h(2) by simp
  have br: "\<not> hasPrefix ''['' (host @ x)" for x using hd np [of x] h(2) by (cases host) (auto simp: hasPrefix_def)
  have sp: "splitStr ''%25'' acc (CHR ''['' # host) = None" for acc
  proof -
    have "CHR ''%'' \<notin> set s \<Longrightarrow> splitStr ''%25'' acc s = None" for s acc by (induction s arbitrary: acc) (auto simp: hasPrefix_def)
    from this [of "CHR ''['' # host" acc] show ?thesis using hf [of "CHR ''%''"] by simp
  qed
  show "parseHost (hostText host port) = Some (hostText host port)"
  proof (cases "CHR '':'' \<in> set host")
    case True
    let ?t = "case port of None \<Rightarrow> [] | Some q \<Rightarrow> '':'' @ q"
    have t: "hostText host port = (CHR ''['' # host) @ CHR '']'' # ?t" using True by (simp add: hostText_def)
    have "CHR '']'' \<notin> set ?t" using qf [of "CHR '']''"] by (auto split: option.splits)
    then have c: "cutLast (CHR '']'') (hostText host port) = Some (CHR ''['' # host, ?t)" unfolding t by (rule cutLast_at)
    have "validOptionalPort ?t" using q by (auto simp: validOptionalPort_def split: option.splits)
    moreover have "hasPrefix ''['' (hostText host port)" unfolding t by (simp add: hasPrefix_def)
    ultimately show ?thesis unfolding parseHost_def c option.case prod.case sp by (simp add: un)
  next
    case False
    then have "\<not> hasPrefix ''['' (hostText host port)" using br by (simp add: hostText_def)
    moreover have "cutLast (CHR '':'') (hostText host port) = (case port of None \<Rightarrow> None | Some q \<Rightarrow> Some (host, q))"
      using False qf [of "CHR '':''"] cutLast_at [of "CHR '':''" _ host] cutLast_none [of "CHR '':''" host] by (auto simp: hostText_def split: option.splits)
    ultimately show ?thesis unfolding parseHost_def using q un by (auto simp: validOptionalPort_def split: option.splits)
  qed
  show "splitPort (hostText host port) = (host, case port of None \<Rightarrow> [] | Some q \<Rightarrow> q)"
  proof (cases "CHR '':'' \<in> set host")
    case True
    show ?thesis
    proof (cases port)
      case None
      obtain a b where ab: "host = a @ CHR '':'' # b" "CHR '':'' \<notin> set b" using split_list_last [OF True] by blast
      have t: "hostText host port = (CHR ''['' # a) @ CHR '':'' # (b @ '']'')" using True None ab(1) by (simp add: hostText_def)
      have "CHR '':'' \<notin> set (b @ '']'')" using ab(2) by simp
      then have c: "cutLast (CHR '':'') (hostText host port) = Some (CHR ''['' # a, b @ '']'')" unfolding t by (rule cutLast_at)
      have e: "hostText host port = ''['' @ host @ '']''" using True None by (simp add: hostText_def)
      have "\<not> validOptionalPort (CHR '':'' # b @ '']'')" by (simp add: validOptionalPort_def isDigit_def)
      then have "splitPort (hostText host port) = (if hasPrefix ''['' (''['' @ host @ '']'') then butlast (tl (''['' @ host @ '']'')) else ''['' @ host @ '']'', [])"
        unfolding splitPort_def c using e by simp
      then show ?thesis using None by (simp add: hasPrefix_def butlast_append)
    next
      case (Some q')
      have t: "hostText host port = (CHR ''['' # host @ '']'') @ CHR '':'' # q'" using True Some by (simp add: hostText_def)
      have "CHR '':'' \<notin> set q'" using qf [of "CHR '':''"] Some by simp
      then have c: "cutLast (CHR '':'') (hostText host port) = Some (CHR ''['' # host @ '']'', q')" unfolding t by (rule cutLast_at)
      show ?thesis unfolding splitPort_def c using q Some by (simp add: validOptionalPort_def hasPrefix_def butlast_append)
    qed
  next
    case False
    have c: "cutLast (CHR '':'') (hostText host port) = (case port of None \<Rightarrow> None | Some q \<Rightarrow> Some (host, q))"
      using False qf [of "CHR '':''"] cutLast_at [of "CHR '':''" _ host] cutLast_none [of "CHR '':''" host] by (auto simp: hostText_def split: option.splits)
    show ?thesis unfolding splitPort_def c using q br [of "[]"] False by (auto simp: validOptionalPort_def hostText_def split: option.splits)
  qed
qed

lemma parseAuthority_text:
  assumes "plainText cred host port path"
  shows "parseAuthority (credText cred @ hostText host port) =
    Some (case cred of None \<Rightarrow> None | Some (us, pw) \<Rightarrow> Some (us, Some pw), hostText host port)"
proof -
  have at: "CHR ''@'' \<notin> set (hostText host port)"
    using hostText_chars [OF assms, of "CHR ''@''"] wordC_not(1) [of "CHR ''@''"] by auto
  show ?thesis
  proof (cases cred)
    case None
    then show ?thesis using cutLast_none [OF at] hostText_parse(1) [OF assms] by (simp add: credText_def parseAuthority_def)
  next
    case (Some c)
    obtain us pw where c: "c = (us, pw)" by (cases c)
    have w: "list_all wordC us" "list_all wordC pw" using assms Some c by (auto simp: plainText_def)
    have cl: "cutLast (CHR ''@'') (credText cred @ hostText host port) = Some (us @ CHR '':'' # pw, hostText host port)"
      using cutLast_at [OF at, of "us @ CHR '':'' # pw"] Some c by (simp add: credText_def)
    have v: "validUserinfo (us @ CHR '':'' # pw)" using w by (auto simp: validUserinfo_def wordC_def list_all_iff)
    have ca: "cutAt (CHR '':'') (us @ CHR '':'' # pw) = (us, pw)"
      using wordC_free [OF w(1), of "CHR '':''"] by (auto simp: cutAt_def takeWhile_append dropWhile_append)
    have u: "unescape us encodeUserPassword = Some us" "unescape pw encodeUserPassword = Some pw"
      using wordC_free [OF w(1), of "CHR ''%''"] wordC_free [OF w(2), of "CHR ''%''"] by (simp_all add: unescape_plain)
    show ?thesis unfolding parseAuthority_def cl using v ca u Some c hostText_parse(1) [OF assms] by (simp add: bindO_def)
  qed
qed

lemma urlParse_text:
  assumes p: "plainText cred host port path" and sch: "sch = ''ftp'' \<or> sch = ''ftps''"
  shows "\<exists>u. urlParse (ftpText sch cred host port path) = Some u \<and> Scheme u = sch \<and> Hostname u = host \<and>
    Port u = (case port of None \<Rightarrow> [] | Some q \<Rightarrow> q) \<and> Path u = path \<and>
    User u = (case cred of None \<Rightarrow> None | Some (us, pw) \<Rightarrow> Some (us, Some pw))"
proof -
  let ?a = "credText cred @ hostText host port" and ?t = "ftpText sch cred host port path"
  have ags: "wordC c \<or> c \<in> set '':@[]''" if "c \<in> set ?a" for c
    using that hostText_chars [OF p, of c] credText_chars [OF p, of c] by auto
  have good: "wordC c \<or> c \<in> set '':/@[]''" if "c \<in> set ?t" for c
  proof -
    have "c \<in> set (sch @ ''://'') \<or> c \<in> set ?a \<or> c \<in> set path" using that by (auto simp: ftpText_def)
    moreover have "list_all (\<lambda>c. wordC c \<or> c \<in> set '':/@[]'') ''ftp://''" "list_all (\<lambda>c. wordC c \<or> c \<in> set '':/@[]'') ''ftps://''" by code_simp+
    then have "wordC c \<or> c \<in> set '':/@[]''" if "c \<in> set (sch @ ''://'')" using that sch unfolding list_all_iff by auto
    ultimately show ?thesis using ags [of c] path_chars [OF p, of c] by auto
  qed
  have hash: "CHR ''#'' \<notin> set ?t" "CHR ''?'' \<notin> set ?t"
    using good [of "CHR ''#''"] good [of "CHR ''?''"] wordC_not(1) [of "CHR ''#''"] wordC_not(1) [of "CHR ''?''"] by auto
  have "32 < ch c \<and> ch c < 127" if "c \<in> set ?t" for c using good [OF that] wordC_not(2) [of c] by auto
  then have ctl: "\<not> list_ex (\<lambda>c. ch c < 32 \<or> ch c = 127) ?t" unfolding list_ex_iff by (metis less_asym less_irrefl)
  have sl: "CHR ''/'' \<notin> set ?a" using ags [of "CHR ''/''"] wordC_not(1) [of "CHR ''/''"] by auto
  obtain p' where p': "path = CHR ''/'' # p'" using p by (cases path) (auto simp: plainText_def hasPrefix_def)
  have pp: "CHR ''%'' \<notin> set path" using p wordC_not(1) [of "CHR ''%''"] by (auto simp: plainText_def list_all_iff)
  have tk: "takeWhile (\<lambda>c. c \<noteq> CHR ''/'') (?a @ path) = ?a" "dropWhile (\<lambda>c. c \<noteq> CHR ''/'') (?a @ path) = path"
    using sl unfolding p' by (auto simp: takeWhile_append dropWhile_append)
  have t: "?t = sch @ ''://'' @ ?a @ path" by (simp add: ftpText_def)
  have gs: "getScheme ?t = Some (sch, ''//'' @ ?a @ path)" unfolding t using sch by (auto simp: getScheme_def isAlpha_def isDigit_def)
  have nq: "CHR ''?'' \<notin> set (''//'' @ ?a @ path)" using hash(2) unfolding t by auto
  have sq: "splitQuery (''//'' @ ?a @ path) = (''//'' @ ?a @ path, False, [])"
  proof -
    have "last (''//'' @ ?a @ path) \<noteq> CHR ''?''" using nq by (metis append_is_Nil_conv last_in_set list.distinct(1))
    moreover have "cutAt (CHR ''?'') (''//'' @ ?a @ path) = (''//'' @ ?a @ path, [])" using nq by (simp add: cutAt_def while_stop)
    ultimately show ?thesis unfolding splitQuery_def by simp
  qed
  have low: "map lowerC sch = sch" using sch by (auto simp: lowerC_def)
  let ?u = "zeroURL\<lparr>Scheme := sch, ForceQuery := False, RawQuery := []\<rparr>"
  have pr: "parseRest ?u (''//'' @ ?a @ path) = bindO (parseAuthority ?a) (\<lambda>(us, h). setPath (?u\<lparr>User := us, Host := h\<rparr>) path)"
    unfolding parseRest_def using sch tk by (auto simp: hasPrefix_def Let_def)
  obtain u where u: "parseRest ?u (''//'' @ ?a @ path) = Some u" "Scheme u = sch" "Host u = hostText host port" "Path u = path"
    "User u = (case cred of None \<Rightarrow> None | Some (us, pw) \<Rightarrow> Some (us, Some pw))"
    unfolding pr parseAuthority_text [OF p] using unescape_plain [OF pp, of encodePath] by (simp add: bindO_def setPath_def)
  have "?t \<noteq> ''*''" unfolding t using sch by auto
  then have "parseNoFrag ?t = Some u" unfolding parseNoFrag_def gs using ctl sq low u(1) by (simp add: bindO_def del: append_Cons append_Nil)
  moreover have "cutAt (CHR ''#'') ?t = (?t, [])" using hash(1) by (simp add: cutAt_def while_stop)
  ultimately have "urlParse ?t = Some u" unfolding urlParse_def by (simp add: bindO_def)
  then show ?thesis using u hostText_parse(2) [OF p] by (simp add: Hostname_def Port_def)
qed

text \<open>C36: 
  What an FTP open makes of a URL, on its text: scheme, optional credentials, host, optional port and path, of letters, digits and the
  marks \<open>-._~\<close>, an IPv6 host in brackets. Host, user, password, path and the TLS flag are those of the text, the port is 21 when there is none, and
  the address dialled is the host, a colon and the port. It splits back into the two for a host name or an IPv4 address, but the brackets of an IPv6
  host are gone by then: such an address cannot be split, so no IPv6 literal can be dialled.
\<close>
theorem ftp_dial_address:
  assumes "plainText cred host port path" "sch = ''ftp'' \<or> sch = ''ftps''" "q = (case port of None \<Rightarrow> ''21'' | Some [] \<Rightarrow> ''21'' | Some (d # ds) \<Rightarrow> d # ds)"
  shows "parseFTPURL (ftpText sch cred host port path) =
      Inr \<lparr>fpAddr = host @ '':'' @ q, fpHost = host, fpUser = (case cred of None \<Rightarrow> ''anonymous'' | Some (us, pw) \<Rightarrow> if us = [] then ''anonymous'' else us),
        fpPass = (case cred of None \<Rightarrow> [] | Some (us, pw) \<Rightarrow> pw), fpPath = path, fpTls = (sch = ''ftps'')\<rparr> \<and>
    SplitHostPort (host @ '':'' @ q) = (if CHR '':'' \<in> set host then None else Some (host, q))"
proof
  obtain u where u: "urlParse (ftpText sch cred host port path) = Some u" "Scheme u = sch" "Hostname u = host"
    "Port u = (case port of None \<Rightarrow> [] | Some q \<Rightarrow> q)" "Path u = path" "User u = (case cred of None \<Rightarrow> None | Some (us, pw) \<Rightarrow> Some (us, Some pw))"
    using urlParse_text [OF assms(1,2)] by blast
  have h: "host \<noteq> []" "list_all (\<lambda>c. wordC c \<or> c = CHR '':'') host" using assms(1) by (auto simp: plainText_def)
  have q: "(if Port u = [] then ''21'' else Port u) = q" using u(4) assms(3) by (auto split: option.splits list.splits)
  show "parseFTPURL (ftpText sch cred host port path) =
      Inr \<lparr>fpAddr = host @ '':'' @ q, fpHost = host, fpUser = (case cred of None \<Rightarrow> ''anonymous'' | Some (us, pw) \<Rightarrow> if us = [] then ''anonymous'' else us),
        fpPass = (case cred of None \<Rightarrow> [] | Some (us, pw) \<Rightarrow> pw), fpPath = path, fpTls = (sch = ''ftps'')\<rparr>"
    unfolding parseFTPURL_def u(1) using u(2-6) q h(1) assms(2) by (auto simp: Let_def split: option.splits)
  have "list_all isDigit q" using assms(1,3) by (auto simp: plainText_def isDigit_def split: option.splits list.splits)
  then have qw: "list_all wordC q" using wordC_not(3) by (auto simp: list_all_iff)
  have pc: "CHR '':'' \<notin> set q" "CHR ''['' \<notin> set q" "CHR '']'' \<notin> set q" by (rule wordC_free [OF qw]; simp)+
  have hb: "CHR ''['' \<notin> set host" "CHR '']'' \<notin> set host" using h(2) wordC_not(1) unfolding list_all_iff by fastforce+
  have "\<forall>x \<in> set (rev q). x \<noteq> CHR '':''" using pc(1) by auto
  then have "takeWhile (\<lambda>c. c \<noteq> CHR '':'') (rev q @ CHR '':'' # rev host) = rev q" by (subst takeWhile_append2) simp_all
  then have lc: "lastColon (host @ CHR '':'' # q) = Some (length host)" unfolding lastColon_def by simp
  have hd: "hd (host @ CHR '':'' # q) \<noteq> CHR ''[''" using hb(1) h(1) by (cases host) auto
  show "SplitHostPort (host @ '':'' @ q) = (if CHR '':'' \<in> set host then None else Some (host, q))"
    using lc hd hb pc unfolding SplitHostPort_def by simp
qed

theorem ftp_dial_address_witness:
  "parseFTPURL ''ftp://me:pw@h:2121/f'' = Inr \<lparr>fpAddr = ''h:2121'', fpHost = ''h'', fpUser = ''me'', fpPass = ''pw'', fpPath = ''/f'', fpTls = False\<rparr> \<and>
   SplitHostPort ''h:2121'' = Some (''h'', ''2121'') \<and>
   parseFTPURL ''ftps://[2001:db8::1]/f'' =
     Inr \<lparr>fpAddr = ''2001:db8::1:21'', fpHost = ''2001:db8::1'', fpUser = ''anonymous'', fpPass = [], fpPath = ''/f'', fpTls = True\<rparr> \<and>
   SplitHostPort ''2001:db8::1:21'' = None"
proof -
  have t: "plainText (Some (''me'', ''pw'')) ''h'' (Some ''2121'') ''/f''" "plainText None ''2001:db8::1'' None ''/f''" by code_simp+
  show ?thesis
    using ftp_dial_address [OF t(1), of "''ftp''" "''2121''"] ftp_dial_address [OF t(2), of "''ftps''" "''21''"]
    by (simp add: ftpText_def credText_def hostText_def)
qed

end
