(* ===== verification/Dvr.thy ===== *)
theory Dvr
  imports Hls_Rewrite Proxy_Clients Go_Strconv "HOL-Library.Sublist" "HOL-Library.List_Lexorder" "HOL-Library.Product_Lexorder" "HOL-Library.Char_ord"
begin

text \<open>
  The recorder of live streams, \<open>dvr/dvr.go\<close>: names and paths, the table of recordings with their sidecar files, starting,
  supervising, stopping, deleting, retention and the reload after a restart. A critical section is one function; concurrent callers,
  the recorder processes, the janitor and a crash are steps. The file system is part of the state. Unicode classes, time formatting and
  the outcome of starting the recorder and of writing a sidecar are parameters; removing a file and asking for its size succeed when it
  exists. Names are lists of code points, other strings byte strings; times are nanoseconds.
\<close>

section \<open>Constants and configuration\<close>

type_synonym rune = nat

definition StatusStarting :: string where "StatusStarting = ''starting''"
definition StatusRecording :: string where "StatusRecording = ''recording''"
definition StatusCompleted :: string where "StatusCompleted = ''completed''"
definition StatusStopped :: string where "StatusStopped = ''stopped''"
definition StatusFailed :: string where "StatusFailed = ''failed''"

lemmas status_defs = StatusStarting_def StatusRecording_def StatusCompleted_def StatusStopped_def StatusFailed_def

datatype dvr_err = ErrNoFFmpeg | ErrBusy | ErrDiskFull | ErrDuplicate | ErrNotFound | ErrNotActive | ErrClosed | ErrBadPath | ErrPersist | ErrSpawn

definition second :: int where "second = 1000000000"

text \<open>Go's division truncates.\<close>

definition truncDiv :: "int \<Rightarrow> int \<Rightarrow> int" where "truncDiv a b = (if a < 0 then - ((- a) div b) else a div b)"
definition maxNameRunes :: nat where "maxNameRunes = 100"
definition maxFileNameRunes :: nat where "maxFileNameRunes = 50"
definition stderrTail :: nat where "stderrTail = 4096"

record dvrCfg =
  DefaultDuration :: int
  MaxDuration :: int
  MaxActive :: int
  MaxBytes :: int
  Retention :: int
  StopGrace :: int
  Overrun :: int
  SweepEvery :: int

definition normCfg :: "dvrCfg \<Rightarrow> dvrCfg" where
  "normCfg c =
     (let mx = (if MaxDuration c \<le> 0 then 8 * 3600 * second else MaxDuration c);
          df = (if DefaultDuration c \<le> 0 then 4 * 3600 * second else DefaultDuration c)
      in c\<lparr>MaxDuration := mx, DefaultDuration := (if df > mx then mx else df), MaxActive := (if MaxActive c \<le> 0 then 2 else MaxActive c),
           StopGrace := (if StopGrace c \<le> 0 then 10 * second else StopGrace c), Overrun := (if Overrun c \<le> 0 then 30 * second else Overrun c),
           SweepEvery := (if SweepEvery c \<le> 0 then 3600 * second else SweepEvery c)\<rparr>)"

definition ClampDuration :: "dvrCfg \<Rightarrow> int \<Rightarrow> int" where
  "ClampDuration cfg d = (if d \<le> 0 then DefaultDuration cfg else if d > MaxDuration cfg then MaxDuration cfg else d)"

text \<open>What the code uses of the language's libraries beyond what is written out here.\<close>

record dvrLib =
  isLetter :: "rune \<Rightarrow> bool"
  isNumber :: "rune \<Rightarrow> bool"
  fmtStamp :: "int \<Rightarrow> string"
  fmtMinute :: "int \<Rightarrow> string"
  fmt3339 :: "int \<Rightarrow> string"
  redactSecrets :: "string \<Rightarrow> string"

section \<open>Names\<close>

definition runes :: "string \<Rightarrow> rune list" where "runes s = map of_char s"

definition isCtl :: "rune \<Rightarrow> bool" where "isCtl r \<longleftrightarrow> r < 32 \<or> 127 \<le> r \<and> r < 160"

definition isSpaceR :: "rune \<Rightarrow> bool" where
  "isSpaceR r \<longleftrightarrow> r \<in> {9, 10, 11, 12, 13, 32, 133, 160, 0x1680, 0x2028, 0x2029, 0x202F, 0x205F, 0x3000} \<or> 0x2000 \<le> r \<and> r \<le> 0x200A"

definition trimR :: "(rune \<Rightarrow> bool) \<Rightarrow> rune list \<Rightarrow> rune list" where
  "trimR P s = rev (dropWhile P (rev (dropWhile P s)))"

definition displayName :: "rune list \<Rightarrow> rune list" where
  "displayName nm = trimR isSpaceR (take maxNameRunes (filter (\<lambda>r. \<not> (isCtl r \<or> r = 0xFFFD)) (trimR isSpaceR nm)))"

text \<open>One rune of the stem: kept, a space turned into an underscore, or dropped.\<close>

definition stemRune :: "dvrLib \<Rightarrow> rune \<Rightarrow> rune option" where
  "stemRune lib r = (if isLetter lib r \<or> isNumber lib r \<or> r = 45 \<or> r = 95 then Some r else if r = 32 then Some 95 else None)"

definition stemOf :: "dvrLib \<Rightarrow> rune list \<Rightarrow> rune list" where
  "stemOf lib display =
     (let s = trimR (\<lambda>r. r = 95) (take maxFileNameRunes (List.map_filter (stemRune lib) display)) in if s = [] then runes ''recording'' else s)"

definition SanitizeName :: "dvrLib \<Rightarrow> rune list \<Rightarrow> rune list \<times> rune list" where
  "SanitizeName lib nm = (displayName nm, stemOf lib (displayName nm))"

definition secretKey :: "string \<Rightarrow> bool" where
  "secretKey kv =
     (let k0 = fst (cutAt (CHR ''='') kv); k = (case unescape k0 encodeQueryComponent of Some dk \<Rightarrow> dk | None \<Rightarrow> k0)
      in k = ''api_password'' \<or> k = ''token'')"

definition RedactURL :: "string \<Rightarrow> string" where
  "RedactURL raw =
     (if CHR ''?'' \<notin> set raw then raw
      else (let (hd1, rest0) = cutAt (CHR ''?'') raw;
                (rest, frag) = (if CHR ''#'' \<in> set rest0 then (fst (cutAt (CHR ''#'') rest0), dropWhile (\<lambda>c. c \<noteq> CHR ''#'') rest0) else (rest0, []));
                keep = filter (\<lambda>kv. \<not> secretKey kv) (splitOn (CHR ''&'') rest)
            in if keep = [] then hd1 @ frag else hd1 @ ''?'' @ joinWith ''&'' keep @ frag))"

definition lowHex :: "char \<Rightarrow> bool" where "lowHex c \<longleftrightarrow> isDec c \<or> c \<in> set ''abcdef''"

definition ValidID :: "string \<Rightarrow> bool" where
  "ValidID i \<longleftrightarrow> length i = 24 \<and> list_all isDec (take 8 i) \<and> i ! 8 = CHR ''_'' \<and> list_all isDec (take 6 (drop 9 i)) \<and> i ! 15 = CHR ''_'' \<and>
     list_all lowHex (drop 16 i)"

definition hexByte :: "byte \<Rightarrow> string" where
  "hexByte b = [''0123456789abcdef'' ! (unat b div 16), ''0123456789abcdef'' ! (unat b mod 16)]"

definition newID :: "dvrLib \<Rightarrow> int \<Rightarrow> byte list \<Rightarrow> string" where
  "newID lib now rnd = fmtStamp lib now @ ''_'' @ concat (map hexByte rnd)"

section \<open>Recordings and files\<close>

record stored =
  stId :: string
  stName :: "rune list"
  stUrl :: string
  stFile :: "rune list"
  stStatus :: string
  stStarted :: int
  stStopped :: "int option"
  stSeconds :: int
  stSize :: int
  stErr :: string
  stMaxDur :: int

record dvrEntry =
  est :: stored
  stopReq :: bool
  finDone :: bool

text \<open>The directory: sizes of media files, the sidecars (\<open>None\<close> when the content does not decode), left-over temporary files.\<close>

record dvrDisk =
  mediaSize :: "rune list \<Rightarrow> int option"
  sidecars :: "(string \<times> stored option) list"
  tempFiles :: "string list"

record dvrState =
  recs :: "(string \<times> dvrEntry) list"
  dvrClosed :: bool
  disk :: dvrDisk

definition activeStatus :: "string \<Rightarrow> bool" where
  "activeStatus s \<longleftrightarrow> s = StatusStarting \<or> s = StatusRecording"

definition recActive :: "dvrEntry \<Rightarrow> bool" where "recActive e = activeStatus (stStatus (est e))"

definition slashR :: rune where "slashR = 47"
definition backslashR :: rune where "backslashR = 92"

definition baseName :: "rune list \<Rightarrow> rune list" where
  "baseName f =
     (if f = [] then runes ''.''
      else (let g = rev (dropWhile (\<lambda>c. c = slashR) (rev f)) in if g = [] then [slashR] else rev (takeWhile (\<lambda>c. c \<noteq> slashR) (rev g))))"

definition prefixR :: "rune list \<Rightarrow> rune list \<Rightarrow> bool" where "prefixR p s \<longleftrightarrow> take (length p) s = p"
definition suffixR :: "rune list \<Rightarrow> rune list \<Rightarrow> bool" where "suffixR p s \<longleftrightarrow> length p \<le> length s \<and> drop (length s - length p) s = p"

text \<open>The file name inside the recordings directory, \<open>None\<close> for the empty path.\<close>

definition pathOf :: "stored \<Rightarrow> rune list option" where
  "pathOf s =
     (let f = stFile s
      in if f = [] \<or> f \<noteq> baseName f \<or> \<not> suffixR (runes ''.ts'') f \<or> slashR \<in> set f \<or> backslashR \<in> set f \<or> \<not> prefixR (runes (stId s @ ''_'')) f
         then None else Some f)"

definition statSize :: "dvrDisk \<Rightarrow> stored \<Rightarrow> int option" where
  "statSize d s = (case pathOf s of None \<Rightarrow> None | Some f \<Rightarrow> mediaSize d f)"

definition removeMedia :: "stored \<Rightarrow> dvrDisk \<Rightarrow> dvrDisk" where
  "removeMedia s d = (case pathOf s of None \<Rightarrow> d | Some f \<Rightarrow> d\<lparr>mediaSize := (mediaSize d)(f := None)\<rparr>)"

definition writeSidecar :: "bool \<Rightarrow> stored \<Rightarrow> dvrDisk \<Rightarrow> dvrDisk" where
  "writeSidecar ok s d = (if ok then d\<lparr>sidecars := AList.update (stId s) (Some s) (sidecars d)\<rparr> else d)"

definition removeFiles :: "stored \<Rightarrow> dvrDisk \<Rightarrow> dvrDisk" where
  "removeFiles s d =
     (let d1 = removeMedia s d in if ValidID (stId s) then d1\<lparr>sidecars := AList.delete (stId s) (sidecars d1)\<rparr> else d1)"

definition usedBytesLocked :: "dvrState \<Rightarrow> int" where
  "usedBytesLocked m = sum_list (map (\<lambda>(i, e). case statSize (disk m) (est e) of Some n \<Rightarrow> n | None \<Rightarrow> 0) (recs m))"

record Recording =
  rId :: string
  rName :: "rune list"
  rUrl :: string
  rFilePath :: "rune list"
  rStatus :: string
  rStartedAt :: string
  rStoppedAt :: "string option"
  rDurationSeconds :: "int option"
  rFileSizeBytes :: "int option"
  rErrorMessage :: "string option"
  rIsActive :: bool
  rElapsedSeconds :: "int option"
  rMaxDurationSecs :: int

definition viewLocked :: "dvrLib \<Rightarrow> int \<Rightarrow> dvrDisk \<Rightarrow> dvrEntry \<Rightarrow> Recording" where
  "viewLocked lib now d e =
     (let s = est e;
          r = \<lparr>rId = stId s, rName = stName s, rUrl = stUrl s, rFilePath = stFile s, rStatus = stStatus s, rStartedAt = fmt3339 lib (stStarted s),
               rStoppedAt = None, rDurationSeconds = None, rFileSizeBytes = None, rErrorMessage = None, rIsActive = recActive e,
               rElapsedSeconds = None, rMaxDurationSecs = stMaxDur s\<rparr>
      in if recActive e then r\<lparr>rElapsedSeconds := Some (truncDiv (now - stStarted s) second), rFileSizeBytes := statSize d s\<rparr>
         else (let r1 = (case stStopped s of None \<Rightarrow> r | Some t \<Rightarrow> r\<lparr>rStoppedAt := Some (fmt3339 lib t), rDurationSeconds := Some (stSeconds s)\<rparr>)
               in r1\<lparr>rFileSizeBytes := Some (stSize s), rErrorMessage := (if stErr s \<noteq> [] then Some (stErr s) else None)\<rparr>))"

section \<open>Starting\<close>

record startRequest =
  rqName :: "rune list"
  rqSource :: string
  rqInput :: string
  rqDuration :: int

definition FormatInt :: "int \<Rightarrow> string" where
  "FormatInt n = (if n < 0 then ''-'' @ FormatNat (nat (- n)) else FormatNat (nat n))"

text \<open>Arguments of the recorder; the output path is the file name inside the directory.\<close>

datatype arg = A string | OutPath "rune list"

definition BuildArgs :: "string \<Rightarrow> rune list \<Rightarrow> int \<Rightarrow> int \<Rightarrow> arg list" where
  "BuildArgs input out dur maxBytes =
     map A [''-hide_banner'', ''-loglevel'', ''warning'', ''-nostats'', ''-y'', ''-protocol_whitelist'', ''http,https,tcp,tls,crypto'',
       ''-fflags'', ''+genpts+discardcorrupt+igndts'', ''-rw_timeout'', ''30000000'', ''-reconnect'', ''1'', ''-reconnect_streamed'', ''1'',
       ''-reconnect_delay_max'', ''2'', ''-i'', input, ''-t'', FormatInt (truncDiv dur second), ''-map'', ''0:v:0?'', ''-map'', ''0:a:0?'', ''-c'', ''copy''] @
     (if maxBytes > 0 then [A ''-fs'', A (FormatInt maxBytes)] else []) @ [A ''-f'', A ''mpegts'', OutPath out]"

text \<open>What the operating system answers: whether the recorder binary is found, the random bytes, and whether the sidecar is written,
  the recorder starts, and the sidecar is written again.\<close>

record startAnswers =
  saNow :: int
  saRand :: "byte list"
  saFound :: bool
  saPersist :: bool
  saSpawn :: bool
  saPersist2 :: bool

definition newStored :: "dvrLib \<Rightarrow> dvrCfg \<Rightarrow> startAnswers \<Rightarrow> startRequest \<Rightarrow> stored" where
  "newStored lib cfg a rq =
     (let (display, stem) = SanitizeName lib (rqName rq); i = newID lib (saNow a) (saRand a)
      in \<lparr>stId = i, stName = (if display = [] then runes (''Recording '' @ fmtMinute lib (saNow a)) else display), stUrl = RedactURL (rqSource rq),
          stFile = runes (i @ ''_'') @ stem @ runes ''.ts'', stStatus = StatusStarting, stStarted = saNow a, stStopped = None, stSeconds = 0, stSize = 0,
          stErr = [], stMaxDur = truncDiv (ClampDuration cfg (rqDuration rq)) second\<rparr>)"

text \<open>The result: a snapshot or none, an error or none, the arguments of the recorder if one was started, the new state.\<close>

definition startRec :: "dvrLib \<Rightarrow> dvrCfg \<Rightarrow> ((string \<times> dvrEntry) list \<Rightarrow> (string \<times> dvrEntry) list) \<Rightarrow> startAnswers \<Rightarrow> startRequest \<Rightarrow> dvrState \<Rightarrow>
    Recording option \<times> dvr_err option \<times> arg list option \<times> dvrState" where
  "startRec lib cfg ord a rq m =
     (let source = RedactURL (rqSource rq)
      in if dvrClosed m then (None, Some ErrClosed, None, m)
         else case find (\<lambda>(i, e). recActive e \<and> stUrl (est e) = source) (rangeOver ord (recs m)) of
           Some (i, e) \<Rightarrow> (Some (viewLocked lib (saNow a) (disk m) e), Some ErrDuplicate, None, m)
         | None \<Rightarrow>
             if \<not> saFound a then (None, Some ErrNoFFmpeg, None, m)
             else if int (length (filter (\<lambda>(i, e). recActive e) (recs m))) \<ge> MaxActive cfg then (None, Some ErrBusy, None, m)
             else if MaxBytes cfg > 0 \<and> usedBytesLocked m \<ge> MaxBytes cfg then (None, Some ErrDiskFull, None, m)
             else
               (let maxB = (if MaxBytes cfg > 0 then MaxBytes cfg - usedBytesLocked m else 0); s = newStored lib cfg a rq
                in case pathOf s of
                     None \<Rightarrow> (None, Some ErrBadPath, None, m)
                   | Some out \<Rightarrow>
                       if \<not> saPersist a then (None, Some ErrPersist, None, m)
                       else (let d1 = writeSidecar True s (disk m); args = BuildArgs (rqInput rq) out (ClampDuration cfg (rqDuration rq)) maxB
                             in if \<not> saSpawn a then (None, Some ErrSpawn, None, m\<lparr>disk := removeFiles s d1\<rparr>)
                                else (let s2 = s\<lparr>stStatus := StatusRecording\<rparr>; e = \<lparr>est = s2, stopReq = False, finDone = False\<rparr>;
                                          m2 = m\<lparr>disk := writeSidecar (saPersist2 a) s2 d1, recs := AList.update (stId s) e (recs m)\<rparr>
                                      in (Some (viewLocked lib (saNow a) (disk m2) e), None, Some args, m2)))))"

section \<open>Supervision\<close>

definition lastN :: "nat \<Rightarrow> 'a list \<Rightarrow> 'a list" where "lastN n xs = drop (length xs - n) xs"

definition failureMessage :: "dvrLib \<Rightarrow> string \<Rightarrow> string \<Rightarrow> string" where
  "failureMessage lib err out =
     (let o1 = redactSecrets lib (lastN 500 (trimSpace out)) in if o1 = [] then err else err @ '': '' @ o1)"




text \<open>The end of \<open>supervise\<close>: \<open>capped\<close> when the time limit ended the wait, \<open>waitErr\<close> what the recorder's exit gave.\<close>

definition finalStored :: "dvrLib \<Rightarrow> int \<Rightarrow> bool \<Rightarrow> string option \<Rightarrow> string \<Rightarrow> dvrDisk \<Rightarrow> dvrEntry \<Rightarrow> stored" where
  "finalStored lib now capped waitErr output d e =
     (let s = (est e)\<lparr>stStopped := Some now, stSeconds := truncDiv (now - stStarted (est e)) second\<rparr>;
          s1 = (case statSize d s of None \<Rightarrow> s | Some n \<Rightarrow> s\<lparr>stSize := n\<rparr>)
      in if stopReq e then s1\<lparr>stStatus := StatusStopped\<rparr>
         else (case waitErr of
                 None \<Rightarrow> s1\<lparr>stStatus := StatusCompleted\<rparr>
               | Some err \<Rightarrow> if capped then s1\<lparr>stStatus := StatusCompleted\<rparr>
                            else s1\<lparr>stStatus := StatusFailed, stErr := failureMessage lib err output\<rparr>))"


section \<open>Stopping and deleting\<close>







section \<open>Reloading\<close>

text \<open>A recording that was active when the process ended is failed; \<open>persist\<close> tells for each id whether its sidecar can be rewritten.\<close>

definition reloaded :: "int \<Rightarrow> dvrDisk \<Rightarrow> stored \<Rightarrow> stored" where
  "reloaded now d s =
     (if activeStatus (stStatus s) then
        (let s1 = s\<lparr>stStatus := StatusFailed, stErr := ''interrupted by server restart'', stStopped := Some now\<rparr>
         in case statSize d s of
              None \<Rightarrow> s1\<lparr>stSize := 0\<rparr>
            | Some n \<Rightarrow> s1\<lparr>stSize := n, stSeconds := truncDiv (now - stStarted s) second\<rparr>)
      else (case statSize d s of None \<Rightarrow> s | Some n \<Rightarrow> s\<lparr>stSize := n\<rparr>))"

definition loadOne :: "int \<Rightarrow> (string \<Rightarrow> bool) \<Rightarrow> string \<times> stored option \<Rightarrow> dvrState \<Rightarrow> dvrState" where
  "loadOne now persist car m =
     (let i = fst car
      in if \<not> ValidID i then m
         else (case snd car of
                 None \<Rightarrow> m
               | Some s \<Rightarrow>
                   if stId s \<noteq> i \<or> pathOf s = None then m
                   else (let s1 = reloaded now (disk m) s;
                             d1 = (if activeStatus (stStatus s) \<and> stSize s1 = 0 then removeMedia s (disk m) else disk m);
                             d2 = (if activeStatus (stStatus s) then writeSidecar (persist i) s1 d1 else d1)
                         in m\<lparr>disk := d2, recs := AList.update i \<lparr>est = s1, stopReq = False, finDone = True\<rparr> (recs m)\<rparr>)))"

definition load :: "int \<Rightarrow> (string \<Rightarrow> bool) \<Rightarrow> dvrDisk \<Rightarrow> dvrState" where
  "load now persist d = fold (loadOne now persist) (sidecars d) \<lparr>recs = [], dvrClosed = False, disk = d\<lparr>tempFiles := []\<rparr>\<rparr>"


section \<open>Queries\<close>

definition getRec :: "dvrLib \<Rightarrow> int \<Rightarrow> string \<Rightarrow> dvrState \<Rightarrow> Recording option" where
  "getRec lib now i m = map_option (viewLocked lib now (disk m)) (map_of (recs m) i)"

text \<open>Newest first, by the formatted start time and then the id.\<close>

definition listRecs :: "dvrLib \<Rightarrow> int \<Rightarrow> ((string \<times> dvrEntry) list \<Rightarrow> (string \<times> dvrEntry) list) \<Rightarrow> string \<Rightarrow> dvrState \<Rightarrow> Recording list" where
  "listRecs lib now ord st m =
     rev (sort_key (\<lambda>r. (rStartedAt r, rId r))
       (map (\<lambda>(i, e). viewLocked lib now (disk m) e) (filter (\<lambda>(i, e). st = [] \<or> stStatus (est e) = st) (rangeOver ord (recs m)))))"

definition activeRecs :: "dvrLib \<Rightarrow> int \<Rightarrow> ((string \<times> dvrEntry) list \<Rightarrow> (string \<times> dvrEntry) list) \<Rightarrow> dvrState \<Rightarrow> Recording list" where
  "activeRecs lib now ord m = filter rIsActive (listRecs lib now ord [] m)"

definition isActiveRec :: "string \<Rightarrow> dvrState \<Rightarrow> bool" where
  "isActiveRec i m = (case map_of (recs m) i of None \<Rightarrow> False | Some e \<Rightarrow> recActive e)"

text \<open>\<open>Open\<close>: the file name that is opened, if it exists.\<close>

definition openRec :: "string \<Rightarrow> dvrState \<Rightarrow> dvr_err + rune list" where
  "openRec i m =
     (case map_of (recs m) i of
        None \<Rightarrow> Inl ErrNotFound
      | Some e \<Rightarrow> (case pathOf (est e) of None \<Rightarrow> Inl ErrNotFound | Some f \<Rightarrow> if mediaSize (disk m) f = None then Inl ErrNotFound else Inr f))"

section \<open>The recorder's output\<close>

definition tailWrite :: "nat \<Rightarrow> byte list \<Rightarrow> byte list \<Rightarrow> byte list" where
  "tailWrite mx b p = (let b1 = b @ p in if length b1 > mx then drop (length b1 - mx) b1 else b1)"

section \<open>Steps\<close>



section \<open>Invariant\<close>




text \<open>What the sidecars say about one recording. A size may have been learned from the file since it was written.\<close>

definition loadable :: "string \<Rightarrow> stored option \<Rightarrow> bool" where
  "loadable i b \<longleftrightarrow> ValidID i \<and> (case b of None \<Rightarrow> False | Some s \<Rightarrow> stId s = i \<and> pathOf s \<noteq> None)"

definition synced :: "dvrDisk \<Rightarrow> string \<Rightarrow> dvrEntry option \<Rightarrow> bool" where
  "synced d i oe \<longleftrightarrow>
     (case oe of
        None \<Rightarrow> (\<forall>b. map_of (sidecars d) i = Some b \<longrightarrow> \<not> loadable i b)
      | Some e \<Rightarrow> (\<exists>s. map_of (sidecars d) i = Some (Some s) \<and> s\<lparr>stSize := 0\<rparr> = (est e)\<lparr>stSize := 0\<rparr>))"


lemma final_inactive [simp]:
  "\<not> activeStatus StatusCompleted" "\<not> activeStatus StatusStopped" "\<not> activeStatus StatusFailed" "activeStatus StatusStarting" "activeStatus StatusRecording"
  by (simp_all add: activeStatus_def status_defs)

lemma pathOf_cong: "stId s = stId t \<Longrightarrow> stFile s = stFile t \<Longrightarrow> pathOf s = pathOf t"
  by (simp add: pathOf_def)

subsection \<open>The table\<close>








subsection \<open>The sidecars\<close>

lemma write_cars:
  "distinct (map fst (sidecars d)) \<Longrightarrow> distinct (map fst (sidecars (writeSidecar b s d)))"
  "map_of (sidecars (writeSidecar b s d)) j = (if b \<and> j = stId s then Some (Some s) else map_of (sidecars d) j)"
  by (simp_all add: writeSidecar_def distinct_update AList.update_conv')

lemma media_cars [simp]: "sidecars (removeMedia s d) = sidecars d"
  by (simp add: removeMedia_def split: option.split)




lemma synced_new: "synced (writeSidecar True s d) (stId s) (Some \<lparr>est = s, stopReq = b, finDone = c\<rparr>)"
  by (simp add: synced_def write_cars)






subsection \<open>Starting\<close>



subsection \<open>Other steps\<close>

lemma size_irrelevant: "s\<lparr>stSize := 0\<rparr> = t\<lparr>stSize := 0\<rparr> \<Longrightarrow> stId s = stId t \<and> stFile s = stFile t \<and> stStatus s = stStatus t"
  by (metis stored.select_convs stored.surjective stored.update_convs(9))







subsection \<open>Files of different recordings\<close>

lemma runes_append [simp]: "runes (a @ b) = runes a @ runes b" by (simp add: runes_def)
lemma runes_length [simp]: "length (runes a) = length a" by (simp add: runes_def)





lemma stat_write [simp]: "statSize (writeSidecar b s d) t = statSize d t"
  by (simp add: statSize_def writeSidecar_def split: option.split)

subsection \<open>Reloading\<close>


lemma reloaded_fields:
  "stId (reloaded now d s) = stId s" "stFile (reloaded now d s) = stFile s" "stUrl (reloaded now d s) = stUrl s" "stName (reloaded now d s) = stName s"
  "stStarted (reloaded now d s) = stStarted s" "stMaxDur (reloaded now d s) = stMaxDur s"
  "\<not> activeStatus (stStatus (reloaded now d s))"
  "stStatus (reloaded now d s) = (if activeStatus (stStatus s) then StatusFailed else stStatus s)"
  "\<not> activeStatus (stStatus s) \<Longrightarrow> (reloaded now d s)\<lparr>stSize := 0\<rparr> = s\<lparr>stSize := 0\<rparr>"
  by (auto simp: reloaded_def Let_def split: option.splits)

lemma reloaded_path [simp]: "pathOf (reloaded now d s) = pathOf s"
  by (rule pathOf_cong) (simp_all add: reloaded_fields)















section \<open>Properties\<close>




section \<open>Names\<close>

text \<open>Letters and digits are no path separators and no dots.\<close>

definition lib_ok :: "dvrLib \<Rightarrow> bool" where
  "lib_ok lib \<longleftrightarrow> (\<forall>r \<in> {46, 47, 92}. \<not> isLetter lib r \<and> \<not> isNumber lib r)"

lemma trimR_set: "set (trimR P s) \<subseteq> set s"
  by (auto simp: trimR_def dest!: set_dropWhileD)

lemma trimR_length: "length (trimR P s) \<le> length s"
  unfolding trimR_def by (metis length_dropWhile_le length_rev order_trans)

lemma stem_mem: "r \<in> set (trimR P (take n (List.map_filter g d))) \<Longrightarrow> \<exists>x. g x = Some r"
proof -
  assume "r \<in> set (trimR P (take n (List.map_filter g d)))"
  then have "r \<in> set (List.map_filter g d)" using trimR_set in_set_takeD by fast
  then show ?thesis by (auto simp: List.map_filter_def)
qed

lemma stem_safe:
  assumes "lib_ok lib"
  shows "stemOf lib d \<noteq> []" "length (stemOf lib d) \<le> maxFileNameRunes" "\<forall>r \<in> set (stemOf lib d). r \<noteq> 46 \<and> r \<noteq> 47 \<and> r \<noteq> 92"
proof -
  let ?t = "take maxFileNameRunes (List.map_filter (stemRune lib) d)"
  let ?s = "trimR (\<lambda>r. r = 95) ?t"
  have c: "r \<noteq> 46 \<and> r \<noteq> 47 \<and> r \<noteq> 92" if "stemRune lib x = Some r" for x r using that assms by (auto simp: stemRune_def lib_ok_def split: if_splits)
  have "\<forall>r \<in> set ?s. r \<noteq> 46 \<and> r \<noteq> 47 \<and> r \<noteq> 92"
    using stem_mem c by blast
  moreover have "\<forall>r \<in> set (runes ''recording''). r \<noteq> 46 \<and> r \<noteq> 47 \<and> r \<noteq> 92" by (simp add: runes_def)
  ultimately show "\<forall>r \<in> set (stemOf lib d). r \<noteq> 46 \<and> r \<noteq> 47 \<and> r \<noteq> 92" by (simp add: stemOf_def Let_def)
  have "length ?s \<le> maxFileNameRunes" using trimR_length [of "\<lambda>r. r = 95" ?t] by simp
  then show "length (stemOf lib d) \<le> maxFileNameRunes" by (simp add: stemOf_def Let_def maxFileNameRunes_def)
  show "stemOf lib d \<noteq> []" by (simp add: stemOf_def Let_def runes_def)
qed

lemma baseName_plain: "f \<noteq> [] \<Longrightarrow> slashR \<notin> set f \<Longrightarrow> baseName f = f"
proof -
  assume f: "f \<noteq> []" "slashR \<notin> set f"
  then have "dropWhile (\<lambda>c. c = slashR) (rev f) = rev f" by (cases f rule: rev_cases) auto
  moreover have "takeWhile (\<lambda>c. c \<noteq> slashR) (rev f) = rev f" using f(2) by (auto simp: takeWhile_eq_all_conv)
  ultimately show ?thesis using f(1) unfolding baseName_def Let_def by (simp del: takeWhile_eq_all_conv)
qed

lemma validID_chars:
  assumes "ValidID i" "c \<in> set i"
  shows "isDec c \<or> c = CHR ''_'' \<or> c \<in> set ''abcdef''"
proof -
  have l: "length i = 24" using assms(1) by (simp add: ValidID_def)
  have a: "take 8 i @ i ! 8 # drop 9 i = i" using id_take_nth_drop [of 8 i] l by simp
  have b: "take 6 (drop 9 i) @ drop 15 i = drop 9 i" using append_take_drop_id [of 6 "drop 9 i"] by simp
  have c: "i ! 15 # drop 16 i = drop 15 i" using Cons_nth_drop_Suc [of 15 i] l by simp
  have "c \<in> set (take 8 i @ i ! 8 # take 6 (drop 9 i) @ i ! 15 # drop 16 i)" unfolding c b a by (rule assms(2))
  with assms show ?thesis by (auto simp: ValidID_def list_all_iff lowHex_def)
qed

text \<open>
  Whatever title a client sends, a new recording gets a file name that is a plain name in the recordings directory: the id, a stem of one
  to fifty letters, digits, dashes and underscores, and the extension. In particular starting never fails for a bad path.
\<close>
theorem dvr_names_safe:
  assumes "lib_ok lib" "ValidID (newID lib (saNow a) (saRand a))"
  shows "\<exists>stem. pathOf (newStored lib cfg a rq) = Some (runes (newID lib (saNow a) (saRand a) @ ''_'') @ stem @ runes ''.ts'') \<and>
    stem \<noteq> [] \<and> length stem \<le> maxFileNameRunes \<and> (\<forall>r \<in> set stem. isLetter lib r \<or> isNumber lib r \<or> r = 45 \<or> r = 95 \<or> r \<in> set (runes ''recording''))"
proof -
  let ?i = "newID lib (saNow a) (saRand a)" and ?stem = "stemOf lib (displayName (rqName rq))"
  let ?f = "runes (?i @ ''_'') @ ?stem @ runes ''.ts''"
  have f: "stFile (newStored lib cfg a rq) = ?f" "stId (newStored lib cfg a rq) = ?i" by (simp_all add: newStored_def Let_def SanitizeName_def)
  have "(of_char c :: nat) \<noteq> 47 \<and> (of_char c :: nat) \<noteq> 92" if "c \<in> set ?i" for c
    using validID_chars [OF assms(2) that] by (auto simp: isDec_def)
  then have "slashR \<notin> set (runes ?i)" "backslashR \<notin> set (runes ?i)" by (force simp: runes_def slashR_def backslashR_def)+
  moreover have "slashR \<notin> set ?stem" "backslashR \<notin> set ?stem" using stem_safe(3) [OF assms(1)] by (auto simp: slashR_def backslashR_def)
  ultimately have ns: "slashR \<notin> set ?f" "backslashR \<notin> set ?f" by (auto simp: runes_def slashR_def backslashR_def)
  have "pathOf (newStored lib cfg a rq) = Some ?f"
    using ns baseName_plain [of ?f] by (simp add: pathOf_def f Let_def suffixR_def prefixR_def runes_def)
  moreover have "isLetter lib r \<or> isNumber lib r \<or> r = 45 \<or> r = 95 \<or> r \<in> set (runes ''recording'')" if "r \<in> set ?stem" for r
  proof (cases "r \<in> set (runes ''recording'')")
    case False
    then have "r \<in> set (trimR (\<lambda>r. r = 95) (take maxFileNameRunes (List.map_filter (stemRune lib) (displayName (rqName rq)))))"
      using that by (simp add: stemOf_def Let_def split: if_splits)
    then obtain x where "stemRune lib x = Some r" using stem_mem by blast
    then show ?thesis by (auto simp: stemRune_def split: if_splits)
  qed simp
  ultimately show ?thesis using stem_safe(1,2) [OF assms(1)] by (intro exI [of _ ?stem]) blast
qed

section \<open>Redaction\<close>












section \<open>Recorder output and final states\<close>

lemma tail_write: "tailWrite mx (lastN mx xs) p = lastN mx (xs @ p)"
proof (cases "mx < length xs + length p - (length xs - mx)")
  case False
  then have "p = [] \<or> length xs + length p \<le> mx" by (cases p) auto
  with False show ?thesis by (auto simp: tailWrite_def lastN_def Let_def)
qed (simp add: tailWrite_def lastN_def Let_def)

text \<open>
  How a recording ends: stopped when anyone asked for it, whatever the recorder did; completed when the recorder ended well or had to be
  ended at the time limit; failed otherwise. Its length and the last known size are recorded.
\<close>
lemma final_status:
  "stStatus (finalStored lib now capped err out1 d e) =
     (if stopReq e then StatusStopped else if capped \<or> err = None then StatusCompleted else StatusFailed)"
  "stStopped (finalStored lib now capped err out1 d e) = Some now"
  "stSeconds (finalStored lib now capped err out1 d e) = truncDiv (now - stStarted (est e)) second"
  by (simp_all add: finalStored_def Let_def split: option.split)

section \<open>A run\<close>

definition dvrDemoLib :: dvrLib where
  "dvrDemoLib = \<lparr>isLetter = (\<lambda>r. 65 \<le> r \<and> r \<le> 90 \<or> 97 \<le> r \<and> r \<le> 122), isNumber = (\<lambda>r. 48 \<le> r \<and> r \<le> 57), fmtStamp = (\<lambda>t. ''20260102_030405''),
     fmtMinute = (\<lambda>t. ''2026-01-02 03:04''), fmt3339 = (\<lambda>t. ''2026-01-02T03:04:05Z''), redactSecrets = (\<lambda>s. s)\<rparr>"

definition dvrDemoCfg :: dvrCfg where
  "dvrDemoCfg = \<lparr>DefaultDuration = 60 * second, MaxDuration = 90 * second, MaxActive = 2, MaxBytes = 1000, Retention = 0, StopGrace = second, Overrun = second, SweepEvery = second\<rparr>"

definition dvrDemoAnswers :: "byte list \<Rightarrow> startAnswers" where
  "dvrDemoAnswers rnd = \<lparr>saNow = 0, saRand = rnd, saFound = True, saPersist = True, saSpawn = True, saPersist2 = True\<rparr>"

definition dvrDemoReq :: "string \<Rightarrow> startRequest" where
  "dvrDemoReq src = \<lparr>rqName = runes ''../News 1'', rqSource = src, rqInput = ''http://127.0.0.1/in'', rqDuration = 0\<rparr>"

definition dvrDemoDisk :: dvrDisk where "dvrDemoDisk = \<lparr>mediaSize = Map.empty, sidecars = [], tempFiles = []\<rparr>"

definition dvrDemo0 :: dvrState where "dvrDemo0 = load 0 (\<lambda>_. True) dvrDemoDisk"

definition dvrDemo1 :: dvrState where
  "dvrDemo1 = snd (snd (snd (startRec dvrDemoLib dvrDemoCfg (\<lambda>l. l) (dvrDemoAnswers [0, 1, 2, 255]) (dvrDemoReq ''http://a/x?token=1'') dvrDemo0)))"

lemma dvrDemo_id: "newID dvrDemoLib t [0, 1, 2, 255] = ''20260102_030405_000102ff''"
  by (simp add: newID_def dvrDemoLib_def hexByte_def)

lemma dvrDemo_valid: "ValidID ''20260102_030405_000102ff''"
  by code_simp







theorem dvr_names_safe_witness:
  "\<exists>stem. pathOf (newStored dvrDemoLib dvrDemoCfg (dvrDemoAnswers [0, 1, 2, 255]) (dvrDemoReq ''http://a/x'')) =
     Some (runes ''20260102_030405_000102ff_'' @ stem @ runes ''.ts'') \<and> stem \<noteq> [] \<and> length stem \<le> maxFileNameRunes"
  using dvr_names_safe [of dvrDemoLib "dvrDemoAnswers [0, 1, 2, 255]" dvrDemoCfg "dvrDemoReq ''http://a/x''"] dvrDemo_valid
  by (force simp: lib_ok_def dvrDemoLib_def [THEN arg_cong, of isLetter] dvrDemoLib_def [THEN arg_cong, of isNumber] dvrDemoAnswers_def dvrDemo_id)

text \<open>
  The remaining storage is handed to each recorder as its own limit. Two recordings started one after the other, before either has written
  anything, are both allowed the whole of it, so together they may use twice what is configured as the total.
\<close>
lemma quota_shared:
  "MaxBytes dvrDemoCfg = 1000"
  "fst (snd (snd (startRec dvrDemoLib dvrDemoCfg (\<lambda>l. l) (dvrDemoAnswers [0, 1, 2, 255]) (dvrDemoReq ''http://a/x?token=1'') dvrDemo0))) =
     Some (BuildArgs ''http://127.0.0.1/in'' (runes ''20260102_030405_000102ff_News_1.ts'') (60 * second) 1000)"
  "fst (snd (snd (startRec dvrDemoLib dvrDemoCfg (\<lambda>l. l) (dvrDemoAnswers [9, 9, 9, 9]) (dvrDemoReq ''http://b/y'') dvrDemo1))) =
     Some (BuildArgs ''http://127.0.0.1/in'' (runes ''20260102_030405_09090909_News_1.ts'') (60 * second) 1000)"
  by code_simp+

end
