(* ===== verification/Spec2Isabelle.thy ===== *)
theory Spec2Isabelle
  imports Byte_Budget Slot_Sem Mem_Piece Drm_Decrypt Nzb_Workers Nzb_Session Proxy_Generate Seg_Check
    Seg_Index Trackers Ftp_Lease Ftp_Open Dvr
begin

text \<open>
  Verification of rivulet-engine, a streaming server in Go that turns torrents, Usenet posts and web streams into HTTP
  media streams (\<open>internal/\<close> holds its packages). The development models the parts that carry the server's own logic
  and proves what makes each of them correct.

  \<^bold>\<open>Parts and how they interact.\<close> The torrent engine (\<open>engine\<close>) stores downloaded pieces in an in-RAM store
  (\<open>engine/memstorage.go\<close>) that evicts old pieces under a byte budget. The NZB engine (\<open>nzb\<close>) parses a post, fetches its
  articles over several connections, decodes yEnc and assembles the file while readers already stream it. The stream
  proxy (\<open>streamproxy\<close>) authorises a request, fetches segments under an in-flight byte budget and an SSRF guard
  (\<open>netguard\<close>), caches them, decrypts DRM segments and rewrites HLS playlists so that their URIs come back to the proxy.
  The transcoder (\<open>media\<close>) shares encoder slots through a semaphore, checks what the encoder wrote and caches it on disk. Remote files
  are opened over HTTP or FTP (\<open>ftpstream\<close>), with FTP control connections kept for reuse between seeks. The DVR (\<open>dvr\<close>) records proxied streams to files.

  \<^bold>\<open>Theories.\<close>

  \<^item> \<open>Prelude\<close>: Go outcomes (value, error, panic), \<open>int64\<close> arithmetic, checked slices, the invariant principle of state
    machines (locale \<open>inv_system\<close>) and the first-in first-out grant loop (locale \<open>fifo_grant\<close>).
  \<^item> \<open>Byte_Budget\<close> (\<open>streamproxy/membudget.go\<close>): the byte semaphore; \<open>acquire\<close> is split where it blocks and callers are a
    step relation. The budget is never exceeded, no waiter is lost, grants are in arrival order. Interprets
    \<open>fifo_grant\<close> and \<open>inv_system\<close>.
  \<^item> \<open>Slot_Sem\<close> (\<open>media/slotsem.go\<close>): the transcode slots, with a limit that may change between calls.
  \<^item> \<open>Go_Heap\<close>, \<open>Mem_Storage\<close>, \<open>Mem_Piece\<close> (\<open>engine/memstorage.go\<close>): \<open>container/heap\<close> over the LRU heap, the store's
    operations and the piece operations; accounting, eviction order, reads and writes. The heap contract is a locale
    interpreted on \<open>lruHeap\<close>.
  \<^item> \<open>Drm_Box\<close>, \<open>Drm_Frag\<close>, \<open>Drm_Cipher\<close>, \<open>Drm_Modes\<close>, \<open>Drm_Decrypt\<close> (\<open>streamproxy/drm.go\<close>): box and fragment parsers on byte
    lists with checked slices, the CBC, CTR and cbcs modes, the in-place decryption of a segment. Parsers never panic,
    the modes invert encryption, only \<open>mdat\<close> bytes change; one overflow does panic. AES is a parameter.
  \<^item> \<open>Yenc\<close>, \<open>Nzb_Assembly\<close>, \<open>Nzb_Workers\<close>, \<open>Nzb_Session\<close> (\<open>nzb/*.go\<close>): the decoder, the assembly state and its critical
    sections, the workers and readers as a step relation, parsing and the sequential download. A complete assembly
    tiles the file, readers see only written bytes, some worker can always go on.
  \<^item> \<open>Seg_Cache\<close> (\<open>streamproxy/cache.go\<close>): the LRU segment cache refines a bounded recency list; the buffered fetch
    returns whole segments and its reservation.
  \<^item> \<open>Seg_Flight\<close> (\<open>streamproxy/cache.go\<close>): the cache key and the single-flight fetch, with concurrent callers as a step
    relation over cache, flight table and byte budget. Flights never strand a follower, results are genuine, the budget
    comes back. Interprets \<open>inv_system\<close>.
  \<^item> \<open>Net_Addr\<close>, \<open>Go_Url\<close>, \<open>Go_Strconv\<close>: the parts of Go's \<open>net\<close>, \<open>net/url\<close>, \<open>strconv\<close>, \<open>encoding/base64\<close> and header maps that the proxy uses.
  \<^item> \<open>Netguard\<close> (\<open>netguard/*.go\<close>): the guard accepts exactly the public unicast addresses and what is allowlisted.
  \<^item> \<open>Proxy_Auth\<close> (\<open>streamproxy/auth.go\<close> and the request helpers of \<open>streamproxy.go\<close>): client address, access list, tokens,
    proxy URLs. Sub-URLs carry exactly their parent's grant; the client address cannot be forged.
  \<^item> \<open>Proxy_Guard\<close> (\<open>streamproxy.go\<close>): validation of destinations and upstream proxies, header filters, external base URL.
  \<^item> \<open>Proxy_Clients\<close> (\<open>streamproxy.go\<close>, \<open>embed.go\<close>): the caches of upstream clients, egress addresses and resolved embed
    pages; one locale (\<open>capped_map\<close>) interpreted on all three.
  \<^item> \<open>Dash_Rewrite\<close> (\<open>streamproxy/dash.go\<close>): manifest rewriting over XML tokens refines a recursive rewriting of the element
    tree; template URLs carry a token bound to their literal prefix.
  \<^item> \<open>Hls_Rewrite\<close> (\<open>streamproxy/hls.go\<close>): playlist rewriting, URI resolution with its fast path, prefetch.
  \<^item> \<open>Proxy_Serve\<close>, \<open>Proxy_Generate\<close> (\<open>streamproxy.go\<close>, \<open>hls.go\<close>, \<open>dash.go\<close>, \<open>embed.go\<close>, \<open>extractor.go\<close>): the request handlers, as
    functions of the answers of upstreams, budget, cache and client that give the reply and the trace of effects. The
    contract of a media endpoint is the locale \<open>media_endpoint\<close>, interpreted on the stream, HLS and DASH endpoints: the
    budget is balanced, fetches are guarded, replies are hardened. Generated URLs are exactly the grant asked for.
  \<^item> \<open>Ts_Scan\<close>, \<open>Seg_Check\<close> (\<open>media/segcheck.go\<close>): the MPEG-TS scanner with checked indexing, the watch on the encoder's log
    and the decision to serve, cache or repeat a transcoded segment.
  \<^item> \<open>Seg_Index\<close> (\<open>media/segindex.go\<close>): the index of finished segment files; its total is exact, and eviction takes the least
    recently used segments that nobody needs, only while over the cap. Interprets \<open>inv_system\<close>.
  \<^item> \<open>Trackers\<close> (\<open>engine/trackers.go\<close>): parsing, probing, ranking, merging and refreshing of tracker lists, with the cache file.
    The list in use is never empty, ranked lists are the fastest live trackers, a saved list is read back. Interprets \<open>inv_system\<close>.
  \<^item> \<open>Ftp_Pool\<close>, \<open>Ftp_Lease\<close>, \<open>Ftp_Open\<close> (\<open>ftpstream/*.go\<close>): the pool of FTP control connections and the caches beside it; requests,
    cancellation hooks and the janitor as a step relation over sessions, leases and pool, in which no session has two owners, none is
    lost and an aborted transfer does not cost its connection; opening a URL at an offset over HTTP or FTP.
  \<^item> \<open>Dvr\<close> (\<open>dvr/dvr.go\<close>): the recorder of live streams with its directory as part of the state. Limits and uniqueness of active
    recordings, plain file names for every title, redaction of credentials, and that a restart at any moment finds every recording
    again. Interprets \<open>inv_system\<close>.

  \<^bold>\<open>Conventions.\<close> A Go struct is a record, an error a constructor, a mutex-protected section one function on the state; a
  blocking call is split at its wait, and concurrent callers are steps of an inductive relation, so that properties hold
  for every interleaving. Pointers that matter for aliasing are identities (waiters, list elements, pieces). Strings are
  byte strings. Clocks, random sources, resolvers, ciphers, JSON and XML decoding are parameters; what a property needs
  of them is a named hypothesis with a witness. The iteration order of Go maps is a parameter too.

  \<^bold>\<open>Bounds and fuel.\<close> Every definition is total: loops recurse structurally or with a termination measure, and no fuel is
  used. Integers wrap at 64 bits where the code can reach that (\<open>i64\<close>); elsewhere lengths are naturals because they are
  lengths of existing buffers.

  \<^bold>\<open>Not modelled.\<close> The torrent client, ffmpeg and other processes, the HTTP server, sockets, disk persistence and the API
  handlers around the modelled components, because they only pass data to third-party code or the operating system. Within
  modelled components: log output, metrics, and the janitor goroutine's timer (its sweep is a step).

  \<^bold>\<open>Next.\<close> The NZB session endpoints and the HLS transcoding sessions.
\<close>

end
